(* ===== verification/Cql_Prelude.thy ===== *)
theory Cql_Prelude
  imports Main "HOL-Library.Word"
begin

text \<open>
  Shared vocabulary of the development: the machine types of
  \<open>src/src/base/base_core.h\<close>, byte strings, half-open ranges, and the generic facts on
  lists that several components use.

  A \<open>String8\<close> of the program is a pointer with a size; all components read it as a
  finite sequence of bytes, so it is modelled by \<^typ>\<open>string\<close> (a list of
  8-bit \<^typ>\<open>char\<close>). Sizes and positions (\<open>U64\<close>) that index into an
  object in memory are \<^typ>\<open>nat\<close>; arithmetic that can wrap is on words.
\<close>

section \<open>Machine types\<close>

type_synonym u8 = "8 word"
type_synonym u16 = "16 word"
type_synonym u32 = "32 word"
type_synonym u64 = "64 word"
type_synonym s32 = int
type_synonym s64 = int

type_synonym string8 = string

text \<open>\<open>str8_defs\<close> collects the unfolding equations of the small string helpers,
  \<open>sql_prims\<close> those of the token cursor.\<close>

named_theorems str8_defs
named_theorems sql_prims

section \<open>Bytes\<close>

text \<open>The numeric value of a byte, and the byte with a value (modulo 256).\<close>

abbreviation byte :: "char \<Rightarrow> nat" where
  "byte c \<equiv> of_char c"

abbreviation byte_chr :: "nat \<Rightarrow> char" where
  "byte_chr n \<equiv> char_of n"

definition ascii :: "string8 \<Rightarrow> bool" where
  "ascii s \<longleftrightarrow> (\<forall>c \<in> set s. byte c < 128)"

lemma ascii_simps [simp]:
  "ascii []"
  "ascii (c # s) \<longleftrightarrow> byte c < 128 \<and> ascii s"
  "ascii (s @ t) \<longleftrightarrow> ascii s \<and> ascii t"
  by (auto simp: ascii_def)

lemma ascii_nth: "ascii s \<Longrightarrow> i < length s \<Longrightarrow> byte (s ! i) < 128"
  by (simp add: ascii_def)

section \<open>Ranges\<close>

text \<open>\<open>Rng1U64\<close> (\<open>base_math.h\<close>): a half-open range of positions.\<close>

record rng1u64 =
  rmin :: nat
  rmax :: nat

definition r1u64 :: "nat \<Rightarrow> nat \<Rightarrow> rng1u64" where
  "r1u64 lo hi = (if lo \<le> hi then \<lparr>rmin = lo, rmax = hi\<rparr> else \<lparr>rmin = hi, rmax = lo\<rparr>)"

lemma r1u64_ordered [simp]:
  "lo \<le> hi \<Longrightarrow> rmin (r1u64 lo hi) = lo"
  "lo \<le> hi \<Longrightarrow> rmax (r1u64 lo hi) = hi"
  by (simp_all add: r1u64_def)

section \<open>Lists\<close>

lemma take_drop_slice: "lo \<le> hi \<Longrightarrow> hi \<le> length xs \<Longrightarrow> length (take (hi - lo) (drop lo xs)) = hi - lo"
  by simp

lemma slice_split:
  "lo \<le> mid \<Longrightarrow> mid \<le> hi \<Longrightarrow>
   take (mid - lo) (drop lo xs) @ take (hi - mid) (drop mid xs) = take (hi - lo) (drop lo xs)"
proof -
  assume a: "lo \<le> mid" "mid \<le> hi"
  have "take (hi - lo) (drop lo xs) = take ((mid - lo) + (hi - mid)) (drop lo xs)"
    using a by simp
  also have "\<dots> = take (mid - lo) (drop lo xs) @ take (hi - mid) (drop (mid - lo) (drop lo xs))"
    by (rule take_add)
  also have "drop (mid - lo) (drop lo xs) = drop mid xs"
    using a by simp
  finally show ?thesis by simp
qed

text \<open>The first position of a list with a property, as the search loops of the code return it.\<close>

fun first_index :: "('a \<Rightarrow> bool) \<Rightarrow> 'a list \<Rightarrow> nat option" where
  "first_index p [] = None"
| "first_index p (x # xs) = (if p x then Some 0 else map_option Suc (first_index p xs))"

lemma first_index_Some_iff:
  "first_index p xs = Some i \<longleftrightarrow> i < length xs \<and> p (xs ! i) \<and> (\<forall>j < i. \<not> p (xs ! j))"
proof (induction xs arbitrary: i)
  case (Cons x xs)
  show ?case
  proof (cases i)
    case (Suc k)
    then show ?thesis using Cons [of k] by (auto simp: less_Suc_eq_0_disj)
  qed (use Cons in auto)
qed simp

lemma first_index_Some: "first_index p xs = Some i \<Longrightarrow> i < length xs \<and> p (xs ! i)"
  by (simp add: first_index_Some_iff)

lemma first_index_before: "first_index p xs = Some i \<Longrightarrow> j < i \<Longrightarrow> \<not> p (xs ! j)"
  by (simp add: first_index_Some_iff)

lemma first_index_None: "first_index p xs = None \<longleftrightarrow> (\<forall>x \<in> set xs. \<not> p x)"
  by (induction xs) auto

lemma first_index_cong: "(\<And>x. x \<in> set xs \<Longrightarrow> p x = p' x) \<Longrightarrow> first_index p xs = first_index p' xs"
  by (induction xs) auto

end
