(* ===== verification/Base_Strings.thy ===== *)
theory Base_Strings
  imports Cql_Prelude
begin

text \<open>
  The string layer, \<open>src/src/base/base_strings.c\<close>: character classes, matching,
  slicing and integer conversion. Every component above works on byte strings through
  these functions.
\<close>

unbundle bit_operations_syntax

section \<open>Tables\<close>

definition integer_symbols :: "char list" where
  "integer_symbols = ''0123456789ABCDEF''"

text \<open>128 entries: the digit value of a character, 255 for a character that is no digit.\<close>

definition integer_symbol_reverse :: "nat list" where
  "integer_symbol_reverse =
     replicate 48 255 @ [0, 1, 2, 3, 4, 5, 6, 7, 8, 9] @ replicate 7 255 @
     [10, 11, 12, 13, 14, 15] @ replicate 26 255 @
     [10, 11, 12, 13, 14, 15] @ replicate 25 255"

section \<open>Character classes\<close>

definition char_is_space :: "char \<Rightarrow> bool" where
  "char_is_space c \<longleftrightarrow>
     c = CHR '' '' \<or> c = CHR 0x0A \<or> c = CHR 0x09 \<or> c = CHR 0x0D \<or> c = CHR 0x0C \<or> c = CHR 0x0B"

definition char_is_upper :: "char \<Rightarrow> bool" where
  "char_is_upper c \<longleftrightarrow> byte CHR ''A'' \<le> byte c \<and> byte c \<le> byte CHR ''Z''"

definition char_is_lower :: "char \<Rightarrow> bool" where
  "char_is_lower c \<longleftrightarrow> byte CHR ''a'' \<le> byte c \<and> byte c \<le> byte CHR ''z''"

definition char_is_alpha :: "char \<Rightarrow> bool" where
  "char_is_alpha c \<longleftrightarrow> char_is_upper c \<or> char_is_lower c"

definition char_is_slash :: "char \<Rightarrow> bool" where
  "char_is_slash c \<longleftrightarrow> c = CHR ''/'' \<or> c = CHR 0x5C"

text \<open>
  \<open>char_is_digit\<close> indexes the 128-entry table with any byte. For a byte of 128 or
  more that is a read past the end of the array, undefined behaviour of C: \<^term>\<open>None\<close>.
\<close>

definition char_is_digit :: "char \<Rightarrow> nat \<Rightarrow> bool option" where
  "char_is_digit c base =
     (if 0 < base \<and> base \<le> 16
      then (if byte c < length integer_symbol_reverse
            then Some (integer_symbol_reverse ! byte c < base)
            else None)
      else Some False)"

definition char_to_lower :: "char \<Rightarrow> char" where
  "char_to_lower c =
     (if char_is_upper c then byte_chr (byte c + (byte CHR ''a'' - byte CHR ''A'')) else c)"

definition char_to_upper :: "char \<Rightarrow> char" where
  "char_to_upper c =
     (if char_is_lower c then byte_chr (byte c - (byte CHR ''a'' - byte CHR ''A'')) else c)"

definition char_to_correct_slash :: "char \<Rightarrow> char" where
  "char_to_correct_slash c = (if char_is_slash c then CHR ''/'' else c)"

lemma length_integer_symbol_reverse [simp]: "length integer_symbol_reverse = 128"
  by (simp add: integer_symbol_reverse_def)

text \<open>The decimal digits are exactly the bytes 48 to 57.\<close>

lemma reverse_table_decimal:
  assumes "n < 128"
  shows "integer_symbol_reverse ! n < 10 \<longleftrightarrow> 48 \<le> n \<and> n \<le> 57"
proof -
  have "\<forall>i \<in> set [0..<128]. (integer_symbol_reverse ! i < 10) = (48 \<le> i \<and> i \<le> 57)"
    by code_simp
  then show ?thesis using assms by simp
qed

lemma char_is_digit_10:
  "char_is_digit c 10 = (if byte c < 128 then Some (48 \<le> byte c \<and> byte c \<le> 57) else None)"
  by (simp add: char_is_digit_def reverse_table_decimal)

section \<open>Whole-string case mapping\<close>

definition upper_from_str8 :: "string8 \<Rightarrow> string8" where
  "upper_from_str8 s = map char_to_upper s"

definition lower_from_str8 :: "string8 \<Rightarrow> string8" where
  "lower_from_str8 s = map char_to_lower s"

definition backslashed_from_str8 :: "string8 \<Rightarrow> string8" where
  "backslashed_from_str8 s = map (\<lambda>c. if char_is_slash c then CHR 0x5C else c) s"

section \<open>Matching\<close>

record match_flags =
  case_insensitive :: bool
  right_side_sloppy :: bool
  slash_insensitive :: bool

definition match_exact :: match_flags where
  "match_exact = \<lparr>case_insensitive = False, right_side_sloppy = False, slash_insensitive = False\<rparr>"

definition match_ci :: match_flags where
  "match_ci = \<lparr>case_insensitive = True, right_side_sloppy = False, slash_insensitive = False\<rparr>"

text \<open>One comparison of the loop of \<open>str8_match\<close>.\<close>

definition match_byte :: "match_flags \<Rightarrow> char \<Rightarrow> char" where
  "match_byte f c =
     (let c = (if case_insensitive f then char_to_upper c else c)
      in if slash_insensitive f then char_to_correct_slash c else c)"

text \<open>The loop runs over the first \<open>Min(a.size, b.size)\<close> bytes and stops at the first
  difference.\<close>

fun str8_match_loop :: "match_flags \<Rightarrow> string8 \<Rightarrow> string8 \<Rightarrow> bool" where
  "str8_match_loop f (a # as) (b # bs) =
     (if match_byte f a \<noteq> match_byte f b then False else str8_match_loop f as bs)"
| "str8_match_loop f _ _ = True"

definition str8_match :: "string8 \<Rightarrow> string8 \<Rightarrow> match_flags \<Rightarrow> bool" where
  "str8_match a b f =
     (if length a = length b \<or> right_side_sloppy f then str8_match_loop f a b else False)"

lemma str8_match_loop_eq:
  "length a = length b \<Longrightarrow> str8_match_loop f a b \<longleftrightarrow> map (match_byte f) a = map (match_byte f) b"
  by (induction f a b rule: str8_match_loop.induct) auto

lemma match_byte_exact [simp]: "match_byte match_exact c = c"
  by (simp add: match_byte_def match_exact_def)

lemma match_byte_ci: "match_byte match_ci c = char_to_upper c"
  by (simp add: match_byte_def match_ci_def)

lemma str8_match_exact [simp]: "str8_match a b match_exact \<longleftrightarrow> a = b"
proof -
  have f: "\<not> right_side_sloppy match_exact" by (simp add: match_exact_def)
  have g: "match_byte match_exact = id" by (rule ext) simp
  show ?thesis
    by (auto simp: str8_match_def str8_match_loop_eq f g)
qed

lemma str8_match_ci_iff: "str8_match a b match_ci \<longleftrightarrow> upper_from_str8 a = upper_from_str8 b"
proof -
  have f: "\<not> right_side_sloppy match_ci" by (simp add: match_ci_def)
  have g: "match_byte match_ci = char_to_upper" by (rule ext) (simp add: match_byte_ci)
  show ?thesis
    by (auto simp: str8_match_def str8_match_loop_eq upper_from_str8_def f g
             dest: map_eq_imp_length_eq)
qed

lemma str8_match_ci_refl [simp]: "str8_match a a match_ci"
  by (simp add: str8_match_ci_iff)

section \<open>Slicing\<close>

definition str8_substr :: "string8 \<Rightarrow> rng1u64 \<Rightarrow> string8" where
  "str8_substr s r =
     (let lo = min (rmin r) (length s); hi = min (rmax r) (length s)
      in take (hi - lo) (drop lo s))"

definition str8_prefix :: "string8 \<Rightarrow> nat \<Rightarrow> string8" where
  "str8_prefix s n = take (min n (length s)) s"

definition str8_skip :: "string8 \<Rightarrow> nat \<Rightarrow> string8" where
  "str8_skip s amt = drop (min amt (length s)) s"

definition str8_postfix :: "string8 \<Rightarrow> nat \<Rightarrow> string8" where
  "str8_postfix s n = drop (length s - min n (length s)) s"

definition str8_chop :: "string8 \<Rightarrow> nat \<Rightarrow> string8" where
  "str8_chop s amt = take (length s - min amt (length s)) s"

text \<open>The two loops of \<open>str8_skip_chop_whitespace\<close>: from the front, then from the back.\<close>

definition str8_skip_chop_whitespace :: "string8 \<Rightarrow> string8" where
  "str8_skip_chop_whitespace s =
     rev (dropWhile char_is_space (rev (dropWhile char_is_space s)))"

lemma str8_prefix_take: "str8_prefix s n = take n s"
  by (simp add: str8_prefix_def min_def)

lemma str8_skip_drop: "str8_skip s n = drop n s"
  by (simp add: str8_skip_def min_def)

lemma str8_substr_r1u64:
  "lo \<le> hi \<Longrightarrow> hi \<le> length s \<Longrightarrow> str8_substr s (r1u64 lo hi) = take (hi - lo) (drop lo s)"
  by (simp add: str8_substr_def)

lemma str8_ends_with_append: "str8_postfix (s @ t) (length t) = t"
  by (simp add: str8_postfix_def)

end
