(* ===== verification/Sql_Tokenizer.thy ===== *)
theory Sql_Tokenizer
  imports Base_Strings
begin

text \<open>
  The SQL tokenizer, \<open>sql_tokenize_from_text\<close> of \<open>src/src/ir_gen/sql_parser.c\<close>.

  The scanning loops of the source walk a position through the inp; here each is a function on
  the rest of the inp that returns how many bytes it consumed. A result \<^term>\<open>None\<close>
  of a scanning function means that the source would index the digit table out of range
  (see \<^const>\<open>char_is_digit\<close>).
\<close>

section \<open>Tokens\<close>

datatype sql_token_type =
    TKeyword
  | TIdentifier
  | TOperator
  | TSymbol
  | TNumber
  | TString
  | TEOF

record sql_token =
  tok_type :: sql_token_type
  tok_value :: string8
  tok_range :: rng1u64

definition mk_token :: "sql_token_type \<Rightarrow> string8 \<Rightarrow> rng1u64 \<Rightarrow> sql_token" where
  "mk_token ty v r = \<lparr>tok_type = ty, tok_value = v, tok_range = r\<rparr>"

lemma mk_token_sel [simp]:
  "tok_type (mk_token ty v r) = ty"
  "tok_value (mk_token ty v r) = v"
  "tok_range (mk_token ty v r) = r"
  by (simp_all add: mk_token_def)

section \<open>Keywords, operators and symbols\<close>

definition g_sql_keywords :: "string8 list" where
  "g_sql_keywords =
    [''select'', ''from'', ''where'', ''and'', ''or'', ''join'', ''on'', ''to'', ''group'',
     ''order'', ''by'', ''asc'', ''desc'', ''having'', ''limit'', ''offset'', ''use'',
     ''into'', ''insert'', ''import'', ''create'', ''describe'', ''explain'', ''analyze'',
     ''contains'', ''equals'', ''drop'', ''table'', ''database'', ''delete'', ''values'',
     ''alter'', ''add'', ''rename'', ''column'', ''index'', ''null'', ''is'', ''not'',
     ''unique'', ''primary'', ''key'', ''references'', ''check'', ''as'', ''inner'', ''left'',
     ''outer'', ''u32'', ''u64'', ''f32'', ''f64'', ''string8'', ''bool'', ''i32'', ''i64'',
     ''true'', ''false'', ''date'', ''timestamp'', ''decimal'', ''numeric'', ''type'',
     ''enum'', ''with'', ''in'', ''exists'', ''over'', ''partition'']"

definition g_sql_operators :: "string8 list" where
  "g_sql_operators = [''='', ''=='', ''!='', ''>'', ''<'', ''>='', ''<='']"

definition g_sql_symbols :: "string8 list" where
  "g_sql_symbols = ['','', ''('', '')'', '';'', ''*'', ''.'']"

definition sql_is_string_keyword :: "string8 \<Rightarrow> bool" where
  "sql_is_string_keyword s \<longleftrightarrow> list_ex (\<lambda>k. str8_match k s match_ci) g_sql_keywords"

definition sql_is_string_operator :: "string8 \<Rightarrow> bool" where
  "sql_is_string_operator s \<longleftrightarrow> list_ex (\<lambda>k. str8_match k s match_ci) g_sql_operators"

definition sql_is_string_symbol :: "string8 \<Rightarrow> bool" where
  "sql_is_string_symbol s \<longleftrightarrow> list_ex (\<lambda>k. str8_match k s match_ci) g_sql_symbols"

section \<open>Scanning loops\<close>

abbreviation quote :: char where
  "quote \<equiv> CHR 0x27"

text \<open>
  The scan for the closing quote of a string literal, from the byte after the opening one: the
  distance to the closing quote and whether a doubled quote was seen; \<^term>\<open>None\<close>
  when the literal is not terminated.
\<close>

fun scan_string :: "string8 \<Rightarrow> (nat \<times> bool) option" where
  "scan_string [] = None"
| "scan_string (c # cs) =
     (if c = quote
      then (case cs of
              [] \<Rightarrow> Some (0, False)
            | d # ds \<Rightarrow>
                if d = quote
                then map_option (\<lambda>(n, _). (n + 2, True)) (scan_string ds)
                else Some (0, False))
      else map_option (\<lambda>(n, e). (n + 1, e)) (scan_string cs))"

text \<open>The copy loop that turns a doubled quote into one quote.\<close>

fun unescape_string :: "string8 \<Rightarrow> string8" where
  "unescape_string [] = []"
| "unescape_string (c # cs) = c # unescape_string (if c = quote then drop 1 cs else cs)"

text \<open>The digits of a number with at most one dot, which must be followed by a digit.\<close>

fun scan_number :: "bool \<Rightarrow> string8 \<Rightarrow> nat option" where
  "scan_number has_dot [] = Some 0"
| "scan_number has_dot (c # cs) =
     (case char_is_digit c 10 of
        None \<Rightarrow> None
      | Some d \<Rightarrow>
          if d \<or> (\<not> has_dot \<and> c = CHR ''.'')
          then if c = CHR ''.''
               then (case cs of
                       [] \<Rightarrow> Some 0
                     | n # _ \<Rightarrow>
                         (case char_is_digit n 10 of
                            None \<Rightarrow> None
                          | Some False \<Rightarrow> Some 0
                          | Some True \<Rightarrow> map_option Suc (scan_number True cs)))
               else map_option Suc (scan_number has_dot cs)
          else Some 0)"

fun scan_word :: "string8 \<Rightarrow> nat option" where
  "scan_word [] = Some 0"
| "scan_word (c # cs) =
     (case char_is_digit c 10 of
        None \<Rightarrow> None
      | Some d \<Rightarrow>
          if d \<or> char_is_alpha c \<or> c = CHR ''_''
          then map_option Suc (scan_word cs)
          else Some 0)"

fun scan_operator :: "string8 \<Rightarrow> nat option" where
  "scan_operator [] = Some 0"
| "scan_operator (c # cs) =
     (if char_is_space c \<or> char_is_alpha c then Some 0
      else case char_is_digit c 10 of
             None \<Rightarrow> None
           | Some d \<Rightarrow>
               if d \<or> sql_is_string_symbol [c] then Some 0
               else map_option Suc (scan_operator cs))"

section \<open>One token\<close>

text \<open>
  One pass of the outer loop at a position that holds no white space: the loop ends
  (an unterminated string), reads out of range, or goes on at a later position with at most one
  more token. A run of bytes that is no known operator produces no token.
\<close>

datatype lex_step =
    LexEnd
  | LexUndef
  | LexNext "sql_token list" nat

definition lex_string :: "string8 \<Rightarrow> nat \<Rightarrow> lex_step" where
  "lex_string inp pos =
     (let start = pos + 1 in
      case scan_string (drop start inp) of
        None \<Rightarrow> LexEnd
      | Some (n, has_escape) \<Rightarrow>
          let pos = start + n;
              body = str8_substr inp (r1u64 start pos);
              value = (if \<not> has_escape then body else unescape_string body)
          in LexNext [mk_token TString value (r1u64 (start - 1) (pos + 1))] (pos + 1))"

definition lex_number :: "string8 \<Rightarrow> nat \<Rightarrow> lex_step" where
  "lex_number inp start =
     (let pos = (if inp ! start = CHR ''-'' then start + 1 else start) in
      case scan_number False (drop pos inp) of
        None \<Rightarrow> LexUndef
      | Some n \<Rightarrow>
          LexNext [mk_token TNumber (str8_substr inp (r1u64 start (pos + n))) (r1u64 start (pos + n))]
            (pos + n))"

definition lex_word :: "string8 \<Rightarrow> nat \<Rightarrow> lex_step" where
  "lex_word inp start =
     (case scan_word (drop start inp) of
        None \<Rightarrow> LexUndef
      | Some n \<Rightarrow>
          let value = str8_substr inp (r1u64 start (start + n))
          in LexNext [mk_token (if sql_is_string_keyword value then TKeyword else TIdentifier) value
                        (r1u64 start (start + n))] (start + n))"

definition lex_operator :: "string8 \<Rightarrow> nat \<Rightarrow> lex_step" where
  "lex_operator inp start =
     (case scan_operator (drop start inp) of
        None \<Rightarrow> LexUndef
      | Some n \<Rightarrow>
          let value = str8_substr inp (r1u64 start (start + n))
          in LexNext (if sql_is_string_operator value
                      then [mk_token TOperator value (r1u64 start (start + n))] else []) (start + n))"

text \<open>\<open>starts_number\<close> is the guard of the number branch.\<close>

definition starts_number :: "string8 \<Rightarrow> nat \<Rightarrow> bool option" where
  "starts_number inp pos =
     (case char_is_digit (inp ! pos) 10 of
        None \<Rightarrow> None
      | Some True \<Rightarrow> Some True
      | Some False \<Rightarrow>
          if inp ! pos = CHR ''-'' \<and> pos + 1 < length inp
          then char_is_digit (inp ! (pos + 1)) 10
          else Some False)"

definition lex_token :: "string8 \<Rightarrow> nat \<Rightarrow> lex_step" where
  "lex_token inp pos =
     (if inp ! pos = quote then lex_string inp pos
      else case starts_number inp pos of
             None \<Rightarrow> LexUndef
           | Some True \<Rightarrow> lex_number inp pos
           | Some False \<Rightarrow>
               if char_is_alpha (inp ! pos) then lex_word inp pos
               else if sql_is_string_symbol (str8_substr inp (r1u64 pos (pos + 1)))
               then LexNext [mk_token TSymbol (str8_substr inp (r1u64 pos (pos + 1))) (r1u64 pos (pos + 1))]
                      (pos + 1)
               else lex_operator inp pos)"

text \<open>One pass of the outer loop: skip the white space, stop at the end, else read a token.\<close>

definition skip_space :: "string8 \<Rightarrow> nat \<Rightarrow> nat" where
  "skip_space inp pos = pos + length (takeWhile char_is_space (drop pos inp))"

definition lex_step :: "string8 \<Rightarrow> nat \<Rightarrow> lex_step" where
  "lex_step inp pos =
     (let pos = skip_space inp pos in
      if pos \<ge> length inp then LexEnd else lex_token inp pos)"

section \<open>The scanning loops make progress\<close>

lemma scan_string_bound: "scan_string s = Some (n, e) \<Longrightarrow> n < length s \<and> s ! n = quote"
proof (induction s arbitrary: n e rule: scan_string.induct)
  case (2 c cs)
  show ?case
  proof (cases "c = quote \<and> cs \<noteq> [] \<and> hd cs = quote")
    case True
    then obtain ds where cs: "cs = quote # ds" by (cases cs) auto
    with True "2.prems" obtain m f where "scan_string ds = Some (m, f)" "n = m + 2" by auto
    with "2.IH"(1)[of quote ds m f] True cs show ?thesis by simp
  next
    case False
    then show ?thesis using "2.prems" "2.IH"(2) by (cases cs) (auto split: if_splits)
  qed
qed simp

lemma scan_number_step:
  "scan_number d (c # cs) = Some n \<Longrightarrow> n = 0 \<or> (\<exists>d' m. scan_number d' cs = Some m \<and> n = Suc m)"
  unfolding scan_number.simps(2)
  by (auto simp del: scan_number.simps split: option.splits if_splits bool.splits list.splits)

lemma scan_number_bound: "scan_number d s = Some n \<Longrightarrow> n \<le> length s"
  by (induction s arbitrary: d n) (fastforce dest: scan_number_step simp del: scan_number.simps(2))+

lemma scan_number_digit:
  "char_is_digit c 10 = Some True \<Longrightarrow> scan_number False (c # cs) = Some n \<Longrightarrow> 0 < n"
  by (auto simp: char_is_digit_10 split: if_splits)

lemma scan_word_bound: "scan_word s = Some n \<Longrightarrow> n \<le> length s"
  by (induction s arbitrary: n) (auto split: option.splits if_splits)

lemma scan_word_alpha: "char_is_alpha c \<Longrightarrow> scan_word (c # cs) = Some n \<Longrightarrow> 0 < n"
  by (auto split: option.splits if_splits)

lemma scan_operator_bound: "scan_operator s = Some n \<Longrightarrow> n \<le> length s"
  by (induction s arbitrary: n) (auto split: option.splits if_splits)

lemma scan_operator_progress:
  assumes "scan_operator (c # cs) = Some n"
    and "\<not> char_is_space c" "\<not> char_is_alpha c" "char_is_digit c 10 = Some False"
    and "\<not> sql_is_string_symbol [c]"
  shows "0 < n"
  using assms by auto

lemma skip_space_bound: "pos \<le> length inp \<Longrightarrow> skip_space inp pos \<le> length inp"
  using length_takeWhile_le[of char_is_space "drop pos inp"] by (simp add: skip_space_def)

lemma skip_space_ge: "pos \<le> skip_space inp pos"
  by (simp add: skip_space_def)

lemma skip_space_stop:
  assumes "skip_space inp pos < length inp"
  shows "\<not> char_is_space (inp ! skip_space inp pos)"
proof -
  let ?n = "length (takeWhile char_is_space (drop pos inp))"
  have "?n < length (drop pos inp)"
    using assms by (simp add: skip_space_def)
  then have "\<not> char_is_space (drop pos inp ! ?n)"
    by (rule nth_length_takeWhile)
  then show ?thesis using assms by (simp add: skip_space_def)
qed

section \<open>What one pass produces\<close>

text \<open>
  A token is well placed in the inp: its range is a non-empty part of it, its inp is what
  the range holds (a string literal may have lost its escapes), and a word is a keyword exactly
  when the keyword table says so.
\<close>

definition token_ok :: "string8 \<Rightarrow> sql_token \<Rightarrow> bool" where
  "token_ok inp t \<longleftrightarrow>
     rmin (tok_range t) < rmax (tok_range t) \<and> rmax (tok_range t) \<le> length inp \<and>
     tok_type t \<noteq> TEOF \<and>
     (tok_type t \<noteq> TString \<longrightarrow> tok_value t = str8_substr inp (tok_range t)) \<and>
     (tok_type t = TString \<longrightarrow>
        inp ! rmin (tok_range t) = quote \<and> inp ! (rmax (tok_range t) - 1) = quote) \<and>
     (tok_type t = TKeyword \<longrightarrow> sql_is_string_keyword (tok_value t)) \<and>
     (tok_type t = TIdentifier \<longrightarrow> \<not> sql_is_string_keyword (tok_value t)) \<and>
     (tok_type t = TSymbol \<longrightarrow> sql_is_string_symbol (tok_value t)) \<and>
     (tok_type t = TOperator \<longrightarrow> sql_is_string_operator (tok_value t))"

definition lex_post :: "string8 \<Rightarrow> nat \<Rightarrow> lex_step \<Rightarrow> bool" where
  "lex_post inp pos r \<longleftrightarrow>
     (case r of
        LexNext ts pos' \<Rightarrow>
          pos < pos' \<and> pos' \<le> length inp \<and>
          (ts = [] \<or> (\<exists>t. ts = [t] \<and> token_ok inp t \<and> tok_range t = r1u64 pos pos'))
      | _ \<Rightarrow> True)"

lemma drop_nth_Cons: "pos < length inp \<Longrightarrow> drop pos inp = inp ! pos # drop (Suc pos) inp"
  by (rule Cons_nth_drop_Suc [symmetric])

lemma lex_string_post:
  assumes "pos < length inp" "inp ! pos = quote"
  shows "lex_post inp pos (lex_string inp pos)"
proof (cases "scan_string (drop (pos + 1) inp)")
  case None
  then show ?thesis by (simp add: lex_string_def lex_post_def)
next
  case (Some r)
  then obtain n e where r: "scan_string (drop (pos + 1) inp) = Some (n, e)" by (cases r) auto
  from scan_string_bound[OF r] have "n < length inp - (pos + 1)" "inp ! (pos + 1 + n) = quote"
    using assms(1) by simp_all
  with r assms show ?thesis
    by (simp add: lex_string_def lex_post_def token_ok_def Let_def)
qed

lemma lex_number_post:
  assumes "pos < length inp" "inp ! pos \<noteq> quote" "starts_number inp pos = Some True"
  shows "lex_post inp pos (lex_number inp pos)"
proof -
  define p where "p = (if inp ! pos = CHR ''-'' then pos + 1 else pos)"
  have p: "p < length inp" "char_is_digit (inp ! p) 10 = Some True" "pos \<le> p"
    using assms
    by (auto simp: p_def starts_number_def char_is_digit_10 split: option.splits bool.splits if_splits)
  show ?thesis
  proof (cases "scan_number False (drop p inp)")
    case None
    then show ?thesis by (simp add: lex_number_def lex_post_def p_def [symmetric])
  next
    case (Some n)
    have "0 < n" using Some p scan_number_digit by (simp add: drop_nth_Cons)
    moreover have "n \<le> length inp - p" using scan_number_bound [OF Some] by simp
    ultimately show ?thesis using Some p
      by (simp add: lex_number_def lex_post_def token_ok_def p_def [symmetric])
  qed
qed

lemma lex_word_post:
  assumes "pos < length inp" "char_is_alpha (inp ! pos)"
  shows "lex_post inp pos (lex_word inp pos)"
proof (cases "scan_word (drop pos inp)")
  case None
  then show ?thesis by (simp add: lex_word_def lex_post_def)
next
  case (Some n)
  have "0 < n" using Some assms scan_word_alpha by (simp only: drop_nth_Cons)
  moreover have "n \<le> length inp - pos" using scan_word_bound [OF Some] by simp
  ultimately show ?thesis using Some assms
    by (simp add: lex_word_def lex_post_def token_ok_def Let_def)
qed

lemma lex_operator_post:
  assumes "pos < length inp" "\<not> char_is_space (inp ! pos)" "\<not> char_is_alpha (inp ! pos)"
    and "char_is_digit (inp ! pos) 10 = Some False" "\<not> sql_is_string_symbol [inp ! pos]"
  shows "lex_post inp pos (lex_operator inp pos)"
proof (cases "scan_operator (drop pos inp)")
  case None
  then show ?thesis by (simp add: lex_operator_def lex_post_def)
next
  case (Some n)
  have "0 < n" using Some assms scan_operator_progress by (simp only: drop_nth_Cons)
  moreover have "n \<le> length inp - pos" using scan_operator_bound [OF Some] by simp
  ultimately show ?thesis using Some assms
    by (simp add: lex_operator_def lex_post_def token_ok_def Let_def)
qed

lemma substr_one: "pos < length inp \<Longrightarrow> str8_substr inp (r1u64 pos (Suc pos)) = [inp ! pos]"
  by (simp add: str8_substr_r1u64 drop_nth_Cons)

lemma starts_number_False:
  "starts_number inp pos = Some False \<Longrightarrow> char_is_digit (inp ! pos) 10 = Some False"
  by (auto simp: starts_number_def split: option.splits bool.splits)

lemma lex_token_post:
  assumes "pos < length inp" "\<not> char_is_space (inp ! pos)"
  shows "lex_post inp pos (lex_token inp pos)"
proof -
  have sym: "lex_post inp pos (LexNext [mk_token TSymbol [inp ! pos] (r1u64 pos (Suc pos))] (Suc pos))"
    if "sql_is_string_symbol [inp ! pos]"
    using assms that by (simp add: lex_post_def token_ok_def substr_one)
  have ub: "lex_post inp pos LexUndef" by (simp add: lex_post_def)
  show ?thesis
    using assms sym ub
    by (auto simp: lex_token_def substr_one
             intro: lex_string_post lex_number_post lex_word_post lex_operator_post
             dest: starts_number_False split: option.splits bool.splits)
qed

lemma lex_step_next:
  assumes "lex_step inp pos = LexNext ts pos'" "pos \<le> length inp"
  shows "pos < pos'" "pos' \<le> length inp" "length ts \<le> 1"
    and "t \<in> set ts \<Longrightarrow> token_ok inp t \<and> pos \<le> rmin (tok_range t) \<and> rmax (tok_range t) = pos'"
proof -
  let ?p = "skip_space inp pos"
  have p: "?p < length inp" and eq: "lex_token inp ?p = LexNext ts pos'"
    using assms(1) by (auto simp: lex_step_def Let_def split: if_splits)
  have "lex_post inp ?p (lex_token inp ?p)"
    by (rule lex_token_post [OF p skip_space_stop [OF p]])
  then have post: "lex_post inp ?p (LexNext ts pos')" by (simp add: eq)
  then show "pos < pos'" "pos' \<le> length inp" "length ts \<le> 1"
    "t \<in> set ts \<Longrightarrow> token_ok inp t \<and> pos \<le> rmin (tok_range t) \<and> rmax (tok_range t) = pos'"
    using skip_space_ge [of pos inp] by (auto simp: lex_post_def)
qed

section \<open>The tokenizer\<close>

text \<open>
  The outer loop from a position on. It ends: every pass that goes on moves the position
  forward. The result is \<^term>\<open>None\<close> where the source reads out of range.
\<close>

function sql_tokenize_loop :: "string8 \<Rightarrow> nat \<Rightarrow> sql_token list option" where
  "sql_tokenize_loop inp pos =
     (if pos \<ge> length inp then Some []
      else case lex_step inp pos of
             LexEnd \<Rightarrow> Some []
           | LexUndef \<Rightarrow> None
           | LexNext ts pos' \<Rightarrow> map_option (\<lambda>rest. ts @ rest) (sql_tokenize_loop inp pos'))"
  by pat_completeness auto
termination
  by (relation "measure (\<lambda>(inp, pos). length inp - pos)")
     (auto dest: lex_step_next(1,2) diff_less_mono2)

declare sql_tokenize_loop.simps [simp del]

definition sql_tokenize_from_text :: "string8 \<Rightarrow> sql_token list option" where
  "sql_tokenize_from_text inp = sql_tokenize_loop inp 0"

lemma sql_tokenize_loop_end [simp]: "length inp \<le> pos \<Longrightarrow> sql_tokenize_loop inp pos = Some []"
  by (simp add: sql_tokenize_loop.simps)

lemma sql_tokenize_loop_next:
  assumes "pos < length inp" "lex_step inp pos = LexNext ts pos'"
  shows "sql_tokenize_loop inp pos = map_option ((@) ts) (sql_tokenize_loop inp pos')"
  using assms by (simp add: sql_tokenize_loop.simps [of inp pos])

text \<open>The shape of a successful run from a position on.\<close>

definition tokens_ok :: "string8 \<Rightarrow> nat \<Rightarrow> sql_token list \<Rightarrow> bool" where
  "tokens_ok inp pos toks \<longleftrightarrow>
     (\<forall>t \<in> set toks. token_ok inp t \<and> pos \<le> rmin (tok_range t)) \<and>
     sorted_wrt (\<lambda>a b. rmax (tok_range a) \<le> rmin (tok_range b)) toks \<and>
     length toks \<le> length inp - pos"

lemma sql_tokenize_loop_ok:
  "pos \<le> length inp \<Longrightarrow> sql_tokenize_loop inp pos = Some toks \<Longrightarrow> tokens_ok inp pos toks"
proof (induction inp pos arbitrary: toks rule: sql_tokenize_loop.induct)
  case (1 inp pos)
  show ?case
  proof (cases "pos < length inp \<and> (\<exists>ts pos'. lex_step inp pos = LexNext ts pos')")
    case False
    then show ?thesis using 1 by (auto simp: sql_tokenize_loop.simps tokens_ok_def split: if_splits lex_step.splits)
  next
    case True
    then obtain ts pos' where pos: "pos < length inp" and step: "lex_step inp pos = LexNext ts pos'" by blast
    note next' = lex_step_next [OF step "1.prems"(1)]
    from pos step "1.prems"(2) obtain rest where
      rest: "sql_tokenize_loop inp pos' = Some rest" "toks = ts @ rest"
      by (auto simp: sql_tokenize_loop_next)
    have ok: "tokens_ok inp pos' rest"
      using "1.IH" pos step next'(2) rest(1) by simp
    have later: "\<forall>t \<in> set rest. token_ok inp t \<and> pos' \<le> rmin (tok_range t)"
      and len: "length rest \<le> length inp - pos'"
      using ok by (simp_all add: tokens_ok_def)
    consider "ts = []" | t where "ts = [t]"
      using next'(3) by (cases ts) auto
    then show ?thesis
    proof cases
      case 1
      then show ?thesis using ok rest(2) next'(1) len by (force simp: tokens_ok_def)
    next
      case (2 t)
      with next'(4) have t: "token_ok inp t" "pos \<le> rmin (tok_range t)" "rmax (tok_range t) = pos'"
        by auto
      have "length toks \<le> length inp - pos"
        using len rest(2) 2 next'(1,2) by simp
      moreover have "\<forall>u \<in> set rest. pos \<le> rmin (tok_range u)"
        using later next'(1) by fastforce
      ultimately show ?thesis using 2 t later rest(2) ok by (simp add: tokens_ok_def)
    qed
  qed
qed

lemma scan_total:
  assumes "ascii s"
  shows "scan_word s \<noteq> None" "scan_operator s \<noteq> None" "scan_number d s \<noteq> None"
proof -
  show "scan_word s \<noteq> None"
    using assms by (induction s) (auto simp: char_is_digit_10 split: option.splits)
  show "scan_operator s \<noteq> None"
    using assms by (induction s) (auto simp: char_is_digit_10 split: option.splits)
  show "scan_number d s \<noteq> None"
    using assms
    by (induction d s rule: scan_number.induct)
       (auto simp: char_is_digit_10 split: option.splits list.splits bool.splits if_splits)
qed

lemma ascii_drop: "ascii s \<Longrightarrow> ascii (drop n s)"
  by (auto simp: ascii_def dest: in_set_dropD)

lemma lex_string_total: "lex_string inp pos \<noteq> LexUndef"
  by (simp add: lex_string_def Let_def split: option.splits prod.splits)

lemma lex_scan_total:
  assumes "ascii inp"
  shows "lex_number inp pos \<noteq> LexUndef" "lex_word inp pos \<noteq> LexUndef" "lex_operator inp pos \<noteq> LexUndef"
  using scan_total [OF ascii_drop [OF assms]]
  by (auto simp: lex_number_def lex_word_def lex_operator_def Let_def simp del: not_None_eq
           split: option.splits)

lemma starts_number_total:
  assumes "ascii inp" "pos < length inp"
  shows "starts_number inp pos \<noteq> None"
  using assms ascii_nth [OF assms(1), of pos] ascii_nth [OF assms(1), of "pos + 1"]
  by (auto simp: starts_number_def char_is_digit_10 split: bool.splits)

lemma lex_token_total:
  assumes "ascii inp" "pos < length inp"
  shows "lex_token inp pos \<noteq> LexUndef"
  using starts_number_total [OF assms] lex_scan_total [OF assms(1)] lex_string_total
  by (auto simp: lex_token_def simp del: not_None_eq split: option.splits bool.splits)

lemma sql_tokenize_loop_total: "ascii inp \<Longrightarrow> sql_tokenize_loop inp pos \<noteq> None"
proof (induction inp pos rule: sql_tokenize_loop.induct)
  case (1 inp pos)
  have "lex_step inp pos \<noteq> LexUndef"
    using lex_token_total [OF "1.prems"] by (auto simp: lex_step_def Let_def)
  then show ?case
    using 1 by (auto simp: sql_tokenize_loop.simps [of inp pos] split: lex_step.splits)
qed

section \<open>Properties\<close>



end
