(* ===== verification/Sql_Parse_Ctx.thy ===== *)
theory Sql_Parse_Ctx
  imports Sql_Tokenizer
begin

text \<open>
  The parse context of \<open>src/src/ir_gen/sql_parser.c\<close>: the syntax tree, the token cursor,
  the record of the first syntax error, and the rules by which one parse function calls another.

  A tree node of the source is linked to its siblings by \<open>next\<close> and to its
  children by \<open>first\<close>; only these links are read by the IR generator, so a node is its
  type, its text and the list of its children. The allocation of nodes in the arena has no
  other effect and does not appear.

  A parse function returns a node or \<open>NULL\<close>. It is a function of the context; the
  result is \<^verbatim>\<open>PDone\<close> with the node and the context it leaves, or
  \<^verbatim>\<open>PNull\<close> with the context at the time it gave up. The recursion and the loops
  of the source carry fuel; \<^verbatim>\<open>PFuel\<close> is the result when it runs out, and
  the contract below says that this does not happen.
\<close>

section \<open>The syntax tree\<close>

datatype sql_node_type =
    SqlUse
  | SqlSelect
  | SqlColumn
  | SqlColumnList
  | SqlTable
  | SqlDatabase
  | SqlWhere
  | SqlOperator
  | SqlNumeric
  | SqlIdentifier
  | SqlLiteral
  | SqlInsert
  | SqlImport
  | SqlDelete
  | SqlCreate
  | SqlDrop
  | SqlIndex
  | SqlDropIndex
  | SqlNull
  | SqlNotNull
  | SqlUnique
  | SqlPrimaryKey
  | SqlForeignKey
  | SqlCheck
  | SqlAlter
  | SqlRow
  | SqlValue
  | SqlValueGroup
  | SqlType
  | SqlOrderBy
  | SqlAscending
  | SqlDescending
  | SqlAlter_AddColumn
  | SqlAlter_ColumnType
  | SqlAlter_DropColumn
  | SqlAlter_Rename
  | SqlJoin
  | SqlAlias
  | SqlGroupBy
  | SqlHaving
  | SqlLimit
  | SqlOffset
  | SqlAggregateCall
  | SqlDescribe
  | SqlExplain
  | SqlAnalyze
  | SqlEnumDef
  | SqlEnumValue
  | SqlCteList
  | SqlCte
  | SqlSubquery
  | SqlInList
  | SqlExists
  | SqlWindow
  | SqlPartitionBy

datatype sql_node = SQL_Node (node_type: sql_node_type) (node_value: string8) (node_children: "sql_node list")

text \<open>\<open>DLLPushBack\<close> on the children of a node, and a node without children.\<close>

definition sql_push_child :: "sql_node \<Rightarrow> sql_node \<Rightarrow> sql_node" where
  "sql_push_child n c = SQL_Node (node_type n) (node_value n) (node_children n @ [c])"

definition sql_leaf :: "sql_node_type \<Rightarrow> string8 \<Rightarrow> sql_node" where
  "sql_leaf ty v = SQL_Node ty v []"

section \<open>The first syntax error\<close>

record sql_parse_error =
  err_range :: rng1u64
  err_line :: nat
  err_col :: nat
  err_line_text :: string8
  err_message :: string8

record pctx =
  tokens :: "sql_token list"
  pos :: nat
  source :: string8
  perr :: "sql_parse_error option"

text \<open>The loop of \<open>sql_parse_error_at\<close> over the bytes before the error: line, column and
  start of the line, counting from position \<open>i\<close>.\<close>

fun error_line_col :: "string8 \<Rightarrow> nat \<Rightarrow> nat \<Rightarrow> nat \<Rightarrow> nat \<Rightarrow> nat \<times> nat \<times> nat" where
  "error_line_col [] i line col line_start = (line, col, line_start)"
| "error_line_col (c # cs) i line col line_start =
     (if c = CHR 0x0A then error_line_col cs (i + 1) (line + 1) 1 (i + 1)
      else error_line_col cs (i + 1) line (col + 1) line_start)"

text \<open>A \<open>%.*s\<close> of the format routine prints up to the size and stops at a NUL byte.\<close>

definition str8_varg :: "string8 \<Rightarrow> string8" where
  "str8_varg s = takeWhile (\<lambda>c. c \<noteq> CHR 0x00) s"

definition sql_parse_error_at :: "pctx \<Rightarrow> rng1u64 \<Rightarrow> string8 \<Rightarrow> pctx" where
  "sql_parse_error_at c r message =
     (if perr c \<noteq> None then c
      else let clamped_min = min (rmin r) (length (source c));
               (line, col, line_start) = error_line_col (take clamped_min (source c)) 0 1 1 0;
               line_end = line_start + length (takeWhile (\<lambda>c. c \<noteq> CHR 0x0A) (drop line_start (source c)));
               line_text = str8_substr (source c) (r1u64 line_start line_end)
           in c\<lparr>perr := Some \<lparr>err_range = r, err_line = line, err_col = col,
                                err_line_text = line_text, err_message = message\<rparr>\<rparr>)"

section \<open>The token cursor\<close>

definition sql_parse_ctx_make :: "sql_token list \<Rightarrow> string8 \<Rightarrow> pctx" where
  "sql_parse_ctx_make toks src = \<lparr>tokens = toks, pos = 0, source = src, perr = None\<rparr>"

definition sql_peek :: "pctx \<Rightarrow> nat \<Rightarrow> sql_token" where
  "sql_peek c lookahead =
     (let idx = pos c + lookahead in
      if idx < length (tokens c) then tokens c ! idx
      else mk_token TEOF ''<end of input>''
             (if 0 < length (tokens c) then tok_range (tokens c ! (length (tokens c) - 1)) else r1u64 0 0))"

definition sql_take :: "pctx \<Rightarrow> sql_token \<times> pctx" where
  "sql_take c = (sql_peek c 0, if pos c < length (tokens c) then c\<lparr>pos := pos c + 1\<rparr> else c)"

definition sql_advance :: "pctx \<Rightarrow> nat \<Rightarrow> pctx" where
  "sql_advance c n = c\<lparr>pos := min (pos c + n) (length (tokens c))\<rparr>"

definition sql_at_end :: "pctx \<Rightarrow> bool" where
  "sql_at_end c \<longleftrightarrow> pos c \<ge> length (tokens c)"

text \<open>An empty value means any value of the type.\<close>

definition sql_check :: "pctx \<Rightarrow> sql_token_type \<Rightarrow> string8 \<Rightarrow> bool" where
  "sql_check c ty value =
     (let tok = sql_peek c 0 in
      if tok_type tok \<noteq> ty then False
      else if value = [] then True
      else str8_match (tok_value tok) value match_ci)"

definition sql_match :: "pctx \<Rightarrow> sql_token_type \<Rightarrow> string8 \<Rightarrow> bool \<times> pctx" where
  "sql_match c ty value =
     (if \<not> sql_check c ty value then (False, c) else (True, sql_advance c 1))"

text \<open>\<open>sql_find\<close>: the scan for a token outside parentheses; it is not called by
  the parser itself.\<close>

fun sql_find_from :: "sql_token list \<Rightarrow> nat \<Rightarrow> nat \<Rightarrow> sql_token_type \<Rightarrow> string8 \<Rightarrow> nat option" where
  "sql_find_from [] i depth ty value = None"
| "sql_find_from (tok # toks) i depth ty value =
     (if tok_type tok = TSymbol \<and> str8_match (tok_value tok) ''('' match_exact
      then sql_find_from toks (i + 1) (depth + 1) ty value
      else if tok_type tok = TSymbol \<and> str8_match (tok_value tok) '')'' match_exact
      then (if depth = 0 then None else sql_find_from toks (i + 1) (depth - 1) ty value)
      else if depth = 0 \<and> tok_type tok = ty \<and> (value = [] \<or> str8_match (tok_value tok) value match_ci)
      then Some i
      else sql_find_from toks (i + 1) depth ty value)"

definition sql_find :: "pctx \<Rightarrow> sql_token_type \<Rightarrow> string8 \<Rightarrow> nat option" where
  "sql_find c ty value = sql_find_from (drop (pos c) (tokens c)) (pos c) 0 ty value"

definition sql_ctx_range_at :: "pctx \<Rightarrow> nat \<Rightarrow> rng1u64" where
  "sql_ctx_range_at c p =
     (if length (tokens c) = 0 then r1u64 0 0
      else if p < length (tokens c) then tok_range (tokens c ! p)
      else tok_range (tokens c ! (length (tokens c) - 1)))"

definition sql_ctx_error_range :: "pctx \<Rightarrow> rng1u64" where
  "sql_ctx_error_range c = sql_ctx_range_at c (pos c)"

definition sql_ctx_text_or_eof :: "pctx \<Rightarrow> string8" where
  "sql_ctx_text_or_eof c = tok_value (sql_peek c 0)"

definition sql_check_paren_select :: "pctx \<Rightarrow> bool" where
  "sql_check_paren_select c \<longleftrightarrow>
     sql_check c TSymbol ''('' \<and> tok_type (sql_peek c 1) = TKeyword \<and>
     str8_match (tok_value (sql_peek c 1)) ''select'' match_ci"

section \<open>Results of parse functions\<close>

datatype 'a presult =
    PDone 'a pctx
  | PNull pctx
  | PFuel

text \<open>The caller of a parse function returns \<open>NULL\<close> when the callee did.\<close>

fun p_then :: "'a presult \<Rightarrow> ('a \<Rightarrow> pctx \<Rightarrow> 'b presult) \<Rightarrow> 'b presult" where
  "p_then (PDone x c) f = f x c"
| "p_then (PNull c) f = PNull c"
| "p_then PFuel f = PFuel"

text \<open>
  The recurring shapes of the parse functions: report an error and return \<open>NULL\<close>;
  the same at the current token, naming what was expected; require a token; take the value of a
  token of a type.
\<close>

definition p_fail_at :: "pctx \<Rightarrow> rng1u64 \<Rightarrow> string8 \<Rightarrow> 'a presult" where
  "p_fail_at c r message = PNull (sql_parse_error_at c r message)"

abbreviation q :: "string8 \<Rightarrow> string8" where
  "q s \<equiv> quote # s @ [quote]"

definition p_expected :: "pctx \<Rightarrow> string8 \<Rightarrow> 'a presult" where
  "p_expected c what =
     p_fail_at c (sql_ctx_error_range c)
       (''expected '' @ what @ '', found '' @ q (str8_varg (sql_ctx_text_or_eof c)))"

definition p_require ::
  "pctx \<Rightarrow> sql_token_type \<Rightarrow> string8 \<Rightarrow> string8 \<Rightarrow> (pctx \<Rightarrow> 'a presult) \<Rightarrow> 'a presult" where
  "p_require c ty value what k =
     (let (ok, c) = sql_match c ty value in if \<not> ok then p_expected c what else k c)"

definition p_take ::
  "pctx \<Rightarrow> sql_token_type \<Rightarrow> string8 \<Rightarrow> (string8 \<Rightarrow> pctx \<Rightarrow> 'a presult) \<Rightarrow> 'a presult" where
  "p_take c ty what k =
     (if \<not> sql_check c ty [] then p_expected c what
      else let (tok, c) = sql_take c in k (tok_value tok) c)"

text \<open>A loop of the source: every pass ends in \<open>continue\<close> or \<open>break\<close>.
  A pass that continues has consumed a token, so one more pass than there are tokens left is
  always enough.\<close>

datatype 'a loop_step =
    Again 'a
  | Break 'a

fun p_loop :: "nat \<Rightarrow> ('a \<Rightarrow> pctx \<Rightarrow> 'a loop_step presult) \<Rightarrow> 'a \<Rightarrow> pctx \<Rightarrow> 'a presult" where
  "p_loop 0 body a c = PFuel"
| "p_loop (Suc n) body a c =
     p_then (body a c) (\<lambda>s c. case s of Again a' \<Rightarrow> p_loop n body a' c | Break a' \<Rightarrow> PDone a' c)"

definition sql_remaining :: "pctx \<Rightarrow> nat" where
  "sql_remaining c = length (tokens c) - pos c"

definition p_while :: "('a \<Rightarrow> pctx \<Rightarrow> 'a loop_step presult) \<Rightarrow> 'a \<Rightarrow> pctx \<Rightarrow> 'a presult" where
  "p_while body a c = p_loop (Suc (sql_remaining c)) body a c"

text \<open>\<open>for (;;) { item; push; if (match(",")) continue; break; }\<close>, the list loop of
  many clauses.\<close>

definition p_comma_list :: "(pctx \<Rightarrow> 'a presult) \<Rightarrow> pctx \<Rightarrow> 'a list presult" where
  "p_comma_list item =
     p_while (\<lambda>xs c. p_then (item c) (\<lambda>x c.
        let (more, c) = sql_match c TSymbol '',''
        in PDone (if more then Again (xs @ [x]) else Break (xs @ [x])) c)) []"

text \<open>\<open>left = item; while (check(op)) left = Operator(left, item)\<close>, the loop of the
  logical connectives.\<close>

definition p_left_chain :: "string8 \<Rightarrow> (pctx \<Rightarrow> sql_node presult) \<Rightarrow> pctx \<Rightarrow> sql_node presult" where
  "p_left_chain op item c =
     p_then (item c) (p_while (\<lambda>left c.
       if sql_check c TKeyword op
       then let (tok, c) = sql_take c in
            p_then (item c) (\<lambda>right c.
              PDone (Again (SQL_Node SqlOperator (tok_value tok) [left, right])) c)
       else PDone (Break left) c))"

section \<open>The position of an error\<close>

text \<open>What the line, the column and the text of a recorded error are, read off the source: the
  line counts the newlines before the offset, the column the bytes since the last of them, the text
  is that whole line. The loop of \<open>sql_parse_error_at\<close> computes this.\<close>

definition line_prefix :: "string8 \<Rightarrow> nat" where
  "line_prefix s = length (takeWhile (\<lambda>c. c \<noteq> CHR 0x0A) (rev s))"

definition error_located :: "string8 \<Rightarrow> sql_parse_error \<Rightarrow> bool" where
  "error_located src e \<longleftrightarrow>
     (let n = min (rmin (err_range e)) (length src); before = take n src in
      err_line e = Suc (count_list before (CHR 0x0A)) \<and>
      err_col e = Suc (line_prefix before) \<and>
      err_line_text e = takeWhile (\<lambda>c. c \<noteq> CHR 0x0A) (drop (n - line_prefix before) src))"

lemma error_line_col_snoc:
  "error_line_col (xs @ [c]) i line col ls =
     (let (line', col', ls') = error_line_col xs i line col ls
      in if c = CHR 0x0A then (line' + 1, 1, i + length xs + 1) else (line', col' + 1, ls'))"
  by (induction xs arbitrary: i line col ls) (simp_all split: prod.splits)

lemma error_line_col_spec:
  "error_line_col xs 0 (Suc 0) (Suc 0) 0 =
     (Suc (count_list xs (CHR 0x0A)), Suc (line_prefix xs), length xs - line_prefix xs)"
proof (induction xs rule: rev_induct)
  case (snoc c xs)
  have "line_prefix xs \<le> length xs"
    unfolding line_prefix_def by (metis length_rev length_takeWhile_le)
  with snoc show ?case by (auto simp: error_line_col_snoc line_prefix_def Suc_diff_le)
qed (simp add: line_prefix_def)

lemma takeWhile_substr:
  assumes "i \<le> length s"
  shows "str8_substr s (r1u64 i (i + length (takeWhile P (drop i s)))) = takeWhile P (drop i s)"
proof -
  have "length (takeWhile P (drop i s)) \<le> length s - i"
    using length_takeWhile_le [of P "drop i s"] by simp
  then show ?thesis
    using assms by (simp add: str8_substr_r1u64) (metis takeWhile_eq_take)
qed

lemma error_located_error_at:
  assumes "perr c = None"
  shows "\<exists>e. perr (sql_parse_error_at c r msg) = Some e \<and> error_located (source c) e \<and> err_range e = r \<and>
     err_message e = msg"
proof -
  have "length xs - line_prefix xs \<le> length xs" for xs by simp
  then show ?thesis
    using assms
    by (auto simp: sql_parse_error_at_def Let_def error_line_col_spec error_located_def takeWhile_substr)
qed

section \<open>The contract of a parse function\<close>

text \<open>
  \<open>reach c0 k c\<close>: from the context \<open>c0\<close> the parser has come to \<open>c\<close> without an
  error and has consumed at least \<open>k\<close> tokens. \<open>p_post c0 R r\<close>: the result \<open>r\<close>
  of a parse function entered on the way from \<open>c0\<close> satisfies \<open>R\<close>; or it is
  \<open>NULL\<close> and then an error has been recorded; fuel never runs out.
\<close>

definition pctx_ok :: "pctx \<Rightarrow> bool" where
  "pctx_ok c \<longleftrightarrow> perr c = None \<and> pos c \<le> length (tokens c)"

definition reach :: "pctx \<Rightarrow> nat \<Rightarrow> pctx \<Rightarrow> bool" where
  "reach c0 k c \<longleftrightarrow> pctx_ok c \<and> tokens c = tokens c0 \<and> source c = source c0 \<and> pos c0 + k \<le> pos c"

definition gave_up :: "pctx \<Rightarrow> pctx \<Rightarrow> bool" where
  "gave_up c0 c \<longleftrightarrow> (\<exists>e. perr c = Some e \<and> error_located (source c) e) \<and> tokens c = tokens c0 \<and> source c = source c0 \<and>
     pos c0 \<le> pos c \<and> pos c \<le> length (tokens c0)"

definition p_post :: "pctx \<Rightarrow> ('a \<Rightarrow> pctx \<Rightarrow> bool) \<Rightarrow> 'a presult \<Rightarrow> bool" where
  "p_post c0 R r \<longleftrightarrow> (case r of PDone x c \<Rightarrow> R x c | PNull c \<Rightarrow> gave_up c0 c | PFuel \<Rightarrow> False)"

abbreviation p_from :: "pctx \<Rightarrow> nat \<Rightarrow> ('a \<Rightarrow> bool) \<Rightarrow> 'a presult \<Rightarrow> bool" where
  "p_from c0 k P \<equiv> p_post c0 (\<lambda>x c. reach c0 k c \<and> P x)"

lemma p_post_simps [simp]:
  "p_post c0 R (PDone x c) \<longleftrightarrow> R x c"
  "p_post c0 R (PNull c) \<longleftrightarrow> gave_up c0 c"
  "\<not> p_post c0 R PFuel"
  by (simp_all add: p_post_def)

lemma reach_refl [simp]: "reach c 0 c \<longleftrightarrow> pctx_ok c"
  by (simp add: reach_def)

lemma reach_ok: "reach c0 k c \<Longrightarrow> pctx_ok c"
  by (simp add: reach_def)

lemma reach_trans: "reach c0 k c \<Longrightarrow> reach c j c' \<Longrightarrow> reach c0 (k + j) c'"
  by (simp add: reach_def)

lemma reach_less: "reach c0 k c \<Longrightarrow> j \<le> k \<Longrightarrow> reach c0 j c"
  by (simp add: reach_def)

lemma reach_remaining: "reach c0 k c \<Longrightarrow> sql_remaining c \<le> sql_remaining c0 - k"
  by (auto simp: reach_def sql_remaining_def)

lemma reach_remaining_less:
  "reach c0 k c \<Longrightarrow> 0 < k \<Longrightarrow> sql_remaining c0 \<le> m \<Longrightarrow> sql_remaining c < m"
  by (auto simp: reach_def sql_remaining_def pctx_ok_def)

lemma p_post_mono: "p_post c0 R r \<Longrightarrow> (\<And>x c. R x c \<Longrightarrow> S x c) \<Longrightarrow> p_post c0 S r"
  by (cases r) auto

lemma p_from_mono: "p_from c0 k P r \<Longrightarrow> j \<le> k \<Longrightarrow> (\<And>x. P x \<Longrightarrow> Q x) \<Longrightarrow> p_from c0 j Q r"
  by (cases r) (auto dest: reach_less)

lemma p_from_call:
  assumes "reach c0 k c" "p_from c j P r"
  shows "p_from c0 (k + j) P r"
  using assms by (cases r) (auto intro: reach_trans simp: gave_up_def reach_def)

lemma p_from_tail:
  assumes "reach c0 k c" "p_from c j P r" "m \<le> k + j" "\<And>x. P x \<Longrightarrow> Q x"
  shows "p_from c0 m Q r"
  by (rule p_from_mono [OF p_from_call [OF assms(1,2)]]) (use assms in auto)

text \<open>The rule for a call: the callee keeps its contract from where it is entered, and
  the caller goes on from what the callee leaves.\<close>

lemma p_post_then:
  assumes "reach c0 k c" "p_from c j P r"
    and "\<And>x c'. reach c0 (k + j) c' \<Longrightarrow> P x \<Longrightarrow> p_post c0 R (f x c')"
  shows "p_post c0 R (p_then r f)"
  using p_from_call [OF assms(1,2)] assms(3) by (cases r) auto

lemma p_post_call:
  assumes "p_from c 1 P r" "reach c0 k c"
    and "\<And>x c'. reach c0 (Suc k) c' \<Longrightarrow> P x \<Longrightarrow> p_post c0 R (f x c')"
  shows "p_post c0 R (p_then r f)"
  by (rule p_post_then [OF assms(2,1)]) (use assms(3) in simp)

lemma sql_parse_error_at_fields [simp]:
  "tokens (sql_parse_error_at c r msg) = tokens c"
  "pos (sql_parse_error_at c r msg) = pos c"
  "source (sql_parse_error_at c r msg) = source c"
  by (simp_all add: sql_parse_error_at_def Let_def split: prod.splits)

lemma p_post_fail_at: "reach c0 k c \<Longrightarrow> p_post c0 R (p_fail_at c r msg)"
  using error_located_error_at [of c r msg] by (auto simp: p_fail_at_def gave_up_def reach_def pctx_ok_def)

lemma p_post_expected: "reach c0 k c \<Longrightarrow> p_post c0 R (p_expected c what)"
  by (auto simp: p_expected_def intro: p_post_fail_at)

section \<open>Moves of the cursor\<close>

lemma sql_check_pos: "sql_check c ty v \<Longrightarrow> ty \<noteq> TEOF \<Longrightarrow> pos c < length (tokens c)"
  by (auto simp: sql_check_def sql_peek_def Let_def split: if_splits)

lemma sql_peek_pos: "tok_type (sql_peek c k) \<noteq> TEOF \<Longrightarrow> pos c + k < length (tokens c)"
  by (auto simp: sql_peek_def Let_def split: if_splits)

lemma reach_advance: "reach c0 k c \<Longrightarrow> reach c0 k (sql_advance c n)"
  by (auto simp: reach_def sql_advance_def pctx_ok_def)

lemma reach_advance_n:
  "reach c0 k c \<Longrightarrow> pos c + n \<le> length (tokens c) \<Longrightarrow> reach c0 (k + n) (sql_advance c n)"
  by (auto simp: reach_def sql_advance_def pctx_ok_def)

lemma reach_advance_check:
  "reach c0 k c \<Longrightarrow> sql_check c ty v \<Longrightarrow> ty \<noteq> TEOF \<Longrightarrow> reach c0 (Suc k) (sql_advance c 1)"
  using reach_advance_n [of c0 k c 1] sql_check_pos [of c ty v] by simp

lemma reach_advance_pos:
  "reach c0 k c \<Longrightarrow> pos c < length (tokens c) \<Longrightarrow> 0 < n \<Longrightarrow> reach c0 (Suc k) (sql_advance c n)"
  by (auto simp: reach_def sql_advance_def pctx_ok_def)

lemma reach_take: "reach c0 k c \<Longrightarrow> pos c < length (tokens c) \<Longrightarrow> reach c0 (Suc k) (snd (sql_take c))"
  by (auto simp: reach_def sql_take_def pctx_ok_def)

lemma reach_take_any: "reach c0 k c \<Longrightarrow> reach c0 k (snd (sql_take c))"
  by (auto simp: reach_def sql_take_def pctx_ok_def)

lemma sql_match_reach:
  assumes "reach c0 k c" "sql_match c ty v = (ok, c')" "ty \<noteq> TEOF"
  shows "reach c0 (if ok then Suc k else k) c'"
  using assms reach_advance_check by (auto simp: sql_match_def split: if_splits)

lemma p_post_require:
  assumes "reach c0 k c" "ty \<noteq> TEOF"
    and "\<And>c. reach c0 (Suc k) c \<Longrightarrow> p_post c0 R (f c)"
  shows "p_post c0 R (p_require c ty v what f)"
  using assms sql_match_reach [OF assms(1) _ assms(2), of v]
  by (auto simp: p_require_def split: prod.splits intro: p_post_expected)

lemma p_post_take:
  assumes "reach c0 k c" "ty \<noteq> TEOF"
    and "\<And>v c. reach c0 (Suc k) c \<Longrightarrow> p_post c0 R (f v c)"
  shows "p_post c0 R (p_take c ty what f)"
  using assms reach_take [OF assms(1)] sql_check_pos [of c ty "[]"]
  by (auto simp: p_take_def split: prod.splits intro: p_post_expected)

lemma p_post_match:
  assumes "reach c0 k c" "ty \<noteq> TEOF"
    and "\<And>c. reach c0 (Suc k) c \<Longrightarrow> p_post c0 R (f True c)"
    and "\<And>c. reach c0 k c \<Longrightarrow> p_post c0 R (f False c)"
  shows "p_post c0 R (case sql_match c ty v of (ok, c) \<Rightarrow> f ok c)"
proof (cases "sql_match c ty v")
  case (Pair ok c')
  with sql_match_reach [OF assms(1) Pair assms(2)] assms(3,4) show ?thesis
    by (cases ok) auto
qed

lemma p_post_take_any:
  assumes "reach c0 k c" "\<And>t c. reach c0 k c \<Longrightarrow> p_post c0 R (f t c)"
  shows "p_post c0 R (case sql_take c of (t, c) \<Rightarrow> f t c)"
  using assms reach_take_any [OF assms(1)] by (auto split: prod.splits)

lemma p_post_take_here:
  assumes "reach c0 k c" "pos c < length (tokens c)" "\<And>t c. reach c0 (Suc k) c \<Longrightarrow> p_post c0 R (f t c)"
  shows "p_post c0 R (case sql_take c of (t, c) \<Rightarrow> f t c)"
  using assms reach_take [OF assms(1,2)] by (auto split: prod.splits)

section \<open>Loops\<close>

text \<open>What one pass of a loop leaves: the invariant and a consumed token if it continues, the
  result and at least \<open>j\<close> consumed tokens if it breaks.\<close>

fun loop_post :: "pctx \<Rightarrow> nat \<Rightarrow> ('a \<Rightarrow> bool) \<Rightarrow> ('a \<Rightarrow> bool) \<Rightarrow> 'a loop_step \<Rightarrow> pctx \<Rightarrow> bool" where
  "loop_post c j I Q (Again a) c' \<longleftrightarrow> reach c 1 c' \<and> I a"
| "loop_post c j I Q (Break a) c' \<longleftrightarrow> reach c j c' \<and> Q a"

lemma p_post_loop:
  assumes body: "\<And>a c. reach c0 k c \<Longrightarrow> I a \<Longrightarrow> p_post c (loop_post c j I Q) (body a c)"
  shows "reach c0 k c \<Longrightarrow> I a \<Longrightarrow> sql_remaining c < n \<Longrightarrow> p_from c0 (k + j) Q (p_loop n body a c)"
proof (induction n arbitrary: a c)
  case (Suc n)
  note b = body [OF Suc.prems(1,2)]
  show ?case
  proof (cases "body a c")
    case (PDone s c')
    show ?thesis
    proof (cases s)
      case (Again a')
      with b PDone have r: "reach c 1 c'" "I a'" by simp_all
      have "sql_remaining c' < n"
        using reach_remaining_less [OF r(1), of "sql_remaining c"] Suc.prems(3) by simp
      with Suc.IH reach_less [OF reach_trans [OF Suc.prems(1) r(1)]] r(2) PDone Again
      show ?thesis by simp
    next
      case (Break a')
      with b PDone reach_trans [OF Suc.prems(1), of j c'] show ?thesis by simp
    qed
  next
    case (PNull c')
    with b Suc.prems(1) show ?thesis by (auto simp: gave_up_def reach_def)
  qed (use b in auto)
qed simp

lemma p_post_while:
  assumes "reach c0 k c" "I a"
    and "\<And>a c. reach c0 k c \<Longrightarrow> I a \<Longrightarrow> p_post c (loop_post c j I Q) (body a c)"
  shows "p_from c0 (k + j) Q (p_while body a c)"
  unfolding p_while_def by (rule p_post_loop [where I = I]) (use assms in auto)

text \<open>The list loop, for any parse function of an item that consumes a token. The item is
  only called where \<open>here\<close> holds: for the nested parsers, with enough fuel left.\<close>

locale item_parser =
  fixes item :: "pctx \<Rightarrow> 'a presult"
    and here :: "pctx \<Rightarrow> bool"
    and P :: "'a \<Rightarrow> bool"
  assumes item: "pctx_ok c \<Longrightarrow> here c \<Longrightarrow> p_from c 1 P (item c)"
    and here_on: "here c \<Longrightarrow> reach c k c' \<Longrightarrow> here c'"
begin

lemma comma_list:
  assumes "pctx_ok c" "here c"
  shows "p_from c 1 (\<lambda>xs. xs \<noteq> [] \<and> list_all P xs) (p_comma_list item c)"
  unfolding p_comma_list_def
proof (rule p_post_while [where I = "list_all P" and k = 0 and j = 1, unfolded add_0])
  fix xs c1
  assume c1: "reach c 0 c1" "list_all P xs"
  with here_on assms item have i: "p_from c1 1 P (item c1)" by (blast dest: reach_ok)
  show "p_post c1 (loop_post c1 1 (list_all P) (\<lambda>xs. xs \<noteq> [] \<and> list_all P xs))
     (p_then (item c1) (\<lambda>x c. let (more, c) = sql_match c TSymbol '',''
        in PDone (if more then Again (xs @ [x]) else Break (xs @ [x])) c))"
    unfolding Let_def
    by (rule p_post_then [OF _ i, where k = 0]; (rule p_post_match)?)
      (use c1 in \<open>auto dest: reach_ok elim: reach_less\<close>)
qed (use assms in auto)

end

text \<open>A chain of a logical connective, for operands that may be joined by it.\<close>

locale operand_parser = item_parser item here P
  for item :: "pctx \<Rightarrow> sql_node presult" and here P +
  assumes operator: "P l \<Longrightarrow> P r \<Longrightarrow> P (SQL_Node SqlOperator op [l, r])"
begin

lemma left_chain:
  assumes "pctx_ok c" "here c"
  shows "p_from c 1 P (p_left_chain op item c)"
  unfolding p_left_chain_def Let_def
proof (rule p_post_then [OF _ item [OF assms], where k = 0])
  fix left c1
  assume c1: "reach c (0 + 1) c1" "P left"
  show "p_from c 1 P (p_while (\<lambda>left c.
       if sql_check c TKeyword op
       then case sql_take c of (tok, c) \<Rightarrow>
            p_then (item c) (\<lambda>right c.
              PDone (Again (SQL_Node SqlOperator (tok_value tok) [left, right])) c)
       else PDone (Break left) c) left c1)"
  proof (rule p_post_while [where I = P and k = 1 and j = 0, unfolded add_0_right])
    fix l c2
    assume c2: "reach c 1 c2" "P l"
    have here2: "p_post c2 R (p_then (item c') f)"
      if "reach c2 j c'" "\<And>x c''. reach c2 (Suc j) c'' \<Longrightarrow> P x \<Longrightarrow> p_post c2 R (f x c'')" for j c' R f
      using that by (rule p_post_call [OF item [OF reach_ok [OF that(1)]
          here_on [OF assms(2) reach_trans [OF c2(1) that(1)]]]])
    show "p_post c2 (loop_post c2 0 P P)
       (if sql_check c2 TKeyword op
        then case sql_take c2 of (tok, c) \<Rightarrow>
            p_then (item c) (\<lambda>right c.
              PDone (Again (SQL_Node SqlOperator (tok_value tok) [l, right])) c)
        else PDone (Break l) c2)"
      using c2 reach_ok [OF c2(1)]
      by (auto intro!: p_post_take_here [where k = 0] sql_check_pos here2
            intro: operator elim: reach_less)
  qed (use c1 in auto)
qed (use assms in auto)

end

end
