(* ===== verification/Sql_Parser_Expr.thy ===== *)
theory Sql_Parser_Expr
  imports Sql_Parse_Ctx
begin

text \<open>
  The expression and query half of the recursive descent parser of
  \<open>src/src/ir_gen/sql_parser.c\<close>: column and table references, aggregate and window calls,
  conditions, and the \<open>select\<close> statement with its clauses and subqueries.

  Each C function is one definition of the same name. The functions are mutually recursive in C;
  here a function receives the parsers it calls recursively as arguments: \<open>psel\<close> for
  \<open>sql_parse_select_statement\<close>, \<open>plog\<close> for \<open>sql_parse_logical_expression\<close>,
  \<open>pagg\<close> for \<open>sql_parse_aggregate_call\<close>. The knots \<open>aggregate_knot\<close>,
  \<open>select_knot\<close> and \<open>logical_knot\<close> tie them with fuel. Every recursive call is
  made after a token has been consumed, so one unit more than the tokens left is enough: that
  is the contract of the locales \<open>nested_parsers\<close> and \<open>aggregate_parser\<close>.
\<close>

section \<open>Columns, function calls and windows\<close>

definition sql_parse_column_ref :: "pctx \<Rightarrow> sql_node presult" where
  "sql_parse_column_ref c =
     p_take c TIdentifier ''column name'' (\<lambda>name c.
       if sql_check c TSymbol ''.'' \<and> tok_type (sql_peek c 1) = TIdentifier
       then let c = sql_advance c 1;
                (second, c) = sql_take c
            in PDone (sql_leaf SqlColumn (str8_varg name @ ''.'' @ str8_varg (tok_value second))) c
       else PDone (sql_leaf SqlColumn name) c)"

definition sql_is_call :: "pctx \<Rightarrow> bool" where
  "sql_is_call c \<longleftrightarrow> tok_type (sql_peek c 1) = TSymbol \<and> str8_match (tok_value (sql_peek c 1)) ''('' match_exact"

text \<open>One argument of a call: \<open>*\<close>, a number, a string or a column.\<close>

definition sql_parse_call_arg :: "pctx \<Rightarrow> sql_node presult" where
  "sql_parse_call_arg c =
     (if sql_check c TSymbol ''*'' then PDone (sql_leaf SqlColumn ''*'') (sql_advance c 1)
      else if sql_check c TNumber [] then
        let (tok, c) = sql_take c in PDone (sql_leaf SqlNumeric (tok_value tok)) c
      else if sql_check c TString [] then
        let (tok, c) = sql_take c in PDone (sql_leaf SqlLiteral (tok_value tok)) c
      else sql_parse_column_ref c)"

definition sql_parse_order_item :: "(string8 \<Rightarrow> pctx \<Rightarrow> sql_node presult) \<Rightarrow> pctx \<Rightarrow> sql_node presult" where
  "sql_parse_order_item pagg c =
     (let first_tok = sql_peek c 0;
          is_call = (tok_type first_tok = TIdentifier \<and> sql_is_call c)
      in p_then (if is_call then pagg (tok_value first_tok) c else sql_parse_column_ref c) (\<lambda>column c.
        if sql_check c TKeyword [] then
          let v = tok_value (sql_peek c 0) in
          if str8_match v ''asc'' match_ci
          then PDone (sql_push_child column (sql_leaf SqlAscending v)) (sql_advance c 1)
          else if str8_match v ''desc'' match_ci
          then PDone (sql_push_child column (sql_leaf SqlDescending v)) (sql_advance c 1)
          else PDone column c
        else PDone column c))"

definition sql_parse_order_by_clause :: "(string8 \<Rightarrow> pctx \<Rightarrow> sql_node presult) \<Rightarrow> pctx \<Rightarrow> sql_node presult" where
  "sql_parse_order_by_clause pagg c =
     (let (ok, c) = sql_match c TKeyword ''order'' in
      if \<not> ok then p_fail_at c (sql_ctx_error_range c) (''expected '' @ q ''order'' @ '' keyword'')
      else p_require c TKeyword ''by'' (q ''by'' @ '' after '' @ q ''order'') (\<lambda>c.
        p_then (p_comma_list (sql_parse_order_item pagg) c) (\<lambda>items c.
          PDone (SQL_Node SqlOrderBy [] items) c)))"

text \<open>The optional \<open>partition by\<close> and \<open>order by\<close> of a window, as the children read
  so far.\<close>

definition sql_parse_window_partition :: "pctx \<Rightarrow> sql_node list presult" where
  "sql_parse_window_partition c =
     (let (ok, c) = sql_match c TKeyword ''partition'' in
      if ok then
        p_require c TKeyword ''by'' (q ''by'' @ '' after '' @ q ''partition'') (\<lambda>c.
          p_then (p_comma_list sql_parse_column_ref c) (\<lambda>cols c.
            PDone [SQL_Node SqlPartitionBy [] cols] c))
      else PDone [] c)"

definition sql_parse_window_order ::
  "(string8 \<Rightarrow> pctx \<Rightarrow> sql_node presult) \<Rightarrow> sql_node list \<Rightarrow> pctx \<Rightarrow> sql_node list presult" where
  "sql_parse_window_order pagg parts c =
     (if sql_check c TKeyword ''order'' then
        p_then (sql_parse_order_by_clause pagg c) (\<lambda>ord c. PDone (parts @ [ord]) c)
      else PDone parts c)"

definition sql_parse_window_spec :: "(string8 \<Rightarrow> pctx \<Rightarrow> sql_node presult) \<Rightarrow> pctx \<Rightarrow> sql_node presult" where
  "sql_parse_window_spec pagg c =
     p_require c TSymbol ''('' (q ''('' @ '' after '' @ q ''over'') (\<lambda>c.
       p_then (sql_parse_window_partition c) (\<lambda>parts c.
       p_then (sql_parse_window_order pagg parts c) (\<lambda>parts c.
       p_require c TSymbol '')'' (q '')'' @ '' to close '' @ q ''over (...)'') (\<lambda>c.
         PDone (SQL_Node SqlWindow [] parts) c))))"

definition sql_parse_aggregate_call ::
  "(string8 \<Rightarrow> pctx \<Rightarrow> sql_node presult) \<Rightarrow> string8 \<Rightarrow> pctx \<Rightarrow> sql_node presult" where
  "sql_parse_aggregate_call pagg func_name c =
     (let c = sql_advance c 2;
          no_args = sql_check c TSymbol '')''
      in p_then (if no_args then PDone [] c else p_comma_list sql_parse_call_arg c) (\<lambda>args c.
        p_require c TSymbol '')'' (q '')'' @ '' after aggregate function argument'') (\<lambda>c.
          let call = SQL_Node SqlAggregateCall func_name args in
          if sql_check c TKeyword ''over'' then
            p_then (sql_parse_window_spec pagg (sql_advance c 1)) (\<lambda>w c.
              PDone (sql_push_child call w) c)
          else PDone call c)))"

fun aggregate_knot :: "nat \<Rightarrow> string8 \<Rightarrow> pctx \<Rightarrow> sql_node presult" where
  "aggregate_knot 0 func_name c = PFuel"
| "aggregate_knot (Suc n) func_name c = sql_parse_aggregate_call (aggregate_knot n) func_name c"

definition parse_aggregate :: "string8 \<Rightarrow> pctx \<Rightarrow> sql_node presult" where
  "parse_aggregate func_name c = aggregate_knot (Suc (sql_remaining c)) func_name c"

section \<open>Tables, conditions and queries\<close>

definition sql_parse_parenthesized_select :: "(pctx \<Rightarrow> sql_node presult) \<Rightarrow> pctx \<Rightarrow> sql_node presult" where
  "sql_parse_parenthesized_select psel c =
     (let c = sql_advance c 1 in
      p_then (psel c) (\<lambda>sel c.
        p_require c TSymbol '')'' (q '')'' @ '' after subquery'') (\<lambda>c. PDone sel c)))"

definition sql_parse_table_alias :: "bool \<Rightarrow> sql_node \<Rightarrow> pctx \<Rightarrow> sql_node presult" where
  "sql_parse_table_alias is_derived table c =
     (let (has_as, c) = sql_match c TKeyword ''as'' in
      if has_as \<or> sql_check c TIdentifier [] then
        p_take c TIdentifier (''alias name after '' @ q ''as'') (\<lambda>name c.
          PDone (sql_push_child table (sql_leaf SqlAlias name)) c)
      else if is_derived then
        p_fail_at c (sql_ctx_error_range c)
          (''a subquery in '' @ q ''from'' @ '' needs an alias, found '' @ q (str8_varg (sql_ctx_text_or_eof c)))
      else PDone table c)"

definition sql_parse_table_ref :: "(pctx \<Rightarrow> sql_node presult) \<Rightarrow> pctx \<Rightarrow> sql_node presult" where
  "sql_parse_table_ref psel c =
     (if sql_check_paren_select c then
        p_then (sql_parse_parenthesized_select psel c) (\<lambda>sel c.
          sql_parse_table_alias True (SQL_Node SqlTable [] [sel]) c)
      else
        p_take c TIdentifier ''table name'' (\<lambda>name c.
          sql_parse_table_alias False (sql_leaf SqlTable name) c))"

definition sql_parse_expression :: "(pctx \<Rightarrow> sql_node presult) \<Rightarrow> pctx \<Rightarrow> sql_node presult" where
  "sql_parse_expression psel c =
     (if sql_at_end c then p_fail_at c (sql_ctx_error_range c) ''unexpected end of input in expression''
      else
        let tok = sql_peek c 0; v = tok_value tok in
        if sql_check_paren_select c then
          p_then (sql_parse_parenthesized_select psel c) (\<lambda>sel c. PDone (SQL_Node SqlSubquery [] [sel]) c)
        else if tok_type tok = TIdentifier then
          (if sql_is_call c then parse_aggregate v c else sql_parse_column_ref c)
        else if tok_type tok = TNumber \<or> tok_type tok = TString then
          PDone (sql_leaf (if tok_type tok = TNumber then SqlNumeric else SqlLiteral) v) (sql_advance c 1)
        else if tok_type tok = TKeyword \<and> (str8_match v ''true'' match_ci \<or> str8_match v ''false'' match_ci) then
          PDone (sql_leaf SqlNumeric (if str8_match v ''true'' match_ci then ''1'' else ''0'')) (sql_advance c 1)
        else p_fail_at c (tok_range tok) (''unexpected token '' @ q (str8_varg v) @ '' in expression''))"

definition sql_next_is_keyword :: "pctx \<Rightarrow> string8 \<Rightarrow> bool" where
  "sql_next_is_keyword c kw \<longleftrightarrow>
     tok_type (sql_peek c 1) = TKeyword \<and> str8_match (tok_value (sql_peek c 1)) kw match_ci"

text \<open>The parts of \<open>sql_parse_comparison_expression\<close>: \<open>[not] exists (select ..)\<close>, a
  group in parentheses, the test for null, the right hand side of \<open>[not] in\<close>, the tail after
  the left operand.\<close>

definition sql_parse_exists :: "(pctx \<Rightarrow> sql_node presult) \<Rightarrow> bool \<Rightarrow> pctx \<Rightarrow> sql_node presult" where
  "sql_parse_exists psel negate c =
     (let c = sql_advance c (if negate then 2 else 1) in
      if \<not> sql_check_paren_select c
      then p_expected c (q ''(select ...)'' @ '' after '' @ q ''exists'')
      else p_then (sql_parse_parenthesized_select psel c) (\<lambda>sel c.
        PDone (SQL_Node SqlExists (if negate then ''not'' else []) [sel]) c))"

definition sql_parse_is_null :: "sql_node \<Rightarrow> pctx \<Rightarrow> sql_node presult" where
  "sql_parse_is_null left c =
     (let (negate, c) = sql_match c TKeyword ''not'' in
      p_require c TKeyword ''null'' (q ''null'' @ '' after '' @ q (''is'' @ (if negate then '' not'' else []))) (\<lambda>c.
        PDone (SQL_Node SqlOperator (if negate then ''is not null'' else ''is null'') [left]) c))"

definition sql_parse_in_item :: "pctx \<Rightarrow> sql_node presult" where
  "sql_parse_in_item c =
     (let tok = sql_peek c 0 in
      if tok_type tok \<noteq> TNumber \<and> tok_type tok \<noteq> TString
      then p_expected c (''a number or string literal in '' @ q ''in'' @ '' list'')
      else PDone (sql_leaf (if tok_type tok = TNumber then SqlNumeric else SqlLiteral) (tok_value tok))
             (sql_advance c 1))"

definition sql_parse_in_operand :: "(pctx \<Rightarrow> sql_node presult) \<Rightarrow> pctx \<Rightarrow> sql_node presult" where
  "sql_parse_in_operand psel c =
     (if sql_check_paren_select c then
        p_then (sql_parse_parenthesized_select psel c) (\<lambda>sel c. PDone (SQL_Node SqlSubquery [] [sel]) c)
      else
        p_require c TSymbol ''('' (q ''('' @ '' after '' @ q ''in'') (\<lambda>c.
        p_then (p_comma_list sql_parse_in_item c) (\<lambda>items c.
        p_require c TSymbol '')'' (q '')'' @ '' to close '' @ q ''in'' @ '' list'') (\<lambda>c.
          PDone (SQL_Node SqlInList [] items) c))))"

definition sql_parse_comparison_tail ::
  "(pctx \<Rightarrow> sql_node presult) \<Rightarrow> sql_node \<Rightarrow> pctx \<Rightarrow> sql_node presult" where
  "sql_parse_comparison_tail psel left c =
     (let (is, c) = sql_match c TKeyword ''is'' in
      if is then sql_parse_is_null left c
      else
        let negate_in = (sql_check c TKeyword ''not'' \<and> sql_next_is_keyword c ''in'') in
        if negate_in \<or> sql_check c TKeyword ''in'' then
          let c = sql_advance c (if negate_in then 2 else 1) in
          p_then (sql_parse_in_operand psel c) (\<lambda>right c.
            PDone (SQL_Node SqlOperator (if negate_in then ''not in'' else ''in'') [left, right]) c)
        else
          let op_tok = sql_peek c 0 in
          if \<not> (tok_type op_tok = TOperator \<or> tok_type op_tok = TKeyword)
          then p_expected c ''comparison operator''
          else let (op, c) = sql_take c in
            p_then (sql_parse_expression psel c) (\<lambda>right c.
              PDone (SQL_Node SqlOperator (tok_value op) [left, right]) c))"

definition sql_parse_comparison_expression ::
  "(pctx \<Rightarrow> sql_node presult) \<Rightarrow> (pctx \<Rightarrow> sql_node presult) \<Rightarrow> pctx \<Rightarrow> sql_node presult" where
  "sql_parse_comparison_expression psel plog c =
     (let negate_exists = (sql_check c TKeyword ''not'' \<and> sql_next_is_keyword c ''exists'') in
      if negate_exists \<or> sql_check c TKeyword ''exists'' then sql_parse_exists psel negate_exists c
      else
        let (group, c) = (if sql_check_paren_select c then (False, c) else sql_match c TSymbol ''('') in
        if group then
          p_then (plog c) (\<lambda>e c. p_require c TSymbol '')'' (q '')'' @ '' after expression'') (\<lambda>c. PDone e c))
        else
          p_then (sql_parse_expression psel c) (sql_parse_comparison_tail psel))"

definition sql_parse_and_expression ::
  "(pctx \<Rightarrow> sql_node presult) \<Rightarrow> (pctx \<Rightarrow> sql_node presult) \<Rightarrow> pctx \<Rightarrow> sql_node presult" where
  "sql_parse_and_expression psel plog = p_left_chain ''and'' (sql_parse_comparison_expression psel plog)"

definition sql_parse_logical_expression ::
  "(pctx \<Rightarrow> sql_node presult) \<Rightarrow> (pctx \<Rightarrow> sql_node presult) \<Rightarrow> pctx \<Rightarrow> sql_node presult" where
  "sql_parse_logical_expression psel plog = p_left_chain ''or'' (sql_parse_and_expression psel plog)"

end
