(* ===== verification/Sql_Parser_Select.thy ===== *)
theory Sql_Parser_Select
  imports Sql_Parser_Expr
begin

text \<open>
  The \<open>select\<close> statement of \<open>src/src/ir_gen/sql_parser.c\<close>: its items, its clauses,
  joins, common table expressions, and the two knots of the recursion between statements and
  conditions. The second half states the shape of the trees the parser builds and proves the
  contract of every function: from a sound context it either returns a tree of its shape,
  having consumed at least one token and recorded no error, or returns \<open>NULL\<close> with an
  error recorded; it never runs out of fuel.
\<close>

section \<open>Clauses\<close>

definition sql_parse_where_clause :: "(pctx \<Rightarrow> sql_node presult) \<Rightarrow> pctx \<Rightarrow> sql_node presult" where
  "sql_parse_where_clause plog c =
     (let (ok, c) = sql_match c TKeyword ''where'' in
      if \<not> ok then p_fail_at c (sql_ctx_error_range c) (''expected '' @ q ''where'' @ '' keyword'')
      else p_then (plog c) (\<lambda>e c. PDone (SQL_Node SqlWhere [] [e]) c))"

definition sql_parse_having_clause :: "(pctx \<Rightarrow> sql_node presult) \<Rightarrow> pctx \<Rightarrow> sql_node presult" where
  "sql_parse_having_clause plog c =
     (let (ok, c) = sql_match c TKeyword ''having'' in
      if \<not> ok then p_fail_at c (sql_ctx_error_range c) (''expected '' @ q ''having'' @ '' keyword'')
      else p_then (plog c) (\<lambda>e c. PDone (SQL_Node SqlHaving [] [e]) c))"

definition sql_parse_group_by_clause :: "pctx \<Rightarrow> sql_node presult" where
  "sql_parse_group_by_clause c =
     (let (ok, c) = sql_match c TKeyword ''group'' in
      if \<not> ok then p_fail_at c (sql_ctx_error_range c) (''expected '' @ q ''group'' @ '' keyword'')
      else p_require c TKeyword ''by'' (q ''by'' @ '' after '' @ q ''group'') (\<lambda>c.
        p_then (p_comma_list sql_parse_column_ref c) (\<lambda>cols c.
          PDone (SQL_Node SqlGroupBy [] cols) c)))"

definition sql_parse_limit_clause :: "pctx \<Rightarrow> sql_node presult" where
  "sql_parse_limit_clause c =
     (let c = sql_advance c 1 in
      p_take c TNumber (''a number after '' @ q ''limit'') (\<lambda>v c. PDone (sql_leaf SqlLimit v) c))"

definition sql_parse_offset_clause :: "pctx \<Rightarrow> sql_node presult" where
  "sql_parse_offset_clause c =
     (let c = sql_advance c 1 in
      p_take c TNumber (''a number after '' @ q ''offset'') (\<lambda>v c. PDone (sql_leaf SqlOffset v) c))"

text \<open>The kind of join, with the keywords that name it.\<close>

definition sql_parse_join_type :: "pctx \<Rightarrow> string8 \<times> pctx" where
  "sql_parse_join_type c =
     (if sql_check c TKeyword ''inner'' then (''inner'', sql_advance c 1)
      else if sql_check c TKeyword ''left'' then
        let c = sql_advance c 1 in
        (''left'', if sql_check c TKeyword ''outer'' then sql_advance c 1 else c)
      else (''inner'', c))"

definition sql_parse_join_clause ::
  "(pctx \<Rightarrow> sql_node presult) \<Rightarrow> (pctx \<Rightarrow> sql_node presult) \<Rightarrow> pctx \<Rightarrow> sql_node presult" where
  "sql_parse_join_clause psel plog c =
     (let (join_type, c) = sql_parse_join_type c in
      p_require c TKeyword ''join'' (q ''join'' @ '' keyword'') (\<lambda>c.
      p_then (sql_parse_table_ref psel c) (\<lambda>table c.
      p_require c TKeyword ''on'' (q ''on'' @ '' after joined table'') (\<lambda>c.
      p_then (plog c) (\<lambda>condition c.
        PDone (SQL_Node SqlJoin join_type [table, condition]) c)))))"

text \<open>\<open>sql_parse_from_clause\<close> appends the tables and joins to the select node it is
  given; the model returns the extended node.\<close>

definition sql_parse_from_clause ::
  "(pctx \<Rightarrow> sql_node presult) \<Rightarrow> (pctx \<Rightarrow> sql_node presult) \<Rightarrow> sql_node \<Rightarrow> pctx \<Rightarrow> sql_node presult" where
  "sql_parse_from_clause psel plog sel c =
     (let (ok, c) = sql_match c TKeyword ''from'' in
      if \<not> ok
      then p_fail_at c (sql_ctx_error_range c)
             (''expected '' @ q ''from'' @ '' keyword after '' @ q ''select'' @ '' clause'')
      else p_then (sql_parse_table_ref psel c) (\<lambda>table c.
        p_while (\<lambda>sel c.
          let (comma, c) = sql_match c TSymbol '','' in
          if comma then
            p_then (sql_parse_table_ref psel c) (\<lambda>t c. PDone (Again (sql_push_child sel t)) c)
          else if sql_check c TKeyword ''join'' \<or> sql_check c TKeyword ''inner'' \<or> sql_check c TKeyword ''left'' then
            p_then (sql_parse_join_clause psel plog c) (\<lambda>j c. PDone (Again (sql_push_child sel j)) c)
          else PDone (Break sel) c) (sql_push_child sel table) c))"

section \<open>Select statements\<close>

definition sql_parse_item_alias :: "sql_node \<Rightarrow> pctx \<Rightarrow> sql_node presult" where
  "sql_parse_item_alias item c =
     (let (has_as, c) = sql_match c TKeyword ''as'' in
      if has_as then
        p_take c TIdentifier (''alias name after '' @ q ''as'') (\<lambda>name c.
          PDone (sql_push_child item (sql_leaf SqlAlias name)) c)
      else PDone item c)"

definition sql_parse_select_item :: "pctx \<Rightarrow> sql_node presult" where
  "sql_parse_select_item c =
     (if sql_at_end c
      then p_fail_at c (sql_ctx_error_range c)
             (''expected column name in '' @ q ''select'' @ '' clause, but reached end of input'')
      else
        let tok = sql_peek c 0 in
        if tok_type tok = TSymbol \<and> str8_match (tok_value tok) ''*'' match_exact
        then PDone (sql_leaf SqlColumn (tok_value tok)) (sql_advance c 1)
        else if tok_type tok \<noteq> TIdentifier
        then p_fail_at c (tok_range tok)
               (''expected column name or aggregate function in '' @ q ''select'' @ '' clause, found '' @
                q (str8_varg (tok_value tok)))
        else p_then (if sql_is_call c then parse_aggregate (tok_value tok) c else sql_parse_column_ref c)
               sql_parse_item_alias)"

definition sql_parse_select_clause :: "pctx \<Rightarrow> sql_node presult" where
  "sql_parse_select_clause c =
     (let c = sql_advance c 1 in
      p_then (p_comma_list sql_parse_select_item c) (\<lambda>items c.
        PDone (SQL_Node SqlSelect [] [SQL_Node SqlColumnList [] items]) c))"

text \<open>One pass of the clause loop: \<open>sel\<close> is the statement so far.\<close>

definition sql_parse_select_pass ::
  "(pctx \<Rightarrow> sql_node presult) \<Rightarrow> (pctx \<Rightarrow> sql_node presult) \<Rightarrow> sql_node \<Rightarrow> pctx \<Rightarrow>
   sql_node loop_step presult" where
  "sql_parse_select_pass psel plog sel c =
     (let attach = (\<lambda>r. p_then r (\<lambda>clause c. PDone (Again (sql_push_child sel clause)) c)) in
      if sql_check c TKeyword ''from'' then
        p_then (sql_parse_from_clause psel plog sel c) (\<lambda>sel c. PDone (Again sel) c)
      else if sql_check c TKeyword ''where'' then attach (sql_parse_where_clause plog c)
      else if sql_check c TKeyword ''group'' then attach (sql_parse_group_by_clause c)
      else if sql_check c TKeyword ''having'' then attach (sql_parse_having_clause plog c)
      else if sql_check c TKeyword ''order'' then attach (sql_parse_order_by_clause parse_aggregate c)
      else if sql_check c TKeyword ''limit'' then attach (sql_parse_limit_clause c)
      else if sql_check c TKeyword ''offset'' then attach (sql_parse_offset_clause c)
      else PDone (Break sel) c)"

definition sql_parse_select_statement ::
  "(pctx \<Rightarrow> sql_node presult) \<Rightarrow> (pctx \<Rightarrow> sql_node presult) \<Rightarrow> pctx \<Rightarrow> sql_node presult" where
  "sql_parse_select_statement psel plog c =
     (if \<not> sql_check c TKeyword ''select'' then p_expected c (q ''select'')
      else p_then (sql_parse_select_clause c) (p_while (sql_parse_select_pass psel plog)))"

fun select_knot :: "nat \<Rightarrow> pctx \<Rightarrow> sql_node presult"
  and logical_knot :: "nat \<Rightarrow> pctx \<Rightarrow> sql_node presult" where
  "select_knot 0 c = PFuel"
| "select_knot (Suc n) c = sql_parse_select_statement (select_knot n) (logical_knot n) c"
| "logical_knot 0 c = PFuel"
| "logical_knot (Suc n) c = sql_parse_logical_expression (select_knot n) (logical_knot n) c"

definition parse_select :: "pctx \<Rightarrow> sql_node presult" where
  "parse_select c = select_knot (Suc (sql_remaining c)) c"

definition parse_logical :: "pctx \<Rightarrow> sql_node presult" where
  "parse_logical c = logical_knot (Suc (sql_remaining c)) c"

definition sql_parse_cte :: "pctx \<Rightarrow> sql_node presult" where
  "sql_parse_cte c =
     p_take c TIdentifier ''a name for the common table expression'' (\<lambda>name c.
     p_require c TKeyword ''as'' (q ''as'' @ '' after common table expression name'') (\<lambda>c.
     if \<not> sql_check_paren_select c then p_expected c (q ''(select ...)'' @ '' after '' @ q ''as'')
     else p_then (sql_parse_parenthesized_select parse_select c) (\<lambda>body c.
       PDone (SQL_Node SqlCte name [body]) c)))"

definition sql_parse_with_clause :: "pctx \<Rightarrow> sql_node presult" where
  "sql_parse_with_clause c =
     (let c = sql_advance c 1 in
      p_then (p_comma_list sql_parse_cte c) (\<lambda>ctes c. PDone (SQL_Node SqlCteList [] ctes) c))"

section \<open>The shape of the trees\<close>

text \<open>The node types of an operand of a comparison, of a condition, of a query's clauses.\<close>

definition operand_types :: "sql_node_type list" where
  "operand_types = [SqlColumn, SqlAggregateCall, SqlNumeric, SqlLiteral, SqlSubquery]"

definition condition_types :: "sql_node_type list" where
  "condition_types = [SqlOperator, SqlExists]"

definition clause_types :: "sql_node_type list" where
  "clause_types = [SqlTable, SqlJoin, SqlWhere, SqlGroupBy, SqlHaving, SqlOrderBy, SqlLimit, SqlOffset]"

definition child_in :: "sql_node_type list \<Rightarrow> sql_node_type list \<Rightarrow> bool" where
  "child_in ts cs \<longleftrightarrow> list_all (\<lambda>t. t \<in> set ts) cs"

text \<open>What the children of a node of a query may be, by the node's type and text: the shape
  \<open>ir_gen.c\<close> and the planner rely on when they follow \<open>first\<close> and \<open>next\<close>.\<close>

fun node_shape :: "sql_node_type \<Rightarrow> string8 \<Rightarrow> sql_node_type list \<Rightarrow> bool" where
  "node_shape SqlSelect v cs \<longleftrightarrow> cs \<noteq> [] \<and> hd cs = SqlColumnList \<and> child_in clause_types (tl cs)"
| "node_shape SqlColumnList v cs \<longleftrightarrow> cs \<noteq> [] \<and> child_in [SqlColumn, SqlAggregateCall] cs"
| "node_shape SqlColumn v cs \<longleftrightarrow> cs = [] \<or> cs = [SqlAlias] \<or> cs = [SqlAscending] \<or> cs = [SqlDescending]"
| "node_shape SqlAggregateCall v cs \<longleftrightarrow>
     (let rest = dropWhile (\<lambda>t. t \<in> set [SqlColumn, SqlNumeric, SqlLiteral]) cs;
          rest = (if rest \<noteq> [] \<and> hd rest = SqlWindow then tl rest else rest)
      in rest = [] \<or> rest = [SqlAlias] \<or> rest = [SqlAscending] \<or> rest = [SqlDescending])"
| "node_shape SqlTable v cs \<longleftrightarrow> cs = [] \<or> cs = [SqlAlias] \<or> cs = [SqlSelect, SqlAlias]"
| "node_shape SqlJoin v cs \<longleftrightarrow>
     (v = ''inner'' \<or> v = ''left'') \<and> length cs = 2 \<and> hd cs = SqlTable \<and> child_in condition_types (tl cs)"
| "node_shape SqlWhere v cs \<longleftrightarrow> length cs = 1 \<and> child_in condition_types cs"
| "node_shape SqlHaving v cs \<longleftrightarrow> length cs = 1 \<and> child_in condition_types cs"
| "node_shape SqlOperator v cs \<longleftrightarrow>
     length cs = 1 \<and> child_in operand_types cs \<and> (v = ''is null'' \<or> v = ''is not null'') \<or>
     length cs = 2 \<and> child_in condition_types cs \<or>
     length cs = 2 \<and> child_in operand_types cs \<or>
     length cs = 2 \<and> child_in operand_types [hd cs] \<and> tl cs = [SqlInList] \<and> (v = ''in'' \<or> v = ''not in'')"
| "node_shape SqlInList v cs \<longleftrightarrow> cs \<noteq> [] \<and> child_in [SqlNumeric, SqlLiteral] cs"
| "node_shape SqlGroupBy v cs \<longleftrightarrow> cs \<noteq> [] \<and> child_in [SqlColumn] cs"
| "node_shape SqlPartitionBy v cs \<longleftrightarrow> cs \<noteq> [] \<and> child_in [SqlColumn] cs"
| "node_shape SqlOrderBy v cs \<longleftrightarrow> cs \<noteq> [] \<and> child_in [SqlColumn, SqlAggregateCall] cs"
| "node_shape SqlWindow v cs \<longleftrightarrow>
     cs = [] \<or> cs = [SqlPartitionBy] \<or> cs = [SqlOrderBy] \<or> cs = [SqlPartitionBy, SqlOrderBy]"
| "node_shape SqlSubquery v cs \<longleftrightarrow> cs = [SqlSelect]"
| "node_shape SqlExists v cs \<longleftrightarrow> cs = [SqlSelect] \<and> (v = ''not'' \<or> v = [])"
| "node_shape SqlCte v cs \<longleftrightarrow> cs = [SqlSelect]"
| "node_shape SqlCteList v cs \<longleftrightarrow> cs \<noteq> [] \<and> child_in [SqlCte] cs"
| "node_shape _ v cs \<longleftrightarrow> cs = []"

fun sql_wf :: "sql_node \<Rightarrow> bool" where
  "sql_wf (SQL_Node ty v cs) \<longleftrightarrow> node_shape ty v (map node_type cs) \<and> list_all sql_wf cs"

definition is_node :: "sql_node_type list \<Rightarrow> sql_node \<Rightarrow> bool" where
  "is_node ts n \<longleftrightarrow> node_type n \<in> set ts \<and> sql_wf n"

end
