(* ===== verification/Sql_Parser_Contract.thy ===== *)
theory Sql_Parser_Contract
  imports Sql_Parser_Select
begin

text \<open>
  The contract of the query parser. \<open>calls\<close> collects the rules by which the body of a
  parse function is followed from its entry; the locales \<open>aggregate_parser\<close> and
  \<open>nested_parsers\<close> state what a function relies on in the parsers it calls recursively;
  they are interpreted on the knots.
\<close>

named_theorems calls

lemmas [calls] = p_post_fail_at p_post_expected

section \<open>Nodes\<close>

lemma is_node_weaken: "is_node ts n \<Longrightarrow> set ts \<subseteq> set us \<Longrightarrow> is_node us n"
  by (auto simp: is_node_def)

lemma node_type_leaf [simp]: "node_type (sql_leaf t v) = t"
  by (simp add: sql_leaf_def)

lemma node_type_push [simp]: "node_type (sql_push_child n c) = node_type n"
  by (simp add: sql_push_child_def)

lemma sql_wf_push [simp]:
  "sql_wf (sql_push_child (SQL_Node t v cs) c) \<longleftrightarrow>
     node_shape t v (map node_type cs @ [node_type c]) \<and> list_all sql_wf cs \<and> sql_wf c"
  by (simp add: sql_push_child_def)

text \<open>A column or a call before its alias or sort direction is attached.\<close>

definition call_arg :: "sql_node \<Rightarrow> bool" where
  "call_arg n \<longleftrightarrow> is_node [SqlColumn, SqlNumeric, SqlLiteral] n"

definition fresh_call :: "sql_node \<Rightarrow> bool" where
  "fresh_call n \<longleftrightarrow> (\<exists>v args w. n = SQL_Node SqlAggregateCall v (args @ w) \<and> list_all call_arg args \<and>
     (w = [] \<or> (\<exists>x. w = [x] \<and> is_node [SqlWindow] x)))"

definition fresh_column :: "sql_node \<Rightarrow> bool" where
  "fresh_column n \<longleftrightarrow> node_type n = SqlColumn \<and> node_children n = []"

lemma dropWhile_call_args:
  "list_all call_arg args \<Longrightarrow>
   dropWhile (\<lambda>t. t = SqlColumn \<or> t = SqlNumeric \<or> t = SqlLiteral) (map node_type args @ ts) =
   dropWhile (\<lambda>t. t = SqlColumn \<or> t = SqlNumeric \<or> t = SqlLiteral) ts"
  by (induction args) (auto simp: call_arg_def is_node_def)

lemmas dropWhile_call_args_all = dropWhile_call_args [of _ "[]", simplified]

lemma call_args_wf: "list_all call_arg args \<Longrightarrow> list_all sql_wf args"
  by (induction args) (auto simp: call_arg_def is_node_def)

lemma fresh_call_node: "fresh_call n \<Longrightarrow> is_node [SqlAggregateCall] n"
  by (auto simp: fresh_call_def is_node_def dropWhile_call_args dropWhile_call_args_all call_args_wf Let_def)

lemma fresh_column_node: "fresh_column n \<Longrightarrow> is_node [SqlColumn] n"
  by (cases n) (auto simp: fresh_column_def is_node_def)

lemma fresh_push:
  assumes "fresh_call n \<or> fresh_column n" "t = SqlAlias \<or> t = SqlAscending \<or> t = SqlDescending"
  shows "is_node [SqlColumn, SqlAggregateCall] (sql_push_child n (sql_leaf t v))"
  using assms
  by (cases n) (auto simp: fresh_call_def fresh_column_def is_node_def sql_leaf_def dropWhile_call_args
      dropWhile_call_args_all call_args_wf Let_def)

section \<open>Columns and calls\<close>

lemma column_ref: "pctx_ok c \<Longrightarrow> p_from c 1 fresh_column (sql_parse_column_ref c)"
  unfolding sql_parse_column_ref_def Let_def
  by (auto intro!: p_post_take [where k = 0] p_post_take_any [where k = "Suc 0"] reach_advance
      simp: fresh_column_def sql_leaf_def)

lemma call_arg: "pctx_ok c \<Longrightarrow> p_from c 1 call_arg (sql_parse_call_arg c)"
  unfolding sql_parse_call_arg_def Let_def
  by (auto intro!: p_post_take_here [where k = 0] reach_advance_check [where k = 0, simplified] sql_check_pos
      simp: call_arg_def is_node_def sql_leaf_def
      intro!: p_from_mono [OF column_ref] dest: fresh_column_node)

interpretation call_args: item_parser sql_parse_call_arg "\<lambda>c. True" call_arg
  by unfold_locales (auto intro: call_arg [simplified])

interpretation column_refs: item_parser sql_parse_column_ref "\<lambda>c. True" fresh_column
  by unfold_locales (auto intro: column_ref [simplified])

lemmas [calls] = p_post_call [OF call_args.comma_list] p_post_call [OF column_refs.comma_list]
  p_post_call [OF column_ref]

text \<open>What the windowed call relies on in itself: \<open>over (order by f(..))\<close>.\<close>

locale aggregate_parser =
  fixes pagg :: "string8 \<Rightarrow> pctx \<Rightarrow> sql_node presult" and m :: nat
  assumes pagg: "pctx_ok c \<Longrightarrow> sql_remaining c < m \<Longrightarrow> p_from c 1 fresh_call (pagg f c)"
begin

lemma order_item:
  assumes "pctx_ok c" "sql_remaining c < m"
  shows "p_from c 1 (is_node [SqlColumn, SqlAggregateCall]) (sql_parse_order_item pagg c)"
proof -
  have "p_from c 1 (\<lambda>n. fresh_call n \<or> fresh_column n)
      (if P then pagg f c else sql_parse_column_ref c)" for P f
    using p_from_mono [OF pagg [OF assms]] p_from_mono [OF column_ref [OF assms(1)]] by auto
  note item = p_post_call [OF this]
  show ?thesis
    unfolding sql_parse_order_item_def Let_def
    by (rule item [where k = 0])
      (use assms in \<open>auto intro!: fresh_push reach_advance dest: fresh_call_node fresh_column_node
        intro: is_node_weaken\<close>)
qed

end

sublocale aggregate_parser \<subseteq> order_items: item_parser "sql_parse_order_item pagg"
  "\<lambda>c. sql_remaining c < m" "is_node [SqlColumn, SqlAggregateCall]"
  by unfold_locales (auto intro: order_item [simplified] dest: reach_remaining)

lemmas reach_facts = reach_def pctx_ok_def sql_remaining_def

lemma list_all_is_node:
  "list_all (is_node ts) xs \<longleftrightarrow> child_in ts (map node_type xs) \<and> list_all sql_wf xs"
  by (induction xs) (auto simp: is_node_def child_in_def)

lemma list_all_fresh_column: "list_all fresh_column xs \<Longrightarrow> list_all (is_node [SqlColumn]) xs"
  by (auto simp: list_all_iff intro: fresh_column_node)

context aggregate_parser
begin

lemma order_by:
  assumes "pctx_ok c" "sql_remaining c \<le> m"
  shows "p_from c 1 (is_node [SqlOrderBy]) (sql_parse_order_by_clause pagg c)"
  unfolding sql_parse_order_by_clause_def Let_def
  using assms
  by (auto intro!: p_post_match [where k = 0] p_post_fail_at [where k = 0] p_post_require [where k = 1]
      p_post_call [OF order_items.comma_list, where k = 2];
      auto simp: reach_facts is_node_def list_all_is_node)

lemma window_partition:
  assumes "pctx_ok c"
  shows "p_from c 0 (\<lambda>ps. list_all (is_node [SqlPartitionBy]) ps \<and> length ps \<le> 1) (sql_parse_window_partition c)"
  unfolding sql_parse_window_partition_def Let_def
  using assms
  by (auto intro!: p_post_match [where k = 0] p_post_require [where k = 1]
      p_post_call [OF column_refs.comma_list, where k = 2];
      auto simp: reach_facts is_node_def child_in_def list_all_is_node dest: list_all_fresh_column)

definition window_parts :: "sql_node list \<Rightarrow> bool" where
  "window_parts ps \<longleftrightarrow> list_all sql_wf ps \<and> node_shape SqlWindow [] (map node_type ps)"

lemma window_order:
  assumes "pctx_ok c" "sql_remaining c \<le> m" "list_all (is_node [SqlPartitionBy]) ps" "length ps \<le> 1"
  shows "p_from c 0 window_parts (sql_parse_window_order pagg ps c)"
  unfolding sql_parse_window_order_def
  using assms
  by (cases ps)
    (auto intro!: p_post_call [OF order_by, where k = 0] simp: window_parts_def is_node_def;
      auto simp: reach_facts is_node_def)+

lemma window_spec:
  assumes "pctx_ok c" "sql_remaining c \<le> m"
  shows "p_from c 1 (is_node [SqlWindow]) (sql_parse_window_spec pagg c)"
  unfolding sql_parse_window_spec_def
  by (rule p_post_require [where k = 0])
    (use assms in \<open>auto intro!: p_post_require [where k = 1]
      p_post_then [OF _ window_partition, where k = 1] p_post_then [OF _ window_order, where k = 1];
      auto simp: reach_facts is_node_def window_parts_def\<close>)+

lemma aggregate_call:
  assumes "pctx_ok c" "sql_remaining c \<le> m"
  shows "p_from c 1 fresh_call (sql_parse_aggregate_call pagg f c)"
proof -
  let ?c = "sql_advance c 2"
  have c: "reach c 0 ?c" using assms by (auto intro: reach_advance)
  have "p_from ?c 0 (list_all call_arg)
      (if P then PDone [] ?c else p_comma_list sql_parse_call_arg ?c)" for P
    using c p_from_mono [OF call_args.comma_list] by (auto dest: reach_ok)
  note args = p_post_then [OF c this]
  show ?thesis
    unfolding sql_parse_aggregate_call_def Let_def
    by (rule args)
     (use assms in \<open>auto intro!: p_post_require [where k = 0] p_post_call [OF window_spec, where k = 1];
      auto simp: reach_facts sql_advance_def fresh_call_def sql_push_child_def\<close>)
qed

end

lemma aggregate_knot: "pctx_ok c \<Longrightarrow> sql_remaining c < n \<Longrightarrow> p_from c 1 fresh_call (aggregate_knot n f c)"
proof (induction n arbitrary: f c)
  case (Suc n)
  have "aggregate_parser (aggregate_knot n) n"
    by unfold_locales (rule Suc.IH)
  from aggregate_parser.aggregate_call [OF this] Suc.prems show ?case by simp
qed simp

interpretation aggregates: aggregate_parser "aggregate_knot n" n for n
  by unfold_locales (rule aggregate_knot)

lemma parse_aggregate: "pctx_ok c \<Longrightarrow> p_from c 1 fresh_call (parse_aggregate f c)"
  unfolding parse_aggregate_def by (rule aggregate_knot) simp_all

interpretation parse_aggregates: aggregate_parser parse_aggregate n for n
  by unfold_locales (rule parse_aggregate)

lemma call_or_column:
  "pctx_ok c \<Longrightarrow> p_from c 1 (\<lambda>n. fresh_call n \<or> fresh_column n)
     (if P then parse_aggregate f c else sql_parse_column_ref c)"
  using p_from_mono [OF parse_aggregate [of c f]] p_from_mono [OF column_ref [of c]] by auto

section \<open>Clauses without conditions\<close>

lemma order_by_clause:
  "pctx_ok c \<Longrightarrow> p_from c 1 (is_node [SqlOrderBy]) (sql_parse_order_by_clause parse_aggregate c)"
  by (rule parse_aggregates.order_by [OF _ order_refl])

lemma group_by_clause: "pctx_ok c \<Longrightarrow> p_from c 1 (is_node [SqlGroupBy]) (sql_parse_group_by_clause c)"
  unfolding sql_parse_group_by_clause_def Let_def
  by (auto intro!: p_post_match [where k = 0] p_post_fail_at [where k = 0] p_post_require [where k = 1]
      p_post_call [OF column_refs.comma_list, where k = 2];
      auto simp: reach_facts is_node_def list_all_is_node dest!: list_all_fresh_column)

lemma limit_clause: "pctx_ok c \<Longrightarrow> p_from c 1 (is_node [SqlLimit]) (sql_parse_limit_clause c)"
  unfolding sql_parse_limit_clause_def Let_def
  by (auto intro!: p_post_take [where k = 0] reach_advance simp: is_node_def sql_leaf_def)

lemma offset_clause: "pctx_ok c \<Longrightarrow> p_from c 1 (is_node [SqlOffset]) (sql_parse_offset_clause c)"
  unfolding sql_parse_offset_clause_def Let_def
  by (auto intro!: p_post_take [where k = 0] reach_advance simp: is_node_def sql_leaf_def)

lemma item_alias:
  assumes "pctx_ok c" "fresh_call n \<or> fresh_column n"
  shows "p_from c 0 (is_node [SqlColumn, SqlAggregateCall]) (sql_parse_item_alias n c)"
  unfolding sql_parse_item_alias_def Let_def
  using assms
  by (auto intro!: p_post_match [where k = 0] p_post_take [where k = 1] fresh_push;
      auto simp: reach_facts dest: fresh_call_node fresh_column_node intro: is_node_weaken)

lemma select_item: "pctx_ok c \<Longrightarrow> p_from c 1 (is_node [SqlColumn, SqlAggregateCall]) (sql_parse_select_item c)"
  unfolding sql_parse_select_item_def Let_def sql_at_end_def
  by (auto intro!: p_post_fail_at [where k = 0] p_post_call [OF parse_aggregate, where k = 0]
      p_post_call [OF column_ref, where k = 0] p_from_tail [OF _ item_alias]
      reach_advance_pos [where k = 0, simplified] simp: is_node_def sql_leaf_def dest: reach_ok)

interpretation select_items: item_parser sql_parse_select_item "\<lambda>c. True"
  "is_node [SqlColumn, SqlAggregateCall]"
  by unfold_locales (auto intro: select_item [simplified])

lemma select_clause: "pctx_ok c \<Longrightarrow> p_from c 1 (is_node [SqlSelect]) (sql_parse_select_clause c)"
  unfolding sql_parse_select_clause_def Let_def
  by (auto intro!: p_post_call [OF select_items.comma_list, where k = 0] reach_advance
      dest: reach_ok [OF reach_advance] simp: is_node_def list_all_is_node child_in_def;
      auto simp: reach_facts sql_advance_def)

lemma in_item: "pctx_ok c \<Longrightarrow> p_from c 1 (is_node [SqlNumeric, SqlLiteral]) (sql_parse_in_item c)"
  unfolding sql_parse_in_item_def Let_def
  by (auto intro!: p_post_expected [where k = 0] reach_advance_pos [where k = 0, simplified]
      sql_peek_pos [where k = 0, simplified] simp: is_node_def sql_leaf_def)

interpretation in_items: item_parser sql_parse_in_item "\<lambda>c. True" "is_node [SqlNumeric, SqlLiteral]"
  by unfold_locales (auto intro: in_item [simplified])

section \<open>Queries and conditions\<close>

lemma select_push:
  assumes "is_node [SqlSelect] sel" "is_node ts n" "set ts \<subseteq> set clause_types"
  shows "is_node [SqlSelect] (sql_push_child sel n)"
  using assms by (cases sel) (auto simp: is_node_def child_in_def sql_push_child_def)

lemma null_node:
  "is_node operand_types l \<Longrightarrow> v = ''is null'' \<or> v = ''is not null'' \<Longrightarrow>
     is_node condition_types (SQL_Node SqlOperator v [l])"
  by (auto simp: is_node_def condition_types_def operand_types_def child_in_def)

lemma op_node:
  "is_node operand_types l \<Longrightarrow> is_node operand_types r \<Longrightarrow>
     is_node condition_types (SQL_Node SqlOperator (tok_value t) [l, r])"
  by (auto simp: is_node_def condition_types_def operand_types_def child_in_def)

lemma in_node:
  assumes "is_node operand_types l" "is_node [SqlSubquery, SqlInList] r"
  shows "is_node condition_types (SQL_Node SqlOperator ''in'' [l, r])"
    and "is_node condition_types (SQL_Node SqlOperator ''not in'' [l, r])"
  using assms by (auto simp: is_node_def condition_types_def operand_types_def child_in_def)

lemma connective_node:
  "is_node condition_types l \<Longrightarrow> is_node condition_types r \<Longrightarrow>
     is_node condition_types (SQL_Node SqlOperator v [l, r])"
  by (auto simp: is_node_def condition_types_def child_in_def)

text \<open>A sound context at a given distance from the end, as the knots are entered.\<close>

locale nested_parsers =
  fixes psel plog :: "pctx \<Rightarrow> sql_node presult" and m :: nat
  assumes psel: "pctx_ok c \<Longrightarrow> sql_remaining c < m \<Longrightarrow> p_from c 1 (is_node [SqlSelect]) (psel c)"
    and plog: "pctx_ok c \<Longrightarrow> sql_remaining c < m \<Longrightarrow> p_from c 1 (is_node condition_types) (plog c)"
begin

lemma paren_select:
  assumes "pctx_ok c" "sql_remaining c \<le> m" "sql_check_paren_select c"
  shows "p_from c 1 (is_node [SqlSelect]) (sql_parse_parenthesized_select psel c)"
proof -
  have "reach c 1 (sql_advance c 1)"
    using assms(1,3) reach_advance_check [of c 0 c TSymbol] by (auto simp: sql_check_paren_select_def)
  then show ?thesis
    unfolding sql_parse_parenthesized_select_def Let_def
    by (auto intro!: p_post_call [OF psel, where k = 1] p_post_require [where k = 2] assms(2)
        dest: reach_ok elim: reach_remaining_less [OF _ _ assms(2)]; auto simp: reach_facts)
qed

lemma table_alias:
  assumes "pctx_ok c" "table = SQL_Node SqlTable [] [sel] \<and> is_node [SqlSelect] sel \<and> derived \<or>
    (\<exists>v. table = sql_leaf SqlTable v) \<and> \<not> derived"
  shows "p_from c 0 (is_node [SqlTable]) (sql_parse_table_alias derived table c)"
  unfolding sql_parse_table_alias_def Let_def
  using assms
  by (auto intro!: p_post_match [where k = 0] p_post_take [where k = 0] p_post_fail_at [where k = 0]
      simp: is_node_def sql_leaf_def sql_push_child_def; auto simp: reach_facts)

lemma table_ref:
  assumes "pctx_ok c" "sql_remaining c \<le> m"
  shows "p_from c 1 (is_node [SqlTable]) (sql_parse_table_ref psel c)"
  unfolding sql_parse_table_ref_def
  using assms
  by (auto intro!: p_post_call [OF paren_select, where k = 0] p_post_take [where k = 0]
      p_from_tail [OF _ table_alias] dest: reach_ok)

lemma expression:
  assumes "pctx_ok c" "sql_remaining c \<le> m"
  shows "p_from c 1 (is_node operand_types) (sql_parse_expression psel c)"
  unfolding sql_parse_expression_def Let_def sql_at_end_def
  using assms
  by (auto intro!: p_post_fail_at [where k = 0] p_post_call [OF paren_select, where k = 0]
      p_from_mono [OF parse_aggregate] p_from_mono [OF column_ref]
      reach_advance_pos [where k = 0, simplified]
      simp: is_node_def sql_leaf_def operand_types_def; auto dest!: fresh_call_node fresh_column_node simp: is_node_def)

lemma exists:
  assumes "pctx_ok c" "sql_remaining c \<le> m" "pos c < length (tokens c)"
  shows "p_from c 1 (is_node condition_types) (sql_parse_exists psel negate c)"
  unfolding sql_parse_exists_def Let_def
  using assms
  by (auto intro!: p_post_expected [where k = 0] p_post_call [OF paren_select, where k = 0] reach_advance
      dest: reach_ok [OF reach_advance] simp: is_node_def condition_types_def;
      auto simp: reach_facts sql_advance_def)

lemma is_null:
  assumes "pctx_ok c" "is_node operand_types left"
  shows "p_from c 1 (is_node condition_types) (sql_parse_is_null left c)"
  unfolding sql_parse_is_null_def Let_def
  using assms
  by (auto intro!: p_post_match [where k = 0] p_post_require [where k = 0]
      simp: is_node_def condition_types_def operand_types_def child_in_def;
      auto simp: reach_facts)

lemma in_operand:
  assumes "pctx_ok c" "sql_remaining c \<le> m"
  shows "p_from c 1 (is_node [SqlSubquery, SqlInList]) (sql_parse_in_operand psel c)"
  unfolding sql_parse_in_operand_def
  using assms
  by (auto intro!: p_post_call [OF paren_select, where k = 0] p_post_require [where k = 0]
      p_post_call [OF in_items.comma_list, where k = 0]; auto simp: reach_facts is_node_def list_all_is_node)

lemma comparison_tail:
  assumes "pctx_ok c" "sql_remaining c \<le> m" "is_node operand_types left"
  shows "p_from c 0 (is_node condition_types) (sql_parse_comparison_tail psel left c)"
  unfolding sql_parse_comparison_tail_def Let_def
  using assms
  by (auto intro!: p_post_match [where k = 0] p_from_tail [OF _ is_null, where k = 0]
      p_post_call [OF in_operand, where k = 0] p_post_call [OF expression, where k = 0]
      p_post_expected [where k = 0] p_post_take_any [where k = 0]
      null_node in_node op_node;
      auto simp: reach_facts sql_advance_def)

lemma comparison:
  assumes "pctx_ok c" "sql_remaining c \<le> m"
  shows "p_from c 1 (is_node condition_types) (sql_parse_comparison_expression psel plog c)"
  unfolding sql_parse_comparison_expression_def Let_def
  using assms
  by (auto intro!: p_from_mono [OF exists] p_post_call [OF plog, where k = 0] p_post_require [where k = 0]
      p_post_match [where k = 0] sql_check_pos
      p_post_call [OF expression, where k = 0] p_from_tail [OF _ comparison_tail, where k = "Suc 0"];
      auto simp: reach_facts)

end

sublocale nested_parsers \<subseteq> comparisons: operand_parser
  "sql_parse_comparison_expression psel plog" "\<lambda>c. sql_remaining c \<le> m" "is_node condition_types"
  by unfold_locales (auto intro: comparison [simplified] connective_node dest: reach_remaining)

context nested_parsers
begin

lemma and_expression:
  assumes "pctx_ok c" "sql_remaining c \<le> m"
  shows "p_from c 1 (is_node condition_types) (sql_parse_and_expression psel plog c)"
  unfolding sql_parse_and_expression_def using assms by (rule comparisons.left_chain)

end

sublocale nested_parsers \<subseteq> conjunctions: operand_parser
  "sql_parse_and_expression psel plog" "\<lambda>c. sql_remaining c \<le> m" "is_node condition_types"
  by unfold_locales (auto intro: and_expression [simplified] connective_node dest: reach_remaining)

context nested_parsers
begin

lemma logical_expression:
  assumes "pctx_ok c" "sql_remaining c \<le> m"
  shows "p_from c 1 (is_node condition_types) (sql_parse_logical_expression psel plog c)"
  unfolding sql_parse_logical_expression_def using assms by (rule conjunctions.left_chain)

lemma where_clause:
  assumes "pctx_ok c" "sql_remaining c \<le> m"
  shows "p_from c 1 (is_node [SqlWhere]) (sql_parse_where_clause plog c)"
  unfolding sql_parse_where_clause_def Let_def
  using assms
  by (auto intro!: p_post_match [where k = 0] p_post_fail_at [where k = 0] p_post_call [OF plog, where k = 0];
      auto simp: reach_facts is_node_def child_in_def)

lemma having_clause:
  assumes "pctx_ok c" "sql_remaining c \<le> m"
  shows "p_from c 1 (is_node [SqlHaving]) (sql_parse_having_clause plog c)"
  unfolding sql_parse_having_clause_def Let_def
  using assms
  by (auto intro!: p_post_match [where k = 0] p_post_fail_at [where k = 0] p_post_call [OF plog, where k = 0];
      auto simp: reach_facts is_node_def child_in_def)

lemma join_type:
  assumes "pctx_ok c" "sql_parse_join_type c = (jt, c')"
  shows "reach c 0 c'" "jt = ''inner'' \<or> jt = ''left''"
  using assms by (auto simp: sql_parse_join_type_def Let_def intro!: reach_advance split: if_splits)

lemma join_clause:
  assumes "pctx_ok c" "sql_remaining c \<le> m"
  shows "p_from c 1 (is_node [SqlJoin]) (sql_parse_join_clause psel plog c)"
proof (cases "sql_parse_join_type c")
  case (Pair jt c')
  note jt = join_type [OF assms(1) Pair]
  show ?thesis
    unfolding sql_parse_join_clause_def Let_def Pair prod.case
    using assms jt
    by (auto intro!: p_post_require [where k = 0] p_post_call [OF table_ref, where k = 0]
        p_post_call [OF plog, where k = 0];
        auto simp: reach_facts is_node_def child_in_def)
qed

lemma from_clause:
  assumes "pctx_ok c" "sql_remaining c \<le> m" "I sel"
    and push: "\<And>s n. I s \<Longrightarrow> is_node [SqlTable, SqlJoin] n \<Longrightarrow> I (sql_push_child s n)"
  shows "p_from c 1 I (sql_parse_from_clause psel plog sel c)"
proof -
  let ?body = "\<lambda>sel c.
     case sql_match c TSymbol '','' of (comma, c) \<Rightarrow>
     if comma then p_then (sql_parse_table_ref psel c) (\<lambda>t c. PDone (Again (sql_push_child sel t)) c)
     else if sql_check c TKeyword ''join'' \<or> sql_check c TKeyword ''inner'' \<or> sql_check c TKeyword ''left''
     then p_then (sql_parse_join_clause psel plog c) (\<lambda>j c. PDone (Again (sql_push_child sel j)) c)
     else PDone (Break sel) c"
  have push: "I (sql_push_child s n)" if "I s" "is_node [SqlTable] n \<or> is_node [SqlJoin] n" for s n
    using that by (auto intro!: push simp: is_node_def)
  have body: "p_post c1 (loop_post c1 0 I I) (?body sel c1)" if "reach c 0 c1" "I sel" for sel c1
    using that assms(2)
    by (auto intro!: p_post_match [where k = 0] p_post_call [OF table_ref, where k = 0]
        p_post_call [OF join_clause, where k = 0] push;
        auto simp: reach_facts)
  have loop: "p_from c 1 I (p_while ?body sel c1)" if "reach c 1 c1" "I sel" for sel c1
    by (rule p_post_while [where I = I and j = 0, unfolded add_0_right])
       (use that body in \<open>auto dest: reach_less\<close>)
  show ?thesis
    unfolding sql_parse_from_clause_def Let_def
    using assms(1-3)
    by (auto intro!: p_post_match [where k = 0] p_post_fail_at [where k = 0]
        p_post_call [OF table_ref, where k = 0] p_from_mono [OF loop] push;
        auto simp: reach_facts)
qed

lemma select_from_clause:
  assumes "pctx_ok c" "sql_remaining c \<le> m" "is_node [SqlSelect] sel"
  shows "p_from c 1 (is_node [SqlSelect]) (sql_parse_from_clause psel plog sel c)"
  by (rule from_clause) (use assms in \<open>auto intro: select_push simp: clause_types_def\<close>)

lemma select_pass:
  assumes "pctx_ok c" "sql_remaining c \<le> m" "is_node [SqlSelect] sel"
  shows "p_post c (loop_post c 0 (is_node [SqlSelect]) (is_node [SqlSelect]))
     (sql_parse_select_pass psel plog sel c)"
proof -
  have attach: "p_post c (loop_post c 0 (is_node [SqlSelect]) (is_node [SqlSelect]))
      (p_then r (\<lambda>clause c. PDone (Again (sql_push_child sel clause)) c))"
    if "p_from c 1 (is_node [t]) r" "t \<in> set clause_types" for r t
    by (rule p_post_call [OF that(1), where k = 0])
      (use assms that(2) in \<open>auto intro: select_push\<close>)
  note attach [OF where_clause] attach [OF group_by_clause] attach [OF having_clause]
    attach [OF order_by_clause] attach [OF limit_clause] attach [OF offset_clause]
  note clauses = this
  show ?thesis
    unfolding sql_parse_select_pass_def Let_def
    using assms
    by (auto intro!: clauses p_post_call [OF select_from_clause, where k = 0] simp: clause_types_def)
qed

lemma select_statement:
  assumes "pctx_ok c" "sql_remaining c \<le> m"
  shows "p_from c 1 (is_node [SqlSelect]) (sql_parse_select_statement psel plog c)"
proof -
  have pass: "p_post c1 (loop_post c1 0 (is_node [SqlSelect]) (is_node [SqlSelect]))
      (sql_parse_select_pass psel plog sel c1)" if "reach c 1 c1" "is_node [SqlSelect] sel" for sel c1
    by (rule select_pass) (use that assms in \<open>auto simp: reach_facts\<close>)
  have loop: "p_from c 1 (is_node [SqlSelect]) (p_while (sql_parse_select_pass psel plog) sel c1)"
    if "reach c 1 c1" "is_node [SqlSelect] sel" for sel c1
    by (rule p_post_while [where I = "is_node [SqlSelect]" and j = 0, unfolded add_0_right])
       (use that pass in auto)
  show ?thesis
    unfolding sql_parse_select_statement_def
    using assms
    by (auto intro!: p_post_expected [where k = 0] p_post_call [OF select_clause, where k = 0]
        p_from_mono [OF loop])
qed

end

lemma query_knots:
  "pctx_ok c \<Longrightarrow> sql_remaining c < n \<Longrightarrow> p_from c 1 (is_node [SqlSelect]) (select_knot n c)"
  "pctx_ok c \<Longrightarrow> sql_remaining c < n \<Longrightarrow> p_from c 1 (is_node condition_types) (logical_knot n c)"
proof (induction n arbitrary: c)
  case (Suc n)
  have "nested_parsers (select_knot n) (logical_knot n) n"
    by unfold_locales (use Suc.IH in auto)
  note body = nested_parsers.select_statement [OF this] nested_parsers.logical_expression [OF this]
  { case 1 with body(1) show ?case by simp }
  { case 2 with body(2) show ?case by simp }
qed simp_all

interpretation queries: nested_parsers "select_knot n" "logical_knot n" n for n
  by unfold_locales (rule query_knots; assumption)+

lemma parse_select: "pctx_ok c \<Longrightarrow> p_from c 1 (is_node [SqlSelect]) (parse_select c)"
  unfolding parse_select_def by (rule query_knots(1)) simp_all

lemma parse_logical: "pctx_ok c \<Longrightarrow> p_from c 1 (is_node condition_types) (parse_logical c)"
  unfolding parse_logical_def by (rule query_knots(2)) simp_all

interpretation parse_queries: nested_parsers parse_select parse_logical m for m
  by unfold_locales (rule parse_select parse_logical; assumption)+

lemma cte: "pctx_ok c \<Longrightarrow> p_from c 1 (is_node [SqlCte]) (sql_parse_cte c)"
  unfolding sql_parse_cte_def
  by (auto intro!: p_post_take [where k = 0] p_post_require [where k = 0] p_post_expected [where k = 0]
      p_post_call [OF parse_queries.paren_select [OF _ order_refl], where k = 0];
      auto simp: reach_facts is_node_def)

interpretation ctes: item_parser sql_parse_cte "\<lambda>c. True" "is_node [SqlCte]"
  by unfold_locales (auto intro: cte [simplified])

lemma with_clause: "pctx_ok c \<Longrightarrow> p_from c 1 (is_node [SqlCteList]) (sql_parse_with_clause c)"
  unfolding sql_parse_with_clause_def Let_def
  by (auto intro!: p_post_call [OF ctes.comma_list, where k = 0] reach_advance
      dest: reach_ok [OF reach_advance] simp: is_node_def list_all_is_node;
      auto simp: reach_facts sql_advance_def)

end
