(* ===== verification/Sql_Parser_Roundtrip.thy ===== *)
theory Sql_Parser_Roundtrip
  imports Sql_Parser_Contract
begin

text \<open>
  Conditions printed with as few parentheses as the precedence of \<open>and\<close> over
  \<open>or\<close> and their left associativity allow are read back by
  \<open>sql_parse_logical_expression\<close> as the tree they came from.
\<close>

section \<open>The tokens ahead of the cursor\<close>

type_synonym tv = "sql_token_type \<times> string8"

definition tv :: "sql_token \<Rightarrow> tv" where
  "tv t = (tok_type t, tok_value t)"

definition ahead :: "pctx \<Rightarrow> tv list" where
  "ahead c = map tv (drop (pos c) (tokens c))"

definition adv :: "pctx \<Rightarrow> nat \<Rightarrow> pctx" where
  "adv c n = c\<lparr>pos := pos c + n\<rparr>"

lemma adv_0 [simp]: "adv c 0 = c"
  by (simp add: adv_def)

lemma adv_adv [simp]: "adv (adv c m) n = adv c (m + n)"
  by (simp add: adv_def add.assoc)

lemma ahead_adv [simp]: "ahead (adv c n) = drop n (ahead c)"
  by (simp add: ahead_def adv_def drop_map add.commute)

lemma ahead_length: "length (ahead c) = sql_remaining c"
  by (simp add: ahead_def sql_remaining_def)

lemma ahead_nth: "k < length (ahead c) \<Longrightarrow> tv (sql_peek c k) = ahead c ! k"
  by (simp add: ahead_def sql_peek_def Let_def add.commute less_diff_conv)

lemma ahead_eof: "length (ahead c) \<le> k \<Longrightarrow> tv (sql_peek c k) = (TEOF, ''<end of input>'')"
  by (auto simp: ahead_def sql_peek_def tv_def mk_token_def Let_def)

definition tv_nth :: "tv list \<Rightarrow> nat \<Rightarrow> tv" where
  "tv_nth ts k = (if k < length ts then ts ! k else (TEOF, ''<end of input>''))"

lemma tv_nth_simps [simp]:
  "tv_nth [] k = (TEOF, ''<end of input>'')"
  "tv_nth (t # ts) 0 = t"
  "tv_nth (t # ts) (Suc k) = tv_nth ts k"
  by (simp_all add: tv_nth_def)

lemma peek_ahead: "tok_type (sql_peek c k) = fst (tv_nth (ahead c) k)" "tok_value (sql_peek c k) = snd (tv_nth (ahead c) k)"
  using ahead_nth [of k c] ahead_eof [of c k] by (auto simp: tv_nth_def tv_def not_less prod_eq_iff)

lemma at_end_ahead: "sql_at_end c \<longleftrightarrow> ahead c = []"
  by (simp add: sql_at_end_def ahead_def)

lemma advance_ahead: "n \<le> length (ahead c) \<Longrightarrow> n \<noteq> 0 \<Longrightarrow> sql_advance c n = adv c n"
  by (simp add: sql_advance_def adv_def ahead_def min_def)

lemma take_ahead: "ahead c \<noteq> [] \<Longrightarrow> sql_take c = (sql_peek c 0, adv c 1)"
  by (simp add: sql_take_def adv_def ahead_def)

lemma check_ahead:
  "sql_check c ty v \<longleftrightarrow> fst (tv_nth (ahead c) 0) = ty \<and> (v = [] \<or> str8_match (snd (tv_nth (ahead c) 0)) v match_ci)"
  by (auto simp: sql_check_def Let_def peek_ahead)

lemma match_ahead:
  "ty \<noteq> TEOF \<Longrightarrow> sql_match c ty v = (if sql_check c ty v then (True, adv c 1) else (False, c))"
  using advance_ahead [of 1 c]
  by (cases "ahead c") (auto simp: sql_match_def check_ahead)

lemmas cursor = peek_ahead at_end_ahead advance_ahead take_ahead check_ahead match_ahead

text \<open>The keywords the parser of conditions compares against each other.\<close>

lemma keyword_matches [simp]:
  "str8_match ''and'' ''or'' match_ci = False" "str8_match ''or'' ''and'' match_ci = False"
  "str8_match ''is'' ''in'' match_ci = False" "str8_match ''in'' ''is'' match_ci = False"
  "str8_match ''not'' ''in'' match_ci = False" "str8_match ''in'' ''not'' match_ci = False"
  "str8_match '')'' '','' match_ci = False" "str8_match '')'' ''.'' match_ci = False" "str8_match '';'' ''.'' match_ci = False"
  "str8_match ''not'' ''is'' match_ci = False" "str8_match ''null'' ''not'' match_ci = False"
  by code_simp+

section \<open>Loops\<close>

lemma p_loop_more:
  "p_loop n body a c \<noteq> PFuel \<Longrightarrow> n \<le> m \<Longrightarrow> p_loop m body a c = p_loop n body a c"
proof (induction n arbitrary: a c m)
  case (Suc n)
  then obtain m' where m: "m = Suc m'" by (cases m) auto
  show ?case
  proof (cases "body a c")
    case (PDone s c')
    with Suc.prems m Suc.IH [of _ c' m'] show ?thesis by (cases s) auto
  qed (use m in auto)
qed simp

lemma p_while_again:
  assumes "body a c = PDone (Again a') c'" "sql_remaining c' < sql_remaining c"
    "p_while body a' c' \<noteq> PFuel"
  shows "p_while body a c = p_while body a' c'"
  using assms p_loop_more [of "Suc (sql_remaining c')" body a' c' "sql_remaining c"]
  by (simp add: p_while_def)

lemma p_while_break: "body a c = PDone (Break a') c' \<Longrightarrow> p_while body a c = PDone a' c'"
  by (simp add: p_while_def)

section \<open>Conditions and their printed form\<close>

datatype lit = LNum string8 | LStr string8

datatype operand = OCol string8 | OQual string8 string8 | OLit lit

datatype cond =
    CCmp operand string8 operand
  | CNull operand bool
  | CIn operand bool lit "lit list"
  | CAnd cond cond
  | COr cond cond

text \<open>The tree, as the parser builds it.\<close>

fun lit_node :: "lit \<Rightarrow> sql_node" where
  "lit_node (LNum v) = sql_leaf SqlNumeric v"
| "lit_node (LStr v) = sql_leaf SqlLiteral v"

fun operand_node :: "operand \<Rightarrow> sql_node" where
  "operand_node (OCol x) = sql_leaf SqlColumn x"
| "operand_node (OQual t x) = sql_leaf SqlColumn (str8_varg t @ ''.'' @ str8_varg x)"
| "operand_node (OLit l) = lit_node l"

fun cond_node :: "cond \<Rightarrow> sql_node" where
  "cond_node (CCmp l op r) = SQL_Node SqlOperator op [operand_node l, operand_node r]"
| "cond_node (CNull l neg) = SQL_Node SqlOperator (if neg then ''is not null'' else ''is null'') [operand_node l]"
| "cond_node (CIn l neg x xs) =
     SQL_Node SqlOperator (if neg then ''not in'' else ''in'')
       [operand_node l, SQL_Node SqlInList [] (map lit_node (x # xs))]"
| "cond_node (CAnd l r) = SQL_Node SqlOperator ''and'' [cond_node l, cond_node r]"
| "cond_node (COr l r) = SQL_Node SqlOperator ''or'' [cond_node l, cond_node r]"

text \<open>The printed tokens. The level says where the condition stands: 0 anywhere, 1 as an operand
  of \<open>or\<close>, 2 as an operand of \<open>and\<close>; the left operand of a connective may be a
  condition with the same connective, the right one may not.\<close>

abbreviation tsym :: "string8 \<Rightarrow> tv" where "tsym s \<equiv> (TSymbol, s)"
abbreviation tkwd :: "string8 \<Rightarrow> tv" where "tkwd s \<equiv> (TKeyword, s)"

fun lit_toks :: "lit \<Rightarrow> tv list" where
  "lit_toks (LNum v) = [(TNumber, v)]"
| "lit_toks (LStr v) = [(TString, v)]"

fun operand_toks :: "operand \<Rightarrow> tv list" where
  "operand_toks (OCol x) = [(TIdentifier, x)]"
| "operand_toks (OQual t x) = [(TIdentifier, t), tsym ''.'', (TIdentifier, x)]"
| "operand_toks (OLit l) = lit_toks l"

definition parens_if :: "bool \<Rightarrow> tv list \<Rightarrow> tv list" where
  "parens_if b ts = (if b then tsym ''('' # ts @ [tsym '')''] else ts)"

fun cond_toks :: "nat \<Rightarrow> cond \<Rightarrow> tv list" where
  "cond_toks lvl (CCmp l op r) = operand_toks l @ (TOperator, op) # operand_toks r"
| "cond_toks lvl (CNull l neg) = operand_toks l @ tkwd ''is'' # (if neg then [tkwd ''not''] else []) @ [tkwd ''null'']"
| "cond_toks lvl (CIn l neg x xs) =
     operand_toks l @ (if neg then [tkwd ''not''] else []) @ tkwd ''in'' # tsym ''('' #
       lit_toks x @ concat (map (\<lambda>y. tsym '','' # lit_toks y) xs) @ [tsym '')'']"
| "cond_toks lvl (CAnd l r) = parens_if (1 < lvl) (cond_toks 1 l @ tkwd ''and'' # cond_toks 2 r)"
| "cond_toks lvl (COr l r) = parens_if (0 < lvl) (cond_toks 0 l @ tkwd ''or'' # cond_toks 1 r)"

text \<open>What may follow a condition: the end, a keyword, a closing parenthesis or a semicolon.\<close>

definition follow_ok :: "tv list \<Rightarrow> bool" where
  "follow_ok ts \<longleftrightarrow> (let t = tv_nth ts 0 in fst t = TEOF \<or> fst t = TKeyword \<or> t = tsym '')'' \<or> t = tsym '';'')"

definition no_kw :: "string8 \<Rightarrow> tv list \<Rightarrow> bool" where
  "no_kw w ts \<longleftrightarrow> \<not> (fst (tv_nth ts 0) = TKeyword \<and> str8_match (snd (tv_nth ts 0)) w match_ci)"

section \<open>Operands and comparisons\<close>

lemma lit_follow: "lit_toks l = [t] \<Longrightarrow> fst t = TNumber \<or> fst t = TString"
  by (cases l) auto

lemma expression_operand:
  assumes "ahead c = operand_toks x @ rest" "fst (tv_nth rest 0) \<noteq> TSymbol \<or> follow_ok rest"
  shows "sql_parse_expression psel c = PDone (operand_node x) (adv c (length (operand_toks x)))"
proof (cases x)
  case (OCol v)
  with assms show ?thesis
    by (cases rest) (auto simp: sql_parse_expression_def cursor Let_def sql_check_paren_select_def sql_is_call_def
      sql_parse_column_ref_def p_take_def follow_ok_def)
next
  case (OQual t v)
  with assms show ?thesis
    by (auto simp: sql_parse_expression_def cursor Let_def sql_check_paren_select_def sql_is_call_def
      sql_parse_column_ref_def p_take_def follow_ok_def)
next
  case (OLit l)
  with assms show ?thesis
    by (cases l) (auto simp: sql_parse_expression_def cursor Let_def sql_check_paren_select_def)
qed

lemma in_item_lit: "ahead c = lit_toks l @ rest \<Longrightarrow> sql_parse_in_item c = PDone (lit_node l) (adv c 1)"
  by (cases l) (auto simp: sql_parse_in_item_def cursor Let_def)

definition in_list_pass :: "sql_node list \<Rightarrow> pctx \<Rightarrow> sql_node list loop_step presult" where
  "in_list_pass xs c = p_then (sql_parse_in_item c) (\<lambda>x c.
     let (again, c) = sql_match c TSymbol '',''
     in PDone (if again then Again (xs @ [x]) else Break (xs @ [x])) c)"

lemma in_list_loop:
  assumes "ahead c = lit_toks x @ concat (map (\<lambda>y. tsym '','' # lit_toks y) xs) @ tsym '')'' # rest"
  shows "p_while in_list_pass acc c = PDone (acc @ map lit_node (x # xs)) (adv c (Suc (2 * length xs)))"
  using assms
proof (induction xs arbitrary: c x acc)
  case Nil
  then have "in_list_pass acc c = PDone (Break (acc @ [lit_node x])) (adv c 1)"
    using in_item_lit [of c x] by (cases x) (auto simp: in_list_pass_def cursor Let_def)
  then show ?case by (simp add: p_while_break)
next
  case (Cons y ys)
  let ?c = "adv c (Suc (Suc 0))"
  have step: "in_list_pass acc c = PDone (Again (acc @ [lit_node x])) ?c"
    using Cons.prems in_item_lit [of c x] by (cases x) (auto simp: in_list_pass_def cursor Let_def)
  have a: "ahead ?c = lit_toks y @ concat (map (\<lambda>y. tsym '','' # lit_toks y) ys) @ tsym '')'' # rest"
    using Cons.prems by (cases x) auto
  have less: "sql_remaining ?c < sql_remaining c"
    using Cons.prems by (cases x) (auto simp: ahead_length [symmetric])
  show ?case
    using p_while_again [of in_list_pass, OF step less] Cons.IH [OF a, of "acc @ [lit_node x]"] by simp
qed

lemma length_in_list: "length (concat (map (\<lambda>y. tsym '','' # lit_toks y) xs)) = 2 * length xs"
proof -
  have "length (lit_toks y) = 1" for y by (cases y) auto
  then show ?thesis by (induction xs) auto
qed

lemma in_operand_list:
  assumes "ahead c = tsym ''('' # lit_toks x @ concat (map (\<lambda>y. tsym '','' # lit_toks y) xs) @ tsym '')'' # rest"
  shows "sql_parse_in_operand psel c =
     PDone (SQL_Node SqlInList [] (map lit_node (x # xs))) (adv c (Suc (Suc (Suc (2 * length xs)))))"
proof -
  let ?c = "adv c 1"
  have a: "ahead ?c = lit_toks x @ concat (map (\<lambda>y. tsym '','' # lit_toks y) xs) @ tsym '')'' # rest"
    using assms by simp
  have l: "p_comma_list sql_parse_in_item ?c = PDone (map lit_node (x # xs)) (adv c (Suc (Suc (2 * length xs))))"
    using in_list_loop [OF a, of "[]"] by (simp add: p_comma_list_def in_list_pass_def [abs_def])
  have e: "ahead (adv c (Suc (Suc (2 * length xs)))) = tsym '')'' # rest"
    using assms length_in_list [of xs] by (cases x) auto
  have "\<not> sql_check_paren_select c"
    using assms by (cases x) (auto simp: sql_check_paren_select_def cursor)
  then show ?thesis
    using assms l e
    by (simp add: sql_parse_in_operand_def p_require_def cursor)
qed

lemma operand_first: "\<exists>t ts. operand_toks x = t # ts \<and> fst t \<in> {TIdentifier, TNumber, TString}"
proof (cases x)
  case (OLit l) then show ?thesis by (cases l) auto
qed auto

definition atom :: "cond \<Rightarrow> bool" where
  "atom e \<longleftrightarrow> (case e of CAnd l r \<Rightarrow> False | COr l r \<Rightarrow> False | _ \<Rightarrow> True)"

lemma comparison_start:
  assumes "ahead c = operand_toks x @ rest" "fst (tv_nth rest 0) \<noteq> TSymbol"
  shows "sql_parse_comparison_expression psel plog c =
     sql_parse_comparison_tail psel (operand_node x) (adv c (length (operand_toks x)))"
proof -
  obtain t ts where t: "operand_toks x = t # ts" "fst t \<in> {TIdentifier, TNumber, TString}"
    using operand_first by blast
  have e: "sql_parse_expression psel c = PDone (operand_node x) (adv c (length (operand_toks x)))"
    using assms by (intro expression_operand) auto
  show ?thesis
    using t assms
    by (auto simp: sql_parse_comparison_expression_def cursor Let_def sql_check_paren_select_def e)
qed

lemma tail_null:
  assumes "ahead c = tkwd ''is'' # (if neg then [tkwd ''not''] else []) @ tkwd ''null'' # rest"
  shows "sql_parse_comparison_tail psel left c =
     PDone (SQL_Node SqlOperator (if neg then ''is not null'' else ''is null'') [left]) (adv c (if neg then 3 else 2))"
  using assms
  by (cases neg) (auto simp: sql_parse_comparison_tail_def sql_parse_is_null_def p_require_def cursor Let_def
      numeral_eq_Suc)

lemma tail_in:
  assumes "ahead c = (if neg then [tkwd ''not''] else []) @ tkwd ''in'' # tsym ''('' # lit_toks x @
    concat (map (\<lambda>y. tsym '','' # lit_toks y) xs) @ tsym '')'' # rest"
  shows "sql_parse_comparison_tail psel left c =
     PDone (SQL_Node SqlOperator (if neg then ''not in'' else ''in'')
       [left, SQL_Node SqlInList [] (map lit_node (x # xs))])
     (adv c (length (if neg then [tkwd ''not''] else []) + Suc (Suc (Suc (Suc (2 * length xs))))))"
proof -
  let ?k = "if neg then 2 else 1 :: nat"
  have "ahead (adv c ?k) = tsym ''('' # lit_toks x @
    concat (map (\<lambda>y. tsym '','' # lit_toks y) xs) @ tsym '')'' # rest"
    using assms by (cases neg) (auto simp: numeral_eq_Suc)
  from in_operand_list [OF this] show ?thesis
    using assms by (cases neg)
      (auto simp: sql_parse_comparison_tail_def sql_next_is_keyword_def cursor Let_def numeral_eq_Suc)
qed

lemma tail_cmp:
  assumes "ahead c = (TOperator, op) # operand_toks r @ rest" "follow_ok rest"
  shows "sql_parse_comparison_tail psel left c =
     PDone (SQL_Node SqlOperator op [left, operand_node r]) (adv c (Suc (length (operand_toks r))))"
  using assms expression_operand [of "adv c 1" r rest psel]
  by (auto simp: sql_parse_comparison_tail_def cursor Let_def)

lemma comparison_atom:
  assumes "atom e" "ahead c = cond_toks lvl e @ rest" "follow_ok rest"
  shows "sql_parse_comparison_expression psel plog c = PDone (cond_node e) (adv c (length (cond_toks lvl e)))"
proof (cases e)
  case (CCmp l op r)
  with assms comparison_start [of c l "(TOperator, op) # operand_toks r @ rest"]
    tail_cmp [of "adv c (length (operand_toks l))" op r rest] show ?thesis by simp
next
  case (CNull l neg)
  let ?tl = "tkwd ''is'' # (if neg then [tkwd ''not''] else []) @ tkwd ''null'' # rest"
  have "ahead c = operand_toks l @ ?tl" using assms(2) CNull by (cases neg) simp_all
  with comparison_start [of c l ?tl] tail_null [of "adv c (length (operand_toks l))" neg rest] CNull
  show ?thesis by (cases neg) (simp_all add: numeral_eq_Suc)
next
  case (CIn l neg x xs)
  let ?tl = "(if neg then [tkwd ''not''] else []) @ tkwd ''in'' # tsym ''('' # lit_toks x @
    concat (map (\<lambda>y. tsym '','' # lit_toks y) xs) @ tsym '')'' # rest"
  have a: "ahead c = operand_toks l @ ?tl" using assms(2) CIn by (cases neg) simp_all
  have "length (lit_toks x) = 1" by (cases x) auto
  then show ?thesis
    using a comparison_start [of c l ?tl] tail_in [of "adv c (length (operand_toks l))" neg x xs rest] CIn
      length_in_list [of xs]
    by (cases neg) (simp_all add: numeral_eq_Suc)
qed (use assms(1) in \<open>auto simp: atom_def\<close>)

section \<open>Chains\<close>

definition chain_pass :: "string8 \<Rightarrow> (pctx \<Rightarrow> sql_node presult) \<Rightarrow> sql_node \<Rightarrow> pctx \<Rightarrow> sql_node loop_step presult" where
  "chain_pass op item left c =
     (if sql_check c TKeyword op
      then let (tok, c) = sql_take c in
           p_then (item c) (\<lambda>right c. PDone (Again (SQL_Node SqlOperator (tok_value tok) [left, right])) c)
      else PDone (Break left) c)"

lemma left_chain_pass: "p_left_chain op item c = p_then (item c) (p_while (chain_pass op item))"
  by (simp add: p_left_chain_def chain_pass_def [abs_def])

lemma chain_end: "no_kw op (ahead c) \<Longrightarrow> op \<noteq> [] \<Longrightarrow> p_while (chain_pass op item) left c = PDone left c"
  by (rule p_while_break) (auto simp: chain_pass_def cursor no_kw_def)

lemma chain_more:
  assumes "ahead c = tkwd op # ts" "item (adv c 1) = PDone right (adv c (Suc k))"
    "p_while (chain_pass op item) (SQL_Node SqlOperator op [left, right]) (adv c (Suc k)) = PDone x c'"
  shows "p_while (chain_pass op item) left c = PDone x c'"
proof -
  have "chain_pass op item left c = PDone (Again (SQL_Node SqlOperator op [left, right])) (adv c (Suc k))"
    using assms(1,2) by (auto simp: chain_pass_def cursor Let_def)
  moreover have "sql_remaining (adv c (Suc k)) < sql_remaining c"
    using assms(1) by (auto simp: ahead_length [symmetric])
  ultimately show ?thesis
    using p_while_again [of "chain_pass op item" left c] assms(3) by simp
qed

text \<open>The three levels of the grammar, for a given fuel.\<close>

abbreviation comparison_n :: "nat \<Rightarrow> pctx \<Rightarrow> sql_node presult" where
  "comparison_n n \<equiv> sql_parse_comparison_expression (select_knot n) (logical_knot n)"

abbreviation and_n :: "nat \<Rightarrow> pctx \<Rightarrow> sql_node presult" where
  "and_n n \<equiv> sql_parse_and_expression (select_knot n) (logical_knot n)"

text \<open>The claims of the induction: a condition printed at a level is read by the parser of that
  level, and by the loop of its connective, which then goes on with it as its left operand.\<close>

definition reads_at :: "nat \<Rightarrow> (nat \<Rightarrow> pctx \<Rightarrow> sql_node presult) \<Rightarrow> cond \<Rightarrow> bool" where
  "reads_at lvl item e \<longleftrightarrow>
     (\<forall>n c rest. ahead c = cond_toks lvl e @ rest \<longrightarrow> follow_ok rest \<longrightarrow> sql_remaining c \<le> n \<longrightarrow>
        (lvl \<le> 1 \<longrightarrow> no_kw ''and'' rest) \<longrightarrow> (lvl = 0 \<longrightarrow> no_kw ''or'' rest) \<longrightarrow>
        item n c = PDone (cond_node e) (adv c (length (cond_toks lvl e))))"

definition reads_chain :: "nat \<Rightarrow> string8 \<Rightarrow> (nat \<Rightarrow> pctx \<Rightarrow> sql_node presult) \<Rightarrow> cond \<Rightarrow> bool" where
  "reads_chain lvl op item e \<longleftrightarrow>
     (\<forall>n c rest x c'. ahead c = cond_toks lvl e @ rest \<longrightarrow> follow_ok rest \<longrightarrow> sql_remaining c \<le> n \<longrightarrow>
        (lvl = 0 \<longrightarrow> no_kw ''and'' rest) \<longrightarrow>
        p_while (chain_pass op (item n)) (cond_node e) (adv c (length (cond_toks lvl e))) = PDone x c' \<longrightarrow>
        p_then (item n c) (p_while (chain_pass op (item n))) = PDone x c')"

lemma follow_simps [simp]: "follow_ok (tkwd w # ts)" "follow_ok (tsym '')'' # ts)" "follow_ok []"
  by (simp_all add: follow_ok_def)

lemma no_kw_simps [simp]:
  "no_kw w (tsym s # ts)" "no_kw ''and'' (tkwd ''or'' # ts)" "no_kw ''or'' (tkwd ''and'' # ts)" "no_kw w []"
  by (simp_all add: no_kw_def)

lemma reads_chain_step:
  assumes l: "reads_chain lvl op item l" and r: "reads_at (Suc lvl) item r"
    and toks: "cond_toks lvl e = cond_toks lvl l @ tkwd op # cond_toks (Suc lvl) r"
    and node: "cond_node e = SQL_Node SqlOperator op [cond_node l, cond_node r]"
    and op: "lvl = 0 \<Longrightarrow> op = ''or''"
  shows "reads_chain lvl op item e"
  unfolding reads_chain_def
proof (intro allI impI)
  fix n c rest x c'
  assume a: "ahead c = cond_toks lvl e @ rest" and f: "follow_ok rest" and n: "sql_remaining c \<le> n"
    and k: "lvl = 0 \<longrightarrow> no_kw ''and'' rest"
    and run: "p_while (chain_pass op (item n)) (cond_node e) (adv c (length (cond_toks lvl e))) = PDone x c'"
  let ?c = "adv c (length (cond_toks lvl l))"
  have al: "ahead c = cond_toks lvl l @ tkwd op # cond_toks (Suc lvl) r @ rest"
    using a toks by simp
  have ac: "ahead ?c = tkwd op # cond_toks (Suc lvl) r @ rest" by (simp add: al)
  let ?d = "adv c (Suc (length (cond_toks lvl l)))" and ?k = "length (cond_toks (Suc lvl) r)"
  have "ahead ?d = cond_toks (Suc lvl) r @ rest" by (simp add: al)
  moreover have "sql_remaining ?d \<le> n"
    using n by (simp add: ahead_length [symmetric])
  ultimately have "item n ?d = PDone (cond_node r) (adv ?d ?k)"
    by (rule r [unfolded reads_at_def, rule_format, OF _ f]) (use k in auto)
  then have "item n (adv ?c 1) = PDone (cond_node r) (adv ?c (Suc ?k))" by simp
  moreover have "p_while (chain_pass op (item n)) (SQL_Node SqlOperator op [cond_node l, cond_node r])
      (adv ?c (Suc ?k)) = PDone x c'"
    using run by (simp only: toks node adv_adv length_append list.size add_Suc_right add_0_right)
  ultimately have "p_while (chain_pass op (item n)) (cond_node l) ?c = PDone x c'"
    by (rule chain_more [OF ac])
  then show "p_then (item n c) (p_while (chain_pass op (item n))) = PDone x c'"
    by (rule l [unfolded reads_chain_def, rule_format, OF al _ n, rotated -1]) (use op in auto)
qed

lemma reads_chain_item:
  assumes "reads_at (Suc lvl) item e" "cond_toks lvl e = cond_toks (Suc lvl) e"
  shows "reads_chain lvl op item e"
  using assms unfolding reads_chain_def reads_at_def by auto

text \<open>The loop ends where its connective does not follow.\<close>

lemma reads_chain_end:
  assumes "reads_chain lvl op item e" "lvl = 0 \<and> op = ''or'' \<or> lvl = 1 \<and> op = ''and''"
  shows "reads_at lvl (\<lambda>n. p_left_chain op (item n)) e"
  unfolding reads_at_def left_chain_pass
proof (intro allI impI)
  fix n c rest
  assume a: "ahead c = cond_toks lvl e @ rest" and f: "follow_ok rest" "sql_remaining c \<le> n"
    and k: "lvl \<le> 1 \<longrightarrow> no_kw ''and'' rest" "lvl = 0 \<longrightarrow> no_kw ''or'' rest"
  let ?c = "adv c (length (cond_toks lvl e))"
  have "p_while (chain_pass op (item n)) (cond_node e) ?c = PDone (cond_node e) ?c"
    by (rule chain_end) (use a k assms(2) in auto)
  with assms(1) a f k show "p_then (item n c) (p_while (chain_pass op (item n))) = PDone (cond_node e) ?c"
    unfolding reads_chain_def by auto
qed

section \<open>The round trip\<close>

abbreviation logical_n :: "nat \<Rightarrow> pctx \<Rightarrow> sql_node presult" where
  "logical_n n \<equiv> sql_parse_logical_expression (select_knot n) (logical_knot n)"

lemma and_chain: "reads_chain 1 ''and'' comparison_n e \<Longrightarrow> reads_at 1 and_n e"
  using reads_chain_end [of 1 "''and''" comparison_n e] by (simp add: sql_parse_and_expression_def [abs_def])

lemma or_chain: "reads_chain 0 ''or'' and_n e \<Longrightarrow> reads_at 0 logical_n e"
  using reads_chain_end [of 0 "''or''" and_n e] by (simp add: sql_parse_logical_expression_def [abs_def])

lemma cond_toks_first: "\<exists>t ts. cond_toks lvl e = t # ts \<and> (t = tsym ''('' \<or> fst t \<in> {TIdentifier, TNumber, TString})"
proof (induction lvl e rule: cond_toks.induct)
  case (1 lvl l op r) then show ?case using operand_first [of l] by auto
next
  case (2 lvl l neg) then show ?case using operand_first [of l] by auto
next
  case (3 lvl l neg x xs) then show ?case using operand_first [of l] by auto
qed (auto simp: parens_if_def)

text \<open>In parentheses a condition of any level stands as an operand; the parser goes one knot
  deeper.\<close>

lemma reads_parens:
  assumes "reads_at 0 logical_n e" "cond_toks 2 e = tsym ''('' # cond_toks 0 e @ [tsym '')'']"
  shows "reads_at 2 comparison_n e"
  unfolding reads_at_def
proof (intro allI impI)
  fix n c rest
  assume a: "ahead c = cond_toks 2 e @ rest" and n: "sql_remaining c \<le> n"
  obtain m where m: "n = Suc m"
    using a n assms(2) by (cases n) (auto simp: ahead_length [symmetric])
  obtain t ts where t: "cond_toks 0 e = t # ts" "t = tsym ''('' \<or> fst t \<in> {TIdentifier, TNumber, TString}"
    using cond_toks_first by blast
  have ac: "ahead c = tsym ''('' # cond_toks 0 e @ tsym '')'' # rest" using a assms(2) by simp
  have "logical_knot n (adv c 1) = PDone (cond_node e) (adv (adv c 1) (length (cond_toks 0 e)))"
    unfolding m logical_knot.simps
    by (rule assms(1) [unfolded reads_at_def, rule_format, of _ "tsym '')'' # rest"])
      (use ac n m in \<open>auto simp: ahead_length [symmetric]\<close>)
  moreover have "ahead (adv c (Suc (length (cond_toks 0 e)))) = tsym '')'' # rest"
    using ac by simp
  moreover have "\<not> sql_check_paren_select c"
    using ac t by (auto simp: sql_check_paren_select_def cursor)
  ultimately show "comparison_n n c = PDone (cond_node e) (adv c (length (cond_toks 2 e)))"
    using ac assms(2)
    by (simp add: sql_parse_comparison_expression_def cursor Let_def p_require_def)
qed

lemma reads_atom:
  assumes "atom e"
  shows "reads_chain 0 ''or'' and_n e \<and> reads_chain 1 ''and'' comparison_n e \<and> reads_at 2 comparison_n e"
proof -
  have lvl: "cond_toks j e = cond_toks k e" for j k
    using assms by (cases e) (auto simp: atom_def)
  have a: "reads_at 2 comparison_n e"
    unfolding reads_at_def using comparison_atom [OF assms] by blast
  then have c: "reads_chain 1 ''and'' comparison_n e"
    by (intro reads_chain_item) (use a lvl [of 1 2] in \<open>simp_all add: numeral_2_eq_2\<close>)
  then have "reads_chain 0 ''or'' and_n e"
    by (intro reads_chain_item) (use and_chain lvl [of 0 1] in auto)
  with a c show ?thesis by blast
qed

lemma reads:
  "reads_chain 0 ''or'' and_n e \<and> reads_chain 1 ''and'' comparison_n e \<and> reads_at 2 comparison_n e"
proof (induction e)
  case (CAnd l r)
  have a: "reads_chain 1 ''and'' comparison_n (CAnd l r)"
  proof (rule reads_chain_step [where l = l and r = r])
    show "reads_at (Suc 1) comparison_n r" using CAnd by (simp only: Suc_1)
    show "cond_toks 1 (CAnd l r) = cond_toks 1 l @ tkwd ''and'' # cond_toks (Suc 1) r"
      by (simp only: Suc_1) (simp add: parens_if_def)
  qed (use CAnd in auto)
  then have o: "reads_chain 0 ''or'' and_n (CAnd l r)"
    by (intro reads_chain_item) (auto dest: and_chain [unfolded One_nat_def] simp: parens_if_def)
  then have "reads_at 2 comparison_n (CAnd l r)"
    by (intro reads_parens) (auto dest: or_chain simp: parens_if_def)
  with a o show ?case by blast
next
  case (COr l r)
  have o: "reads_chain 0 ''or'' and_n (COr l r)"
  proof (rule reads_chain_step [where l = l and r = r])
    show "reads_at (Suc 0) and_n r" using COr and_chain [of r] by simp
  qed (use COr in \<open>auto simp: parens_if_def\<close>)
  then have p: "reads_at 2 comparison_n (COr l r)"
    by (intro reads_parens) (auto dest: or_chain simp: parens_if_def)
  have "reads_chain 1 ''and'' comparison_n (COr l r)"
  proof (rule reads_chain_item)
    show "reads_at (Suc 1) comparison_n (COr l r)" using p by (simp only: Suc_1)
  qed (simp add: parens_if_def)
  with o p show ?case by blast
qed (rule reads_atom, simp add: atom_def)+

text \<open>C7: Parse of print. A condition printed with parentheses only where the precedence of
  \<open>and\<close> over \<open>or\<close> and the left associativity of both require them is read by
  \<open>sql_parse_logical_expression\<close> as the tree it was printed from, and the cursor stands behind
  its last token: at the end of the input, or before a keyword that is not a connective, a closing
  parenthesis or a semicolon. In particular \<open>a or b and c\<close> groups to the right and
  \<open>a or b or c\<close> to the left.\<close>

theorem sql_parse_logical_roundtrip:
  assumes "ahead c = cond_toks 0 e @ rest" "follow_ok rest" "no_kw ''and'' rest" "no_kw ''or'' rest"
  shows "parse_logical c = PDone (cond_node e) (adv c (length (cond_toks 0 e)))"
  unfolding parse_logical_def logical_knot.simps
  by (rule or_chain [OF reads [THEN conjunct1], unfolded reads_at_def, rule_format, OF assms(1,2)])
    (use assms in auto)

lemma sql_parse_logical_roundtrip_witness:
  "let e = COr (CCmp (OCol ''a'') ''='' (OLit (LNum ''1'')))
             (CAnd (CNull (OCol ''b'') True) (COr (CIn (OCol ''c'') False (LStr ''x'') [LStr ''y''])
                (CCmp (OQual ''t'' ''d'') ''<'' (OCol ''e''))));
       ts = map (\<lambda>(ty, v). mk_token ty v (r1u64 0 0)) (cond_toks 0 e @ [tsym '';'']);
       c = sql_parse_ctx_make ts []
   in length ts = 25 \<and> parse_logical c = PDone (cond_node e) (adv c 24)"
proof -
  let ?e = "COr (CCmp (OCol ''a'') ''='' (OLit (LNum ''1'')))
             (CAnd (CNull (OCol ''b'') True) (COr (CIn (OCol ''c'') False (LStr ''x'') [LStr ''y''])
                (CCmp (OQual ''t'' ''d'') ''<'' (OCol ''e''))))"
  let ?c = "sql_parse_ctx_make (map (\<lambda>(ty, v). mk_token ty v (r1u64 0 0)) (cond_toks 0 ?e @ [tsym '';''])) []"
  have "ahead ?c = cond_toks 0 ?e @ [tsym '';'']"
    by (simp add: ahead_def sql_parse_ctx_make_def tv_def mk_token_def parens_if_def)
  from sql_parse_logical_roundtrip [OF this] show ?thesis
    by (simp add: Let_def follow_ok_def parens_if_def numeral_eq_Suc)
qed

end
