(* ===== verification/Sql_Parser_Stmt.thy ===== *)
theory Sql_Parser_Stmt
  imports Sql_Parser_Select
begin

text \<open>
  The statements of \<open>src/src/ir_gen/sql_parser.c\<close> other than queries, and the top level
  \<open>sql_parse\<close>, which reads a sequence of statements and attaches the clauses that follow
  a \<open>select\<close>, a \<open>delete\<close> or an \<open>explain\<close> to it.

  Where a C function reports an error at the range of the current token and has just checked that it
  is not at the end, that range is \<open>sql_ctx_error_range\<close>, so the same
  \<open>p_take\<close> and \<open>p_require\<close> are used.
\<close>

section \<open>List loops\<close>

text \<open>\<open>while (!at_end) { item; if (match(",")) continue; break; }\<close>\<close>

definition p_open_list :: "(pctx \<Rightarrow> 'a presult) \<Rightarrow> pctx \<Rightarrow> 'a list presult" where
  "p_open_list item =
     p_while (\<lambda>xs c.
       if sql_at_end c then PDone (Break xs) c
       else p_then (item c) (\<lambda>x c.
         let (more, c) = sql_match c TSymbol '',''
         in PDone (if more then Again (xs @ [x]) else Break (xs @ [x])) c)) []"

text \<open>\<open>while (!at_end && !check(Symbol, any)) { item; match(","); }\<close>: the comma between
  the items is optional.\<close>

definition p_until_symbol :: "(pctx \<Rightarrow> 'a presult) \<Rightarrow> pctx \<Rightarrow> 'a list presult" where
  "p_until_symbol item =
     p_while (\<lambda>xs c.
       if sql_at_end c \<or> sql_check c TSymbol [] then PDone (Break xs) c
       else p_then (item c) (\<lambda>x c.
         let (comma, c) = sql_match c TSymbol '','' in PDone (Again (xs @ [x])) c)) []"

section \<open>Small statements\<close>

definition sql_parse_use_clause :: "pctx \<Rightarrow> sql_node presult" where
  "sql_parse_use_clause c =
     (let c = sql_advance c 1 in
      p_then (p_open_list (\<lambda>c.
        p_take c TIdentifier (''database name in '' @ q ''use'' @ '' clause'') (\<lambda>name c.
          PDone (sql_leaf SqlDatabase name) c)) c) (\<lambda>dbs c.
      PDone (SQL_Node SqlUse [] dbs) c))"

definition sql_parse_describe_clause :: "pctx \<Rightarrow> sql_node presult" where
  "sql_parse_describe_clause c =
     (let c = sql_advance c 1 in
      p_take c TIdentifier (''table name after '' @ q ''describe'') (\<lambda>name c.
        PDone (SQL_Node SqlDescribe [] [sql_leaf SqlTable name]) c))"

definition sql_parse_explain_with :: "pctx \<Rightarrow> sql_node list presult" where
  "sql_parse_explain_with c =
     (if sql_check c TKeyword ''with'' then p_then (sql_parse_with_clause c) (\<lambda>w c. PDone [w] c)
      else PDone [] c)"

definition sql_parse_explain_clause :: "pctx \<Rightarrow> sql_node presult" where
  "sql_parse_explain_clause c =
     (let c = sql_advance c 1;
          (analyze, c) = sql_match c TKeyword ''analyze''
      in p_then (sql_parse_explain_with c) (\<lambda>withs c.
         if \<not> sql_check c TKeyword ''select''
         then p_expected c (q ''select'' @ '' after '' @ q (''explain'' @ (if analyze then '' analyze'' else [])))
         else p_then (sql_parse_select_clause c) (\<lambda>sel c.
           PDone (SQL_Node SqlExplain (if analyze then ''analyze'' else [])
                    [fold (\<lambda>w sel. sql_push_child sel w) withs sel]) c)))"

definition sql_parse_analyze_clause :: "pctx \<Rightarrow> sql_node presult" where
  "sql_parse_analyze_clause c =
     (let c = sql_advance c 1 in
      if sql_check c TIdentifier [] then
        let (tok, c) = sql_take c
        in PDone (SQL_Node SqlAnalyze [] [sql_leaf SqlTable (tok_value tok)]) c
      else PDone (sql_leaf SqlAnalyze []) c)"

section \<open>Insert, import, delete\<close>

definition sql_parse_value :: "pctx \<Rightarrow> sql_node presult" where
  "sql_parse_value c =
     (let tok = sql_peek c 0;
          keyword = (\<lambda>w. tok_type tok = TKeyword \<and> str8_match (tok_value tok) w match_ci);
          is_null = keyword ''null'';
          is_true = keyword ''true'';
          is_false = keyword ''false''
      in if tok_type tok \<noteq> TNumber \<and> tok_type tok \<noteq> TString \<and> \<not> is_null \<and> \<not> is_true \<and> \<not> is_false
         then p_fail_at c (tok_range tok)
                (''expected a literal value in '' @ q ''values'' @ '' clause, found '' @
                 q (str8_varg (tok_value tok)))
         else PDone (sql_leaf (if is_null then SqlNull
                               else if is_true \<or> is_false \<or> tok_type tok = TNumber then SqlNumeric
                               else SqlLiteral)
                      (if is_true then ''1'' else if is_false then ''0'' else tok_value tok))
                (sql_advance c 1))"

definition sql_parse_value_group :: "pctx \<Rightarrow> sql_node presult" where
  "sql_parse_value_group c =
     p_require c TSymbol ''('' (q ''('' @ '' before values in '' @ q ''values'' @ '' clause'') (\<lambda>c.
     p_then (p_until_symbol sql_parse_value c) (\<lambda>vs c.
     p_require c TSymbol '')'' (''closing '' @ q '')'' @ '' after values in '' @ q ''values'' @ '' clause'') (\<lambda>c.
       PDone (SQL_Node SqlValueGroup [] vs) c)))"

definition sql_parse_values_clause :: "pctx \<Rightarrow> sql_node presult" where
  "sql_parse_values_clause c =
     p_then (p_open_list sql_parse_value_group c) (\<lambda>groups c. PDone (SQL_Node SqlValue [] groups) c)"

text \<open>The optional column list of an \<open>insert\<close>: none or one child.\<close>

definition sql_parse_insert_columns :: "pctx \<Rightarrow> sql_node list presult" where
  "sql_parse_insert_columns c =
     (let (open_paren, c) = sql_match c TSymbol ''('' in
      if open_paren then
        p_then (p_until_symbol (\<lambda>c.
          p_take c TIdentifier (''column name in '' @ q ''insert'' @ '' statement'') (\<lambda>name c.
            PDone (sql_leaf SqlColumn name) c)) c) (\<lambda>cols c.
        p_require c TSymbol '')'' (''closing '' @ q '')'' @ '' in column list'') (\<lambda>c.
          PDone [SQL_Node SqlColumnList [] cols] c))
      else PDone [] c)"

definition sql_parse_insert_clause :: "pctx \<Rightarrow> sql_node presult" where
  "sql_parse_insert_clause c =
     (let c = sql_advance c 1 in
      p_require c TKeyword ''into'' (q ''into'' @ '' keyword in '' @ q ''insert'' @ '' statement'') (\<lambda>c.
      p_take c TIdentifier (''table name in '' @ q ''insert'' @ '' statement'') (\<lambda>name c.
      p_then (sql_parse_insert_columns c) (\<lambda>cols c.
      p_require c TKeyword ''values'' (q ''values'' @ '' keyword in '' @ q ''insert'' @ '' statement'') (\<lambda>c.
      p_then (sql_parse_values_clause c) (\<lambda>vals c.
        PDone (SQL_Node SqlInsert [] (sql_leaf SqlTable name # cols @ [vals])) c))))))"

definition sql_parse_import_clause :: "pctx \<Rightarrow> sql_node presult" where
  "sql_parse_import_clause c =
     (let c = sql_advance c 1 in
      p_require c TKeyword ''into'' (q ''into'' @ '' keyword in '' @ q ''import'' @ '' statement'') (\<lambda>c.
      p_take c TIdentifier (''table name after '' @ q ''into'' @ '' in '' @ q ''import'' @ '' statement'') (\<lambda>name c.
      p_require c TKeyword ''from'' (q ''from'' @ '' keyword in '' @ q ''import'' @ '' statement'') (\<lambda>c.
      p_take c TString (''file path after '' @ q ''from'' @ '' in '' @ q ''import'' @ '' statement'') (\<lambda>path c.
        PDone (SQL_Node SqlImport [] [sql_leaf SqlTable name, sql_leaf SqlLiteral path]) c)))))"

definition sql_parse_delete_clause :: "pctx \<Rightarrow> sql_node presult" where
  "sql_parse_delete_clause c =
     (let (ok, c) = sql_match c TKeyword ''delete'' in
      if \<not> ok then p_fail_at c (sql_ctx_error_range c) (''expected '' @ q ''delete'' @ '' keyword'')
      else
      p_require c TKeyword ''from'' (q ''from'' @ '' keyword after '' @ q ''delete'') (\<lambda>c.
      p_take c TIdentifier (''table name after '' @ q ''delete from'') (\<lambda>name c.
        let del = SQL_Node SqlDelete name [sql_leaf SqlTable name] in
        if sql_check c TKeyword ''where'' then
          p_then (sql_parse_where_clause parse_logical c) (\<lambda>w c. PDone (sql_push_child del w) c)
        else PDone del c)))"

section \<open>Create\<close>

definition sql_parse_create_database :: "pctx \<Rightarrow> sql_node presult" where
  "sql_parse_create_database c =
     p_take c TIdentifier (''database name in '' @ q ''create'' @ '' statement'') (\<lambda>name c.
       PDone (sql_leaf SqlDatabase name) c)"

text \<open>The optional \<open>(precision[, scale])\<close> of a column type: the children of the type
  node.\<close>

definition sql_parse_type_args :: "pctx \<Rightarrow> sql_node list presult" where
  "sql_parse_type_args c =
     (if sql_check c TSymbol ''('' then
        let c = sql_advance c 1 in
        p_take c TNumber (''precision after '' @ q ''('' @ '' in column type'') (\<lambda>p c.
        p_then (let (comma, c) = sql_match c TSymbol '','' in
                if comma then
                  p_take c TNumber (''scale after '' @ q '','' @ '' in column type'') (\<lambda>s c.
                    PDone [sql_leaf SqlNumeric p, sql_leaf SqlNumeric s] c)
                else PDone [sql_leaf SqlNumeric p] c) (\<lambda>args c.
        p_require c TSymbol '')'' (''closing '' @ q '')'' @ '' after column type arguments'') (\<lambda>c.
          PDone args c)))
      else PDone [] c)"

definition sql_parse_references :: "pctx \<Rightarrow> sql_node presult" where
  "sql_parse_references c =
     p_take c TIdentifier (''referenced table name after '' @ q ''references'') (\<lambda>ref_table c.
     p_require c TSymbol ''('' (q ''('' @ '' after referenced table name'') (\<lambda>c.
     p_take c TIdentifier ''referenced column name'' (\<lambda>ref_column c.
     p_require c TSymbol '')'' (q '')'' @ '' after referenced column name'') (\<lambda>c.
       PDone (SQL_Node SqlForeignKey ref_table [sql_leaf SqlColumn ref_column]) c))))"

definition sql_parse_check :: "pctx \<Rightarrow> sql_node presult" where
  "sql_parse_check c =
     p_require c TSymbol ''('' (q ''('' @ '' after '' @ q ''check'') (\<lambda>c.
       let expr_start_range = sql_ctx_range_at c (pos c) in
       p_then (parse_logical c) (\<lambda>e c.
         let expr_end_range = sql_ctx_range_at c (if pos c > 0 then pos c - 1 else 0);
             expr_text = str8_substr (source c) (r1u64 (rmin expr_start_range) (rmax expr_end_range))
         in p_require c TSymbol '')'' (q '')'' @ '' after '' @ q ''check'' @ '' expression'') (\<lambda>c.
              PDone (SQL_Node SqlCheck expr_text [e]) c)))"

text \<open>One pass of the loop over the constraints of a column.\<close>

definition sql_parse_constraint_pass :: "sql_node \<Rightarrow> pctx \<Rightarrow> sql_node loop_step presult" where
  "sql_parse_constraint_pass column c =
     (let kw = tok_value (sql_peek c 0);
          push = (\<lambda>n c. PDone (Again (sql_push_child column n)) c)
      in
      if \<not> sql_check c TKeyword [] then PDone (Break column) c
      else if str8_match kw ''not'' match_ci then
        p_require (sql_advance c 1) TKeyword ''null'' (q ''null'' @ '' after '' @ q ''not'' @ '' in column constraint'')
          (push (sql_leaf SqlNotNull []))
      else if str8_match kw ''unique'' match_ci then push (sql_leaf SqlUnique []) (sql_advance c 1)
      else if str8_match kw ''primary'' match_ci then
        p_require (sql_advance c 1) TKeyword ''key'' (q ''key'' @ '' after '' @ q ''primary'' @ '' in column constraint'')
          (push (sql_leaf SqlPrimaryKey []))
      else if str8_match kw ''references'' match_ci then p_then (sql_parse_references (sql_advance c 1)) push
      else if str8_match kw ''check'' match_ci then p_then (sql_parse_check (sql_advance c 1)) push
      else PDone (Break column) c)"

definition sql_parse_column_def :: "pctx \<Rightarrow> sql_node presult" where
  "sql_parse_column_def c =
     p_take c TIdentifier (''column name in '' @ q ''create table'' @ '' statement'') (\<lambda>name c.
     if \<not> sql_check c TKeyword [] \<and> \<not> sql_check c TIdentifier []
     then p_expected c (''column type in '' @ q ''create table'' @ '' statement'')
     else let (ty, c) = sql_take c in
       p_then (sql_parse_type_args c) (\<lambda>args c.
         p_while sql_parse_constraint_pass
           (SQL_Node SqlColumn name [SQL_Node SqlType (tok_value ty) args]) c))"

definition sql_parse_create_table :: "pctx \<Rightarrow> sql_node presult" where
  "sql_parse_create_table c =
     p_take c TIdentifier (''table name in '' @ q ''create'' @ '' statement'') (\<lambda>name c.
     p_require c TSymbol ''('' (q ''('' @ '' in '' @ q ''create table'' @ '' statement'') (\<lambda>c.
     p_then (p_until_symbol sql_parse_column_def c) (\<lambda>cols c.
     p_require c TSymbol '')'' (''closing '' @ q '')'' @ '' in '' @ q ''create table'' @ '' statement'') (\<lambda>c.
       PDone (SQL_Node SqlTable name cols) c))))"

definition sql_parse_create_index :: "pctx \<Rightarrow> sql_node presult" where
  "sql_parse_create_index c =
     (let in_stmt = '' in '' @ q ''create index'' @ '' statement'' in
      p_take c TIdentifier (''index name'' @ in_stmt) (\<lambda>name c.
      p_require c TKeyword ''on'' (q ''on'' @ in_stmt) (\<lambda>c.
      p_take c TIdentifier (''table name'' @ in_stmt) (\<lambda>table c.
      p_require c TSymbol ''('' (q ''('' @ in_stmt) (\<lambda>c.
      p_take c TIdentifier (''column name'' @ in_stmt) (\<lambda>column c.
      p_require c TSymbol '')'' (''closing '' @ q '')'' @ in_stmt) (\<lambda>c.
        PDone (SQL_Node SqlIndex name [sql_leaf SqlTable table, sql_leaf SqlColumn column]) c)))))))"

definition sql_parse_create_type :: "pctx \<Rightarrow> sql_node presult" where
  "sql_parse_create_type c =
     (let in_stmt = '' in '' @ q ''create type'' @ '' statement'' in
      p_take c TIdentifier (''type name'' @ in_stmt) (\<lambda>name c.
      p_require c TKeyword ''as'' (q ''as'' @ in_stmt) (\<lambda>c.
      p_require c TKeyword ''enum'' (q ''enum'' @ '' after '' @ q ''as'' @ in_stmt) (\<lambda>c.
      p_require c TSymbol ''('' (q ''('' @ '' after '' @ q ''enum'' @ in_stmt) (\<lambda>c.
      p_then (p_comma_list (\<lambda>c.
        p_take c TString (''a string label in '' @ q ''create type ... as enum'' @ '' statement'') (\<lambda>v c.
          PDone (sql_leaf SqlEnumValue v) c)) c) (\<lambda>labels c.
      p_require c TSymbol '')'' (''closing '' @ q '')'' @ in_stmt) (\<lambda>c.
        PDone (SQL_Node SqlEnumDef name labels) c)))))))"

definition sql_parse_create_clause :: "pctx \<Rightarrow> sql_node presult" where
  "sql_parse_create_clause c =
     (let c = sql_advance c 1;
          create = (\<lambda>r. p_then r (\<lambda>n c. PDone (SQL_Node SqlCreate [] [n]) c))
      in
      if \<not> sql_check c TKeyword []
      then p_expected c (q ''table'' @ '' or '' @ q ''database'' @ '' keyword in '' @ q ''create'' @ '' statement'')
      else
        let (tok, c) = sql_take c; kw = tok_value tok in
        if str8_match kw ''database'' match_ci then create (sql_parse_create_database c)
        else if str8_match kw ''table'' match_ci then create (sql_parse_create_table c)
        else if str8_match kw ''index'' match_ci then create (sql_parse_create_index c)
        else if str8_match kw ''type'' match_ci then create (sql_parse_create_type c)
        else p_fail_at c (tok_range tok)
               (''unexpected keyword '' @ q (str8_varg kw) @ '' in '' @ q ''create'' @ '' statement, expected '' @
                q ''table'' @ '', '' @ q ''database'' @ '', '' @ q ''index'' @ '', or '' @ q ''type''))"

section \<open>Drop and alter\<close>

definition sql_parse_drop_index_clause :: "pctx \<Rightarrow> sql_node presult" where
  "sql_parse_drop_index_clause c =
     (let c = sql_advance c 1; in_stmt = '' in '' @ q ''drop index'' @ '' statement'' in
      p_require c TKeyword ''index'' (q ''index'' @ '' after '' @ q ''drop'') (\<lambda>c.
      p_take c TIdentifier (''index name'' @ in_stmt) (\<lambda>name c.
      p_require c TKeyword ''on'' (q ''on'' @ in_stmt) (\<lambda>c.
      p_take c TIdentifier (''table name'' @ in_stmt) (\<lambda>table c.
        PDone (SQL_Node SqlDropIndex name [sql_leaf SqlTable table]) c)))))"

definition sql_parse_alter_add_column :: "pctx \<Rightarrow> sql_node presult" where
  "sql_parse_alter_add_column c =
     p_require c TKeyword ''column'' (q ''column'' @ '' after '' @ q ''add'' @ '' in '' @ q ''alter table'') (\<lambda>c.
     p_take c TIdentifier (''column name after '' @ q ''add column'') (\<lambda>name c.
       if sql_check c TKeyword [] \<or> sql_check c TIdentifier [] then
         let (ty, c) = sql_take c in
         p_then (sql_parse_type_args c) (\<lambda>args c.
           PDone (SQL_Node SqlAlter_AddColumn []
                    [sql_leaf SqlColumn name, SQL_Node SqlType (tok_value ty) args]) c)
       else PDone (SQL_Node SqlAlter_AddColumn [] [sql_leaf SqlColumn name]) c))"

definition sql_parse_alter_drop_column :: "pctx \<Rightarrow> sql_node presult" where
  "sql_parse_alter_drop_column c =
     p_require c TKeyword ''column'' (q ''column'' @ '' after '' @ q ''drop'' @ '' in '' @ q ''alter table'') (\<lambda>c.
     p_take c TIdentifier (''column name after '' @ q ''drop column'') (\<lambda>name c.
       PDone (sql_leaf SqlAlter_DropColumn name) c))"

definition sql_parse_alter_rename :: "pctx \<Rightarrow> sql_node presult" where
  "sql_parse_alter_rename c =
     p_require c TKeyword ''to'' (q ''to'' @ '' after '' @ q ''rename'' @ '' in '' @ q ''alter table'') (\<lambda>c.
     p_take c TIdentifier (''new table name after '' @ q ''rename to'') (\<lambda>name c.
       PDone (sql_leaf SqlAlter_Rename name) c))"

definition sql_parse_alter_clause :: "pctx \<Rightarrow> sql_node presult" where
  "sql_parse_alter_clause c =
     (let (ok, c) = sql_match c TKeyword ''alter'' in
      if \<not> ok then p_fail_at c (sql_ctx_error_range c) (''expected '' @ q ''alter'' @ '' keyword'')
      else
      p_require c TKeyword ''table'' (q ''table'' @ '' keyword after '' @ q ''alter'') (\<lambda>c.
      p_take c TIdentifier (''table name after '' @ q ''alter table'') (\<lambda>name c.
        let alter = (\<lambda>r. p_then r (\<lambda>op c. PDone (SQL_Node SqlAlter [] [sql_leaf SqlTable name, op]) c)) in
        if \<not> sql_check c TKeyword []
        then p_expected c (''operation after '' @ q ''alter table <table>'')
        else if sql_check c TKeyword ''add'' then alter (sql_parse_alter_add_column (sql_advance c 1))
        else if sql_check c TKeyword ''drop'' then alter (sql_parse_alter_drop_column (sql_advance c 1))
        else if sql_check c TKeyword ''rename'' then alter (sql_parse_alter_rename (sql_advance c 1))
        else p_fail_at c (tok_range (sql_peek c 0))
               (''unknown '' @ q ''alter table'' @ '' operation '' @ q (str8_varg (tok_value (sql_peek c 0)))))))"

section \<open>The top level\<close>

text \<open>
  The statements read so far, oldest first; the position of the statement that clauses attach to
  (\<open>last_select_node\<close>; for an \<open>explain\<close> that is its child); the common table
  expressions waiting for their \<open>select\<close> (\<open>pending_with\<close>).
\<close>

record parse_state =
  roots :: "sql_node list"
  last_select :: "nat option"
  pending_with :: "sql_node option"

definition ps_push_root :: "parse_state \<Rightarrow> sql_node \<Rightarrow> parse_state" where
  "ps_push_root st n = st\<lparr>roots := roots st @ [n]\<rparr>"

text \<open>The node that \<open>last_select_node\<close> points to, and its update in place.\<close>

definition clause_target :: "sql_node \<Rightarrow> sql_node" where
  "clause_target n = (if node_type n = SqlExplain \<and> node_children n \<noteq> [] then hd (node_children n) else n)"

definition with_clause_target :: "sql_node \<Rightarrow> sql_node \<Rightarrow> sql_node" where
  "with_clause_target n t =
     (if node_type n = SqlExplain \<and> node_children n \<noteq> []
      then SQL_Node (node_type n) (node_value n) (t # tl (node_children n)) else t)"

definition ps_set_target :: "parse_state \<Rightarrow> nat \<Rightarrow> sql_node \<Rightarrow> parse_state" where
  "ps_set_target st i t = st\<lparr>roots := (roots st)[i := with_clause_target (roots st ! i) t]\<rparr>"

text \<open>The caller looks at the pointer it got back: \<open>Some\<close> node, or \<open>None\<close> for
  \<open>NULL\<close>.\<close>

fun p_option :: "'a presult \<Rightarrow> ('a option \<Rightarrow> pctx \<Rightarrow> 'b presult) \<Rightarrow> 'b presult" where
  "p_option (PDone x c) f = f (Some x) c"
| "p_option (PNull c) f = f None c"
| "p_option PFuel f = PFuel"

text \<open>The end of a pass: \<open>if (g_sql_parse_error.has_error) return NULL;\<close>\<close>

definition ps_next :: "parse_state \<Rightarrow> pctx \<Rightarrow> parse_state loop_step presult" where
  "ps_next st c = (if perr c \<noteq> None then PNull c else PDone (Again st) c)"

definition ps_statement :: "parse_state \<Rightarrow> sql_node presult \<Rightarrow> parse_state loop_step presult" where
  "ps_statement st r =
     p_option r (\<lambda>new c. ps_next (case new of None \<Rightarrow> st | Some n \<Rightarrow> ps_push_root st n) c)"

text \<open>A statement that clauses attach to; a failed one leaves no target.\<close>

definition ps_clause_statement :: "parse_state \<Rightarrow> sql_node presult \<Rightarrow> parse_state loop_step presult" where
  "ps_clause_statement st r =
     p_option r (\<lambda>new c. ps_next (case new of None \<Rightarrow> st\<lparr>last_select := None\<rparr>
        | Some n \<Rightarrow> (ps_push_root st n)\<lparr>last_select := Some (length (roots st))\<rparr>) c)"

definition ps_select :: "parse_state \<Rightarrow> pctx \<Rightarrow> parse_state loop_step presult" where
  "ps_select st c =
     p_option (sql_parse_select_clause c) (\<lambda>new c. ps_next (case new of None \<Rightarrow> st\<lparr>last_select := None\<rparr>
        | Some n \<Rightarrow> (case pending_with st of
            None \<Rightarrow> (ps_push_root st n)\<lparr>last_select := Some (length (roots st))\<rparr>
          | Some w \<Rightarrow> (ps_push_root st (sql_push_child n w))
                        \<lparr>last_select := Some (length (roots st)), pending_with := None\<rparr>)) c)"

definition ps_with :: "parse_state \<Rightarrow> pctx \<Rightarrow> parse_state loop_step presult" where
  "ps_with st c =
     p_option (sql_parse_with_clause c) (\<lambda>w c.
       ps_next (st\<lparr>pending_with := w\<rparr>)
         (if w \<noteq> None \<and> \<not> sql_check c TKeyword ''select''
          then sql_parse_error_at c (sql_ctx_error_range c)
                 (''expected '' @ q ''select'' @ '' after '' @ q ''with'' @ '' clause, found '' @
                  q (str8_varg (sql_ctx_text_or_eof c)))
          else c))"

definition ps_from :: "parse_state \<Rightarrow> rng1u64 \<Rightarrow> pctx \<Rightarrow> parse_state loop_step presult" where
  "ps_from st r c =
     (case last_select st of
        None \<Rightarrow> ps_next st (sql_parse_error_at c r (q ''from'' @ '' clause without a preceding '' @ q ''select''))
      | Some i \<Rightarrow>
          p_option (sql_parse_from_clause parse_select parse_logical (clause_target (roots st ! i)) c)
            (\<lambda>t c. ps_next (case t of None \<Rightarrow> st | Some t \<Rightarrow> ps_set_target st i t) c))"

definition ps_attach :: "parse_state \<Rightarrow> rng1u64 \<Rightarrow> sql_node presult \<Rightarrow> parse_state loop_step presult" where
  "ps_attach st r res =
     p_option res (\<lambda>new c.
       case new of None \<Rightarrow> ps_next st c
       | Some n \<Rightarrow> (case last_select st of
           None \<Rightarrow> ps_next st (sql_parse_error_at c r (''clause requires a preceding '' @ q ''select''))
         | Some i \<Rightarrow> ps_next (ps_set_target st i (sql_push_child (clause_target (roots st ! i)) n)) c))"

text \<open>The dispatch on the keyword: the clauses, then the statements, in the order of the code.\<close>

definition sql_parse_keyword :: "parse_state \<Rightarrow> pctx \<Rightarrow> parse_state loop_step presult" where
  "sql_parse_keyword st c =
     (let tok = sql_peek c 0; r = tok_range tok;
          kw = (\<lambda>w. str8_match (tok_value tok) w match_ci)
      in
      if kw ''use'' then ps_statement st (sql_parse_use_clause c)
      else if kw ''with'' then ps_with st c
      else if kw ''select'' then ps_select st c
      else if kw ''from'' then ps_from st r c
      else if kw ''where'' then ps_attach st r (sql_parse_where_clause parse_logical c)
      else if kw ''group'' then ps_attach st r (sql_parse_group_by_clause c)
      else if kw ''having'' then ps_attach st r (sql_parse_having_clause parse_logical c)
      else if kw ''order'' then ps_attach st r (sql_parse_order_by_clause parse_aggregate c)
      else if kw ''limit'' then ps_attach st r (sql_parse_limit_clause c)
      else if kw ''offset'' then ps_attach st r (sql_parse_offset_clause c)
      else if kw ''insert'' then ps_statement st (sql_parse_insert_clause c)
      else if kw ''import'' then ps_statement st (sql_parse_import_clause c)
      else if kw ''create'' then ps_statement st (sql_parse_create_clause c)
      else if kw ''alter'' then ps_statement st (sql_parse_alter_clause c)
      else if kw ''drop'' then ps_statement st (sql_parse_drop_index_clause c)
      else if kw ''delete'' then ps_clause_statement st (sql_parse_delete_clause c)
      else if kw ''describe'' then ps_statement st (sql_parse_describe_clause c)
      else if kw ''explain'' then ps_clause_statement st (sql_parse_explain_clause c)
      else if kw ''analyze'' then ps_statement st (sql_parse_analyze_clause c)
      else ps_next st (sql_parse_error_at c r (''unexpected keyword '' @ q (str8_varg (tok_value tok)))))"

definition sql_parse_pass :: "parse_state \<Rightarrow> pctx \<Rightarrow> parse_state loop_step presult" where
  "sql_parse_pass st c =
     (if sql_at_end c then PDone (Break st) c
      else let tok = sql_peek c 0 in
        if tok_type tok = TSymbol \<and> str8_match (tok_value tok) '';'' match_exact
        then PDone (Again (st\<lparr>last_select := None\<rparr>)) (sql_advance c 1)
        else if tok_type tok = TKeyword then sql_parse_keyword st c
        else p_fail_at c (tok_range tok) (''unexpected token '' @ q (str8_varg (tok_value tok))))"

text \<open>The result: the list of statements, empty for \<open>NULL\<close> without an error.\<close>

definition sql_parse :: "sql_token list \<Rightarrow> string8 \<Rightarrow> sql_node list presult" where
  "sql_parse toks source_text =
     p_then (p_while sql_parse_pass \<lparr>roots = [], last_select = None, pending_with = None\<rparr>
               (sql_parse_ctx_make toks source_text))
       (\<lambda>st c. PDone (roots st) c)"

end
