(* ===== verification/Sql_Parser_Total.thy ===== *)
theory Sql_Parser_Total
  imports Sql_Parser_Contract Sql_Parser_Stmt
begin

text \<open>
  The contract of the statement parsers and of \<open>sql_parse\<close>: for every token list the
  parser comes back, either with statements of the shape \<open>ir_gen.c\<close> expects, or with
  \<open>NULL\<close> and the first error, whose position lies in the source.
\<close>

section \<open>The shape of statements\<close>

definition leaf_of :: "sql_node_type list \<Rightarrow> sql_node \<Rightarrow> bool" where
  "leaf_of ts n \<longleftrightarrow> node_type n \<in> set ts \<and> node_children n = []"

definition type_ok :: "sql_node \<Rightarrow> bool" where
  "type_ok n \<longleftrightarrow> node_type n = SqlType \<and> length (node_children n) \<le> 2 \<and>
     list_all (leaf_of [SqlNumeric]) (node_children n)"

fun constraint_ok :: "sql_node \<Rightarrow> bool" where
  "constraint_ok (SQL_Node SqlNotNull v cs) \<longleftrightarrow> cs = []"
| "constraint_ok (SQL_Node SqlUnique v cs) \<longleftrightarrow> cs = []"
| "constraint_ok (SQL_Node SqlPrimaryKey v cs) \<longleftrightarrow> cs = []"
| "constraint_ok (SQL_Node SqlForeignKey v cs) \<longleftrightarrow> length cs = 1 \<and> list_all (leaf_of [SqlColumn]) cs"
| "constraint_ok (SQL_Node SqlCheck v cs) \<longleftrightarrow> length cs = 1 \<and> list_all (is_node condition_types) cs"
| "constraint_ok (SQL_Node _ v cs) \<longleftrightarrow> False"

definition column_def_ok :: "sql_node \<Rightarrow> bool" where
  "column_def_ok n \<longleftrightarrow> node_type n = SqlColumn \<and> node_children n \<noteq> [] \<and>
     type_ok (hd (node_children n)) \<and> list_all constraint_ok (tl (node_children n))"

fun created_ok :: "sql_node \<Rightarrow> bool" where
  "created_ok (SQL_Node SqlDatabase v cs) \<longleftrightarrow> cs = []"
| "created_ok (SQL_Node SqlTable v cs) \<longleftrightarrow> list_all column_def_ok cs"
| "created_ok (SQL_Node SqlIndex v cs) \<longleftrightarrow>
     length cs = 2 \<and> leaf_of [SqlTable] (cs ! 0) \<and> leaf_of [SqlColumn] (cs ! 1)"
| "created_ok (SQL_Node SqlEnumDef v cs) \<longleftrightarrow> cs \<noteq> [] \<and> list_all (leaf_of [SqlEnumValue]) cs"
| "created_ok (SQL_Node _ v cs) \<longleftrightarrow> False"

fun altered_ok :: "sql_node \<Rightarrow> bool" where
  "altered_ok (SQL_Node SqlAlter_AddColumn v cs) \<longleftrightarrow>
     cs \<noteq> [] \<and> leaf_of [SqlColumn] (hd cs) \<and> length cs \<le> 2 \<and> list_all type_ok (tl cs)"
| "altered_ok (SQL_Node SqlAlter_DropColumn v cs) \<longleftrightarrow> cs = []"
| "altered_ok (SQL_Node SqlAlter_Rename v cs) \<longleftrightarrow> cs = []"
| "altered_ok (SQL_Node _ v cs) \<longleftrightarrow> False"

definition value_group_ok :: "sql_node \<Rightarrow> bool" where
  "value_group_ok n \<longleftrightarrow> node_type n = SqlValueGroup \<and>
     list_all (leaf_of [SqlNull, SqlNumeric, SqlLiteral]) (node_children n)"

definition values_ok :: "sql_node \<Rightarrow> bool" where
  "values_ok n \<longleftrightarrow> node_type n = SqlValue \<and> list_all value_group_ok (node_children n)"

definition insert_columns_ok :: "sql_node \<Rightarrow> bool" where
  "insert_columns_ok n \<longleftrightarrow> node_type n = SqlColumnList \<and> list_all (leaf_of [SqlColumn]) (node_children n)"

text \<open>A query of the top level: the clauses that follow it are attached as they come, the
  common table expressions among them. The node of a \<open>delete\<close> grows in the same way.\<close>

definition query_ok :: "sql_node \<Rightarrow> bool" where
  "query_ok n \<longleftrightarrow> node_type n = SqlSelect \<and> node_children n \<noteq> [] \<and>
     is_node [SqlColumnList] (hd (node_children n)) \<and>
     list_all (is_node (SqlCteList # clause_types)) (tl (node_children n))"

definition delete_ok :: "sql_node \<Rightarrow> bool" where
  "delete_ok n \<longleftrightarrow> node_type n = SqlDelete \<and> node_children n \<noteq> [] \<and>
     leaf_of [SqlTable] (hd (node_children n)) \<and> list_all (is_node clause_types) (tl (node_children n))"

fun statement_ok :: "sql_node \<Rightarrow> bool" where
  "statement_ok (SQL_Node SqlUse v cs) \<longleftrightarrow> list_all (leaf_of [SqlDatabase]) cs"
| "statement_ok (SQL_Node SqlDescribe v cs) \<longleftrightarrow> length cs = 1 \<and> list_all (leaf_of [SqlTable]) cs"
| "statement_ok (SQL_Node SqlAnalyze v cs) \<longleftrightarrow> length cs \<le> 1 \<and> list_all (leaf_of [SqlTable]) cs"
| "statement_ok (SQL_Node SqlExplain v cs) \<longleftrightarrow>
     (v = [] \<or> v = ''analyze'') \<and> length cs = 1 \<and> list_all query_ok cs"
| "statement_ok (SQL_Node SqlInsert v cs) \<longleftrightarrow>
     2 \<le> length cs \<and> length cs \<le> 3 \<and> leaf_of [SqlTable] (hd cs) \<and> values_ok (last cs) \<and>
     list_all insert_columns_ok (butlast (tl cs))"
| "statement_ok (SQL_Node SqlImport v cs) \<longleftrightarrow>
     length cs = 2 \<and> leaf_of [SqlTable] (cs ! 0) \<and> leaf_of [SqlLiteral] (cs ! 1)"
| "statement_ok (SQL_Node SqlCreate v cs) \<longleftrightarrow> length cs = 1 \<and> list_all created_ok cs"
| "statement_ok (SQL_Node SqlDropIndex v cs) \<longleftrightarrow> length cs = 1 \<and> list_all (leaf_of [SqlTable]) cs"
| "statement_ok (SQL_Node SqlAlter v cs) \<longleftrightarrow>
     length cs = 2 \<and> leaf_of [SqlTable] (cs ! 0) \<and> altered_ok (cs ! 1)"
| "statement_ok n \<longleftrightarrow> query_ok n \<or> delete_ok n"

lemma leaf_of_leaf [simp]: "leaf_of ts (sql_leaf t v) \<longleftrightarrow> t \<in> set ts"
  by (simp add: leaf_of_def sql_leaf_def)

lemma leaf_of_node [simp]: "leaf_of ts (SQL_Node t v cs) \<longleftrightarrow> t \<in> set ts \<and> cs = []"
  by (simp add: leaf_of_def)

section \<open>List loops\<close>

context item_parser
begin

lemma open_list:
  assumes "pctx_ok c" "here c"
  shows "p_from c 0 (list_all P) (p_open_list item c)"
  unfolding p_open_list_def Let_def
proof (rule p_post_while [where I = "list_all P" and k = 0 and j = 0, unfolded add_0])
  fix xs c1
  assume c1: "reach c 0 c1" "list_all P xs"
  note i = item [OF reach_ok [OF c1(1)] here_on [OF assms(2) c1(1)]]
  show "p_post c1 (loop_post c1 0 (list_all P) (list_all P))
     (if sql_at_end c1 then PDone (Break xs) c1
      else p_then (item c1) (\<lambda>x c. case sql_match c TSymbol '','' of (comma, c) \<Rightarrow>
        PDone (if comma then Again (xs @ [x]) else Break (xs @ [x])) c))"
    using c1 reach_ok [OF c1(1)]
    by (auto intro!: p_post_call [OF i, where k = 0] p_post_match [where k = 0]; auto simp: reach_facts)
qed (use assms in auto)

lemma until_symbol:
  assumes "pctx_ok c" "here c"
  shows "p_from c 0 (list_all P) (p_until_symbol item c)"
  unfolding p_until_symbol_def Let_def
proof (rule p_post_while [where I = "list_all P" and k = 0 and j = 0, unfolded add_0])
  fix xs c1
  assume c1: "reach c 0 c1" "list_all P xs"
  note i = item [OF reach_ok [OF c1(1)] here_on [OF assms(2) c1(1)]]
  show "p_post c1 (loop_post c1 0 (list_all P) (list_all P))
     (if sql_at_end c1 \<or> sql_check c1 TSymbol [] then PDone (Break xs) c1
      else p_then (item c1) (\<lambda>x c. case sql_match c TSymbol '','' of (comma, c) \<Rightarrow>
        PDone (Again (xs @ [x])) c))"
    using c1 reach_ok [OF c1(1)]
    by (auto intro!: p_post_call [OF i, where k = 0] p_post_match [where k = 1]; auto simp: reach_facts)
qed (use assms in auto)

end

text \<open>An item that is one token of a type.\<close>

lemma token_item:
  "pctx_ok c \<Longrightarrow> ty \<noteq> TEOF \<Longrightarrow>
   p_from c 1 (leaf_of [t]) (p_take c ty what (\<lambda>v c. PDone (sql_leaf t v) c))"
  by (auto intro!: p_post_take [where k = 0])

section \<open>Small statements\<close>

interpretation use_items: item_parser
  "\<lambda>c. p_take c TIdentifier what (\<lambda>name c. PDone (sql_leaf SqlDatabase name) c)" "\<lambda>c. True"
  "leaf_of [SqlDatabase]" for what
  by unfold_locales (auto intro!: token_item [simplified])

interpretation column_names: item_parser
  "\<lambda>c. p_take c TIdentifier what (\<lambda>name c. PDone (sql_leaf SqlColumn name) c)" "\<lambda>c. True"
  "leaf_of [SqlColumn]" for what
  by unfold_locales (auto intro!: token_item [simplified])

interpretation enum_labels: item_parser
  "\<lambda>c. p_take c TString what (\<lambda>v c. PDone (sql_leaf SqlEnumValue v) c)" "\<lambda>c. True"
  "leaf_of [SqlEnumValue]" for what
  by unfold_locales (auto intro!: token_item [simplified])

text \<open>The statements are entered at their keyword, a token of the input.\<close>

definition at_token :: "pctx \<Rightarrow> bool" where
  "at_token c \<longleftrightarrow> pctx_ok c \<and> pos c < length (tokens c)"

lemma at_token_advance: "at_token c \<Longrightarrow> reach c 1 (sql_advance c 1)"
  using reach_advance_n [of c 0 c 1] by (auto simp: at_token_def)

lemma use_clause: "at_token c \<Longrightarrow> p_from c 1 statement_ok (sql_parse_use_clause c)"
  unfolding sql_parse_use_clause_def Let_def
  by (auto intro!: p_post_then [OF _ use_items.open_list, where k = 1] at_token_advance [simplified]
      dest: reach_ok [OF at_token_advance])

lemma describe_clause: "at_token c \<Longrightarrow> p_from c 1 statement_ok (sql_parse_describe_clause c)"
  unfolding sql_parse_describe_clause_def Let_def
  by (auto intro!: p_post_take [where k = 0] intro: reach_less [OF at_token_advance [simplified]])

lemma analyze_clause: "at_token c \<Longrightarrow> p_from c 1 statement_ok (sql_parse_analyze_clause c)"
  unfolding sql_parse_analyze_clause_def Let_def
  by (auto intro!: p_post_take_any [where k = 1] at_token_advance [simplified] simp: sql_leaf_def)

lemma select_clause_query: "pctx_ok c \<Longrightarrow> p_from c 1 query_ok (sql_parse_select_clause c)"
  unfolding sql_parse_select_clause_def Let_def
  by (auto intro!: p_post_call [OF select_items.comma_list, where k = 0] reach_advance
      dest: reach_ok [OF reach_advance] simp: query_ok_def is_node_def list_all_is_node child_in_def;
      auto simp: reach_facts sql_advance_def)

lemma query_push:
  assumes "query_ok n" "is_node ts x" "set ts \<subseteq> set (SqlCteList # clause_types)"
  shows "query_ok (sql_push_child n x)"
  using assms is_node_weaken [OF assms(2,3)] by (auto simp: query_ok_def sql_push_child_def)

lemma explain_clause:
  "at_token c \<Longrightarrow> p_from c 1 (\<lambda>n. statement_ok n \<and> node_type n = SqlExplain) (sql_parse_explain_clause c)"
proof -
  assume c: "at_token c"
  have withs: "p_from c1 0 (\<lambda>ws. length ws \<le> 1 \<and> list_all (is_node [SqlCteList]) ws) (sql_parse_explain_with c1)"
    if "pctx_ok c1" for c1
    using that unfolding sql_parse_explain_with_def
    by (auto intro!: p_post_call [OF with_clause, where k = 0]; auto simp: reach_facts)
  have fold: "query_ok (fold (\<lambda>w sel. sql_push_child sel w) ws sel)"
    if "query_ok sel" "list_all (is_node [SqlCteList]) ws" for ws sel
    using that by (induction ws arbitrary: sel) (auto simp: query_push [where ts = "[SqlCteList]"])
  show ?thesis
    unfolding sql_parse_explain_clause_def Let_def
    by (rule p_post_match [where k = 0])
      (use c in \<open>auto intro!: p_post_then [OF _ withs, where k = 0] p_post_expected [where k = 0]
         p_post_call [OF select_clause_query, where k = 0] fold;
       auto simp: reach_facts at_token_def sql_advance_def\<close>)+
qed

section \<open>Insert, import, delete\<close>

lemma value_item:
  "pctx_ok c \<Longrightarrow> p_from c 1 (leaf_of [SqlNull, SqlNumeric, SqlLiteral]) (sql_parse_value c)"
  unfolding sql_parse_value_def Let_def
  by (auto intro!: p_post_fail_at [where k = 0] reach_advance_pos [where k = 0, simplified]
      sql_peek_pos [where k = 0, simplified])

interpretation value_items: item_parser sql_parse_value "\<lambda>c. True"
  "leaf_of [SqlNull, SqlNumeric, SqlLiteral]"
  by unfold_locales (auto intro!: value_item [simplified])

lemma value_group: "pctx_ok c \<Longrightarrow> p_from c 1 value_group_ok (sql_parse_value_group c)"
  unfolding sql_parse_value_group_def
  by (auto intro!: p_post_require [where k = 0] p_post_then [OF _ value_items.until_symbol, where k = 0];
      auto simp: reach_facts value_group_ok_def)

interpretation value_groups: item_parser sql_parse_value_group "\<lambda>c. True" value_group_ok
  by unfold_locales (auto intro!: value_group [simplified])

lemma values_clause: "pctx_ok c \<Longrightarrow> p_from c 0 values_ok (sql_parse_values_clause c)"
  unfolding sql_parse_values_clause_def
  by (auto intro!: p_post_then [OF _ value_groups.open_list, where k = 0] simp: values_ok_def)

lemma insert_columns:
  "pctx_ok c \<Longrightarrow> p_from c 0 (\<lambda>cs. length cs \<le> 1 \<and> list_all insert_columns_ok cs) (sql_parse_insert_columns c)"
  unfolding sql_parse_insert_columns_def Let_def
  by (auto intro!: p_post_match [where k = 0] p_post_then [OF _ column_names.until_symbol, where k = 0]
      p_post_require [where k = 0];
      auto simp: reach_facts insert_columns_ok_def)

lemma insert_clause: "at_token c \<Longrightarrow> p_from c 1 statement_ok (sql_parse_insert_clause c)"
  unfolding sql_parse_insert_clause_def Let_def
  by (auto intro!: p_post_require [where k = 0] p_post_take [where k = 0]
      p_post_then [OF _ insert_columns, where k = 0] p_post_then [OF _ values_clause, where k = 1];
      auto simp: reach_facts at_token_def sql_advance_def)

lemma import_clause: "at_token c \<Longrightarrow> p_from c 1 statement_ok (sql_parse_import_clause c)"
  unfolding sql_parse_import_clause_def Let_def
  by (auto intro!: p_post_require [where k = 0] p_post_take [where k = 0];
      auto simp: reach_facts at_token_def sql_advance_def)

lemma delete_push:
  assumes "delete_ok n" "is_node ts x" "set ts \<subseteq> set clause_types"
  shows "delete_ok (sql_push_child n x)"
  using assms is_node_weaken [OF assms(2,3)] by (auto simp: delete_ok_def sql_push_child_def)

lemma delete_clause: "at_token c \<Longrightarrow> p_from c 1 delete_ok (sql_parse_delete_clause c)"
  unfolding sql_parse_delete_clause_def Let_def
  by (auto intro!: p_post_match [where k = 0] p_post_fail_at [where k = 0] p_post_require [where k = 0]
      p_post_take [where k = 0] p_post_call [OF parse_queries.where_clause [OF _ order_refl], where k = 0]
      delete_push [where ts = "[SqlWhere]"];
      auto simp: reach_facts at_token_def delete_ok_def clause_types_def)

section \<open>Create, drop, alter\<close>

lemma type_args:
  "pctx_ok c \<Longrightarrow> p_from c 0 (\<lambda>as. length as \<le> 2 \<and> list_all (leaf_of [SqlNumeric]) as) (sql_parse_type_args c)"
proof -
  assume c: "pctx_ok c"
  have scale: "p_from c1 0 (\<lambda>as. length as \<le> 2 \<and> list_all (leaf_of [SqlNumeric]) as)
     (case sql_match c1 TSymbol '','' of (comma, c) \<Rightarrow>
        if comma then p_take c TNumber what (\<lambda>s c. PDone [sql_leaf SqlNumeric p, sql_leaf SqlNumeric s] c)
        else PDone [sql_leaf SqlNumeric p] c)" if "pctx_ok c1" for p c1 what
    using that by (auto intro!: p_post_match [where k = 0] p_post_take [where k = 0]; auto simp: reach_facts)
  show ?thesis
    unfolding sql_parse_type_args_def Let_def
    using c
    by (auto intro!: p_post_take [where k = 0] p_post_then [OF _ scale, where k = 0] p_post_require [where k = 0];
        auto simp: reach_facts sql_advance_def)
qed

lemma references: "pctx_ok c \<Longrightarrow> p_from c 1 constraint_ok (sql_parse_references c)"
  unfolding sql_parse_references_def
  by (auto intro!: p_post_take [where k = 0] p_post_require [where k = 0]; auto simp: reach_facts)

lemma check: "pctx_ok c \<Longrightarrow> p_from c 1 constraint_ok (sql_parse_check c)"
  unfolding sql_parse_check_def Let_def
  by (auto intro!: p_post_require [where k = 0] p_post_call [OF parse_logical, where k = 0];
      auto simp: reach_facts)

lemma column_push:
  "column_def_ok n \<Longrightarrow> constraint_ok x \<Longrightarrow> column_def_ok (sql_push_child n x)"
  by (auto simp: column_def_ok_def sql_push_child_def)

lemma constraint_pass:
  assumes "pctx_ok c" "column_def_ok column"
  shows "p_post c (loop_post c 0 column_def_ok column_def_ok) (sql_parse_constraint_pass column c)"
proof (cases "sql_check c TKeyword []")
  case True
  then have "reach c 1 (sql_advance c 1)"
    using assms reach_advance_check [of c 0 c TKeyword "[]"] by simp
  with True assms show ?thesis
    unfolding sql_parse_constraint_pass_def Let_def
    by (auto intro!: p_post_require [where k = 0] p_post_call [OF references, where k = 0]
        p_post_call [OF check, where k = 0] column_push simp: sql_leaf_def;
        auto simp: reach_facts)
qed (use assms in \<open>simp add: sql_parse_constraint_pass_def\<close>)

lemma constraints:
  assumes "pctx_ok c" "column_def_ok column"
  shows "p_from c 0 column_def_ok (p_while sql_parse_constraint_pass column c)"
proof (rule p_post_while [where I = column_def_ok and k = 0 and j = 0, unfolded add_0])
  show "p_post c1 (loop_post c1 0 column_def_ok column_def_ok) (sql_parse_constraint_pass n c1)"
    if "reach c 0 c1" "column_def_ok n" for n c1
    using constraint_pass reach_ok that by blast
qed (use assms in auto)

lemma column_def: "pctx_ok c \<Longrightarrow> p_from c 1 column_def_ok (sql_parse_column_def c)"
  unfolding sql_parse_column_def_def Let_def
  by (auto intro!: p_post_take [where k = 0] p_post_expected [where k = 0] p_post_take_any [where k = 1]
      p_post_then [OF _ type_args, where k = 1] p_from_tail [OF _ constraints, where k = 1];
      auto simp: reach_facts column_def_ok_def type_ok_def)

interpretation column_defs: item_parser sql_parse_column_def "\<lambda>c. True" column_def_ok
  by unfold_locales (auto intro!: column_def [simplified])

lemma create_table: "pctx_ok c \<Longrightarrow> p_from c 1 created_ok (sql_parse_create_table c)"
  unfolding sql_parse_create_table_def
  by (auto intro!: p_post_take [where k = 0] p_post_require [where k = 0]
      p_post_then [OF _ column_defs.until_symbol, where k = 0];
      auto simp: reach_facts)

lemma create_database: "pctx_ok c \<Longrightarrow> p_from c 1 created_ok (sql_parse_create_database c)"
  unfolding sql_parse_create_database_def
  by (auto intro!: p_post_take [where k = 0] simp: sql_leaf_def)

lemma create_index: "pctx_ok c \<Longrightarrow> p_from c 1 created_ok (sql_parse_create_index c)"
  unfolding sql_parse_create_index_def Let_def
  by (auto intro!: p_post_take [where k = 0] p_post_require [where k = 0]; auto simp: reach_facts)

lemma create_type: "pctx_ok c \<Longrightarrow> p_from c 1 created_ok (sql_parse_create_type c)"
  unfolding sql_parse_create_type_def Let_def
  by (auto intro!: p_post_take [where k = 0] p_post_require [where k = 0]
      p_post_call [OF enum_labels.comma_list, where k = 0]; auto simp: reach_facts)

lemma create_clause: "at_token c \<Longrightarrow> p_from c 1 statement_ok (sql_parse_create_clause c)"
  unfolding sql_parse_create_clause_def Let_def
  by (auto intro!: p_post_expected [where k = 0] p_post_fail_at [where k = 0] p_post_take_any [where k = 0]
      p_post_call [OF create_database, where k = 0] p_post_call [OF create_table, where k = 0]
      p_post_call [OF create_index, where k = 0] p_post_call [OF create_type, where k = 0];
      auto simp: reach_facts at_token_def sql_advance_def)

lemma drop_index_clause: "at_token c \<Longrightarrow> p_from c 1 statement_ok (sql_parse_drop_index_clause c)"
  unfolding sql_parse_drop_index_clause_def Let_def
  by (auto intro!: p_post_take [where k = 0] p_post_require [where k = 0];
      auto simp: reach_facts at_token_def sql_advance_def)

lemma alter_add_column: "pctx_ok c \<Longrightarrow> p_from c 1 altered_ok (sql_parse_alter_add_column c)"
  unfolding sql_parse_alter_add_column_def Let_def
  by (auto intro!: p_post_take [where k = 0] p_post_require [where k = 0] p_post_take_any [where k = 1]
      p_post_then [OF _ type_args, where k = 1]; auto simp: reach_facts type_ok_def)

lemma alter_drop_column: "pctx_ok c \<Longrightarrow> p_from c 1 altered_ok (sql_parse_alter_drop_column c)"
  unfolding sql_parse_alter_drop_column_def
  by (auto intro!: p_post_take [where k = 0] p_post_require [where k = 0] simp: sql_leaf_def; auto simp: reach_facts)

lemma alter_rename: "pctx_ok c \<Longrightarrow> p_from c 1 altered_ok (sql_parse_alter_rename c)"
  unfolding sql_parse_alter_rename_def
  by (auto intro!: p_post_take [where k = 0] p_post_require [where k = 0] simp: sql_leaf_def; auto simp: reach_facts)

lemma alter_clause: "at_token c \<Longrightarrow> p_from c 1 statement_ok (sql_parse_alter_clause c)"
  unfolding sql_parse_alter_clause_def Let_def
  by (auto intro!: p_post_match [where k = 0] p_post_take [where k = 0] p_post_require [where k = 0]
      p_post_fail_at [where k = 0] p_post_expected [where k = 0]
      p_post_call [OF alter_add_column, where k = 0] p_post_call [OF alter_drop_column, where k = 0]
      p_post_call [OF alter_rename, where k = 0];
      auto simp: reach_facts at_token_def sql_advance_def)

section \<open>The top level\<close>

text \<open>The invariant of the statement loop: every statement has its shape, and the target of
  clauses is a query or a delete that is one of them.\<close>

definition target_ok :: "sql_node \<Rightarrow> bool" where
  "target_ok n \<longleftrightarrow> query_ok n \<or> delete_ok n"

definition ps_ok :: "parse_state \<Rightarrow> bool" where
  "ps_ok st \<longleftrightarrow> list_all statement_ok (roots st) \<and>
     (\<forall>i. last_select st = Some i \<longrightarrow> i < length (roots st) \<and> target_ok (clause_target (roots st ! i))) \<and>
     (\<forall>w. pending_with st = Some w \<longrightarrow> is_node [SqlCteList] w)"

abbreviation pass_ok :: "pctx \<Rightarrow> parse_state loop_step presult \<Rightarrow> bool" where
  "pass_ok c \<equiv> p_post c (loop_post c 0 ps_ok ps_ok)"

lemma target_statement: "target_ok n \<Longrightarrow> statement_ok n"
  by (cases n rule: statement_ok.cases) (auto simp: target_ok_def query_ok_def delete_ok_def)

lemma ps_next_pass: "reach c 1 c' \<Longrightarrow> ps_ok st \<Longrightarrow> pass_ok c (ps_next st c')"
  by (auto simp: ps_next_def reach_def pctx_ok_def)

lemma ps_next_error: "gave_up c c' \<Longrightarrow> pass_ok c (ps_next st c')"
  by (auto simp: ps_next_def gave_up_def)

lemma ps_next_report: "reach c k c' \<Longrightarrow> pass_ok c (ps_next st (sql_parse_error_at c' r msg))"
  using error_located_error_at [of c' r msg] by (intro ps_next_error) (auto simp: gave_up_def reach_def pctx_ok_def)

lemma ps_push_root_ok: "ps_ok st \<Longrightarrow> statement_ok n \<Longrightarrow> ps_ok (ps_push_root st n)"
  by (auto simp: ps_ok_def ps_push_root_def nth_append)

lemma ps_statement_pass:
  assumes "p_from c 1 statement_ok r" "ps_ok st"
  shows "pass_ok c (ps_statement st r)"
  using assms by (cases r)
    (auto simp: ps_statement_def intro: ps_next_pass [simplified] ps_next_error ps_push_root_ok)

lemma ps_target_root_ok:
  assumes "ps_ok st" "statement_ok n" "target_ok (clause_target n)"
  shows "ps_ok ((ps_push_root st n)\<lparr>last_select := Some (length (roots st))\<rparr>)"
    and "ps_ok ((ps_push_root st n)\<lparr>last_select := Some (length (roots st)), pending_with := None\<rparr>)"
  using assms by (auto simp: ps_ok_def ps_push_root_def nth_append)

lemma ps_no_target_ok: "ps_ok st \<Longrightarrow> ps_ok (st\<lparr>last_select := None\<rparr>)"
  by (auto simp: ps_ok_def)

lemma ps_clause_statement_pass:
  assumes "p_from c 1 (\<lambda>n. statement_ok n \<and> target_ok (clause_target n)) r" "ps_ok st"
  shows "pass_ok c (ps_clause_statement st r)"
  using assms by (cases r)
    (auto simp: ps_clause_statement_def intro: ps_next_pass [simplified] ps_next_error ps_target_root_ok)

lemma target_self: "target_ok n \<Longrightarrow> clause_target n = n"
  by (auto simp: target_ok_def query_ok_def delete_ok_def clause_target_def)

lemma query_target: "query_ok n \<Longrightarrow> statement_ok n \<and> target_ok (clause_target n)"
  using target_self [of n] target_statement [of n] by (auto simp: target_ok_def)

lemma delete_target: "delete_ok n \<Longrightarrow> statement_ok n \<and> target_ok (clause_target n)"
  using target_self [of n] target_statement [of n] by (auto simp: target_ok_def)

lemma explain_target:
  "node_type n = SqlExplain \<Longrightarrow> statement_ok n \<Longrightarrow> target_ok (clause_target n)"
  by (cases n; cases "node_children n") (auto simp: target_ok_def clause_target_def)

lemma ps_pending: "ps_ok st \<Longrightarrow> pending_with st = Some w \<Longrightarrow> is_node [SqlCteList] w"
  by (simp add: ps_ok_def)

lemma ps_pending_ok: "ps_ok st \<Longrightarrow> is_node [SqlCteList] w \<Longrightarrow> ps_ok (st\<lparr>pending_with := Some w\<rparr>)"
  by (simp add: ps_ok_def)

lemma query_with: "query_ok n \<Longrightarrow> is_node [SqlCteList] w \<Longrightarrow> query_ok (sql_push_child n w)"
  by (rule query_push) auto

lemma ps_select_pass: "at_token c \<Longrightarrow> ps_ok st \<Longrightarrow> pass_ok c (ps_select st c)"
proof (cases "sql_parse_select_clause c")
  case (PDone n c')
  moreover assume "at_token c" "ps_ok st"
  ultimately show ?thesis
    using select_clause_query [of c] query_target [of n] ps_pending [of st]
      query_target [OF query_with [of n]]
    by (cases "pending_with st")
      (auto simp: ps_select_def at_token_def intro: ps_next_pass [simplified]
        intro: ps_target_root_ok)
qed (use select_clause_query [of c] in \<open>auto simp: ps_select_def at_token_def intro: ps_next_error\<close>)

lemma ps_with_pass: "at_token c \<Longrightarrow> ps_ok st \<Longrightarrow> pass_ok c (ps_with st c)"
proof (cases "sql_parse_with_clause c")
  case (PDone w c')
  moreover assume "at_token c" "ps_ok st"
  ultimately show ?thesis
    using with_clause [of c]
    by (auto simp: ps_with_def at_token_def
        intro: ps_next_pass [simplified] ps_next_report [simplified] ps_pending_ok)
qed (use with_clause [of c] in \<open>auto simp: ps_with_def at_token_def intro: ps_next_error\<close>)

lemma target_push:
  assumes "target_ok n" "is_node [t] x" "t \<in> set clause_types"
  shows "target_ok (sql_push_child n x)"
  using assms query_push [of n "[t]" x] delete_push [of n "[t]" x] by (auto simp: target_ok_def)

lemma target_select: "target_ok t \<Longrightarrow> node_type t = SqlSelect \<Longrightarrow> query_ok t"
  by (auto simp: target_ok_def delete_ok_def)

lemma ps_target:
  "ps_ok st \<Longrightarrow> last_select st = Some i \<Longrightarrow>
   i < length (roots st) \<and> statement_ok (roots st ! i) \<and> target_ok (clause_target (roots st ! i))"
  by (auto simp: ps_ok_def list_all_length)

lemma with_clause_target_ok:
  assumes "statement_ok n" "target_ok t" "node_type t = node_type (clause_target n)"
  shows "statement_ok (with_clause_target n t) \<and> target_ok (clause_target (with_clause_target n t))"
proof (cases "node_type n = SqlExplain \<and> node_children n \<noteq> []")
  case True
  then obtain v x xs where n: "n = SQL_Node SqlExplain v (x # xs)"
    by (cases n; cases "node_children n") auto
  with assms have "query_ok x" "xs = []" "node_type t = SqlSelect"
    by (auto simp: clause_target_def query_ok_def)
  with n assms target_select [of t] show ?thesis
    by (auto simp: with_clause_target_def clause_target_def)
next
  case False
  then have "with_clause_target n t = t" by (auto simp: with_clause_target_def)
  then show ?thesis
    using assms(2) target_statement [of t] target_self [of t] by simp
qed

lemma ps_set_target_ok:
  assumes "ps_ok st" "last_select st = Some i" "target_ok t"
    "node_type t = node_type (clause_target (roots st ! i))"
  shows "ps_ok (ps_set_target st i t)"
  using ps_target [OF assms(1,2)] with_clause_target_ok [of "roots st ! i" t] assms
  by (auto simp: ps_ok_def ps_set_target_def list_all_length nth_list_update)

lemma ps_attach_pass:
  assumes "p_from c 1 (is_node [t]) res" "t \<in> set clause_types" "ps_ok st"
  shows "pass_ok c (ps_attach st r res)"
proof (cases res)
  case (PDone n c')
  show ?thesis
  proof (cases "last_select st")
    case (Some i)
    have "target_ok (sql_push_child (clause_target (roots st ! i)) n)"
      using ps_target [OF assms(3) Some] assms(1,2) PDone by (auto intro: target_push)
    then have "ps_ok (ps_set_target st i (sql_push_child (clause_target (roots st ! i)) n))"
      by (intro ps_set_target_ok [OF assms(3) Some]) auto
    with PDone Some assms(1) show ?thesis
      by (auto simp: ps_attach_def intro: ps_next_pass [simplified])
  qed (use PDone assms(1) in \<open>auto simp: ps_attach_def intro: ps_next_report [simplified]\<close>)
qed (use assms(1) in \<open>auto simp: ps_attach_def intro: ps_next_error\<close>)

lemma ps_from_pass:
  assumes "at_token c" "ps_ok st"
  shows "pass_ok c (ps_from st r c)"
proof (cases "last_select st")
  case None
  with assms show ?thesis
    by (auto simp: ps_from_def at_token_def intro: ps_next_report [where k = 0, simplified])
next
  case (Some i)
  let ?t = "clause_target (roots st ! i)"
  have "p_from c 1 (\<lambda>t. target_ok t \<and> node_type t = node_type ?t)
      (sql_parse_from_clause parse_select parse_logical ?t c)"
  proof (rule parse_queries.from_clause [OF _ order_refl])
    show "target_ok (sql_push_child s n) \<and> node_type (sql_push_child s n) = node_type ?t"
      if "target_ok s \<and> node_type s = node_type ?t" "is_node [SqlTable, SqlJoin] n" for s n
      using that query_push [of s "[SqlTable, SqlJoin]" n] delete_push [of s "[SqlTable, SqlJoin]" n]
      by (auto simp: target_ok_def clause_types_def)
  qed (use assms ps_target [OF assms(2) Some] in \<open>auto simp: at_token_def\<close>)
  then show ?thesis
    using Some assms(2)
    by (cases "sql_parse_from_clause parse_select parse_logical ?t c")
      (auto simp: ps_from_def intro: ps_next_pass [simplified] ps_next_error ps_set_target_ok)
qed

lemma p_post_if: "(b \<Longrightarrow> p_post c R r) \<Longrightarrow> (\<not> b \<Longrightarrow> p_post c R s) \<Longrightarrow> p_post c R (if b then r else s)"
  by simp

lemma keyword_pass:
  assumes "at_token c" "ps_ok st"
  shows "pass_ok c (sql_parse_keyword st c)"
proof -
  have ok: "pctx_ok c" using assms by (simp add: at_token_def)
  have attach: "p_from c 1 (is_node [t]) res \<Longrightarrow> t \<in> set clause_types \<Longrightarrow> pass_ok c (ps_attach st r res)"
    for t r res by (rule ps_attach_pass [OF _ _ assms(2)])
  have stmt: "p_from c 1 statement_ok res \<Longrightarrow> pass_ok c (ps_statement st res)" for res
    by (rule ps_statement_pass [OF _ assms(2)])
  note attached = attach [OF parse_queries.where_clause [OF ok order_refl]] attach [OF group_by_clause [OF ok]]
    attach [OF parse_queries.having_clause [OF ok order_refl]] attach [OF order_by_clause [OF ok]]
    attach [OF limit_clause [OF ok]] attach [OF offset_clause [OF ok]]
  note statements = use_clause insert_clause import_clause create_clause alter_clause drop_index_clause
    describe_clause analyze_clause
  have del: "pass_ok c (ps_clause_statement st (sql_parse_delete_clause c))"
    by (rule ps_clause_statement_pass [OF p_from_mono [OF delete_clause] assms(2)])
      (use assms delete_target in auto)
  have explain: "pass_ok c (ps_clause_statement st (sql_parse_explain_clause c))"
    by (rule ps_clause_statement_pass [OF p_from_mono [OF explain_clause] assms(2)])
      (use assms explain_target in auto)
  have unexpected: "pass_ok c (ps_next st (sql_parse_error_at c r msg))" for r msg
    by (rule ps_next_report [where k = 0]) (simp add: ok)
  show ?thesis
    unfolding sql_parse_keyword_def Let_def
    by (intro p_post_if;
        (rule attached stmt del explain unexpected ps_with_pass ps_select_pass ps_from_pass)?;
        (rule statements)?;
        (rule assms | simp add: clause_types_def)?)
qed

lemma parse_pass:
  assumes "pctx_ok c" "ps_ok st"
  shows "pass_ok c (sql_parse_pass st c)"
proof (cases "sql_at_end c")
  case False
  then have at: "at_token c" using assms(1) by (auto simp: sql_at_end_def at_token_def)
  show ?thesis
    using False assms keyword_pass [OF at assms(2)] at_token_advance [OF at]
    by (auto simp: sql_parse_pass_def Let_def ps_no_target_ok intro: p_post_fail_at [where k = 0, simplified])
qed (use assms in \<open>simp add: sql_parse_pass_def\<close>)

text \<open>The loop is only left at the end of the input.\<close>

lemma p_loop_break: "p_loop n body a c = PDone x c' \<Longrightarrow> \<exists>a1 c1. body a1 c1 = PDone (Break x) c'"
proof (induction n arbitrary: a c)
  case (Suc n)
  then show ?case by (cases "body a c") (auto split: loop_step.splits)
qed simp

lemma ps_next_again: "ps_next st c \<noteq> PDone (Break x) c'"
  by (simp add: ps_next_def)

lemma keyword_again: "sql_parse_keyword st c \<noteq> PDone (Break x) c'"
proof -
  have opt: "p_option r f \<noteq> PDone (Break x) c'" if "\<And>y c. f y c \<noteq> PDone (Break x) c'"
    for r :: "sql_node presult" and f
    using that by (cases r) auto
  have "ps_statement st r \<noteq> PDone (Break x) c'" "ps_clause_statement st r \<noteq> PDone (Break x) c'"
    "ps_attach st rg r \<noteq> PDone (Break x) c'" "ps_select st c \<noteq> PDone (Break x) c'"
    "ps_with st c \<noteq> PDone (Break x) c'" "ps_from st rg c \<noteq> PDone (Break x) c'" for r rg
    by (auto simp: ps_statement_def ps_clause_statement_def ps_attach_def ps_select_def ps_with_def ps_from_def
        ps_next_again intro!: opt split: option.splits)
  then show ?thesis
    by (simp add: sql_parse_keyword_def Let_def ps_next_again)
qed

lemma parse_pass_break: "sql_parse_pass st c = PDone (Break x) c' \<Longrightarrow> sql_at_end c'"
  by (auto simp: sql_parse_pass_def Let_def keyword_again p_fail_at_def split: if_splits)

lemma sql_parse_result:
  "p_from (sql_parse_ctx_make toks src) 0 (list_all statement_ok) (sql_parse toks src)"
proof -
  let ?c = "sql_parse_ctx_make toks src"
  let ?st = "\<lparr>roots = [], last_select = None, pending_with = None\<rparr>"
  have c: "reach ?c 0 ?c" by (simp add: sql_parse_ctx_make_def pctx_ok_def)
  have "p_from ?c (0 + 0) ps_ok (p_while sql_parse_pass ?st ?c)"
  proof (rule p_post_while [where I = ps_ok, OF c])
    show "ps_ok ?st" by (simp add: ps_ok_def)
  qed (auto intro: parse_pass dest: reach_ok)
  then show ?thesis
    unfolding sql_parse_def by (rule p_post_then [OF c]) (auto simp: ps_ok_def)
qed

lemma sql_parse_to_end: "sql_parse toks src = PDone stmts c \<Longrightarrow> sql_at_end c"
proof -
  assume "sql_parse toks src = PDone stmts c"
  then obtain st where "p_while sql_parse_pass \<lparr>roots = [], last_select = None, pending_with = None\<rparr>
      (sql_parse_ctx_make toks src) = PDone st c"
    unfolding sql_parse_def
    by (cases "p_while sql_parse_pass \<lparr>roots = [], last_select = None, pending_with = None\<rparr>
      (sql_parse_ctx_make toks src)") auto
  from p_loop_break [OF this [unfolded p_while_def]] parse_pass_break show ?thesis by blast
qed

text \<open>C1: \<open>sql_parse\<close> comes back on every token list. It returns statements only if it
  has read the whole input and no error was recorded, and then every statement has the shape the IR
  generator relies on; otherwise it returns \<open>NULL\<close> with an error, whose line, column and
  line text are those of its offset in the source. The nested parse functions never run out of
  fuel.\<close>

theorem sql_parse_total:
  "case sql_parse toks src of
     PDone stmts c \<Rightarrow> perr c = None \<and> tokens c = toks \<and> pos c = length toks \<and> list_all statement_ok stmts
   | PNull c \<Rightarrow> (case perr c of None \<Rightarrow> False | Some e \<Rightarrow> error_located src e)
   | PFuel \<Rightarrow> False"
  using sql_parse_result [of toks src] sql_parse_to_end [of toks src]
  by (cases "sql_parse toks src")
    (auto simp: reach_def pctx_ok_def gave_up_def sql_at_end_def sql_parse_ctx_make_def)

end
