(* ===== verification/Ir_Gen.thy ===== *)
theory Ir_Gen
  imports Sql_Parser_Total
begin

text \<open>
  The intermediate representation of \<open>src/src/ir_gen/ir_gen.c\<close>: the tree the planner works
  on, built from the parsed statements by mapping the type of every node. A node is its type, its
  text and the list of its children, as in \<open>Sql_Parse_Ctx\<close>; \<open>SqlDrop\<close>,
  \<open>SqlIdentifier\<close> and any type added later map to the placeholder
  \<open>IrCondition\<close>.

  The lemmas show that no statement the parser returns contains a node that maps to the placeholder,
  and that the active column list is the set of columns a tree mentions, without duplicates.
\<close>

section \<open>Nodes\<close>

datatype ir_node_type =
    IrSelect
  | IrColumn
  | IrTable
  | IrDatabase
  | IrWhere
  | IrCreate
  | IrCondition
  | IrOperator
  | IrNumeric
  | IrLiteral
  | IrOrderBy
  | IrAscending
  | IrDescending
  | IrInsert
  | IrImport
  | IrValue
  | IrValueGroup
  | IrColumnList
  | IrDelete
  | IrAlter
  | IrAddColumn
  | IrDropColumn
  | IrRename
  | IrType
  | IrUse
  | IrJoin
  | IrAlias
  | IrGroupBy
  | IrHaving
  | IrLimit
  | IrOffset
  | IrAggregateCall
  | IrIndex
  | IrDropIndex
  | IrNull
  | IrNotNull
  | IrUnique
  | IrPrimaryKey
  | IrForeignKey
  | IrCheck
  | IrDescribe
  | IrExplain
  | IrAnalyze
  | IrEnumDef
  | IrEnumValue
  | IrCteList
  | IrCte
  | IrSubquery
  | IrInList
  | IrExists
  | IrWindow
  | IrPartitionBy
  | IrSemiJoin

datatype ir_node = IR_Node (ir_type: ir_node_type) (ir_value: string8) (ir_children: "ir_node list")

definition ir_node_make :: "ir_node_type \<Rightarrow> string8 \<Rightarrow> ir_node" where
  "ir_node_make ty v = IR_Node ty v []"

definition ir_node_add_child :: "ir_node \<Rightarrow> ir_node \<Rightarrow> ir_node" where
  "ir_node_add_child parent child =
     IR_Node (ir_type parent) (ir_value parent) (ir_children parent @ [child])"

fun ir_type_from_sql_node_type :: "sql_node_type \<Rightarrow> ir_node_type" where
  "ir_type_from_sql_node_type SqlUse = IrUse"
| "ir_type_from_sql_node_type SqlDescribe = IrDescribe"
| "ir_type_from_sql_node_type SqlExplain = IrExplain"
| "ir_type_from_sql_node_type SqlAnalyze = IrAnalyze"
| "ir_type_from_sql_node_type SqlSelect = IrSelect"
| "ir_type_from_sql_node_type SqlColumn = IrColumn"
| "ir_type_from_sql_node_type SqlTable = IrTable"
| "ir_type_from_sql_node_type SqlWhere = IrWhere"
| "ir_type_from_sql_node_type SqlCreate = IrCreate"
| "ir_type_from_sql_node_type SqlOperator = IrOperator"
| "ir_type_from_sql_node_type SqlLiteral = IrLiteral"
| "ir_type_from_sql_node_type SqlNumeric = IrNumeric"
| "ir_type_from_sql_node_type SqlOrderBy = IrOrderBy"
| "ir_type_from_sql_node_type SqlAscending = IrAscending"
| "ir_type_from_sql_node_type SqlDescending = IrDescending"
| "ir_type_from_sql_node_type SqlInsert = IrInsert"
| "ir_type_from_sql_node_type SqlImport = IrImport"
| "ir_type_from_sql_node_type SqlValue = IrValue"
| "ir_type_from_sql_node_type SqlValueGroup = IrValueGroup"
| "ir_type_from_sql_node_type SqlColumnList = IrColumnList"
| "ir_type_from_sql_node_type SqlDelete = IrDelete"
| "ir_type_from_sql_node_type SqlAlter = IrAlter"
| "ir_type_from_sql_node_type SqlAlter_AddColumn = IrAddColumn"
| "ir_type_from_sql_node_type SqlAlter_ColumnType = IrType"
| "ir_type_from_sql_node_type SqlAlter_DropColumn = IrDropColumn"
| "ir_type_from_sql_node_type SqlAlter_Rename = IrRename"
| "ir_type_from_sql_node_type SqlDatabase = IrDatabase"
| "ir_type_from_sql_node_type SqlJoin = IrJoin"
| "ir_type_from_sql_node_type SqlAlias = IrAlias"
| "ir_type_from_sql_node_type SqlGroupBy = IrGroupBy"
| "ir_type_from_sql_node_type SqlHaving = IrHaving"
| "ir_type_from_sql_node_type SqlLimit = IrLimit"
| "ir_type_from_sql_node_type SqlOffset = IrOffset"
| "ir_type_from_sql_node_type SqlAggregateCall = IrAggregateCall"
| "ir_type_from_sql_node_type SqlIndex = IrIndex"
| "ir_type_from_sql_node_type SqlDropIndex = IrDropIndex"
| "ir_type_from_sql_node_type SqlNull = IrNull"
| "ir_type_from_sql_node_type SqlNotNull = IrNotNull"
| "ir_type_from_sql_node_type SqlUnique = IrUnique"
| "ir_type_from_sql_node_type SqlPrimaryKey = IrPrimaryKey"
| "ir_type_from_sql_node_type SqlForeignKey = IrForeignKey"
| "ir_type_from_sql_node_type SqlCheck = IrCheck"
| "ir_type_from_sql_node_type SqlEnumDef = IrEnumDef"
| "ir_type_from_sql_node_type SqlEnumValue = IrEnumValue"
| "ir_type_from_sql_node_type SqlCteList = IrCteList"
| "ir_type_from_sql_node_type SqlCte = IrCte"
| "ir_type_from_sql_node_type SqlSubquery = IrSubquery"
| "ir_type_from_sql_node_type SqlInList = IrInList"
| "ir_type_from_sql_node_type SqlExists = IrExists"
| "ir_type_from_sql_node_type SqlWindow = IrWindow"
| "ir_type_from_sql_node_type SqlPartitionBy = IrPartitionBy"
| "ir_type_from_sql_node_type SqlRow = IrValueGroup"
| "ir_type_from_sql_node_type SqlType = IrType"
| "ir_type_from_sql_node_type SqlDrop = IrCondition"
| "ir_type_from_sql_node_type _ = IrCondition"

section \<open>Generation\<close>

fun ir_generate_recursive :: "sql_node \<Rightarrow> ir_node" where
  "ir_generate_recursive (SQL_Node ty v cs) =
     foldl ir_node_add_child (IR_Node (ir_type_from_sql_node_type ty) v []) (map ir_generate_recursive cs)"

text \<open>\<open>IR_Query\<close>: the list of execution nodes and its length.\<close>

record ir_query =
  execution_nodes :: "ir_node list"
  query_count :: nat

definition ir_generate_from_ast :: "sql_node list \<Rightarrow> ir_query" where
  "ir_generate_from_ast ast_roots =
     foldl (\<lambda>qu node. \<lparr>execution_nodes = execution_nodes qu @ [ir_generate_recursive node],
                        query_count = query_count qu + 1\<rparr>)
       \<lparr>execution_nodes = [], query_count = 0\<rparr> ast_roots"

definition ir_node_find_child :: "ir_node \<Rightarrow> ir_node_type \<Rightarrow> ir_node option" where
  "ir_node_find_child parent ty = find (\<lambda>c. ir_type c = ty) (ir_children parent)"

text \<open>The list of columns used so far grows by a column that is not in it yet.\<close>

definition push_unless_exists :: "string8 list \<Rightarrow> string8 \<Rightarrow> string8 list" where
  "push_unless_exists used v =
     (if list_ex (\<lambda>s. str8_match s v match_exact) used then used else used @ [v])"

function ir_create_active_column_list :: "ir_node \<Rightarrow> string8 list \<Rightarrow> string8 list" where
  "ir_create_active_column_list (IR_Node ty v cs) used =
     fold ir_create_active_column_list cs (if ty = IrColumn then push_unless_exists used v else used)"
  by pat_completeness auto
termination by (relation "measure (\<lambda>(n, used). size n)") (auto simp: less_Suc_eq_le intro: size_list_estimation')

section \<open>Facts\<close>

lemma ir_add_children:
  "foldl ir_node_add_child n xs = IR_Node (ir_type n) (ir_value n) (ir_children n @ xs)"
  by (induction xs arbitrary: n) (auto simp: ir_node_add_child_def)

lemma ir_generate_node:
  "ir_generate_recursive (SQL_Node ty v cs) =
     IR_Node (ir_type_from_sql_node_type ty) v (map ir_generate_recursive cs)"
  by (simp add: ir_add_children)

lemma ir_generate_from_ast_map:
  "ir_generate_from_ast ast_roots =
     \<lparr>execution_nodes = map ir_generate_recursive ast_roots, query_count = length ast_roots\<rparr>"
proof -
  have "foldl (\<lambda>qu node. \<lparr>execution_nodes = execution_nodes qu @ [ir_generate_recursive node],
                        query_count = query_count qu + 1\<rparr>) qu ast_roots =
     \<lparr>execution_nodes = execution_nodes qu @ map ir_generate_recursive ast_roots,
      query_count = query_count qu + length ast_roots\<rparr>" for qu
    by (induction ast_roots arbitrary: qu) auto
  then show ?thesis by (simp add: ir_generate_from_ast_def)
qed

section \<open>No placeholder\<close>

fun ir_all :: "(ir_node_type \<Rightarrow> bool) \<Rightarrow> ir_node \<Rightarrow> bool" where
  "ir_all P (IR_Node ty v cs) \<longleftrightarrow> P ty \<and> list_all (ir_all P) cs"

definition mapped :: "sql_node_type \<Rightarrow> bool" where
  "mapped t \<longleftrightarrow> ir_type_from_sql_node_type t \<noteq> IrCondition"

lemma mapped_iff: "mapped t \<longleftrightarrow> t \<noteq> SqlIdentifier \<and> t \<noteq> SqlDrop"
  by (cases t) (simp_all add: mapped_def)

abbreviation converts :: "sql_node \<Rightarrow> bool" where
  "converts n \<equiv> ir_all (\<lambda>t. t \<noteq> IrCondition) (ir_generate_recursive n)"

lemma converts_node: "converts (SQL_Node ty v cs) \<longleftrightarrow> mapped ty \<and> list_all converts cs"
  by (simp add: ir_generate_node mapped_def list.pred_map comp_def del: ir_generate_recursive.simps)

lemma converts_leaf [simp]: "converts (sql_leaf t v) \<longleftrightarrow> mapped t"
  by (simp add: sql_leaf_def converts_node del: ir_generate_recursive.simps)

declare ir_generate_recursive.simps [simp del]

lemma child_in_mapped: "child_in ts cs \<Longrightarrow> list_all mapped ts \<Longrightarrow> list_all mapped cs"
  by (auto simp: child_in_def list_all_iff)

lemma call_tail_mapped:
  "(let r = (if r \<noteq> [] \<and> hd r = SqlWindow then tl r else r)
    in r = [] \<or> r = [SqlAlias] \<or> r = [SqlAscending] \<or> r = [SqlDescending]) \<Longrightarrow> list_all mapped r"
  by (cases r) (auto simp: mapped_iff Let_def split: if_splits)

lemma call_children_mapped:
  assumes "list_all mapped (dropWhile (\<lambda>t. t \<in> set [SqlColumn, SqlNumeric, SqlLiteral]) cs)"
  shows "list_all mapped cs"
proof -
  have "list_all mapped (takeWhile (\<lambda>t. t \<in> set [SqlColumn, SqlNumeric, SqlLiteral]) cs)"
    by (auto simp: list_all_iff mapped_iff dest: set_takeWhileD)
  from this assms show ?thesis
    unfolding list_all_append [symmetric, of mapped] by (metis list_all_append takeWhile_dropWhile_id)
qed

lemma shape_mapped: "node_shape ty v cs \<Longrightarrow> list_all mapped cs"
proof (cases ty)
  case SqlAggregateCall
  assume shape: "node_shape ty v cs"
  have "node_shape SqlAggregateCall v cs" using shape unfolding SqlAggregateCall .
  then have "list_all mapped (dropWhile (\<lambda>t. t \<in> set [SqlColumn, SqlNumeric, SqlLiteral]) cs)"
    unfolding node_shape.simps Let_def by (rule call_tail_mapped [unfolded Let_def])
  then show ?thesis by (rule call_children_mapped)
qed (cases cs; cases "tl cs"; auto simp: mapped_iff child_in_def clause_types_def condition_types_def
      operand_types_def list_all_iff)+

lemma wf_converts: "sql_wf n \<Longrightarrow> mapped (node_type n) \<Longrightarrow> converts n"
proof (induction n rule: sql_wf.induct)
  case (1 ty v cs)
  then have "list_all mapped (map node_type cs)" by (auto intro: shape_mapped)
  with 1 show ?case by (auto simp: converts_node list_all_iff)
qed

lemma is_node_converts: "is_node ts n \<Longrightarrow> list_all mapped ts \<Longrightarrow> converts n"
  by (auto simp: is_node_def list_all_iff intro: wf_converts)

lemma leaf_converts: "leaf_of ts n \<Longrightarrow> list_all mapped ts \<Longrightarrow> converts n"
  by (cases n) (auto simp: leaf_of_def list_all_iff converts_node)

lemma list_converts: "list_all P cs \<Longrightarrow> (\<And>n. P n \<Longrightarrow> converts n) \<Longrightarrow> list_all converts cs"
  by (auto simp: list_all_iff)

lemma leaf_convert:
  "leaf_of [SqlTable] n \<Longrightarrow> converts n" "leaf_of [SqlColumn] n \<Longrightarrow> converts n"
  "leaf_of [SqlLiteral] n \<Longrightarrow> converts n" "leaf_of [SqlDatabase] n \<Longrightarrow> converts n"
  "leaf_of [SqlEnumValue] n \<Longrightarrow> converts n"
  by (erule leaf_converts, simp add: mapped_iff)+

lemma leaves_convert:
  "list_all (leaf_of [SqlTable]) ns \<Longrightarrow> list_all converts ns"
  "list_all (leaf_of [SqlColumn]) ns \<Longrightarrow> list_all converts ns"
  "list_all (leaf_of [SqlDatabase]) ns \<Longrightarrow> list_all converts ns"
  "list_all (leaf_of [SqlEnumValue]) ns \<Longrightarrow> list_all converts ns"
  by (erule list_converts, rule leaf_convert, assumption)+

lemma type_converts: "type_ok n \<Longrightarrow> converts n"
  by (cases n) (auto simp: type_ok_def converts_node mapped_iff intro!: list_converts leaf_converts)

lemma constraint_converts: "constraint_ok n \<Longrightarrow> converts n"
  by (cases n rule: constraint_ok.cases)
    (auto simp: converts_node mapped_iff condition_types_def intro!: list_converts intro: leaf_converts is_node_converts)

lemma column_def_converts: "column_def_ok n \<Longrightarrow> converts n"
proof (cases n)
  case (SQL_Node ty v cs)
  assume "column_def_ok n"
  with SQL_Node show ?thesis
    by (cases cs) (auto simp: column_def_ok_def converts_node mapped_iff intro: type_converts
        list_converts [of constraint_ok] constraint_converts)
qed

lemma created_converts: "created_ok n \<Longrightarrow> converts n"
  by (cases n rule: created_ok.cases)
    (auto simp: converts_node mapped_iff length_Suc_conv numeral_eq_Suc
      intro: leaf_convert leaves_convert list_converts [OF _ column_def_converts])

lemma altered_converts: "altered_ok n \<Longrightarrow> converts n"
proof (cases n rule: altered_ok.cases)
  case (1 v cs)
  assume "altered_ok n"
  with 1 show ?thesis
    by (cases cs) (auto simp: converts_node mapped_iff intro: leaf_converts list_converts [of type_ok] type_converts)
qed (auto simp: converts_node mapped_iff)

lemma value_group_converts: "value_group_ok n \<Longrightarrow> converts n"
  by (cases n) (auto simp: value_group_ok_def converts_node mapped_iff
      intro!: list_converts [of "leaf_of [SqlNull, SqlNumeric, SqlLiteral]"] leaf_converts)

lemma values_converts: "values_ok n \<Longrightarrow> converts n"
  by (cases n) (auto simp: values_ok_def converts_node mapped_iff
      intro!: list_converts [of value_group_ok] value_group_converts)

lemma insert_columns_converts: "insert_columns_ok n \<Longrightarrow> converts n"
  by (cases n) (auto simp: insert_columns_ok_def converts_node mapped_iff
      intro!: list_converts [of "leaf_of [SqlColumn]"] leaf_converts)

lemma clause_types_mapped: "list_all mapped clause_types"
  by (simp add: clause_types_def mapped_iff)

lemma clauses_convert:
  "list_all (is_node (SqlCteList # clause_types)) ns \<Longrightarrow> list_all converts ns"
  "list_all (is_node clause_types) ns \<Longrightarrow> list_all converts ns"
  by (erule list_converts, erule is_node_converts, simp add: clause_types_mapped mapped_iff)+

lemma query_converts: "query_ok n \<Longrightarrow> converts n"
proof (cases n)
  case (SQL_Node ty v cs)
  assume "query_ok n"
  with SQL_Node show ?thesis
    by (cases cs) (auto simp: query_ok_def converts_node mapped_iff intro: is_node_converts clauses_convert)
qed

lemma delete_converts: "delete_ok n \<Longrightarrow> converts n"
proof (cases n)
  case (SQL_Node ty v cs)
  assume "delete_ok n"
  with SQL_Node show ?thesis
    by (cases cs) (auto simp: delete_ok_def converts_node mapped_iff intro: leaf_convert clauses_convert)
qed

lemma insert_converts:
  assumes "2 \<le> length cs" "leaf_of [SqlTable] (hd cs)" "values_ok (last cs)"
    "list_all insert_columns_ok (butlast (tl cs))"
  shows "list_all converts cs"
proof -
  obtain t us where cs: "cs = t # us" "us \<noteq> []"
    using assms(1) by (cases cs; cases "tl cs") auto
  have "list_all converts (butlast us)" "converts (last us)" "converts t"
    using assms(2-) cs by (auto intro: values_converts leaf_convert list_converts [OF _ insert_columns_converts])
  then have "list_all converts (butlast us @ [last us])" by simp
  with cs \<open>converts t\<close> show ?thesis by simp
qed

lemma statement_converts: "statement_ok n \<Longrightarrow> converts n"
proof (cases "query_ok n \<or> delete_ok n")
  case False
  assume "statement_ok n"
  with False show ?thesis
    by (cases n rule: statement_ok.cases)
      (auto simp: converts_node mapped_iff length_Suc_conv numeral_2_eq_2 le_Suc_eq
        intro: insert_converts [unfolded numeral_2_eq_2] leaf_convert leaves_convert created_converts altered_converts list_converts [OF _ query_converts])
qed (auto intro: query_converts delete_converts)


section \<open>Active columns\<close>

text \<open>The texts of the column nodes of a tree, parent before children, left to right.\<close>

fun ir_columns :: "ir_node \<Rightarrow> string8 list" where
  "ir_columns (IR_Node ty v cs) = (if ty = IrColumn then [v] else []) @ concat (map ir_columns cs)"

lemma push_unless_exists_iff: "push_unless_exists used v = (if v \<in> set used then used else used @ [v])"
  by (auto simp: push_unless_exists_def list_ex_iff)

lemma active_columns_fold:
  "ir_create_active_column_list n used = fold (\<lambda>v used. push_unless_exists used v) (ir_columns n) used"
proof (induction n used rule: ir_create_active_column_list.induct)
  case (1 ty v cs used)
  have step: "fold ir_create_active_column_list cs acc =
     fold (\<lambda>v used. push_unless_exists used v) (concat (map ir_columns cs)) acc"
    if "\<And>x acc. x \<in> set cs \<Longrightarrow> ir_create_active_column_list x acc =
        fold (\<lambda>v used. push_unless_exists used v) (ir_columns x) acc" for acc cs
    using that by (induction cs arbitrary: acc) auto
  show ?case using step [of cs] 1 by simp
qed

lemma fold_push_unless_exists:
  "fold (\<lambda>v used. push_unless_exists used v) vs used =
     used @ filter (\<lambda>v. v \<notin> set used) (rev (remdups (rev vs)))"
proof (induction vs rule: rev_induct)
  case (snoc v vs)
  then show ?case by (auto simp: push_unless_exists_iff)
qed simp

text \<open>\<open>ir_create_active_column_list\<close> keeps the columns it is given and appends the columns
  the tree mentions that are not among them, each once, in the order of their first mention.\<close>

theorem ir_create_active_column_list_spec:
  "ir_create_active_column_list n used =
     used @ filter (\<lambda>v. v \<notin> set used) (rev (remdups (rev (ir_columns n))))"
  by (simp only: active_columns_fold fold_push_unless_exists)

end
