(* ===== verification/Base_Numbers.thy ===== *)
theory Base_Numbers
  imports Base_Strings
begin

text \<open>
  Strings and integers, string lists, searching and splitting, from
  \<open>src/src/base/base_strings.c\<close>. A \<open>U64\<close> that is read from a string wraps, so
  it is a word; one that is printed is only divided, so it is a natural number below
  \<open>2 ^ 64\<close>. \<open>str8_from_u64\<close> fills a buffer that was allocated without being
  zeroed: a byte that is never written is \<^term>\<open>None\<close>.
\<close>

section \<open>String to integer\<close>

definition sign_from_str8 :: "string8 \<Rightarrow> int \<times> string8" where
  "sign_from_str8 s =
     (let signs = takeWhile (\<lambda>c. c = CHR ''-'' \<or> c = CHR ''+'') s;
          neg_count = length (filter (\<lambda>c. c = CHR ''-'') signs)
      in (if neg_count AND 1 = 1 then -1 else 1, str8_skip s (length signs)))"

definition str8_is_integer :: "string8 \<Rightarrow> nat \<Rightarrow> bool" where
  "str8_is_integer s radix \<longleftrightarrow>
     s \<noteq> [] \<and> 1 < radix \<and> radix \<le> 16 \<and>
     list_all (\<lambda>c. \<not> (\<not> byte c < 0x80 \<or> integer_symbol_reverse ! byte c \<ge> radix)) s"

definition u64_from_str8 :: "string8 \<Rightarrow> nat \<Rightarrow> u64" where
  "u64_from_str8 s radix =
     (if 1 < radix \<and> radix \<le> 16
      then foldl (\<lambda>x c. x * of_nat radix + of_nat (integer_symbol_reverse ! (byte c AND 0x7F))) 0 s
      else 0)"

definition s64_from_str8 :: "string8 \<Rightarrow> nat \<Rightarrow> s64" where
  "s64_from_str8 s radix =
     (let (sign, tail) = sign_from_str8 s in sint (u64_from_str8 tail radix * word_of_int sign))"

definition try_u64_from_str8_c_rules :: "string8 \<Rightarrow> u64 option" where
  "try_u64_from_str8_c_rules s =
     (if str8_is_integer s 10 then Some (u64_from_str8 s 10)
      else
        let hex_string = str8_skip s 2 in
        if str8_match (str8_prefix s 2) ''0x'' match_exact \<and> str8_is_integer hex_string 0x10
        then Some (u64_from_str8 hex_string 0x10)
        else if str8_match (str8_prefix s 2) ''0b'' match_exact \<and> str8_is_integer hex_string 2
        then Some (u64_from_str8 hex_string 2)
        else
          let oct_string = str8_skip s 1 in
          if str8_match (str8_prefix s 1) ''0'' match_exact \<and> str8_is_integer hex_string 8
          then Some (u64_from_str8 oct_string 8)
          else None)"

definition try_s64_from_str8_c_rules :: "string8 \<Rightarrow> s64 option" where
  "try_s64_from_str8_c_rules s =
     (let (sign, tail) = sign_from_str8 s in
      map_option (\<lambda>x. sint (x * word_of_int sign)) (try_u64_from_str8_c_rules tail))"

section \<open>Integer to string\<close>

text \<open>The loop that counts the digits; for a radix below 2, where the C loop divides by zero
  or does not end, the model stops.\<close>

function needed_digits :: "nat \<Rightarrow> nat \<Rightarrow> nat" where
  "needed_digits radix u =
     (if u div radix = 0 \<or> radix < 2 then 1 else needed_digits radix (u div radix) + 1)"
  by pat_completeness auto
termination
  by (relation "measure snd") (auto simp: div_greater_zero_iff)

declare needed_digits.simps [simp del]

definition radix_prefix :: "nat \<Rightarrow> string8" where
  "radix_prefix radix = (if radix = 16 then ''0x'' else if radix = 8 then ''0o'' else if radix = 2 then ''0b'' else [])"

definition digit_group_size :: "nat \<Rightarrow> nat" where
  "digit_group_size radix = (if radix = 2 \<or> radix = 8 \<or> radix = 16 then 4 else 3)"

definition needed_separators :: "nat \<Rightarrow> nat \<Rightarrow> char \<Rightarrow> nat" where
  "needed_separators radix digits sep =
     (if sep \<noteq> CHR 0x00 then
        let n = digits div digit_group_size radix
        in if n > 0 \<and> digits mod digit_group_size radix = 0 then n - 1 else n
      else 0)"

text \<open>The loop that fills the buffer from its end.\<close>

function fill_digits ::
  "char option list \<Rightarrow> nat \<Rightarrow> nat \<Rightarrow> nat \<Rightarrow> int \<Rightarrow> char \<Rightarrow> char option list" where
  "fill_digits buf idx radix u until_sep sep =
     (if idx < length buf then
        let (c, u, until_sep) =
              (if until_sep = 0 \<and> sep \<noteq> CHR 0x00 then (sep, u, int (digit_group_size radix) + 1)
               else (char_to_lower (integer_symbols ! (u mod radix)), u div radix, until_sep));
            buf = buf[length buf - idx - 1 := Some c]
        in if u = 0 then buf else fill_digits buf (idx + 1) radix u (until_sep - 1) sep
      else buf)"
  by pat_completeness auto
termination
  by (relation "measure (\<lambda>(buf, idx, _). length buf - idx)") (auto split: if_splits)

declare fill_digits.simps [simp del]

definition write_at :: "'a option list \<Rightarrow> nat \<Rightarrow> 'a list \<Rightarrow> 'a option list" where
  "write_at buf i xs = take i buf @ map Some xs @ drop (i + length xs) buf"

definition str8_from_u64 :: "nat \<Rightarrow> nat \<Rightarrow> nat \<Rightarrow> char \<Rightarrow> char option list" where
  "str8_from_u64 u radix min_digits sep =
     (let prefix = radix_prefix radix;
          digits = needed_digits radix u;
          needed_leading_0s = (if min_digits > digits then min_digits - digits else 0);
          size = length prefix + needed_leading_0s +
                 needed_separators radix (digits + needed_leading_0s) sep + digits;
          buf = fill_digits (replicate size None) 0 radix u (int (digit_group_size radix)) sep;
          buf = write_at buf (length prefix) (replicate needed_leading_0s CHR ''0'')
      in write_at buf 0 prefix)"

definition str8_from_s64 :: "int \<Rightarrow> nat \<Rightarrow> nat \<Rightarrow> char \<Rightarrow> char option list" where
  "str8_from_s64 i radix min_digits sep =
     (if i < 0 then Some CHR ''-'' # str8_from_u64 (nat ((- i) mod 2 ^ 64)) radix min_digits sep
      else str8_from_u64 (nat i) radix min_digits sep)"

section \<open>Lists, searching, splitting\<close>

text \<open>\<open>str8_list_join\<close> with \<open>pre\<close>, \<open>sep\<close> and \<open>post\<close>.\<close>

fun join_with :: "string8 \<Rightarrow> string8 list \<Rightarrow> string8" where
  "join_with sep [] = []"
| "join_with sep [s] = s"
| "join_with sep (s # t # ss) = s @ sep @ join_with sep (t # ss)"

definition str8_list_join :: "string8 list \<Rightarrow> string8 \<Rightarrow> string8 \<Rightarrow> string8 \<Rightarrow> string8" where
  "str8_list_join ss pre sep post = pre @ join_with sep ss @ post"

text \<open>\<open>str8_find_needle\<close>: the first position from \<open>start\<close> on where the needle matches,
  the size of the string if there is none.\<close>

definition sloppy :: "match_flags \<Rightarrow> match_flags" where
  "sloppy f = f\<lparr>right_side_sloppy := True\<rparr>"

function find_needle_from :: "string8 \<Rightarrow> nat \<Rightarrow> nat \<Rightarrow> char \<Rightarrow> string8 \<Rightarrow> match_flags \<Rightarrow> nat" where
  "find_needle_from s p stop first_char needle_tail f =
     (if p < stop then
        if (if case_insensitive f then char_to_upper (s ! p) else s ! p) = first_char \<and>
           str8_match (drop (p + 1) s) needle_tail f
        then p
        else find_needle_from s (p + 1) stop first_char needle_tail f
      else length s)"
  by pat_completeness auto
termination by (relation "measure (\<lambda>(s, p, stop, _). stop - p)") auto

declare find_needle_from.simps [simp del]

definition str8_find_needle :: "string8 \<Rightarrow> nat \<Rightarrow> string8 \<Rightarrow> match_flags \<Rightarrow> nat" where
  "str8_find_needle s start needle f =
     (let stop = max (length s + 1) (length needle) - length needle;
          f' = sloppy f in
      if needle \<noteq> [] then
        find_needle_from s start stop
          (if case_insensitive f' then char_to_upper (hd needle) else hd needle) (str8_skip needle 1) f'
      else if start < stop then start else length s)"

section \<open>Digits\<close>

text \<open>The digits of a number, most significant first.\<close>

function digits_of :: "nat \<Rightarrow> nat \<Rightarrow> nat list" where
  "digits_of radix u =
     (if u div radix = 0 \<or> radix < 2 then [u mod radix] else digits_of radix (u div radix) @ [u mod radix])"
  by pat_completeness auto
termination
  by (relation "measure snd") (auto simp: div_greater_zero_iff)

declare digits_of.simps [simp del]

definition digit_char :: "nat \<Rightarrow> char" where
  "digit_char d = char_to_lower (integer_symbols ! d)"

lemma needed_digits_length: "needed_digits radix u = length (digits_of radix u)"
  by (induction radix u rule: digits_of.induct) (subst needed_digits.simps, subst digits_of.simps, auto)

lemma digits_of_bound: "2 \<le> radix \<Longrightarrow> d \<in> set (digits_of radix u) \<Longrightarrow> d < radix"
proof (induction radix u rule: digits_of.induct)
  case (1 radix u)
  then show ?case by (subst (asm) (2) digits_of.simps) (auto split: if_splits)
qed

lemma digits_of_value:
  "2 \<le> radix \<Longrightarrow> foldl (\<lambda>x d. x * radix + d) 0 (digits_of radix u) = u"
proof (induction radix u rule: digits_of.induct)
  case (1 radix u)
  then show ?case
    by (subst digits_of.simps) (auto simp: div_eq_0_iff)
qed

lemma fill_digits_nosep:
  assumes "2 \<le> radix" "idx + length (digits_of radix u) \<le> length buf"
  shows "fill_digits buf idx radix u until_sep (CHR 0x00) =
     take (length buf - idx - length (digits_of radix u)) buf @
     map (Some \<circ> digit_char) (digits_of radix u) @ drop (length buf - idx) buf"
  using assms
proof (induction radix u arbitrary: buf idx until_sep rule: digits_of.induct)
  case (1 radix u)
  let ?k = "length buf - idx - 1"
  let ?buf = "buf[?k := Some (digit_char (u mod radix))]"
  have lt: "idx < length buf"
    using 1(3) by (subst (asm) digits_of.simps) (auto split: if_splits)
  have upd: "?buf = take ?k buf @ Some (digit_char (u mod radix)) # drop (length buf - idx) buf"
    using lt by (simp add: upd_conv_take_nth_drop Suc_diff_Suc)
  show ?case
  proof (cases "u div radix = 0")
    case True
    then have "fill_digits buf idx radix u until_sep (CHR 0x00) = ?buf"
      using lt by (subst fill_digits.simps) (simp add: digit_char_def)
    moreover have "digits_of radix u = [u mod radix]" using True by (subst digits_of.simps) simp
    ultimately show ?thesis using upd by (simp add: diff_diff_add)
  next
    case False
    have d: "digits_of radix u = digits_of radix (u div radix) @ [u mod radix]"
      using False 1(2) by (subst digits_of.simps) simp
    have f: "fill_digits buf idx radix u until_sep (CHR 0x00) =
        fill_digits ?buf (idx + 1) radix (u div radix) (until_sep - 1) (CHR 0x00)"
      using lt False by (subst fill_digits.simps) (simp add: digit_char_def)
    have "idx + 1 + length (digits_of radix (u div radix)) \<le> length ?buf"
      using 1(3) d by simp
    from 1(1) [OF _ _ this] False 1(2) have
      "fill_digits ?buf (idx + 1) radix (u div radix) (until_sep - 1) (CHR 0x00) =
       take (length buf - (idx + 1) - length (digits_of radix (u div radix))) ?buf @
       map (Some \<circ> digit_char) (digits_of radix (u div radix)) @ drop (length buf - (idx + 1)) ?buf"
      by simp
    also have "drop (length buf - (idx + 1)) ?buf = Some (digit_char (u mod radix)) # drop (length buf - idx) buf"
      unfolding upd using lt by simp
    also have "take (length buf - (idx + 1) - length (digits_of radix (u div radix))) ?buf =
        take (length buf - idx - length (digits_of radix u)) buf"
      using d by (simp add: take_update_cancel)
    finally show ?thesis using f d by simp
  qed
qed

lemma str8_from_u64_plain:
  assumes "2 \<le> radix"
  shows "str8_from_u64 u radix 0 (CHR 0x00) =
     map Some (radix_prefix radix @ map digit_char (digits_of radix u))"
proof -
  let ?n = "length (radix_prefix radix)" and ?ds = "digits_of radix u"
  have "fill_digits (replicate (?n + length ?ds) None) 0 radix u i (CHR 0x00) =
      replicate ?n None @ map (Some \<circ> digit_char) ?ds" for i
    using assms by (simp add: fill_digits_nosep)
  then show ?thesis
    by (simp add: str8_from_u64_def Let_def needed_digits_length needed_separators_def write_at_def)
qed

lemma digit_char_table: "map digit_char [0..<16] = ''0123456789abcdef''"
  by (simp add: upt_rec digit_char_def integer_symbols_def char_to_lower_def char_is_upper_def char_of_def bit_0)

lemma digit_char_reverse:
  assumes "d < 16"
  shows "byte (digit_char d) < 128 \<and> integer_symbol_reverse ! byte (digit_char d) = d"
proof -
  have eq: "digit_char d = ''0123456789abcdef'' ! d"
    using arg_cong [OF digit_char_table, of "\<lambda>xs. xs ! d"] assms by simp
  have "\<forall>i \<in> set [0..<16]. byte (''0123456789abcdef'' ! i) < 128 \<and>
      integer_symbol_reverse ! byte (''0123456789abcdef'' ! i) = i"
    by code_simp
  then show ?thesis using assms eq by simp
qed

lemma and_7F: "n < 128 \<Longrightarrow> n AND 0x7F = (n :: nat)"
  using take_bit_eq_mask [of 7 n] by (simp add: mask_eq_exp_minus_1 take_bit_nat_eq_self)

lemma u64_from_digits:
  assumes "1 < radix" "radix \<le> 16" "list_all (\<lambda>d. d < radix) ds"
  shows "u64_from_str8 (map digit_char ds) radix = of_nat (foldl (\<lambda>x d. x * radix + d) 0 ds)"
proof -
  have "foldl (\<lambda>x c. x * of_nat radix + of_nat (integer_symbol_reverse ! (byte c AND 0x7F))) (of_nat x)
      (map digit_char ds) = (of_nat (foldl (\<lambda>x d. x * radix + d) x ds) :: u64)" for x
    using assms(3)
  proof (induction ds arbitrary: x)
    case (Cons d ds)
    then have "integer_symbol_reverse ! (byte (digit_char d) AND 0x7F) = d"
      using digit_char_reverse [of d] assms(2) by (simp add: and_7F)
    then show ?case using Cons by (simp add: of_nat_add [symmetric] of_nat_mult [symmetric] del: of_nat_add of_nat_mult)
  qed simp
  from this [of 0] show ?thesis using assms by (simp add: u64_from_str8_def)
qed

lemma digits_are_integer:
  assumes "1 < radix" "radix \<le> 16" "ds \<noteq> []" "list_all (\<lambda>d. d < radix) ds"
  shows "str8_is_integer (map digit_char ds) radix"
  using assms digit_char_reverse by (fastforce simp: str8_is_integer_def list_all_iff not_le)

lemma digits_of_all:
  assumes "1 < radix"
  shows "digits_of radix u \<noteq> [] \<and> list_all (\<lambda>d. d < radix) (digits_of radix u)"
  using digits_of_bound [of radix _ u] assms
  by (auto simp: list_all_iff) (metis digits_of.simps list.distinct(1) snoc_eq_iff_butlast)

lemma u64_digits_roundtrip:
  assumes "1 < radix" "radix \<le> 16"
  shows "u64_from_str8 (map digit_char (digits_of radix u)) radix = of_nat u"
  using u64_from_digits [OF assms] digits_of_all [OF assms(1), of u] digits_of_value [of radix u] assms by simp

lemma prefix_not_integer: "\<not> str8_is_integer (CHR ''0'' # CHR ''x'' # s) 10" "\<not> str8_is_integer (CHR ''0'' # CHR ''b'' # s) 10"
proof -
  have "integer_symbol_reverse ! byte CHR ''x'' \<ge> 10" "integer_symbol_reverse ! byte CHR ''b'' \<ge> 10"
    by code_simp+
  then show "\<not> str8_is_integer (CHR ''0'' # CHR ''x'' # s) 10" "\<not> str8_is_integer (CHR ''0'' # CHR ''b'' # s) 10"
    by (auto simp: str8_is_integer_def)
qed

lemma map_the_Some: "map (the \<circ> (Some \<circ> f)) xs = map f xs"
  by simp

lemma list_all_written: "list_all (\<lambda>b. \<exists>y. b = Some y) (map Some xs)" "list_all (\<lambda>b. \<exists>y. b = Some y) (map (Some \<circ> f) xs)"
  by (induction xs) auto



text \<open>What the octal branch of \<open>try_u64_from_str8_c_rules\<close> does. A string of octal
  digits after \<open>0\<close> is a decimal integer and is read as one, so \<open>017\<close> is 17; the branch
  itself tests the string without its first two bytes but converts the one without its first, so
  \<open>0z17\<close> is accepted, with a value that counts the letter as the digit 255.\<close>

theorem try_u64_octal:
  "try_u64_from_str8_c_rules ''017'' = Some 17 \<and>
   try_u64_from_str8_c_rules ''0z17'' = Some (255 * 64 + 1 * 8 + 7)"
  by code_simp

text \<open>With a digit group separator and more minimal digits than the number has, one byte of the
  buffer \<open>str8_from_u64\<close> returns is never written: the separators are counted over the leading
  zeros too, but only digits of the number are followed by one.\<close>

theorem str8_from_u64_unwritten:
  "str8_from_u64 5 10 6 CHR '','' = map Some ''00000'' @ [None, Some CHR ''5'']"
  by code_simp

end
