(* ===== verification/Base_Split.thy ===== *)
theory Base_Split
  imports Base_Numbers
begin

text \<open>
  \<open>str8_split\<close> of \<open>src/src/base/base_strings.c\<close>, used to read CSV lines, the words of
  a command and the lines of a result. The split characters are a string; the flags are two
  booleans. Where the source reads a byte before the string, or the first of no split characters,
  the result is \<^term>\<open>None\<close>.
\<close>

section \<open>Splitting\<close>

record split_flags =
  keep_empties :: bool
  respect_quotes :: bool

definition split_words :: split_flags where
  "split_words = \<lparr>keep_empties = False, respect_quotes = False\<rparr>"

definition split_fields :: split_flags where
  "split_fields = \<lparr>keep_empties = True, respect_quotes = False\<rparr>"

definition split_csv :: split_flags where
  "split_csv = \<lparr>keep_empties = True, respect_quotes = True\<rparr>"

text \<open>The length of the rest of a quoted field: up to and with the closing quote, doubled quotes
  skipped.\<close>

fun split_quoted :: "string8 \<Rightarrow> nat" where
  "split_quoted [] = 0"
| "split_quoted (c # cs) =
     (if c = CHR 0x22
      then (case cs of
              [] \<Rightarrow> 1
            | d # ds \<Rightarrow> if d = CHR 0x22 then 2 + split_quoted ds else 1)
      else 1 + split_quoted cs)"

definition split_field_length :: "string8 \<Rightarrow> split_flags \<Rightarrow> string8 \<Rightarrow> nat" where
  "split_field_length delims f s =
     (if respect_quotes f \<and> s \<noteq> [] \<and> hd s = CHR 0x22 then 1 + split_quoted (tl s)
      else length (takeWhile (\<lambda>c. c \<notin> set delims) s))"

function str8_split_loop :: "string8 \<Rightarrow> split_flags \<Rightarrow> string8 \<Rightarrow> string8 list" where
  "str8_split_loop delims f s =
     (let s' = (if \<not> keep_empties f then dropWhile (\<lambda>c. c \<in> set delims) s else s) in
      if s' = [] then []
      else
        let n = split_field_length delims f s';
            field = take n s'
        in (if keep_empties f \<or> field \<noteq> [] then [field] else []) @
           str8_split_loop delims f (drop (n + 1) s'))"
  by pat_completeness auto
termination
proof (relation "measure (\<lambda>(delims, f, s). length s)", goal_cases)
  case (2 delims f s s' n field)
  then have "length s' \<le> length s" "s' \<noteq> []"
    using length_dropWhile_le [of "\<lambda>c. c \<in> set delims" s] by auto
  then show ?case by (cases s') auto
qed simp

declare str8_split_loop.simps [simp del]

definition str8_split :: "string8 \<Rightarrow> string8 \<Rightarrow> split_flags \<Rightarrow> string8 list option" where
  "str8_split s delims f =
     (if \<not> keep_empties f then Some (str8_split_loop delims f s)
      else if s = [] \<or> delims = [] then None
      else Some (str8_split_loop delims f s @ (if last s = hd delims then [[]] else [])))"

section \<open>Words\<close>

lemma str8_split_words_total: "\<not> keep_empties f \<Longrightarrow> str8_split s delims f = Some (str8_split_loop delims f s)"
  by (simp add: str8_split_def)

lemma str8_split_loop_words:
  "w \<in> set (str8_split_loop delims split_words s) \<Longrightarrow>
   w \<noteq> [] \<and> set w \<subseteq> set s \<and> set w \<inter> set delims = {}"
proof (induction delims "split_words" s rule: str8_split_loop.induct)
  case (1 delims s)
  let ?s = "dropWhile (\<lambda>c. c \<in> set delims) s"
  let ?n = "split_field_length delims split_words ?s"
  have s: "set ?s \<subseteq> set s" by (auto dest: set_dropWhileD)
  have take: "take ?n ?s = takeWhile (\<lambda>c. c \<notin> set delims) ?s"
    by (simp add: split_field_length_def split_words_def takeWhile_eq_take [symmetric])
  have step: "str8_split_loop delims split_words s =
     (if ?s = [] then [] else (if take ?n ?s \<noteq> [] then [take ?n ?s] else []) @
        str8_split_loop delims split_words (drop (?n + 1) ?s))"
    by (subst str8_split_loop.simps) (simp add: split_words_def Let_def)
  from 1(2) consider "?s \<noteq> []" "w = take ?n ?s" "w \<noteq> []"
    | "?s \<noteq> []" "w \<in> set (str8_split_loop delims split_words (drop (?n + 1) ?s))"
    unfolding step by (auto split: if_splits)
  then show ?case
  proof cases
    case 1
    then show ?thesis using s take by (auto dest: set_takeWhileD)
  next
    case 2
    with 1(1) [of ?s ?n "take ?n ?s"] have "w \<noteq> [] \<and> set w \<subseteq> set (drop (?n + 1) ?s) \<and> set w \<inter> set delims = {}"
      by (simp add: split_words_def)
    then show ?thesis using s set_drop_subset [of "?n + 1" ?s] by blast
  qed
qed

section \<open>Fields\<close>

lemma takeWhile_to_delim:
  assumes "d \<notin> set x"
  shows "length (takeWhile (\<lambda>c. c \<noteq> d) (x @ d # ys)) = length x"
    and "length (takeWhile (\<lambda>c. c \<noteq> d) x) = length x"
  using assms by (induction x) auto

lemma split_field_length_fields:
  assumes "d \<notin> set x"
  shows "split_field_length [d] split_fields (x @ d # ys) = length x"
    and "split_field_length [d] split_fields x = length x"
  using takeWhile_to_delim [OF assms] by (simp_all add: split_field_length_def split_fields_def)

lemma str8_split_loop_fields:
  assumes "d \<notin> set x"
  shows "str8_split_loop [d] split_fields (x @ d # ys) = x # str8_split_loop [d] split_fields ys"
    and "x \<noteq> [] \<Longrightarrow> str8_split_loop [d] split_fields x = [x]"
    and "str8_split_loop [d] split_fields [] = []"
  using split_field_length_fields [OF assms]
  by (subst str8_split_loop.simps; simp add: split_fields_def Let_def str8_split_loop.simps)+

lemma join_with_split_loop:
  assumes "\<forall>x \<in> set xss. d \<notin> set x" "join_with [d] xss \<noteq> []"
  shows "str8_split_loop [d] split_fields (join_with [d] xss) @
     (if last (join_with [d] xss) = d then [[]] else []) = xss"
  using assms
proof (induction "[d]" xss rule: join_with.induct)
  case (2 s)
  then show ?case using str8_split_loop_fields(2) [of d s] by (auto dest: last_in_set)
next
  case (3 s t ss)
  let ?r = "join_with [d] (t # ss)"
  have loop: "str8_split_loop [d] split_fields (join_with [d] (s # t # ss)) =
      s # str8_split_loop [d] split_fields ?r"
    using str8_split_loop_fields(1) [of d s ?r] 3(2) by simp
  show ?case
  proof (cases "?r = []")
    case True
    then have "t = [] \<and> ss = []" by (cases ss) auto
    then show ?thesis using loop by (simp add: str8_split_loop_fields(3) [of d "[]"])
  next
    case False
    then have "last (join_with [d] (s # t # ss)) = last ?r" by simp
    then show ?thesis using 3(1) False 3(2) loop by simp
  qed
qed simp

text \<open>Joining fields with a delimiter that occurs in none of them and splitting the result
  with \<open>StringSplitFlag_KeepEmpties\<close> gives the fields back, empty ones included: at the start,
  in the middle and at the end. (The empty string alone is excluded: there the source reads the
  byte before the string.)\<close>

theorem str8_split_join_roundtrip:
  assumes "\<forall>x \<in> set xss. d \<notin> set x" "xss \<noteq> []" "xss \<noteq> [[]]"
  shows "str8_split (str8_list_join xss [] [d] []) [d] split_fields = Some xss"
proof -
  have "join_with [d] xss \<noteq> []"
    using assms(2,3) by (cases "([d], xss)" rule: join_with.cases) auto
  then show ?thesis
    using join_with_split_loop [OF assms(1)]
    by (simp add: str8_split_def str8_list_join_def) (simp add: split_fields_def)
qed

lemma str8_split_join_roundtrip_witness:
  "str8_split (str8_list_join [[], ''ab'', [], ''c'', []] [] '','' []) '','' split_fields =
     Some [[], ''ab'', [], ''c'', []]"
  using str8_split_join_roundtrip [of "[[], ''ab'', [], ''c'', []]" "CHR '',''"] by simp

end
