(* ===== verification/Pg_Params.thy ===== *)
theory Pg_Params
  imports Base_Split Sql_Tokenizer
begin

text \<open>
  The parameter handling of the PostgreSQL front end, the last part of
  \<open>src/src/server/pg_protocol.c\<close>: a bound value is turned into the text of an SQL
  literal, and the literals replace the placeholders of the statement's text. The formatting of
  floating point values is that of the C library and an argument of the definitions.
\<close>

section \<open>Object ids\<close>

abbreviation "PG_OID_BOOL \<equiv> (16 :: u32)"
abbreviation "PG_OID_INT8 \<equiv> (20 :: u32)"
abbreviation "PG_OID_INT2 \<equiv> (21 :: u32)"
abbreviation "PG_OID_INT4 \<equiv> (23 :: u32)"
abbreviation "PG_OID_TEXT \<equiv> (25 :: u32)"
abbreviation "PG_OID_FLOAT4 \<equiv> (700 :: u32)"
abbreviation "PG_OID_FLOAT8 \<equiv> (701 :: u32)"
abbreviation "PG_OID_UNKNOWN \<equiv> (705 :: u32)"
abbreviation "PG_OID_BPCHAR \<equiv> (1042 :: u32)"
abbreviation "PG_OID_VARCHAR \<equiv> (1043 :: u32)"

section \<open>Big-endian numbers\<close>

definition u8_of_char :: "char \<Rightarrow> u8" where
  "u8_of_char c = of_nat (byte c)"

definition char_of_u8 :: "u8 \<Rightarrow> char" where
  "char_of_u8 w = byte_chr (unat w)"

definition pg_be32 :: "u32 \<Rightarrow> string8" where
  "pg_be32 v = map char_of_u8 [ucast (drop_bit 24 v), ucast (drop_bit 16 v), ucast (drop_bit 8 v), ucast v]"

definition pg_be16 :: "u16 \<Rightarrow> string8" where
  "pg_be16 v = map char_of_u8 [ucast (drop_bit 8 v), ucast v]"

text \<open>\<open>pg_read_be32\<close> reads the four bytes at its pointer.\<close>

definition pg_read_be32 :: "string8 \<Rightarrow> u32" where
  "pg_read_be32 b =
     push_bit 24 (ucast (u8_of_char (b ! 0))) OR push_bit 16 (ucast (u8_of_char (b ! 1))) OR
     push_bit 8 (ucast (u8_of_char (b ! 2))) OR ucast (u8_of_char (b ! 3))"

definition read_be16 :: "string8 \<Rightarrow> u16" where
  "read_be16 b = push_bit 8 (ucast (u8_of_char (b ! 0))) OR ucast (u8_of_char (b ! 1))"

lemma u8_of_char_of_u8 [simp]: "u8_of_char (char_of_u8 w) = w"
proof -
  have "unat w < 256" using unsigned_less [of w] by simp
  then show ?thesis by (simp add: u8_of_char_def char_of_u8_def)
qed

lemma char_of_u8_of_char [simp]: "char_of_u8 (u8_of_char c) = c"
  by (simp add: u8_of_char_def char_of_u8_def unat_of_nat take_bit_nat_def)

lemma length_pg_be [simp]: "length (pg_be32 v) = 4" "length (pg_be16 w) = 2"
  by (simp_all add: pg_be32_def pg_be16_def)

lemma be_bits:
  fixes v :: "'b::len word"
  shows "bit (push_bit k (ucast (ucast (drop_bit k v) :: u8)) :: 'b word) n \<longleftrightarrow>
     n < LENGTH('b) \<and> k \<le> n \<and> n < k + 8 \<and> bit v n"
  and "bit (ucast (ucast v :: u8) :: 'b word) n \<longleftrightarrow> n < LENGTH('b) \<and> n < 8 \<and> bit v n"
  by (auto simp: bit_simps)

lemma pg_read_be32_be32 [simp]: "pg_read_be32 (pg_be32 v @ rest) = v"
  unfolding pg_read_be32_def pg_be32_def
  by (rule bit_word_eqI) (auto simp: bit_or_iff be_bits)

lemma read_be16_be16 [simp]: "read_be16 (pg_be16 v @ rest) = v"
  unfolding read_be16_def pg_be16_def
  by (rule bit_word_eqI) (auto simp: bit_or_iff be_bits)

lemma bit_byte_at:
  fixes w :: u8
  shows "bit (push_bit k (ucast w :: 'b::len word)) n \<longleftrightarrow> n < LENGTH('b) \<and> k \<le> n \<and> n < k + 8 \<and> bit w (n - k)"
  and "bit (ucast w :: 'b word) n \<longleftrightarrow> n < LENGTH('b) \<and> n < 8 \<and> bit w n"
  using bit_imp_le_length [of w n] bit_imp_le_length [of w "n - k"] by (auto simp: bit_simps)

lemma bit_read_be32:
  "bit (pg_read_be32 [a, b, c, d]) n \<longleftrightarrow>
     n < 32 \<and> (if n < 8 then bit (u8_of_char d) n else if n < 16 then bit (u8_of_char c) (n - 8)
       else if n < 24 then bit (u8_of_char b) (n - 16) else bit (u8_of_char a) (n - 24))"
  unfolding pg_read_be32_def bit_or_iff bit_byte_at by auto

lemma pg_be32_read: "pg_be32 (pg_read_be32 [a, b, c, d]) = [a, b, c, d]"
proof -
  let ?v = "pg_read_be32 [a, b, c, d]"
  have "ucast (drop_bit 24 ?v) = u8_of_char a" "ucast (drop_bit 16 ?v) = u8_of_char b"
    "ucast (drop_bit 8 ?v) = u8_of_char c" "ucast ?v = u8_of_char d"
    by (rule bit_word_eqI; simp add: bit_unsigned_iff bit_drop_bit_eq bit_read_be32)+
  then show ?thesis by (simp add: pg_be32_def)
qed

section \<open>Quoting\<close>

text \<open>\<open>pg_quote_sql_string_literal\<close>: the counting pass only sizes the buffer; the copy pass
  doubles every quote.\<close>

definition double_quotes :: "string8 \<Rightarrow> string8" where
  "double_quotes v = concat (map (\<lambda>c. if c = quote then [quote, quote] else [c]) v)"

definition pg_quote_sql_string_literal :: "string8 \<Rightarrow> string8" where
  "pg_quote_sql_string_literal v = [quote] @ double_quotes v @ [quote]"

section \<open>Numeric text\<close>

text \<open>The loop of \<open>pg_text_looks_numeric\<close>, with the two flags it keeps.\<close>

fun looks_numeric_loop :: "bool \<Rightarrow> bool \<Rightarrow> string8 \<Rightarrow> bool" where
  "looks_numeric_loop has_digit has_dot [] = has_digit"
| "looks_numeric_loop has_digit has_dot (c # cs) =
     (if byte CHR ''0'' \<le> byte c \<and> byte c \<le> byte CHR ''9'' then looks_numeric_loop True has_dot cs
      else if c = CHR ''.'' \<and> \<not> has_dot then looks_numeric_loop has_digit True cs
      else False)"

definition pg_text_looks_numeric :: "string8 \<Rightarrow> bool" where
  "pg_text_looks_numeric s =
     (case s of
        [] \<Rightarrow> False
      | c # cs \<Rightarrow> looks_numeric_loop False False (if c = CHR ''+'' \<or> c = CHR ''-'' then cs else s))"

section \<open>Parameter to literal\<close>

text \<open>\<open>%d\<close>, \<open>%lld\<close> and \<open>%u\<close> of the formatting library.\<close>

definition fmt_unsigned :: "nat \<Rightarrow> string8" where
  "fmt_unsigned u = map digit_char (digits_of 10 u)"

definition fmt_signed :: "int \<Rightarrow> string8" where
  "fmt_signed i = (if i < 0 then CHR ''-'' # fmt_unsigned (nat (- i)) else fmt_unsigned (nat i))"

record float_fmt =
  fmt_f32 :: "u32 \<Rightarrow> string8"
  fmt_f64 :: "u64 \<Rightarrow> string8"

definition nul_error :: string8 where
  "nul_error = ''NUL bytes are not supported in parameter values''"

definition read_be64 :: "string8 \<Rightarrow> u64" where
  "read_be64 b = push_bit 32 (ucast (pg_read_be32 b)) OR ucast (pg_read_be32 (drop 4 b))"

text \<open>The binary format: the fixed-width types check the size, text is quoted.\<close>

definition binary_param :: "float_fmt \<Rightarrow> u32 \<Rightarrow> string8 \<Rightarrow> string8 + string8" where
  "binary_param ff oid raw =
     (if oid = PG_OID_INT2 then
        if length raw \<noteq> 2 then Inl ''malformed binary int2 parameter''
        else Inr (fmt_signed (sint (read_be16 raw)))
      else if oid = PG_OID_INT4 then
        if length raw \<noteq> 4 then Inl ''malformed binary int4 parameter''
        else Inr (fmt_signed (sint (pg_read_be32 raw)))
      else if oid = PG_OID_INT8 then
        if length raw \<noteq> 8 then Inl ''malformed binary int8 parameter''
        else Inr (fmt_signed (sint (read_be64 raw)))
      else if oid = PG_OID_FLOAT4 then
        if length raw \<noteq> 4 then Inl ''malformed binary float4 parameter''
        else Inr (fmt_f32 ff (pg_read_be32 raw))
      else if oid = PG_OID_FLOAT8 then
        if length raw \<noteq> 8 then Inl ''malformed binary float8 parameter''
        else Inr (fmt_f64 ff (read_be64 raw))
      else if oid = PG_OID_BOOL then
        if length raw \<noteq> 1 then Inl ''malformed binary bool parameter''
        else Inr (if raw ! 0 \<noteq> CHR 0x00 then ''1'' else ''0'')
      else if oid \<in> {PG_OID_TEXT, PG_OID_VARCHAR, PG_OID_BPCHAR, PG_OID_UNKNOWN, 0} then
        if CHR 0x00 \<in> set raw then Inl nul_error else Inr (pg_quote_sql_string_literal raw)
      else Inl (''binary-format parameter with OID '' @ fmt_unsigned (unat oid) @ '' is not supported''))"

definition text_param :: "u32 \<Rightarrow> string8 \<Rightarrow> string8 + string8" where
  "text_param oid raw =
     (if CHR 0x00 \<in> set raw then Inl nul_error
      else if oid \<in> {PG_OID_INT2, PG_OID_INT4, PG_OID_INT8, PG_OID_FLOAT4, PG_OID_FLOAT8} then
        if \<not> pg_text_looks_numeric raw
        then Inl (''invalid input syntax for numeric parameter: '' @ [quote] @ raw @ [quote])
        else Inr raw
      else if oid = PG_OID_BOOL then
        if str8_match raw ''t'' match_ci \<or> str8_match raw ''true'' match_ci \<or> str8_match raw ''1'' match_exact
        then Inr ''1''
        else if str8_match raw ''f'' match_ci \<or> str8_match raw ''false'' match_ci \<or> str8_match raw ''0'' match_exact
        then Inr ''0''
        else Inl (''invalid input syntax for boolean parameter: '' @ [quote] @ raw @ [quote])
      else if oid \<in> {PG_OID_TEXT, PG_OID_VARCHAR, PG_OID_BPCHAR} then Inr (pg_quote_sql_string_literal raw)
      else if pg_text_looks_numeric raw then Inr raw
      else Inr (pg_quote_sql_string_literal raw))"

definition pg_param_to_sql_literal ::
  "float_fmt \<Rightarrow> u32 \<Rightarrow> u16 \<Rightarrow> string8 \<Rightarrow> bool \<Rightarrow> string8 + string8" where
  "pg_param_to_sql_literal ff declared_oid format raw_value is_null =
     (if is_null then Inr ''NULL''
      else if format = 1 then binary_param ff declared_oid raw_value
      else text_param declared_oid raw_value)"

section \<open>Substitution\<close>

text \<open>The digits after a \<open>$\<close>; \<^term>\<open>None\<close> where the digit table would be
  read out of range.\<close>

fun count_digits :: "string8 \<Rightarrow> nat option" where
  "count_digits [] = Some 0"
| "count_digits (c # cs) =
     (case char_is_digit c 10 of
        None \<Rightarrow> None
      | Some d \<Rightarrow> if d then map_option Suc (count_digits cs) else Some 0)"

text \<open>The loop of \<open>pg_substitute_params\<close>: the position, the start of the run of text not
  yet copied, whether the position is in a string, and the parts pushed so far.\<close>

function substitute_loop ::
  "string8 \<Rightarrow> string8 list \<Rightarrow> nat \<Rightarrow> nat \<Rightarrow> bool \<Rightarrow> string8 list \<Rightarrow> string8 list option" where
  "substitute_loop s lits i run_start in_string parts =
     (if i < length s then
        let c = s ! i in
        if in_string then
          if c = quote then
            if i + 1 < length s \<and> s ! (i + 1) = quote
            then substitute_loop s lits (i + 2) run_start True parts
            else substitute_loop s lits (i + 1) run_start False parts
          else substitute_loop s lits (i + 1) run_start True parts
        else if c = quote then substitute_loop s lits (i + 1) run_start True parts
        else if c = CHR ''$'' \<and> i + 1 < length s then
          case count_digits (drop (i + 1) s) of
            None \<Rightarrow> None
          | Some 0 \<Rightarrow> substitute_loop s lits (i + 1) run_start False parts
          | Some n \<Rightarrow>
              let parts = (if i > run_start then parts @ [str8_substr s (r1u64 run_start i)] else parts);
                  num_end = i + 1 + n;
                  param_index = unat (u64_from_str8 (str8_substr s (r1u64 (i + 1) num_end)) 10);
                  part = (if param_index \<ge> 1 \<and> param_index \<le> length lits then lits ! (param_index - 1)
                          else str8_substr s (r1u64 i num_end))
              in substitute_loop s lits num_end num_end False (parts @ [part])
        else substitute_loop s lits (i + 1) run_start False parts
      else Some (if i > run_start then parts @ [str8_substr s (r1u64 run_start i)] else parts))"
  by pat_completeness auto
termination
  by (relation "measure (\<lambda>(s, _, i, _). length s - i)") auto

declare substitute_loop.simps [simp del]

definition pg_substitute_params :: "string8 \<Rightarrow> string8 list \<Rightarrow> string8 option" where
  "pg_substitute_params sql_text literals =
     map_option (\<lambda>parts. str8_list_join parts [] [] []) (substitute_loop sql_text literals 0 0 False [])"

section \<open>Command tags\<close>

definition first_word :: "string8 list \<Rightarrow> string8" where
  "first_word ws = (case ws of [] \<Rightarrow> [] | w # _ \<Rightarrow> w)"

definition blanks :: string8 where
  "blanks = [CHR '' '', CHR 0x09, CHR 0x0D, CHR 0x0A]"

text \<open>\<open>str8_split\<close> without \<open>KeepEmpties\<close> always returns (\<open>str8_split_words_total\<close>).\<close>

definition words_of :: "string8 \<Rightarrow> string8 list" where
  "words_of sql =
     (case str8_split (str8_skip_chop_whitespace sql) blanks split_words of None \<Rightarrow> [] | Some ws \<Rightarrow> ws)"

definition pg_looks_like_select :: "string8 \<Rightarrow> bool" where
  "pg_looks_like_select sql =
     (let first = first_word (words_of sql) in
      str8_match first ''select'' match_ci \<or> str8_match first ''explain'' match_ci \<or>
      str8_match first ''describe'' match_ci)"

definition pg_command_tag_from_sql :: "string8 \<Rightarrow> string8" where
  "pg_command_tag_from_sql sql =
     (let ws = words_of sql; first = first_word ws; second = first_word (drop 1 ws) in
      if str8_match first ''select'' match_ci then ''SELECT 0''
      else if str8_match first ''insert'' match_ci then ''INSERT 0 0''
      else if str8_match first ''delete'' match_ci then ''DELETE 0''
      else if str8_match first ''alter'' match_ci then ''ALTER TABLE''
      else if str8_match first ''drop'' match_ci then ''DROP INDEX''
      else if str8_match first ''describe'' match_ci then ''DESCRIBE''
      else if str8_match first ''explain'' match_ci then ''EXPLAIN''
      else if str8_match first ''import'' match_ci then ''IMPORT''
      else if str8_match first ''use'' match_ci then ''SET''
      else if str8_match first ''create'' match_ci then
        if str8_match second ''database'' match_ci then ''CREATE DATABASE''
        else if str8_match second ''index'' match_ci then ''CREATE INDEX''
        else ''CREATE TABLE''
      else ''OK'')"

section \<open>A quoted value is one token\<close>

lemma scan_string_quoted:
  assumes "post = [] \<or> hd post \<noteq> quote"
  shows "scan_string (double_quotes v @ quote # post) = Some (length (double_quotes v), quote \<in> set v)"
proof (induction v)
  case Nil
  then show ?case using assms by (auto simp: double_quotes_def split: list.splits)
qed (auto simp: double_quotes_def)

lemma unescape_double_quotes: "unescape_string (double_quotes v) = v"
  by (induction v) (auto simp: double_quotes_def)

lemma double_quotes_plain: "quote \<notin> set v \<Longrightarrow> double_quotes v = v"
  by (induction v) (auto simp: double_quotes_def)

lemma lex_string_quoted:
  assumes "post = [] \<or> hd post \<noteq> quote"
  shows "lex_string (pre @ pg_quote_sql_string_literal v @ post) (length pre) =
     LexNext [mk_token TString v (r1u64 (length pre) (length pre + length (pg_quote_sql_string_literal v)))]
       (length pre + length (pg_quote_sql_string_literal v))"
proof -
  let ?lit = "pg_quote_sql_string_literal v"
  have scan: "scan_string (drop (Suc (length pre)) (pre @ ?lit @ post)) =
      Some (length (double_quotes v), quote \<in> set v)"
    using scan_string_quoted [OF assms, of v] by (simp add: pg_quote_sql_string_literal_def)
  have "str8_substr (pre @ ?lit @ post)
      (r1u64 (Suc (length pre)) (Suc (length pre) + length (double_quotes v))) = double_quotes v"
    by (simp add: str8_substr_r1u64 pg_quote_sql_string_literal_def)
  with scan show ?thesis
    using unescape_double_quotes [of v] double_quotes_plain [of v]
    by (auto simp: lex_string_def Let_def pg_quote_sql_string_literal_def)
qed

text \<open>C28: A text parameter cannot break out of its literal where the tokenizer is at the start of
  a token: whatever bytes the value has, quotes included, the quoted literal is read as exactly one
  string token, its value is the parameter's, and reading goes on right behind it, provided the
  statement does not itself put a quote behind the placeholder.\<close>

theorem pg_quoted_literal_one_token:
  assumes "post = [] \<or> hd post \<noteq> quote" "CHR 0x00 \<notin> set v"
  shows "\<exists>lit. pg_param_to_sql_literal ff PG_OID_TEXT 0 v False = Inr lit \<and>
     lex_token (pre @ lit @ post) (length pre) =
       LexNext [mk_token TString v (r1u64 (length pre) (length pre + length lit))] (length pre + length lit)"
proof -
  have "(pre @ pg_quote_sql_string_literal v @ post) ! length pre = quote"
    by (simp add: pg_quote_sql_string_literal_def nth_append)
  then have "lex_token (pre @ pg_quote_sql_string_literal v @ post) (length pre) =
      LexNext [mk_token TString v (r1u64 (length pre) (length pre + length (pg_quote_sql_string_literal v)))]
        (length pre + length (pg_quote_sql_string_literal v))"
    using lex_string_quoted [OF assms(1)] by (simp add: lex_token_def)
  then show ?thesis using assms(2) by (auto simp: pg_param_to_sql_literal_def text_param_def)
qed

lemma pg_quoted_literal_one_token_witness:
  "\<exists>lit. pg_param_to_sql_literal \<lparr>fmt_f32 = \<lambda>_. [], fmt_f64 = \<lambda>_. []\<rparr> PG_OID_TEXT 0 [CHR ''a'', quote] False = Inr lit \<and>
     lex_token (''x = '' @ lit @ '';'') (length ''x = '') =
       LexNext [mk_token TString [CHR ''a'', quote] (r1u64 (length ''x = '') (length ''x = '' + length lit))]
         (length ''x = '' + length lit)"
  by (rule pg_quoted_literal_one_token) simp_all

text \<open>C29: Where the placeholder directly follows an operator sign, the guarantee is lost: the
  operator scan of the tokenizer does not stop at a quote, so the opening quote of the literal is
  swallowed with the operator and the bytes of the parameter are read as SQL. A bound text value can
  add an \<open>or\<close> to the condition it is compared in.\<close>

theorem pg_bound_parameter_injection:
  "\<exists>lit sql toks.
     pg_param_to_sql_literal ff PG_OID_TEXT 0 ''x or 1 '' False = Inr lit \<and>
     pg_substitute_params ''a=$1'' [lit] = Some sql \<and>
     sql_tokenize_from_text sql = Some toks \<and>
     map (\<lambda>t. (tok_type t, tok_value t)) toks =
       [(TIdentifier, ''a''), (TIdentifier, ''x''), (TKeyword, ''or''), (TNumber, ''1'')]"
proof -
  have lit: "pg_param_to_sql_literal ff PG_OID_TEXT 0 ''x or 1 '' False = Inr ([quote] @ ''x or 1 '' @ [quote])"
    by (simp add: pg_param_to_sql_literal_def text_param_def pg_quote_sql_string_literal_def double_quotes_def)
  have sql: "pg_substitute_params ''a=$1'' [[quote] @ ''x or 1 '' @ [quote]] = Some (''a='' @ [quote] @ ''x or 1 '' @ [quote])"
    by code_simp
  have "map_option (map (\<lambda>t. (tok_type t, tok_value t))) (sql_tokenize_from_text (''a='' @ [quote] @ ''x or 1 '' @ [quote])) =
       Some [(TIdentifier, ''a''), (TIdentifier, ''x''), (TKeyword, ''or''), (TNumber, ''1'')]"
    by code_simp
  with lit sql show ?thesis by (auto simp: map_option_case split: option.splits)
qed

section \<open>Substitution against its reference\<close>

text \<open>What the substitution is to do, byte by byte: inside a string literal nothing changes, and
  outside every \<open>$N\<close> becomes the N-th literal, or stays when there is none.\<close>

definition is_dec :: "char \<Rightarrow> bool" where
  "is_dec c \<longleftrightarrow> 48 \<le> byte c \<and> byte c \<le> 57"

definition placeholder :: "string8 list \<Rightarrow> string8 \<Rightarrow> string8" where
  "placeholder lits ds =
     (let n = unat (u64_from_str8 ds 10) in
      if 1 \<le> n \<and> n \<le> length lits then lits ! (n - 1) else CHR ''$'' # ds)"

function substitute_spec :: "string8 list \<Rightarrow> bool \<Rightarrow> string8 \<Rightarrow> string8" where
  "substitute_spec lits in_string [] = []"
| "substitute_spec lits in_string (c # cs) =
     (if in_string \<and> c = quote \<and> cs \<noteq> [] \<and> hd cs = quote then
        quote # quote # substitute_spec lits True (tl cs)
      else if c = quote then quote # substitute_spec lits (\<not> in_string) cs
      else if \<not> in_string \<and> c = CHR ''$'' \<and> cs \<noteq> [] \<and> is_dec (hd cs) then
        placeholder lits (takeWhile is_dec cs) @ substitute_spec lits False (dropWhile is_dec cs)
      else c # substitute_spec lits in_string cs)"
  by pat_completeness auto
termination
  by (relation "measure (\<lambda>(_, _, s). length s)")
     (auto simp: length_dropWhile_le le_imp_less_Suc intro: le_less_trans [OF diff_le_self])

declare substitute_spec.simps(2) [simp del]

lemma count_digits_ascii: "ascii s \<Longrightarrow> count_digits s = Some (length (takeWhile is_dec s))"
  by (induction s) (auto simp: char_is_digit_10 is_dec_def)

lemma join_with_nil: "join_with [] ss = concat ss"
  by (induction "[] :: string8" ss rule: join_with.induct) auto

lemma slice_snoc:
  "r \<le> i \<Longrightarrow> i < length s \<Longrightarrow> take (Suc i - r) (drop r s) = take (i - r) (drop r s) @ [s ! i]"
  by (simp add: Suc_diff_le take_Suc_conv_app_nth)

lemma slice_pushed:
  assumes "r \<le> i" "i \<le> length s"
  shows "concat (if i > r then parts @ [str8_substr s (r1u64 r i)] else parts) =
     concat parts @ take (i - r) (drop r s)"
  using assms by (auto simp: str8_substr_r1u64)

lemma digits_split:
  assumes "i < length s" "s ! i = CHR ''$''" "n = length (takeWhile is_dec (drop (Suc i) s))"
  shows "takeWhile is_dec (drop (Suc i) s) = str8_substr s (r1u64 (Suc i) (Suc i + n))"
    and "CHR ''$'' # takeWhile is_dec (drop (Suc i) s) = str8_substr s (r1u64 i (Suc i + n))"
    and "dropWhile is_dec (drop (Suc i) s) = drop (Suc i + n) s"
    and "Suc i + n \<le> length s"
proof -
  have le: "n \<le> length s - Suc i"
    using assms(3) length_takeWhile_le [of is_dec "drop (Suc i) s"] by simp
  then show n: "Suc i + n \<le> length s" using assms(1) by simp
  show d: "takeWhile is_dec (drop (Suc i) s) = str8_substr s (r1u64 (Suc i) (Suc i + n))"
    using str8_substr_r1u64 [of "Suc i" "Suc i + n" s] n
    by (simp add: assms(3) takeWhile_eq_take [symmetric])
  have "str8_substr s (r1u64 i (Suc i + n)) = take (Suc n) (drop i s)"
    using str8_substr_r1u64 [of i "Suc i + n" s] n by simp
  also have "drop i s = CHR ''$'' # drop (Suc i) s"
    using Cons_nth_drop_Suc [OF assms(1)] assms(2) by simp
  also have "take (Suc n) (CHR ''$'' # drop (Suc i) s) = CHR ''$'' # takeWhile is_dec (drop (Suc i) s)"
    using assms(3) takeWhile_eq_take [of is_dec "drop (Suc i) s"] by simp
  finally show "CHR ''$'' # takeWhile is_dec (drop (Suc i) s) = str8_substr s (r1u64 i (Suc i + n))"
    by simp
  show "dropWhile is_dec (drop (Suc i) s) = drop (Suc i + n) s"
    using assms(3) by (simp add: dropWhile_eq_drop add.commute)
qed

lemma substitute_dollar:
  assumes "ascii s" "i < length s" "s ! i = CHR ''$''" "takeWhile is_dec (drop (Suc i) s) \<noteq> []"
    and "n = length (takeWhile is_dec (drop (Suc i) s))"
  shows "substitute_loop s lits i r False parts =
      substitute_loop s lits (Suc i + n) (Suc i + n) False
        ((if i > r then parts @ [str8_substr s (r1u64 r i)] else parts) @
         [placeholder lits (takeWhile is_dec (drop (Suc i) s))])"
    and "substitute_spec lits False (drop i s) =
      placeholder lits (takeWhile is_dec (drop (Suc i) s)) @ substitute_spec lits False (drop (Suc i + n) s)"
proof -
  note split = digits_split [OF assms(2,3,5)]
  obtain m where m: "n = Suc m" using assms(4,5) by (metis length_0_conv not0_implies_Suc)
  have count: "count_digits (drop (Suc i) s) = Some (Suc m)"
    using count_digits_ascii [OF ascii_drop [OF assms(1)], of "Suc i"] assms(5) m by simp
  have lt: "Suc i < length s" using split(4) m by simp
  show "substitute_loop s lits i r False parts =
      substitute_loop s lits (Suc i + n) (Suc i + n) False
        ((if i > r then parts @ [str8_substr s (r1u64 r i)] else parts) @
         [placeholder lits (takeWhile is_dec (drop (Suc i) s))])"
    using assms(2,3) lt count split(1,2) m
    by (subst substitute_loop.simps) (simp add: Let_def placeholder_def)
  have "drop (Suc i) s \<noteq> [] \<and> is_dec (hd (drop (Suc i) s))"
    using assms(4) by (cases "drop (Suc i) s") (auto split: if_splits)
  then show "substitute_spec lits False (drop i s) =
      placeholder lits (takeWhile is_dec (drop (Suc i) s)) @ substitute_spec lits False (drop (Suc i + n) s)"
    using Cons_nth_drop_Suc [OF assms(2), symmetric] assms(3) split(3)
    by (simp add: substitute_spec.simps(2))
qed

text \<open>One step that copies a byte: the run grows by it.\<close>

lemma substitute_copied:
  assumes "\<exists>ps. substitute_loop s lits (Suc i) r b' parts = Some ps \<and>
      concat ps = concat parts @ take (Suc i - r) (drop r s) @ substitute_spec lits b' (drop (Suc i) s)"
    and "r \<le> i" "i < length s"
    and "substitute_loop s lits i r b parts = substitute_loop s lits (Suc i) r b' parts"
    and "substitute_spec lits b (s ! i # drop (Suc i) s) = s ! i # substitute_spec lits b' (drop (Suc i) s)"
  shows "\<exists>ps. substitute_loop s lits i r b parts = Some ps \<and>
     concat ps = concat parts @ take (i - r) (drop r s) @ substitute_spec lits b (drop i s)"
  using assms slice_snoc [OF assms(2,3)] Cons_nth_drop_Suc [OF assms(3)] by auto

lemma substitute_loop_spec:
  assumes "ascii s" "r \<le> i" "i \<le> length s"
  shows "\<exists>ps. substitute_loop s lits i r b parts = Some ps \<and>
     concat ps = concat parts @ take (i - r) (drop r s) @ substitute_spec lits b (drop i s)"
  using assms(2,3)
proof (induction "length s - i" arbitrary: i r b parts rule: less_induct)
  case less
  note le = less(2) and len = less(3)
  show ?case
  proof (cases "i < length s")
    case False
    then show ?thesis
      using slice_pushed [OF le len, of parts] len by (subst substitute_loop.simps) auto
  next
    case True
    let ?c = "s ! i" and ?w = "takeWhile is_dec (drop (Suc i) s)"
    have IH: "\<exists>ps. substitute_loop s lits j q b' ps' = Some ps \<and>
        concat ps = concat ps' @ take (j - q) (drop q s) @ substitute_spec lits b' (drop j s)"
      if "i < j" "q \<le> j" "j \<le> length s" for j q b' ps'
      using less(1) [of j q b' ps'] that True by auto
    have hd: "drop (Suc i) s \<noteq> [] \<and> hd (drop (Suc i) s) = c \<longleftrightarrow> Suc i < length s \<and> s ! Suc i = c" for c
      by (auto simp: hd_drop_conv_nth)
    consider (esc) "b" "?c = quote" "Suc i < length s" "s ! Suc i = quote"
      | (dollar) "\<not> b" "?c = CHR ''$''" "?w \<noteq> []"
      | (copy) "\<not> (b \<and> ?c = quote \<and> Suc i < length s \<and> s ! Suc i = quote)"
          "\<not> (\<not> b \<and> ?c = CHR ''$'' \<and> ?w \<noteq> [])"
      by blast
    then show ?thesis
    proof cases
      case esc
      obtain ps where ps: "substitute_loop s lits (Suc (Suc i)) r True parts = Some ps"
        "concat ps = concat parts @ take (Suc (Suc i) - r) (drop r s) @ substitute_spec lits True (drop (Suc (Suc i)) s)"
        using IH [of "Suc (Suc i)" r True parts] le esc by auto
      have "take (Suc (Suc i) - r) (drop r s) = take (i - r) (drop r s) @ [quote, quote]"
        using slice_snoc [OF le True] slice_snoc [of r "Suc i" s] le esc by simp
      moreover have "drop i s = quote # quote # drop (Suc (Suc i)) s"
        using esc True Cons_nth_drop_Suc [of i s] Cons_nth_drop_Suc [of "Suc i" s] by simp
      ultimately show ?thesis
        using True esc ps by (subst substitute_loop.simps) (simp add: substitute_spec.simps(2))
    next
      case dollar
      note step = substitute_dollar [OF assms(1) True dollar(2,3) refl]
        and split = digits_split [OF True dollar(2) refl]
      let ?e = "Suc i + length ?w"
      let ?ps = "(if i > r then parts @ [str8_substr s (r1u64 r i)] else parts) @ [placeholder lits ?w]"
      obtain ps where "substitute_loop s lits ?e ?e False ?ps = Some ps"
        "concat ps = concat ?ps @ substitute_spec lits False (drop ?e s)"
        using IH [of ?e ?e False ?ps] split(4) by auto
      then show ?thesis
        using step dollar(1) slice_pushed [OF le len, of parts] by simp
    next
      case copy
      have w: "?w \<noteq> [] \<longleftrightarrow> drop (Suc i) s \<noteq> [] \<and> is_dec (hd (drop (Suc i) s))"
        by (cases "drop (Suc i) s") auto
      have count: "count_digits (drop (Suc i) s) = Some (length ?w)"
        using count_digits_ascii ascii_drop [OF assms(1)] by simp
      let ?b = "if ?c = quote then \<not> b else b"
      have "substitute_loop s lits i r b parts = substitute_loop s lits (Suc i) r ?b parts"
        using copy True count by (subst substitute_loop.simps) (auto simp: Let_def)
      moreover have "substitute_spec lits b (?c # drop (Suc i) s) = ?c # substitute_spec lits ?b (drop (Suc i) s)"
        using copy hd [of quote] w by (auto simp: substitute_spec.simps(2))
      ultimately show ?thesis
        using substitute_copied IH [of "Suc i" r ?b parts] le True by auto
    qed
  qed
qed

text \<open>C30: The run-copying loop of \<open>pg_substitute_params\<close> computes the byte-by-byte
  reference on ASCII statements: placeholders in string literals stay, doubled quotes included, and
  every other \<open>$N\<close> with a literal for N is replaced. N is the value of the digits modulo
  \<open>2 ^ 64\<close>.\<close>

theorem pg_substitute_params_spec:
  assumes "ascii s"
  shows "pg_substitute_params s lits = Some (substitute_spec lits False s)"
  using substitute_loop_spec [OF assms, of 0 0 lits False "[]"]
  by (auto simp: pg_substitute_params_def str8_list_join_def join_with_nil)

lemma pg_substitute_params_spec_witness:
  "pg_substitute_params ''a $2'' [''x'', ''y''] = Some (substitute_spec [''x'', ''y''] False ''a $2'')"
  by (rule pg_substitute_params_spec) simp

section \<open>What counts as a number\<close>

definition unsigned_part :: "string8 \<Rightarrow> string8" where
  "unsigned_part s = (if s \<noteq> [] \<and> hd s \<in> {CHR ''+'', CHR ''-''} then tl s else s)"

lemma looks_numeric_loop_iff:
  "looks_numeric_loop has_digit has_dot s \<longleftrightarrow>
     list_all (\<lambda>c. is_dec c \<or> c = CHR ''.'') s \<and>
     count_list s (CHR ''.'') + (if has_dot then 1 else 0) \<le> 1 \<and> (has_digit \<or> list_ex is_dec s)"
  by (induction s arbitrary: has_digit has_dot) (auto simp: is_dec_def)

text \<open>What \<open>pg_text_looks_numeric\<close> accepts: behind an optional sign only decimal digits
  and at most one dot, with at least one digit. That is more than the
  \<open>[+-]?digits(.digits)?\<close> its comment promises: the digits may be missing on either side
  of the dot, and such a value is spliced into the statement unquoted.\<close>

theorem pg_text_looks_numeric_iff:
  "(pg_text_looks_numeric s \<longleftrightarrow>
     list_all (\<lambda>c. is_dec c \<or> c = CHR ''.'') (unsigned_part s) \<and>
     count_list (unsigned_part s) (CHR ''.'') \<le> 1 \<and> list_ex is_dec (unsigned_part s)) \<and>
   pg_param_to_sql_literal ff PG_OID_INT4 0 ''5.'' False = Inr ''5.'' \<and>
   pg_param_to_sql_literal ff PG_OID_INT4 0 ''-.5'' False = Inr ''-.5''"
proof (intro conjI)
  show "pg_text_looks_numeric s \<longleftrightarrow>
     list_all (\<lambda>c. is_dec c \<or> c = CHR ''.'') (unsigned_part s) \<and>
     count_list (unsigned_part s) (CHR ''.'') \<le> 1 \<and> list_ex is_dec (unsigned_part s)"
    by (cases s) (auto simp: pg_text_looks_numeric_def unsigned_part_def looks_numeric_loop_iff)
qed (simp_all add: pg_param_to_sql_literal_def text_param_def pg_text_looks_numeric_def)

end
