(* ===== verification/Cql_Types.thy ===== *)
theory Cql_Types
  imports Cql_Prelude
begin

text \<open>
  The column types of the storage layer, \<open>src/src/cql/cql.h\<close>, shared by every component
  that looks at a column.
\<close>

datatype column_type =
    ColInvalid
  | ColU32
  | ColU64
  | ColF32
  | ColF64
  | ColString8
  | ColBool
  | ColI32
  | ColI64
  | ColDate
  | ColTimestamp
  | ColDecimal
  | ColEnum

text \<open>The size of a stored value; that of a \<open>String8\<close> is the size of the struct.\<close>

fun g_cql_column_type_size :: "column_type \<Rightarrow> nat" where
  "g_cql_column_type_size ColInvalid = 0"
| "g_cql_column_type_size ColU32 = 4"
| "g_cql_column_type_size ColU64 = 8"
| "g_cql_column_type_size ColF32 = 4"
| "g_cql_column_type_size ColF64 = 8"
| "g_cql_column_type_size ColString8 = 16"
| "g_cql_column_type_size ColBool = 1"
| "g_cql_column_type_size ColI32 = 4"
| "g_cql_column_type_size ColI64 = 8"
| "g_cql_column_type_size ColDate = 4"
| "g_cql_column_type_size ColTimestamp = 8"
| "g_cql_column_type_size ColDecimal = 8"
| "g_cql_column_type_size ColEnum = 4"

end
