(* ===== verification/Pg_Wire.thy ===== *)
theory Pg_Wire
  imports Pg_Params Cql_Types
begin

text \<open>
  The wire format of the PostgreSQL front end, the first part of
  \<open>src/src/server/pg_protocol.c\<close>: framing, the messages of the server, the startup
  parameters. A connection holds the bytes that the client has sent and that are not yet read, the
  bytes sent to it, and how many more bytes it will take before it breaks.
\<close>

section \<open>The connection\<close>

record pg_conn =
  inbox :: string8
  outbox :: string8
  room :: nat

text \<open>\<open>os_net_send_exact\<close> keeps sending until everything is gone or the socket fails.\<close>

definition os_net_send_exact :: "pg_conn \<Rightarrow> string8 \<Rightarrow> bool \<times> pg_conn" where
  "os_net_send_exact c d =
     (length d \<le> room c, c\<lparr>outbox := outbox c @ take (room c) d, room := room c - length d\<rparr>)"

text \<open>\<open>os_net_recv_exact\<close>: \<^term>\<open>None\<close> when the connection ends before all
  bytes are there.\<close>

definition os_net_recv_exact :: "pg_conn \<Rightarrow> nat \<Rightarrow> (string8 \<times> pg_conn) option" where
  "os_net_recv_exact c n =
     (if n \<le> length (inbox c) then Some (take n (inbox c), c\<lparr>inbox := drop n (inbox c)\<rparr>) else None)"

section \<open>Framing\<close>

definition pg_cstr :: "string8 \<Rightarrow> string8" where
  "pg_cstr s = s @ [CHR 0x00]"

definition max_message :: nat where
  "max_message = 1048576"

definition pg_recv_untyped :: "pg_conn \<Rightarrow> (string8 \<times> pg_conn) option" where
  "pg_recv_untyped c =
     (case os_net_recv_exact c 4 of
        None \<Rightarrow> None
      | Some (len_bytes, c) \<Rightarrow>
          let len = unat (pg_read_be32 len_bytes) in
          if len < 4 \<or> len > max_message then None else os_net_recv_exact c (len - 4))"

definition pg_recv_typed :: "pg_conn \<Rightarrow> (char \<times> string8 \<times> pg_conn) option" where
  "pg_recv_typed c =
     (case os_net_recv_exact c 1 of
        None \<Rightarrow> None
      | Some (ty, c) \<Rightarrow>
          (case pg_recv_untyped c of
             None \<Rightarrow> None
           | Some (body, c) \<Rightarrow> Some (ty ! 0, body, c)))"

definition pg_send_raw_byte :: "pg_conn \<Rightarrow> char \<Rightarrow> bool \<times> pg_conn" where
  "pg_send_raw_byte c b = os_net_send_exact c [b]"

text \<open>The header and the body go out separately; a body of 4 GB would wrap the length.\<close>

definition pg_send_msg :: "pg_conn \<Rightarrow> char \<Rightarrow> string8 list \<Rightarrow> bool \<times> pg_conn" where
  "pg_send_msg c ty body_parts =
     (let body = str8_list_join body_parts [] [] [];
          len = (of_nat (length body + 4) :: u32);
          (ok, c) = os_net_send_exact c (ty # pg_be32 len)
      in if ok \<and> length body > 0 then os_net_send_exact c body else (ok, c))"

section \<open>Messages of the server\<close>

definition pg_send_authentication_ok :: "pg_conn \<Rightarrow> bool \<times> pg_conn" where
  "pg_send_authentication_ok c = pg_send_msg c CHR ''R'' [pg_be32 0]"

definition pg_send_parameter_status :: "pg_conn \<Rightarrow> string8 \<Rightarrow> string8 \<Rightarrow> bool \<times> pg_conn" where
  "pg_send_parameter_status c name val = pg_send_msg c CHR ''S'' [pg_cstr name, pg_cstr val]"

definition pg_send_backend_key_data :: "pg_conn \<Rightarrow> u32 \<Rightarrow> u32 \<Rightarrow> bool \<times> pg_conn" where
  "pg_send_backend_key_data c pid secret = pg_send_msg c CHR ''K'' [pg_be32 pid, pg_be32 secret]"

definition pg_send_ready_for_query :: "pg_conn \<Rightarrow> char \<Rightarrow> bool \<times> pg_conn" where
  "pg_send_ready_for_query c status = pg_send_msg c CHR ''Z'' [[status]]"

definition pg_send_error_response :: "pg_conn \<Rightarrow> string8 \<Rightarrow> string8 \<Rightarrow> string8 \<Rightarrow> bool \<times> pg_conn" where
  "pg_send_error_response c severity sqlstate message =
     pg_send_msg c CHR ''E''
       [''S'', pg_cstr severity, ''C'', pg_cstr sqlstate, ''M'', pg_cstr message, [CHR 0x00]]"

definition pg_send_empty_query_response :: "pg_conn \<Rightarrow> bool \<times> pg_conn" where
  "pg_send_empty_query_response c = pg_send_msg c CHR ''I'' []"

definition pg_send_command_complete :: "pg_conn \<Rightarrow> string8 \<Rightarrow> bool \<times> pg_conn" where
  "pg_send_command_complete c tag = pg_send_msg c CHR ''C'' [pg_cstr tag]"

definition pg_send_no_data :: "pg_conn \<Rightarrow> bool \<times> pg_conn" where
  "pg_send_no_data c = pg_send_msg c CHR ''n'' []"

definition pg_send_parse_complete :: "pg_conn \<Rightarrow> bool \<times> pg_conn" where
  "pg_send_parse_complete c = pg_send_msg c CHR ''1'' []"

definition pg_send_bind_complete :: "pg_conn \<Rightarrow> bool \<times> pg_conn" where
  "pg_send_bind_complete c = pg_send_msg c CHR ''2'' []"

definition pg_send_close_complete :: "pg_conn \<Rightarrow> bool \<times> pg_conn" where
  "pg_send_close_complete c = pg_send_msg c CHR ''3'' []"

definition pg_send_portal_suspended :: "pg_conn \<Rightarrow> bool \<times> pg_conn" where
  "pg_send_portal_suspended c = pg_send_msg c CHR ''s'' []"

definition pg_send_parameter_description :: "pg_conn \<Rightarrow> u32 list \<Rightarrow> bool \<times> pg_conn" where
  "pg_send_parameter_description c param_oids =
     pg_send_msg c CHR ''t'' (pg_be16 (of_nat (length param_oids)) # map pg_be32 param_oids)"

section \<open>Result sets\<close>

text \<open>\<open>APP_ResultSet\<close>: the cells by row, each with its null flag, its text and the bits of
  its \<open>F64\<close>.\<close>

record result_cell =
  cell_is_null :: bool
  cell_text :: string8
  cell_numeric :: u64

record result_set =
  rs_valid :: bool
  rs_columns :: "(string8 \<times> column_type) list"
  rs_rows :: "result_cell list list"

definition empty_result_set :: result_set where
  "empty_result_set = \<lparr>rs_valid = False, rs_columns = [], rs_rows = []\<rparr>"

fun pg_oid_for_column_type :: "column_type \<Rightarrow> u32" where
  "pg_oid_for_column_type ColU32 = 23"
| "pg_oid_for_column_type ColU64 = 20"
| "pg_oid_for_column_type ColF32 = 700"
| "pg_oid_for_column_type ColF64 = 701"
| "pg_oid_for_column_type ColString8 = 25"
| "pg_oid_for_column_type ColBool = 16"
| "pg_oid_for_column_type ColI32 = 23"
| "pg_oid_for_column_type ColI64 = 20"
| "pg_oid_for_column_type _ = 25"

fun pg_typlen_for_column_type :: "column_type \<Rightarrow> int" where
  "pg_typlen_for_column_type ColU32 = 4"
| "pg_typlen_for_column_type ColU64 = 8"
| "pg_typlen_for_column_type ColF32 = 4"
| "pg_typlen_for_column_type ColF64 = 8"
| "pg_typlen_for_column_type ColBool = 1"
| "pg_typlen_for_column_type ColI32 = 4"
| "pg_typlen_for_column_type ColI64 = 8"
| "pg_typlen_for_column_type _ = - 1"

definition pg_result_format_code_for_column :: "u16 list \<Rightarrow> nat \<Rightarrow> u16" where
  "pg_result_format_code_for_column format_codes column_index =
     (if length format_codes = 0 then 0
      else if length format_codes = 1 then format_codes ! 0
      else if column_index < length format_codes then format_codes ! column_index
      else 0)"

text \<open>The casts of C from \<open>F64\<close>, on its bits; out of range they are undefined, so they
  are arguments of the model.\<close>

record f64_casts =
  f64_to_u32 :: "u64 \<Rightarrow> u32"
  f64_to_u64 :: "u64 \<Rightarrow> u64"
  f64_to_s32 :: "u64 \<Rightarrow> u32"
  f64_to_s64 :: "u64 \<Rightarrow> u64"
  f64_to_u8 :: "u64 \<Rightarrow> u8"
  f64_to_f32 :: "u64 \<Rightarrow> u32"

definition be64 :: "u64 \<Rightarrow> string8" where
  "be64 v = map char_of_u8
     [ucast (drop_bit 56 v), ucast (drop_bit 48 v), ucast (drop_bit 40 v), ucast (drop_bit 32 v),
      ucast (drop_bit 24 v), ucast (drop_bit 16 v), ucast (drop_bit 8 v), ucast v]"

fun pg_encode_binary_numeric :: "f64_casts \<Rightarrow> column_type \<Rightarrow> u64 \<Rightarrow> string8" where
  "pg_encode_binary_numeric fc ColU32 x = pg_be32 (f64_to_u32 fc x)"
| "pg_encode_binary_numeric fc ColU64 x = be64 (f64_to_u64 fc x)"
| "pg_encode_binary_numeric fc ColF32 x = pg_be32 (f64_to_f32 fc x)"
| "pg_encode_binary_numeric fc ColF64 x = be64 x"
| "pg_encode_binary_numeric fc ColBool x = [char_of_u8 (f64_to_u8 fc x)]"
| "pg_encode_binary_numeric fc ColI32 x = pg_be32 (f64_to_s32 fc x)"
| "pg_encode_binary_numeric fc ColI64 x = be64 (f64_to_s64 fc x)"
| "pg_encode_binary_numeric fc _ x = []"

definition row_description_column :: "string8 \<times> column_type \<Rightarrow> u16 \<Rightarrow> string8 list" where
  "row_description_column col fmt =
     [pg_cstr (fst col), pg_be32 0, pg_be16 0, pg_be32 (pg_oid_for_column_type (snd col)),
      pg_be16 (word_of_int (pg_typlen_for_column_type (snd col))), pg_be32 (- 1), pg_be16 fmt]"

definition pg_send_row_description_from_result_set :: "pg_conn \<Rightarrow> result_set \<Rightarrow> bool \<times> pg_conn" where
  "pg_send_row_description_from_result_set c rs =
     pg_send_msg c CHR ''T''
       (pg_be16 (of_nat (length (rs_columns rs))) #
        concat (map (\<lambda>col. row_description_column col 0) (rs_columns rs)))"

definition pg_send_row_description_from_result_set_ex ::
  "pg_conn \<Rightarrow> result_set \<Rightarrow> u16 list \<Rightarrow> bool \<times> pg_conn" where
  "pg_send_row_description_from_result_set_ex c rs format_codes =
     pg_send_msg c CHR ''T''
       (pg_be16 (of_nat (length (rs_columns rs))) #
        concat (map (\<lambda>(i, col). row_description_column col (pg_result_format_code_for_column format_codes i))
          (enumerate 0 (rs_columns rs))))"

definition pg_send_row_description_single_text_column :: "pg_conn \<Rightarrow> string8 \<Rightarrow> bool \<times> pg_conn" where
  "pg_send_row_description_single_text_column c column_name =
     pg_send_msg c CHR ''T''
       [pg_be16 1, pg_cstr column_name, pg_be32 0, pg_be16 0, pg_be32 25, pg_be16 (- 1), pg_be32 (- 1),
        pg_be16 0]"

definition sized :: "string8 \<Rightarrow> string8 list" where
  "sized d = [pg_be32 (of_nat (length d)), d]"

definition text_cell :: "result_cell \<Rightarrow> string8 list" where
  "text_cell cell = (if cell_is_null cell then [pg_be32 (- 1)] else sized (cell_text cell))"

fun send_text_rows :: "pg_conn \<Rightarrow> nat \<Rightarrow> result_cell list list \<Rightarrow> bool \<times> pg_conn" where
  "send_text_rows c n [] = (True, c)"
| "send_text_rows c n (row # rows) =
     (let (ok, c) = pg_send_msg c CHR ''D'' (pg_be16 (of_nat n) # concat (map text_cell row))
      in if \<not> ok then (False, c) else send_text_rows c n rows)"

definition pg_send_data_rows_from_result_set :: "pg_conn \<Rightarrow> result_set \<Rightarrow> bool \<times> pg_conn" where
  "pg_send_data_rows_from_result_set c rs = send_text_rows c (length (rs_columns rs)) (rs_rows rs)"

definition typed_cell :: "f64_casts \<Rightarrow> u16 \<Rightarrow> column_type \<Rightarrow> result_cell \<Rightarrow> string8 list" where
  "typed_cell fc fmt ty cell =
     (if cell_is_null cell then [pg_be32 (- 1)]
      else if fmt = 1 \<and> ty \<noteq> ColString8 then sized (pg_encode_binary_numeric fc ty (cell_numeric cell))
      else sized (cell_text cell))"

fun send_typed_rows ::
  "f64_casts \<Rightarrow> pg_conn \<Rightarrow> (string8 \<times> column_type) list \<Rightarrow> u16 list \<Rightarrow> result_cell list list \<Rightarrow> bool \<times> pg_conn" where
  "send_typed_rows fc c cols fmts [] = (True, c)"
| "send_typed_rows fc c cols fmts (row # rows) =
     (let (ok, c) = pg_send_msg c CHR ''D''
            (pg_be16 (of_nat (length cols)) #
             concat (map (\<lambda>(i, col, cell).
                typed_cell fc (pg_result_format_code_for_column fmts i) (snd col) cell)
               (enumerate 0 (zip cols row))))
      in if \<not> ok then (False, c) else send_typed_rows fc c cols fmts rows)"

text \<open>The row count of a result set is far below \<open>2 ^ 64\<close>, so the sum does not wrap.\<close>

definition pg_send_data_rows_from_result_set_range ::
  "f64_casts \<Rightarrow> pg_conn \<Rightarrow> result_set \<Rightarrow> u16 list \<Rightarrow> nat \<Rightarrow> nat \<Rightarrow> bool \<times> pg_conn" where
  "pg_send_data_rows_from_result_set_range fc c rs format_codes first_row row_count =
     (let end_row = min (first_row + row_count) (length (rs_rows rs))
      in send_typed_rows fc c (rs_columns rs) format_codes (take (end_row - first_row) (drop first_row (rs_rows rs))))"

definition pg_send_data_row_single_text_column :: "pg_conn \<Rightarrow> string8 \<Rightarrow> bool \<times> pg_conn" where
  "pg_send_data_row_single_text_column c val = pg_send_msg c CHR ''D'' (pg_be16 1 # sized val)"

section \<open>Startup parameters\<close>

text \<open>The loop of \<open>pg_startup_param_find\<close> over \<open>key, NUL, value, NUL\<close> pairs.\<close>

definition nul :: string8 where
  "nul = [CHR 0x00]"

text \<open>The search for a NUL from a position on.\<close>

lemma find_nul:
  assumes "p \<le> length s"
  shows "find_needle_from s p (length s) CHR 0x00 [] (sloppy match_exact) =
     p + length (takeWhile (\<lambda>c. c \<noteq> CHR 0x00) (drop p s))"
  using assms
proof (induction "length s - p" arbitrary: p)
  case 0
  then show ?case by (subst find_needle_from.simps) simp
next
  case (Suc n)
  have f: "\<not> case_insensitive (sloppy match_exact)" "right_side_sloppy (sloppy match_exact)"
    by (simp_all add: sloppy_def match_exact_def)
  have match: "str8_match t [] (sloppy match_exact)" for t
    using f by (cases t) (simp_all add: str8_match_def)
  have lt: "p < length s" using Suc by simp
  show ?case
    using Suc(1) [of "Suc p"] Suc(2) lt f match Cons_nth_drop_Suc [OF lt, symmetric]
    by (subst find_needle_from.simps) auto
qed

lemma str8_find_nul:
  assumes "p \<le> length s"
  shows "str8_find_needle s p nul match_exact = p + length (takeWhile (\<lambda>c. c \<noteq> CHR 0x00) (drop p s))"
proof -
  have "\<not> case_insensitive (sloppy match_exact)" by (simp add: sloppy_def match_exact_def)
  moreover have "str8_skip [CHR 0x00] 1 = []" by (simp add: str8_skip_def)
  moreover have "max (length s + 1) 1 - 1 = length s" by simp
  ultimately show ?thesis
    using find_nul [OF assms] by (simp add: str8_find_needle_def nul_def Let_def)
qed

lemma str8_find_nul_bounds:
  assumes "p \<le> length s"
  shows "p \<le> str8_find_needle s p nul match_exact \<and> str8_find_needle s p nul match_exact \<le> length s"
proof -
  have "length (takeWhile (\<lambda>c. c \<noteq> CHR 0x00) (drop p s)) \<le> length s - p"
    using length_takeWhile_le [of "\<lambda>c. c \<noteq> CHR 0x00" "drop p s"] by simp
  then show ?thesis using assms str8_find_nul [OF assms] by simp
qed

function startup_param_from :: "string8 \<Rightarrow> string8 \<Rightarrow> nat \<Rightarrow> string8" where
  "startup_param_from body key pos =
     (if pos \<ge> length body then []
      else
        let key_end = str8_find_needle body pos nul match_exact in
        if key_end \<ge> length body then []
        else
          let this_key = str8_substr body (r1u64 pos key_end) in
          if this_key = [] then []
          else
            let value_start = key_end + 1;
                value_end = str8_find_needle body value_start nul match_exact in
            if value_end > length body then []
            else if str8_match this_key key match_exact
            then str8_substr body (r1u64 value_start value_end)
            else startup_param_from body key (value_end + 1))"
  by pat_completeness auto
termination
proof (relation "measure (\<lambda>(body, _, pos). Suc (length body) - pos)", goal_cases)
  case (2 body key pos key_end this_key value_start value_end)
  have "pos \<le> key_end" using str8_find_nul_bounds [of pos body] 2 by simp
  moreover have "value_start \<le> value_end" using str8_find_nul_bounds [of value_start body] 2 by simp
  ultimately show ?case using 2 by simp
qed simp

declare startup_param_from.simps [simp del]

definition pg_startup_param_find :: "string8 \<Rightarrow> string8 \<Rightarrow> string8" where
  "pg_startup_param_find body key = startup_param_from body key 0"

section \<open>What is sent is received\<close>

lemma join_concat: "str8_list_join ss [] [] [] = concat ss"
  by (simp add: str8_list_join_def join_with_nil)

text \<open>The bytes of a message.\<close>

definition message :: "char \<Rightarrow> string8 \<Rightarrow> string8" where
  "message ty body = ty # pg_be32 (of_nat (length body + 4)) @ body"

lemma length_message [simp]: "length (message ty body) = 5 + length body"
  by (simp add: message_def)

lemma send_twice:
  "(let (ok, c) = os_net_send_exact c h in if ok \<and> 0 < length b then os_net_send_exact c b else (ok, c)) =
     os_net_send_exact c (h @ b)"
  by (cases c; cases "b = []") (auto simp: os_net_send_exact_def Let_def)

text \<open>Header and body together: one message, sent in full or up to the room that is left.\<close>

lemma pg_send_msg_eq: "pg_send_msg c ty parts = os_net_send_exact c (message ty (concat parts))"
  using send_twice [of c "ty # pg_be32 (of_nat (length (concat parts) + 4))" "concat parts"]
  unfolding pg_send_msg_def join_concat Let_def message_def append_Cons by simp

lemma pg_send_msg_bytes:
  assumes "5 + length (concat parts) \<le> room c"
  shows "pg_send_msg c ty parts =
     (True, c\<lparr>outbox := outbox c @ message ty (concat parts), room := room c - (5 + length (concat parts))\<rparr>)"
  unfolding pg_send_msg_eq os_net_send_exact_def length_message using assms by simp

lemma len_word:
  assumes "n + 4 \<le> max_message"
  shows "unat (of_nat (n + 4) :: u32) = n + 4"
proof -
  have "n + 4 < 2 ^ 32" using assms by (simp add: max_message_def)
  then show ?thesis by (simp only: unat_of_nat) (simp add: take_bit_nat_eq_self)
qed

lemma pg_recv_message:
  assumes "length body + 4 \<le> max_message" "inbox c = message ty body @ rest"
  shows "pg_recv_typed c = Some (ty, body, c\<lparr>inbox := rest\<rparr>)"
proof -
  have "drop 4 (pg_be32 l @ body @ rest) = body @ rest" "take 4 (pg_be32 l @ body @ rest) = pg_be32 l" for l
    by simp_all
  then show ?thesis
    using assms(2) len_word [OF assms(1)] assms(1) pg_read_be32_be32 [of "of_nat (length body + 4)" "[]"]
    by (simp add: pg_recv_typed_def pg_recv_untyped_def os_net_recv_exact_def message_def)
qed

text \<open>C31: Framing is lossless: when the peer's receive buffer holds what \<open>pg_send_msg\<close> put
  on the wire, followed by anything, \<open>pg_recv_typed\<close> returns the type and the body and leaves
  exactly the rest, for every body within the 1 MB limit of the receiver.\<close>

theorem pg_framing_roundtrip:
  assumes "length (concat parts) + 4 \<le> max_message" "5 + length (concat parts) \<le> room c"
    and "inbox d = drop (length (outbox c)) (outbox (snd (pg_send_msg c ty parts))) @ rest"
  shows "fst (pg_send_msg c ty parts) \<and> pg_recv_typed d = Some (ty, concat parts, d\<lparr>inbox := rest\<rparr>)"
  using pg_recv_message [OF assms(1), of d ty rest] assms(3) pg_send_msg_bytes [OF assms(2)] by simp

lemma pg_framing_roundtrip_witness:
  "let c = \<lparr>inbox = [], outbox = ''x'', room = 100\<rparr>;
       d = \<lparr>inbox = drop 1 (outbox (snd (pg_send_msg c CHR ''C'' [''ab'', nul]))) @ ''Z'', outbox = [], room = 0\<rparr>
   in fst (pg_send_msg c CHR ''C'' [''ab'', nul]) \<and>
      pg_recv_typed d = Some (CHR ''C'', ''ab'' @ nul, d\<lparr>inbox := ''Z''\<rparr>)"
  using pg_framing_roundtrip [of "[''ab'', nul]" "\<lparr>inbox = [], outbox = ''x'', room = 100\<rparr>"
      "\<lparr>inbox = drop 1 (outbox (snd (pg_send_msg \<lparr>inbox = [], outbox = ''x'', room = 100\<rparr> CHR ''C'' [''ab'', nul]))) @ ''Z'', outbox = [], room = 0\<rparr>"
      "CHR ''C''" "''Z''"]
  by (simp add: Let_def max_message_def nul_def)

lemma pg_recv_frame:
  assumes r: "pg_recv_typed c = Some (ty, body, d)"
  shows "length body + 4 \<le> max_message \<and>
       inbox c = message ty body @ inbox d \<and> outbox d = outbox c \<and> room d = room c"
proof -
  let ?l = "take 4 (drop 1 (inbox c))"
  have n: "5 \<le> length (inbox c)" and len: "4 \<le> unat (pg_read_be32 ?l)" "unat (pg_read_be32 ?l) \<le> max_message"
    and avail: "unat (pg_read_be32 ?l) - 4 \<le> length (inbox c) - 5"
    and res: "ty = inbox c ! 0" "body = take (unat (pg_read_be32 ?l) - 4) (drop 5 (inbox c))"
      "d = c\<lparr>inbox := drop (unat (pg_read_be32 ?l) - 4) (drop 5 (inbox c))\<rparr>"
    using r by (auto simp: pg_recv_typed_def pg_recv_untyped_def os_net_recv_exact_def Let_def drop_drop
        split: option.splits if_splits)
  have body: "length body + 4 = unat (pg_read_be32 ?l)" using len avail res(2) by simp
  obtain b0 b1 b2 b3 b4 t where inb: "inbox c = b0 # b1 # b2 # b3 # b4 # t"
    using n by (auto simp: numeral_eq_Suc Suc_le_length_iff)
  have "pg_be32 (pg_read_be32 [b1, b2, b3, b4]) = [b1, b2, b3, b4]" by (rule pg_be32_read)
  moreover have "of_nat (length body + 4) = pg_read_be32 ?l" using body by simp
  ultimately have "inbox c = message ty body @ inbox d"
    using res inb by (simp add: message_def)
  then show ?thesis using res len body by simp
qed

lemma pg_recv_typed_shorter: "pg_recv_typed c = Some (ty, body, d) \<Longrightarrow> length (inbox d) < length (inbox c)"
  using pg_recv_frame by fastforce

text \<open>Whatever a client sends, \<open>pg_recv_typed\<close> comes back: with nothing, or with a body
  that is shorter than 1 MB and is, together with a type byte and a length, what has been taken off
  the connection; nothing is sent.\<close>

theorem pg_recv_typed_bounded:
  "case pg_recv_typed c of
     None \<Rightarrow> True
   | Some (ty, body, d) \<Rightarrow>
       length body + 4 \<le> max_message \<and>
       inbox c = message ty body @ inbox d \<and> outbox d = outbox c \<and> room d = room c"
  using pg_recv_frame by (auto split: option.split)

end
