(* ===== verification/Pg_Session.thy ===== *)
theory Pg_Session
  imports Pg_Wire
begin

text \<open>
  The session state of the extended query protocol, the first part of
  \<open>src/src/server/pg_server.c\<close>: the tables of prepared statements and portals and the
  cursor reader for message bodies. Both tables are arrays of slots with an \<open>in_use\<close> flag and
  a name and are searched the same way; the interface \<open>slot_array\<close> collects what the handlers
  rely on.
\<close>

section \<open>Slot arrays\<close>

definition find_slot :: "('a \<Rightarrow> bool) \<Rightarrow> ('a \<Rightarrow> string8) \<Rightarrow> 'a list \<Rightarrow> string8 \<Rightarrow> nat option" where
  "find_slot used nm slots n = first_index (\<lambda>s. used s \<and> str8_match (nm s) n match_exact) slots"

definition close_slot ::
  "('a \<Rightarrow> bool) \<Rightarrow> ('a \<Rightarrow> string8) \<Rightarrow> ('a \<Rightarrow> 'a) \<Rightarrow> 'a list \<Rightarrow> string8 \<Rightarrow> 'a list" where
  "close_slot used nm release slots n =
     (case find_slot used nm slots n of None \<Rightarrow> slots | Some i \<Rightarrow> slots[i := release (slots ! i)])"

text \<open>An entry of the same name is released first, then the first free slot is taken.\<close>

definition alloc_slot ::
  "('a \<Rightarrow> bool) \<Rightarrow> ('a \<Rightarrow> string8) \<Rightarrow> ('a \<Rightarrow> 'a) \<Rightarrow> 'a \<Rightarrow> 'a list \<Rightarrow> string8 \<Rightarrow> (nat \<times> 'a list) option" where
  "alloc_slot used nm release fresh slots n =
     (let slots = close_slot used nm release slots n in
      case first_index (\<lambda>s. \<not> used s) slots of
        None \<Rightarrow> None
      | Some j \<Rightarrow> Some (j, slots[j := fresh]))"

definition names_distinct :: "('a \<Rightarrow> bool) \<Rightarrow> ('a \<Rightarrow> string8) \<Rightarrow> 'a list \<Rightarrow> bool" where
  "names_distinct used nm slots \<longleftrightarrow>
     (\<forall>i < length slots. \<forall>j < length slots. used (slots ! i) \<and> used (slots ! j) \<and> nm (slots ! i) = nm (slots ! j) \<longrightarrow> i = j)"
text \<open>The contract of a slot array: releasing frees a slot, a fresh entry is in use.\<close>

locale slot_array =
  fixes used :: "'a \<Rightarrow> bool" and nm :: "'a \<Rightarrow> string8" and release :: "'a \<Rightarrow> 'a" and fresh :: 'a
  assumes used_release: "\<not> used (release s)"
    and used_fresh: "used fresh"
begin

lemma find_Some: "find_slot used nm slots n = Some i \<Longrightarrow> i < length slots \<and> used (slots ! i) \<and> nm (slots ! i) = n"
  by (auto simp: find_slot_def first_index_Some_iff)

lemma find_None: "find_slot used nm slots n = None \<longleftrightarrow> (\<forall>s \<in> set slots. used s \<longrightarrow> nm s \<noteq> n)"
  by (auto simp: find_slot_def first_index_None)

lemma find_unique:
  assumes "names_distinct used nm slots" "i < length slots" "used (slots ! i)"
  shows "find_slot used nm slots (nm (slots ! i)) = Some i"
proof (cases "find_slot used nm slots (nm (slots ! i))")
  case None
  then show ?thesis
    using find_None [of slots "nm (slots ! i)"] assms(3) nth_mem [OF assms(2)] by auto
next
  case (Some j)
  then show ?thesis using find_Some [OF Some] assms by (auto simp: names_distinct_def)
qed

lemma length_close [simp]: "length (close_slot used nm release slots n) = length slots"
  by (simp add: close_slot_def split: option.splits)

text \<open>After a release the used slots are those used before, but for the one found.\<close>

lemma close_used:
  assumes "i < length slots"
  shows "used (close_slot used nm release slots n ! i) \<longleftrightarrow> used (slots ! i) \<and> find_slot used nm slots n \<noteq> Some i"
    and "used (close_slot used nm release slots n ! i) \<Longrightarrow> close_slot used nm release slots n ! i = slots ! i"
proof -
  have "used (close_slot used nm release slots n ! i) = (used (slots ! i) \<and> find_slot used nm slots n \<noteq> Some i) \<and>
    (used (close_slot used nm release slots n ! i) \<longrightarrow> close_slot used nm release slots n ! i = slots ! i)"
  proof (cases "find_slot used nm slots n")
    case (Some k)
    then show ?thesis
      using assms used_release [of "slots ! i"] by (cases "k = i") (simp_all add: close_slot_def)
  qed (simp add: close_slot_def)
  then show "used (close_slot used nm release slots n ! i) \<longleftrightarrow> used (slots ! i) \<and> find_slot used nm slots n \<noteq> Some i"
    and "used (close_slot used nm release slots n ! i) \<Longrightarrow> close_slot used nm release slots n ! i = slots ! i"
    by blast+
qed

lemma close_distinct:
  assumes "names_distinct used nm slots"
  shows "names_distinct used nm (close_slot used nm release slots n)"
  unfolding names_distinct_def length_close
proof (intro allI impI, elim conjE)
  fix i j
  assume ij: "i < length slots" "j < length slots"
    and u: "used (close_slot used nm release slots n ! i)" "used (close_slot used nm release slots n ! j)"
    and e: "nm (close_slot used nm release slots n ! i) = nm (close_slot used nm release slots n ! j)"
  show "i = j"
    using assms ij u e close_used [OF ij(1), of n] close_used [OF ij(2), of n]
    unfolding names_distinct_def by metis
qed

lemma close_gone_nth:
  assumes "names_distinct used nm slots" "i < length slots" "used (close_slot used nm release slots n ! i)"
  shows "nm (close_slot used nm release slots n ! i) \<noteq> n"
proof
  assume eq: "nm (close_slot used nm release slots n ! i) = n"
  have "used (slots ! i)" "nm (slots ! i) = n" using close_used [OF assms(2), of n] assms(3) eq by simp_all
  then have "find_slot used nm slots n = Some i" using find_unique [OF assms(1,2)] by simp
  then show False using close_used(1) [OF assms(2), of n] assms(3) by simp
qed

lemma close_gone:
  assumes "names_distinct used nm slots"
  shows "find_slot used nm (close_slot used nm release slots n) n = None"
  unfolding find_None
proof (intro ballI impI)
  fix s
  assume "s \<in> set (close_slot used nm release slots n)" "used s"
  then show "nm s \<noteq> n" using close_gone_nth [OF assms, of _ n] by (auto simp: in_set_conv_nth)
qed

lemma close_set: "s \<in> set (close_slot used nm release slots n) \<Longrightarrow> used s \<Longrightarrow> s \<in> set slots"
  using close_used(2) [of _ slots n] nth_mem [of _ slots] by (fastforce simp: in_set_conv_nth)

lemma close_all:
  assumes "\<forall>s \<in> set slots. Q s" "\<And>s. Q s \<Longrightarrow> Q (release s)"
  shows "\<forall>s \<in> set (close_slot used nm release slots n). Q s"
proof (cases "find_slot used nm slots n")
  case (Some i)
  then have "Q (release (slots ! i))" using find_Some assms nth_mem by blast
  then show ?thesis
    using assms(1) Some set_update_subset_insert [of slots i "release (slots ! i)"]
    by (auto simp: close_slot_def)
qed (use assms in \<open>simp add: close_slot_def\<close>)

lemma alloc_Some:
  assumes "alloc_slot used nm release fresh slots n = Some (j, slots')"
  shows "length slots' = length slots \<and> j < length slots \<and> \<not> used (close_slot used nm release slots n ! j) \<and>
     slots' = (close_slot used nm release slots n)[j := fresh]"
  using assms by (auto simp: alloc_slot_def Let_def first_index_Some_iff split: option.splits)

text \<open>Allocation fails only when the name is new and every slot is taken.\<close>

lemma alloc_None:
  assumes "alloc_slot used nm release fresh slots n = None"
  shows "find_slot used nm slots n = None \<and> list_all used slots"
proof -
  have all: "\<forall>s \<in> set (close_slot used nm release slots n). used s"
    using assms by (auto simp: alloc_slot_def Let_def first_index_None split: option.splits)
  have none: "find_slot used nm slots n = None"
  proof (rule ccontr)
    assume "find_slot used nm slots n \<noteq> None"
    then obtain i where i: "find_slot used nm slots n = Some i" by blast
    then have "close_slot used nm release slots n ! i = release (slots ! i)" "i < length slots"
      using find_Some [OF i] by (simp_all add: close_slot_def)
    then show False using all used_release by (metis length_close nth_mem)
  qed
  with all show ?thesis by (simp add: close_slot_def list_all_iff)
qed

text \<open>Filling the allocated slot with an entry of that name keeps the names distinct and makes
  the entry the one that is found; all other names are found as before.\<close>

lemma alloc_slot_at: "alloc_slot used nm release fresh slots n = Some (j, slots') \<Longrightarrow> slots' ! j = fresh"
  using alloc_Some by fastforce

lemma alloc_all:
  assumes "alloc_slot used nm release fresh slots n = Some (j, slots')"
    and "\<forall>s \<in> set slots. Q s" "\<And>s. Q s \<Longrightarrow> Q (release s)" "Q s"
  shows "\<forall>s \<in> set (slots'[j := s]). Q s"
proof -
  have "slots'[j := s] = (close_slot used nm release slots n)[j := s]" using alloc_Some [OF assms(1)] by simp
  then show ?thesis
    using close_all [of slots Q n] assms(2-4) set_update_subset_insert [of "close_slot used nm release slots n" j s]
    by auto
qed

lemma alloc_fill:
  assumes "names_distinct used nm slots" "alloc_slot used nm release fresh slots n = Some (j, slots')"
    and "used s" "nm s = n"
  shows "names_distinct used nm (slots'[j := s])"
    and "find_slot used nm (slots'[j := s]) n = Some j"
    and "x \<in> set (slots'[j := s]) \<Longrightarrow> used x \<Longrightarrow> x = s \<or> x \<in> set slots"
proof -
  let ?c = "close_slot used nm release slots n"
  from alloc_Some [OF assms(2)] have j: "j < length slots" "\<not> used (?c ! j)" "slots'[j := s] = ?c[j := s]"
    by simp_all
  have c: "names_distinct used nm ?c" by (rule close_distinct [OF assms(1)])
  have gone: "nm (?c ! i) \<noteq> n" if "i < length slots" "used (?c ! i)" for i
    by (rule close_gone_nth [OF assms(1) that])
  show d: "names_distinct used nm (slots'[j := s])"
    unfolding names_distinct_def j(3) length_list_update length_close
  proof (intro allI impI, elim conjE)
    fix i k
    assume ik: "i < length slots" "k < length slots" and u: "used (?c[j := s] ! i)" "used (?c[j := s] ! k)"
      and e: "nm (?c[j := s] ! i) = nm (?c[j := s] ! k)"
    show "i = k"
      using c ik u e gone [of i] gone [of k] assms(3,4) unfolding names_distinct_def length_close
      by (cases "i = j"; cases "k = j") simp_all
  qed
  show "find_slot used nm (slots'[j := s]) n = Some j"
    using find_unique [OF d, of j] j assms(3,4) by simp
  show "x \<in> set (slots'[j := s]) \<Longrightarrow> used x \<Longrightarrow> x = s \<or> x \<in> set slots"
    using set_update_subset_insert [of ?c j s] close_set [of x slots n] unfolding j(3) by blast
qed

lemma alloc_other:
  assumes "names_distinct used nm slots" "alloc_slot used nm release fresh slots n = Some (j, slots')"
    and "used s" "nm s = n" "m \<noteq> n"
  shows "find_slot used nm (slots'[j := s]) m = find_slot used nm slots m"
proof (cases "find_slot used nm slots m")
  case None
  then show ?thesis
    using alloc_fill(3) [OF assms(1-4)] assms(3,4,5) find_None [of slots m] find_None [of "slots'[j := s]" m] by auto
next
  case (Some i)
  let ?c = "close_slot used nm release slots n"
  note i = find_Some [OF Some]
  from alloc_Some [OF assms(2)] have j: "j < length slots" "\<not> used (?c ! j)" "slots'[j := s] = ?c[j := s]"
    by simp_all
  have "find_slot used nm slots n \<noteq> Some i" using i assms(5) find_Some [of slots n i] by auto
  then have c: "used (?c ! i)" "?c ! i = slots ! i"
    using close_used [of i slots n] i by auto
  then have "i \<noteq> j" using j(2) by auto
  then have "slots'[j := s] ! i = slots ! i" "i < length (slots'[j := s])" using j(3) c(2) i by simp_all
  then show ?thesis
    using find_unique [OF alloc_fill(1) [OF assms(1-4)], of i] i Some by simp
qed

end

section \<open>Prepared statements and portals\<close>

definition PG_MAX_PREPARED_STATEMENTS :: nat where "PG_MAX_PREPARED_STATEMENTS = 64"
definition PG_MAX_PORTALS :: nat where "PG_MAX_PORTALS = 64"
definition PG_MAX_BIND_PARAMS :: nat where "PG_MAX_BIND_PARAMS = 100"

record pg_statement =
  st_in_use :: bool
  st_name :: string8
  st_sql_text :: string8
  st_param_oids :: "u32 list"

record pg_portal =
  po_in_use :: bool
  po_name :: string8
  po_bound_sql_text :: string8
  po_looks_like_select :: bool
  po_result_format_codes :: "u16 list"
  po_executed :: bool
  po_had_error :: bool
  po_error_message :: string8
  po_result_set :: result_set
  po_rows_sent :: nat

record 'db pg_session =
  current_database :: "'db option"
  in_failed_pipeline :: bool
  statements :: "pg_statement list"
  portals :: "pg_portal list"

text \<open>\<open>MemoryZeroStruct\<close> and \<open>in_use = 1\<close>.\<close>

definition fresh_statement :: pg_statement where
  "fresh_statement = \<lparr>st_in_use = True, st_name = [], st_sql_text = [], st_param_oids = []\<rparr>"

definition fresh_portal :: pg_portal where
  "fresh_portal = \<lparr>po_in_use = True, po_name = [], po_bound_sql_text = [], po_looks_like_select = False,
     po_result_format_codes = [], po_executed = False, po_had_error = False, po_error_message = [],
     po_result_set = empty_result_set, po_rows_sent = 0\<rparr>"

definition release_statement :: "pg_statement \<Rightarrow> pg_statement" where
  "release_statement s = s\<lparr>st_in_use := False\<rparr>"

definition release_portal :: "pg_portal \<Rightarrow> pg_portal" where
  "release_portal p = p\<lparr>po_in_use := False\<rparr>"

definition pg_session_find_statement :: "'db pg_session \<Rightarrow> string8 \<Rightarrow> nat option" where
  "pg_session_find_statement s n = find_slot st_in_use st_name (statements s) n"

definition pg_session_alloc_statement :: "'db pg_session \<Rightarrow> string8 \<Rightarrow> (nat \<times> 'db pg_session) option" where
  "pg_session_alloc_statement s n =
     map_option (\<lambda>(j, slots). (j, s\<lparr>statements := slots\<rparr>))
       (alloc_slot st_in_use st_name release_statement fresh_statement (statements s) n)"

definition pg_session_close_statement :: "'db pg_session \<Rightarrow> string8 \<Rightarrow> 'db pg_session" where
  "pg_session_close_statement s n =
     s\<lparr>statements := close_slot st_in_use st_name release_statement (statements s) n\<rparr>"

definition pg_session_find_portal :: "'db pg_session \<Rightarrow> string8 \<Rightarrow> nat option" where
  "pg_session_find_portal s n = find_slot po_in_use po_name (portals s) n"

definition pg_session_alloc_portal :: "'db pg_session \<Rightarrow> string8 \<Rightarrow> (nat \<times> 'db pg_session) option" where
  "pg_session_alloc_portal s n =
     map_option (\<lambda>(j, slots). (j, s\<lparr>portals := slots\<rparr>))
       (alloc_slot po_in_use po_name release_portal fresh_portal (portals s) n)"

definition pg_session_close_portal :: "'db pg_session \<Rightarrow> string8 \<Rightarrow> 'db pg_session" where
  "pg_session_close_portal s n =
     s\<lparr>portals := close_slot po_in_use po_name release_portal (portals s) n\<rparr>"

interpretation stmts: slot_array st_in_use st_name release_statement fresh_statement
  by unfold_locales (simp_all add: release_statement_def fresh_statement_def)

interpretation prtls: slot_array po_in_use po_name release_portal fresh_portal
  by unfold_locales (simp_all add: release_portal_def fresh_portal_def)

section \<open>The message reader\<close>

record pg_reader =
  rd_data :: string8
  rd_pos :: nat
  rd_error :: bool

definition pg_reader_make :: "string8 \<Rightarrow> pg_reader" where
  "pg_reader_make body = \<lparr>rd_data = body, rd_pos = 0, rd_error = False\<rparr>"

definition pg_reader_bytes :: "pg_reader \<Rightarrow> nat \<Rightarrow> string8 \<times> pg_reader" where
  "pg_reader_bytes r n =
     (if rd_error r \<or> rd_pos r + n > length (rd_data r) then ([], r\<lparr>rd_error := True\<rparr>)
      else (take n (drop (rd_pos r) (rd_data r)), r\<lparr>rd_pos := rd_pos r + n\<rparr>))"

definition pg_reader_u8 :: "pg_reader \<Rightarrow> char \<times> pg_reader" where
  "pg_reader_u8 r =
     (if rd_error r \<or> rd_pos r + 1 > length (rd_data r) then (CHR 0x00, r\<lparr>rd_error := True\<rparr>)
      else (rd_data r ! rd_pos r, r\<lparr>rd_pos := rd_pos r + 1\<rparr>))"

definition pg_reader_u16 :: "pg_reader \<Rightarrow> u16 \<times> pg_reader" where
  "pg_reader_u16 r =
     (if rd_error r \<or> rd_pos r + 2 > length (rd_data r) then (0, r\<lparr>rd_error := True\<rparr>)
      else (read_be16 (drop (rd_pos r) (rd_data r)), r\<lparr>rd_pos := rd_pos r + 2\<rparr>))"

definition pg_reader_u32 :: "pg_reader \<Rightarrow> u32 \<times> pg_reader" where
  "pg_reader_u32 r =
     (if rd_error r \<or> rd_pos r + 4 > length (rd_data r) then (0, r\<lparr>rd_error := True\<rparr>)
      else (pg_read_be32 (drop (rd_pos r) (rd_data r)), r\<lparr>rd_pos := rd_pos r + 4\<rparr>))"

definition pg_reader_s32 :: "pg_reader \<Rightarrow> int \<times> pg_reader" where
  "pg_reader_s32 r = (let (v, r) = pg_reader_u32 r in (sint v, r))"

text \<open>The scan leaves the position at the end when there is no NUL.\<close>

definition pg_reader_cstr :: "pg_reader \<Rightarrow> string8 \<times> pg_reader" where
  "pg_reader_cstr r =
     (if rd_error r \<or> rd_pos r \<ge> length (rd_data r) then ([], r\<lparr>rd_error := True\<rparr>)
      else
        let s = takeWhile (\<lambda>c. c \<noteq> CHR 0x00) (drop (rd_pos r) (rd_data r));
            p = rd_pos r + length s
        in if p \<ge> length (rd_data r) then ([], r\<lparr>rd_pos := p, rd_error := True\<rparr>)
           else (s, r\<lparr>rd_pos := p + 1\<rparr>))"

text \<open>Reading several numbers in a row.\<close>

fun read_u16s :: "nat \<Rightarrow> pg_reader \<Rightarrow> u16 list \<times> pg_reader" where
  "read_u16s 0 r = ([], r)"
| "read_u16s (Suc n) r = (let (v, r) = pg_reader_u16 r; (vs, r) = read_u16s n r in (v # vs, r))"

fun read_u32s :: "nat \<Rightarrow> pg_reader \<Rightarrow> u32 list \<times> pg_reader" where
  "read_u32s 0 r = ([], r)"
| "read_u32s (Suc n) r = (let (v, r) = pg_reader_u32 r; (vs, r) = read_u32s n r in (v # vs, r))"

text \<open>A reader at a position with no error: what is left to read.\<close>

definition reads :: "pg_reader \<Rightarrow> string8 \<Rightarrow> bool" where
  "reads r rest \<longleftrightarrow> \<not> rd_error r \<and> rd_pos r \<le> length (rd_data r) \<and> drop (rd_pos r) (rd_data r) = rest"

lemma reads_make [simp]: "reads (pg_reader_make body) body"
  by (simp add: reads_def pg_reader_make_def)

lemma reads_advance: "reads r (xs @ rest) \<Longrightarrow> reads (r\<lparr>rd_pos := rd_pos r + length xs\<rparr>) rest"
  by (auto simp: reads_def add.commute dest: arg_cong [where f = length] arg_cong [where f = "drop (length xs)"])

lemma reads_u16:
  assumes "reads r (pg_be16 v @ rest)"
  shows "pg_reader_u16 r = (v, r\<lparr>rd_pos := rd_pos r + 2\<rparr>)" "reads (r\<lparr>rd_pos := rd_pos r + 2\<rparr>) rest"
proof -
  have "length (drop (rd_pos r) (rd_data r)) = 2 + length rest" using assms by (simp add: reads_def)
  then show "pg_reader_u16 r = (v, r\<lparr>rd_pos := rd_pos r + 2\<rparr>)"
    using assms by (auto simp: reads_def pg_reader_u16_def)
  show "reads (r\<lparr>rd_pos := rd_pos r + 2\<rparr>) rest" using reads_advance [OF assms] by simp
qed

lemma reads_u32:
  assumes "reads r (pg_be32 v @ rest)"
  shows "pg_reader_u32 r = (v, r\<lparr>rd_pos := rd_pos r + 4\<rparr>)" "reads (r\<lparr>rd_pos := rd_pos r + 4\<rparr>) rest"
proof -
  have "length (drop (rd_pos r) (rd_data r)) = 4 + length rest" using assms by (simp add: reads_def)
  then show "pg_reader_u32 r = (v, r\<lparr>rd_pos := rd_pos r + 4\<rparr>)"
    using assms by (auto simp: reads_def pg_reader_u32_def)
  show "reads (r\<lparr>rd_pos := rd_pos r + 4\<rparr>) rest" using reads_advance [OF assms] by simp
qed

lemma reads_cstr:
  assumes "reads r (pg_cstr s @ rest)" "CHR 0x00 \<notin> set s"
  shows "pg_reader_cstr r = (s, r\<lparr>rd_pos := rd_pos r + length s + 1\<rparr>)"
    and "reads (r\<lparr>rd_pos := rd_pos r + length s + 1\<rparr>) rest"
proof -
  have d: "drop (rd_pos r) (rd_data r) = s @ CHR 0x00 # rest" "\<not> rd_error r"
    using assms(1) by (simp_all add: reads_def pg_cstr_def)
  have "length (drop (rd_pos r) (rd_data r)) = Suc (length s + length rest)" using d by simp
  then have len: "rd_pos r + length s < length (rd_data r)" by simp
  have "takeWhile (\<lambda>c. c \<noteq> CHR 0x00) (s @ CHR 0x00 # rest) = s"
    using assms(2) by (induction s) auto
  then show "pg_reader_cstr r = (s, r\<lparr>rd_pos := rd_pos r + length s + 1\<rparr>)"
    using d len by (simp add: pg_reader_cstr_def)
  show "reads (r\<lparr>rd_pos := rd_pos r + length s + 1\<rparr>) rest"
    using reads_advance [OF assms(1)] by (simp add: pg_cstr_def)
qed

lemma reads_u32s:
  "reads r (concat (map pg_be32 vs) @ rest) \<Longrightarrow> \<exists>r'. read_u32s (length vs) r = (vs, r') \<and> reads r' rest"
proof (induction vs arbitrary: r)
  case (Cons v vs)
  then have "reads r (pg_be32 v @ concat (map pg_be32 vs) @ rest)" by simp
  note u = reads_u32 [OF this]
  from Cons.IH [OF u(2)] show ?case by (auto simp: u(1))
qed simp

lemma reads_no_error: "reads r rest \<Longrightarrow> \<not> rd_error r"
  by (simp add: reads_def)

end
