(* ===== verification/Pg_Server.thy ===== *)
theory Pg_Server
  imports Pg_Session
begin

text \<open>
  The handlers of the PostgreSQL front end, \<open>src/src/server/pg_server.c\<close>. The query
  engine behind \<open>app_execute_query_capture\<close> is an argument: from its state, the selected
  database and a text it gives the outcome the handlers look at. A handler ignores whether its sends
  succeeded, so it is a function on the server's state; \<^term>\<open>None\<close> is the out-of-range
  table read of \<^const>\<open>char_is_digit\<close>.
\<close>

section \<open>State\<close>

text \<open>The outcome of a query: \<open>APP_QueryResult\<close>, the result set, whether the error log
  grew, the last logged error, and the database selected afterwards.\<close>

record 'db qe_outcome =
  had_parse_error :: bool
  output_text :: string8
  out_result_set :: result_set
  had_runtime_error :: bool
  last_error :: string8
  out_database :: "'db option"

record ('w, 'db) pg_env =
  env_float_fmt :: float_fmt
  env_casts :: f64_casts
  env_execute :: "'w \<Rightarrow> 'db option \<Rightarrow> string8 \<Rightarrow> 'db qe_outcome \<times> 'w"

record ('w, 'db) pg_state =
  conn :: pg_conn
  sess :: "'db pg_session"
  world :: 'w

definition emit :: "(pg_conn \<Rightarrow> bool \<times> pg_conn) \<Rightarrow> ('w, 'db) pg_state \<Rightarrow> ('w, 'db) pg_state" where
  "emit send s = s\<lparr>conn := snd (send (conn s))\<rparr>"

definition fail_pipeline :: "('w, 'db) pg_state \<Rightarrow> ('w, 'db) pg_state" where
  "fail_pipeline s = s\<lparr>sess := (sess s)\<lparr>in_failed_pipeline := True\<rparr>\<rparr>"

text \<open>The error response that puts the session into the failed state.\<close>

definition reject :: "string8 \<Rightarrow> string8 \<Rightarrow> ('w, 'db) pg_state \<Rightarrow> ('w, 'db) pg_state" where
  "reject sqlstate msg s =
     fail_pipeline (emit (\<lambda>c. pg_send_error_response c ''ERROR'' sqlstate msg) s)"

definition default_error :: string8 where
  "default_error = ''query failed - see server log for details''"

definition quoted_name :: "string8 \<Rightarrow> string8 \<Rightarrow> string8" where
  "quoted_name what n = what @ '' '' @ [CHR 0x22] @ n @ [CHR 0x22] @ '' does not exist''"

definition fmt_hex :: "nat \<Rightarrow> nat \<Rightarrow> string8" where
  "fmt_hex width n =
     (let ds = map digit_char (digits_of 16 n) in replicate (width - length ds) CHR ''0'' @ ds)"

section \<open>Small helpers\<close>

definition pg_dummy_literal_for_oid :: "u32 \<Rightarrow> string8" where
  "pg_dummy_literal_for_oid oid =
     (if oid \<in> {PG_OID_INT2, PG_OID_INT4, PG_OID_INT8, PG_OID_FLOAT4, PG_OID_FLOAT8, PG_OID_BOOL}
      then ''0'' else [quote, quote])"

fun identifier_rest :: "string8 \<Rightarrow> bool option" where
  "identifier_rest [] = Some True"
| "identifier_rest (c # cs) =
     (if char_is_alpha c then identifier_rest cs
      else case char_is_digit c 10 of
             None \<Rightarrow> None
           | Some d \<Rightarrow> if d \<or> c = CHR ''_'' then identifier_rest cs else Some False)"

definition pg_is_valid_identifier :: "string8 \<Rightarrow> bool option" where
  "pg_is_valid_identifier s =
     (if length s = 0 \<or> length s > 128 then Some False
      else if \<not> (char_is_alpha (hd s) \<or> hd s = CHR ''_'') then Some False
      else identifier_rest (tl s))"

section \<open>Simple query\<close>

text \<open>The rows of a text result: one per non-empty line.\<close>

fun send_lines :: "string8 list \<Rightarrow> ('w, 'db) pg_state \<Rightarrow> ('w, 'db) pg_state" where
  "send_lines [] s = s"
| "send_lines (l # ls) s = send_lines ls (emit (\<lambda>c. pg_send_data_row_single_text_column c l) s)"

definition newline :: string8 where
  "newline = [CHR 0x0A]"

definition lines_of :: "string8 \<Rightarrow> string8 list" where
  "lines_of t = (case str8_split t newline split_words of None \<Rightarrow> [] | Some ls \<Rightarrow> ls)"

definition ready :: "('w, 'db) pg_state \<Rightarrow> ('w, 'db) pg_state" where
  "ready s = emit (\<lambda>c. pg_send_ready_for_query c CHR ''I'') s"

definition pg_handle_simple_query ::
  "('w, 'db) pg_env \<Rightarrow> ('w, 'db) pg_state \<Rightarrow> string8 \<Rightarrow> ('w, 'db) pg_state" where
  "pg_handle_simple_query env s sql =
     (if str8_skip_chop_whitespace sql = [] then ready (emit pg_send_empty_query_response s)
      else
        let (r, w) = env_execute env (world s) (current_database (sess s)) sql;
            s = s\<lparr>world := w, sess := (sess s)\<lparr>current_database := out_database r\<rparr>\<rparr>
        in if had_parse_error r \<or> had_runtime_error r then
             let msg = (if last_error r = [] then default_error else last_error r)
             in ready (emit (\<lambda>c. pg_send_error_response c ''ERROR'' ''XX000'' msg) s)
           else if rs_valid (out_result_set r) then
             let rs = out_result_set r;
                 s = emit (\<lambda>c. pg_send_row_description_from_result_set c rs) s;
                 s = emit (\<lambda>c. pg_send_data_rows_from_result_set c rs) s
             in ready (emit (\<lambda>c. pg_send_command_complete c (''SELECT '' @ fmt_unsigned (length (rs_rows rs)))) s)
           else if output_text r \<noteq> [] then
             let s = emit (\<lambda>c. pg_send_row_description_single_text_column c ''result'') s;
                 s = send_lines (lines_of (output_text r)) s
             in ready (emit (\<lambda>c. pg_send_command_complete c (pg_command_tag_from_sql sql)) s)
           else ready (emit (\<lambda>c. pg_send_command_complete c (pg_command_tag_from_sql sql)) s))"

section \<open>Parse\<close>

definition pg_handle_parse :: "('w, 'db) pg_state \<Rightarrow> string8 \<Rightarrow> ('w, 'db) pg_state" where
  "pg_handle_parse s msg_body =
     (let r = pg_reader_make msg_body;
          (stmt_name, r) = pg_reader_cstr r;
          (query, r) = pg_reader_cstr r;
          (num_param_types, r) = pg_reader_u16 r;
          param_count = min (unat num_param_types) PG_MAX_BIND_PARAMS;
          (param_oids, r) = read_u32s param_count r;
          (_, r) = read_u32s (unat num_param_types - param_count) r
      in if rd_error r then reject ''08P01'' ''malformed Parse message'' s
         else
           case pg_session_alloc_statement (sess s) stmt_name of
             None \<Rightarrow> reject ''53000'' ''too many prepared statements on this connection'' s
           | Some (j, se) \<Rightarrow>
               let stmt = (statements se ! j)\<lparr>st_name := stmt_name, st_sql_text := query, st_param_oids := param_oids\<rparr>
               in emit pg_send_parse_complete (s\<lparr>sess := se\<lparr>statements := (statements se)[j := stmt]\<rparr>\<rparr>))"

section \<open>Bind\<close>

definition bind_format :: "u16 list \<Rightarrow> nat \<Rightarrow> u16" where
  "bind_format format_codes i =
     (if length format_codes = 0 then 0
      else if length format_codes = 1 then format_codes ! 0
      else format_codes ! (if i < length format_codes then i else 0))"

text \<open>The loop over the parameter values: \<open>n\<close> are left, the next has index
  \<open>i\<close>; either the literals or the message of the error that ended the loop.\<close>

fun bind_values ::
  "float_fmt \<Rightarrow> u16 list \<Rightarrow> u32 list \<Rightarrow> nat \<Rightarrow> nat \<Rightarrow> pg_reader \<Rightarrow> string8 list \<Rightarrow> (string8 + string8 list) \<times> pg_reader" where
  "bind_values ff fmts oids 0 i r literals = (Inr literals, r)"
| "bind_values ff fmts oids (Suc n) i r literals =
     (let (len, r) = pg_reader_s32 r in
      if rd_error r then (Inl ''malformed Bind message'', r)
      else if len \<noteq> - 1 \<and> len < 0 then (Inl ''malformed Bind message (invalid parameter length)'', r)
      else
        let is_null = (len = - 1);
            (raw, r) = (if is_null then ([], r) else pg_reader_bytes r (nat len))
        in if rd_error r then (Inl ''malformed Bind message (truncated parameter value)'', r)
           else if i \<ge> PG_MAX_BIND_PARAMS then (Inl ''too many bind parameters'', r)
           else
             case pg_param_to_sql_literal ff (if i < length oids then oids ! i else 0)
                    (bind_format fmts i) raw is_null of
               Inl err \<Rightarrow> (Inl err, r)
             | Inr literal \<Rightarrow> bind_values ff fmts oids n (i + 1) r (literals @ [literal]))"

text \<open>A counted array of format codes, of which at most \<open>PG_MAX_BIND_PARAMS\<close> are kept.\<close>

definition read_format_codes :: "pg_reader \<Rightarrow> u16 list \<times> pg_reader" where
  "read_format_codes r =
     (let (n, r) = pg_reader_u16 r;
          kept = min (unat n) PG_MAX_BIND_PARAMS;
          (codes, r) = read_u16s kept r;
          (_, r) = read_u16s (unat n - kept) r
      in (codes, r))"

definition pg_handle_bind ::
  "('w, 'db) pg_env \<Rightarrow> ('w, 'db) pg_state \<Rightarrow> string8 \<Rightarrow> ('w, 'db) pg_state option" where
  "pg_handle_bind env s msg_body =
     (let r = pg_reader_make msg_body;
          (portal_name, r) = pg_reader_cstr r;
          (stmt_name, r) = pg_reader_cstr r;
          (format_codes, r) = read_format_codes r;
          (num_param_values, r) = pg_reader_u16 r
      in if rd_error r then Some (reject ''08P01'' ''malformed Bind message'' s)
         else
           case pg_session_find_statement (sess s) stmt_name of
             None \<Rightarrow> Some (reject ''26000'' (quoted_name ''prepared statement'' stmt_name) s)
           | Some k \<Rightarrow>
               let stmt = statements (sess s) ! k;
                   (values, r) = bind_values (env_float_fmt env) format_codes (st_param_oids stmt)
                                   (unat num_param_values) 0 r [];
                   bound = (case values of
                              Inl e \<Rightarrow> Inl e
                            | Inr literals \<Rightarrow>
                                let (codes, r) = read_format_codes r
                                in if rd_error r then Inl ''malformed Bind message'' else Inr (literals, codes))
               in case bound of
                    Inl e \<Rightarrow> Some (reject ''22P02'' (if e \<noteq> [] then e else ''bind parameter error'') s)
                  | Inr (literals, codes) \<Rightarrow>
                      (case pg_session_alloc_portal (sess s) portal_name of
                         None \<Rightarrow> Some (reject ''53000'' ''too many portals on this connection'' s)
                       | Some (j, se) \<Rightarrow>
                           map_option (\<lambda>sql.
                             let portal = (portals se ! j)\<lparr>po_name := portal_name, po_bound_sql_text := sql,
                                   po_looks_like_select := pg_looks_like_select (st_sql_text stmt),
                                   po_result_format_codes := codes\<rparr>
                             in emit pg_send_bind_complete (s\<lparr>sess := se\<lparr>portals := (portals se)[j := portal]\<rparr>\<rparr>))
                             (pg_substitute_params (st_sql_text stmt) literals)))"

section \<open>Describe and execute\<close>

definition pg_portal_ensure_executed ::
  "('w, 'db) pg_env \<Rightarrow> ('w, 'db) pg_state \<Rightarrow> nat \<Rightarrow> ('w, 'db) pg_state" where
  "pg_portal_ensure_executed env s j =
     (let portal = portals (sess s) ! j in
      if po_executed portal then s
      else
        let (r, w) = env_execute env (world s) (current_database (sess s)) (po_bound_sql_text portal);
            failed = (had_parse_error r \<or> had_runtime_error r);
            portal = portal\<lparr>po_result_set := out_result_set r, po_executed := True\<rparr>;
            portal = (if failed
                      then portal\<lparr>po_had_error := True,
                             po_error_message := (if last_error r \<noteq> [] then last_error r else default_error)\<rparr>
                      else portal)
        in s\<lparr>world := w,
             sess := (sess s)\<lparr>portals := (portals (sess s))[j := portal],
                        current_database := (if failed then current_database (sess s) else out_database r)\<rparr>\<rparr>)"

definition describe_statement ::
  "('w, 'db) pg_env \<Rightarrow> ('w, 'db) pg_state \<Rightarrow> string8 \<Rightarrow> ('w, 'db) pg_state option" where
  "describe_statement env s n =
     (case pg_session_find_statement (sess s) n of
        None \<Rightarrow> Some (reject ''26000'' (quoted_name ''prepared statement'' n) s)
      | Some k \<Rightarrow>
          let stmt = statements (sess s) ! k;
              s = emit (\<lambda>c. pg_send_parameter_description c (st_param_oids stmt)) s
          in if pg_looks_like_select (st_sql_text stmt) then
               map_option (\<lambda>shape_sql.
                   let (r, w) = env_execute env (world s) (current_database (sess s)) shape_sql;
                       s = s\<lparr>world := w\<rparr>
                   in if rs_valid (out_result_set r)
                      then emit (\<lambda>c. pg_send_row_description_from_result_set_ex c (out_result_set r) []) s
                      else emit pg_send_no_data s)
                 (pg_substitute_params (st_sql_text stmt) (map pg_dummy_literal_for_oid (st_param_oids stmt)))
             else Some (emit pg_send_no_data s))"

definition describe_portal ::
  "('w, 'db) pg_env \<Rightarrow> ('w, 'db) pg_state \<Rightarrow> string8 \<Rightarrow> ('w, 'db) pg_state" where
  "describe_portal env s n =
     (case pg_session_find_portal (sess s) n of
        None \<Rightarrow> reject ''34000'' (quoted_name ''portal'' n) s
      | Some j \<Rightarrow>
          if \<not> po_looks_like_select (portals (sess s) ! j) then emit pg_send_no_data s
          else
            let s = pg_portal_ensure_executed env s j;
                portal = portals (sess s) ! j
            in if po_had_error portal then reject ''XX000'' (po_error_message portal) s
               else if rs_valid (po_result_set portal)
               then emit (\<lambda>c. pg_send_row_description_from_result_set_ex c (po_result_set portal)
                                (po_result_format_codes portal)) s
               else emit pg_send_no_data s)"

definition pg_handle_describe ::
  "('w, 'db) pg_env \<Rightarrow> ('w, 'db) pg_state \<Rightarrow> string8 \<Rightarrow> ('w, 'db) pg_state option" where
  "pg_handle_describe env s msg_body =
     (let r = pg_reader_make msg_body;
          (kind, r) = pg_reader_u8 r;
          (n, r) = pg_reader_cstr r
      in if rd_error r then Some (reject ''08P01'' ''malformed Describe message'' s)
         else if kind = CHR ''S'' then describe_statement env s n
         else if kind = CHR ''P'' then Some (describe_portal env s n)
         else Some (reject ''08P01'' (''invalid Describe target type '' @ [quote, kind, quote]) s))"

text \<open>The rows of one Execute: the next ones, up to the limit of the message.\<close>

definition send_portal_rows ::
  "('w, 'db) pg_env \<Rightarrow> ('w, 'db) pg_state \<Rightarrow> nat \<Rightarrow> int \<Rightarrow> ('w, 'db) pg_state" where
  "send_portal_rows env s j max_rows =
     (let portal = portals (sess s) ! j;
          rs = po_result_set portal;
          remaining = length (rs_rows rs) - po_rows_sent portal;
          to_send = (if max_rows > 0 then min (nat max_rows) remaining else remaining);
          s = emit (\<lambda>c. pg_send_data_rows_from_result_set_range (env_casts env) c rs
                     (po_result_format_codes portal) (po_rows_sent portal) to_send) s;
          rows_sent = po_rows_sent portal + to_send;
          s = s\<lparr>sess := (sess s)\<lparr>portals := (portals (sess s))[j := portal\<lparr>po_rows_sent := rows_sent\<rparr>]\<rparr>\<rparr>
      in if max_rows > 0 \<and> rows_sent < length (rs_rows rs) then emit pg_send_portal_suspended s
         else emit (\<lambda>c. pg_send_command_complete c (''SELECT '' @ fmt_unsigned rows_sent)) s)"

definition pg_handle_execute ::
  "('w, 'db) pg_env \<Rightarrow> ('w, 'db) pg_state \<Rightarrow> string8 \<Rightarrow> ('w, 'db) pg_state" where
  "pg_handle_execute env s msg_body =
     (let r = pg_reader_make msg_body;
          (portal_name, r) = pg_reader_cstr r;
          (max_rows, r) = pg_reader_s32 r
      in if rd_error r then reject ''08P01'' ''malformed Execute message'' s
         else
           case pg_session_find_portal (sess s) portal_name of
             None \<Rightarrow> reject ''34000'' (quoted_name ''portal'' portal_name) s
           | Some j \<Rightarrow>
               let s = pg_portal_ensure_executed env s j;
                   portal = portals (sess s) ! j
               in if po_had_error portal then reject ''XX000'' (po_error_message portal) s
                  else if rs_valid (po_result_set portal) then send_portal_rows env s j max_rows
                  else emit (\<lambda>c. pg_send_command_complete c (pg_command_tag_from_sql (po_bound_sql_text portal))) s)"

section \<open>Close\<close>

definition pg_handle_close :: "('w, 'db) pg_state \<Rightarrow> string8 \<Rightarrow> ('w, 'db) pg_state" where
  "pg_handle_close s msg_body =
     (let r = pg_reader_make msg_body;
          (kind, r) = pg_reader_u8 r;
          (n, r) = pg_reader_cstr r;
          se = (if \<not> rd_error r then
                  if kind = CHR ''S'' then pg_session_close_statement (sess s) n
                  else if kind = CHR ''P'' then pg_session_close_portal (sess s) n
                  else sess s
                else sess s)
      in emit pg_send_close_complete (s\<lparr>sess := se\<rparr>))"

section \<open>The connection\<close>

text \<open>One message of the loop of \<open>pg_connection_thread_proc\<close>: whether to go on, and the
  state after it.\<close>

definition unless_failed ::
  "('w, 'db) pg_state \<Rightarrow> ('w, 'db) pg_state option \<Rightarrow> (bool \<times> ('w, 'db) pg_state) option" where
  "unless_failed s r =
     (if \<not> in_failed_pipeline (sess s) then map_option (\<lambda>s. (True, s)) r else Some (True, s))"

definition clear_failed :: "('w, 'db) pg_state \<Rightarrow> ('w, 'db) pg_state" where
  "clear_failed s = s\<lparr>sess := (sess s)\<lparr>in_failed_pipeline := False\<rparr>\<rparr>"

definition strip_nul :: "string8 \<Rightarrow> string8" where
  "strip_nul sql = (if length sql > 0 \<and> last sql = CHR 0x00 then butlast sql else sql)"

definition extended :: "char set" where
  "extended = {CHR ''P'', CHR ''B'', CHR ''D'', CHR ''E'', CHR ''C''}"

definition extended_handler ::
  "('w, 'db) pg_env \<Rightarrow> ('w, 'db) pg_state \<Rightarrow> char \<Rightarrow> string8 \<Rightarrow> ('w, 'db) pg_state option" where
  "extended_handler env s msg_type body =
     (if msg_type = CHR ''P'' then Some (pg_handle_parse s body)
      else if msg_type = CHR ''B'' then pg_handle_bind env s body
      else if msg_type = CHR ''D'' then pg_handle_describe env s body
      else if msg_type = CHR ''E'' then Some (pg_handle_execute env s body)
      else Some (pg_handle_close s body))"

definition pg_message ::
  "('w, 'db) pg_env \<Rightarrow> ('w, 'db) pg_state \<Rightarrow> char \<Rightarrow> string8 \<Rightarrow> (bool \<times> ('w, 'db) pg_state) option" where
  "pg_message env s msg_type body =
     (if msg_type = CHR ''Q'' then
        Some (True, pg_handle_simple_query env (clear_failed s) (strip_nul body))
      else if msg_type \<in> extended then unless_failed s (extended_handler env s msg_type body)
      else if msg_type = CHR ''H'' then Some (True, s)
      else if msg_type = CHR ''S'' then Some (True, ready (clear_failed s))
      else if msg_type = CHR ''X'' then Some (False, s)
      else if msg_type \<in> {CHR ''d'', CHR ''c'', CHR ''f''}
      then Some (True, reject ''0A000'' ''COPY is not supported'' s)
      else Some (True, reject ''08P01''
             (''unsupported frontend message type '' @ [quote, msg_type, quote] @ '' (0x'' @
              fmt_hex 2 (byte msg_type) @ '')'') s))"

text \<open>The loop, with fuel: every message takes at least five bytes off the connection.\<close>

datatype 'a run = Closed 'a | Undefined | Out_of_fuel

fun pg_messages :: "nat \<Rightarrow> ('w, 'db) pg_env \<Rightarrow> ('w, 'db) pg_state \<Rightarrow> ('w, 'db) pg_state run" where
  "pg_messages 0 env s = Out_of_fuel"
| "pg_messages (Suc n) env s =
     (case pg_recv_typed (conn s) of
        None \<Rightarrow> Closed s
      | Some (ty, body, c) \<Rightarrow>
          (case pg_message env (s\<lparr>conn := c\<rparr>) ty body of
             None \<Rightarrow> Undefined
           | Some (keep_going, s) \<Rightarrow> if keep_going then pg_messages n env s else Closed s))"

section \<open>Startup\<close>

definition empty_session :: "'db option \<Rightarrow> 'db pg_session" where
  "empty_session db =
     \<lparr>current_database = db, in_failed_pipeline = False,
      statements = replicate PG_MAX_PREPARED_STATEMENTS (release_statement fresh_statement),
      portals = replicate PG_MAX_PORTALS (release_portal fresh_portal)\<rparr>"

abbreviation "PG_SSL_REQUEST_CODE \<equiv> (80877103 :: u32)"
abbreviation "PG_GSSENC_REQUEST_CODE \<equiv> (80877104 :: u32)"
abbreviation "PG_CANCEL_REQUEST_CODE \<equiv> (80877102 :: u32)"

text \<open>The negotiation loop: the startup parameters, if there are any, and the connection.\<close>

fun startup_params :: "nat \<Rightarrow> pg_conn \<Rightarrow> string8 option \<times> pg_conn" where
  "startup_params 0 c = (None, c)"
| "startup_params (Suc attempts) c =
     (case pg_recv_untyped c of
        None \<Rightarrow> (None, c)
      | Some (body, c) \<Rightarrow>
          if length body < 4 then (None, c)
          else
            let code = pg_read_be32 body in
            if code = PG_SSL_REQUEST_CODE \<or> code = PG_GSSENC_REQUEST_CODE then
              let (ok, c) = pg_send_raw_byte c CHR ''N''
              in if \<not> ok then (None, c) else startup_params attempts c
            else if code = PG_CANCEL_REQUEST_CODE then (None, c)
            else if drop_bit 16 code = 3 then (Some (str8_skip body 4), c)
            else (None, snd (pg_send_error_response c ''FATAL'' ''08004''
                    (''unsupported protocol version 0x'' @ fmt_hex 8 (unat code) @
                     '' - this server speaks protocol 3.0''))))"

definition parameter_statuses :: "(string8 \<times> string8) list" where
  "parameter_statuses =
     [(''server_version'', ''14.0''), (''client_encoding'', ''UTF8''), (''server_encoding'', ''UTF8''),
      (''DateStyle'', ''ISO, MDY''), (''integer_datetimes'', ''on''),
      (''standard_conforming_strings'', ''on'')]"

definition send_parameter_statuses :: "pg_conn \<Rightarrow> pg_conn" where
  "send_parameter_statuses c =
     foldl (\<lambda>c (n, v). snd (pg_send_parameter_status c n v)) c parameter_statuses"

text \<open>The handshake with the process id and secret it makes up from the clock: whether the
  session starts, the database selected, the connection and the engine's state.\<close>

definition pg_do_startup_handshake ::
  "('w, 'db) pg_env \<Rightarrow> 'w \<Rightarrow> u32 \<Rightarrow> u32 \<Rightarrow> pg_conn \<Rightarrow> (bool \<times> 'db option \<times> pg_conn \<times> 'w) option" where
  "pg_do_startup_handshake env w pid secret c =
     (case startup_params 8 c of
        (None, c) \<Rightarrow> Some (False, None, c, w)
      | (Some params, c) \<Rightarrow>
          let database_param = pg_startup_param_find params ''database'' in
          case (if length database_param > 0 then pg_is_valid_identifier database_param else Some True) of
            None \<Rightarrow> None
          | Some False \<Rightarrow>
              Some (False, None, snd (pg_send_error_response c ''FATAL'' ''3D000'' ''invalid database name''), w)
          | Some True \<Rightarrow>
              let (ok, c) = pg_send_authentication_ok c in
              if \<not> ok then Some (False, None, c, w)
              else
                let (ok, c) = pg_send_backend_key_data (send_parameter_statuses c) pid secret in
                if \<not> ok then Some (False, None, c, w)
                else
                  let (db, w) = (if length database_param > 0
                                 then let (r, w) = env_execute env w None (''USE '' @ database_param @ '';'')
                                      in (out_database r, w)
                                 else (None, w));
                      (ok, c) = pg_send_ready_for_query c CHR ''I''
                  in Some (ok, db, c, w))"

definition pg_connection_thread_proc ::
  "nat \<Rightarrow> ('w, 'db) pg_env \<Rightarrow> 'w \<Rightarrow> u32 \<Rightarrow> u32 \<Rightarrow> pg_conn \<Rightarrow> ('w \<times> pg_conn) run" where
  "pg_connection_thread_proc fuel env w pid secret c =
     (case pg_do_startup_handshake env w pid secret c of
        None \<Rightarrow> Undefined
      | Some (ok, db, c, w) \<Rightarrow>
          if \<not> ok then Closed (w, c)
          else case pg_messages fuel env \<lparr>conn = c, sess = empty_session db, world = w\<rparr> of
                 Closed s \<Rightarrow> Closed (world s, conn s)
               | Undefined \<Rightarrow> Undefined
               | Out_of_fuel \<Rightarrow> Out_of_fuel)"

section \<open>What is sent\<close>

text \<open>The connection after a handler is the one before with a list of whole messages sent on
  it, cut off where the room ends.\<close>

definition sends :: "(char \<times> string8) list \<Rightarrow> pg_conn \<Rightarrow> pg_conn \<Rightarrow> bool" where
  "sends msgs c c' \<longleftrightarrow> c' = snd (os_net_send_exact c (concat (map (\<lambda>(t, b). message t b) msgs)))"

lemma send_exact_append:
  "snd (os_net_send_exact (snd (os_net_send_exact c a)) b) = snd (os_net_send_exact c (a @ b))"
  by (cases c) (auto simp: os_net_send_exact_def)

lemma sends_append: "sends xs c d \<Longrightarrow> sends ys d e \<Longrightarrow> sends (xs @ ys) c e"
  by (simp add: sends_def send_exact_append)

lemma sends_nil [simp]: "sends [] c d \<longleftrightarrow> d = c"
  by (cases c) (auto simp: sends_def os_net_send_exact_def)

lemma sends_msg [simp]: "sends [(t, concat parts)] c (snd (pg_send_msg c t parts))"
  by (simp add: sends_def pg_send_msg_eq)

lemma sends_inbox: "sends xs c d \<Longrightarrow> inbox d = inbox c"
  by (simp add: sends_def os_net_send_exact_def)

text \<open>The types of the messages, which is what the client's state machine goes by.\<close>

definition replies :: "char list \<Rightarrow> pg_conn \<Rightarrow> pg_conn \<Rightarrow> bool" where
  "replies ts c c' \<longleftrightarrow> (\<exists>msgs. map fst msgs = ts \<and> sends msgs c c')"

lemma replies_nil [simp]: "replies [] c c"
  by (auto simp: replies_def intro: exI [of _ "[]"])

lemma replies_append: "replies ts c d \<Longrightarrow> replies us d e \<Longrightarrow> replies (ts @ us) c e"
  unfolding replies_def using sends_append by (metis map_append)

lemma replies_msg [simp]: "replies [t] c (snd (pg_send_msg c t parts))"
  unfolding replies_def by (intro exI [of _ "[(t, concat parts)]"]) simp

lemma replies_inbox: "replies ts c d \<Longrightarrow> inbox d = inbox c"
  by (auto simp: replies_def dest: sends_inbox)

lemma replies_room: "replies ts c d \<Longrightarrow> room c = 0 \<Longrightarrow> d = c"
  by (cases c) (auto simp: replies_def sends_def os_net_send_exact_def)

named_theorems pg_senders

declare pg_send_authentication_ok_def [pg_senders] pg_send_parameter_status_def [pg_senders]
  pg_send_backend_key_data_def [pg_senders] pg_send_ready_for_query_def [pg_senders]
  pg_send_error_response_def [pg_senders] pg_send_empty_query_response_def [pg_senders]
  pg_send_command_complete_def [pg_senders] pg_send_no_data_def [pg_senders]
  pg_send_parse_complete_def [pg_senders] pg_send_bind_complete_def [pg_senders]
  pg_send_close_complete_def [pg_senders] pg_send_portal_suspended_def [pg_senders]
  pg_send_parameter_description_def [pg_senders]
  pg_send_row_description_from_result_set_def [pg_senders]
  pg_send_row_description_from_result_set_ex_def [pg_senders]
  pg_send_row_description_single_text_column_def [pg_senders]
  pg_send_data_row_single_text_column_def [pg_senders]

text \<open>A loop that stops at the first failed send has sent what it would have sent anyway: after
  a failure there is no room left.\<close>

lemma send_fail_room: "\<not> fst (pg_send_msg c t parts) \<Longrightarrow> room (snd (pg_send_msg c t parts)) = 0"
  by (simp add: pg_send_msg_eq os_net_send_exact_def)

lemma replies_none: "room c = 0 \<Longrightarrow> replies ts c c"
  unfolding replies_def sends_def
  by (intro exI [of _ "map (\<lambda>t. (t, [])) ts"]) (cases c; simp add: os_net_send_exact_def comp_def)

lemma replies_guarded:
  assumes "pg_send_msg c t parts = (ok, d)" "replies us d e"
  shows "replies (t # us) c (if ok then e else d)"
proof -
  have d: "replies [t] c d" using replies_msg [of t c parts] assms(1) by simp
  have "ok \<or> replies us d d" using send_fail_room [of c t parts] assms(1) by (auto intro: replies_none)
  then show ?thesis using replies_append [OF d, of us] assms(2) by auto
qed

lemma send_text_rows_replies:
  "replies (replicate (length rows) CHR ''D'') c (snd (send_text_rows c n rows))"
proof (induction rows arbitrary: c)
  case (Cons row rows)
  obtain ok d where r: "pg_send_msg c CHR ''D'' (pg_be16 (of_nat n) # concat (map text_cell row)) = (ok, d)"
    by fastforce
  show ?case using replies_guarded [OF r Cons [of d]] r by (auto split: if_splits)
qed simp

lemma send_typed_rows_replies:
  "replies (replicate (length rows) CHR ''D'') c (snd (send_typed_rows fc c cols fmts rows))"
proof (induction rows arbitrary: c)
  case (Cons row rows)
  obtain ok d where r: "pg_send_msg c CHR ''D''
            (pg_be16 (of_nat (length cols)) #
             concat (map (\<lambda>(i, col, cell).
                typed_cell fc (pg_result_format_code_for_column fmts i) (snd col) cell)
               (enumerate 0 (zip cols row)))) = (ok, d)"
    by fastforce
  show ?case using replies_guarded [OF r Cons [of d]] r by (auto split: if_splits)
qed simp

lemma replies_emit:
  "replies ts c (conn s) \<Longrightarrow> replies us (conn s) (snd (send (conn s))) \<Longrightarrow> replies (ts @ us) c (conn (emit send s))"
  unfolding emit_def using replies_append by fastforce

end
