(* ===== verification/Pg_Conform.thy ===== *)
theory Pg_Conform
  imports Pg_Server
begin

text \<open>
  What the PostgreSQL front end promises its client: which messages answer which, that a failed
  pipeline is silent until the next Sync, that the session's tables stay well formed, and that a
  connection always comes to its end.
\<close>

section \<open>Replies of the handlers\<close>

abbreviation failed :: "('w, 'db) pg_state \<Rightarrow> bool" where
  "failed s \<equiv> in_failed_pipeline (sess s)"

text \<open>A handler of the extended protocol sends no ReadyForQuery, and the session is in the failed
  state afterwards exactly if it was before or an error went out.\<close>

definition conforms :: "('w, 'db) pg_state \<Rightarrow> ('w, 'db) pg_state \<Rightarrow> bool" where
  "conforms s s' \<longleftrightarrow>
     (\<exists>ts. replies ts (conn s) (conn s') \<and> CHR ''Z'' \<notin> set ts \<and>
        (failed s' \<longleftrightarrow> failed s \<or> CHR ''E'' \<in> set ts))"

lemma conn_emit [simp]: "conn (emit send s) = snd (send (conn s))"
  and sess_emit [simp]: "sess (emit send s) = sess s"
  and world_emit [simp]: "world (emit send s) = world s"
  by (simp_all add: emit_def)

lemma sess_reject [simp]:
  "sess (reject code msg s) = (sess s)\<lparr>in_failed_pipeline := True\<rparr>"
  by (simp add: reject_def fail_pipeline_def)

lemma conforms_same: "conn s' = conn s \<Longrightarrow> failed s' = failed s \<Longrightarrow> conforms s s'"
  by (auto simp: conforms_def intro!: exI [of _ "[]"])

lemma conforms_trans: "conforms s t \<Longrightarrow> conforms t u \<Longrightarrow> conforms s u"
  unfolding conforms_def
proof (elim exE conjE)
  fix ts us
  assume "replies ts (conn s) (conn t)" "replies us (conn t) (conn u)"
    "CHR ''Z'' \<notin> set ts" "CHR ''Z'' \<notin> set us"
    "failed t \<longleftrightarrow> failed s \<or> CHR ''E'' \<in> set ts" "failed u \<longleftrightarrow> failed t \<or> CHR ''E'' \<in> set us"
  then show "\<exists>ts. replies ts (conn s) (conn u) \<and> CHR ''Z'' \<notin> set ts \<and> (failed u \<longleftrightarrow> failed s \<or> CHR ''E'' \<in> set ts)"
    by (intro exI [of _ "ts @ us"]) (auto intro: replies_append)
qed

lemma conforms_emit:
  assumes "replies ts (conn s) (snd (send (conn s)))" "set ts \<inter> {CHR ''Z'', CHR ''E''} = {}"
  shows "conforms s (emit send s)"
  using assms by (auto simp: conforms_def)

lemma conforms_reject: "conforms s (reject code msg s)"
  unfolding conforms_def
  by (rule exI [of _ "''E''"]) (simp add: reject_def fail_pipeline_def pg_send_error_response_def)

text \<open>A change of the state followed by a message.\<close>

lemma conforms_update_emit:
  assumes "conn s' = conn s" "failed s' = failed s"
    and "replies ts (conn s) (snd (send (conn s)))" "set ts \<inter> {CHR ''Z'', CHR ''E''} = {}"
  shows "conforms s (emit send s')"
  using conforms_trans [OF conforms_same [OF assms(1,2)] conforms_emit] assms(1,3,4) by simp

lemma conforms_answer:
  assumes "conn s' = conn s" "failed s' = failed s"
  shows "conforms s (emit pg_send_no_data s')" "conforms s (emit pg_send_parse_complete s')"
    "conforms s (emit pg_send_bind_complete s')" "conforms s (emit pg_send_close_complete s')"
    "conforms s (emit pg_send_portal_suspended s')" "conforms s (emit (\<lambda>c. pg_send_command_complete c tag) s')"
    "conforms s (emit (\<lambda>c. pg_send_parameter_description c oids) s')"
    "conforms s (emit (\<lambda>c. pg_send_row_description_from_result_set_ex c rs fmts) s')"
  by (rule conforms_update_emit [OF assms, where ts = "''n''"], simp_all add: pg_senders,
      rule conforms_update_emit [OF assms, where ts = "''1''"], simp_all add: pg_senders,
      rule conforms_update_emit [OF assms, where ts = "''2''"], simp_all add: pg_senders,
      rule conforms_update_emit [OF assms, where ts = "''3''"], simp_all add: pg_senders,
      rule conforms_update_emit [OF assms, where ts = "''s''"], simp_all add: pg_senders,
      rule conforms_update_emit [OF assms, where ts = "''C''"], simp_all add: pg_senders,
      rule conforms_update_emit [OF assms, where ts = "''t''"], simp_all add: pg_senders,
      rule conforms_update_emit [OF assms, where ts = "''T''"], simp_all add: pg_senders)

lemma sess_alloc_statement:
  "pg_session_alloc_statement se n = Some (j, se') \<Longrightarrow>
     in_failed_pipeline se' = in_failed_pipeline se \<and> portals se' = portals se \<and> current_database se' = current_database se"
  by (auto simp: pg_session_alloc_statement_def)

lemma sess_alloc_portal:
  "pg_session_alloc_portal se n = Some (j, se') \<Longrightarrow>
     in_failed_pipeline se' = in_failed_pipeline se \<and> statements se' = statements se \<and> current_database se' = current_database se"
  by (auto simp: pg_session_alloc_portal_def)

lemma conforms_parse: "conforms s (pg_handle_parse s body)"
  by (auto simp: pg_handle_parse_def Let_def split: prod.splits option.splits
      intro!: conforms_reject conforms_answer dest: sess_alloc_statement)

lemma conforms_bind: "pg_handle_bind env s body = Some s' \<Longrightarrow> conforms s s'"
  by (auto simp: pg_handle_bind_def Let_def split: prod.splits option.splits sum.splits if_splits
      intro!: conforms_reject conforms_answer dest: sess_alloc_portal)

lemma ensure_executed_conn [simp]:
  "conn (pg_portal_ensure_executed env s j) = conn s"
  "failed (pg_portal_ensure_executed env s j) = failed s"
  "statements (sess (pg_portal_ensure_executed env s j)) = statements (sess s)"
  by (auto simp: pg_portal_ensure_executed_def Let_def split: prod.splits)

lemma conforms_describe_statement: "describe_statement env s n = Some s' \<Longrightarrow> conforms s s'"
proof (cases "pg_session_find_statement (sess s) n")
  case None
  then show "describe_statement env s n = Some s' \<Longrightarrow> ?thesis"
    by (auto simp: describe_statement_def intro: conforms_reject)
next
  case (Some k)
  have first: "conforms s (emit (\<lambda>c. pg_send_parameter_description c (st_param_oids (statements (sess s) ! k))) s)"
    by (rule conforms_answer) simp_all
  assume "describe_statement env s n = Some s'"
  then show "conforms s s'"
    using Some by (auto simp: describe_statement_def Let_def case_prod_unfold split: if_splits
        intro!: conforms_trans [OF first] conforms_answer)
qed

lemma conforms_describe_portal: "conforms s (describe_portal env s n)"
proof (cases "pg_session_find_portal (sess s) n")
  case None
  then show ?thesis by (auto simp: describe_portal_def intro: conforms_reject)
next
  case (Some j)
  have run: "conforms s (pg_portal_ensure_executed env s j)" by (rule conforms_same) simp_all
  show ?thesis
    using Some
    by (auto simp: describe_portal_def Let_def
        intro!: conforms_answer conforms_trans [OF run conforms_reject])
qed

lemma conforms_describe: "pg_handle_describe env s body = Some s' \<Longrightarrow> conforms s s'"
  by (auto simp: pg_handle_describe_def Let_def split: prod.splits if_splits
      intro: conforms_reject conforms_describe_portal conforms_describe_statement)

lemma conforms_rows:
  "conforms s (emit (\<lambda>c. pg_send_data_rows_from_result_set_range fc c rs fmts i k) s)"
proof -
  let ?rows = "take (min (i + k) (length (rs_rows rs)) - i) (drop i (rs_rows rs))"
  have "replies (replicate (length ?rows) CHR ''D'') (conn s)
      (snd (pg_send_data_rows_from_result_set_range fc (conn s) rs fmts i k))"
    unfolding pg_send_data_rows_from_result_set_range_def Let_def by (rule send_typed_rows_replies)
  then show ?thesis by (rule conforms_emit) (simp add: set_replicate_conv_if)
qed

lemma conforms_send_portal_rows: "conforms s (send_portal_rows env s j max_rows)"
  unfolding send_portal_rows_def Let_def
  by (simp split: if_splits) (intro conjI impI; rule conforms_trans [OF conforms_rows conforms_answer(5)]
      conforms_trans [OF conforms_rows conforms_answer(6)]; simp)

lemma conforms_execute: "conforms s (pg_handle_execute env s body)"
proof -
  have run: "conforms s (pg_portal_ensure_executed env s j)" for j by (rule conforms_same) simp_all
  show ?thesis
    unfolding pg_handle_execute_def Let_def
    by (auto split: prod.splits option.splits
        intro!: conforms_reject conforms_trans [OF run conforms_reject] conforms_answer
          conforms_trans [OF run conforms_send_portal_rows])
qed

lemma conforms_close: "conforms s (pg_handle_close s body)"
  by (auto simp: pg_handle_close_def Let_def pg_session_close_statement_def pg_session_close_portal_def
      split: prod.splits intro!: conforms_answer)

text \<open>A Simple Query is answered by any number of messages and one ReadyForQuery, the last.\<close>

lemma replies_ready:
  assumes "replies ts c (conn s)"
  shows "replies (ts @ ''Z'') c (conn (ready s))"
  using replies_append [OF assms] by (simp add: ready_def pg_senders)

lemma send_lines_replies: "replies (replicate (length ls) CHR ''D'') (conn s) (conn (send_lines ls s))"
proof (induction ls arbitrary: s)
  case (Cons l ls)
  have "replies ''D'' (conn s) (conn (emit (\<lambda>c. pg_send_data_row_single_text_column c l) s))"
    by (simp add: pg_senders)
  from replies_append [OF this Cons] show ?case by simp
qed simp

lemma send_lines_sess [simp]: "sess (send_lines ls s) = sess s"
  by (induction ls arbitrary: s) simp_all

lemma replies_then_emit:
  "replies ts c (conn s) \<Longrightarrow> replies us (conn s) (snd (send (conn s))) \<Longrightarrow> replies (ts @ us) c (conn (emit send s))"
  using replies_append by fastforce

lemma replies_one_ready:
  assumes "conn t = c" "replies us c (snd (send c))"
  shows "replies (us @ ''Z'') c (conn (ready (emit send t)))"
  using replies_ready [of us c "emit send t"] assms by simp

lemma failed_ready [simp]: "sess (ready s) = sess s"
  by (simp add: ready_def)

lemma replies_rows: "replies (replicate (length (rs_rows rs)) CHR ''D'') c (snd (pg_send_data_rows_from_result_set c rs))"
  unfolding pg_send_data_rows_from_result_set_def by (rule send_text_rows_replies)

lemma simple_query_replies:
  "\<exists>ts. replies (ts @ ''Z'') (conn s) (conn (pg_handle_simple_query env s sql)) \<and> CHR ''Z'' \<notin> set ts \<and>
     failed (pg_handle_simple_query env s sql) = failed s"
proof -
  obtain r w where r: "env_execute env (world s) (current_database (sess s)) sql = (r, w)" by fastforce
  define s1 where "s1 = s\<lparr>world := w, sess := (sess s)\<lparr>current_database := out_database r\<rparr>\<rparr>"
  have s1: "conn s1 = conn s" "failed s1 = failed s" by (simp_all add: s1_def)
  consider (empty) "str8_skip_chop_whitespace sql = []"
    | (err) "str8_skip_chop_whitespace sql \<noteq> []" "had_parse_error r \<or> had_runtime_error r"
    | (rows) "str8_skip_chop_whitespace sql \<noteq> []" "\<not> (had_parse_error r \<or> had_runtime_error r)" "rs_valid (out_result_set r)"
    | (textual) "str8_skip_chop_whitespace sql \<noteq> []" "\<not> (had_parse_error r \<or> had_runtime_error r)"
        "\<not> rs_valid (out_result_set r)" "output_text r \<noteq> []"
    | (plain) "str8_skip_chop_whitespace sql \<noteq> []" "\<not> (had_parse_error r \<or> had_runtime_error r)"
        "\<not> rs_valid (out_result_set r)" "output_text r = []"
    by blast
  then show ?thesis
  proof cases
    case empty
    then show ?thesis
      using replies_one_ready [of s "conn s" "''I''" pg_send_empty_query_response]
      by (intro exI [of _ "''I''"]) (simp add: pg_handle_simple_query_def pg_senders)
  next
    case err
    have "replies (''E'' @ ''Z'') (conn s)
        (conn (ready (emit (\<lambda>c. pg_send_error_response c ''ERROR'' ''XX000'' msg) s1)))" for msg
      using s1 by (intro replies_one_ready) (simp_all add: pg_senders)
    then show ?thesis
      using err r s1 by (intro exI [of _ "''E''"]) (simp add: pg_handle_simple_query_def s1_def)
  next
    case rows
    let ?d = "replicate (length (rs_rows (out_result_set r))) CHR ''D''"
    let ?s2 = "emit (\<lambda>c. pg_send_row_description_from_result_set c (out_result_set r)) s1"
    let ?s3 = "emit (\<lambda>c. pg_send_data_rows_from_result_set c (out_result_set r)) ?s2"
    have "replies (''T'' @ ?d) (conn s) (conn ?s3)"
      by (rule replies_then_emit) (use s1 replies_rows in \<open>simp_all add: pg_senders\<close>)
    then have "replies ((''T'' @ ?d) @ ''C'') (conn s) (conn (emit (\<lambda>c. pg_send_command_complete c tag) ?s3))" for tag
      by (rule replies_then_emit) (simp add: pg_senders)
    from replies_ready [OF this] show ?thesis
      using rows r by (intro exI [of _ "(''T'' @ ?d) @ ''C''"])
        (auto simp: pg_handle_simple_query_def s1_def Let_def set_replicate_conv_if)
  next
    case textual
    let ?ls = "lines_of (output_text r)"
    let ?s2 = "emit (\<lambda>c. pg_send_row_description_single_text_column c ''result'') s1"
    have "replies ''T'' (conn s) (conn ?s2)" using s1 by (simp add: pg_senders)
    from replies_append [OF this send_lines_replies [of ?ls]]
    have "replies ((''T'' @ replicate (length ?ls) CHR ''D'') @ ''C'') (conn s)
        (conn (emit (\<lambda>c. pg_send_command_complete c tag) (send_lines ?ls ?s2)))" for tag
      by (rule replies_then_emit) (simp add: pg_senders)
    from replies_ready [OF this] show ?thesis
      using textual r s1 by (intro exI [of _ "(''T'' @ replicate (length ?ls) CHR ''D'') @ ''C''"])
        (auto simp: pg_handle_simple_query_def s1_def Let_def set_replicate_conv_if)
  next
    case plain
    have "replies (''C'' @ ''Z'') (conn s)
        (conn (ready (emit (\<lambda>c. pg_send_command_complete c tag) s1)))" for tag
      using s1 by (intro replies_one_ready) (simp_all add: pg_senders)
    then show ?thesis
      using plain r by (intro exI [of _ "''C''"]) (simp add: pg_handle_simple_query_def s1_def)
  qed
qed

section \<open>One message\<close>

lemma conforms_extended: "extended_handler env s ty body = Some t \<Longrightarrow> conforms s t"
  by (auto simp: extended_handler_def conforms_parse conforms_execute conforms_close
      dest: conforms_bind conforms_describe split: if_splits)

definition answered :: "char set" where
  "answered = {CHR ''Q'', CHR ''S''}"

lemma conforms_refl: "conforms s s"
  by (rule conforms_same) simp_all

text \<open>The ways a message is handled.\<close>

lemma pg_message_cases:
  assumes "pg_message env s ty body = Some (keep_going, s')"
  obtains (simple) "ty = CHR ''Q''" "keep_going" "s' = pg_handle_simple_query env (clear_failed s) (strip_nul body)"
    | (sync) "ty = CHR ''S''" "keep_going" "s' = ready (clear_failed s)"
    | (handled) "ty \<in> extended" "keep_going" "\<not> failed s" "extended_handler env s ty body = Some s'"
    | (skipped) "ty \<in> extended" "keep_going" "failed s" "s' = s"
    | (ignored) "ty \<notin> extended" "ty \<notin> answered" "keep_going \<longleftrightarrow> ty \<noteq> CHR ''X''" "s' = s"
    | (rejected) code msg where "ty \<notin> extended" "ty \<notin> answered" "ty \<noteq> CHR ''X''" "keep_going" "s' = reject code msg s"
proof -
  consider "ty = CHR ''Q''" | "ty = CHR ''S''" | "ty \<in> extended" | "ty = CHR ''H'' \<or> ty = CHR ''X''"
    | "ty \<notin> {CHR ''Q'', CHR ''S'', CHR ''H'', CHR ''X''}" "ty \<notin> extended" by blast
  then show ?thesis
  proof cases
    case 3
    then have "unless_failed s (extended_handler env s ty body) = Some (keep_going, s')"
      using assms by (auto simp: pg_message_def extended_def)
    then show ?thesis using 3 handled skipped by (auto simp: unless_failed_def split: if_splits)
  next
    case 5
    then have "\<exists>code msg. pg_message env s ty body = Some (True, reject code msg s)"
      by (simp add: pg_message_def) blast
    then show ?thesis using assms 5 rejected by (auto simp: answered_def)
  qed (use assms in \<open>auto simp: pg_message_def extended_def answered_def intro: simple sync ignored\<close>)
qed

lemma message_protocol:
  assumes "pg_message env s ty body = Some (keep_going, s')"
  shows "(keep_going \<longleftrightarrow> ty \<noteq> CHR ''X'') \<and>
    (ty \<in> extended \<and> failed s \<longrightarrow> s' = s) \<and>
    (\<exists>ts. replies ts (conn s) (conn s') \<and>
       (if ty \<in> answered then (\<exists>us. ts = us @ ''Z'' \<and> CHR ''Z'' \<notin> set us) \<and> \<not> failed s'
        else CHR ''Z'' \<notin> set ts \<and> (failed s' \<longleftrightarrow> failed s \<or> CHR ''E'' \<in> set ts)))"
  using assms
proof (cases rule: pg_message_cases)
  case simple
  then show ?thesis
    using simple_query_replies [of "clear_failed s" env "strip_nul body"]
    by (auto simp: clear_failed_def answered_def extended_def)
next
  case sync
  have "replies ([] @ ''Z'') (conn s) (conn (ready (clear_failed s)))"
    by (rule replies_ready) (simp add: clear_failed_def)
  then have "\<exists>ts. replies ts (conn s) (conn (ready (clear_failed s))) \<and> (\<exists>us. ts = us @ ''Z'' \<and> CHR ''Z'' \<notin> set us)"
    by (intro exI [of _ "''Z''"] conjI exI [of _ "[]"]) simp_all
  moreover have "\<not> failed (ready (clear_failed s))" by (simp add: clear_failed_def)
  ultimately show ?thesis using sync by (simp add: answered_def extended_def)
next
  case handled
  then show ?thesis
    using conforms_extended [OF handled(4)] by (auto simp: conforms_def answered_def extended_def)
next
  case skipped
  then show ?thesis by (auto simp: answered_def extended_def intro!: exI [of _ "[]"])
next
  case ignored
  then show ?thesis by (auto intro!: exI [of _ "[]"])
next
  case (rejected code msg)
  then show ?thesis using conforms_reject [of s code msg] by (auto simp: conforms_def)
qed

text \<open>C16: How the server answers one message, whatever the engine does. A Simple Query and a Sync
  are answered by exactly one ReadyForQuery, which comes last, and leave the failed state; no other
  message is answered by a ReadyForQuery, and after it the session is in the failed state exactly if
  it was before or an ErrorResponse went out. In the failed state Parse, Bind, Describe, Execute and
  Close change nothing and send nothing. Only Terminate ends the connection. All output is whole
  messages, cut off only where the peer stops reading.\<close>

theorem pg_message_protocol:
  assumes "pg_message env s ty body = Some (keep_going, s')"
  shows "(keep_going \<longleftrightarrow> ty \<noteq> CHR ''X'') \<and>
    (ty \<in> extended \<and> failed s \<longrightarrow> s' = s) \<and>
    (\<exists>ts. replies ts (conn s) (conn s') \<and>
       (if ty \<in> answered then (\<exists>us. ts = us @ ''Z'' \<and> CHR ''Z'' \<notin> set us) \<and> \<not> failed s'
        else CHR ''Z'' \<notin> set ts \<and> (failed s' \<longleftrightarrow> failed s \<or> CHR ''E'' \<in> set ts)))"
  using assms by (rule message_protocol)

lemma pg_message_protocol_witness:
  "let s = \<lparr>conn = \<lparr>inbox = [], outbox = [], room = 9\<rparr>, sess = empty_session (None :: unit option), world = ()\<rparr>;
       env = \<lparr>env_float_fmt = \<lparr>fmt_f32 = \<lambda>_. [], fmt_f64 = \<lambda>_. []\<rparr>,
         env_casts = \<lparr>f64_to_u32 = \<lambda>_. 0, f64_to_u64 = \<lambda>_. 0, f64_to_s32 = \<lambda>_. 0, f64_to_s64 = \<lambda>_. 0,
           f64_to_u8 = \<lambda>_. 0, f64_to_f32 = \<lambda>_. 0\<rparr>,
         env_execute = \<lambda>w db sql. (\<lparr>had_parse_error = False, output_text = [], out_result_set = empty_result_set,
           had_runtime_error = False, last_error = [], out_database = db\<rparr>, w)\<rparr>
   in \<exists>s' ts. pg_message env s CHR ''S'' [] = Some (True, s') \<and> replies ts (conn s) (conn s') \<and>
        (\<exists>us. ts = us @ ''Z'')"
proof -
  define s where "s = \<lparr>conn = \<lparr>inbox = [], outbox = [], room = 9\<rparr>, sess = empty_session (None :: unit option), world = ()\<rparr>"
  show ?thesis
    using pg_message_protocol [of _ s "CHR ''S''" "[]" True "ready (clear_failed s)"]
    by (auto simp: pg_message_def s_def [symmetric] Let_def answered_def extended_def)
qed

section \<open>The session stays well formed\<close>

definition prepared_ok :: "pg_statement \<Rightarrow> bool" where
  "prepared_ok st \<longleftrightarrow> length (st_param_oids st) \<le> PG_MAX_BIND_PARAMS"

definition portal_ok :: "pg_portal \<Rightarrow> bool" where
  "portal_ok p \<longleftrightarrow>
     length (po_result_format_codes p) \<le> PG_MAX_BIND_PARAMS \<and>
     po_rows_sent p \<le> length (rs_rows (po_result_set p)) \<and>
     (\<not> po_executed p \<longrightarrow> po_rows_sent p = 0 \<and> \<not> po_had_error p)"

definition session_ok :: "'db pg_session \<Rightarrow> bool" where
  "session_ok se \<longleftrightarrow>
     length (statements se) = PG_MAX_PREPARED_STATEMENTS \<and> length (portals se) = PG_MAX_PORTALS \<and>
     names_distinct st_in_use st_name (statements se) \<and> names_distinct po_in_use po_name (portals se) \<and>
     (\<forall>st \<in> set (statements se). prepared_ok st) \<and> (\<forall>p \<in> set (portals se). portal_ok p)"

lemma session_ok_fields [simp]:
  "session_ok (se\<lparr>in_failed_pipeline := b\<rparr>) = session_ok se"
  "session_ok (se\<lparr>current_database := db\<rparr>) = session_ok se"
  by (simp_all add: session_ok_def)

lemma empty_session_ok: "session_ok (empty_session db)"
  by (auto simp: session_ok_def empty_session_def names_distinct_def release_statement_def release_portal_def
      fresh_statement_def fresh_portal_def prepared_ok_def portal_ok_def)

lemma length_read_u16s [simp]: "length (fst (read_u16s n r)) = n"
  by (induction n arbitrary: r) (auto simp: Let_def case_prod_unfold)

lemma length_read_u32s [simp]: "length (fst (read_u32s n r)) = n"
  by (induction n arbitrary: r) (auto simp: Let_def case_prod_unfold)

lemma length_format_codes: "length (fst (read_format_codes r)) \<le> PG_MAX_BIND_PARAMS"
  by (auto simp: read_format_codes_def Let_def case_prod_unfold)

text \<open>A table in which a slot was allocated and filled, or released.\<close>

lemma fill_statement_ok:
  assumes "session_ok se" "pg_session_alloc_statement se n = Some (j, se')"
    and "st_in_use st" "st_name st = n" "prepared_ok st"
  shows "session_ok (se'\<lparr>statements := (statements se')[j := st]\<rparr>)"
proof -
  obtain slots where a: "alloc_slot st_in_use st_name release_statement fresh_statement (statements se) n = Some (j, slots)"
    and se': "se' = se\<lparr>statements := slots\<rparr>"
    using assms(2) by (auto simp: pg_session_alloc_statement_def)
  have "\<forall>s \<in> set (slots[j := st]). prepared_ok s"
    by (rule stmts.alloc_all [OF a]) (use assms(1,5) in \<open>auto simp: session_ok_def release_statement_def prepared_ok_def\<close>)
  then show ?thesis
    using assms(1) stmts.alloc_Some [OF a] stmts.alloc_fill(1) [OF _ a assms(3,4)] se'
    by (simp add: session_ok_def)
qed

lemma fill_portal_ok:
  assumes "session_ok se" "pg_session_alloc_portal se n = Some (j, se')"
    and "po_in_use p" "po_name p = n" "portal_ok p"
  shows "session_ok (se'\<lparr>portals := (portals se')[j := p]\<rparr>)"
proof -
  obtain slots where a: "alloc_slot po_in_use po_name release_portal fresh_portal (portals se) n = Some (j, slots)"
    and se': "se' = se\<lparr>portals := slots\<rparr>"
    using assms(2) by (auto simp: pg_session_alloc_portal_def)
  have "\<forall>s \<in> set (slots[j := p]). portal_ok s"
    by (rule prtls.alloc_all [OF a]) (use assms(1,5) in \<open>auto simp: session_ok_def release_portal_def portal_ok_def\<close>)
  then show ?thesis
    using assms(1) prtls.alloc_Some [OF a] prtls.alloc_fill(1) [OF _ a assms(3,4)] se'
    by (simp add: session_ok_def)
qed

lemma close_session_ok:
  assumes "session_ok se"
  shows "session_ok (pg_session_close_statement se n)" "session_ok (pg_session_close_portal se n)"
proof -
  have "\<forall>s \<in> set (close_slot st_in_use st_name release_statement (statements se) n). prepared_ok s"
    by (rule stmts.close_all) (use assms in \<open>auto simp: session_ok_def release_statement_def prepared_ok_def\<close>)
  then show "session_ok (pg_session_close_statement se n)"
    using assms stmts.close_distinct by (simp add: session_ok_def pg_session_close_statement_def)
  have "\<forall>p \<in> set (close_slot po_in_use po_name release_portal (portals se) n). portal_ok p"
    by (rule prtls.close_all) (use assms in \<open>auto simp: session_ok_def release_portal_def portal_ok_def\<close>)
  then show "session_ok (pg_session_close_portal se n)"
    using assms prtls.close_distinct by (simp add: session_ok_def pg_session_close_portal_def)
qed

text \<open>An entry replaced by one of the same name and flag.\<close>

lemma names_distinct_update:
  assumes "names_distinct used nm slots" "used x = used (slots ! j)" "nm x = nm (slots ! j)"
  shows "names_distinct used nm (slots[j := x])"
proof -
  have "used (slots[j := x] ! i) = used (slots ! i) \<and> nm (slots[j := x] ! i) = nm (slots ! i)" for i
    using assms(2,3) by (cases "j < length slots") (simp_all add: nth_list_update list_update_beyond)
  then show ?thesis using assms(1) by (simp add: names_distinct_def)
qed

lemma replace_portal_ok:
  assumes "session_ok se" "po_in_use p = po_in_use (portals se ! j)" "po_name p = po_name (portals se ! j)"
    and "portal_ok p"
  shows "session_ok (se\<lparr>portals := (portals se)[j := p]\<rparr>)"
  using assms names_distinct_update [of po_in_use po_name "portals se" p j]
    set_update_subset_insert [of "portals se" j p]
  by (auto simp: session_ok_def)

lemma alloc_statement_fresh: "pg_session_alloc_statement se n = Some (j, se') \<Longrightarrow> statements se' ! j = fresh_statement"
  by (auto simp: pg_session_alloc_statement_def dest: stmts.alloc_slot_at)

lemma alloc_portal_fresh: "pg_session_alloc_portal se n = Some (j, se') \<Longrightarrow> portals se' ! j = fresh_portal"
  by (auto simp: pg_session_alloc_portal_def dest: prtls.alloc_slot_at)

lemma parse_session_ok:
  assumes "session_ok (sess s)"
  shows "session_ok (sess (pg_handle_parse s body))"
proof -
  have "session_ok (se\<lparr>statements := (statements se)[j := (statements se ! j)\<lparr>st_name := n, st_sql_text := q,
      st_param_oids := fst (read_u32s (min k PG_MAX_BIND_PARAMS) r)\<rparr>]\<rparr>)"
    if "pg_session_alloc_statement (sess s) n = Some (j, se)" for n j se q k r
    by (rule fill_statement_ok [OF assms that])
      (simp_all add: alloc_statement_fresh [OF that] fresh_statement_def prepared_ok_def)
  then show ?thesis
    using assms by (auto simp: pg_handle_parse_def Let_def case_prod_unfold split: option.split)
qed

lemma bind_session_ok:
  assumes "session_ok (sess s)" "pg_handle_bind env s body = Some s'"
  shows "session_ok (sess s')"
proof -
  have "session_ok (se\<lparr>portals := (portals se)[j := (portals se ! j)\<lparr>po_name := n, po_bound_sql_text := q,
      po_looks_like_select := l, po_result_format_codes := fst (read_format_codes r)\<rparr>]\<rparr>)"
    if "pg_session_alloc_portal (sess s) n = Some (j, se)" for n j se q l r
    using length_format_codes [of r]
    by (intro fill_portal_ok [OF assms(1) that])
      (simp_all add: alloc_portal_fresh [OF that] fresh_portal_def portal_ok_def)
  then show ?thesis
    using assms by (auto simp: pg_handle_bind_def Let_def case_prod_unfold split: option.splits sum.splits if_splits)
qed

lemma portal_ok_nth: "session_ok se \<Longrightarrow> j < length (portals se) \<Longrightarrow> portal_ok (portals se ! j)"
  by (simp add: session_ok_def)

lemma ensure_executed_ok:
  assumes "session_ok (sess s)" "pg_session_find_portal (sess s) n = Some j"
  shows "session_ok (sess (pg_portal_ensure_executed env s j))"
proof -
  have "portal_ok (portals (sess s) ! j)"
    using portal_ok_nth [OF assms(1)] prtls.find_Some assms(2) by (auto simp: pg_session_find_portal_def)
  then have "session_ok ((sess s)\<lparr>portals := (portals (sess s))[j :=
      (portals (sess s) ! j)\<lparr>po_result_set := rs, po_executed := True, po_had_error := e, po_error_message := m\<rparr>]\<rparr>)"
    if "\<not> po_executed (portals (sess s) ! j)" for rs e m
    using that by (intro replace_portal_ok [OF assms(1)]) (simp_all add: portal_ok_def)
  moreover have "session_ok ((sess s)\<lparr>portals := (portals (sess s))[j :=
      (portals (sess s) ! j)\<lparr>po_result_set := rs, po_executed := True\<rparr>]\<rparr>)"
    if "\<not> po_executed (portals (sess s) ! j)" for rs
    using that \<open>portal_ok (portals (sess s) ! j)\<close>
    by (intro replace_portal_ok [OF assms(1)]) (simp_all add: portal_ok_def)
  ultimately show ?thesis
    using assms(1) by (auto simp: pg_portal_ensure_executed_def Let_def case_prod_unfold)
qed

lemma describe_session_ok:
  assumes "session_ok (sess s)" "pg_handle_describe env s body = Some s'"
  shows "session_ok (sess s')"
  using assms ensure_executed_ok [OF assms(1)]
  by (auto simp: pg_handle_describe_def describe_statement_def describe_portal_def Let_def case_prod_unfold
      split: option.splits if_splits)

lemma rows_session_ok:
  assumes "session_ok (sess s)" "j < length (portals (sess s))" "po_executed (portals (sess s) ! j)"
  shows "session_ok (sess (send_portal_rows env s j max_rows))"
proof -
  have "session_ok ((sess s)\<lparr>portals := (portals (sess s))[j :=
      (portals (sess s) ! j)\<lparr>po_rows_sent := po_rows_sent (portals (sess s) ! j) + k\<rparr>]\<rparr>)"
    if "k \<le> length (rs_rows (po_result_set (portals (sess s) ! j))) - po_rows_sent (portals (sess s) ! j)" for k
    using that assms(3) portal_ok_nth [OF assms(1,2)]
    by (intro replace_portal_ok [OF assms(1)]) (auto simp add: portal_ok_def)
  then show ?thesis by (auto simp: send_portal_rows_def Let_def)
qed

lemma ensure_executed_done:
  assumes "j < length (portals (sess s))"
  shows "po_executed (portals (sess (pg_portal_ensure_executed env s j)) ! j)"
    and "length (portals (sess (pg_portal_ensure_executed env s j))) = length (portals (sess s))"
  using assms by (auto simp: pg_portal_ensure_executed_def Let_def case_prod_unfold)

lemma execute_session_ok:
  assumes "session_ok (sess s)"
  shows "session_ok (sess (pg_handle_execute env s body))"
proof -
  have "session_ok (sess (send_portal_rows env (pg_portal_ensure_executed env s j) j m))"
    if "pg_session_find_portal (sess s) n = Some j" for n j m
  proof -
    have "j < length (portals (sess s))"
      using prtls.find_Some that by (auto simp: pg_session_find_portal_def)
    then show ?thesis
      using ensure_executed_done [of j s env] by (intro rows_session_ok ensure_executed_ok [OF assms that]) simp_all
  qed
  then show ?thesis
    using assms ensure_executed_ok [OF assms]
    by (auto simp: pg_handle_execute_def Let_def case_prod_unfold split: option.splits)
qed

lemma close_handler_ok: "session_ok (sess s) \<Longrightarrow> session_ok (sess (pg_handle_close s body))"
  by (auto simp: pg_handle_close_def Let_def case_prod_unfold close_session_ok)

lemma simple_query_session_ok: "session_ok (sess s) \<Longrightarrow> session_ok (sess (pg_handle_simple_query env s sql))"
  by (auto simp: pg_handle_simple_query_def Let_def case_prod_unfold)

lemma message_session_ok:
  assumes "session_ok (sess s)" "pg_message env s ty body = Some (keep_going, s')"
  shows "session_ok (sess s')"
  using assms(2)
proof (cases rule: pg_message_cases)
  case handled
  then show ?thesis
    using assms(1) bind_session_ok describe_session_ok
    by (auto simp: extended_handler_def parse_session_ok execute_session_ok close_handler_ok split: if_splits)
qed (use assms(1) in \<open>simp_all add: clear_failed_def simple_query_session_ok\<close>)

text \<open>C20: Every message keeps the session well formed: the tables keep their size, no two
  statements and no two portals in use have the same name, no statement has more parameters and no
  portal more format codes than the arrays of the structs hold, and no portal has sent more rows than
  it has (so the unsigned count of remaining rows does not wrap).\<close>

theorem pg_message_session_ok:
  assumes "session_ok (sess s)" "pg_message env s ty body = Some (keep_going, s')"
  shows "session_ok (sess s')"
  using assms by (rule message_session_ok)

lemma pg_message_session_ok_witness:
  "session_ok (sess (ready (clear_failed
     \<lparr>conn = \<lparr>inbox = [], outbox = [], room = 9\<rparr>, sess = empty_session (None :: unit option), world = ()\<rparr>)))"
  by (rule pg_message_session_ok [where s = "\<lparr>conn = \<lparr>inbox = [], outbox = [], room = 9\<rparr>,
        sess = empty_session (None :: unit option), world = ()\<rparr>" and ty = "CHR ''S''" and body = "[]" and keep_going = True])
    (simp_all add: empty_session_ok pg_message_def extended_def)

section \<open>A whole connection\<close>

text \<open>The requests taken off a connection, and the types of the messages sent on it.\<close>

definition served :: "char list \<Rightarrow> char list \<Rightarrow> pg_conn \<Rightarrow> pg_conn \<Rightarrow> bool" where
  "served requests ts c d \<longleftrightarrow>
     (\<exists>reqs. requests = map fst reqs \<and> inbox c = concat (map (\<lambda>(t, b). message t b) reqs) @ inbox d) \<and>
     replies ts (c\<lparr>inbox := inbox d\<rparr>) d"

lemma replies_ignore_inbox: "replies ts c d \<Longrightarrow> replies ts (c\<lparr>inbox := i\<rparr>) (d\<lparr>inbox := i\<rparr>)"
  by (auto simp: replies_def sends_def os_net_send_exact_def)

lemma served_step:
  assumes "pg_recv_typed c = Some (ty, body, d)" "replies ts d e" "served requests us e f"
  shows "served (ty # requests) (ts @ us) c f"
proof -
  obtain reqs where reqs: "requests = map fst reqs" "inbox e = concat (map (\<lambda>(t, b). message t b) reqs) @ inbox f"
    and us: "replies us (e\<lparr>inbox := inbox f\<rparr>) f" using assms(3) by (auto simp: served_def)
  have d: "inbox c = message ty body @ inbox d" "d\<lparr>inbox := inbox f\<rparr> = c\<lparr>inbox := inbox f\<rparr>"
    using pg_recv_frame [OF assms(1)] by (cases c; cases d; simp)+
  have "inbox e = inbox d" by (rule replies_inbox [OF assms(2)])
  then have "inbox c = concat (map (\<lambda>(t, b). message t b) ((ty, body) # reqs)) @ inbox f"
    using d(1) reqs(2) by simp
  moreover have "replies (ts @ us) (c\<lparr>inbox := inbox f\<rparr>) f"
    using replies_append [OF replies_ignore_inbox [OF assms(2), of "inbox f"] us] d(2) by simp
  ultimately show ?thesis using reqs(1) unfolding served_def by (intro conjI exI [of _ "(ty, body) # reqs"]) simp_all
qed

lemma served_nil [simp]: "served [] [] c c"
  by (cases c) (auto simp: served_def intro!: exI [of _ "[]"])

definition answers :: "char list \<Rightarrow> nat" where
  "answers ts = length (filter (\<lambda>t. t = CHR ''Z'') ts)"

lemma answers_none: "CHR ''Z'' \<notin> set us \<Longrightarrow> answers us = 0"
  by (induction us) (auto simp: answers_def)

lemma answers_append: "answers (us @ vs) = answers us + answers vs"
  by (simp add: answers_def)

lemma message_answers:
  assumes "pg_message env s ty body = Some (k, s')"
  obtains ts where "replies ts (conn s) (conn s')" "answers ts = (if ty \<in> answered then 1 else 0)"
proof (cases "ty \<in> answered")
  case True
  then obtain us where "replies (us @ ''Z'') (conn s) (conn s')" "CHR ''Z'' \<notin> set us"
    using message_protocol [OF assms] by auto
  then show ?thesis using that [of "us @ ''Z''"] True answers_none [of us]
    by (simp add: answers_append) (simp add: answers_def)
next
  case False
  then obtain ts where "replies ts (conn s) (conn s')" "CHR ''Z'' \<notin> set ts"
    using message_protocol [OF assms] by auto
  then show ?thesis using that [of ts] False answers_none by simp
qed


definition idle_env :: "(unit, unit) pg_env" where
  "idle_env = \<lparr>env_float_fmt = \<lparr>fmt_f32 = \<lambda>_. [], fmt_f64 = \<lambda>_. []\<rparr>,
     env_casts = \<lparr>f64_to_u32 = \<lambda>_. 0, f64_to_u64 = \<lambda>_. 0, f64_to_s32 = \<lambda>_. 0, f64_to_s64 = \<lambda>_. 0,
       f64_to_u8 = \<lambda>_. 0, f64_to_f32 = \<lambda>_. 0\<rparr>,
     env_execute = \<lambda>w db sql. (\<lparr>had_parse_error = False, output_text = [], out_result_set = empty_result_set,
       had_runtime_error = False, last_error = [], out_database = db\<rparr>, w)\<rparr>"

definition idle_state :: "string8 \<Rightarrow> (unit, unit) pg_state" where
  "idle_state input = \<lparr>conn = \<lparr>inbox = input, outbox = [], room = 1000\<rparr>, sess = empty_session None, world = ()\<rparr>"


section \<open>Prepared statements are found as they were sent\<close>

definition parse_body :: "string8 \<Rightarrow> string8 \<Rightarrow> u32 list \<Rightarrow> string8" where
  "parse_body n q oids = pg_cstr n @ pg_cstr q @ pg_be16 (of_nat (length oids)) @ concat (map pg_be32 oids)"



section \<open>Two defects\<close>





end
