(* ===== verification/Base_Date.thy ===== *)
theory Base_Date
  imports Base_Numbers "HOL-Library.Signed_Division"
begin

text \<open>
  Calendar dates, \<open>src/src/base/base_date.c\<close>: days since 1970-01-01 to and from the
  proleptic Gregorian calendar, and reading \<open>YYYY-MM-DD\<close> and
  \<open>YYYY-MM-DD hh:mm:ss\<close>. Signed values are integers, with the division of C
  (\<open>sdiv\<close>, towards zero); unsigned intermediate values are taken modulo
  \<open>2 ^ 32\<close> as the code computes them.

  The lemmas show that the two conversions are inverse to each other on all days and all dates of the
  calendar, and what dates \<open>parse_iso_date\<close> accepts.
\<close>

section \<open>Conversions\<close>

abbreviation wrap32 :: "int \<Rightarrow> int" where
  "wrap32 x \<equiv> x mod 4294967296"

definition days_from_civil :: "int \<Rightarrow> int \<Rightarrow> int \<Rightarrow> int" where
  "days_from_civil year month day =
     (let y = year - (if month \<le> 2 then 1 else 0);
          era = (if y \<ge> 0 then y else y - 399) sdiv 400;
          yoe = wrap32 (y - era * 400);
          doy = wrap32 (wrap32 (153 * wrap32 (month + (if month > 2 then wrap32 (- 3) else 9)) + 2) div 5 + day - 1);
          doe = wrap32 (yoe * 365 + yoe div 4 - yoe div 100 + doy)
      in era * 146097 + doe - 719468)"

definition civil_from_days :: "int \<Rightarrow> int \<times> int \<times> int" where
  "civil_from_days days =
     (let z = days + 719468;
          era = (if z \<ge> 0 then z else z - 146096) sdiv 146097;
          doe = wrap32 (z - era * 146097);
          yoe = wrap32 (doe - doe div 1460 + doe div 36524 - doe div 146096) div 365;
          y = yoe + era * 400;
          doy = wrap32 (doe - (365 * yoe + yoe div 4 - yoe div 100));
          mp = (5 * doy + 2) div 153;
          day = wrap32 (doy - (153 * mp + 2) div 5 + 1);
          month = wrap32 (mp + (if mp < 10 then 3 else - 9))
      in (y + (if month \<le> 2 then 1 else 0), month, day))"

section \<open>Reading\<close>

definition parse_iso_date :: "string8 \<Rightarrow> int option" where
  "parse_iso_date s =
     (if length s \<noteq> 10 then None
      else if s ! 4 \<noteq> CHR ''-'' \<or> s ! 7 \<noteq> CHR ''-'' then None
      else
        let y = str8_prefix s 4;
            m = str8_substr s (r1u64 5 7);
            d = str8_substr s (r1u64 8 10)
        in if \<not> str8_is_integer y 10 \<or> \<not> str8_is_integer m 10 \<or> \<not> str8_is_integer d 10 then None
           else
             let year = uint (u64_from_str8 y 10);
                 month = uint (u64_from_str8 m 10);
                 day = uint (u64_from_str8 d 10)
             in if month < 1 \<or> month > 12 \<or> day < 1 \<or> day > 31 then None
                else Some (days_from_civil year month day))"

definition parse_iso_timestamp :: "string8 \<Rightarrow> int option" where
  "parse_iso_timestamp s =
     (if length s = 10 then map_option (\<lambda>days. days * 86400) (parse_iso_date s)
      else if length s \<noteq> 19 then None
      else if s ! 10 \<noteq> CHR '' '' \<and> s ! 10 \<noteq> CHR ''T'' then None
      else if s ! 13 \<noteq> CHR '':'' \<or> s ! 16 \<noteq> CHR '':'' then None
      else case parse_iso_date (str8_prefix s 10) of
        None \<Rightarrow> None
      | Some days \<Rightarrow>
          let h = str8_substr s (r1u64 11 13);
              mi = str8_substr s (r1u64 14 16);
              sec = str8_substr s (r1u64 17 19)
          in if \<not> str8_is_integer h 10 \<or> \<not> str8_is_integer mi 10 \<or> \<not> str8_is_integer sec 10 then None
             else
               let hour = uint (u64_from_str8 h 10);
                   minute = uint (u64_from_str8 mi 10);
                   second = uint (u64_from_str8 sec 10)
               in if hour > 23 \<or> minute > 59 \<or> second > 59 then None
                  else Some (days * 86400 + hour * 3600 + minute * 60 + second))"

text \<open>The date and the time of day a timestamp stands for (\<open>push_iso_timestamp_string\<close>
  prints these).\<close>

definition split_timestamp :: "int \<Rightarrow> int \<times> int" where
  "split_timestamp seconds =
     (let days = (if seconds \<ge> 0 then seconds sdiv 86400 else - ((- seconds + 86399) sdiv 86400))
      in (days, seconds - days * 86400))"

section \<open>Years within an era\<close>

text \<open>The first day of a year (counted from March) within its era of 400 years, and the numerator the
  code divides to find the year.\<close>

definition year_start :: "int \<Rightarrow> int" where
  "year_start y = 365 * y + y div 4 - y div 100"

definition year_key :: "int \<Rightarrow> int" where
  "year_key d = d - d div 1460 + d div 36524 - d div 146096"

lemma year_key_step: "0 \<le> d \<Longrightarrow> year_key d \<le> year_key (d + 1)"
proof -
  have eras: "x div 146096 = x div 36524 div 4" for x :: int
    using zdiv_zmult2_eq [of 4 x 36524] by simp
  have "d div 36524 \<le> (d + 1) div 36524" by (rule zdiv_mono1) simp_all
  then have "d div 36524 - d div 36524 div 4 \<le> (d + 1) div 36524 - (d + 1) div 36524 div 4" by linarith
  moreover have "(d + 1) div 1460 \<le> (d + 1460) div 1460" by (rule zdiv_mono1) simp_all
  then have "(d + 1) div 1460 \<le> d div 1460 + 1" by simp
  ultimately show ?thesis unfolding year_key_def eras by linarith
qed

lemma year_key_mono: "0 \<le> a \<Longrightarrow> a \<le> b \<Longrightarrow> year_key a \<le> year_key b"
proof (induction "nat (b - a)" arbitrary: b)
  case (Suc n)
  then have "year_key a \<le> year_key (b - 1)" by simp
  also have "\<dots> \<le> year_key b" using year_key_step [of "b - 1"] Suc by simp
  finally show ?case .
qed simp

text \<open>Every year of the era, checked one by one.\<close>

lemma years_checked:
  "list_all (\<lambda>y. year_key (year_start y) div 365 = y \<and> year_key (year_start (y + 1) - 1) div 365 = y \<and>
      (year_start (y + 1) - year_start y = 365 \<or> year_start (y + 1) - year_start y = 366)) [0..398] \<and>
   year_key (year_start 399) div 365 = 399 \<and> year_key 146096 div 365 = 399"
  by code_simp

lemma year_starts: "year_start 0 = 0" "year_start 399 = 145731" "0 \<le> y \<Longrightarrow> 0 \<le> year_start y"
  by (simp_all add: year_start_def)

lemma year_of_doe:
  assumes y: "0 \<le> y" "y \<le> 399" and d: "year_start y \<le> d" "if y = 399 then d \<le> 146096 else d < year_start (y + 1)"
  shows "year_key d div 365 = y"
proof -
  let ?hi = "if y = 399 then 146096 else year_start (y + 1) - 1"
  have checked: "year_key (year_start y) div 365 = y" "year_key ?hi div 365 = y"
    using years_checked y by (cases "y = 399"; force simp: list_all_iff)+
  have "year_key (year_start y) \<le> year_key d" "year_key d \<le> year_key ?hi"
    using d year_starts(3) [OF y(1)] by (auto intro!: year_key_mono split: if_splits)
  then have "year_key (year_start y) div 365 \<le> year_key d div 365" "year_key d div 365 \<le> year_key ?hi div 365"
    by (auto intro: zdiv_mono1)
  then show ?thesis using checked by simp
qed

lemma doe_in_year:
  assumes "0 \<le> d" "d \<le> 146096"
  obtains y where "0 \<le> y" "y \<le> 399" "year_start y \<le> d" "if y = 399 then d \<le> 146096 else d < year_start (y + 1)"
proof -
  define past where "past n \<longleftrightarrow> 399 \<le> n \<or> d < year_start (int n + 1)" for n
  define y where "y = (LEAST n. past n)"
  have y: "past y" unfolding y_def by (rule LeastI [of past 399]) (simp add: past_def)
  have le: "y \<le> 399" unfolding y_def by (rule Least_le) (simp add: past_def)
  have "year_start (int y) \<le> d"
  proof (cases y)
    case 0
    then show ?thesis using assms by (simp add: year_starts)
  next
    case (Suc m)
    then have "\<not> past m" using not_less_Least [of m past] by (simp add: y_def)
    then show ?thesis using Suc by (simp add: past_def algebra_simps)
  qed
  then show ?thesis using that [of "int y"] y le assms by (auto simp: past_def)
qed

section \<open>Days within a year\<close>

text \<open>The day of the year (from March) of a month and a day, and back, as the code computes them.\<close>

definition doy_of :: "int \<Rightarrow> int \<Rightarrow> int" where
  "doy_of month day =
     wrap32 (wrap32 (153 * wrap32 (month + (if month > 2 then wrap32 (- 3) else 9)) + 2) div 5 + day - 1)"

definition month_day_of :: "int \<Rightarrow> int \<times> int" where
  "month_day_of doy =
     (let mp = (5 * doy + 2) div 153
      in (wrap32 (mp + (if mp < 10 then 3 else - 9)), wrap32 (doy - (153 * mp + 2) div 5 + 1)))"

definition days_in_month :: "int \<Rightarrow> int \<Rightarrow> int" where
  "days_in_month year month =
     (if month = 2 then if year mod 4 = 0 \<and> (year mod 100 \<noteq> 0 \<or> year mod 400 = 0) then 29 else 28
      else if month \<in> {4, 6, 9, 11} then 30 else 31)"

definition valid_date :: "int \<Rightarrow> int \<Rightarrow> int \<Rightarrow> bool" where
  "valid_date year month day \<longleftrightarrow>
     1 \<le> month \<and> month \<le> 12 \<and> 1 \<le> day \<and> day \<le> days_in_month year month"

lemma doys_checked:
  "list_all (\<lambda>doy. case month_day_of doy of (m, d) \<Rightarrow>
     doy_of m d = doy \<and> 1 \<le> m \<and> m \<le> 12 \<and> 1 \<le> d \<and> d \<le> days_in_month 0 m \<and>
     (m = 2 \<and> d = 29 \<longleftrightarrow> doy = 365)) [0..365]"
  by code_simp

lemma month_day_of_doy:
  assumes "doy \<in> {0..365}" "month_day_of doy = (m, d)"
  shows "doy_of m d = doy" "1 \<le> m" "m \<le> 12" "1 \<le> d" "d \<le> days_in_month 0 m" "m = 2 \<and> d = 29 \<longleftrightarrow> doy = 365"
proof -
  have "\<forall>doy \<in> {0..365}. case month_day_of doy of (m, d) \<Rightarrow>
     doy_of m d = doy \<and> 1 \<le> m \<and> m \<le> 12 \<and> 1 \<le> d \<and> d \<le> days_in_month 0 m \<and> (m = 2 \<and> d = 29 \<longleftrightarrow> doy = 365)"
    using doys_checked by (simp only: list_all_iff set_upto)
  from bspec [OF this assms(1)] show "doy_of m d = doy" "1 \<le> m" "m \<le> 12" "1 \<le> d" "d \<le> days_in_month 0 m"
    "m = 2 \<and> d = 29 \<longleftrightarrow> doy = 365"
    unfolding assms(2) by simp_all
qed

lemma month_days_checked:
  "list_all (\<lambda>m. list_all (\<lambda>d. month_day_of (doy_of m d) = (m, d) \<and> 0 \<le> doy_of m d \<and>
      doy_of m d \<le> 365 \<and> (doy_of m d = 365 \<longleftrightarrow> m = 2 \<and> d = 29)) [1..days_in_month 0 m]) [1..12]"
  by code_simp

section \<open>The conversions are inverse to each other\<close>

lemma sdiv_floor:
  fixes y k :: int
  assumes k: "0 < k" and c: "c = k - 1"
  shows "(if y \<ge> 0 then y else y - c) sdiv k = y div k"
proof (cases "y \<ge> 0")
  case False
  have "- (y - c) = (k - 1 - y mod k) + k * (- (y div k))"
    using mult_div_mod_eq [of k y] c by (simp add: algebra_simps)
  moreover have "((k - 1 - y mod k) + k * (- (y div k))) div k = - (y div k) + (k - 1 - y mod k) div k"
    using k by (intro div_mult_self2) simp
  moreover have "(k - 1 - y mod k) div k = 0"
    using k pos_mod_bound [OF k, of y] pos_mod_sign [OF k, of y] by (intro div_pos_pos_trivial) auto
  ultimately have "- (y - c) div k = - (y div k)" by (simp only: add_0_right)
  moreover have "y - c < 0" using False c k by linarith
  ultimately show ?thesis using False k by (simp add: signed_divide_int_def)
qed (use k in \<open>simp add: signed_divide_int_def sgn_if\<close>)

lemma eras: "(if y \<ge> 0 then y else y - 399) sdiv 400 = y div 400" "(if z \<ge> 0 then z else z - 146096) sdiv 146097 = z div 146097"
  for y z :: int
  by (rule sdiv_floor; simp)+

lemma year_lengths_checked:
  "list_all (\<lambda>y. year_start (y + 1) - year_start y = days_in_month (y + 1) 2 + 337) [0..398]"
  by code_simp

lemma year_length: "0 \<le> y \<Longrightarrow> y \<le> 398 \<Longrightarrow> year_start (y + 1) - year_start y = days_in_month (y + 1) 2 + 337"
  using year_lengths_checked by (simp add: list_all_iff)

lemma year_start_le:
  assumes "0 \<le> y" "y \<le> 399" "year_start y \<le> d" "if y = 399 then d \<le> 146096 else d < year_start (y + 1)"
  shows "d - year_start y \<le> 365" "d - year_start y = 365 \<longrightarrow> days_in_month (y + 1) 2 = 29"
  using assms year_length [of y] by (auto simp: days_in_month_def year_starts split: if_splits)

lemma year_start_bound: "0 \<le> y \<Longrightarrow> year_start y \<le> 366 * y"
proof -
  assume y: "0 \<le> y"
  then have "y div 4 \<le> y" "0 \<le> y div 100"
    by presburger+
  then show ?thesis unfolding year_start_def by linarith
qed

lemma civil_from_days_unfold:
  "civil_from_days days =
    (let z = days + 719468;
         doe = wrap32 (z - z div 146097 * 146097);
         yoe = wrap32 (year_key doe) div 365;
         (month, day) = month_day_of (wrap32 (doe - year_start yoe))
     in (yoe + z div 146097 * 400 + (if month \<le> 2 then 1 else 0), month, day))"
  by (simp only: civil_from_days_def Let_def eras year_key_def year_start_def month_day_of_def prod.case)

lemma days_from_civil_unfold:
  "days_from_civil year month day =
    (let y = year - (if month \<le> 2 then 1 else 0);
         yoe = wrap32 (y - y div 400 * 400)
     in y div 400 * 146097 + wrap32 (year_start yoe + doy_of month day) - 719468)"
  by (simp only: days_from_civil_def Let_def eras year_start_def doy_of_def mult.commute [of _ 365])

lemma wrap32_id: "0 \<le> x \<Longrightarrow> x \<le> 1000000 \<Longrightarrow> wrap32 x = x"
  by (simp add: mod_pos_pos_trivial)

lemma civil_from_days_eq:
  assumes y: "0 \<le> y" "y \<le> 399" "year_start y \<le> doe" "if y = 399 then doe \<le> 146096 else doe < year_start (y + 1)"
  shows "civil_from_days (era * 146097 + doe - 719468) =
    (case month_day_of (doe - year_start y) of (m, d) \<Rightarrow> (y + era * 400 + (if m \<le> 2 then 1 else 0), m, d))"
proof -
  have doe: "0 \<le> doe" using y(3) year_starts(3) [OF y(1)] by linarith
  have doy: "0 \<le> doe - year_start y" "doe - year_start y \<le> 365" using y(3) year_start_le [OF y] by auto
  have doe': "doe \<le> 146096"
    using y year_start_bound [of "y + 1"] by (auto split: if_splits)
  have z: "(era * 146097 + doe - 719468 + 719468) = era * 146097 + doe" by simp
  have era: "(era * 146097 + doe) div 146097 = era" using doe doe' by (simp add: div_pos_pos_trivial)
  have "wrap32 (era * 146097 + doe - era * 146097) = doe"
    using wrap32_id [of doe] doe doe' by simp
  moreover have "wrap32 (year_key doe) div 365 = y"
    using wrap32_id [of "year_key doe"] year_key_mono [of 0 doe] year_key_mono [of doe 146096] doe doe' year_of_doe [OF y]
    by (simp add: year_key_def)
  moreover have "wrap32 (doe - year_start y) = doe - year_start y" using doy by (intro wrap32_id) auto
  ultimately show ?thesis
    by (simp only: civil_from_days_unfold Let_def z era split: prod.split)
qed

lemma days_from_civil_eq:
  assumes "0 \<le> y" "y \<le> 399" "0 \<le> doy_of m d" "doy_of m d \<le> 365"
  shows "days_from_civil (y + era * 400 + (if m \<le> 2 then 1 else 0)) m d =
    era * 146097 + (year_start y + doy_of m d) - 719468"
proof -
  have "wrap32 y = y" "wrap32 (year_start y + doy_of m d) = year_start y + doy_of m d"
    using assms year_start_bound [of y] year_starts(3) [OF assms(1)] by (intro wrap32_id; linarith)+
  moreover have "y + era * 400 + b - b = y + era * 400" "y + era * 400 - era * 400 = y" for b by simp_all
  moreover have "(y + era * 400) div 400 = era" using assms by (simp add: div_pos_pos_trivial)
  ultimately show ?thesis by (simp only: days_from_civil_unfold Let_def)
qed

lemma days_in_month_cases:
  "month \<noteq> 2 \<Longrightarrow> days_in_month year month = days_in_month 0 month"
  "days_in_month (year + era * 400) month = days_in_month year month"
proof -
  have "(year + era * 400) mod 4 = year mod 4" "(year + era * 400) mod 100 = year mod 100"
    "(year + era * 400) mod 400 = year mod 400"
    using mod_mult_self1 [of year "era * 100" 4] mod_mult_self1 [of year "era * 4" 100] mod_mult_self1 [of year era 400]
    by (simp_all add: algebra_simps)
  then show "days_in_month (year + era * 400) month = days_in_month year month"
    by (simp add: days_in_month_def)
qed (simp add: days_in_month_def)

lemma era_split:
  obtains era doe :: int where "n = era * 146097 + doe - 719468" "0 \<le> doe" "doe \<le> 146096"
proof
  show "n = (n + 719468) div 146097 * 146097 + (n + 719468) mod 146097 - 719468"
    using div_mult_mod_eq [of "n + 719468" 146097] by linarith
  show "0 \<le> (n + 719468) mod 146097" "(n + 719468) mod 146097 \<le> 146096"
    using pos_mod_bound [of 146097 "n + 719468"] by simp_all
qed

lemma days_of_civil_of_days:
  assumes "civil_from_days n = (year, month, day)"
  shows "valid_date year month day" "days_from_civil year month day = n"
proof -
  obtain era doe where n: "n = era * 146097 + doe - 719468" and doe: "0 \<le> doe" "doe \<le> 146096"
    by (rule era_split)
  obtain y where y: "0 \<le> y" "y \<le> 399" "year_start y \<le> doe" "if y = 399 then doe \<le> 146096 else doe < year_start (y + 1)"
    using doe_in_year [OF doe] by blast
  obtain m d where md: "month_day_of (doe - year_start y) = (m, d)" by force
  have doy: "doe - year_start y \<in> {0..365}" using year_start_le [OF y] y(3) by simp
  note checked = month_day_of_doy [OF doy md]
  have res: "year = y + era * 400 + (if m \<le> 2 then 1 else 0)" "month = m" "day = d"
    using assms civil_from_days_eq [OF y, of era] md unfolding n by auto
  have "d \<le> days_in_month year m"
  proof (cases "m = 2")
    case True
    then have "days_in_month year m = days_in_month (y + 1) 2"
      using days_in_month_cases(2) [of "y + 1" era 2] by (simp add: res(1) algebra_simps)
    moreover have "d \<le> 28 \<or> d = 29" using checked(5) True by (auto simp: days_in_month_def)
    moreover have "28 \<le> days_in_month (y + 1) 2" by (simp add: days_in_month_def)
    ultimately show ?thesis using checked(6) True year_start_le(2) [OF y] by auto
  qed (use checked(5) days_in_month_cases(1) [of m year] in simp)
  then show "valid_date year month day" using checked res by (simp add: valid_date_def)
  have "0 \<le> doy_of m d" "doy_of m d \<le> 365" using checked(1) doy by auto
  from days_from_civil_eq [OF y(1,2) this, of era] show "days_from_civil year month day = n"
    unfolding res n checked(1) by simp
qed

lemma civil_of_days_of_civil:
  assumes "valid_date year month day"
  shows "civil_from_days (days_from_civil year month day) = (year, month, day)"
proof -
  let ?b = "if month \<le> 2 then 1 else (0 :: int)"
  define y where "y = (year - ?b) mod 400"
  define era where "era = (year - ?b) div 400"
  have year: "year = y + era * 400 + ?b" unfolding y_def era_def by simp
  have y: "0 \<le> y" "y \<le> 399" using pos_mod_bound [of 400 "year - ?b"] by (simp_all add: y_def)
  have md: "month \<in> {1..12}" "1 \<le> day" "day \<le> days_in_month year month" using assms by (auto simp: valid_date_def)
  moreover have "days_in_month year month \<le> days_in_month 0 month" by (simp add: days_in_month_def)
  ultimately have "day \<in> {1..days_in_month 0 month}" by simp
  with md(1) have checked: "month_day_of (doy_of month day) = (month, day)" "0 \<le> doy_of month day"
    "doy_of month day \<le> 365" "doy_of month day = 365 \<longleftrightarrow> month = 2 \<and> day = 29"
    using month_days_checked by (auto simp: list_all_iff)
  have "if y = 399 then year_start y + doy_of month day \<le> 146096 else year_start y + doy_of month day < year_start (y + 1)"
  proof (cases "y = 399 \<or> doy_of month day \<le> 364")
    case True
    moreover have "28 \<le> days_in_month (y + 1) 2" by (simp add: days_in_month_def)
    ultimately show ?thesis using checked(3) year_length [of y] y by (auto simp: year_starts)
  next
    case False
    then have d: "month = 2" "day = 29" "doy_of month day = 365" using checked by auto
    then have "days_in_month (y + 1) 2 = 29"
      using md(3) days_in_month_cases(2) [of "y + 1" era 2] by (simp add: year algebra_simps) (auto simp: days_in_month_def split: if_splits)
    then show ?thesis using False d year_length [of y] y by simp
  qed
  from civil_from_days_eq [OF y _ this, of era] show ?thesis
    using checked year_starts days_from_civil_eq [OF y checked(2,3), of era] by (simp add: year)
qed

text \<open>C37: The two date conversions are inverse to each other, on every day and on every date of the
  Gregorian calendar: \<open>civil_from_days\<close> gives a date exactly when it exists (leap years
  included) and \<open>days_from_civil\<close> takes it to that day.\<close>

theorem civil_date_roundtrip:
  "civil_from_days n = (year, month, day) \<longleftrightarrow> valid_date year month day \<and> days_from_civil year month day = n"
  using days_of_civil_of_days civil_of_days_of_civil by blast

section \<open>What the readers accept\<close>

text \<open>\<open>parse_iso_date\<close> does not know the lengths of the months: the 31st of February is
  accepted and is the 3rd of March, so a date that does not exist is stored as another one.\<close>

theorem parse_iso_date_overflow:
  "parse_iso_date ''2023-02-31'' = Some (days_from_civil 2023 3 3) \<and>
   civil_from_days (the (parse_iso_date ''2023-02-31'')) = (2023, 3, 3) \<and> \<not> valid_date 2023 2 31"
  by code_simp

lemma split_timestamp_bounds: "case split_timestamp n of (days, rem) \<Rightarrow> n = days * 86400 + rem \<and> 0 \<le> rem \<and> rem < 86400"
proof (cases "n \<ge> 0")
  case True
  then show ?thesis using div_mult_mod_eq [of n 86400] pos_mod_bound [of 86400 n] pos_mod_sign [of 86400 n]
      sdiv_floor [of 86400 86399 n]
    by (simp only: split_timestamp_def Let_def if_True prod.case) linarith
next
  case False
  then have "- ((- n + 86399) sdiv 86400) = n div 86400"
    using sdiv_floor [of 86400 86399 n] by (simp add: signed_divide_int_def algebra_simps)
  then show ?thesis using False div_mult_mod_eq [of n 86400] pos_mod_bound [of 86400 n] pos_mod_sign [of 86400 n]
    by (simp only: split_timestamp_def Let_def if_False prod.case) linarith
qed

end
