(* ===== verification/Cql_Table.thy ===== *)
theory Cql_Table
  imports Complex_Main Base_Date Cql_Types Ir_Gen
begin

text \<open>
  Tables as the query engine reads them: \<open>CQL_Table\<close> and \<open>CQL_Column\<close> of
  \<open>src/src/cql/cql.h\<close>, the lookup of a column, fixed-point decimals and enum labels
  (\<open>cql.c\<close>), and \<open>F64\<close> values.

  A table is its name, its columns in order and its rows; a cell is null, the bytes of a string, or the
  \<open>F64\<close> that \<open>cql_numeric_value_as_f64\<close> makes of the stored number. The storage
  behind it (disk-backed arrays, dictionaries, zone maps) is not part of this theory.

  An \<open>F64\<close> is not a number, an infinity or a rational number; comparisons are those of
  IEEE 754. Where a value is rounded, the rounding is the parameter \<open>num_env\<close>: the
  conversion of an integer, the quotient of two counts, and \<open>atof\<close> of the C library.
\<close>

section \<open>Floating point values\<close>

datatype f64 = F64_nan | F64_neg_inf | F64_num rat | F64_inf

fun f64_lt :: "f64 \<Rightarrow> f64 \<Rightarrow> bool" where
  "f64_lt F64_neg_inf y \<longleftrightarrow> y \<noteq> F64_nan \<and> y \<noteq> F64_neg_inf"
| "f64_lt (F64_num a) (F64_num b) \<longleftrightarrow> a < b"
| "f64_lt (F64_num a) F64_inf \<longleftrightarrow> True"
| "f64_lt _ _ \<longleftrightarrow> False"

definition f64_eq :: "f64 \<Rightarrow> f64 \<Rightarrow> bool" where
  "f64_eq x y \<longleftrightarrow> x = y \<and> x \<noteq> F64_nan"

definition f64_le :: "f64 \<Rightarrow> f64 \<Rightarrow> bool" where
  "f64_le x y \<longleftrightarrow> f64_lt x y \<or> f64_eq x y"

fun f64_neg :: "f64 \<Rightarrow> f64" where
  "f64_neg F64_nan = F64_nan"
| "f64_neg F64_neg_inf = F64_inf"
| "f64_neg F64_inf = F64_neg_inf"
| "f64_neg (F64_num a) = F64_num (- a)"

lemma f64_lt_irrefl [simp]: "\<not> f64_lt x x"
  by (cases x) auto

lemma f64_lt_nan [simp]: "\<not> f64_lt F64_nan y" "\<not> f64_lt x F64_nan"
  by (cases x; simp)+

lemma f64_lt_trans: "f64_lt x y \<Longrightarrow> f64_lt y z \<Longrightarrow> f64_lt x z"
  by (cases x; cases y; cases z; auto)

lemma f64_lt_asym: "f64_lt x y \<Longrightarrow> \<not> f64_lt y x"
  using f64_lt_trans f64_lt_irrefl by blast

lemma f64_lt_neq: "f64_lt x y \<Longrightarrow> x \<noteq> y"
  by auto

lemma f64_linear: "x \<noteq> F64_nan \<Longrightarrow> y \<noteq> F64_nan \<Longrightarrow> f64_lt x y \<or> x = y \<or> f64_lt y x"
  by (cases x; cases y) auto

lemma f64_eq_simps [simp]: "f64_eq F64_nan y \<longleftrightarrow> False" "f64_eq x F64_nan \<longleftrightarrow> False"
  by (auto simp: f64_eq_def)

section \<open>Numbers from text\<close>

text \<open>What the code takes from the C library and from the hardware: \<open>atof\<close>, the
  conversion of a 64-bit integer and the quotient of two counts; \<open>oob_digit\<close> is what the
  read behind the digit table yields for a byte of 128 or more.\<close>

record num_env =
  atof :: "string8 \<Rightarrow> f64"
  f64_of_int :: "int \<Rightarrow> f64"
  f64_ratio :: "nat \<Rightarrow> nat \<Rightarrow> f64"
  oob_digit :: "char \<Rightarrow> bool"
  trigram_n :: nat

definition is_digit10 :: "num_env \<Rightarrow> char \<Rightarrow> bool" where
  "is_digit10 env c = (case char_is_digit c 10 of Some b \<Rightarrow> b | None \<Rightarrow> oob_digit env c)"

text \<open>The loop of \<open>f64_from_str8\<close>: at most \<open>room\<close> characters are kept, a sign
  only directly behind an \<open>e\<close>. A skipped character leaves the \<open>exp\<close> flag as it
  is.\<close>

fun gather_numeric :: "num_env \<Rightarrow> nat \<Rightarrow> bool \<Rightarrow> string8 \<Rightarrow> string8" where
  "gather_numeric env room expo [] = []"
| "gather_numeric env 0 expo (c # s) = []"
| "gather_numeric env (Suc room) expo (c # s) =
     (if is_digit10 env c \<or> c = CHR ''.'' \<or> c = CHR ''e'' \<or> (expo \<and> (c = CHR ''+'' \<or> c = CHR ''-''))
      then c # gather_numeric env room (c = CHR ''e'') s
      else gather_numeric env (Suc room) expo s)"

definition f64_from_str8 :: "num_env \<Rightarrow> string8 \<Rightarrow> f64" where
  "f64_from_str8 env s =
     (if s = [] then F64_num 0
      else let v = atof env (gather_numeric env 63 False s)
           in if hd s = CHR ''-'' then f64_neg v else v)"

section \<open>Tables\<close>

datatype cell = Cell_null | Cell_str string8 | Cell_num f64

record cql_column =
  column_name :: string8
  column_ty :: column_type
  decimal_scale :: nat
  enum_labels :: "string8 list option"

record cql_table =
  table_name :: string8
  columns :: "cql_column list"
  table_rows :: "cell list list"

definition cql_table_find_column :: "cql_table \<Rightarrow> string8 \<Rightarrow> nat option" where
  "cql_table_find_column t name = first_index (\<lambda>c. str8_match (column_name c) name match_exact) (columns t)"

definition cql_enum_type_code_from_label :: "string8 list \<Rightarrow> string8 \<Rightarrow> nat option" where
  "cql_enum_type_code_from_label labels label = first_index (\<lambda>l. str8_match l label match_exact) labels"

definition cql_enum_type_label_from_code :: "string8 list \<Rightarrow> nat \<Rightarrow> string8" where
  "cql_enum_type_label_from_code labels code = (if code \<ge> length labels then ''?'' else labels ! code)"

section \<open>Decimals\<close>

definition decimal_from_str8 :: "string8 \<Rightarrow> nat \<Rightarrow> int option" where
  "decimal_from_str8 str scale =
     (let signed = str \<noteq> [] \<and> (hd str = CHR ''-'' \<or> hd str = CHR ''+'');
          sign = (if signed \<and> hd str = CHR ''-'' then - 1 else 1);
          rest = (if signed then str8_skip str 1 else str);
          dot = str8_find_needle rest 0 ''.'' match_exact;
          int_part = (if dot < length rest then str8_prefix rest dot else rest);
          frac_part = (if dot < length rest then str8_skip rest (dot + 1) else [])
      in if int_part = [] \<and> frac_part = [] then None
         else if int_part \<noteq> [] \<and> \<not> str8_is_integer int_part 10 then None
         else if frac_part \<noteq> [] \<and> \<not> str8_is_integer frac_part 10 then None
         else
           let int_value = (if int_part \<noteq> [] then u64_from_str8 int_part 10 else 0);
               frac_len = min (length frac_part) scale;
               frac_kept = str8_prefix frac_part frac_len;
               frac_value = (if frac_kept \<noteq> [] then u64_from_str8 frac_kept 10 else 0) * 10 ^ (scale - frac_len);
               round_up = (length frac_part > scale \<and>
                 byte CHR ''5'' \<le> byte (frac_part ! scale) \<and> byte (frac_part ! scale) \<le> byte CHR ''9'');
               magnitude = int_value * 10 ^ scale + frac_value + (if round_up then 1 else 0) :: u64
           in Some (sint (word_of_int sign * magnitude)))"

text \<open>\<open>%llu\<close> of an unsigned value and \<open>%0*llu\<close> with a minimal width.\<close>

definition fmt_u64 :: "nat \<Rightarrow> string8" where
  "fmt_u64 u = map digit_char (digits_of 10 u)"

definition fmt_u64_padded :: "nat \<Rightarrow> nat \<Rightarrow> string8" where
  "fmt_u64_padded width u = replicate (width - length (fmt_u64 u)) (CHR ''0'') @ fmt_u64 u"

text \<open>For \<open>scale = 0\<close> the code prints through \<open>str8_from_s64\<close>, which writes
  every byte.\<close>

definition decimal_to_str8 :: "int \<Rightarrow> nat \<Rightarrow> string8" where
  "decimal_to_str8 raw scale =
     (if scale = 0 then map the (str8_from_s64 raw 10 0 (CHR 0x00))
      else
        let magnitude = nat ((if raw < 0 then - raw else raw) mod 2 ^ 64);
            pow = nat (10 ^ scale mod 2 ^ 64)
        in (if raw < 0 then ''-'' else []) @ fmt_u64 (magnitude div pow) @ ''.'' @
           fmt_u64_padded scale (magnitude mod pow))"

lemma find_needle_from_char:
  "i \<le> length s \<Longrightarrow>
   find_needle_from s i (length s) c [] (sloppy match_exact) = i + length (takeWhile (\<lambda>x. x \<noteq> c) (drop i s))"
proof (induction "length s - i" arbitrary: i)
  case 0
  then show ?case by (subst find_needle_from.simps) simp
next
  case (Suc n)
  then have "drop i s = s ! i # drop (Suc i) s" by (simp add: Cons_nth_drop_Suc)
  with Suc show ?case
    by (subst find_needle_from.simps) (auto simp: sloppy_def match_exact_def str8_match_def)
qed

lemma str8_find_needle_char: "str8_find_needle s 0 [c] match_exact = length (takeWhile (\<lambda>x. x \<noteq> c) s)"
  using find_needle_from_char [of 0 s c]
  by (simp add: str8_find_needle_def sloppy_def match_exact_def Let_def str8_skip_def)

lemma digit_char_plain: "d < 10 \<Longrightarrow> digit_char d \<noteq> CHR ''.'' \<and> digit_char d \<noteq> CHR ''-'' \<and> digit_char d \<noteq> CHR ''+''"
proof -
  have "\<forall>i \<in> set [0..<10]. digit_char i \<noteq> CHR ''.'' \<and> digit_char i \<noteq> CHR ''-'' \<and> digit_char i \<noteq> CHR ''+''"
    by code_simp
  then show "d < 10 \<Longrightarrow> ?thesis" by simp
qed

lemma digits_of_length: "u < 10 ^ n \<Longrightarrow> 0 < n \<Longrightarrow> length (digits_of 10 u) \<le> n"
proof (induction "10 :: nat" u arbitrary: n rule: digits_of.induct)
  case (1 u)
  show ?case
  proof (cases "u div 10 = 0")
    case True
    then show ?thesis using 1(3) by (subst digits_of.simps) simp
  next
    case False
    then obtain m where m: "n = Suc m" "0 < m"
      using 1(2,3) by (cases n; cases "n - 1") auto
    then have "u div 10 < 10 ^ m" using 1(2) by (simp add: less_mult_imp_div_less mult.commute)
    then show ?thesis using 1(1) [of m] False m by (subst digits_of.simps) simp
  qed
qed

lemma foldl_zeros: "foldl (\<lambda>x d. x * 10 + d) 0 (replicate k 0 @ ds) = foldl (\<lambda>x d. x * 10 + d) (0 :: nat) ds"
  by (induction k) auto



end
