(* ===== verification/Qe_Rows.thy ===== *)
theory Qe_Rows
  imports Cql_Table
begin

text \<open>
  Row sets and the evaluation of a condition on one row: the CPU reference of the query engine
  (\<open>src/src/query_exec/query_exec.c\<close>, from \<open>qe_resolve_column_table\<close> to
  \<open>qe_cpu_scan_filter\<close>), and the fuzzy string functions it calls.

  A row set is the tables in scope with their aliases and, for every output row, the row of each table
  or \<open>None\<close> for \<open>PLAN_NULL_ROW\<close>. (The program stores the transpose, one array per
  table.) Where the program logs an error and goes on with a value, so does the model.
\<close>

section \<open>Strings\<close>

text \<open>The sign of \<open>qe_str8_compare\<close>: bytes first, the shorter of two equal prefixes
  is less.\<close>

fun qe_str8_compare :: "string8 \<Rightarrow> string8 \<Rightarrow> int" where
  "qe_str8_compare [] [] = 0"
| "qe_str8_compare [] (b # bs) = - 1"
| "qe_str8_compare (a # as) [] = 1"
| "qe_str8_compare (a # as) (b # bs) =
     (if byte a < byte b then - 1 else if byte b < byte a then 1 else qe_str8_compare as bs)"

lemma qe_str8_compare_eq [simp]: "qe_str8_compare a b = 0 \<longleftrightarrow> a = b"
  by (induction a b rule: qe_str8_compare.induct) auto

fun qe_str8_contains :: "string8 \<Rightarrow> string8 \<Rightarrow> bool" where
  "qe_str8_contains [] needle \<longleftrightarrow> needle = []"
| "qe_str8_contains (c # s) needle \<longleftrightarrow> take (length needle) (c # s) = needle \<or> qe_str8_contains s needle"

text \<open>One row of the table of \<open>qe_str8_edit_distance\<close>: \<open>left\<close> is the entry just
  written, \<open>diag\<close> the one above it before it was overwritten.\<close>

fun edit_row :: "char \<Rightarrow> nat \<Rightarrow> nat \<Rightarrow> string8 \<Rightarrow> nat list \<Rightarrow> nat list" where
  "edit_row c left diag (b # bs) (up # dp) =
     (let here = min (min (up + 1) (left + 1)) (diag + (if c = b then 0 else 1))
      in here # edit_row c here up bs dp)"
| "edit_row c left diag _ _ = []"

fun edit_rows :: "nat \<Rightarrow> string8 \<Rightarrow> string8 \<Rightarrow> nat list \<Rightarrow> nat list" where
  "edit_rows i [] needle dp = dp"
| "edit_rows i (c # s) needle dp = edit_rows (Suc i) s needle (i # edit_row c i (hd dp) needle (tl dp))"

definition qe_str8_edit_distance :: "string8 \<Rightarrow> string8 \<Rightarrow> nat" where
  "qe_str8_edit_distance haystack needle = edit_rows 1 haystack needle [0..<length needle + 1] ! length needle"

text \<open>The trigrams the two strings share, each of the needle's used once.\<close>

definition grams :: "nat \<Rightarrow> string8 \<Rightarrow> string8 list" where
  "grams n s = map (\<lambda>i. take n (drop i s)) [0..<length s - n + 1]"

fun shared_grams :: "string8 list \<Rightarrow> string8 list \<Rightarrow> nat" where
  "shared_grams [] needle = 0"
| "shared_grams (g # gs) needle =
     (if g \<in> set needle then Suc (shared_grams gs (remove1 g needle)) else shared_grams gs needle)"

definition qe_str8_trigram_similarity :: "num_env \<Rightarrow> string8 \<Rightarrow> string8 \<Rightarrow> f64" where
  "qe_str8_trigram_similarity env haystack needle =
     (let n = (if trigram_n env = 0 then 3 else trigram_n env) in
      if length haystack < n \<or> length needle < n then (if haystack = needle then F64_num 1 else F64_num 0)
      else
        let h = grams n haystack; g = grams n needle;
            shared = shared_grams h g;
            union_size = length h + length g - shared
        in if union_size = 0 then F64_num 0 else f64_ratio env shared union_size)"

section \<open>Names\<close>

text \<open>The qualifier of a column name, if it has a dot, and what is behind the first dot.\<close>

definition has_dot :: "string8 \<Rightarrow> bool" where
  "has_dot name \<longleftrightarrow> CHR ''.'' \<in> set name"

definition qualifier_of :: "string8 \<Rightarrow> string8" where
  "qualifier_of name = takeWhile (\<lambda>c. c \<noteq> CHR ''.'') name"

definition qe_bare_column_name :: "string8 \<Rightarrow> string8" where
  "qe_bare_column_name name =
     (if has_dot name then str8_skip name (length (qualifier_of name) + 1) else name)"

text \<open>The name a relation goes by: its alias, or the name of its table.\<close>

definition scope_name :: "cql_table \<times> string8 \<Rightarrow> string8" where
  "scope_name r = (if snd r \<noteq> [] then snd r else table_name (fst r))"

definition qe_column_belongs_to_table :: "cql_table \<times> string8 \<Rightarrow> string8 \<Rightarrow> bool" where
  "qe_column_belongs_to_table r name =
     (if has_dot name \<and> \<not> str8_match (qualifier_of name) (scope_name r) match_ci then False
      else cql_table_find_column (fst r) (qe_bare_column_name name) \<noteq> None)"

section \<open>Row sets\<close>

type_synonym scope = "(cql_table \<times> string8) list"
type_synonym joined_row = "nat option list"

record row_set =
  rs_tables :: scope
  rs_rows :: "joined_row list"

definition qe_column_belongs_to_rowset :: "scope \<Rightarrow> string8 \<Rightarrow> bool" where
  "qe_column_belongs_to_rowset sc name = list_ex (\<lambda>r. qe_column_belongs_to_table r name) sc"

text \<open>\<open>qe_resolve_column_table\<close>: the slot of the table a column is in. A qualified name goes
  to the first table of that name, whether or not it has the column; an unqualified one must be in
  exactly one table.\<close>

definition qe_resolve_column_table :: "scope \<Rightarrow> string8 \<Rightarrow> nat option" where
  "qe_resolve_column_table sc name =
     (if has_dot name then first_index (\<lambda>r. str8_match (scope_name r) (qualifier_of name) match_ci) sc
      else
        case filter (\<lambda>t. cql_table_find_column (fst (sc ! t)) name \<noteq> None) [0..<length sc] of
          [t] \<Rightarrow> Some t
        | _ \<Rightarrow> None)"

text \<open>The column a name stands for: its table's slot and its position there.\<close>

definition resolve_column :: "scope \<Rightarrow> string8 \<Rightarrow> (nat \<times> nat) option" where
  "resolve_column sc name =
     (case qe_resolve_column_table sc name of
        None \<Rightarrow> None
      | Some t \<Rightarrow> map_option (Pair t) (cql_table_find_column (fst (sc ! t)) (qe_bare_column_name name)))"

definition column_at :: "scope \<Rightarrow> nat \<times> nat \<Rightarrow> cql_column" where
  "column_at sc p = columns (fst (sc ! fst p)) ! snd p"

section \<open>Values\<close>

text \<open>What \<open>qe_row_load_value\<close> returns through its out parameters.\<close>

datatype loaded = L_null | L_str string8 | L_num f64

fun loaded_string :: "loaded \<Rightarrow> string8" where
  "loaded_string (L_str s) = s"
| "loaded_string _ = []"

fun loaded_num :: "loaded \<Rightarrow> f64" where
  "loaded_num (L_num v) = v"
| "loaded_num _ = F64_num 0"

fun is_L_str :: "loaded \<Rightarrow> bool" where
  "is_L_str (L_str s) = True"
| "is_L_str _ = False"

definition cell_value :: "column_type \<Rightarrow> cell \<Rightarrow> loaded" where
  "cell_value ty c =
     (case c of
        Cell_null \<Rightarrow> L_null
      | Cell_str s \<Rightarrow> if ty = ColString8 then L_str s else L_num (F64_num 0)
      | Cell_num v \<Rightarrow> if ty = ColString8 then L_str [] else L_num v)"

definition load_column :: "scope \<Rightarrow> joined_row \<Rightarrow> string8 \<Rightarrow> loaded" where
  "load_column sc row name =
     (case qe_resolve_column_table sc name of
        None \<Rightarrow> L_num (F64_num 0)
      | Some t \<Rightarrow>
          (case row ! t of
             None \<Rightarrow> L_null
           | Some i \<Rightarrow>
               (case cql_table_find_column (fst (sc ! t)) (qe_bare_column_name name) of
                  None \<Rightarrow> L_num (F64_num 0)
                | Some c \<Rightarrow> cell_value (column_ty (columns (fst (sc ! t)) ! c)) (table_rows (fst (sc ! t)) ! i ! c))))"

definition qe_row_load_value :: "num_env \<Rightarrow> scope \<Rightarrow> joined_row \<Rightarrow> ir_node \<Rightarrow> loaded" where
  "qe_row_load_value env sc row node =
     (if ir_type node = IrColumn then load_column sc row (ir_value node)
      else if ir_type node = IrLiteral then L_str (ir_value node)
      else L_num (f64_from_str8 env (ir_value node)))"

section \<open>Literals for a typed column\<close>

definition qe_resolve_date_literal_value :: "num_env \<Rightarrow> column_type \<Rightarrow> string8 \<Rightarrow> f64 option" where
  "qe_resolve_date_literal_value env ty v =
     (if ty = ColDate then map_option (f64_of_int env) (parse_iso_date v)
      else if ty = ColTimestamp then map_option (f64_of_int env) (parse_iso_timestamp v)
      else None)"

definition qe_resolve_decimal_literal_value :: "num_env \<Rightarrow> cql_column \<Rightarrow> string8 \<Rightarrow> f64 option" where
  "qe_resolve_decimal_literal_value env c v =
     (if column_ty c \<noteq> ColDecimal then None
      else map_option (f64_of_int env) (decimal_from_str8 v (decimal_scale c)))"

definition qe_resolve_enum_literal_value :: "num_env \<Rightarrow> cql_column \<Rightarrow> string8 \<Rightarrow> f64 option" where
  "qe_resolve_enum_literal_value env c v =
     (if column_ty c \<noteq> ColEnum then None
      else case enum_labels c of
        None \<Rightarrow> None
      | Some labels \<Rightarrow> map_option (\<lambda>code. f64_of_int env (int code)) (cql_enum_type_code_from_label labels v))"

text \<open>An item of a value list, for the column on the left if there is one.\<close>

definition qe_in_item_resolve :: "num_env \<Rightarrow> cql_column option \<Rightarrow> ir_node \<Rightarrow> loaded option" where
  "qe_in_item_resolve env column item =
     (let ty = (case column of None \<Rightarrow> ColInvalid | Some c \<Rightarrow> column_ty c);
          literal = (ir_type item = IrLiteral) in
      if ty = ColString8 \<or> (column = None \<and> literal) then Some (L_str (ir_value item))
      else if ty = ColDate \<or> ty = ColTimestamp then
        if literal then map_option L_num (qe_resolve_date_literal_value env ty (ir_value item)) else None
      else if ty = ColEnum then
        if literal then map_option L_num (qe_resolve_enum_literal_value env (the column) (ir_value item)) else None
      else if ty = ColDecimal then map_option L_num (qe_resolve_decimal_literal_value env (the column) (ir_value item))
      else Some (L_num (f64_from_str8 env (ir_value item))))"

definition qe_in_left_column :: "scope \<Rightarrow> ir_node \<Rightarrow> cql_column option" where
  "qe_in_left_column sc left =
     (if ir_type left \<noteq> IrColumn then None
      else map_option (column_at sc) (resolve_column sc (ir_value left)))"

text \<open>The walk of the list in \<open>qe_in_list_contains\<close>.\<close>

definition item_matches :: "loaded \<Rightarrow> loaded \<Rightarrow> bool" where
  "item_matches v w =
     (case (v, w) of
        (L_str s, L_str t) \<Rightarrow> qe_str8_compare s t = 0
      | (L_num x, L_num y) \<Rightarrow> f64_eq x y
      | _ \<Rightarrow> False)"

definition qe_in_list_contains :: "num_env \<Rightarrow> scope \<Rightarrow> ir_node \<Rightarrow> ir_node \<Rightarrow> loaded \<Rightarrow> bool" where
  "qe_in_list_contains env sc left list_node v =
     list_ex (\<lambda>item. case qe_in_item_resolve env (qe_in_left_column sc left) item of
         None \<Rightarrow> False
       | Some w \<Rightarrow> item_matches v w) (ir_children list_node)"

section \<open>Conditions\<close>

definition qe_ir_is_fuzzy_call :: "ir_node \<Rightarrow> bool option" where
  "qe_ir_is_fuzzy_call node =
     (if ir_type node \<noteq> IrAggregateCall then None
      else if str8_match (ir_value node) ''similarity'' match_ci then Some False
      else if str8_match (ir_value node) ''edit_distance'' match_ci \<or>
              str8_match (ir_value node) ''levenshtein'' match_ci then Some True
      else None)"

definition qe_row_eval_fuzzy_call :: "num_env \<Rightarrow> scope \<Rightarrow> joined_row \<Rightarrow> ir_node \<Rightarrow> bool \<Rightarrow> f64" where
  "qe_row_eval_fuzzy_call env sc row call is_distance =
     (case ir_children call of
        col_arg # needle_arg # _ \<Rightarrow>
          (case qe_row_load_value env sc row col_arg of
             L_str haystack \<Rightarrow>
               if is_distance then f64_of_int env (int (qe_str8_edit_distance haystack (ir_value needle_arg)))
               else qe_str8_trigram_similarity env haystack (ir_value needle_arg)
           | _ \<Rightarrow> if is_distance then f64_of_int env (int (length (ir_value needle_arg))) else F64_num 0)
      | _ \<Rightarrow> F64_num 0)"

text \<open>The comparison of two numbers; an operator that is none is logged and counts as true.\<close>

definition compare_numbers :: "string8 \<Rightarrow> f64 \<Rightarrow> f64 \<Rightarrow> bool" where
  "compare_numbers op l r =
     (if op = ''='' \<or> op = ''=='' then f64_eq l r
      else if op = ''!='' then \<not> f64_eq l r
      else if op = ''<='' then f64_le l r
      else if op = ''>='' then f64_le r l
      else if op = ''<'' then f64_lt l r
      else if op = ''>'' then f64_lt r l
      else True)"

definition compare_strings :: "string8 \<Rightarrow> string8 \<Rightarrow> string8 \<Rightarrow> bool" where
  "compare_strings op l r =
     (if str8_match op ''contains'' match_ci then qe_str8_contains l r
      else let cmp = qe_str8_compare l r in
        if op = ''!='' then cmp \<noteq> 0
        else if op = ''<'' then cmp < 0
        else if op = ''>'' then cmp > 0
        else if op = ''<='' then cmp \<le> 0
        else if op = ''>='' then cmp \<ge> 0
        else cmp = 0)"

text \<open>The right operand of a comparison whose left one is a column: the literal of a date, enum or
  decimal column is converted to the stored form. \<open>None\<close> is a literal that cannot be,
  which never matches.\<close>

definition resolve_right :: "num_env \<Rightarrow> scope \<Rightarrow> joined_row \<Rightarrow> ir_node \<Rightarrow> ir_node \<Rightarrow> loaded option" where
  "resolve_right env sc row left right =
     (case (if ir_type left = IrColumn then map_option (column_at sc) (resolve_column sc (ir_value left)) else None) of
        Some c \<Rightarrow>
          if ir_type right = IrLiteral \<and> (column_ty c = ColDate \<or> column_ty c = ColTimestamp) then
            map_option L_num (qe_resolve_date_literal_value env (column_ty c) (ir_value right))
          else if ir_type right = IrLiteral \<and> column_ty c = ColEnum then
            map_option L_num (qe_resolve_enum_literal_value env c (ir_value right))
          else if ir_type right = IrNumeric \<and> column_ty c = ColDecimal then
            map_option L_num (qe_resolve_decimal_literal_value env c (ir_value right))
          else Some (qe_row_load_value env sc row right)
      | None \<Rightarrow> Some (qe_row_load_value env sc row right))"

text \<open>A leaf of the condition: everything but \<open>and\<close> and \<open>or\<close>. A missing
  operand is logged and counts as true, or as false for \<open>in\<close>.\<close>

definition compare_loaded :: "string8 \<Rightarrow> loaded \<Rightarrow> loaded \<Rightarrow> bool" where
  "compare_loaded op l r =
     (if l = L_null \<or> r = L_null then False
      else if is_L_str l \<or> is_L_str r then compare_strings op (loaded_string l) (loaded_string r)
      else compare_numbers op (loaded_num l) (loaded_num r))"

definition is_op :: "string8 \<Rightarrow> string8 \<Rightarrow> bool" where
  "is_op op name = str8_match op name match_ci"

definition eval_leaf :: "num_env \<Rightarrow> scope \<Rightarrow> joined_row \<Rightarrow> string8 \<Rightarrow> ir_node list \<Rightarrow> bool" where
  "eval_leaf env sc row op args =
     (if is_op op ''is null'' \<or> is_op op ''is not null'' then
        (case args of
           [] \<Rightarrow> True
         | l # _ \<Rightarrow> (qe_row_load_value env sc row l = L_null) \<noteq> is_op op ''is not null'')
      else if is_op op ''in'' \<or> is_op op ''not in'' then
        (case args of
           l # r # _ \<Rightarrow>
             if ir_type r \<noteq> IrInList then False
             else let v = qe_row_load_value env sc row l in
               if v = L_null then False
               else qe_in_list_contains env sc l r v \<noteq> is_op op ''not in''
         | _ \<Rightarrow> False)
      else
        case args of
          l # r # _ \<Rightarrow>
            (case qe_ir_is_fuzzy_call l of
               Some is_distance \<Rightarrow>
                 let v = qe_row_load_value env sc row r in
                 if v = L_null then False
                 else compare_numbers op (qe_row_eval_fuzzy_call env sc row l is_distance) (loaded_num v)
             | None \<Rightarrow>
                 (case resolve_right env sc row l r of
                    None \<Rightarrow> False
                  | Some rv \<Rightarrow> compare_loaded op (qe_row_load_value env sc row l) rv))
        | _ \<Rightarrow> True)"

fun qe_row_condition_eval :: "num_env \<Rightarrow> scope \<Rightarrow> joined_row \<Rightarrow> ir_node \<Rightarrow> bool" where
  "qe_row_condition_eval env sc row (IR_Node ty op args) =
     (if ty \<noteq> IrOperator then
        (case qe_row_load_value env sc row (IR_Node ty op args) of
           L_null \<Rightarrow> False
         | L_str s \<Rightarrow> s \<noteq> []
         | L_num v \<Rightarrow> \<not> f64_eq v (F64_num 0))
      else if is_op op ''and'' then
        (case args of
           [] \<Rightarrow> True
         | [l] \<Rightarrow> qe_row_condition_eval env sc row l
         | l # r # _ \<Rightarrow> qe_row_condition_eval env sc row l \<and> qe_row_condition_eval env sc row r)
      else if is_op op ''or'' then
        (case args of
           [] \<Rightarrow> True
         | [l] \<Rightarrow> True
         | l # r # _ \<Rightarrow> qe_row_condition_eval env sc row l \<or> qe_row_condition_eval env sc row r)
      else eval_leaf env sc row op args)"

text \<open>A condition that may be absent, as the planner passes it.\<close>

fun eval_opt :: "num_env \<Rightarrow> scope \<Rightarrow> joined_row \<Rightarrow> ir_node option \<Rightarrow> bool" where
  "eval_opt env sc row None = True"
| "eval_opt env sc row (Some c) = qe_row_condition_eval env sc row c"

section \<open>Filters\<close>

definition qe_filter_joined_rows :: "num_env \<Rightarrow> row_set \<Rightarrow> ir_node option \<Rightarrow> row_set" where
  "qe_filter_joined_rows env rs condition =
     rs\<lparr>rs_rows := filter (\<lambda>row. eval_opt env (rs_tables rs) row condition) (rs_rows rs)\<rparr>"

text \<open>The CPU scan of a table: the row set has no alias, so a qualified name would have to name the
  table itself.\<close>

definition qe_cpu_scan_filter :: "num_env \<Rightarrow> cql_table \<Rightarrow> ir_node option \<Rightarrow> nat list" where
  "qe_cpu_scan_filter env t condition =
     filter (\<lambda>i. eval_opt env [(t, [])] [Some i] condition) [0..<length (table_rows t)]"

end
