(* ===== verification/Opt_Ir.thy ===== *)
theory Opt_Ir
  imports Qe_Rows
begin

text \<open>
  The expression helpers of the optimizer (\<open>src/src/optimizer/optimizer.c\<close>, up to
  \<open>optimizer_rejects_null\<close>): splitting a condition into its conjuncts and building one from
  conjuncts, which relations an expression touches, and whether it can hold for a row whose side is
  all null.

  The lemmas relate them to the evaluation of conditions: the conjuncts hold together exactly if the
  condition does; a resolved expression has the same value in every scope and on every row that agrees
  on the relations of its mask; a condition that \<open>optimizer_rejects_null\<close> accepts is false on
  every row without that relation.
\<close>

definition OPT_MAX_RELATIONS :: nat where "OPT_MAX_RELATIONS = 32"
definition OPT_MAX_CONJUNCTS :: nat where "OPT_MAX_CONJUNCTS = 64"

section \<open>Expression trees\<close>

definition optimizer_ir_is_operator :: "ir_node option \<Rightarrow> string8 \<Rightarrow> bool" where
  "optimizer_ir_is_operator node name =
     (case node of
        None \<Rightarrow> False
      | Some n \<Rightarrow> if ir_type n \<noteq> IrOperator then False else str8_match (ir_value n) name match_ci)"

fun optimizer_ir_clone :: "ir_node \<Rightarrow> ir_node" where
  "optimizer_ir_clone (IR_Node ty v cs) =
     foldl ir_node_add_child (ir_node_make ty v) (map optimizer_ir_clone cs)"

lemma foldl_add_child: "foldl ir_node_add_child n cs = IR_Node (ir_type n) (ir_value n) (ir_children n @ cs)"
  by (induction cs arbitrary: n) (simp_all add: ir_node_add_child_def ir_node.expand)

lemma optimizer_ir_clone_id [simp]: "optimizer_ir_clone n = n"
  by (induction n) (simp add: foldl_add_child ir_node_make_def map_idI)

text \<open>The stored conjuncts and how many there are; only the first \<open>capacity\<close> are
  stored.\<close>

fun optimizer_ir_collect_conjuncts :: "nat \<Rightarrow> ir_node \<Rightarrow> ir_node list \<times> nat \<Rightarrow> ir_node list \<times> nat" where
  "optimizer_ir_collect_conjuncts capacity (IR_Node ty v cs) (out, count) =
     (if optimizer_ir_is_operator (Some (IR_Node ty v cs)) ''and'' then
        (case cs of
           [] \<Rightarrow> (out, count)
         | [l] \<Rightarrow> optimizer_ir_collect_conjuncts capacity l (out, count)
         | l # r # _ \<Rightarrow> optimizer_ir_collect_conjuncts capacity r
             (optimizer_ir_collect_conjuncts capacity l (out, count)))
      else (if count < capacity then out @ [IR_Node ty v cs] else out, count + 1))"

fun optimizer_ir_and_chain :: "ir_node list \<Rightarrow> ir_node option" where
  "optimizer_ir_and_chain [] = None"
| "optimizer_ir_and_chain (c # cs) =
     Some (foldl (\<lambda>chain n. ir_node_add_child (ir_node_add_child (ir_node_make IrOperator ''and'') chain)
       (optimizer_ir_clone n)) (optimizer_ir_clone c) cs)"

definition optimizer_ir_make_where :: "ir_node \<Rightarrow> ir_node" where
  "optimizer_ir_make_where e = ir_node_add_child (ir_node_make IrWhere []) e"

fun optimizer_ir_strip_column_qualifiers :: "ir_node \<Rightarrow> ir_node" where
  "optimizer_ir_strip_column_qualifiers (IR_Node ty v cs) =
     (if ty = IrSubquery \<or> ty = IrExists then IR_Node ty v cs
      else IR_Node ty (if ty = IrColumn then qe_bare_column_name v else v)
             (map optimizer_ir_strip_column_qualifiers cs))"

section \<open>Relation references\<close>

definition optimizer_resolve_column :: "scope \<Rightarrow> string8 \<Rightarrow> nat option" where
  "optimizer_resolve_column relations name =
     (case filter (\<lambda>i. qe_column_belongs_to_table (relations ! i) name) [0..<length relations] of
        [i] \<Rightarrow> Some i
      | _ \<Rightarrow> None)"

text \<open>The mask of the relations an expression touches, and whether something in it could not be
  resolved.\<close>

fun optimizer_collect_relation_refs :: "scope \<Rightarrow> ir_node \<Rightarrow> u64 \<times> bool \<Rightarrow> u64 \<times> bool" where
  "optimizer_collect_relation_refs relations (IR_Node ty v cs) (m, unresolved) =
     (if ty = IrColumn then
        (case optimizer_resolve_column relations v of
           None \<Rightarrow> (m, True)
         | Some i \<Rightarrow> (m OR push_bit i 1, unresolved))
      else if ty = IrNumeric \<or> ty = IrLiteral then (m, unresolved)
      else if ty = IrOperator \<or> ty = IrInList \<or> ty = IrAggregateCall then
        foldl (\<lambda>acc c. optimizer_collect_relation_refs relations c acc) (m, unresolved) cs
      else (m, True))"

function optimizer_mask_popcount :: "u64 \<Rightarrow> nat" where
  "optimizer_mask_popcount m =
     (if m \<noteq> 0 then (if bit m 0 then 1 else 0) + optimizer_mask_popcount (drop_bit 1 m) else 0)"
  by pat_completeness auto

function mask_highest_loop :: "u64 \<Rightarrow> nat \<Rightarrow> nat \<Rightarrow> nat" where
  "mask_highest_loop m bit_no highest =
     (if m \<noteq> 0 then mask_highest_loop (drop_bit 1 m) (bit_no + 1) (if bit m 0 then bit_no else highest)
      else highest)"
  by pat_completeness auto

lemma drop_bit_less: "m \<noteq> 0 \<Longrightarrow> unat (drop_bit 1 m) < unat m" for m :: u64
proof -
  assume "m \<noteq> 0"
  then have "0 < unat m" by (simp add: unat_gt_0)
  moreover have "unat (drop_bit 1 m) = drop_bit 1 (unat m)" by (rule unat_drop_bit_eq)
  moreover have "drop_bit 1 (unat m) = unat m div 2" by (simp only: drop_bit_eq_div power_one_right)
  ultimately show ?thesis by linarith
qed

termination optimizer_mask_popcount
  by (relation "measure unat") (use drop_bit_less in auto)

termination mask_highest_loop
  by (relation "measure (\<lambda>(m, _, _). unat m)") (use drop_bit_less in auto)

declare optimizer_mask_popcount.simps [simp del] mask_highest_loop.simps [simp del]

definition optimizer_mask_highest :: "u64 \<Rightarrow> nat" where
  "optimizer_mask_highest m = mask_highest_loop m 0 0"

section \<open>Null rejection\<close>

definition is_column_of :: "scope \<Rightarrow> ir_node \<Rightarrow> nat \<Rightarrow> bool" where
  "is_column_of relations n i \<longleftrightarrow>
     ir_type n = IrColumn \<and> optimizer_resolve_column relations (ir_value n) = Some i"

definition is_comparison_name :: "string8 \<Rightarrow> bool" where
  "is_comparison_name op \<longleftrightarrow>
     list_ex (is_op op) [''='', ''=='', ''!='', ''<'', ''<='', ''>'', ''>='', ''equals'', ''contains'']"

fun optimizer_rejects_null :: "scope \<Rightarrow> nat \<Rightarrow> ir_node \<Rightarrow> bool" where
  "optimizer_rejects_null relations i (IR_Node ty op args) =
     (if ty \<noteq> IrOperator then False
      else if is_op op ''and'' then
        (case args of
           [] \<Rightarrow> False
         | [l] \<Rightarrow> optimizer_rejects_null relations i l
         | l # r # _ \<Rightarrow> optimizer_rejects_null relations i l \<or> optimizer_rejects_null relations i r)
      else if is_op op ''or'' then
        (case args of
           l # r # _ \<Rightarrow> optimizer_rejects_null relations i l \<and> optimizer_rejects_null relations i r
         | _ \<Rightarrow> False)
      else if is_op op ''is null'' then False
      else
        let left = (case args of [] \<Rightarrow> False | l # _ \<Rightarrow> is_column_of relations l i) in
        if is_op op ''is not null'' \<or> is_op op ''in'' \<or> is_op op ''not in'' then left
        else if \<not> is_comparison_name op then False
        else left \<or> (case args of l # r # _ \<Rightarrow> is_column_of relations r i | _ \<Rightarrow> False))"

section \<open>Facts about masks\<close>

lemma bit_drop_1: "bit (drop_bit 1 m) i \<longleftrightarrow> bit m (Suc i)" for m :: u64
  by (simp add: bit_drop_bit_eq)

lemma word_nonzero_bit: "m \<noteq> 0 \<longleftrightarrow> (\<exists>i. bit m i)" for m :: u64
proof
  show "m \<noteq> 0 \<Longrightarrow> \<exists>i. bit m i" by (rule ccontr) (use bit_word_eqI [of m 0] in auto)
qed auto

lemma popcount_0: "optimizer_mask_popcount m = 0 \<longleftrightarrow> m = 0"
proof (induction m rule: optimizer_mask_popcount.induct)
  case (1 m)
  show ?case
  proof (cases "m = 0")
    case False
    then have "(\<exists>i. bit (drop_bit 1 m) i) \<or> bit m 0"
      unfolding bit_drop_1 word_nonzero_bit by (metis not0_implies_Suc)
    then show ?thesis using 1 False word_nonzero_bit [of "drop_bit 1 m"]
      by (subst optimizer_mask_popcount.simps) auto
  qed (simp add: optimizer_mask_popcount.simps)
qed

lemma popcount_1: "optimizer_mask_popcount m = 1 \<Longrightarrow> bit m i \<Longrightarrow> bit m j \<Longrightarrow> i = j"
proof (induction m arbitrary: i j rule: optimizer_mask_popcount.induct)
  case (1 m)
  have nz: "m \<noteq> 0" using 1(3) word_nonzero_bit by blast
  have pc: "(if bit m 0 then 1 else 0) + optimizer_mask_popcount (drop_bit 1 m) = 1"
    using 1(2) nz by (subst (asm) optimizer_mask_popcount.simps) simp
  show ?case
  proof (cases "bit m 0")
    case True
    then have "drop_bit 1 m = 0" using pc popcount_0 [of "drop_bit 1 m"] by simp
    then have "\<not> bit m (Suc k)" for k using bit_drop_1 [of m k] by (metis bit_0_eq bot_apply bot_bool_def)
    then show ?thesis using 1(3,4) by (metis not0_implies_Suc)
  next
    case False
    then obtain i' j' where "i = Suc i'" "j = Suc j'" using 1(3,4) by (metis not0_implies_Suc)
    then show ?thesis using 1(1) [OF nz, of i' j'] 1(3,4) pc False bit_drop_1 by simp
  qed
qed

lemma mask_highest_loop_bit:
  "m \<noteq> 0 \<Longrightarrow> \<exists>k. mask_highest_loop m b h = b + k \<and> bit m k \<and> (\<forall>i. bit m i \<longrightarrow> i \<le> k)"
proof (induction m b h rule: mask_highest_loop.induct)
  case (1 m b h)
  show ?case
  proof (cases "drop_bit 1 m = 0")
    case True
    then have none: "\<not> bit m (Suc k)" for k using bit_drop_1 [of m k] by (metis bit_0_eq bot_apply bot_bool_def)
    then have "bit m 0" using 1(2) word_nonzero_bit [of m] by (metis not0_implies_Suc)
    moreover have "mask_highest_loop m b h = (if bit m 0 then b else h)"
      using 1(2) True mask_highest_loop.simps [of 0] by (subst mask_highest_loop.simps) simp
    moreover have "bit m i \<longrightarrow> i \<le> 0" for i using none by (cases i) auto
    ultimately show ?thesis by (intro exI [of _ 0]) simp
  next
    case False
    from 1(1) [OF 1(2) this] obtain k where k: "mask_highest_loop (drop_bit 1 m) (b + 1) (if bit m 0 then b else h) = b + 1 + k"
      "bit (drop_bit 1 m) k" "\<forall>i. bit (drop_bit 1 m) i \<longrightarrow> i \<le> k" by blast
    have "mask_highest_loop m b h = b + Suc k" using k(1) 1(2) by (subst mask_highest_loop.simps) simp
    moreover have "bit m i \<longrightarrow> i \<le> Suc k" for i using k(3) bit_drop_1 [of m] by (cases i) auto
    ultimately show ?thesis using k(2) bit_drop_1 by (intro exI [of _ "Suc k"]) simp
  qed
qed

lemma mask_highest: "m \<noteq> 0 \<Longrightarrow> bit m (optimizer_mask_highest m)" "bit m i \<Longrightarrow> i \<le> optimizer_mask_highest m"
  using mask_highest_loop_bit [of m 0 0] word_nonzero_bit [of m] by (auto simp: optimizer_mask_highest_def)

lemma mask_single:
  assumes "optimizer_mask_popcount m = 1"
  shows "bit m i \<longleftrightarrow> i = optimizer_mask_highest m"
proof -
  have "m \<noteq> 0" using assms popcount_0 [of m] by auto
  then show ?thesis using mask_highest(1) popcount_1 [OF assms] by blast
qed

section \<open>Facts about conjuncts\<close>

text \<open>The leaves of the top-level \<open>and\<close>s of a condition.\<close>

fun conjuncts_of :: "ir_node \<Rightarrow> ir_node list" where
  "conjuncts_of (IR_Node ty v cs) =
     (if ty = IrOperator \<and> is_op v ''and'' then
        (case cs of
           [] \<Rightarrow> []
         | [l] \<Rightarrow> conjuncts_of l
         | l # r # _ \<Rightarrow> conjuncts_of l @ conjuncts_of r)
      else [IR_Node ty v cs])"

lemma is_operator_Some: "optimizer_ir_is_operator (Some n) name \<longleftrightarrow> ir_type n = IrOperator \<and> is_op (ir_value n) name"
  by (simp add: optimizer_ir_is_operator_def is_op_def)

lemma collect_conjuncts:
  assumes "length out = min count capacity"
  shows "optimizer_ir_collect_conjuncts capacity n (out, count) =
     (out @ take (capacity - count) (conjuncts_of n), count + length (conjuncts_of n))"
  using assms
proof (induction n arbitrary: out count rule: conjuncts_of.induct)
  case (1 ty v cs)
  show ?case
  proof (cases "ty = IrOperator \<and> is_op v ''and''")
    case False
    then show ?thesis using 1(4) by (auto simp: is_operator_Some)
  next
    case op: True
    consider "cs = []" | l where "cs = [l]" | l r rest where "cs = l # r # rest" by (metis neq_Nil_conv)
    then show ?thesis
    proof cases
      case (3 l r rest)
      have l: "optimizer_ir_collect_conjuncts capacity l (out, count) =
          (out @ take (capacity - count) (conjuncts_of l), count + length (conjuncts_of l))"
        using 1(2) [OF op 3] 1(4) by simp
      have "length (out @ take (capacity - count) (conjuncts_of l)) = min (count + length (conjuncts_of l)) capacity"
        using 1(4) by auto
      from 1(3) [OF op 3 refl this] show ?thesis
        using op 3 l by (auto simp: is_operator_Some)
    next
      case (2 l)
      then show ?thesis using 1(1) [OF op 2] 1(4) op by (simp add: is_operator_Some)
    qed (use op in \<open>simp add: is_operator_Some\<close>)
  qed
qed

lemma eval_conjuncts: "list_all (qe_row_condition_eval env sc row) (conjuncts_of n) \<longleftrightarrow> qe_row_condition_eval env sc row n"
  by (induction n rule: conjuncts_of.induct) (auto split: list.splits)

definition and_node :: "ir_node \<Rightarrow> ir_node \<Rightarrow> ir_node" where
  "and_node l r = IR_Node IrOperator ''and'' [l, r]"

lemma eval_and_node: "qe_row_condition_eval env sc row (and_node l r) \<longleftrightarrow>
    qe_row_condition_eval env sc row l \<and> qe_row_condition_eval env sc row r"
proof -
  have "is_op ''and'' ''and''" by code_simp
  then show ?thesis by (simp add: and_node_def)
qed

lemma and_chain_Cons: "optimizer_ir_and_chain (c # cs) = Some (foldl and_node c cs)"
  by (simp add: ir_node_add_child_def ir_node_make_def and_node_def [abs_def])

lemma eval_and_foldl:
  "qe_row_condition_eval env sc row (foldl and_node c cs) \<longleftrightarrow>
     qe_row_condition_eval env sc row c \<and> list_all (qe_row_condition_eval env sc row) cs"
  by (induction cs arbitrary: c) (auto simp: eval_and_node)

lemma eval_and_chain: "eval_opt env sc row (optimizer_ir_and_chain cs) \<longleftrightarrow> list_all (qe_row_condition_eval env sc row) cs"
  by (cases cs) (simp_all add: and_chain_Cons eval_and_foldl del: optimizer_ir_and_chain.simps(2))

text \<open>Stripping the chain strips each conjunct.\<close>

lemma strip_and_node:
  "optimizer_ir_strip_column_qualifiers (and_node l r) =
     and_node (optimizer_ir_strip_column_qualifiers l) (optimizer_ir_strip_column_qualifiers r)"
  by (simp add: and_node_def)

lemma strip_and_foldl:
  "optimizer_ir_strip_column_qualifiers (foldl and_node c cs) =
     foldl and_node (optimizer_ir_strip_column_qualifiers c) (map optimizer_ir_strip_column_qualifiers cs)"
  by (induction cs arbitrary: c) (simp_all add: strip_and_node)

lemma strip_and_chain:
  "map_option optimizer_ir_strip_column_qualifiers (optimizer_ir_and_chain cs) =
     optimizer_ir_and_chain (map optimizer_ir_strip_column_qualifiers cs)"
  by (cases cs) (simp_all add: and_chain_Cons strip_and_foldl del: optimizer_ir_and_chain.simps(2))

section \<open>Facts about references\<close>

fun resolved :: "scope \<Rightarrow> ir_node \<Rightarrow> bool" where
  "resolved sc (IR_Node ty v cs) =
     (if ty = IrColumn then optimizer_resolve_column sc v \<noteq> None
      else if ty = IrNumeric \<or> ty = IrLiteral then True
      else if ty = IrOperator \<or> ty = IrInList \<or> ty = IrAggregateCall then list_all (resolved sc) cs
      else False)"

fun touched :: "scope \<Rightarrow> ir_node \<Rightarrow> nat set" where
  "touched sc (IR_Node ty v cs) =
     (if ty = IrColumn then set_option (optimizer_resolve_column sc v)
      else if ty = IrOperator \<or> ty = IrInList \<or> ty = IrAggregateCall then \<Union> (touched sc ` set cs)
      else {})"

lemma resolve_column_bound: "optimizer_resolve_column sc v = Some i \<Longrightarrow> i < length sc"
proof -
  assume "optimizer_resolve_column sc v = Some i"
  then have "filter (\<lambda>i. qe_column_belongs_to_table (sc ! i) v) [0..<length sc] = [i]"
    by (auto simp: optimizer_resolve_column_def split: list.splits)
  then have "i \<in> set (filter (\<lambda>i. qe_column_belongs_to_table (sc ! i) v) [0..<length sc])" by simp
  then show ?thesis by simp
qed

lemma touched_bound: "i \<in> touched sc n \<Longrightarrow> i < length sc"
  by (induction sc n rule: touched.induct) (auto split: if_splits dest: resolve_column_bound)

lemma bit_or_single: "bit (m OR push_bit k 1) i \<longleftrightarrow> bit m i \<or> i = k \<and> i < 64" for m :: u64
  by (auto simp: bit_or_iff bit_exp_iff)

lemma collect_refs:
  "length sc \<le> 64 \<Longrightarrow> optimizer_collect_relation_refs sc n (m, u) = (m', u') \<Longrightarrow>
   (u' \<longleftrightarrow> u \<or> \<not> resolved sc n) \<and> (\<forall>i. bit m' i \<longleftrightarrow> bit m i \<or> i \<in> touched sc n)"
proof (induction sc n "(m, u)" arbitrary: m u m' u' rule: optimizer_collect_relation_refs.induct)
  case (1 sc ty v cs m u)
  note IH = 1(1) and small = 1(2) and eq = 1(3)
  have fold: "(u' \<longleftrightarrow> u \<or> \<not> list_all (resolved sc) ds) \<and> (\<forall>i. bit m' i \<longleftrightarrow> bit m i \<or> i \<in> \<Union> (touched sc ` set ds))"
    if "foldl (\<lambda>acc c. optimizer_collect_relation_refs sc c acc) (m, u) ds = (m', u')" "set ds \<subseteq> set cs"
      "ty = IrOperator \<or> ty = IrInList \<or> ty = IrAggregateCall" for ds m u m' u'
    using that(1,2)
  proof (induction ds arbitrary: m u)
    case (Cons d ds)
    obtain m1 u1 where d: "optimizer_collect_relation_refs sc d (m, u) = (m1, u1)" by force
    have "(u1 \<longleftrightarrow> u \<or> \<not> resolved sc d) \<and> (\<forall>i. bit m1 i \<longleftrightarrow> bit m i \<or> i \<in> touched sc d)"
      using IH [of d m u m1 u1] small Cons.prems(2) that(3) d by auto
    then show ?case using Cons.IH [of m1 u1] Cons.prems d by auto
  qed simp
  consider "ty = IrColumn" | "ty = IrNumeric \<or> ty = IrLiteral" | "ty = IrOperator \<or> ty = IrInList \<or> ty = IrAggregateCall"
    | "ty \<notin> {IrColumn, IrNumeric, IrLiteral, IrOperator, IrInList, IrAggregateCall}" by auto
  then show ?case
  proof cases
    case 1
    then show ?thesis using eq small resolve_column_bound [of sc v]
      by (auto simp: bit_or_iff bit_exp_iff split: option.splits)
  next
    case 3
    then show ?thesis using fold [of m u cs m' u'] eq by auto
  qed (use eq in auto)
qed

section \<open>When two evaluations agree\<close>

text \<open>Renaming the columns of a tree, outside subqueries.\<close>

fun map_columns :: "(string8 \<Rightarrow> string8) \<Rightarrow> ir_node \<Rightarrow> ir_node" where
  "map_columns f (IR_Node ty v cs) =
     (if ty = IrSubquery \<or> ty = IrExists then IR_Node ty v cs
      else IR_Node ty (if ty = IrColumn then f v else v) (map (map_columns f) cs))"

lemma strip_map_columns: "optimizer_ir_strip_column_qualifiers n = map_columns qe_bare_column_name n"
  by (induction n) auto

lemma map_columns_id [simp]: "map_columns (\<lambda>v. v) n = n"
  by (induction n) (auto simp: map_idI)

lemma map_columns_type [simp]: "ir_type (map_columns f n) = ir_type n"
  by (cases n) simp

lemma map_columns_value: "ir_type n \<noteq> IrColumn \<Longrightarrow> ir_value (map_columns f n) = ir_value n"
  by (cases n) simp

lemma map_columns_column: "ir_type n = IrColumn \<Longrightarrow> ir_value (map_columns f n) = f (ir_value n)"
  by (cases n) simp

lemma map_columns_children:
  "ir_type n \<noteq> IrSubquery \<Longrightarrow> ir_type n \<noteq> IrExists \<Longrightarrow> ir_children (map_columns f n) = map (map_columns f) (ir_children n)"
  by (cases n) simp

text \<open>What the parser guarantees of a condition and the evaluation relies on: value lists and search
  strings hold no column names, and a comparison has two operands.\<close>

fun cond_plain :: "ir_node \<Rightarrow> bool" where
  "cond_plain (IR_Node ty v cs) \<longleftrightarrow>
     (ty = IrInList \<longrightarrow> list_all (\<lambda>c. ir_type c \<noteq> IrColumn) cs) \<and>
     (ty = IrAggregateCall \<longrightarrow> (case cs of _ # c # _ \<Rightarrow> ir_type c \<noteq> IrColumn | _ \<Rightarrow> True)) \<and>
     (ty = IrOperator \<and> is_comparison_name v \<longrightarrow> 2 \<le> length cs) \<and>
     list_all cond_plain cs"

text \<open>A renaming takes the columns of one scope and row to columns of the same value and the same
  declaration in another.\<close>

definition same_column :: "scope \<Rightarrow> joined_row \<Rightarrow> scope \<Rightarrow> joined_row \<Rightarrow> string8 \<Rightarrow> string8 \<Rightarrow> bool" where
  "same_column sc row sc' row' v v' \<longleftrightarrow>
     load_column sc row v = load_column sc' row' v' \<and>
     map_option (column_at sc) (resolve_column sc v) = map_option (column_at sc') (resolve_column sc' v')"

fun agree :: "scope \<Rightarrow> joined_row \<Rightarrow> scope \<Rightarrow> joined_row \<Rightarrow> (string8 \<Rightarrow> string8) \<Rightarrow> ir_node \<Rightarrow> bool" where
  "agree sc row sc' row' f (IR_Node ty v cs) \<longleftrightarrow>
     (if ty = IrColumn then same_column sc row sc' row' v (f v)
      else if ty = IrOperator \<or> ty = IrInList \<or> ty = IrAggregateCall then list_all (agree sc row sc' row' f) cs
      else True)"

lemma agree_column: "agree sc row sc' row' f n \<Longrightarrow> ir_type n = IrColumn \<Longrightarrow> same_column sc row sc' row' (ir_value n) (f (ir_value n))"
  by (cases n) simp

lemma agree_load: "agree sc row sc' row' f n \<Longrightarrow> qe_row_load_value env sc row n = qe_row_load_value env sc' row' (map_columns f n)"
  by (cases n) (auto simp: qe_row_load_value_def same_column_def split: if_splits)

lemma agree_left_column: "agree sc row sc' row' f n \<Longrightarrow> qe_in_left_column sc n = qe_in_left_column sc' (map_columns f n)"
  by (cases n) (auto simp: qe_in_left_column_def same_column_def split: if_splits)

lemma item_resolve_map: "ir_type n \<noteq> IrColumn \<Longrightarrow> qe_in_item_resolve env c (map_columns f n) = qe_in_item_resolve env c n"
  by (simp add: qe_in_item_resolve_def map_columns_value Let_def)

lemma agree_in_list:
  assumes "agree sc row sc' row' f l" "ir_type r = IrInList" "cond_plain r"
  shows "qe_in_list_contains env sc l r v = qe_in_list_contains env sc' (map_columns f l) (map_columns f r) v"
  using assms agree_left_column [OF assms(1)]
  by (cases r) (auto simp: qe_in_list_contains_def list_ex_iff item_resolve_map list_all_iff)

lemma agree_resolve_right:
  assumes "agree sc row sc' row' f l" "agree sc row sc' row' f r"
  shows "resolve_right env sc row l r = resolve_right env sc' row' (map_columns f l) (map_columns f r)"
proof -
  have c: "(if ir_type l = IrColumn then map_option (column_at sc) (resolve_column sc (ir_value l)) else None) =
      (if ir_type (map_columns f l) = IrColumn
       then map_option (column_at sc') (resolve_column sc' (ir_value (map_columns f l))) else None)"
    using agree_column [OF assms(1)] by (simp add: same_column_def map_columns_column)
  show ?thesis
    unfolding resolve_right_def c agree_load [OF assms(2), symmetric]
    by (auto simp: map_columns_value split: option.split)
qed

lemma agree_fuzzy:
  assumes "agree sc row sc' row' f l" "cond_plain l" "ir_type l = IrAggregateCall"
  shows "qe_row_eval_fuzzy_call env sc row l d = qe_row_eval_fuzzy_call env sc' row' (map_columns f l) d"
  using assms agree_load
  by (cases l) (auto simp: qe_row_eval_fuzzy_call_def map_columns_value split: list.splits loaded.splits; metis)

lemma fuzzy_call_map [simp]: "qe_ir_is_fuzzy_call (map_columns f n) = qe_ir_is_fuzzy_call n"
  by (cases "ir_type n = IrAggregateCall") (simp_all add: qe_ir_is_fuzzy_call_def map_columns_value)

lemma fuzzy_call_type: "qe_ir_is_fuzzy_call n = Some d \<Longrightarrow> ir_type n = IrAggregateCall"
  by (auto simp: qe_ir_is_fuzzy_call_def split: if_splits)

lemma agree_leaf:
  assumes "list_all (agree sc row sc' row' f) args" "list_all cond_plain args"
  shows "eval_leaf env sc row op args = eval_leaf env sc' row' op (map (map_columns f) args)"
proof -
  consider "args = []" | l where "args = [l]" | l r rest where "args = l # r # rest" by (metis neq_Nil_conv)
  then show ?thesis
  proof cases
    case 2
    then show ?thesis using assms agree_load [of sc row sc' row' f l env]
      by (simp add: eval_leaf_def)
  next
    case (3 l r rest)
    then have l: "agree sc row sc' row' f l" "cond_plain l" and r: "agree sc row sc' row' f r" "cond_plain r"
      using assms by auto
    show ?thesis
      using agree_load [OF l(1)] agree_load [OF r(1)] agree_resolve_right [OF l(1) r(1)] agree_in_list [OF l(1) _ r(2)]
        agree_fuzzy [OF l] fuzzy_call_type [of l]
      by (simp add: eval_leaf_def 3 Let_def split: option.split)
  qed (simp add: eval_leaf_def)
qed

definition truth :: "loaded \<Rightarrow> bool" where
  "truth v = (case v of L_null \<Rightarrow> False | L_str s \<Rightarrow> s \<noteq> [] | L_num v \<Rightarrow> \<not> f64_eq v (F64_num 0))"

lemma eval_value: "ir_type n \<noteq> IrOperator \<Longrightarrow> qe_row_condition_eval env sc row n = truth (qe_row_load_value env sc row n)"
  by (cases n) (simp add: truth_def)

lemma eval_agree:
  "agree sc row sc' row' f n \<Longrightarrow> cond_plain n \<Longrightarrow>
   qe_row_condition_eval env sc row n = qe_row_condition_eval env sc' row' (map_columns f n)"
proof (induction n)
  case (IR_Node ty op args)
  show ?case
  proof (cases "ty = IrOperator")
    case False
    then show ?thesis using agree_load [of sc row sc' row' f "IR_Node ty op args" env] IR_Node
      by (subst (1 2) eval_value) (simp_all del: map_columns.simps)
  next
    case True
    then have sub: "list_all (agree sc row sc' row' f) args" "list_all cond_plain args" using IR_Node.prems by auto
    have args: "\<forall>a \<in> set args. qe_row_condition_eval env sc row a = qe_row_condition_eval env sc' row' (map_columns f a)"
      using IR_Node.IH sub by (simp add: list_all_iff)
    show ?thesis using True agree_leaf [OF sub, of env op] args
      by (auto split: list.split)
  qed
qed

section \<open>Scopes\<close>

text \<open>What a statement needs so that names mean the same everywhere: relations and the columns of a
  table differ by more than case, and no name has a dot.\<close>

definition ci_eq :: "string8 \<Rightarrow> string8 \<Rightarrow> bool" where
  "ci_eq a b \<longleftrightarrow> map char_to_upper a = map char_to_upper b"

definition table_ok :: "cql_table \<Rightarrow> bool" where
  "table_ok t \<longleftrightarrow>
     (\<forall>c \<in> set (columns t). \<not> has_dot (column_name c)) \<and>
     (\<forall>i < length (columns t). \<forall>j < i. \<not> ci_eq (column_name (columns t ! i)) (column_name (columns t ! j)))"

definition names_ok :: "scope \<Rightarrow> bool" where
  "names_ok sc \<longleftrightarrow>
     (\<forall>r \<in> set sc. table_ok (fst r) \<and> \<not> has_dot (scope_name r)) \<and>
     (\<forall>i < length sc. \<forall>j < i. \<not> ci_eq (scope_name (sc ! i)) (scope_name (sc ! j)))"

lemma match_ci_eq: "str8_match a b match_ci \<longleftrightarrow> ci_eq a b"
  by (simp add: str8_match_ci_iff upper_from_str8_def ci_eq_def)

lemma ci_eq_refl [simp]: "ci_eq a a"
  and ci_eq_sym: "ci_eq a b \<Longrightarrow> ci_eq b a"
  and ci_eq_trans: "ci_eq a b \<Longrightarrow> ci_eq b c \<Longrightarrow> ci_eq a c"
  by (simp_all add: ci_eq_def)

lemma filter_upt_single: "filter p [0..<n] = [i] \<longleftrightarrow> i < n \<and> p i \<and> (\<forall>j < n. p j \<longrightarrow> j = i)"
proof
  assume f: "filter p [0..<n] = [i]"
  then have "i \<in> set (filter p [0..<n])" by simp
  moreover have "j = i" if "j < n" "p j" for j
  proof -
    have "j \<in> set (filter p [0..<n])" using that by simp
    then show ?thesis using f by simp
  qed
  ultimately show "i < n \<and> p i \<and> (\<forall>j < n. p j \<longrightarrow> j = i)" by simp
next
  assume a: "i < n \<and> p i \<and> (\<forall>j < n. p j \<longrightarrow> j = i)"
  then have "filter p [0..<n] = filter (\<lambda>j. j = i) [0..<n]" by (intro filter_cong) auto
  also have "\<dots> = [i]"
  proof -
    have "[0..<n] = [0..<i] @ i # [Suc i..<n]"
      using a upt_add_eq_append [of 0 i "n - i"] by (simp add: upt_conv_Cons)
    then show ?thesis by (simp add: filter_empty_conv)
  qed
  finally show "filter p [0..<n] = [i]" .
qed

lemma resolve_Some:
  "optimizer_resolve_column sc v = Some i \<longleftrightarrow>
     i < length sc \<and> qe_column_belongs_to_table (sc ! i) v \<and>
     (\<forall>j < length sc. qe_column_belongs_to_table (sc ! j) v \<longrightarrow> j = i)"
  unfolding optimizer_resolve_column_def
  by (subst filter_upt_single [symmetric]) (auto split: list.splits)

lemma belongs_iff:
  "qe_column_belongs_to_table r v \<longleftrightarrow>
     (has_dot v \<longrightarrow> ci_eq (qualifier_of v) (scope_name r)) \<and> cql_table_find_column (fst r) (qe_bare_column_name v) \<noteq> None"
  by (auto simp: qe_column_belongs_to_table_def match_ci_eq)

lemma first_index_eqI: "i < length xs \<Longrightarrow> p (xs ! i) \<Longrightarrow> (\<And>j. j < i \<Longrightarrow> \<not> p (xs ! j)) \<Longrightarrow> first_index p xs = Some i"
proof (induction xs arbitrary: i)
  case (Cons x xs)
  then show ?case by (cases i) (force simp: nth_Cons')+
qed simp

lemma resolve_in_prefix:
  assumes ok: "names_ok sc" and r: "optimizer_resolve_column sc v = Some i" and k: "i < k" "k \<le> length sc"
  shows "qe_resolve_column_table (take k sc) v = Some i"
proof (cases "has_dot v")
  case True
  have i: "i < length sc" "ci_eq (qualifier_of v) (scope_name (sc ! i))" using r True by (auto simp: resolve_Some belongs_iff)
  have "\<not> ci_eq (scope_name (sc ! j)) (qualifier_of v)" if "j < i" for j
  proof
    assume "ci_eq (scope_name (sc ! j)) (qualifier_of v)"
    then have "ci_eq (scope_name (sc ! i)) (scope_name (sc ! j))" using i(2) ci_eq_trans ci_eq_sym by blast
    then show False using ok i(1) that by (simp add: names_ok_def)
  qed
  then have "first_index (\<lambda>r. str8_match (scope_name r) (qualifier_of v) match_ci) (take k sc) = Some i"
    using i k ci_eq_sym by (intro first_index_eqI) (auto simp: match_ci_eq)
  then show ?thesis using True by (simp add: qe_resolve_column_table_def)
next
  case False
  then have "qe_bare_column_name v = v" by (simp add: qe_bare_column_name_def)
  then have "filter (\<lambda>t. cql_table_find_column (fst (take k sc ! t)) v \<noteq> None) [0..<length (take k sc)] = [i]"
    using r k False unfolding filter_upt_single by (auto simp: resolve_Some belongs_iff)
  then show ?thesis using False unfolding qe_resolve_column_table_def by simp
qed

lemma find_column_name:
  assumes "cql_table_find_column t v = Some c"
  shows "c < length (columns t)" "column_name (columns t ! c) = v"
  using first_index_Some [OF assms [unfolded cql_table_find_column_def]] by simp_all

lemma resolve_single:
  assumes ok: "names_ok sc" and r: "optimizer_resolve_column sc v = Some i"
  shows "qe_resolve_column_table [(fst (sc ! i), [])] (qe_bare_column_name v) = Some 0"
    and "\<not> has_dot (qe_bare_column_name v)"
proof -
  have i: "i < length sc" by (rule resolve_column_bound [OF r])
  have "cql_table_find_column (fst (sc ! i)) (qe_bare_column_name v) \<noteq> None"
    using r unfolding resolve_Some belongs_iff by blast
  then obtain c where c: "cql_table_find_column (fst (sc ! i)) (qe_bare_column_name v) = Some c" by blast
  have "table_ok (fst (sc ! i))" using ok nth_mem [OF i] unfolding names_ok_def by blast
  moreover note find_column_name [OF c]
  ultimately show nd: "\<not> has_dot (qe_bare_column_name v)"
    unfolding table_ok_def using nth_mem [of c "columns (fst (sc ! i))"] by metis
  then show "qe_resolve_column_table [(fst (sc ! i), [])] (qe_bare_column_name v) = Some 0"
    using c by (simp add: qe_resolve_column_table_def)
qed

lemma bare_no_dot: "\<not> has_dot v \<Longrightarrow> qe_bare_column_name v = v"
  by (simp add: qe_bare_column_name_def)

lemma same_column_prefix:
  assumes "names_ok sc" "optimizer_resolve_column sc v = Some i" "i < k" "k \<le> length sc" "i < k'" "k' \<le> length sc"
    and "row ! i = row' ! i"
  shows "same_column (take k sc) row (take k' sc) row' v v"
  using resolve_in_prefix [OF assms(1,2)] assms(3-)
  by (simp add: same_column_def load_column_def resolve_column_def column_at_def option.map_comp comp_def
      cong: option.case_cong)

lemma same_column_single:
  assumes "names_ok sc" "optimizer_resolve_column sc v = Some i" "i < k" "k \<le> length sc" "row ! i = Some j"
  shows "same_column (take k sc) row [(fst (sc ! i), [])] [Some j] v (qe_bare_column_name v)"
  using resolve_in_prefix [OF assms(1-4)] resolve_single [OF assms(1,2)] assms(3-)
  by (simp add: same_column_def load_column_def resolve_column_def column_at_def bare_no_dot option.map_comp comp_def
      cong: option.case_cong)

lemma agree_resolved:
  assumes "resolved sc n"
    and "\<And>v i. optimizer_resolve_column sc v = Some i \<Longrightarrow> i \<in> touched sc n \<Longrightarrow> same_column a row b row' v (f v)"
  shows "agree a row b row' f n"
  using assms
proof (induction n)
  case (IR_Node ty v cs)
  consider "ty = IrColumn" | "ty = IrOperator \<or> ty = IrInList \<or> ty = IrAggregateCall"
    | "ty \<noteq> IrColumn" "\<not> (ty = IrOperator \<or> ty = IrInList \<or> ty = IrAggregateCall)" by blast
  then show ?case
  proof cases
    case 1
    then obtain i where "optimizer_resolve_column sc v = Some i" using IR_Node.prems(1) by auto
    then show ?thesis using IR_Node.prems(2) [of v i] 1 by simp
  next
    case 2
    have "agree a row b row' f x" if "x \<in> set cs" for x
    proof (rule IR_Node.IH [OF that])
      show "resolved sc x" using IR_Node.prems(1) 2 that by (auto simp: list_all_iff split: if_splits)
      have "touched sc x \<subseteq> touched sc (IR_Node ty v cs)" using 2 that by auto
      then show "\<And>v i. optimizer_resolve_column sc v = Some i \<Longrightarrow> i \<in> touched sc x \<Longrightarrow> same_column a row b row' v (f v)"
        using IR_Node.prems(2) by blast
    qed
    then show ?thesis using 2 by (auto simp: list_all_iff)
  qed simp
qed

lemma agree_prefix:
  assumes "names_ok sc" "k \<le> length sc" "k' \<le> length sc" "resolved sc n"
    and "\<And>i. i \<in> touched sc n \<Longrightarrow> i < k \<and> i < k' \<and> row ! i = row' ! i"
  shows "agree (take k sc) row (take k' sc) row' (\<lambda>v. v) n"
  using assms by (intro agree_resolved [OF assms(4)] same_column_prefix) blast+

lemma agree_single:
  assumes "names_ok sc" "i < k" "k \<le> length sc" "row ! i = Some j" "resolved sc n" "touched sc n \<subseteq> {i}"
  shows "agree (take k sc) row [(fst (sc ! i), [])] [Some j] qe_bare_column_name n"
  using assms by (intro agree_resolved [OF assms(5)]) (auto intro!: same_column_single)

text \<open>A resolved condition has the same value on any two rows, and in any two prefixes of the scope,
  that agree on the relations it touches; and one that touches a single relation has the value the
  scan of that relation's table gives it, with the qualifiers stripped.\<close>

lemma eval_prefix:
  assumes "names_ok sc" "k \<le> length sc" "k' \<le> length sc" "resolved sc n" "cond_plain n"
    and "\<And>i. i \<in> touched sc n \<Longrightarrow> i < k \<and> i < k' \<and> row ! i = row' ! i"
  shows "qe_row_condition_eval env (take k sc) row n = qe_row_condition_eval env (take k' sc) row' n"
  using eval_agree [OF agree_prefix [OF assms(1-4,6)] assms(5)] by simp

lemma eval_single:
  assumes "names_ok sc" "i < k" "k \<le> length sc" "row ! i = Some j" "resolved sc n" "touched sc n \<subseteq> {i}" "cond_plain n"
  shows "qe_row_condition_eval env (take k sc) row n =
    qe_row_condition_eval env [(fst (sc ! i), [])] [Some j] (optimizer_ir_strip_column_qualifiers n)"
  using eval_agree [OF agree_single [OF assms(1-6)] assms(7)] by (simp add: strip_map_columns)

section \<open>Null rejection is sound\<close>

lemma load_null:
  assumes "names_ok sc" "is_column_of sc n i" "i < k" "k \<le> length sc" "row ! i = None"
  shows "qe_row_load_value env (take k sc) row n = L_null"
  using resolve_in_prefix [of sc "ir_value n" i k] assms
  by (simp add: is_column_of_def qe_row_load_value_def load_column_def)

lemma rejects_null_leaf:
  assumes sc: "names_ok sc" "i < k" "k \<le> length sc" "row ! i = None"
    and rej: "optimizer_rejects_null sc i (IR_Node IrOperator op args)"
    and leaf: "\<not> is_op op ''and''" "\<not> is_op op ''or''" and two: "is_comparison_name op \<longrightarrow> 2 \<le> length args"
  shows "\<not> eval_leaf env (take k sc) row op args"
proof -
  note null = load_null [OF sc(1) _ sc(2-4)]
  from rej leaf have not_null: "\<not> is_op op ''is null''" by auto
  consider "is_op op ''is not null''" | "is_op op ''in'' \<or> is_op op ''not in''" "\<not> is_op op ''is not null''"
    | "is_comparison_name op" "\<not> is_op op ''is not null''" "\<not> is_op op ''in''" "\<not> is_op op ''not in''"
    using rej leaf not_null by (auto simp: Let_def split: if_splits)
  then show ?thesis
  proof cases
    case 1
    then show ?thesis using rej leaf not_null null by (auto simp: eval_leaf_def split: list.splits)
  next
    case 2
    then show ?thesis using rej leaf not_null null by (auto simp: eval_leaf_def split: list.splits)
  next
    case 3
    then obtain l r rest where args: "args = l # r # rest"
      using two by (cases args; cases "tl args") auto
    have "is_column_of sc l i \<or> is_column_of sc r i" using rej leaf not_null 3 args by (simp split: if_splits)
    moreover have "qe_ir_is_fuzzy_call l = None" if "is_column_of sc l i"
      using that by (simp add: is_column_of_def qe_ir_is_fuzzy_call_def)
    moreover have "resolve_right env (take k sc) row l r = Some (qe_row_load_value env (take k sc) row r)"
      if "is_column_of sc r i"
      using that by (auto simp: resolve_right_def is_column_of_def split: option.split)
    ultimately show ?thesis using 3 not_null null [of l env] null [of r env]
      by (auto simp: eval_leaf_def args compare_loaded_def Let_def split: option.splits)
  qed
qed

lemma rejects_null_false:
  assumes sc: "names_ok sc" "i < k" "k \<le> length sc" "row ! i = None"
  shows "optimizer_rejects_null sc i n \<Longrightarrow> cond_plain n \<Longrightarrow> \<not> qe_row_condition_eval env (take k sc) row n"
proof (induction n)
  case (IR_Node ty op args)
  then have ty: "ty = IrOperator" by (auto split: if_splits)
  consider "is_op op ''and''" | "is_op op ''or''" "\<not> is_op op ''and''" | "\<not> is_op op ''and''" "\<not> is_op op ''or''" by blast
  then show ?case
  proof cases
    case 3
    then show ?thesis using rejects_null_leaf [OF sc, of op args env] IR_Node.prems ty by simp
  qed (use IR_Node ty in \<open>auto split: list.splits\<close>)
qed

end
