(* ===== verification/Opt_Flat.thy ===== *)
theory Opt_Flat
  imports Opt_Ir
begin

text \<open>
  Left-deep joins as the optimizer sees them: relation 0, then one step per further relation, each an
  inner or a left join, with filters on the relations, conditions on the steps and conditions on the
  joined rows. This is the reference the rewriting of a plan is judged against; it has no counterpart
  in the code.

  The lemmas are the moves the rewriting is made of: a condition on the joined rows goes down to the
  step that has all it needs, becomes part of an inner join's condition, or a filter of the relation;
  a left join whose null rows are thrown away is an inner join.
\<close>

section \<open>Joins\<close>

record flat =
  fl_rows :: "nat \<Rightarrow> nat list"
  fl_left :: "nat \<Rightarrow> bool"
  fl_filter :: "nat \<Rightarrow> nat \<Rightarrow> bool"
  fl_on :: "nat \<Rightarrow> joined_row \<Rightarrow> bool"
  fl_stage :: "nat \<Rightarrow> joined_row \<Rightarrow> bool"

definition extend_row :: "bool \<Rightarrow> (nat \<Rightarrow> bool) \<Rightarrow> (joined_row \<Rightarrow> bool) \<Rightarrow> nat list \<Rightarrow> joined_row \<Rightarrow> joined_row list" where
  "extend_row is_left filt on_cond js r =
     (let matches = filter (\<lambda>j. on_cond (r @ [Some j])) (filter filt js)
      in if matches = [] \<and> is_left then [r @ [None]] else map (\<lambda>j. r @ [Some j]) matches)"

fun flat_rows :: "flat \<Rightarrow> nat \<Rightarrow> joined_row list" where
  "flat_rows d 0 = filter (fl_stage d 0) (map (\<lambda>j. [Some j]) (filter (fl_filter d 0) (fl_rows d 0)))"
| "flat_rows d (Suc k) = filter (fl_stage d (Suc k))
     (concat (map (extend_row (fl_left d (Suc k)) (fl_filter d (Suc k)) (fl_on d (Suc k)) (fl_rows d (Suc k))) (flat_rows d k)))"

lemma extend_row_shape: "s \<in> set (extend_row l f on_cond js r) \<Longrightarrow> \<exists>x. s = r @ [x] \<and> (x = None \<longrightarrow> l)"
  by (auto simp: extend_row_def Let_def split: if_splits)

lemma flat_rows_length: "r \<in> set (flat_rows d k) \<Longrightarrow> length r = Suc k"
  by (induction k arbitrary: r) (auto dest!: extend_row_shape)

lemma flat_rows_present: "r \<in> set (flat_rows d k) \<Longrightarrow> i \<le> k \<Longrightarrow> i = 0 \<or> \<not> fl_left d i \<Longrightarrow> r ! i \<noteq> None"
proof (induction k arbitrary: r)
  case (Suc k)
  then obtain s x where s: "s \<in> set (flat_rows d k)" "r = s @ [x]" "x = None \<longrightarrow> fl_left d (Suc k)"
    by (auto dest!: extend_row_shape)
  then show ?case using Suc.IH [OF s(1)] Suc.prems flat_rows_length [OF s(1)]
    by (cases "i = Suc k") (auto simp: nth_append)
qed auto

section \<open>Adding a condition\<close>

definition add_filter :: "nat \<Rightarrow> (nat \<Rightarrow> bool) \<Rightarrow> flat \<Rightarrow> flat" where
  "add_filter i g d = d\<lparr>fl_filter := (fl_filter d)(i := \<lambda>j. fl_filter d i j \<and> g j)\<rparr>"

definition add_on :: "nat \<Rightarrow> (joined_row \<Rightarrow> bool) \<Rightarrow> flat \<Rightarrow> flat" where
  "add_on k p d = d\<lparr>fl_on := (fl_on d)(k := \<lambda>r. fl_on d k r \<and> p r)\<rparr>"

definition add_stage :: "nat \<Rightarrow> (joined_row \<Rightarrow> bool) \<Rightarrow> flat \<Rightarrow> flat" where
  "add_stage k p d = d\<lparr>fl_stage := (fl_stage d)(k := \<lambda>r. fl_stage d k r \<and> p r)\<rparr>"

definition set_inner :: "nat \<Rightarrow> flat \<Rightarrow> flat" where
  "set_inner k d = d\<lparr>fl_left := (fl_left d)(k := False)\<rparr>"

lemmas flat_adds = add_filter_def add_on_def add_stage_def set_inner_def

text \<open>Two descriptions with the same conditions, as far as they are looked at, have the same
  rows.\<close>

lemma extend_row_cong:
  assumes "\<And>j. j \<in> set js \<Longrightarrow> f j = f' j" "\<And>j. j \<in> set js \<Longrightarrow> f j \<Longrightarrow> c (r @ [Some j]) = c' (r @ [Some j])"
  shows "extend_row l f c js r = extend_row l f' c' js r"
proof -
  have "filter f js = filter f' js" using assms(1) by (intro filter_cong) auto
  moreover have "filter (\<lambda>j. c (r @ [Some j])) (filter f js) = filter (\<lambda>j. c' (r @ [Some j])) (filter f js)"
    using assms(2) by (intro filter_cong) auto
  ultimately show ?thesis by (simp add: extend_row_def)
qed

lemma flat_rows_cong:
  assumes "\<And>i. i \<le> k \<Longrightarrow> fl_rows d i = fl_rows d' i" "\<And>i. i \<le> k \<Longrightarrow> 0 < i \<Longrightarrow> fl_left d i = fl_left d' i"
    and "\<And>i j. i \<le> k \<Longrightarrow> j \<in> set (fl_rows d i) \<Longrightarrow> fl_filter d i j = fl_filter d' i j"
    and "\<And>i r. i \<le> k \<Longrightarrow> 0 < i \<Longrightarrow> length r = Suc i \<Longrightarrow> r ! i \<noteq> None \<Longrightarrow> (\<And>h. h < i \<Longrightarrow> h = 0 \<or> \<not> fl_left d h \<Longrightarrow> r ! h \<noteq> None) \<Longrightarrow>
        fl_on d i r = fl_on d' i r"
    and "\<And>i r. i \<le> k \<Longrightarrow> length r = Suc i \<Longrightarrow> (\<And>h. h \<le> i \<Longrightarrow> h = 0 \<or> \<not> fl_left d h \<Longrightarrow> r ! h \<noteq> None) \<Longrightarrow>
        fl_stage d i r = fl_stage d' i r"
  shows "flat_rows d k = flat_rows d' k"
  using assms
proof (induction k)
  case 0
  have "filter (fl_filter d 0) (fl_rows d 0) = filter (fl_filter d' 0) (fl_rows d 0)"
    using 0(3) by (intro filter_cong) auto
  then show ?case using 0(1,5) by (auto intro!: filter_cong)
next
  case (Suc k)
  have IH: "flat_rows d k = flat_rows d' k" by (rule Suc.IH) (use Suc.prems in auto)
  have "map (extend_row (fl_left d (Suc k)) (fl_filter d (Suc k)) (fl_on d (Suc k)) (fl_rows d (Suc k))) (flat_rows d k) =
      map (extend_row (fl_left d' (Suc k)) (fl_filter d' (Suc k)) (fl_on d' (Suc k)) (fl_rows d' (Suc k))) (flat_rows d k)"
  proof (rule map_cong [OF refl])
    fix r assume r: "r \<in> set (flat_rows d k)"
    have on_eq: "fl_on d (Suc k) (r @ [Some j]) = fl_on d' (Suc k) (r @ [Some j])" for j
      using flat_rows_length [OF r] flat_rows_present [OF r] by (intro Suc.prems(4)) (auto simp: nth_append)
    have left_eq: "fl_left d' (Suc k) = fl_left d (Suc k)" using Suc.prems(2) [of "Suc k"] by simp
    have filter_eq: "fl_filter d (Suc k) j = fl_filter d' (Suc k) j" if "j \<in> set (fl_rows d (Suc k))" for j
      using Suc.prems(3) that by simp
    show "extend_row (fl_left d (Suc k)) (fl_filter d (Suc k)) (fl_on d (Suc k)) (fl_rows d (Suc k)) r =
        extend_row (fl_left d' (Suc k)) (fl_filter d' (Suc k)) (fl_on d' (Suc k)) (fl_rows d' (Suc k)) r"
      unfolding left_eq Suc.prems(1) [OF order.refl, symmetric] by (rule extend_row_cong) (rule filter_eq on_eq, assumption?)+
  qed
  note maps = this
  have stage: "fl_stage d (Suc k) s = fl_stage d' (Suc k) s"
    if s: "r \<in> set (flat_rows d k)" "s \<in> set (extend_row (fl_left d (Suc k)) f c js r)" for r s f c js
  proof (rule Suc.prems(5))
    obtain x where x: "s = r @ [x]" "x = None \<longrightarrow> fl_left d (Suc k)" using extend_row_shape [OF s(2)] by blast
    then show "length s = Suc (Suc k)" using flat_rows_length [OF s(1)] by simp
    show "\<And>h. h \<le> Suc k \<Longrightarrow> h = 0 \<or> \<not> fl_left d h \<Longrightarrow> s ! h \<noteq> None"
      using x flat_rows_length [OF s(1)] flat_rows_present [OF s(1)] by (auto simp: nth_append le_Suc_eq)
  qed simp
  have "flat_rows d (Suc k) = filter (fl_stage d' (Suc k)) (concat (map (extend_row (fl_left d (Suc k))
      (fl_filter d (Suc k)) (fl_on d (Suc k)) (fl_rows d (Suc k))) (flat_rows d k)))"
    unfolding flat_rows.simps by (rule filter_cong [OF refl]) (use stage in auto)
  then show ?case unfolding maps by (simp only: flat_rows.simps IH)
qed

section \<open>Moving a condition on the joined rows down\<close>

lemma filter_concat_map: "(\<And>r s. r \<in> set rs \<Longrightarrow> s \<in> set (f r) \<Longrightarrow> P s = Q r) \<Longrightarrow>
    filter P (concat (map f rs)) = concat (map f (filter Q rs))"
proof (induction rs)
  case (Cons r rs)
  have "filter P (f r) = (if Q r then f r else [])"
    using Cons.prems [of r] by (auto simp: filter_empty_conv intro: filter_True)
  then show ?case using Cons by auto
qed simp

lemma extend_prefix:
  "r \<in> set (flat_rows d k) \<Longrightarrow> s \<in> set (extend_row l f c js r) \<Longrightarrow> i \<le> k \<Longrightarrow> take (Suc i) s = take (Suc i) r"
  using extend_row_shape flat_rows_length by fastforce

lemma add_stage_rows:
  assumes "k \<le> m"
  shows "flat_rows (add_stage m (\<lambda>r. p (take (Suc k) r)) d) j =
    (if m \<le> j then filter (\<lambda>r. p (take (Suc k) r)) (flat_rows d j) else flat_rows d j)"
proof (induction j)
  case 0
  then show ?case by (auto simp: add_stage_def intro!: filter_cong)
next
  case (Suc j)
  let ?d = "add_stage m (\<lambda>r. p (take (Suc k) r)) d" and ?q = "\<lambda>r. p (take (Suc k) r)"
  let ?ext = "extend_row (fl_left d (Suc j)) (fl_filter d (Suc j)) (fl_on d (Suc j)) (fl_rows d (Suc j))"
  have rows: "flat_rows ?d (Suc j) = filter (fl_stage ?d (Suc j)) (concat (map ?ext (flat_rows ?d j)))"
    by (simp add: add_stage_def)
  show ?case
  proof (cases "m \<le> j")
    case True
    then have "flat_rows ?d (Suc j) = filter (fl_stage d (Suc j)) (concat (map ?ext (filter ?q (flat_rows d j))))"
      using rows Suc by (simp add: add_stage_def)
    also have "concat (map ?ext (filter ?q (flat_rows d j))) = filter ?q (concat (map ?ext (flat_rows d j)))"
      using extend_prefix True assms by (intro filter_concat_map [symmetric]) (metis le_trans)
    finally show ?thesis using True by (simp add: conj_commute)
  next
    case False
    then have "flat_rows ?d (Suc j) = filter (fl_stage ?d (Suc j)) (concat (map ?ext (flat_rows d j)))"
      using rows Suc by simp
    then show ?thesis using False by (cases "m = Suc j") (simp_all add: add_stage_def filter_filter conj_commute)
  qed
qed

text \<open>A condition that only looks at the first relations can be checked as soon as they are
  joined.\<close>

lemma move_stage:
  assumes "k \<le> m" "m \<le> n" "\<And>r. length r = Suc m \<Longrightarrow> p' r = p (take (Suc k) r)"
  shows "flat_rows (add_stage m p' d) n = flat_rows (add_stage k p d) n"
proof -
  have "flat_rows (add_stage m p' d) n = flat_rows (add_stage m (\<lambda>r. p (take (Suc k) r)) d) n"
    using assms(3) by (intro flat_rows_cong) (auto simp: add_stage_def)
  moreover have "flat_rows (add_stage k p d) n = flat_rows (add_stage k (\<lambda>r. p (take (Suc k) r)) d) n"
    by (intro flat_rows_cong) (auto simp: add_stage_def)
  ultimately show ?thesis using assms(1,2) by (simp add: add_stage_rows)
qed

section \<open>Moving a condition between a step and its relation\<close>

lemma extend_row_filter_on:
  "(\<And>j. g j = p (r @ [Some j])) \<Longrightarrow>
   extend_row l (\<lambda>j. f j \<and> g j) c js r = extend_row l f (\<lambda>s. c s \<and> p s) js r"
  unfolding extend_row_def by (simp add: conj_ac)

text \<open>A condition of a step on the joined relation alone is a filter of that relation, for either kind
  of join.\<close>

lemma move_on_filter:
  assumes "0 < k" "\<And>r j. length r = k \<Longrightarrow> j \<in> set (fl_rows d k) \<Longrightarrow> p (r @ [Some j]) = g j"
  shows "flat_rows (add_on k p d) n = flat_rows (add_filter k g d) n"
proof (induction n)
  case 0
  then show ?case using assms(1) by (simp add: flat_adds)
next
  case (Suc n)
  have "extend_row (fl_left d k) (fl_filter d k) (\<lambda>r. fl_on d k r \<and> p r) (fl_rows d k) r =
      extend_row (fl_left d k) (\<lambda>j. fl_filter d k j \<and> g j) (fl_on d k) (fl_rows d k) r" if "length r = k" for r
  proof -
    have "filter (\<lambda>j. fl_on d k (r @ [Some j]) \<and> p (r @ [Some j])) (filter (fl_filter d k) (fl_rows d k)) =
        filter (\<lambda>j. fl_on d k (r @ [Some j])) (filter (\<lambda>j. fl_filter d k j \<and> g j) (fl_rows d k))"
      unfolding filter_filter using assms(2) [OF that] by (intro filter_cong) auto
    then show ?thesis unfolding extend_row_def Let_def by (rule arg_cong)
  qed
  note same = this
  have "map (extend_row (fl_left (add_on k p d) (Suc n)) (fl_filter (add_on k p d) (Suc n)) (fl_on (add_on k p d) (Suc n)) (fl_rows d (Suc n)))
        (flat_rows (add_filter k g d) n) =
      map (extend_row (fl_left (add_filter k g d) (Suc n)) (fl_filter (add_filter k g d) (Suc n)) (fl_on (add_filter k g d) (Suc n)) (fl_rows d (Suc n)))
        (flat_rows (add_filter k g d) n)"
  proof (rule map_cong [OF refl])
    fix r assume "r \<in> set (flat_rows (add_filter k g d) n)"
    then have "length r = Suc n" by (rule flat_rows_length)
    then show "extend_row (fl_left (add_on k p d) (Suc n)) (fl_filter (add_on k p d) (Suc n)) (fl_on (add_on k p d) (Suc n)) (fl_rows d (Suc n)) r =
        extend_row (fl_left (add_filter k g d) (Suc n)) (fl_filter (add_filter k g d) (Suc n)) (fl_on (add_filter k g d) (Suc n)) (fl_rows d (Suc n)) r"
      using same [of r] by (cases "Suc n = k") (simp_all add: flat_adds)
  qed
  moreover have "fl_rows (add_on k p d) = fl_rows d" "fl_rows (add_filter k g d) = fl_rows d"
    "fl_stage (add_on k p d) = fl_stage (add_filter k g d)"
    by (simp_all add: flat_adds)
  ultimately show ?case by (simp only: flat_rows.simps Suc)
qed

text \<open>A condition on the rows of an inner join is part of its condition; and one on the first
  relation alone is a filter.\<close>

lemma move_stage_on:
  assumes "0 < k" "\<not> fl_left d k"
  shows "flat_rows (add_stage k p d) n = flat_rows (add_on k p d) n"
proof (induction n)
  case 0
  then show ?case using assms(1) by (simp add: flat_adds)
next
  case (Suc n)
  have "filter (\<lambda>r. fl_stage d k r \<and> p r) (concat (map (extend_row False f c js) rs)) =
      filter (fl_stage d k) (concat (map (extend_row False f (\<lambda>r. c r \<and> p r) js) rs))" for f c js rs
    by (induction rs) (simp_all add: extend_row_def filter_map comp_def conj_ac)
  with Suc show ?case using assms by (auto simp: flat_adds)
qed

lemma move_stage_filter:
  assumes "\<And>j. j \<in> set (fl_rows d 0) \<Longrightarrow> p [Some j] = g j"
  shows "flat_rows (add_stage 0 p d) n = flat_rows (add_filter 0 g d) n"
proof (induction n)
  case 0
  have "filter (\<lambda>j. fl_stage d 0 [Some j] \<and> p [Some j] \<and> fl_filter d 0 j) (fl_rows d 0) =
      filter (\<lambda>j. fl_stage d 0 [Some j] \<and> fl_filter d 0 j \<and> g j) (fl_rows d 0)"
    using assms by (intro filter_cong) auto
  then show ?case by (simp add: flat_adds filter_map comp_def conj_ac)
next
  case (Suc n)
  then show ?case by (simp add: flat_adds)
qed

section \<open>A left join whose null rows are thrown away\<close>

lemma filter_swap: "filter P (filter Q xs) = filter Q (filter P xs)"
  by (simp add: conj_commute)

lemma set_inner_rows:
  assumes "0 < k"
  shows "k \<le> j \<Longrightarrow> flat_rows (set_inner k d) j = filter (\<lambda>r. r ! k \<noteq> None) (flat_rows d j)"
    and "j < k \<Longrightarrow> flat_rows (set_inner k d) j = flat_rows d j"
proof (induction j)
  case (Suc j)
  let ?ext = "\<lambda>l. extend_row l (fl_filter d (Suc j)) (fl_on d (Suc j)) (fl_rows d (Suc j))"
  show "k \<le> Suc j \<Longrightarrow> flat_rows (set_inner k d) (Suc j) = filter (\<lambda>r. r ! k \<noteq> None) (flat_rows d (Suc j))"
  proof (cases "k = Suc j")
    case True
    have "filter (\<lambda>r. r ! k \<noteq> None) (concat (map (?ext l) rs)) = concat (map (?ext False) rs)"
      if "\<forall>r \<in> set rs. length r = k" for l rs
      using that by (induction rs) (auto simp: extend_row_def Let_def nth_append intro!: filter_True)
    from this [of "flat_rows d j" "fl_left d k"] flat_rows_length [of _ d j]
    have rows: "filter (\<lambda>r. r ! k \<noteq> None) (concat (map (?ext (fl_left d k)) (flat_rows d j))) =
        concat (map (?ext False) (flat_rows d j))" using True by simp
    have "flat_rows (set_inner k d) (Suc j) = filter (fl_stage d (Suc j)) (concat (map (?ext False) (flat_rows d j)))"
      using Suc.IH(2) True by (simp add: set_inner_def)
    then show ?thesis
      unfolding rows [symmetric] using True by (simp only: flat_rows.simps filter_swap [of "fl_stage d (Suc j)"])
  next
    case False
    assume "k \<le> Suc j"
    then have k: "k \<le> j" using False by simp
    have "filter (\<lambda>r. r ! k \<noteq> None) (concat (map (?ext (fl_left d (Suc j))) (flat_rows d j))) =
        concat (map (?ext (fl_left d (Suc j))) (filter (\<lambda>r. r ! k \<noteq> None) (flat_rows d j)))"
    proof (rule filter_concat_map)
      fix r s assume r: "r \<in> set (flat_rows d j)" "s \<in> set (?ext (fl_left d (Suc j)) r)"
      then obtain x where "s = r @ [x]" using extend_row_shape by blast
      then show "(s ! k \<noteq> None) = (r ! k \<noteq> None)" using flat_rows_length [OF r(1)] k by (simp add: nth_append)
    qed
    note rows = this
    have "flat_rows (set_inner k d) (Suc j) = filter (fl_stage d (Suc j)) (concat (map (?ext (fl_left d (Suc j)))
        (filter (\<lambda>r. r ! k \<noteq> None) (flat_rows d j))))"
      using Suc.IH(1) [OF k] False by (simp add: set_inner_def)
    then show ?thesis
      unfolding rows [symmetric] by (simp only: flat_rows.simps filter_swap [of "fl_stage d (Suc j)"])
  qed
  show "Suc j < k \<Longrightarrow> flat_rows (set_inner k d) (Suc j) = flat_rows d (Suc j)"
    using Suc.IH(2) by (simp add: set_inner_def)
qed (use assms in \<open>simp_all add: set_inner_def\<close>)

lemma left_is_inner:
  assumes "0 < k" "k \<le> n" "\<And>r. r \<in> set (flat_rows d n) \<Longrightarrow> r ! k \<noteq> None"
  shows "flat_rows (set_inner k d) n = flat_rows d n"
  using set_inner_rows(1) [OF assms(1,2), of d] assms(3) by (simp add: filter_True)

end
