(* ===== verification/Opt_Plan.thy ===== *)
theory Opt_Plan
  imports Opt_Flat
begin

text \<open>
  Query plans (\<open>src/src/planner/plan_node.h\<close>), the rows a plan stands for, and the passes of
  the optimizer that move conditions through the joins of a plan (\<open>optimizer_flatten_from\<close> to
  \<open>optimizer_final_join_type\<close> of \<open>src/src/optimizer/optimizer.c\<close>).

  A plan node holds the fields of \<open>PLAN_Node\<close> its type uses; estimates, costs and the chosen
  scan and sort strategies are left out, they do not change the rows. Relations, steps and conjuncts
  are lists instead of arrays of a fixed capacity with a count; the capacities are checked where the
  code checks them.
\<close>

section \<open>Plans\<close>

datatype plan_node =
    P_Scan string8 "cql_table option" string8
  | P_Filter plan_node ir_node
  | P_Join string8 plan_node plan_node "ir_node option"
  | P_SemiJoin string8 plan_node plan_node "ir_node option"
  | P_AntiJoin string8 plan_node plan_node "ir_node option"
  | P_Aggregate plan_node "ir_node option" "ir_node option"
  | P_Having plan_node ir_node
  | P_Project plan_node "ir_node option"
  | P_Sort plan_node ir_node
  | P_Limit plan_node "ir_node option" "ir_node option"
  | P_Window plan_node "ir_node option" "ir_node option"

text \<open>The condition below a \<open>Where\<close> node.\<close>

definition where_root :: "ir_node \<Rightarrow> ir_node option" where
  "where_root w = (case ir_children w of [] \<Rightarrow> None | c # _ \<Rightarrow> Some c)"

definition is_left_type :: "string8 \<Rightarrow> bool" where
  "is_left_type ty = str8_match ty ''left'' match_ci"

text \<open>The relations of a FROM plan, in textual order, and the rows it stands for: the standard
  meaning of scans, filters, inner, cross and left joins.\<close>

fun plan_scope :: "plan_node \<Rightarrow> scope" where
  "plan_scope (P_Scan v (Some t) a) = [(t, a)]"
| "plan_scope (P_Filter p w) = plan_scope p"
| "plan_scope (P_Join ty l r c) = plan_scope l @ plan_scope r"
| "plan_scope _ = []"

definition join_rows ::
  "num_env \<Rightarrow> scope \<Rightarrow> nat \<Rightarrow> bool \<Rightarrow> ir_node option \<Rightarrow> joined_row list \<Rightarrow> joined_row list \<Rightarrow> joined_row list" where
  "join_rows env sc width is_left cond ls rs = concat (map (\<lambda>l.
     let matches = filter (\<lambda>r. eval_opt env sc (l @ r) cond) rs
     in if matches = [] \<and> is_left then [l @ replicate width None] else map (\<lambda>r. l @ r) matches) ls)"

fun plan_rows :: "num_env \<Rightarrow> plan_node \<Rightarrow> joined_row list" where
  "plan_rows env (P_Scan v (Some t) a) = map (\<lambda>i. [Some i]) [0..<length (table_rows t)]"
| "plan_rows env (P_Filter (P_Scan v (Some t) a) w) = map (\<lambda>i. [Some i]) (qe_cpu_scan_filter env t (where_root w))"
| "plan_rows env (P_Filter p w) = filter (\<lambda>row. eval_opt env (plan_scope p) row (where_root w)) (plan_rows env p)"
| "plan_rows env (P_Join ty l r c) =
     join_rows env (plan_scope l @ plan_scope r) (length (plan_scope r)) (is_left_type ty) c (plan_rows env l) (plan_rows env r)"
| "plan_rows env _ = []"

section \<open>Relations, steps and conjuncts\<close>

record opt_relation =
  rel_scan :: plan_node
  rel_table :: cql_table
  rel_alias :: string8

definition rel_scope :: "opt_relation list \<Rightarrow> scope" where
  "rel_scope rels = map (\<lambda>r. (rel_table r, rel_alias r)) rels"

record opt_step =
  step_type :: string8
  on_condition :: "ir_node option"
  null_supplying :: bool

datatype opt_destination = Dest_Residual | Dest_Filter | Dest_OnClause | Dest_Dropped

record opt_conjunct =
  cj_node :: ir_node
  cj_mask :: u64
  cj_unresolved :: bool
  cj_from_where :: bool
  cj_step :: nat
  cj_dest :: opt_destination
  cj_target :: nat

text \<open>A zeroed array element.\<close>

definition zero_step :: opt_step where
  "zero_step = \<lparr>step_type = [], on_condition = None, null_supplying = False\<rparr>"

fun is_scan :: "plan_node \<Rightarrow> bool" where
  "is_scan (P_Scan v t a) = True"
| "is_scan _ = False"

fun optimizer_flatten_from ::
  "plan_node \<Rightarrow> opt_relation list \<times> opt_step list \<Rightarrow> (opt_relation list \<times> opt_step list) option" where
  "optimizer_flatten_from (P_Scan v t a) (rels, steps) =
     (if length rels \<ge> OPT_MAX_RELATIONS then None
      else case t of
        None \<Rightarrow> None
      | Some tab \<Rightarrow> Some (rels @ [\<lparr>rel_scan = P_Scan v t a, rel_table = tab, rel_alias = a\<rparr>], steps @ [zero_step]))"
| "optimizer_flatten_from (P_Join ty l r c) (rels, steps) =
     (if length rels \<ge> OPT_MAX_RELATIONS then None
      else if \<not> is_scan r then None
      else case optimizer_flatten_from l (rels, steps) of
        None \<Rightarrow> None
      | Some (rels, steps) \<Rightarrow>
          (case optimizer_flatten_from r (rels, steps) of
             None \<Rightarrow> None
           | Some (rels, steps) \<Rightarrow>
               Some (rels, steps[length rels - 1 := \<lparr>step_type = ty, on_condition = c, null_supplying = is_left_type ty\<rparr>])))"
| "optimizer_flatten_from _ _ = None"

definition fresh_conjunct :: "scope \<Rightarrow> bool \<Rightarrow> nat \<Rightarrow> ir_node \<Rightarrow> opt_conjunct" where
  "fresh_conjunct sc from_where step n =
     (let (m, unresolved) = optimizer_collect_relation_refs sc n (0, False)
      in \<lparr>cj_node = n, cj_mask = m, cj_unresolved = unresolved, cj_from_where = from_where, cj_step = step,
          cj_dest = Dest_Residual, cj_target = 0\<rparr>)"

text \<open>The conjuncts of the ON conditions of the steps from \<open>k\<close> on; \<open>None\<close> when
  there are too many in all.\<close>

fun load_on_conjuncts :: "nat \<Rightarrow> opt_step list \<Rightarrow> (bool \<times> nat \<times> ir_node) list \<Rightarrow> (bool \<times> nat \<times> ir_node) list option" where
  "load_on_conjuncts k [] acc = Some acc"
| "load_on_conjuncts k (s # steps) acc =
     (case on_condition s of
        None \<Rightarrow> load_on_conjuncts (Suc k) steps acc
      | Some c \<Rightarrow>
          let (leaves, leaf_count) = optimizer_ir_collect_conjuncts OPT_MAX_CONJUNCTS c ([], 0)
          in if length acc + leaf_count > OPT_MAX_CONJUNCTS then None
             else load_on_conjuncts (Suc k) steps (acc @ map (\<lambda>n. (False, k, n)) leaves))"

definition optimizer_load_conjuncts :: "ir_node option \<Rightarrow> opt_step list \<Rightarrow> scope \<Rightarrow> opt_conjunct list" where
  "optimizer_load_conjuncts where_ir steps sc =
     (let loaded =
        (case Option.bind where_ir where_root of
           None \<Rightarrow> load_on_conjuncts 1 (drop 1 steps) []
         | Some cond_root \<Rightarrow>
             let (leaves, leaf_count) = optimizer_ir_collect_conjuncts OPT_MAX_CONJUNCTS cond_root ([], 0)
             in if leaf_count > OPT_MAX_CONJUNCTS then None
                else load_on_conjuncts 1 (drop 1 steps) (map (\<lambda>n. (True, 0, n)) leaves))
      in case loaded of
           None \<Rightarrow> []
         | Some cs \<Rightarrow> map (\<lambda>(from_where, step, n). fresh_conjunct sc from_where step n) cs)"

section \<open>Left joins that are inner joins\<close>

text \<open>The inner loop of \<open>optimizer_convert_left_joins\<close>, over the relations from
  \<open>i\<close> on.\<close>

definition supplies_null :: "opt_step list \<Rightarrow> nat \<Rightarrow> bool" where
  "supplies_null steps i \<longleftrightarrow> null_supplying (steps ! i)"

definition clear_supplying :: "nat \<Rightarrow> opt_step list \<Rightarrow> opt_step list" where
  "clear_supplying i steps = steps[i := (steps ! i)\<lparr>null_supplying := False\<rparr>]"

definition convert_conjunct :: "scope \<Rightarrow> opt_conjunct \<Rightarrow> opt_step list \<Rightarrow> opt_step list" where
  "convert_conjunct sc c steps =
     (if \<not> cj_from_where c \<or> cj_unresolved c then steps
      else fold (\<lambda>i steps.
        if \<not> bit (cj_mask c) i \<or> \<not> supplies_null steps i then steps
        else if optimizer_rejects_null sc i (cj_node c) then clear_supplying i steps
        else steps) [1..<length sc] steps)"

definition optimizer_convert_left_joins :: "scope \<Rightarrow> opt_step list \<Rightarrow> opt_conjunct list \<Rightarrow> opt_step list" where
  "optimizer_convert_left_joins sc steps cs = fold (convert_conjunct sc) cs steps"

section \<open>Where a conjunct goes\<close>

definition dest :: "opt_destination \<Rightarrow> nat \<Rightarrow> opt_conjunct \<Rightarrow> opt_conjunct" where
  "dest d t c = c\<lparr>cj_dest := d, cj_target := t\<rparr>"

definition assign_where :: "opt_step list \<Rightarrow> opt_conjunct \<Rightarrow> opt_conjunct" where
  "assign_where steps c =
     (let touched = optimizer_mask_popcount (cj_mask c); high = optimizer_mask_highest (cj_mask c) in
      if cj_unresolved c \<or> touched = 0 then c\<lparr>cj_dest := Dest_Residual\<rparr>
      else if touched = 1 then
        if high > 0 \<and> supplies_null steps high then c\<lparr>cj_dest := Dest_Residual\<rparr> else dest Dest_Filter high c
      else if supplies_null steps high then c\<lparr>cj_dest := Dest_Residual\<rparr>
      else dest Dest_OnClause high c)"

definition assign_on :: "opt_step list \<Rightarrow> opt_conjunct \<Rightarrow> opt_conjunct" where
  "assign_on steps c =
     (let touched = optimizer_mask_popcount (cj_mask c); high = optimizer_mask_highest (cj_mask c);
          on_clause = dest Dest_OnClause (cj_step c) c in
      if \<not> cj_unresolved c \<and> touched = 0 then dest Dest_Filter (cj_step c) c
      else if (cj_unresolved c \<or> touched = 0) \<or> touched > 1 then on_clause
      else if high > cj_step c then on_clause
      else if high = cj_step c then dest Dest_Filter high c
      else if \<not> is_left_type (step_type (steps ! cj_step c)) \<and> \<not> (high > 0 \<and> supplies_null steps high)
      then dest Dest_Filter high c
      else on_clause)"

definition optimizer_assign_destinations :: "opt_step list \<Rightarrow> opt_conjunct list \<Rightarrow> opt_conjunct list" where
  "optimizer_assign_destinations steps cs =
     map (\<lambda>c. if cj_dest c = Dest_Dropped then c
        else if cj_from_where c then assign_where steps c else assign_on steps c) cs"

section \<open>Building the plan\<close>

definition nodes_at :: "opt_destination \<Rightarrow> nat \<Rightarrow> opt_conjunct list \<Rightarrow> ir_node list" where
  "nodes_at d t cs = map cj_node (filter (\<lambda>c. cj_dest c = d \<and> cj_target c = t) cs)"

definition optimizer_build_relation_plan :: "opt_relation list \<Rightarrow> opt_conjunct list \<Rightarrow> nat \<Rightarrow> plan_node" where
  "optimizer_build_relation_plan rels cs i =
     (case optimizer_ir_and_chain (nodes_at Dest_Filter i cs) of
        None \<Rightarrow> rel_scan (rels ! i)
      | Some chain \<Rightarrow>
          P_Filter (rel_scan (rels ! i)) (optimizer_ir_make_where (optimizer_ir_strip_column_qualifiers chain)))"

definition optimizer_final_join_type :: "opt_step \<Rightarrow> bool \<Rightarrow> string8" where
  "optimizer_final_join_type step has_on_conditions =
     (if null_supplying step then ''left''
      else if str8_match (step_type step) ''cross'' match_ci \<and> \<not> has_on_conditions then ''cross''
      else ''inner'')"

end
