(* ===== verification/Opt_Fold.thy ===== *)
theory Opt_Fold
  imports Opt_Plan
begin

text \<open>
  Constant folding and contradiction detection (\<open>optimizer_number_from_literal\<close> to
  \<open>optimizer_detect_contradiction\<close> of \<open>src/src/optimizer/optimizer.c\<close>).

  The lemmas show that a folded comparison has the value it evaluates to, and that the optimizer finds
  a contradiction only among conditions that no row satisfies.
\<close>

section \<open>Constant folding\<close>

definition optimizer_number_from_literal :: "num_env \<Rightarrow> ir_node \<Rightarrow> f64 option" where
  "optimizer_number_from_literal env n =
     (if ir_type n \<noteq> IrNumeric then None else Some (f64_from_str8 env (ir_value n)))"

definition optimizer_compare_numbers :: "string8 \<Rightarrow> f64 \<Rightarrow> f64 \<Rightarrow> bool option" where
  "optimizer_compare_numbers op l r =
     (if op = ''='' \<or> op = ''=='' then Some (f64_eq l r)
      else if op = ''!='' then Some (\<not> f64_eq l r)
      else if op = ''<'' then Some (f64_lt l r)
      else if op = ''<='' then Some (f64_le l r)
      else if op = ''>'' then Some (f64_lt r l)
      else if op = ''>='' then Some (f64_le r l)
      else None)"

definition optimizer_fold_comparison :: "num_env \<Rightarrow> ir_node \<Rightarrow> bool option" where
  "optimizer_fold_comparison env n =
     (if ir_type n \<noteq> IrOperator then None
      else case ir_children n of
        l # r # _ \<Rightarrow>
          (case (optimizer_number_from_literal env l, optimizer_number_from_literal env r) of
             (Some x, Some y) \<Rightarrow> optimizer_compare_numbers (ir_value n) x y
           | _ \<Rightarrow>
               if ir_type l = IrLiteral \<and> ir_type r = IrLiteral then
                 let same = str8_match (ir_value l) (ir_value r) match_exact in
                 if ir_value n = ''='' \<or> ir_value n = ''=='' then Some same
                 else if ir_value n = ''!='' then Some (\<not> same)
                 else None
               else None)
      | _ \<Rightarrow> None)"

definition optimizer_make_constant_false :: ir_node where
  "optimizer_make_constant_false =
     ir_node_add_child (ir_node_add_child (ir_node_make IrOperator ''='') (ir_node_make IrNumeric ''0''))
       (ir_node_make IrNumeric ''1'')"

fun optimizer_ir_is_constant_false :: "num_env \<Rightarrow> ir_node \<Rightarrow> bool" where
  "optimizer_ir_is_constant_false env (IR_Node ty v cs) =
     (if ty = IrOperator \<and> is_op v ''and'' then
        (case cs of
           [] \<Rightarrow> False
         | [l] \<Rightarrow> optimizer_ir_is_constant_false env l
         | l # r # _ \<Rightarrow> optimizer_ir_is_constant_false env l \<or> optimizer_ir_is_constant_false env r)
      else optimizer_fold_comparison env (IR_Node ty v cs) = Some False)"

text \<open>The conjuncts with the always-true ones dropped, and whether one is always false where that
  empties the result.\<close>

definition fold_conjunct :: "num_env \<Rightarrow> opt_conjunct \<Rightarrow> opt_conjunct" where
  "fold_conjunct env c =
     (if optimizer_fold_comparison env (cj_node c) = Some True then c\<lparr>cj_dest := Dest_Dropped\<rparr> else c)"

definition empties :: "num_env \<Rightarrow> opt_step list \<Rightarrow> opt_conjunct \<Rightarrow> bool" where
  "empties env steps c \<longleftrightarrow>
     optimizer_fold_comparison env (cj_node c) = Some False \<and>
     \<not> (\<not> cj_from_where c \<and> supplies_null steps (cj_step c))"

definition optimizer_fold_constants :: "num_env \<Rightarrow> opt_step list \<Rightarrow> opt_conjunct list \<Rightarrow> opt_conjunct list \<times> bool" where
  "optimizer_fold_constants env steps cs = (map (fold_conjunct env) cs, list_ex (empties env steps) cs)"

section \<open>Columns and constants\<close>

definition optimizer_column_type_is_comparable_number :: "column_type \<Rightarrow> bool" where
  "optimizer_column_type_is_comparable_number ty \<longleftrightarrow>
     ty = ColU32 \<or> ty = ColU64 \<or> ty = ColI32 \<or> ty = ColI64 \<or> ty = ColF64 \<or> ty = ColBool"

text \<open>The relation, the bare name and the type of a column operand.\<close>

definition optimizer_column_operand :: "scope \<Rightarrow> ir_node \<Rightarrow> (nat \<times> string8 \<times> column_type) option" where
  "optimizer_column_operand sc n =
     (if ir_type n \<noteq> IrColumn then None
      else case optimizer_resolve_column sc (ir_value n) of
        None \<Rightarrow> None
      | Some i \<Rightarrow>
          let bare = qe_bare_column_name (ir_value n) in
          (case cql_table_find_column (fst (sc ! i)) bare of
             None \<Rightarrow> None
           | Some c \<Rightarrow> Some (i, bare, column_ty (columns (fst (sc ! i)) ! c))))"

definition optimizer_flip_comparison :: "string8 \<Rightarrow> string8" where
  "optimizer_flip_comparison op =
     (if op = ''<'' then ''>'' else if op = ''>'' then ''<'' else if op = ''<='' then ''>=''
      else if op = ''>='' then ''<='' else op)"

text \<open>The pairs of a column type and a literal that can be compared without a conversion.\<close>

definition comparable_pair :: "column_type \<Rightarrow> ir_node \<Rightarrow> bool" where
  "comparable_pair ty literal \<longleftrightarrow>
     (ty = ColString8 \<and> ir_type literal = IrLiteral) \<or>
     (optimizer_column_type_is_comparable_number ty \<and> ir_type literal = IrNumeric)"

section \<open>Bounds\<close>

record opt_bounds =
  b_relation :: nat
  b_column :: string8
  b_lower :: "(f64 \<times> bool) option"
  b_upper :: "(f64 \<times> bool) option"
  b_equal :: "f64 option"
  b_equal_string :: "string8 option"

definition fresh_bounds :: "nat \<Rightarrow> string8 \<Rightarrow> opt_bounds" where
  "fresh_bounds i col = \<lparr>b_relation = i, b_column = col, b_lower = None, b_upper = None, b_equal = None, b_equal_string = None\<rparr>"

text \<open>The position of the entry for a column, which is appended when there is none yet and
  room.\<close>

definition optimizer_find_bounds :: "opt_bounds list \<Rightarrow> nat \<Rightarrow> string8 \<Rightarrow> (nat \<times> opt_bounds list) option" where
  "optimizer_find_bounds bs i col =
     (case first_index (\<lambda>b. b_relation b = i \<and> str8_match (b_column b) col match_ci) bs of
        Some k \<Rightarrow> Some (k, bs)
      | None \<Rightarrow>
          if length bs \<ge> OPT_MAX_CONJUNCTS then None
          else Some (length bs, bs @ [fresh_bounds i col]))"

definition optimizer_bounds_are_contradictory :: "opt_bounds \<Rightarrow> bool" where
  "optimizer_bounds_are_contradictory b \<longleftrightarrow>
     (case (b_lower b, b_upper b) of
        (Some (lo, lo_strict), Some (hi, hi_strict)) \<Rightarrow> f64_lt hi lo \<or> (f64_eq lo hi \<and> (lo_strict \<or> hi_strict))
      | _ \<Rightarrow> False) \<or>
     (case (b_equal b, b_lower b) of
        (Some e, Some (lo, lo_strict)) \<Rightarrow> f64_lt e lo \<or> (f64_eq e lo \<and> lo_strict)
      | _ \<Rightarrow> False) \<or>
     (case (b_equal b, b_upper b) of
        (Some e, Some (hi, hi_strict)) \<Rightarrow> f64_lt hi e \<or> (f64_eq e hi \<and> hi_strict)
      | _ \<Rightarrow> False)"

text \<open>The bounds after a comparison, and whether it makes them impossible.\<close>

definition apply_number :: "string8 \<Rightarrow> f64 \<Rightarrow> opt_bounds \<Rightarrow> opt_bounds" where
  "apply_number op v b =
     (if op = ''>'' then
        (if (case b_lower b of None \<Rightarrow> True | Some (lo, _) \<Rightarrow> f64_le lo v) then b\<lparr>b_lower := Some (v, True)\<rparr> else b)
      else if op = ''>='' then
        (if (case b_lower b of None \<Rightarrow> True | Some (lo, _) \<Rightarrow> f64_lt lo v) then b\<lparr>b_lower := Some (v, False)\<rparr> else b)
      else if op = ''<'' then
        (if (case b_upper b of None \<Rightarrow> True | Some (hi, _) \<Rightarrow> f64_le v hi) then b\<lparr>b_upper := Some (v, True)\<rparr> else b)
      else if op = ''<='' then
        (if (case b_upper b of None \<Rightarrow> True | Some (hi, _) \<Rightarrow> f64_lt v hi) then b\<lparr>b_upper := Some (v, False)\<rparr> else b)
      else b)"

definition optimizer_bounds_apply :: "num_env \<Rightarrow> opt_bounds \<Rightarrow> string8 \<Rightarrow> ir_node \<Rightarrow> column_type \<Rightarrow> opt_bounds \<times> bool" where
  "optimizer_bounds_apply env b op literal ty =
     (let is_equal_op = (op = ''='' \<or> op = ''=='') in
      if ty = ColString8 then
        if ir_type literal \<noteq> IrLiteral \<or> \<not> is_equal_op then (b, False)
        else if (case b_equal_string b of None \<Rightarrow> False | Some s \<Rightarrow> \<not> str8_match s (ir_value literal) match_exact)
        then (b, True)
        else (b\<lparr>b_equal_string := Some (ir_value literal)\<rparr>, False)
      else case optimizer_number_from_literal env literal of
        None \<Rightarrow> (b, False)
      | Some v \<Rightarrow>
          if is_equal_op \<and> (case b_equal b of None \<Rightarrow> False | Some e \<Rightarrow> \<not> f64_eq e v) then (b, True)
          else let b' = (if is_equal_op then b\<lparr>b_equal := Some v\<rparr> else apply_number op v b)
               in (b', optimizer_bounds_are_contradictory b'))"

text \<open>The column, the literal and the operator of a comparison, turned so that the column is on the
  left.\<close>

definition oriented :: "ir_node \<Rightarrow> (ir_node \<times> ir_node \<times> string8) option" where
  "oriented n =
     (if ir_type n \<noteq> IrOperator then None
      else case ir_children n of
        l # r # _ \<Rightarrow>
          if ir_type l \<noteq> IrColumn then Some (r, l, optimizer_flip_comparison (ir_value n))
          else Some (l, r, ir_value n)
      | _ \<Rightarrow> None)"

definition contradiction_step ::
  "num_env \<Rightarrow> scope \<Rightarrow> opt_step list \<Rightarrow> opt_conjunct \<Rightarrow> opt_bounds list \<Rightarrow> opt_bounds list \<times> bool" where
  "contradiction_step env sc steps c bs =
     (if \<not> cj_from_where c \<or> cj_unresolved c \<or> cj_dest c = Dest_Dropped \<or> optimizer_mask_popcount (cj_mask c) \<noteq> 1
      then (bs, False)
      else case oriented (cj_node c) of
        None \<Rightarrow> (bs, False)
      | Some (column, literal, op) \<Rightarrow>
          (case optimizer_column_operand sc column of
             None \<Rightarrow> (bs, False)
           | Some (i, col, ty) \<Rightarrow>
               if (i > 0 \<and> supplies_null steps i) \<or> \<not> comparable_pair ty literal then (bs, False)
               else case optimizer_find_bounds bs i col of
                 None \<Rightarrow> (bs, False)
               | Some (k, bs) \<Rightarrow>
                   let (b, bad) = optimizer_bounds_apply env (bs ! k) op literal ty in (bs[k := b], bad)))"

fun contradiction_loop :: "num_env \<Rightarrow> scope \<Rightarrow> opt_step list \<Rightarrow> opt_conjunct list \<Rightarrow> opt_bounds list \<Rightarrow> bool" where
  "contradiction_loop env sc steps [] bs = False"
| "contradiction_loop env sc steps (c # cs) bs =
     (let (bs, bad) = contradiction_step env sc steps c bs in
      if bad then True else contradiction_loop env sc steps cs bs)"

definition optimizer_detect_contradiction :: "num_env \<Rightarrow> scope \<Rightarrow> opt_step list \<Rightarrow> opt_conjunct list \<Rightarrow> bool" where
  "optimizer_detect_contradiction env sc steps cs = contradiction_loop env sc steps cs []"

section \<open>Folding is sound\<close>

definition comparison_ops :: "string8 list" where
  "comparison_ops = [''='', ''=='', ''!='', ''<'', ''<='', ''>'', ''>='']"

lemma comparison_ops_plain:
  assumes "op \<in> set comparison_ops"
  shows "\<not> is_op op ''and''" "\<not> is_op op ''or''" "\<not> is_op op ''is null''" "\<not> is_op op ''is not null''"
    "\<not> is_op op ''in''" "\<not> is_op op ''not in''" "\<not> str8_match op ''contains'' match_ci"
proof -
  have "list_all (\<lambda>op. \<not> is_op op ''and'' \<and> \<not> is_op op ''or'' \<and> \<not> is_op op ''is null'' \<and> \<not> is_op op ''is not null'' \<and>
    \<not> is_op op ''in'' \<and> \<not> is_op op ''not in'' \<and> \<not> str8_match op ''contains'' match_ci) comparison_ops"
    by code_simp
  with assms show "\<not> is_op op ''and''" "\<not> is_op op ''or''" "\<not> is_op op ''is null''" "\<not> is_op op ''is not null''"
    "\<not> is_op op ''in''" "\<not> is_op op ''not in''" "\<not> str8_match op ''contains'' match_ci"
    by (auto simp: list_all_iff)
qed

text \<open>A comparison with one of these operators, whose left operand is no function call.\<close>

lemma eval_comparison:
  assumes "op \<in> set comparison_ops" "ir_type l \<noteq> IrAggregateCall"
  shows "qe_row_condition_eval env sc row (IR_Node IrOperator op (l # r # rest)) \<longleftrightarrow>
    (case resolve_right env sc row l r of
       None \<Rightarrow> False
     | Some rv \<Rightarrow> compare_loaded op (qe_row_load_value env sc row l) rv)"
  using comparison_ops_plain [OF assms(1)] assms(2)
  by (simp add: eval_leaf_def qe_ir_is_fuzzy_call_def)

lemma compare_numbers_fold: "optimizer_compare_numbers op x y = Some res \<Longrightarrow> op \<in> set comparison_ops \<and> compare_numbers op x y = res"
  by (auto simp: optimizer_compare_numbers_def compare_numbers_def comparison_ops_def split: if_splits)

lemma fold_comparison_value:
  assumes "optimizer_fold_comparison env n = Some res"
  shows "qe_row_condition_eval env sc row n = res"
proof -
  from assms obtain op l r rest where n: "n = IR_Node IrOperator op (l # r # rest)"
    by (cases n) (auto simp: optimizer_fold_comparison_def split: if_splits list.splits)
  consider (numbers) "ir_type l = IrNumeric" "ir_type r = IrNumeric"
      "optimizer_compare_numbers op (f64_from_str8 env (ir_value l)) (f64_from_str8 env (ir_value r)) = Some res"
    | (strings) "ir_type l = IrLiteral" "ir_type r = IrLiteral" "op \<in> {''='', ''==''}" "res = (ir_value l = ir_value r)"
    | (unequal) "ir_type l = IrLiteral" "ir_type r = IrLiteral" "op = ''!=''" "res = (ir_value l \<noteq> ir_value r)"
    using assms n
    by (auto simp: optimizer_fold_comparison_def optimizer_number_from_literal_def Let_def split: if_splits)
  then show ?thesis
  proof cases
    case numbers
    then have "op \<in> set comparison_ops" using compare_numbers_fold by blast
    from eval_comparison [OF this, of l env sc row r rest] show ?thesis
      using numbers compare_numbers_fold [OF numbers(3)]
      by (simp add: n resolve_right_def qe_row_load_value_def compare_loaded_def del: qe_row_condition_eval.simps)
  next
    case strings
    then have op: "op \<in> set comparison_ops" by (auto simp: comparison_ops_def)
    from eval_comparison [OF this, of l env sc row r rest] show ?thesis
      using strings comparison_ops_plain(7) [OF op]
      by (auto simp: n resolve_right_def qe_row_load_value_def compare_loaded_def compare_strings_def Let_def
          simp del: qe_row_condition_eval.simps)
  next
    case unequal
    then have op: "op \<in> set comparison_ops" by (auto simp: comparison_ops_def)
    from eval_comparison [OF this, of l env sc row r rest] show ?thesis
      using unequal comparison_ops_plain(7) [OF op]
      by (auto simp: n resolve_right_def qe_row_load_value_def compare_loaded_def compare_strings_def Let_def
          simp del: qe_row_condition_eval.simps)
  qed
qed

lemma constant_false_eval: "optimizer_ir_is_constant_false env n \<Longrightarrow> \<not> qe_row_condition_eval env sc row n"
proof (induction n)
  case (IR_Node ty v cs)
  show ?case
  proof (cases "ty = IrOperator \<and> is_op v ''and''")
    case True
    then show ?thesis using IR_Node by (auto split: list.splits)
  next
    case False
    then have "optimizer_fold_comparison env (IR_Node ty v cs) = Some False" using IR_Node.prems by (auto split: if_splits)
    then show ?thesis by (rule fold_comparison_value [of _ _ False, simplified])
  qed
qed

section \<open>Values of columns\<close>

definition rel_value :: "scope \<Rightarrow> joined_row \<Rightarrow> nat \<Rightarrow> string8 \<Rightarrow> loaded" where
  "rel_value sc row i col =
     (case row ! i of
        None \<Rightarrow> L_null
      | Some j \<Rightarrow>
          (case cql_table_find_column (fst (sc ! i)) col of
             None \<Rightarrow> L_num (F64_num 0)
           | Some c \<Rightarrow> cell_value (column_ty (columns (fst (sc ! i)) ! c)) (table_rows (fst (sc ! i)) ! j ! c)))"

lemma column_operand:
  assumes "optimizer_column_operand sc n = Some (i, col, ty)"
  shows "ir_type n = IrColumn" "optimizer_resolve_column sc (ir_value n) = Some i" "col = qe_bare_column_name (ir_value n)"
    "i < length sc" "\<exists>c. cql_table_find_column (fst (sc ! i)) col = Some c \<and> ty = column_ty (columns (fst (sc ! i)) ! c)"
  using assms by (auto simp: optimizer_column_operand_def Let_def resolve_column_bound split: if_splits option.splits)

lemma load_operand:
  assumes ok: "names_ok sc" and op: "optimizer_column_operand sc n = Some (i, col, ty)"
  shows "qe_row_load_value env sc row n = rel_value sc row i col"
    and "map_option (column_at sc) (resolve_column sc (ir_value n)) \<noteq> None"
    and "\<forall>c. map_option (column_at sc) (resolve_column sc (ir_value n)) = Some c \<longrightarrow> column_ty c = ty"
proof -
  note c = column_operand [OF op]
  have r: "qe_resolve_column_table sc (ir_value n) = Some i"
    using resolve_in_prefix [OF ok c(2), of "length sc"] c(4) by simp
  show "qe_row_load_value env sc row n = rel_value sc row i col"
    using c(1,3) r by (simp add: qe_row_load_value_def load_column_def rel_value_def)
  show "map_option (column_at sc) (resolve_column sc (ir_value n)) \<noteq> None"
    and "\<forall>c. map_option (column_at sc) (resolve_column sc (ir_value n)) = Some c \<longrightarrow> column_ty c = ty"
    using c(3,5) r by (auto simp: resolve_column_def column_at_def)
qed

text \<open>The value of a column has the type of the column.\<close>

lemma rel_value_type:
  assumes "optimizer_column_operand sc n = Some (i, col, ty)" "rel_value sc row i col \<noteq> L_null"
  shows "if ty = ColString8 then \<exists>s. rel_value sc row i col = L_str s else \<exists>x. rel_value sc row i col = L_num x"
  using column_operand(5) [OF assms(1)] assms(2)
  by (auto simp: rel_value_def cell_value_def split: option.splits cell.splits)

lemma ci_columns:
  assumes "table_ok t" "cql_table_find_column t a = Some c" "cql_table_find_column t b = Some d" "ci_eq a b"
  shows "a = b"
proof -
  note f = find_column_name [OF assms(2)] find_column_name [OF assms(3)]
  have "\<not> c < d" "\<not> d < c" using assms(1,4) f ci_eq_sym unfolding table_ok_def by metis+
  then show ?thesis using f by auto
qed

section \<open>Contradictions are real\<close>

text \<open>What a comparison of a column with a constant says of the column's value.\<close>

definition value_satisfies :: "num_env \<Rightarrow> column_type \<Rightarrow> string8 \<Rightarrow> ir_node \<Rightarrow> loaded \<Rightarrow> bool" where
  "value_satisfies env ty op literal v \<longleftrightarrow>
     (if ty = ColString8 then \<exists>s. v = L_str s \<and> (op = ''='' \<or> op = ''=='' \<longrightarrow> s = ir_value literal)
      else \<exists>x. v = L_num x \<and> (op \<in> set comparison_ops \<longrightarrow> compare_numbers op x (f64_from_str8 env (ir_value literal))))"

lemma flip_ops: "optimizer_flip_comparison op \<in> set comparison_ops \<longleftrightarrow> op \<in> set comparison_ops"
  by (auto simp: optimizer_flip_comparison_def comparison_ops_def)

lemma f64_eq_sym: "f64_eq x y \<longleftrightarrow> f64_eq y x"
  by (auto simp: f64_eq_def)

lemma compare_flip: "op \<in> set comparison_ops \<Longrightarrow> compare_numbers (optimizer_flip_comparison op) x y = compare_numbers op y x"
  using f64_eq_sym [of x y] by (auto simp: comparison_ops_def compare_numbers_def optimizer_flip_comparison_def f64_le_def)

lemma flip_equal: "optimizer_flip_comparison op = ''='' \<longleftrightarrow> op = ''=''" "optimizer_flip_comparison op = ''=='' \<longleftrightarrow> op = ''==''"
  by (auto simp: optimizer_flip_comparison_def)

lemma comparable_resolve:
  assumes ok: "names_ok sc" and op: "optimizer_column_operand sc l = Some (i, col, ty)" and lit: "comparable_pair ty r"
  shows "resolve_right env sc row l r = Some (qe_row_load_value env sc row r)"
proof -
  obtain c where c: "map_option (column_at sc) (resolve_column sc (ir_value l)) = Some c" "column_ty c = ty"
    using load_operand(2,3) [OF ok op] by auto
  show ?thesis
    unfolding resolve_right_def column_operand(1) [OF op] if_True simp_thms c(1) option.case c(2)
    using lit by (auto simp: comparable_pair_def optimizer_column_type_is_comparable_number_def)
qed

lemma oriented_cases:
  assumes "oriented n = Some (column, literal, op)"
  shows "(\<exists>rest. n = IR_Node IrOperator op (column # literal # rest)) \<or>
    (\<exists>rest op'. n = IR_Node IrOperator op' (literal # column # rest) \<and> op = optimizer_flip_comparison op')"
proof (cases n)
  case (IR_Node ty v cs)
  with assms obtain l r rest where "ty = IrOperator" "cs = l # r # rest"
    by (auto simp: oriented_def split: if_splits list.splits)
  then show ?thesis using assms IR_Node by (auto simp: oriented_def split: if_splits)
qed

lemma oriented_satisfied:
  assumes ok: "names_ok sc" and n: "oriented n = Some (column, literal, op)"
    and c: "optimizer_column_operand sc column = Some (i, col, ty)" and lit: "comparable_pair ty literal"
    and op: "op \<in> set comparison_ops" and true: "qe_row_condition_eval env sc row n"
  shows "value_satisfies env ty op literal (rel_value sc row i col)"
proof -
  note colty = column_operand(1) [OF c]
  have litty: "ir_type literal = IrLiteral \<and> ty = ColString8 \<or> ir_type literal = IrNumeric \<and> ty \<noteq> ColString8"
    using lit by (auto simp: comparable_pair_def optimizer_column_type_is_comparable_number_def)
  have load: "qe_row_load_value env sc row literal =
      (if ty = ColString8 then L_str (ir_value literal) else L_num (f64_from_str8 env (ir_value literal)))"
    using litty by (auto simp: qe_row_load_value_def)
  consider (left) rest where "n = IR_Node IrOperator op (column # literal # rest)"
    | (right) rest op' where "n = IR_Node IrOperator op' (literal # column # rest)" "op = optimizer_flip_comparison op'"
    using oriented_cases [OF n] by blast
  then show ?thesis
  proof cases
    case left
    have "compare_loaded op (rel_value sc row i col) (qe_row_load_value env sc row literal)"
      using true eval_comparison [OF op, of column env sc row literal rest] comparable_resolve [OF ok c lit, of env row]
        load_operand(1) [OF ok c] colty
      by (simp add: left del: qe_row_condition_eval.simps)
    then have "rel_value sc row i col \<noteq> L_null \<and> (if ty = ColString8
        then compare_strings op (loaded_string (rel_value sc row i col)) (ir_value literal)
        else is_L_str (rel_value sc row i col) \<or> compare_numbers op (loaded_num (rel_value sc row i col)) (f64_from_str8 env (ir_value literal)))"
      by (auto simp: compare_loaded_def load split: if_splits)
    then show ?thesis
      using rel_value_type [OF c, of row] comparison_ops_plain(7) [OF op]
      by (auto simp: value_satisfies_def compare_strings_def Let_def split: if_splits)
  next
    case right
    then have op': "op' \<in> set comparison_ops" using op flip_ops by simp
    have "resolve_right env sc row literal column = Some (rel_value sc row i col)"
      using litty load_operand(1) [OF ok c] by (auto simp: resolve_right_def)
    then have "compare_loaded op' (qe_row_load_value env sc row literal) (rel_value sc row i col)"
      using true eval_comparison [OF op', of literal env sc row column rest] litty
      by (auto simp: right(1) simp del: qe_row_condition_eval.simps)
    then have "rel_value sc row i col \<noteq> L_null \<and> (if ty = ColString8
        then compare_strings op' (ir_value literal) (loaded_string (rel_value sc row i col))
        else is_L_str (rel_value sc row i col) \<or> compare_numbers op' (f64_from_str8 env (ir_value literal)) (loaded_num (rel_value sc row i col)))"
      by (auto simp: compare_loaded_def load split: if_splits)
    then show ?thesis
      using rel_value_type [OF c, of row] comparison_ops_plain(7) [OF op'] compare_flip [OF op'] flip_equal
      by (auto simp: value_satisfies_def compare_strings_def Let_def right(2) split: if_splits)
  qed
qed

text \<open>A value within the bounds.\<close>

definition bounds_hold :: "opt_bounds \<Rightarrow> loaded \<Rightarrow> bool" where
  "bounds_hold b v \<longleftrightarrow>
     (\<forall>lo strict. b_lower b = Some (lo, strict) \<longrightarrow> (\<exists>x. v = L_num x \<and> (if strict then f64_lt lo x else f64_le lo x))) \<and>
     (\<forall>hi strict. b_upper b = Some (hi, strict) \<longrightarrow> (\<exists>x. v = L_num x \<and> (if strict then f64_lt x hi else f64_le x hi))) \<and>
     (\<forall>e. b_equal b = Some e \<longrightarrow> (\<exists>x. v = L_num x \<and> f64_eq x e)) \<and>
     (\<forall>s. b_equal_string b = Some s \<longrightarrow> v = L_str s)"

lemma f64_order:
  "f64_lt x y \<Longrightarrow> f64_eq y z \<Longrightarrow> f64_lt x z" "f64_eq x y \<Longrightarrow> f64_lt y z \<Longrightarrow> f64_lt x z"
  by (auto simp: f64_eq_def)

lemma bounds_hold_consistent: "bounds_hold b v \<Longrightarrow> \<not> optimizer_bounds_are_contradictory b"
  unfolding bounds_hold_def optimizer_bounds_are_contradictory_def
  by (auto simp: f64_le_def f64_eq_def split: option.splits if_splits dest: f64_lt_trans f64_lt_asym)
    (metis f64_lt_asym f64_lt_trans f64_lt_irrefl)+

lemma apply_number_hold:
  assumes "bounds_hold b v" "v = L_num x" "op \<in> set comparison_ops \<Longrightarrow> compare_numbers op x y"
  shows "bounds_hold (apply_number op y b) v"
proof -
  have c: "op = ''>'' \<Longrightarrow> f64_lt y x" "op = ''>='' \<Longrightarrow> f64_le y x" "op = ''<'' \<Longrightarrow> f64_lt x y" "op = ''<='' \<Longrightarrow> f64_le x y"
    using assms(3) by (auto simp: comparison_ops_def compare_numbers_def)
  show ?thesis
    using assms(1,2) c unfolding apply_number_def bounds_hold_def by (auto split: if_splits)
qed

lemma bounds_apply_hold:
  assumes hold: "bounds_hold b v" and sat: "value_satisfies env ty op literal v"
    and ap: "optimizer_bounds_apply env b op literal ty = (b', bad)"
  shows "\<not> bad \<and> bounds_hold b' v"
proof (cases "ty = ColString8")
  case True
  then show ?thesis using assms
    by (auto simp: optimizer_bounds_apply_def Let_def value_satisfies_def bounds_hold_def split: if_splits option.splits)
next
  case False
  then obtain x where x: "v = L_num x" "op \<in> set comparison_ops \<Longrightarrow> compare_numbers op x (f64_from_str8 env (ir_value literal))"
    using sat by (auto simp: value_satisfies_def)
  show ?thesis
  proof (cases "optimizer_number_from_literal env literal")
    case None
    then show ?thesis using ap hold False by (simp add: optimizer_bounds_apply_def Let_def)
  next
    case (Some y)
    then have y: "y = f64_from_str8 env (ir_value literal)"
      by (auto simp: optimizer_number_from_literal_def split: if_splits)
    show ?thesis
    proof (cases "op = ''='' \<or> op = ''==''")
      case True
      then have eq: "f64_eq x y" using x(2) y by (auto simp: comparison_ops_def compare_numbers_def)
      have "f64_eq e y" if "b_equal b = Some e" for e using hold that eq x(1) by (auto simp: bounds_hold_def f64_eq_def)
      then have "(b', bad) = (b\<lparr>b_equal := Some y\<rparr>, optimizer_bounds_are_contradictory (b\<lparr>b_equal := Some y\<rparr>))"
        using ap True False Some by (auto simp: optimizer_bounds_apply_def Let_def split: option.splits if_splits)
      moreover have "bounds_hold (b\<lparr>b_equal := Some y\<rparr>) v" using hold eq x(1) by (auto simp: bounds_hold_def)
      ultimately show ?thesis using bounds_hold_consistent by auto
    next
      case other: False
      then have "(b', bad) = (apply_number op y b, optimizer_bounds_are_contradictory (apply_number op y b))"
        using ap False Some by (auto simp: optimizer_bounds_apply_def Let_def)
      then show ?thesis using apply_number_hold [OF hold x(1)] x(2) y bounds_hold_consistent by auto
    qed
  qed
qed

text \<open>All entries hold for the columns they are about.\<close>

definition all_bounds_hold :: "scope \<Rightarrow> joined_row \<Rightarrow> opt_bounds list \<Rightarrow> bool" where
  "all_bounds_hold sc row bs \<longleftrightarrow> (\<forall>b \<in> set bs. b_relation b < length sc \<and>
     cql_table_find_column (fst (sc ! b_relation b)) (b_column b) \<noteq> None \<and>
     bounds_hold b (rel_value sc row (b_relation b) (b_column b)))"

lemma find_bounds_hold:
  assumes ok: "names_ok sc" and bs: "all_bounds_hold sc row bs" and i: "i < length sc"
    and col: "cql_table_find_column (fst (sc ! i)) col = Some c" and f: "optimizer_find_bounds bs i col = Some (k, bs')"
  shows "all_bounds_hold sc row bs' \<and> k < length bs' \<and> b_relation (bs' ! k) = i \<and> b_column (bs' ! k) = col"
proof (cases "first_index (\<lambda>b. b_relation b = i \<and> str8_match (b_column b) col match_ci) bs")
  case None
  then have "k = length bs" "bs' = bs @ [fresh_bounds i col]"
    using f by (auto simp: optimizer_find_bounds_def split: if_splits)
  then show ?thesis using bs i col by (auto simp: all_bounds_hold_def fresh_bounds_def bounds_hold_def)
next
  case (Some m)
  then have k: "k = m" "bs' = bs" using f by (auto simp: optimizer_find_bounds_def)
  have m: "m < length bs" "b_relation (bs ! m) = i" "ci_eq (b_column (bs ! m)) col"
    using first_index_Some [OF Some] by (auto simp: match_ci_eq)
  then have "cql_table_find_column (fst (sc ! i)) (b_column (bs ! m)) \<noteq> None"
    using bs nth_mem [OF m(1)] by (auto simp: all_bounds_hold_def)
  moreover have "table_ok (fst (sc ! i))" using ok nth_mem [OF i] unfolding names_ok_def by blast
  ultimately have "b_column (bs ! m) = col" using ci_columns [OF _ _ col m(3)] by blast
  then show ?thesis using k m bs by simp
qed

lemma contradiction_step_hold:
  assumes ok: "names_ok sc" and bs: "all_bounds_hold sc row bs"
    and true: "cj_from_where c \<Longrightarrow> cj_dest c \<noteq> Dest_Dropped \<Longrightarrow> qe_row_condition_eval env sc row (cj_node c)"
    and step: "contradiction_step env sc steps c bs = (bs', bad)"
  shows "\<not> bad \<and> all_bounds_hold sc row bs'"
proof (cases "bs' = bs \<and> \<not> bad")
  case False
  then obtain column literal op i col ty k bs1 where
    eligible: "cj_from_where c" "cj_dest c \<noteq> Dest_Dropped" and
    o: "oriented (cj_node c) = Some (column, literal, op)" "optimizer_column_operand sc column = Some (i, col, ty)"
      "comparable_pair ty literal" and
    f: "optimizer_find_bounds bs i col = Some (k, bs1)" and
    ap: "(bs', bad) = (let (b, bad) = optimizer_bounds_apply env (bs1 ! k) op literal ty in (bs1[k := b], bad))"
    using step by (auto simp: contradiction_step_def split: if_splits option.splits)
  note c = column_operand [OF o(2)]
  from c(5) obtain cc where "cql_table_find_column (fst (sc ! i)) col = Some cc" by blast
  from find_bounds_hold [OF ok bs c(4) this f]
  have bs1: "all_bounds_hold sc row bs1" "k < length bs1" "b_relation (bs1 ! k) = i" "b_column (bs1 ! k) = col" by auto
  obtain b where b: "optimizer_bounds_apply env (bs1 ! k) op literal ty = (b, bad)" "bs' = bs1[k := b]"
    using ap by (auto split: prod.splits)
  have key: "b_relation b = i \<and> b_column b = col"
    using b(1) bs1(3,4) by (auto simp: optimizer_bounds_apply_def apply_number_def Let_def split: if_splits option.splits)
  have hold: "bounds_hold (bs1 ! k) (rel_value sc row i col)"
    using bs1 nth_mem [OF bs1(2)] by (auto simp: all_bounds_hold_def)
  have "\<not> bad \<and> bounds_hold b (rel_value sc row i col)"
  proof (cases "op \<in> set comparison_ops")
    case True
    from oriented_satisfied [OF ok o this true [OF eligible]] show ?thesis
      using bounds_apply_hold [OF hold _ b(1)] by blast
  next
    case False
    then have "op \<noteq> ''=''" "op \<noteq> ''==''" "apply_number op y b0 = b0" for y b0
      by (auto simp: comparison_ops_def apply_number_def)
    then have "b = bs1 ! k \<and> (bad \<longrightarrow> optimizer_bounds_are_contradictory (bs1 ! k))"
      using b(1) by (auto simp: optimizer_bounds_apply_def Let_def split: if_splits option.splits)
    then show ?thesis using hold bounds_hold_consistent [OF hold] by auto
  qed
  moreover have "\<forall>x \<in> set (bs1[k := b]). x = b \<or> x \<in> set bs1" using set_update_subset_insert by fastforce
  ultimately show ?thesis using bs1(1) key c(4) c(5) b(2) unfolding all_bounds_hold_def by fastforce
qed (use bs in simp)

lemma contradiction_loop_hold:
  assumes ok: "names_ok sc"
    and true: "\<And>c. c \<in> set cs \<Longrightarrow> cj_from_where c \<Longrightarrow> cj_dest c \<noteq> Dest_Dropped \<Longrightarrow> qe_row_condition_eval env sc row (cj_node c)"
    and bs: "all_bounds_hold sc row bs"
  shows "\<not> contradiction_loop env sc steps cs bs"
  using true bs
proof (induction cs arbitrary: bs)
  case (Cons c cs)
  obtain bs' bad where step: "contradiction_step env sc steps c bs = (bs', bad)" by force
  have "\<not> bad \<and> all_bounds_hold sc row bs'"
    using Cons.prems by (intro contradiction_step_hold [OF ok _ _ step]) auto
  then show ?case using Cons step by simp
qed simp

lemma detect_contradiction_sound:
  assumes "names_ok sc" "optimizer_detect_contradiction env sc steps cs"
  shows "\<exists>c \<in> set cs. cj_from_where c \<and> cj_dest c \<noteq> Dest_Dropped \<and> \<not> qe_row_condition_eval env sc row (cj_node c)"
  using contradiction_loop_hold [OF assms(1), of cs env row "[]" steps] assms(2)
  by (auto simp: optimizer_detect_contradiction_def all_bounds_hold_def)

end
