(* ===== verification/Opt_Propagate.thy ===== *)
theory Opt_Propagate
  imports Opt_Fold
begin

text \<open>
  Constant propagation across equality joins (\<open>optimizer_column_key_index\<close> to
  \<open>optimizer_propagate_constants\<close> of \<open>src/src/optimizer/optimizer.c\<close>): columns that
  join on equality form the classes of a union-find table, a constant one of them is compared with
  holds for all, and conflicting constants make the result empty.

  The table is a list of keys; a chain of parents is followed until it ends, which
  \<open>partial_function\<close> states without assuming that it does. The lemmas show that it always
  ends, that a conflict is only found where no row satisfies the conditions, and that every derived
  condition follows from them.
\<close>

section \<open>Keys\<close>

definition OPT_MAX_COLUMN_KEYS :: nat where "OPT_MAX_COLUMN_KEYS = OPT_MAX_CONJUNCTS * 2"

record opt_key =
  key_relation :: nat
  key_column :: string8
  key_parent :: nat
  key_constant :: "ir_node option"

definition key_matches :: "nat \<Rightarrow> string8 \<Rightarrow> opt_key \<Rightarrow> bool" where
  "key_matches i col k \<longleftrightarrow> key_relation k = i \<and> str8_match (key_column k) col match_ci"

definition optimizer_column_key_index :: "opt_key list \<Rightarrow> nat \<Rightarrow> string8 \<Rightarrow> nat option \<times> opt_key list" where
  "optimizer_column_key_index keys i col =
     (case first_index (key_matches i col) keys of
        Some k \<Rightarrow> (Some k, keys)
      | None \<Rightarrow>
          if length keys \<ge> OPT_MAX_COLUMN_KEYS then (None, keys)
          else (Some (length keys),
            keys @ [\<lparr>key_relation = i, key_column = col, key_parent = length keys, key_constant = None\<rparr>]))"

partial_function (option) optimizer_column_key_root :: "opt_key list \<Rightarrow> nat \<Rightarrow> nat option" where
  "optimizer_column_key_root keys k =
     (if key_parent (keys ! k) = k then Some k else optimizer_column_key_root keys (key_parent (keys ! k)))"

section \<open>Equalities\<close>

definition is_equality :: "ir_node \<Rightarrow> bool" where
  "is_equality n \<longleftrightarrow> optimizer_ir_is_operator (Some n) ''='' \<or> optimizer_ir_is_operator (Some n) ''==''"

definition fixed_relation :: "opt_step list \<Rightarrow> nat \<Rightarrow> bool" where
  "fixed_relation steps i \<longleftrightarrow> \<not> (i > 0 \<and> supplies_null steps i)"

text \<open>The columns of an equality between two relations that both always have a row.\<close>

definition optimizer_equality_is_join_key ::
  "scope \<Rightarrow> opt_step list \<Rightarrow> opt_conjunct \<Rightarrow> ((nat \<times> string8) \<times> (nat \<times> string8)) option" where
  "optimizer_equality_is_join_key sc steps c =
     (if cj_unresolved c \<or> cj_dest c = Dest_Dropped then None
      else if \<not> cj_from_where c \<and> supplies_null steps (cj_step c) then None
      else if \<not> is_equality (cj_node c) then None
      else case ir_children (cj_node c) of
        l # r # _ \<Rightarrow>
          (case (optimizer_column_operand sc l, optimizer_column_operand sc r) of
             (Some (li, lc, lt), Some (ri, rc, rt)) \<Rightarrow>
               if li = ri \<or> \<not> fixed_relation steps li \<or> \<not> fixed_relation steps ri then None
               else if (optimizer_column_type_is_comparable_number lt \<and> optimizer_column_type_is_comparable_number rt) \<or>
                       (lt = ColString8 \<and> rt = ColString8)
               then Some ((li, lc), (ri, rc))
               else None
           | _ \<Rightarrow> None)
      | _ \<Rightarrow> None)"

text \<open>The column and the literal of a comparison of a column with a constant.\<close>

definition optimizer_constant_equality :: "scope \<Rightarrow> opt_step list \<Rightarrow> opt_conjunct \<Rightarrow> (nat \<times> string8 \<times> ir_node) option" where
  "optimizer_constant_equality sc steps c =
     (if \<not> cj_from_where c \<or> cj_unresolved c \<or> cj_dest c = Dest_Dropped then None
      else if \<not> is_equality (cj_node c) then None
      else case ir_children (cj_node c) of
        l # r # _ \<Rightarrow>
          let (column, literal) = (if ir_type l \<noteq> IrColumn then (r, l) else (l, r)) in
          (case optimizer_column_operand sc column of
             Some (i, col, ty) \<Rightarrow>
               if fixed_relation steps i \<and> comparable_pair ty literal then Some (i, col, literal) else None
           | None \<Rightarrow> None)
      | _ \<Rightarrow> None)"

definition optimizer_constants_conflict :: "num_env \<Rightarrow> ir_node \<Rightarrow> ir_node \<Rightarrow> bool" where
  "optimizer_constants_conflict env a b =
     (if ir_type a \<noteq> ir_type b then False
      else if ir_type a = IrNumeric then \<not> f64_eq (f64_from_str8 env (ir_value a)) (f64_from_str8 env (ir_value b))
      else if ir_type a = IrLiteral then \<not> str8_match (ir_value a) (ir_value b) match_exact
      else False)"

section \<open>The passes\<close>

text \<open>The classes: a conjunct that is a join key links the keys of its two columns.\<close>

definition link_keys :: "scope \<Rightarrow> opt_step list \<Rightarrow> opt_conjunct \<Rightarrow> opt_key list \<Rightarrow> opt_key list option" where
  "link_keys sc steps c keys =
     (case optimizer_equality_is_join_key sc steps c of
        None \<Rightarrow> Some keys
      | Some ((li, lc), (ri, rc)) \<Rightarrow>
          let (lk, keys) = optimizer_column_key_index keys li lc;
              (rk, keys) = optimizer_column_key_index keys ri rc
          in case (lk, rk) of
               (Some l, Some r) \<Rightarrow>
                 (case (optimizer_column_key_root keys l, optimizer_column_key_root keys r) of
                    (Some a, Some b) \<Rightarrow> Some (if a \<noteq> b then keys[b := (keys ! b)\<lparr>key_parent := a\<rparr>] else keys)
                  | _ \<Rightarrow> None)
             | _ \<Rightarrow> Some keys)"

fun link_all :: "scope \<Rightarrow> opt_step list \<Rightarrow> opt_conjunct list \<Rightarrow> opt_key list \<Rightarrow> opt_key list option" where
  "link_all sc steps [] keys = Some keys"
| "link_all sc steps (c # cs) keys =
     (case link_keys sc steps c keys of None \<Rightarrow> None | Some keys \<Rightarrow> link_all sc steps cs keys)"

definition pin_constant :: "scope \<Rightarrow> opt_step list \<Rightarrow> opt_conjunct \<Rightarrow> opt_key list \<Rightarrow> opt_key list" where
  "pin_constant sc steps c keys =
     (case optimizer_constant_equality sc steps c of
        None \<Rightarrow> keys
      | Some (i, col, literal) \<Rightarrow>
          map (\<lambda>k. if key_matches i col k \<and> key_constant k = None then k\<lparr>key_constant := Some literal\<rparr> else k) keys)"

text \<open>The first constant of every class, at the position of its root.\<close>

definition class_step :: "opt_key list \<Rightarrow> nat list \<Rightarrow> nat \<Rightarrow> ir_node option list \<Rightarrow> ir_node option list" where
  "class_step keys rs k classes =
     (case key_constant (keys ! k) of
        Some c \<Rightarrow> if classes ! (rs ! k) = None then classes[rs ! k := Some c] else classes
      | None \<Rightarrow> classes)"

definition class_constants :: "opt_key list \<Rightarrow> nat list \<Rightarrow> ir_node option list" where
  "class_constants keys rs = fold (class_step keys rs) [0..<length keys] (replicate (length keys) None)"

definition derived_conjunct :: "scope \<Rightarrow> nat \<Rightarrow> string8 \<Rightarrow> ir_node \<Rightarrow> opt_conjunct" where
  "derived_conjunct sc i col literal =
     \<lparr>cj_node = ir_node_add_child (ir_node_add_child (ir_node_make IrOperator ''='')
        (ir_node_make IrColumn (scope_name (sc ! i) @ ''.'' @ col))) (optimizer_ir_clone literal),
      cj_mask = push_bit i 1, cj_unresolved = False, cj_from_where = True, cj_step = 0,
      cj_dest = Dest_Residual, cj_target = 0\<rparr>"

definition derived_for :: "scope \<Rightarrow> opt_key \<Rightarrow> ir_node \<Rightarrow> opt_conjunct list" where
  "derived_for sc k literal =
     (case cql_table_find_column (fst (sc ! key_relation k)) (key_column k) of
        None \<Rightarrow> []
      | Some p \<Rightarrow>
          if comparable_pair (column_ty (columns (fst (sc ! key_relation k)) ! p)) literal
          then [derived_conjunct sc (key_relation k) (key_column k) literal]
          else [])"

text \<open>The last loop, over the keys \<open>ks\<close> still to visit; it ends when there is no room.\<close>

fun derive_constants :: "scope \<Rightarrow> opt_key list \<Rightarrow> nat list \<Rightarrow> ir_node option list \<Rightarrow> nat list \<Rightarrow> opt_conjunct list \<Rightarrow> opt_conjunct list" where
  "derive_constants sc keys rs classes [] cs = cs"
| "derive_constants sc keys rs classes (k # ks) cs =
     (case (key_constant (keys ! k), classes ! (rs ! k)) of
        (None, Some literal) \<Rightarrow>
          if length cs \<ge> OPT_MAX_CONJUNCTS then cs
          else derive_constants sc keys rs classes ks (cs @ derived_for sc (keys ! k) literal)
      | _ \<Rightarrow> derive_constants sc keys rs classes ks cs)"

text \<open>The conjuncts with the derived ones, and whether constants conflict; \<open>None\<close> would be
  a chain of parents without an end.\<close>

definition optimizer_propagate_constants ::
  "num_env \<Rightarrow> scope \<Rightarrow> opt_step list \<Rightarrow> opt_conjunct list \<Rightarrow> (opt_conjunct list \<times> bool) option" where
  "optimizer_propagate_constants env sc steps cs =
     (case link_all sc steps cs [] of
        None \<Rightarrow> None
      | Some keys \<Rightarrow>
          if keys = [] then Some (cs, False)
          else
            let keys = fold (pin_constant sc steps) cs keys in
            (case those (map (optimizer_column_key_root keys) [0..<length keys]) of
               None \<Rightarrow> None
             | Some rs \<Rightarrow>
                 let classes = class_constants keys rs;
                     conflict = list_ex (\<lambda>k. case (key_constant (keys ! k), classes ! (rs ! k)) of
                         (Some a, Some b) \<Rightarrow> optimizer_constants_conflict env a b
                       | _ \<Rightarrow> False) [0..<length keys]
                 in Some (derive_constants sc keys rs classes [0..<length keys] cs, conflict)))"

section \<open>Chains of parents end\<close>

inductive rooted :: "opt_key list \<Rightarrow> nat \<Rightarrow> nat \<Rightarrow> bool" for keys where
  here: "key_parent (keys ! k) = k \<Longrightarrow> rooted keys k k"
| up: "key_parent (keys ! k) = p \<Longrightarrow> p \<noteq> k \<Longrightarrow> rooted keys p r \<Longrightarrow> rooted keys k r"

definition forest :: "opt_key list \<Rightarrow> bool" where
  "forest keys \<longleftrightarrow> (\<forall>k < length keys. key_parent (keys ! k) < length keys \<and> (\<exists>r. rooted keys k r))"

lemma rooted_root: "rooted keys k r \<Longrightarrow> optimizer_column_key_root keys k = Some r"
  by (induction rule: rooted.induct) (subst optimizer_column_key_root.simps, simp)+

lemma rooted_end: "rooted keys k r \<Longrightarrow> key_parent (keys ! r) = r"
  by (induction rule: rooted.induct)

lemma rooted_bound: "rooted keys k r \<Longrightarrow> forest keys \<Longrightarrow> k < length keys \<Longrightarrow> r < length keys"
  by (induction rule: rooted.induct) (auto simp: forest_def)

lemma rooted_cong:
  assumes "rooted keys k r" "\<And>k. k < length keys \<Longrightarrow> key_parent (keys' ! k) = key_parent (keys ! k)"
    and "forest keys" "k < length keys"
  shows "rooted keys' k r"
  using assms(1,4)
proof (induction rule: rooted.induct)
  case (up k p r)
  then have "p < length keys" using assms(3) by (auto simp: forest_def)
  then show ?case using up assms(2) [of k] by (auto intro: rooted.up)
qed (use assms(2) in \<open>auto intro: rooted.here\<close>)

lemma root_forest: "forest keys \<Longrightarrow> k < length keys \<Longrightarrow> \<exists>r < length keys. rooted keys k r \<and> optimizer_column_key_root keys k = Some r"
  using rooted_root rooted_bound unfolding forest_def by blast

lemma forest_push:
  assumes "forest keys" "key_parent x = length keys"
  shows "forest (keys @ [x])"
proof -
  have "\<exists>r. rooted (keys @ [x]) k r" if "k < length keys" for k
    using assms(1) that rooted_cong [of keys k _ "keys @ [x]"] unfolding forest_def by (metis nth_append)
  moreover have "rooted (keys @ [x]) (length keys) (length keys)" using assms(2) by (intro rooted.here) simp
  ultimately show ?thesis using assms by (auto simp: forest_def nth_append less_Suc_eq)
qed

lemma rooted_link:
  assumes "rooted keys k r" "key_parent (keys ! a) = a" "key_parent (keys ! b) = b" "a \<noteq> b" "b < length keys"
  shows "rooted (keys[b := (keys ! b)\<lparr>key_parent := a\<rparr>]) k (if r = b then a else r)"
  using assms(1)
proof (induction rule: rooted.induct)
  case (here k)
  have "rooted (keys[b := (keys ! b)\<lparr>key_parent := a\<rparr>]) a a" using assms by (intro rooted.here) simp
  then show ?case using here assms by (cases "k = b") (auto intro: rooted.here rooted.up)
next
  case (up k p r)
  then have "k \<noteq> b" using assms(3) by auto
  then show ?case using up by (auto intro: rooted.up)
qed

lemma forest_link:
  assumes "forest keys" "key_parent (keys ! a) = a" "key_parent (keys ! b) = b" "a \<noteq> b" "a < length keys" "b < length keys"
  shows "forest (keys[b := (keys ! b)\<lparr>key_parent := a\<rparr>])"
proof -
  let ?keys = "keys[b := (keys ! b)\<lparr>key_parent := a\<rparr>]"
  have "key_parent (?keys ! k) < length ?keys \<and> (\<exists>r. rooted ?keys k r)" if k: "k < length keys" for k
  proof -
    obtain r where "rooted keys k r" using assms(1) k unfolding forest_def by blast
    from rooted_link [OF this assms(2,3,4,6)] have "\<exists>r. rooted ?keys k r" by blast
    moreover have "key_parent (keys ! k) < length keys" using assms(1) k unfolding forest_def by blast
    then have "key_parent (?keys ! k) < length ?keys" using assms(5) k by (cases "k = b") simp_all
    ultimately show ?thesis by blast
  qed
  then show ?thesis unfolding forest_def by simp
qed

lemma column_key_index_cases:
  assumes "optimizer_column_key_index keys i col = (found, keys')"
  obtains (old) k where "found = Some k" "keys' = keys" "k < length keys" "key_matches i col (keys ! k)"
    | (new) x where "found = Some (length keys)" "keys' = keys @ [x]"
        "x = \<lparr>key_relation = i, key_column = col, key_parent = length keys, key_constant = None\<rparr>"
    | (full) "found = None" "keys' = keys"
proof (cases "first_index (key_matches i col) keys")
  case None
  show ?thesis
  proof (cases "length keys \<ge> OPT_MAX_COLUMN_KEYS")
    case True
    then have "found = None" "keys' = keys" using assms None by (simp_all add: optimizer_column_key_index_def)
    then show ?thesis by (rule that(3))
  next
    case False
    then have "found = Some (length keys)"
      "keys' = keys @ [\<lparr>key_relation = i, key_column = col, key_parent = length keys, key_constant = None\<rparr>]"
      using assms None by (auto simp: optimizer_column_key_index_def)
    then show ?thesis by (rule that(2)) simp
  qed
next
  case (Some k)
  then show ?thesis using assms that(1) [of k] first_index_Some [OF Some] by (simp add: optimizer_column_key_index_def)
qed

lemma column_key_index_forest:
  assumes "forest keys" "optimizer_column_key_index keys i col = (found, keys')"
  shows "forest keys' \<and> length keys \<le> length keys' \<and> (\<forall>k. found = Some k \<longrightarrow> k < length keys')"
  using assms(2) by (cases rule: column_key_index_cases) (use assms(1) forest_push in auto)

lemma link_keys_forest:
  assumes "forest keys"
  shows "\<exists>keys'. link_keys sc steps c keys = Some keys' \<and> forest keys'"
proof (cases "optimizer_equality_is_join_key sc steps c")
  case (Some jk)
  obtain li lc ri rc where jk: "jk = ((li, lc), (ri, rc))" by (metis prod.exhaust)
  obtain lk keys1 where l: "optimizer_column_key_index keys li lc = (lk, keys1)" by force
  obtain rk keys2 where r: "optimizer_column_key_index keys1 ri rc = (rk, keys2)" by force
  note f1 = column_key_index_forest [OF assms l]
  then have f2: "forest keys2" "length keys1 \<le> length keys2" "\<forall>k. rk = Some k \<longrightarrow> k < length keys2"
    using column_key_index_forest [OF _ r] by auto
  show ?thesis
  proof (cases "\<exists>a b. lk = Some a \<and> rk = Some b")
    case True
    then obtain k1 k2 where k: "lk = Some k1" "rk = Some k2" by blast
    then have bound: "k1 < length keys2" "k2 < length keys2" using f1 f2 by auto
    obtain a where a: "a < length keys2" "rooted keys2 k1 a" "optimizer_column_key_root keys2 k1 = Some a"
      using root_forest [OF f2(1) bound(1)] by blast
    obtain b where b: "b < length keys2" "rooted keys2 k2 b" "optimizer_column_key_root keys2 k2 = Some b"
      using root_forest [OF f2(1) bound(2)] by blast
    have "link_keys sc steps c keys = Some (if a \<noteq> b then keys2[b := (keys2 ! b)\<lparr>key_parent := a\<rparr>] else keys2)"
      using Some jk l r k a b by (simp add: link_keys_def)
    moreover have "forest (if a \<noteq> b then keys2[b := (keys2 ! b)\<lparr>key_parent := a\<rparr>] else keys2)"
      using forest_link [OF f2(1) rooted_end [OF a(2)] rooted_end [OF b(2)] _ a(1) b(1)] f2(1) by simp
    ultimately show ?thesis by blast
  qed (use Some jk l r f2 in \<open>auto simp: link_keys_def split: option.splits\<close>)
qed (use assms in \<open>simp add: link_keys_def\<close>)

lemma link_all_forest: "forest keys \<Longrightarrow> \<exists>keys'. link_all sc steps cs keys = Some keys' \<and> forest keys'"
proof (induction cs arbitrary: keys)
  case (Cons c cs)
  then show ?case using link_keys_forest [OF Cons.prems, of sc steps c] by auto
qed auto

lemma pin_constant_nth:
  assumes "k < length keys"
  shows "pin_constant sc steps c keys ! k =
    (case optimizer_constant_equality sc steps c of
       Some (i, col, literal) \<Rightarrow>
         if key_matches i col (keys ! k) \<and> key_constant (keys ! k) = None then (keys ! k)\<lparr>key_constant := Some literal\<rparr> else keys ! k
     | None \<Rightarrow> keys ! k)"
  using assms by (auto simp: pin_constant_def split: option.splits)

lemma pin_constant_length [simp]: "length (pin_constant sc steps c keys) = length keys"
  by (auto simp: pin_constant_def split: option.splits)

lemma pin_constant_forest: "forest keys \<Longrightarrow> forest (pin_constant sc steps c keys)"
proof -
  assume f: "forest keys"
  have same: "key_parent (pin_constant sc steps c keys ! k) = key_parent (keys ! k)" if "k < length keys" for k
    using that by (simp add: pin_constant_nth split: option.splits)
  then have "\<exists>r. rooted (pin_constant sc steps c keys) k r" if "k < length keys" for k
    using f that rooted_cong [of keys k _ "pin_constant sc steps c keys"] unfolding forest_def by blast
  then show ?thesis using f same by (auto simp: forest_def)
qed

lemma pin_all_forest: "forest keys \<Longrightarrow> forest (fold (pin_constant sc steps) cs keys)"
  by (induction cs arbitrary: keys) (auto intro: pin_constant_forest)

lemma pin_all_length [simp]: "length (fold (pin_constant sc steps) cs keys) = length keys"
  by (induction cs arbitrary: keys) auto

lemma those_map_Some: "(\<And>x. x \<in> set xs \<Longrightarrow> f x = Some (g x)) \<Longrightarrow> those (map f xs) = Some (map g xs)"
  by (induction xs) auto

lemma roots_forest:
  assumes "forest keys"
  obtains g where "those (map (optimizer_column_key_root keys) [0..<length keys]) = Some (map g [0..<length keys])"
    "\<And>k. k < length keys \<Longrightarrow> rooted keys k (g k) \<and> g k < length keys"
proof -
  define g where "g k = the (optimizer_column_key_root keys k)" for k
  have g: "optimizer_column_key_root keys k = Some (g k) \<and> rooted keys k (g k) \<and> g k < length keys" if "k < length keys" for k
    using root_forest [OF assms that] by (auto simp: g_def)
  then show ?thesis by (intro that [of g] those_map_Some) auto
qed

definition constants_clash :: "num_env \<Rightarrow> opt_key list \<Rightarrow> nat list \<Rightarrow> bool" where
  "constants_clash env keys rs \<longleftrightarrow>
     list_ex (\<lambda>k. case (key_constant (keys ! k), class_constants keys rs ! (rs ! k)) of
         (Some a, Some b) \<Rightarrow> optimizer_constants_conflict env a b
       | _ \<Rightarrow> False) [0..<length keys]"

lemma propagate_cases:
  obtains (nothing) "optimizer_propagate_constants env sc steps cs = Some (cs, False)"
    | (keys) keys0 keys g where "link_all sc steps cs [] = Some keys0" "keys = fold (pin_constant sc steps) cs keys0"
      "forest keys" "\<And>k. k < length keys \<Longrightarrow> rooted keys k (g k) \<and> g k < length keys"
      "optimizer_propagate_constants env sc steps cs =
         Some (derive_constants sc keys (map g [0..<length keys]) (class_constants keys (map g [0..<length keys])) [0..<length keys] cs,
           constants_clash env keys (map g [0..<length keys]))"
proof -
  obtain keys0 where keys0: "link_all sc steps cs [] = Some keys0" "forest keys0"
    using link_all_forest [of "[]" sc steps cs] by (auto simp: forest_def)
  show ?thesis
  proof (cases "keys0 = []")
    case True
    then have "optimizer_propagate_constants env sc steps cs = Some (cs, False)"
      using keys0 by (simp add: optimizer_propagate_constants_def)
    then show ?thesis by (rule that(1))
  next
    case False
    define keys where "keys = fold (pin_constant sc steps) cs keys0"
    have f: "forest keys" unfolding keys_def by (rule pin_all_forest [OF keys0(2)])
    obtain g where g: "those (map (optimizer_column_key_root keys) [0..<length keys]) = Some (map g [0..<length keys])"
      "\<And>k. k < length keys \<Longrightarrow> rooted keys k (g k) \<and> g k < length keys" by (rule roots_forest [OF f]) blast
    show ?thesis
      by (rule that(2) [OF keys0(1) keys_def f g(2)], assumption)
        (simp add: optimizer_propagate_constants_def keys0(1) False g(1) constants_clash_def Let_def flip: keys_def)
  qed
qed

lemma propagate_total: "\<exists>res. optimizer_propagate_constants env sc steps cs = Some res"
  by (rule propagate_cases [of env sc steps cs]) auto

section \<open>What the conditions say about the keys\<close>

definition pinned :: "num_env \<Rightarrow> ir_node \<Rightarrow> loaded \<Rightarrow> bool" where
  "pinned env c v \<longleftrightarrow>
     (ir_type c = IrLiteral \<and> v = L_str (ir_value c)) \<or>
     (ir_type c = IrNumeric \<and> v = L_num (f64_from_str8 env (ir_value c)) \<and> f64_from_str8 env (ir_value c) \<noteq> F64_nan)"

definition key_val :: "scope \<Rightarrow> joined_row \<Rightarrow> opt_key \<Rightarrow> loaded" where
  "key_val sc row k = rel_value sc row (key_relation k) (key_column k)"

definition column_in :: "scope \<Rightarrow> nat \<Rightarrow> string8 \<Rightarrow> bool" where
  "column_in sc i col \<longleftrightarrow> i < length sc \<and> cql_table_find_column (fst (sc ! i)) col \<noteq> None"

definition keys_hold :: "num_env \<Rightarrow> scope \<Rightarrow> joined_row \<Rightarrow> opt_key list \<Rightarrow> bool" where
  "keys_hold env sc row keys \<longleftrightarrow> (\<forall>k < length keys.
     column_in sc (key_relation (keys ! k)) (key_column (keys ! k)) \<and>
     key_val sc row (keys ! key_parent (keys ! k)) = key_val sc row (keys ! k) \<and>
     (\<forall>c. key_constant (keys ! k) = Some c \<longrightarrow> pinned env c (key_val sc row (keys ! k))))"

text \<open>A condition that the rows of the result satisfy: one of the WHERE clause or of an inner
  join.\<close>

definition holds_on :: "num_env \<Rightarrow> scope \<Rightarrow> opt_step list \<Rightarrow> joined_row \<Rightarrow> opt_conjunct \<Rightarrow> bool" where
  "holds_on env sc steps row c \<longleftrightarrow>
     (\<not> cj_unresolved c \<and> cj_dest c \<noteq> Dest_Dropped \<and> (cj_from_where c \<or> \<not> supplies_null steps (cj_step c)) \<longrightarrow>
      qe_row_condition_eval env sc row (cj_node c))"

lemma equality_op: "is_equality n \<Longrightarrow> ir_type n = IrOperator \<and> (ir_value n = ''='' \<or> ir_value n = ''=='')"
proof -
  have up: "c = CHR ''=''" if c: "char_to_upper c = CHR ''=''" for c
  proof (rule ccontr)
    assume "c \<noteq> CHR ''=''"
    then have l: "char_is_lower c" and "byte_chr (byte c - 32) = CHR ''=''"
      using c by (auto simp: char_to_upper_def split: if_splits)
    then have "byte (byte_chr (byte c - 32) :: char) = byte (CHR ''='')" by simp
    then show False using l by (auto simp: char_is_lower_def)
  qed
  assume "is_equality n"
  then have "ir_type n = IrOperator" "map char_to_upper (ir_value n) = map char_to_upper ''='' \<or>
      map char_to_upper (ir_value n) = map char_to_upper ''==''"
    by (auto simp: is_equality_def optimizer_ir_is_operator_def match_ci_eq ci_eq_def split: if_splits)
  moreover have "char_to_upper (CHR ''='') = CHR ''=''" by code_simp
  ultimately show ?thesis using up by auto
qed

lemma join_key_cases:
  assumes "optimizer_equality_is_join_key sc steps c = Some ((li, lc), (ri, rc))"
  obtains l r rest lt rt where "is_equality (cj_node c)" "ir_children (cj_node c) = l # r # rest"
    "optimizer_column_operand sc l = Some (li, lc, lt)" "optimizer_column_operand sc r = Some (ri, rc, rt)"
    "(optimizer_column_type_is_comparable_number lt \<and> optimizer_column_type_is_comparable_number rt) \<or>
       (lt = ColString8 \<and> rt = ColString8)"
    "\<not> cj_unresolved c \<and> cj_dest c \<noteq> Dest_Dropped \<and> (cj_from_where c \<or> \<not> supplies_null steps (cj_step c))"
  using assms by (auto simp: optimizer_equality_is_join_key_def split: if_splits list.splits option.splits)

lemma operand_column_in: "optimizer_column_operand sc n = Some (i, col, ty) \<Longrightarrow> column_in sc i col"
  using column_operand(4,5) by (fastforce simp: column_in_def)

lemma join_key_equal:
  assumes ok: "names_ok sc" and jk: "optimizer_equality_is_join_key sc steps c = Some ((li, lc), (ri, rc))"
    and true: "holds_on env sc steps row c"
  shows "column_in sc li lc" "column_in sc ri rc" "rel_value sc row li lc = rel_value sc row ri rc"
proof -
  from jk obtain l r rest lt rt where
    node: "is_equality (cj_node c)" "ir_children (cj_node c) = l # r # rest" and
    ops: "optimizer_column_operand sc l = Some (li, lc, lt)" "optimizer_column_operand sc r = Some (ri, rc, rt)" and
    types: "(optimizer_column_type_is_comparable_number lt \<and> optimizer_column_type_is_comparable_number rt) \<or>
       (lt = ColString8 \<and> rt = ColString8)" and
    live: "\<not> cj_unresolved c \<and> cj_dest c \<noteq> Dest_Dropped \<and> (cj_from_where c \<or> \<not> supplies_null steps (cj_step c))"
    by (rule join_key_cases)
  obtain op where n: "cj_node c = IR_Node IrOperator op (l # r # rest)" "op = ''='' \<or> op = ''==''"
    using equality_op [OF node(1)] node(2) by (cases "cj_node c") auto
  then have op: "op \<in> set comparison_ops" by (auto simp: comparison_ops_def)
  have "resolve_right env sc row l r = Some (rel_value sc row ri rc)"
    using load_operand(1) [OF ok ops(2)] column_operand(1) [OF ops(2)] by (auto simp: resolve_right_def split: option.splits)
  moreover have "qe_row_condition_eval env sc row (cj_node c)" using true live by (simp add: holds_on_def)
  ultimately have cmp: "compare_loaded op (rel_value sc row li lc) (rel_value sc row ri rc)"
    using eval_comparison [OF op, of l env sc row r rest] load_operand(1) [OF ok ops(1)] column_operand(1) [OF ops(1)]
    by (simp add: n(1) del: qe_row_condition_eval.simps)
  then have nonnull: "rel_value sc row li lc \<noteq> L_null" "rel_value sc row ri rc \<noteq> L_null"
    by (auto simp: compare_loaded_def split: if_splits)
  show "column_in sc li lc" "column_in sc ri rc"
    by (rule operand_column_in [OF ops(1)], rule operand_column_in [OF ops(2)])
  show "rel_value sc row li lc = rel_value sc row ri rc"
  proof (cases "lt = ColString8")
    case True
    then have "rt = ColString8" using types by (auto simp: optimizer_column_type_is_comparable_number_def)
    then obtain s t where "rel_value sc row li lc = L_str s" "rel_value sc row ri rc = L_str t"
      using True rel_value_type [OF ops(1) nonnull(1)] rel_value_type [OF ops(2) nonnull(2)] by auto
    then show ?thesis using cmp n(2) comparison_ops_plain(7) [OF op]
      by (auto simp: compare_loaded_def compare_strings_def Let_def)
  next
    case False
    then have "rt \<noteq> ColString8" using types by (auto simp: optimizer_column_type_is_comparable_number_def)
    then obtain x y where "rel_value sc row li lc = L_num x" "rel_value sc row ri rc = L_num y"
      using False rel_value_type [OF ops(1) nonnull(1)] rel_value_type [OF ops(2) nonnull(2)] by auto
    then show ?thesis using cmp n(2) by (auto simp: compare_loaded_def compare_numbers_def f64_eq_def)
  qed
qed

lemma constant_pinned:
  assumes ok: "names_ok sc" and ce: "optimizer_constant_equality sc steps c = Some (i, col, literal)"
    and true: "holds_on env sc steps row c"
  shows "pinned env literal (rel_value sc row i col)"
proof -
  from ce obtain l r rest column ty where
    node: "is_equality (cj_node c)" "ir_children (cj_node c) = l # r # rest" and
    side: "(column, literal) = (if ir_type l \<noteq> IrColumn then (r, l) else (l, r))" and
    op: "optimizer_column_operand sc column = Some (i, col, ty)" and lit: "comparable_pair ty literal" and
    live: "cj_from_where c" "cj_dest c \<noteq> Dest_Dropped" "\<not> cj_unresolved c"
    by (auto simp: optimizer_constant_equality_def Let_def split: if_splits list.splits option.splits)
  note eq = equality_op [OF node(1)]
  then have "optimizer_flip_comparison (ir_value (cj_node c)) = ir_value (cj_node c)"
    by (auto simp: optimizer_flip_comparison_def)
  then have o: "oriented (cj_node c) = Some (column, literal, ir_value (cj_node c))"
    using node(2) eq side by (auto simp: oriented_def split: if_splits)
  have "ir_value (cj_node c) \<in> set comparison_ops" using eq by (auto simp: comparison_ops_def)
  from oriented_satisfied [OF ok o op lit this] have "value_satisfies env ty (ir_value (cj_node c)) literal (rel_value sc row i col)"
    using true live by (simp add: holds_on_def)
  then show ?thesis
    using eq lit by (auto simp: value_satisfies_def pinned_def comparable_pair_def comparison_ops_def compare_numbers_def
        f64_eq_def optimizer_column_type_is_comparable_number_def split: if_splits)
qed

lemma pinned_agree: "pinned env a v \<Longrightarrow> pinned env b v \<Longrightarrow> \<not> optimizer_constants_conflict env a b"
  by (auto simp: pinned_def optimizer_constants_conflict_def f64_eq_def)

section \<open>The keys keep what holds of them\<close>

lemma rooted_value:
  assumes "rooted keys k r" "keys_hold env sc row keys" "forest keys" "k < length keys"
  shows "key_val sc row (keys ! k) = key_val sc row (keys ! r)"
  using assms(1,4)
proof (induction rule: rooted.induct)
  case (up k p r)
  then have "p < length keys" using assms(3) unfolding forest_def by blast
  then show ?case using up assms(2) unfolding keys_hold_def by metis
qed simp

lemma keys_hold_push:
  assumes "keys_hold env sc row keys" "forest keys" "column_in sc i col"
  shows "keys_hold env sc row (keys @ [\<lparr>key_relation = i, key_column = col, key_parent = length keys, key_constant = None\<rparr>])"
proof -
  have "key_parent (keys ! k) < length keys" if "k < length keys" for k using assms(2) that unfolding forest_def by blast
  then show ?thesis using assms(1,3) unfolding keys_hold_def by (simp add: nth_append less_Suc_eq)
qed

lemma same_key_column:
  assumes "names_ok sc" "column_in sc i a" "column_in sc i b" "str8_match a b match_ci"
  shows "a = b"
  using ci_columns [of "fst (sc ! i)" a _ b] assms nth_mem [of i sc]
  unfolding names_ok_def column_in_def match_ci_eq by blast

lemma column_key_index_hold:
  assumes ok: "names_ok sc" and "keys_hold env sc row keys" "forest keys" "column_in sc i col"
    and "optimizer_column_key_index keys i col = (found, keys')"
  shows "keys_hold env sc row keys' \<and> (\<forall>k. found = Some k \<longrightarrow> key_val sc row (keys' ! k) = rel_value sc row i col)"
    and "k < length keys \<Longrightarrow> keys' ! k = keys ! k"
  using assms(5)
proof (atomize (full), cases rule: column_key_index_cases)
  case (old m)
  then have "key_relation (keys ! m) = i" "str8_match (key_column (keys ! m)) col match_ci" by (auto simp: key_matches_def)
  moreover have "column_in sc i (key_column (keys ! m))"
    using assms(2) old(3) calculation(1) unfolding keys_hold_def by blast
  ultimately show "(keys_hold env sc row keys' \<and> (\<forall>k. found = Some k \<longrightarrow> key_val sc row (keys' ! k) = rel_value sc row i col)) \<and>
      (k < length keys \<longrightarrow> keys' ! k = keys ! k)"
    using same_key_column [OF ok _ assms(4), of "key_column (keys ! m)"] assms(2) old by (simp add: key_val_def)
next
  case (new x)
  then show "(keys_hold env sc row keys' \<and> (\<forall>k. found = Some k \<longrightarrow> key_val sc row (keys' ! k) = rel_value sc row i col)) \<and>
      (k < length keys \<longrightarrow> keys' ! k = keys ! k)"
    using keys_hold_push [OF assms(2-4)] by (simp add: key_val_def nth_append)
next
  case full
  then show "(keys_hold env sc row keys' \<and> (\<forall>k. found = Some k \<longrightarrow> key_val sc row (keys' ! k) = rel_value sc row i col)) \<and>
      (k < length keys \<longrightarrow> keys' ! k = keys ! k)"
    using assms(2) by simp
qed

lemma keys_hold_link:
  assumes "keys_hold env sc row keys" "a < length keys" "b < length keys"
    "key_val sc row (keys ! a) = key_val sc row (keys ! b)"
  shows "keys_hold env sc row (keys[b := (keys ! b)\<lparr>key_parent := a\<rparr>])"
proof -
  let ?keys = "keys[b := (keys ! b)\<lparr>key_parent := a\<rparr>]"
  have same: "key_val sc row (?keys ! k) = key_val sc row (keys ! k)" for k
    using assms(3) by (cases "k = b") (simp_all add: key_val_def)
  have "column_in sc (key_relation (?keys ! k)) (key_column (?keys ! k)) \<and>
      key_val sc row (keys ! key_parent (?keys ! k)) = key_val sc row (keys ! k) \<and>
      (\<forall>c. key_constant (?keys ! k) = Some c \<longrightarrow> pinned env c (key_val sc row (keys ! k)))" if "k < length keys" for k
    using assms that unfolding keys_hold_def by (cases "k = b") simp_all
  then show ?thesis unfolding keys_hold_def same by simp
qed

lemma link_keys_hold:
  assumes ok: "names_ok sc" and hold: "keys_hold env sc row keys" "forest keys"
    and true: "holds_on env sc steps row c" and link: "link_keys sc steps c keys = Some keys'"
  shows "keys_hold env sc row keys'"
proof (cases "optimizer_equality_is_join_key sc steps c")
  case (Some jk)
  obtain li lc ri rc where jk: "jk = ((li, lc), (ri, rc))" by (metis prod.exhaust)
  note eq = join_key_equal [OF ok Some [unfolded jk] true]
  obtain lk keys1 where l: "optimizer_column_key_index keys li lc = (lk, keys1)" by force
  obtain rk keys2 where r: "optimizer_column_key_index keys1 ri rc = (rk, keys2)" by force
  have f1: "forest keys1" and b1: "\<And>k. lk = Some k \<Longrightarrow> k < length keys1" using column_key_index_forest [OF hold(2) l] by auto
  have f2: "forest keys2" and b2: "\<And>k. rk = Some k \<Longrightarrow> k < length keys2" and le: "length keys1 \<le> length keys2"
    using column_key_index_forest [OF f1 r] by auto
  have h1: "keys_hold env sc row keys1" and v1: "\<And>k. lk = Some k \<Longrightarrow> key_val sc row (keys1 ! k) = rel_value sc row li lc"
    using column_key_index_hold(1) [OF ok hold eq(1) l] by auto
  have h2: "keys_hold env sc row keys2" and v2: "\<And>k. rk = Some k \<Longrightarrow> key_val sc row (keys2 ! k) = rel_value sc row ri rc"
    and keep: "\<And>k. k < length keys1 \<Longrightarrow> keys2 ! k = keys1 ! k"
    using column_key_index_hold [OF ok h1 f1 eq(2) r] by auto
  show ?thesis
  proof (cases "\<exists>a b. lk = Some a \<and> rk = Some b")
    case True
    then obtain k1 k2 where k: "lk = Some k1" "rk = Some k2" by blast
    then have bound: "k1 < length keys2" "k2 < length keys2" using b1 b2 le by (auto intro: less_le_trans)
    obtain a where a: "a < length keys2" "rooted keys2 k1 a" "optimizer_column_key_root keys2 k1 = Some a"
      using root_forest [OF f2 bound(1)] by blast
    obtain b where b: "b < length keys2" "rooted keys2 k2 b" "optimizer_column_key_root keys2 k2 = Some b"
      using root_forest [OF f2 bound(2)] by blast
    have "key_val sc row (keys2 ! a) = key_val sc row (keys2 ! b)"
      using rooted_value [OF a(2) h2 f2 bound(1)] rooted_value [OF b(2) h2 f2 bound(2)] v1 [OF k(1)] v2 [OF k(2)]
        keep [OF b1 [OF k(1)]] eq(3) by simp
    from keys_hold_link [OF h2 a(1) b(1) this] show ?thesis
      using link h2 Some jk l r k a b by (auto simp: link_keys_def split: if_splits)
  next
    case False
    then have "keys' = keys2" using link Some jk l r by (auto simp: link_keys_def split: option.splits)
    then show ?thesis using h2 by simp
  qed
qed (use link hold in \<open>simp add: link_keys_def\<close>)

lemma link_all_hold:
  assumes ok: "names_ok sc" and true: "\<And>c. c \<in> set cs \<Longrightarrow> holds_on env sc steps row c"
    and "keys_hold env sc row keys" "forest keys" "link_all sc steps cs keys = Some keys'"
  shows "keys_hold env sc row keys'"
  using true assms(3-)
proof (induction cs arbitrary: keys)
  case (Cons c cs)
  obtain keys1 where k: "link_keys sc steps c keys = Some keys1" "forest keys1"
    using link_keys_forest [OF Cons.prems(3), of sc steps c] by blast
  have "keys_hold env sc row keys1"
    using Cons.prems by (intro link_keys_hold [OF ok _ _ _ k(1)]) auto
  then show ?case using Cons.IH [OF _ _ k(2)] Cons.prems(1,4) k(1) by simp
qed simp

lemma pin_constant_hold:
  assumes ok: "names_ok sc" and hold: "keys_hold env sc row keys" and f: "forest keys" and true: "holds_on env sc steps row c"
  shows "keys_hold env sc row (pin_constant sc steps c keys)"
proof (cases "optimizer_constant_equality sc steps c")
  case (Some t)
  obtain i col literal where t: "t = (i, col, literal)" by (metis prod.exhaust)
  note pin = constant_pinned [OF ok Some [unfolded t] true]
  have col: "column_in sc i col"
    using Some t column_operand(4,5)
    by (fastforce simp: optimizer_constant_equality_def column_in_def Let_def split: if_splits list.splits option.splits)
  let ?keys = "pin_constant sc steps c keys"
  have nth: "?keys ! k = (if key_matches i col (keys ! k) \<and> key_constant (keys ! k) = None
      then (keys ! k)\<lparr>key_constant := Some literal\<rparr> else keys ! k)" if "k < length keys" for k
    using that Some t by (simp add: pin_constant_nth)
  have same: "key_val sc row (?keys ! k) = key_val sc row (keys ! k)" if "k < length keys" for k
    using nth [OF that] by (simp add: key_val_def)
  show ?thesis
    unfolding keys_hold_def
  proof (intro allI impI, unfold pin_constant_length)
    fix k assume k: "k < length keys"
    have p: "key_parent (keys ! k) < length keys" using f k unfolding forest_def by blast
    have h: "column_in sc (key_relation (keys ! k)) (key_column (keys ! k))"
      "key_val sc row (keys ! key_parent (keys ! k)) = key_val sc row (keys ! k)"
      "\<And>c. key_constant (keys ! k) = Some c \<Longrightarrow> pinned env c (key_val sc row (keys ! k))"
      using hold k unfolding keys_hold_def by blast+
    have "pinned env literal (key_val sc row (keys ! k))" if m: "key_matches i col (keys ! k)"
    proof -
      have "key_relation (keys ! k) = i" "str8_match (key_column (keys ! k)) col match_ci" using m by (auto simp: key_matches_def)
      then show ?thesis using same_key_column [OF ok _ col, of "key_column (keys ! k)"] h(1) pin by (simp add: key_val_def)
    qed
    then show "column_in sc (key_relation (?keys ! k)) (key_column (?keys ! k)) \<and>
      key_val sc row (?keys ! key_parent (?keys ! k)) = key_val sc row (?keys ! k) \<and>
      (\<forall>c. key_constant (?keys ! k) = Some c \<longrightarrow> pinned env c (key_val sc row (?keys ! k)))"
      using h same [OF k] same [OF p] nth [OF k] by (auto split: if_splits)
  qed
qed (use hold in \<open>simp add: pin_constant_def\<close>)

lemma pin_all_hold:
  assumes "names_ok sc" "\<And>c. c \<in> set cs \<Longrightarrow> holds_on env sc steps row c"
  shows "keys_hold env sc row keys \<Longrightarrow> forest keys \<Longrightarrow> keys_hold env sc row (fold (pin_constant sc steps) cs keys)"
  using assms(2)
proof (induction cs arbitrary: keys)
  case (Cons c cs)
  then show ?case using pin_constant_hold [OF assms(1)] pin_constant_forest by simp
qed simp

section \<open>Conflicts and derived conditions\<close>

lemma class_constants_pinned:
  assumes hold: "keys_hold env sc row keys" and f: "forest keys"
    and g: "\<And>k. k < length keys \<Longrightarrow> rooted keys k (g k) \<and> g k < length keys"
  shows "length (class_constants keys (map g [0..<length keys])) = length keys"
    and "r < length keys \<Longrightarrow> class_constants keys (map g [0..<length keys]) ! r = Some c \<Longrightarrow> pinned env c (key_val sc row (keys ! r))"
proof -
  let ?rs = "map g [0..<length keys]"
  let ?step = "class_step keys ?rs"
  have "length (fold ?step ks classes) = length keys \<and>
      (\<forall>r < length keys. \<forall>c. fold ?step ks classes ! r = Some c \<longrightarrow> pinned env c (key_val sc row (keys ! r)))"
    if "set ks \<subseteq> {..<length keys}" "length classes = length keys"
      "\<forall>r < length keys. \<forall>c. classes ! r = Some c \<longrightarrow> pinned env c (key_val sc row (keys ! r))" for ks classes
    using that
  proof (induction ks arbitrary: classes)
    case (Cons k ks)
    have k: "k < length keys" using Cons.prems(1) by simp
    have "pinned env c (key_val sc row (keys ! g k))" if "key_constant (keys ! k) = Some c" for c
      using hold that k rooted_value [OF conjunct1 [OF g [OF k]] hold f k] unfolding keys_hold_def by metis
    then have "length (?step k classes) = length keys \<and>
        (\<forall>r < length keys. \<forall>c. ?step k classes ! r = Some c \<longrightarrow> pinned env c (key_val sc row (keys ! r)))"
      using Cons.prems(2,3) k g [OF k] by (auto simp: class_step_def nth_list_update split: option.splits)
    then show ?case using Cons.IH [of "?step k classes"] Cons.prems(1) by simp
  qed simp
  note steps = this
  have "set [0..<length keys] \<subseteq> {..<length keys}" by auto
  then have "length (class_constants keys ?rs) = length keys \<and>
      (\<forall>r < length keys. \<forall>c. class_constants keys ?rs ! r = Some c \<longrightarrow> pinned env c (key_val sc row (keys ! r)))"
    unfolding class_constants_def by (rule steps) simp_all
  then show "length (class_constants keys (map g [0..<length keys])) = length keys"
    and "r < length keys \<Longrightarrow> class_constants keys (map g [0..<length keys]) ! r = Some c \<Longrightarrow> pinned env c (key_val sc row (keys ! r))"
    by blast+
qed

lemma no_clash:
  assumes hold: "keys_hold env sc row keys" and f: "forest keys"
    and g: "\<And>k. k < length keys \<Longrightarrow> rooted keys k (g k) \<and> g k < length keys"
  shows "\<not> constants_clash env keys (map g [0..<length keys])"
proof -
  have "\<not> optimizer_constants_conflict env a b"
    if "k < length keys" "key_constant (keys ! k) = Some a" "class_constants keys (map g [0..<length keys]) ! g k = Some b" for k a b
  proof -
    have gk: "rooted keys k (g k)" "g k < length keys" using g [OF that(1)] by auto
    have "pinned env b (key_val sc row (keys ! g k))" by (rule class_constants_pinned(2) [OF hold f g gk(2) that(3)])
    moreover have "pinned env a (key_val sc row (keys ! k))" using hold that(1,2) unfolding keys_hold_def by blast
    ultimately show ?thesis using rooted_value [OF gk(1) hold f that(1)] pinned_agree by simp
  qed
  then show ?thesis by (auto simp: constants_clash_def list_ex_iff split: option.splits)
qed

text \<open>A condition built for a column is about that column, and says what the constant says.\<close>

lemma qualified_name:
  assumes "\<not> has_dot q0"
  shows "has_dot (q0 @ ''.'' @ col)" "qualifier_of (q0 @ ''.'' @ col) = q0" "qe_bare_column_name (q0 @ ''.'' @ col) = col"
proof -
  show 1: "has_dot (q0 @ ''.'' @ col)" by (simp add: has_dot_def)
  show 2: "qualifier_of (q0 @ ''.'' @ col) = q0"
    using assms unfolding qualifier_of_def has_dot_def by (subst takeWhile_append2) auto
  show "qe_bare_column_name (q0 @ ''.'' @ col) = col"
    using 1 2 by (simp add: qe_bare_column_name_def str8_skip_def)
qed

lemma resolve_qualified:
  assumes ok: "names_ok sc" and col: "column_in sc i col"
  shows "optimizer_resolve_column sc (scope_name (sc ! i) @ ''.'' @ col) = Some i"
proof -
  have i: "i < length sc" and nd: "\<not> has_dot (scope_name (sc ! i))"
    using ok col nth_mem [of i sc] by (auto simp: names_ok_def column_in_def)
  have "j = i" if "j < length sc" "ci_eq (scope_name (sc ! i)) (scope_name (sc ! j))" for j
  proof (rule ccontr)
    assume "j \<noteq> i"
    then consider "j < i" | "i < j" by linarith
    then show False using ok i that ci_eq_sym unfolding names_ok_def by cases blast+
  qed
  then show ?thesis
    using i col qualified_name [OF nd, of col] by (auto simp: resolve_Some belongs_iff column_in_def)
qed

lemma derived_conjunct_node:
  "cj_node (derived_conjunct sc i col literal) =
     IR_Node IrOperator ''='' [IR_Node IrColumn (scope_name (sc ! i) @ ''.'' @ col) [], literal]"
  by (simp add: derived_conjunct_def ir_node_make_def ir_node_add_child_def)

lemma derived_holds:
  assumes ok: "names_ok sc" and f: "cql_table_find_column (fst (sc ! i)) col = Some p" "i < length sc"
    and lit: "comparable_pair (column_ty (columns (fst (sc ! i)) ! p)) literal"
    and pin: "pinned env literal (rel_value sc row i col)"
  shows "qe_row_condition_eval env sc row (cj_node (derived_conjunct sc i col literal))"
proof -
  let ?n = "IR_Node IrColumn (scope_name (sc ! i) @ ''.'' @ col) []"
  have nd: "\<not> has_dot (scope_name (sc ! i))" using ok f(2) nth_mem [of i sc] by (auto simp: names_ok_def)
  have col: "column_in sc i col" using f by (simp add: column_in_def)
  have op: "optimizer_column_operand sc ?n = Some (i, col, column_ty (columns (fst (sc ! i)) ! p))"
    using f qualified_name(3) [OF nd, of col] resolve_qualified [OF ok col]
    by (simp add: optimizer_column_operand_def del: append_Cons)
  have eq: "''='' \<in> set comparison_ops" by (simp add: comparison_ops_def)
  from eval_comparison [OF eq, of ?n env sc row literal "[]"] show ?thesis
    using load_operand(1) [OF ok op, of env row] comparable_resolve [OF ok op lit, of env row] pin
    by (auto simp: derived_conjunct_node pinned_def qe_row_load_value_def compare_loaded_def compare_strings_def
        compare_numbers_def f64_eq_def comparison_ops_plain(7) [OF eq] Let_def simp del: qe_row_condition_eval.simps append_Cons)
qed

section \<open>The pass is sound\<close>

text \<open>Where the keys come from.\<close>

definition literal_of :: "opt_conjunct list \<Rightarrow> ir_node \<Rightarrow> bool" where
  "literal_of cs c \<longleftrightarrow> (ir_type c = IrLiteral \<or> ir_type c = IrNumeric) \<and> (\<exists>d \<in> set cs. c \<in> set (ir_children (cj_node d)))"

definition keys_from :: "scope \<Rightarrow> opt_conjunct list \<Rightarrow> opt_key list \<Rightarrow> bool" where
  "keys_from sc cs keys \<longleftrightarrow> (\<forall>k \<in> set keys. column_in sc (key_relation k) (key_column k) \<and>
     (\<forall>c. key_constant k = Some c \<longrightarrow> literal_of cs c))"

lemma column_key_index_from:
  "keys_from sc cs keys \<Longrightarrow> column_in sc i col \<Longrightarrow> optimizer_column_key_index keys i col = (found, keys') \<Longrightarrow> keys_from sc cs keys'"
  by (erule column_key_index_cases) (auto simp: keys_from_def)

lemma link_keys_from:
  assumes "keys_from sc cs keys" "link_keys sc steps c keys = Some keys'"
  shows "keys_from sc cs keys'"
proof (cases "optimizer_equality_is_join_key sc steps c")
  case (Some jk)
  obtain li lc ri rc where jk: "jk = ((li, lc), (ri, rc))" by (metis prod.exhaust)
  have cols: "column_in sc li lc" "column_in sc ri rc"
    by (rule join_key_cases [OF Some [unfolded jk]]; auto dest: operand_column_in)+
  obtain lk keys1 where l: "optimizer_column_key_index keys li lc = (lk, keys1)" by force
  obtain rk keys2 where r: "optimizer_column_key_index keys1 ri rc = (rk, keys2)" by force
  have k2: "keys_from sc cs keys2" using assms(1) cols l r column_key_index_from by blast
  have "\<exists>a b. keys' = keys2 \<or> (b < length keys2 \<and> keys' = keys2[b := (keys2 ! b)\<lparr>key_parent := a\<rparr>]) \<or> \<not> b < length keys2 \<and> keys' = keys2[b := (keys2 ! b)\<lparr>key_parent := a\<rparr>]"
    using assms(2) Some jk l r by (auto simp: link_keys_def split: option.splits if_splits)
  moreover have "keys_from sc cs (keys2[b := (keys2 ! b)\<lparr>key_parent := a\<rparr>])" if "b < length keys2" for a b
    using k2 nth_mem [OF that] set_update_subset_insert [of keys2 b "(keys2 ! b)\<lparr>key_parent := a\<rparr>"]
    unfolding keys_from_def by fastforce
  ultimately show ?thesis using k2 by (auto simp: list_update_beyond)
qed (use assms in \<open>simp add: link_keys_def\<close>)

lemma link_all_from:
  "keys_from sc cs0 keys \<Longrightarrow> link_all sc steps cs keys = Some keys' \<Longrightarrow> keys_from sc cs0 keys'"
  by (induction cs arbitrary: keys) (auto split: option.splits dest: link_keys_from)

lemma pin_constant_from:
  assumes "keys_from sc cs keys" "c \<in> set cs"
  shows "keys_from sc cs (pin_constant sc steps c keys)"
proof (cases "optimizer_constant_equality sc steps c")
  case (Some t)
  obtain i col literal where t: "t = (i, col, literal)" by (metis prod.exhaust)
  have "literal_of cs literal"
    using Some t assms(2)
    by (auto simp: optimizer_constant_equality_def literal_of_def comparable_pair_def Let_def
        split: if_splits list.splits option.splits intro!: bexI [of _ c])
  then show ?thesis using assms(1) Some t by (auto simp: pin_constant_def keys_from_def)
qed (use assms in \<open>simp add: pin_constant_def\<close>)

lemma pin_all_from:
  "keys_from sc cs0 keys \<Longrightarrow> set cs \<subseteq> set cs0 \<Longrightarrow> keys_from sc cs0 (fold (pin_constant sc steps) cs keys)"
  by (induction cs arbitrary: keys) (auto intro: pin_constant_from)

lemma class_constants_from:
  assumes "keys_from sc cs keys" "class_constants keys rs ! r = Some c" "r < length keys"
  shows "literal_of cs c"
proof -
  let ?step = "class_step keys rs"
  have "(\<forall>c. Some c \<in> set (fold ?step ks classes) \<longrightarrow> literal_of cs c) \<and> length (fold ?step ks classes) = length classes"
    if "set ks \<subseteq> {..<length keys}" "\<forall>c. Some c \<in> set classes \<longrightarrow> literal_of cs c" for ks classes
    using that
  proof (induction ks arbitrary: classes)
    case (Cons k ks)
    have "\<forall>c. key_constant (keys ! k) = Some c \<longrightarrow> literal_of cs c"
      using assms(1) Cons.prems(1) nth_mem [of k keys] unfolding keys_from_def by auto
    then have "\<forall>c. Some c \<in> set (?step k classes) \<longrightarrow> literal_of cs c"
      using Cons.prems(2)
      by (auto simp: class_step_def split: option.splits if_splits dest!: subsetD [OF set_update_subset_insert])
    moreover have "length (?step k classes) = length classes" by (simp add: class_step_def split: option.splits)
    ultimately have "\<forall>c. Some c \<in> set (?step k classes) \<longrightarrow> literal_of cs c" "length (?step k classes) = length classes" by auto
    then show ?case using Cons.IH [of "?step k classes"] Cons.prems(1) by auto
  qed simp
  moreover have "set [0..<length keys] \<subseteq> {..<length keys}" "\<forall>c. Some c \<in> set (replicate (length keys) None) \<longrightarrow> literal_of cs c" by auto
  ultimately have "(\<forall>c. Some c \<in> set (class_constants keys rs) \<longrightarrow> literal_of cs c) \<and> length (class_constants keys rs) = length keys"
    unfolding class_constants_def by (metis length_replicate)
  then show ?thesis using assms(2,3) nth_mem by metis
qed

text \<open>The derived conjuncts: each is for a column of a key and a constant of its class.\<close>

lemma derive_constants_append:
  "\<exists>ds. derive_constants sc keys rs classes ks cs = cs @ ds \<and>
     (\<forall>d \<in> set ds. \<exists>k literal. k \<in> set ks \<and> classes ! (rs ! k) = Some literal \<and> d \<in> set (derived_for sc (keys ! k) literal))"
proof (induction ks arbitrary: cs)
  case (Cons k ks)
  note IH = Cons.IH
  let ?from = "\<lambda>ks d. \<exists>k literal. k \<in> set ks \<and> classes ! (rs ! k) = Some literal \<and> d \<in> set (derived_for sc (keys ! k) literal)"
  consider (skip) "derive_constants sc keys rs classes (k # ks) cs = derive_constants sc keys rs classes ks cs"
    | (stop) "derive_constants sc keys rs classes (k # ks) cs = cs"
    | (derive) literal where "classes ! (rs ! k) = Some literal"
      "derive_constants sc keys rs classes (k # ks) cs = derive_constants sc keys rs classes ks (cs @ derived_for sc (keys ! k) literal)"
    by (cases "key_constant (keys ! k)"; cases "classes ! (rs ! k)"; cases "length cs \<ge> OPT_MAX_CONJUNCTS") auto
  then show ?case
  proof cases
    case skip
    obtain ds where "derive_constants sc keys rs classes ks cs = cs @ ds" "\<forall>d \<in> set ds. ?from ks d" using IH [of cs] by blast
    then show ?thesis using skip by (intro exI [of _ ds]) fastforce
  next
    case (derive literal)
    let ?d = "derived_for sc (keys ! k) literal"
    obtain ds where ds: "derive_constants sc keys rs classes ks (cs @ ?d) = (cs @ ?d) @ ds" "\<forall>d \<in> set ds. ?from ks d"
      using IH [of "cs @ ?d"] by blast
    have "\<forall>d \<in> set (?d @ ds). ?from (k # ks) d"
      using ds(2) derive(1) by (metis UnE list.set_intros(1,2) set_append)
    then show ?thesis using ds(1) derive(2) by (intro exI [of _ "?d @ ds"]) simp
  qed auto
qed simp

lemma derived_for_cases:
  assumes "d \<in> set (derived_for sc k literal)"
  obtains p where "cql_table_find_column (fst (sc ! key_relation k)) (key_column k) = Some p"
    "comparable_pair (column_ty (columns (fst (sc ! key_relation k)) ! p)) literal"
    "d = derived_conjunct sc (key_relation k) (key_column k) literal"
proof (cases "cql_table_find_column (fst (sc ! key_relation k)) (key_column k)")
  case (Some p)
  then show ?thesis using assms that [OF Some] by (auto simp: derived_for_def split: if_splits)
qed (use assms in \<open>simp add: derived_for_def\<close>)

lemma propagate_shape:
  assumes "optimizer_propagate_constants env sc steps cs = Some (cs', conflict)"
  obtains ds where "cs' = cs @ ds"
    "\<And>d. d \<in> set ds \<Longrightarrow> \<exists>i col literal. d = derived_conjunct sc i col literal \<and> column_in sc i col \<and> literal_of cs literal"
proof (cases rule: propagate_cases [of env sc steps cs])
  case nothing
  then show ?thesis using assms that [of "[]"] by simp
next
  case 2: (keys keys0 keys g)
  have from0: "keys_from sc cs keys0" using link_all_from [OF _ 2(1), of cs] by (simp add: keys_from_def)
  have from1: "keys_from sc cs keys" using pin_all_from [OF from0] 2(2) by simp
  let ?rs = "map g [0..<length keys]"
  obtain ds where ds: "cs' = cs @ ds" "\<forall>d \<in> set ds. \<exists>k literal. k \<in> set [0..<length keys] \<and>
      class_constants keys ?rs ! (?rs ! k) = Some literal \<and> d \<in> set (derived_for sc (keys ! k) literal)"
    using derive_constants_append [of sc keys ?rs "class_constants keys ?rs" "[0..<length keys]" cs] assms 2(5)
    by (metis (no_types, lifting) option.inject prod.inject)
  have "\<exists>i col literal. d = derived_conjunct sc i col literal \<and> column_in sc i col \<and> literal_of cs literal" if d: "d \<in> set ds" for d
  proof -
    obtain k literal where k: "k < length keys" "class_constants keys ?rs ! g k = Some literal"
      "d = derived_conjunct sc (key_relation (keys ! k)) (key_column (keys ! k)) literal"
      using ds(2) d by (fastforce elim: derived_for_cases)
    have "literal_of cs literal" by (rule class_constants_from [OF from1 k(2)]) (use 2(4) [OF k(1)] in simp)
    then show ?thesis using k from1 nth_mem [OF k(1)] unfolding keys_from_def by blast
  qed
  with ds(1) show ?thesis by (rule that)
qed

text \<open>On a row that satisfies the conditions there is no conflict, and the derived ones hold.\<close>

lemma propagate_sound:
  assumes ok: "names_ok sc" and true: "\<And>c. c \<in> set cs \<Longrightarrow> holds_on env sc steps row c"
    and res: "optimizer_propagate_constants env sc steps cs = Some (cs', conflict)"
  shows "\<not> conflict" and "c \<in> set cs' \<Longrightarrow> c \<in> set cs \<or> qe_row_condition_eval env sc row (cj_node c)"
proof -
  show "\<not> conflict" and "c \<in> set cs' \<Longrightarrow> c \<in> set cs \<or> qe_row_condition_eval env sc row (cj_node c)"
  proof (atomize (full), cases rule: propagate_cases [of env sc steps cs])
    case nothing
    then show "\<not> conflict \<and> (c \<in> set cs' \<longrightarrow> c \<in> set cs \<or> qe_row_condition_eval env sc row (cj_node c))"
      using res by simp
  next
    case 2: (keys keys0 keys g)
    have "forest []" "keys_hold env sc row []" by (simp_all add: forest_def keys_hold_def)
    then have "keys_hold env sc row keys0" "forest keys0"
      using link_all_hold [OF ok true _ _ 2(1)] link_all_forest [of "[]" sc steps cs] 2(1) by auto
    then have hold: "keys_hold env sc row keys" unfolding 2(2) by (intro pin_all_hold [OF ok true])
    let ?rs = "map g [0..<length keys]"
    obtain ds where ds: "cs' = cs @ ds" "\<forall>d \<in> set ds. \<exists>k literal. k \<in> set [0..<length keys] \<and>
        class_constants keys ?rs ! (?rs ! k) = Some literal \<and> d \<in> set (derived_for sc (keys ! k) literal)"
      using derive_constants_append [of sc keys ?rs "class_constants keys ?rs" "[0..<length keys]" cs] res 2(5)
      by (metis (no_types, lifting) option.inject prod.inject)
    have "qe_row_condition_eval env sc row (cj_node d)" if d: "d \<in> set ds" for d
    proof -
      obtain k literal where k0: "k < length keys" "class_constants keys ?rs ! g k = Some literal"
        "d \<in> set (derived_for sc (keys ! k) literal)" using ds(2) d by fastforce
      obtain p where k: "k < length keys" "class_constants keys ?rs ! g k = Some literal"
        "cql_table_find_column (fst (sc ! key_relation (keys ! k))) (key_column (keys ! k)) = Some p"
        "comparable_pair (column_ty (columns (fst (sc ! key_relation (keys ! k))) ! p)) literal"
        "d = derived_conjunct sc (key_relation (keys ! k)) (key_column (keys ! k)) literal"
        using derived_for_cases [OF k0(3)] k0(1,2) by blast
      have gk: "rooted keys k (g k)" "g k < length keys" using 2(4) [OF k(1)] by auto
      have "pinned env literal (key_val sc row (keys ! g k))"
        by (rule class_constants_pinned(2) [OF hold 2(3,4) gk(2) k(2)])
      then have "pinned env literal (rel_value sc row (key_relation (keys ! k)) (key_column (keys ! k)))"
        using rooted_value [OF gk(1) hold 2(3) k(1)] by (simp add: key_val_def)
      moreover have "key_relation (keys ! k) < length sc" using hold k(1) unfolding keys_hold_def column_in_def by blast
      ultimately show ?thesis unfolding k(5) by (intro derived_holds [OF ok k(3) _ k(4)])
    qed
    then show "\<not> conflict \<and> (c \<in> set cs' \<longrightarrow> c \<in> set cs \<or> qe_row_condition_eval env sc row (cj_node c))"
      using no_clash [OF hold 2(3,4)] res 2(5) ds(1) by auto
  qed
qed

end
