(* ===== verification/Opt_Rewrite.thy ===== *)
theory Opt_Rewrite
  imports Opt_Propagate
begin

text \<open>
  The rewrite of a FROM plan and its WHERE condition (\<open>optimizer_rewrite_from_where\<close> of
  \<open>src/src/optimizer/optimizer.c\<close>): conditions are split into conjuncts, folded, propagated,
  used to turn left joins into inner joins, and moved to where they can be checked first.

  The answer of the join order search (\<open>optimizer_plan_join_order\<close>, which works on estimated
  costs) is the argument \<open>search\<close>: the new order and the edges of the join graph, or nothing
  when the written order is kept.

  The lemmas relate the plan before and after to the same flat description (\<open>Opt_Flat\<close>),
  where every pass is a change of the conjuncts that keeps the rows.
\<close>

section \<open>Positions after a reordering\<close>

record opt_edge =
  edge_a :: nat
  edge_b :: nat
  edge_name_a :: string8
  edge_name_b :: string8
  edge_derived :: bool

definition optimizer_join_has_edge_between :: "opt_edge list \<Rightarrow> nat \<Rightarrow> nat \<Rightarrow> bool \<Rightarrow> opt_edge option" where
  "optimizer_join_has_edge_between edges a b original_only =
     List.find (\<lambda>e. \<not> (original_only \<and> edge_derived e) \<and>
       ((edge_a e = a \<and> edge_b e = b) \<or> (edge_a e = b \<and> edge_b e = a))) edges"

text \<open>The number of relations before the first left join.\<close>

definition optimizer_reorderable_group_size :: "opt_step list \<Rightarrow> nat \<Rightarrow> nat" where
  "optimizer_reorderable_group_size steps n =
     (case List.find (supplies_null steps) [1..<n] of Some k \<Rightarrow> k | None \<Rightarrow> n)"

definition optimizer_step_position_for_conjunct :: "opt_conjunct \<Rightarrow> (nat \<Rightarrow> nat) \<Rightarrow> nat \<Rightarrow> nat" where
  "optimizer_step_position_for_conjunct c position_of group_size =
     (if group_size = 0 \<or> cj_target c \<ge> group_size then cj_target c
      else fold (\<lambda>i last. if bit (cj_mask c) i \<and> position_of i > last then position_of i else last) [0..<group_size] 0)"

definition optimizer_make_derived_equality :: "scope \<Rightarrow> opt_edge \<Rightarrow> ir_node" where
  "optimizer_make_derived_equality sc e =
     ir_node_add_child (ir_node_add_child (ir_node_make IrOperator ''='')
       (ir_node_make IrColumn (scope_name (sc ! edge_a e) @ ''.'' @ edge_name_a e)))
       (ir_node_make IrColumn (scope_name (sc ! edge_b e) @ ''.'' @ edge_name_b e))"

section \<open>The passes in order\<close>

definition impossible_conjunct :: opt_conjunct where
  "impossible_conjunct =
     \<lparr>cj_node = optimizer_make_constant_false, cj_mask = 0, cj_unresolved = False, cj_from_where = True,
      cj_step = 0, cj_dest = Dest_Filter, cj_target = 0\<rparr>"

definition rewrite_conditions ::
  "num_env \<Rightarrow> scope \<Rightarrow> opt_step list \<Rightarrow> opt_conjunct list \<Rightarrow> (opt_step list \<times> opt_conjunct list \<times> bool) option" where
  "rewrite_conditions env sc steps cs =
     (let (cs, always_empty) = optimizer_fold_constants env steps cs;
          propagated =
            (if always_empty then Some (cs, True)
             else map_option (\<lambda>(cs, conflict). (cs, conflict \<or> optimizer_detect_contradiction env sc steps cs))
               (optimizer_propagate_constants env sc steps cs))
      in case propagated of
           None \<Rightarrow> None
         | Some (cs, always_empty) \<Rightarrow>
             let steps = optimizer_convert_left_joins sc steps cs;
                 cs = optimizer_assign_destinations steps cs
             in Some (steps, if always_empty then cs @ [impossible_conjunct] else cs, always_empty))"

text \<open>The position of a relation in the order.\<close>

definition position_in :: "nat list \<Rightarrow> nat \<Rightarrow> nat" where
  "position_in order i = (case first_index (\<lambda>k. k = i) order of Some p \<Rightarrow> p | None \<Rightarrow> 0)"

text \<open>The equality that ties a moved relation to an earlier one, when no written one does.\<close>

definition derived_on_nodes :: "scope \<Rightarrow> opt_edge list \<Rightarrow> nat list \<Rightarrow> nat \<Rightarrow> ir_node list" where
  "derived_on_nodes sc edges order position =
     (let earlier = take position order; i = order ! position in
      if list_ex (\<lambda>j. optimizer_join_has_edge_between edges i j True \<noteq> None) earlier then []
      else case List.map_filter (\<lambda>j. optimizer_join_has_edge_between edges i j False) earlier of
        [] \<Rightarrow> []
      | e # _ \<Rightarrow> [optimizer_make_derived_equality sc e])"

definition join_step ::
  "opt_relation list \<Rightarrow> opt_step list \<Rightarrow> opt_conjunct list \<Rightarrow> nat list \<Rightarrow> opt_edge list option \<Rightarrow> nat \<Rightarrow> plan_node \<Rightarrow> plan_node" where
  "join_step rels steps cs order search position joined =
     (let group_size = (if search = None then 0 else optimizer_reorderable_group_size steps (length rels));
          written = map cj_node (filter (\<lambda>c. cj_dest c = Dest_OnClause \<and>
            optimizer_step_position_for_conjunct c (position_in order) group_size = position) cs);
          in_reordered_group = (search \<noteq> None \<and> position < group_size);
          on_nodes = (if in_reordered_group then written @ derived_on_nodes (rel_scope rels) (the search) order position else written)
      in P_Join (if in_reordered_group then ''inner'' else optimizer_final_join_type (steps ! position) (on_nodes \<noteq> []))
           joined (optimizer_build_relation_plan rels cs (order ! position)) (optimizer_ir_and_chain on_nodes))"

definition assemble_joins ::
  "opt_relation list \<Rightarrow> opt_step list \<Rightarrow> opt_conjunct list \<Rightarrow> nat list \<Rightarrow> opt_edge list option \<Rightarrow> plan_node" where
  "assemble_joins rels steps cs order search =
     fold (join_step rels steps cs order search) [1..<length rels] (optimizer_build_relation_plan rels cs (order ! 0))"

definition add_residual :: "opt_conjunct list \<Rightarrow> plan_node \<Rightarrow> plan_node" where
  "add_residual cs joined =
     (case optimizer_ir_and_chain (map cj_node (filter (\<lambda>c. cj_dest c = Dest_Residual) cs)) of
        None \<Rightarrow> joined
      | Some chain \<Rightarrow> P_Filter joined (optimizer_ir_make_where chain))"

text \<open>The rewritten plan, or \<open>Some None\<close> where the code returns \<open>NULL\<close> and the
  query is left alone.\<close>

definition optimizer_rewrite_from_where ::
  "num_env \<Rightarrow> (opt_relation list \<Rightarrow> opt_step list \<Rightarrow> opt_conjunct list \<Rightarrow> (nat list \<times> opt_edge list) option) \<Rightarrow>
   plan_node \<Rightarrow> ir_node option \<Rightarrow> plan_node option option" where
  "optimizer_rewrite_from_where env search from_plan where_ir =
     (case optimizer_flatten_from from_plan ([], []) of
        None \<Rightarrow> Some None
      | Some (rels, steps) \<Rightarrow>
          if length rels < 2 then Some None
          else
            let sc = rel_scope rels;
                cs = optimizer_load_conjuncts where_ir steps sc;
                had_conditions = (Option.bind where_ir where_root \<noteq> None \<or>
                  list_ex (\<lambda>s. on_condition s \<noteq> None) (drop 1 steps))
            in if cs = [] \<and> had_conditions then Some None
               else case rewrite_conditions env sc steps cs of
                 None \<Rightarrow> None
               | Some (steps, cs, always_empty) \<Rightarrow>
                   let found = (if always_empty then None else search rels steps cs);
                       order = (case found of None \<Rightarrow> [0..<length rels]
                         | Some (group_order, _) \<Rightarrow> group_order @ [length group_order..<length rels])
                   in Some (Some (add_residual cs (assemble_joins rels steps cs order (map_option snd found)))))"

end
