(* ===== verification/Opt_Rewrite_Sound.thy ===== *)
theory Opt_Rewrite_Sound
  imports Opt_Rewrite
begin

text \<open>
  The rewritten plan has the rows of the plan it replaces. The plan built from a list of conjuncts and
  the plan as it was written are both read as a flat description whose conditions are the conjuncts at
  their destinations; every pass of the rewrite is shown to keep the rows of that description.
\<close>

section \<open>The description of a list of conjuncts\<close>

definition filter_at :: "num_env \<Rightarrow> scope \<Rightarrow> nat \<Rightarrow> ir_node \<Rightarrow> nat \<Rightarrow> bool" where
  "filter_at env sc i n j =
     qe_row_condition_eval env [(fst (sc ! i), [])] [Some j] (optimizer_ir_strip_column_qualifiers n)"

definition cond_at :: "num_env \<Rightarrow> scope \<Rightarrow> nat \<Rightarrow> ir_node \<Rightarrow> joined_row \<Rightarrow> bool" where
  "cond_at env sc k n r = qe_row_condition_eval env (take (Suc k) sc) r n"

definition flat_of :: "num_env \<Rightarrow> scope \<Rightarrow> opt_step list \<Rightarrow> opt_conjunct list \<Rightarrow> flat" where
  "flat_of env sc steps cs =
     \<lparr>fl_rows = (\<lambda>i. [0..<length (table_rows (fst (sc ! i)))]),
      fl_left = supplies_null steps,
      fl_filter = (\<lambda>i j. \<forall>c \<in> set cs. cj_dest c = Dest_Filter \<and> cj_target c = i \<longrightarrow> filter_at env sc i (cj_node c) j),
      fl_on = (\<lambda>k r. \<forall>c \<in> set cs. cj_dest c = Dest_OnClause \<and> cj_target c = k \<longrightarrow> cond_at env sc k (cj_node c) r),
      fl_stage = (\<lambda>k r. k = length sc - 1 \<longrightarrow> (\<forall>c \<in> set cs. cj_dest c = Dest_Residual \<longrightarrow> qe_row_condition_eval env sc r (cj_node c)))\<rparr>"

definition put_conjunct :: "num_env \<Rightarrow> scope \<Rightarrow> opt_conjunct \<Rightarrow> flat \<Rightarrow> flat" where
  "put_conjunct env sc c d =
     (case cj_dest c of
        Dest_Residual \<Rightarrow> add_stage (length sc - 1) (\<lambda>r. qe_row_condition_eval env sc r (cj_node c)) d
      | Dest_Filter \<Rightarrow> add_filter (cj_target c) (filter_at env sc (cj_target c) (cj_node c)) d
      | Dest_OnClause \<Rightarrow> add_on (cj_target c) (cond_at env sc (cj_target c) (cj_node c)) d
      | Dest_Dropped \<Rightarrow> d)"

lemma flat_of_Cons: "flat_of env sc steps (c # cs) = put_conjunct env sc c (flat_of env sc steps cs)"
  by (cases "cj_dest c") (auto simp: flat_of_def put_conjunct_def flat_adds fun_eq_iff)

lemma flat_of_set: "set cs = set cs' \<Longrightarrow> flat_of env sc steps cs = flat_of env sc steps cs'"
  by (simp add: flat_of_def)

lemma put_conjunct_keeps [simp]:
  "fl_left (put_conjunct env sc c d) = fl_left d" "fl_rows (put_conjunct env sc c d) = fl_rows d"
  by (cases "cj_dest c"; simp add: put_conjunct_def flat_adds)+

lemma flat_of_keeps [simp]:
  "fl_left (flat_of env sc steps cs) = supplies_null steps"
  "fl_rows (flat_of env sc steps cs) i = [0..<length (table_rows (fst (sc ! i)))]"
  by (simp_all add: flat_of_def)

section \<open>The plan of a list of conjuncts\<close>

definition rels_ok :: "opt_relation list \<Rightarrow> bool" where
  "rels_ok rels \<longleftrightarrow> (\<forall>r \<in> set rels. \<exists>v. rel_scan r = P_Scan v (Some (rel_table r)) (rel_alias r))"

lemma rels_okD:
  assumes "rels_ok rels" "i < length rels"
  obtains v where "rel_scan (rels ! i) = P_Scan v (Some (fst (rel_scope rels ! i))) (snd (rel_scope rels ! i))"
  using assms nth_mem [OF assms(2)] by (fastforce simp: rels_ok_def rel_scope_def)

lemma rel_scope_length [simp]: "length (rel_scope rels) = length rels"
  by (simp add: rel_scope_def)

lemma nodes_at_filter:
  "eval_opt env [(fst (sc ! i), [])] [Some j] (optimizer_ir_and_chain (map optimizer_ir_strip_column_qualifiers (nodes_at Dest_Filter i cs))) \<longleftrightarrow>
     fl_filter (flat_of env sc steps cs) i j"
  by (auto simp: eval_and_chain nodes_at_def list_all_iff flat_of_def filter_at_def)

lemma build_relation_plan:
  assumes "rels_ok rels" "i < length rels"
  shows "plan_scope (optimizer_build_relation_plan rels cs i) = [rel_scope rels ! i]"
    and "plan_rows env (optimizer_build_relation_plan rels cs i) =
      map (\<lambda>j. [Some j]) (filter (fl_filter (flat_of env (rel_scope rels) steps cs) i) (fl_rows (flat_of env (rel_scope rels) steps cs) i))"
proof -
  obtain v where v: "rel_scan (rels ! i) = P_Scan v (Some (fst (rel_scope rels ! i))) (snd (rel_scope rels ! i))"
    by (rule rels_okD [OF assms])
  show "plan_scope (optimizer_build_relation_plan rels cs i) = [rel_scope rels ! i]"
    using v by (simp add: optimizer_build_relation_plan_def split: option.splits)
  let ?ns = "nodes_at Dest_Filter i cs"
  have fl: "fl_filter (flat_of env (rel_scope rels) steps cs) i j \<longleftrightarrow>
      eval_opt env [(fst (rel_scope rels ! i), [])] [Some j]
        (map_option optimizer_ir_strip_column_qualifiers (optimizer_ir_and_chain ?ns))" for j
    unfolding strip_and_chain by (rule nodes_at_filter [symmetric])
  show "plan_rows env (optimizer_build_relation_plan rels cs i) =
      map (\<lambda>j. [Some j]) (filter (fl_filter (flat_of env (rel_scope rels) steps cs) i) (fl_rows (flat_of env (rel_scope rels) steps cs) i))"
  proof (cases "optimizer_ir_and_chain ?ns")
    case None
    then show ?thesis using v fl by (simp add: optimizer_build_relation_plan_def)
  next
    case (Some chain)
    have wr: "where_root (optimizer_ir_make_where e) = Some e" for e
      by (simp add: where_root_def optimizer_ir_make_where_def ir_node_make_def ir_node_add_child_def)
    have "fl_filter (flat_of env (rel_scope rels) steps cs) i = (\<lambda>j. qe_row_condition_eval env [(fst (rel_scope rels ! i), [])]
        [Some j] (optimizer_ir_strip_column_qualifiers chain))"
      using Some by (simp add: fun_eq_iff fl)
    with wr show ?thesis using v Some by (simp add: optimizer_build_relation_plan_def qe_cpu_scan_filter_def)
  qed
qed

lemma join_rows_extend:
  "join_rows env sc 1 is_left cond ls (map (\<lambda>j. [Some j]) (filter filt js)) =
     concat (map (extend_row is_left filt (\<lambda>r. eval_opt env sc r cond) js) ls)"
  by (auto simp: join_rows_def extend_row_def Let_def filter_map comp_def filter_empty_conv intro!: arg_cong [where f = concat] map_cong)

lemma final_join_type_left: "is_left_type (optimizer_final_join_type s b) \<longleftrightarrow> null_supplying s"
proof -
  have "is_left_type ''left''" "\<not> is_left_type ''inner''" "\<not> is_left_type ''cross''" by code_simp+
  then show ?thesis by (simp add: optimizer_final_join_type_def)
qed

text \<open>The description without the conditions on the joined rows.\<close>

definition no_stage :: "flat \<Rightarrow> flat" where
  "no_stage d = d\<lparr>fl_stage := \<lambda>_ _. True\<rparr>"

lemma no_stage_rows: "(\<And>j r. j < k \<Longrightarrow> fl_stage d j r) \<Longrightarrow> flat_rows d k = filter (fl_stage d k) (flat_rows (no_stage d) k)"
proof (induction k)
  case (Suc k)
  have "flat_rows d k = filter (fl_stage d k) (flat_rows (no_stage d) k)" using Suc by simp
  also have "\<dots> = flat_rows (no_stage d) k" using Suc.prems by (simp add: filter_True)
  finally show ?case by (simp add: no_stage_def)
qed (simp add: no_stage_def)

lemma assemble_rows:
  assumes ok: "rels_ok rels" and sc: "sc = rel_scope rels"
  shows "k < length rels \<Longrightarrow>
    plan_scope (fold (join_step rels steps cs [0..<length rels] None) [1..<Suc k] (optimizer_build_relation_plan rels cs 0)) = take (Suc k) sc \<and>
    plan_rows env (fold (join_step rels steps cs [0..<length rels] None) [1..<Suc k] (optimizer_build_relation_plan rels cs 0)) =
      flat_rows (no_stage (flat_of env sc steps cs)) k"
proof (induction k)
  case 0
  then have "take (Suc 0) sc = [sc ! 0]" unfolding sc by (simp add: take_Suc_conv_app_nth)
  then show ?case
    using build_relation_plan(1) [OF ok 0, of cs] build_relation_plan(2) [OF ok 0, of env cs steps] sc by (simp add: no_stage_def)
next
  case (Suc k)
  let ?J = "fold (join_step rels steps cs [0..<length rels] None) [1..<Suc k] (optimizer_build_relation_plan rels cs 0)"
  let ?R = "optimizer_build_relation_plan rels cs (Suc k)"
  let ?on = "map cj_node (filter (\<lambda>c. cj_dest c = Dest_OnClause \<and> cj_target c = Suc k) cs)"
  have step: "join_step rels steps cs [0..<length rels] None (Suc k) ?J =
      P_Join (optimizer_final_join_type (steps ! Suc k) (?on \<noteq> [])) ?J ?R (optimizer_ir_and_chain ?on)"
    using Suc.prems by (simp add: join_step_def optimizer_step_position_for_conjunct_def del: optimizer_ir_and_chain.simps)
  note R = build_relation_plan(1) [OF ok Suc.prems, of cs] build_relation_plan(2) [OF ok Suc.prems, of env cs steps]
  have scope: "take (Suc k) sc @ [sc ! Suc k] = take (Suc (Suc k)) sc"
    using Suc.prems sc by (simp add: take_Suc_conv_app_nth)
  have on: "(\<lambda>r. eval_opt env (take (Suc (Suc k)) sc) r (optimizer_ir_and_chain ?on)) = fl_on (flat_of env sc steps cs) (Suc k)"
    by (auto simp: fun_eq_iff eval_and_chain list_all_iff flat_of_def cond_at_def)
  have "plan_rows env (P_Join (optimizer_final_join_type (steps ! Suc k) (?on \<noteq> [])) ?J ?R (optimizer_ir_and_chain ?on)) =
      concat (map (extend_row (supplies_null steps (Suc k)) (fl_filter (flat_of env sc steps cs) (Suc k))
        (fl_on (flat_of env sc steps cs) (Suc k)) (fl_rows (flat_of env sc steps cs) (Suc k)))
        (flat_rows (no_stage (flat_of env sc steps cs)) k))"
    using Suc R scope sc on join_rows_extend [of env "take (Suc (Suc k)) sc"]
    by (simp add: final_join_type_left supplies_null_def)
  then have rows: "plan_rows env (P_Join (optimizer_final_join_type (steps ! Suc k) (?on \<noteq> [])) ?J ?R (optimizer_ir_and_chain ?on)) =
      flat_rows (no_stage (flat_of env sc steps cs)) (Suc k)"
    by (simp add: no_stage_def)
  have "fold (join_step rels steps cs [0..<length rels] None) [1..<Suc (Suc k)] (optimizer_build_relation_plan rels cs 0) =
      P_Join (optimizer_final_join_type (steps ! Suc k) (?on \<noteq> [])) ?J ?R (optimizer_ir_and_chain ?on)"
    using step by (simp del: optimizer_ir_and_chain.simps)
  then show ?case using rows Suc R(1) scope sc by simp
qed

section \<open>Moving one conjunct\<close>

definition conj_ok :: "scope \<Rightarrow> opt_conjunct \<Rightarrow> bool" where
  "conj_ok sc c \<longleftrightarrow> cond_plain (cj_node c) \<and>
     (\<not> cj_unresolved c \<longrightarrow> resolved sc (cj_node c)) \<and>
     (\<forall>i. bit (cj_mask c) i \<longleftrightarrow> i \<in> touched sc (cj_node c)) \<and>
     (\<not> cj_from_where c \<longrightarrow> 0 < cj_step c \<and> cj_step c < length sc \<and>
       (\<not> cj_unresolved c \<longrightarrow> touched sc (cj_node c) \<subseteq> {..cj_step c}))"

lemma conj_ok_dest [simp]: "conj_ok sc (c\<lparr>cj_dest := x\<rparr>) \<longleftrightarrow> conj_ok sc c"
  by (simp add: conj_ok_def)

text \<open>Where a conjunct was written.\<close>

definition written :: "opt_conjunct \<Rightarrow> opt_conjunct" where
  "written c = (if cj_dest c = Dest_Dropped then c
     else if cj_from_where c then c\<lparr>cj_dest := Dest_Residual\<rparr> else dest Dest_OnClause (cj_step c) c)"

lemma move_to_stage:
  assumes "names_ok sc" "resolved sc n" "cond_plain n" "touched sc n \<subseteq> {..h}" "h \<le> m" "m < length sc" "m \<le> N"
  shows "flat_rows (add_stage m (cond_at env sc m n) d) N = flat_rows (add_stage h (cond_at env sc h n) d) N"
proof (rule move_stage [OF assms(5,7)])
  fix r :: joined_row
  assume r: "length r = Suc m"
  show "cond_at env sc m n r = cond_at env sc h n (take (Suc h) r)"
    unfolding cond_at_def using assms by (intro eval_prefix) auto
qed

lemma move_to_filter:
  assumes "names_ok sc" "resolved sc n" "cond_plain n" "touched sc n \<subseteq> {h}" "0 < h" "h < length sc"
  shows "flat_rows (add_on h (cond_at env sc h n) d) N = flat_rows (add_filter h (filter_at env sc h n) d) N"
proof (rule move_on_filter [OF assms(5)])
  fix r :: joined_row and j
  assume "length r = h"
  then show "cond_at env sc h n (r @ [Some j]) = filter_at env sc h n j"
    unfolding cond_at_def filter_at_def using assms by (intro eval_single) (auto simp: nth_append)
qed

lemma move_to_filter_0:
  assumes "names_ok sc" "resolved sc n" "cond_plain n" "touched sc n \<subseteq> {0}" "0 < length sc"
  shows "flat_rows (add_stage 0 (cond_at env sc 0 n) d) N = flat_rows (add_filter 0 (filter_at env sc 0 n) d) N"
proof (rule move_stage_filter)
  fix j
  show "cond_at env sc 0 n [Some j] = filter_at env sc 0 n j"
    unfolding cond_at_def filter_at_def using assms by (intro eval_single) (auto simp: Suc_le_eq)
qed

lemma popcount_positive:
  assumes "optimizer_mask_popcount m \<noteq> 0" "optimizer_mask_popcount m \<noteq> 1"
  shows "0 < optimizer_mask_highest m"
proof (rule ccontr)
  assume 0: "\<not> 0 < optimizer_mask_highest m"
  have "m \<noteq> 0" using assms(1) popcount_0 [of m] by simp
  then have "bit m i \<longleftrightarrow> i = 0" for i using 0 mask_highest [of m] by fastforce
  then have "bit m 0" "drop_bit 1 m = 0"
    using word_nonzero_bit [of "drop_bit 1 m"] bit_drop_1 [of m] by auto
  then show False using assms(2) \<open>m \<noteq> 0\<close> by (subst (asm) optimizer_mask_popcount.simps) (simp add: popcount_0)
qed

lemma touched_highest:
  assumes "conj_ok sc c" "optimizer_mask_popcount (cj_mask c) \<noteq> 0"
  shows "touched sc (cj_node c) \<subseteq> {..optimizer_mask_highest (cj_mask c)}"
    "optimizer_mask_highest (cj_mask c) \<in> touched sc (cj_node c)" "optimizer_mask_highest (cj_mask c) < length sc"
proof -
  have nz: "cj_mask c \<noteq> 0" using assms(2) popcount_0 [of "cj_mask c"] by simp
  have b: "bit (cj_mask c) i \<longleftrightarrow> i \<in> touched sc (cj_node c)" for i using assms(1) by (simp add: conj_ok_def)
  show "touched sc (cj_node c) \<subseteq> {..optimizer_mask_highest (cj_mask c)}" using mask_highest(2) b by blast
  show "optimizer_mask_highest (cj_mask c) \<in> touched sc (cj_node c)" using mask_highest(1) [OF nz] b by blast
  then show "optimizer_mask_highest (cj_mask c) < length sc" by (rule touched_bound)
qed

lemma touched_single:
  assumes "conj_ok sc c" "optimizer_mask_popcount (cj_mask c) = 1"
  shows "touched sc (cj_node c) = {optimizer_mask_highest (cj_mask c)}"
  using mask_single [OF assms(2)] assms(1) by (auto simp: conj_ok_def)

lemma dest_simps [simp]:
  "cj_dest (dest d t c) = d" "cj_target (dest d t c) = t" "cj_node (dest d t c) = cj_node c"
  by (simp_all add: dest_def)

lemma cond_at_last: "0 < length sc \<Longrightarrow> cond_at env sc (length sc - 1) n = (\<lambda>r. qe_row_condition_eval env sc r n)"
  by (simp add: cond_at_def fun_eq_iff)

lemma assign_where_rows:
  assumes ok: "names_ok sc" and c: "conj_ok sc c" "cj_from_where c" and left: "fl_left d = supplies_null steps"
    and n: "0 < length sc"
  shows "flat_rows (put_conjunct env sc (c\<lparr>cj_dest := Dest_Residual\<rparr>) d) (length sc - 1) =
    flat_rows (put_conjunct env sc (assign_where steps c) d) (length sc - 1)"
proof -
  let ?N = "length sc - 1" and ?n = "cj_node c" and ?pc = "optimizer_mask_popcount (cj_mask c)"
  let ?h = "optimizer_mask_highest (cj_mask c)"
  have plain: "cond_plain ?n" using c by (simp add: conj_ok_def)
  have residual: "put_conjunct env sc (c\<lparr>cj_dest := Dest_Residual\<rparr>) d = add_stage ?N (cond_at env sc ?N ?n) d"
    unfolding cond_at_last [OF n] by (simp add: put_conjunct_def)
  consider (stay) "assign_where steps c = c\<lparr>cj_dest := Dest_Residual\<rparr>"
    | (filter) "\<not> cj_unresolved c" "?pc = 1" "\<not> (?h > 0 \<and> supplies_null steps ?h)" "assign_where steps c = dest Dest_Filter ?h c"
    | (on) "\<not> cj_unresolved c" "?pc \<noteq> 0" "?pc \<noteq> 1" "\<not> supplies_null steps ?h" "assign_where steps c = dest Dest_OnClause ?h c"
  proof (cases "cj_unresolved c \<or> ?pc = 0")
    case True
    then show ?thesis by (intro that(1)) (simp add: assign_where_def)
  next
    case usable: False
    show ?thesis
    proof (cases "?pc = 1")
      case True
      show ?thesis
      proof (cases "?h > 0 \<and> supplies_null steps ?h")
        case blocked: True
        show ?thesis by (rule that(1)) (use usable True blocked in \<open>simp add: assign_where_def\<close>)
      next
        case free: False
        show ?thesis by (rule that(2)) (use usable True free in \<open>auto simp: assign_where_def\<close>)
      qed
    next
      case several: False
      show ?thesis
      proof (cases "supplies_null steps ?h")
        case True
        show ?thesis by (rule that(1)) (use usable several True in \<open>simp add: assign_where_def\<close>)
      next
        case False
        show ?thesis by (rule that(3)) (use usable several False in \<open>auto simp: assign_where_def\<close>)
      qed
    qed
  qed
  then show ?thesis
  proof cases
    case filter
    note t = touched_single [OF c(1) filter(2)]
    have h: "?h < length sc" using touched_highest [OF c(1)] filter(2) by simp
    have r: "resolved sc ?n" using c filter(1) by (simp add: conj_ok_def)
    have "flat_rows (add_stage ?N (cond_at env sc ?N ?n) d) ?N = flat_rows (add_stage ?h (cond_at env sc ?h ?n) d) ?N"
      using h t by (intro move_to_stage [OF ok r plain]) auto
    also have "\<dots> = flat_rows (add_filter ?h (filter_at env sc ?h ?n) d) ?N"
    proof (cases "?h = 0")
      case True
      then show ?thesis using move_to_filter_0 [OF ok r plain] t n by simp
    next
      case False
      then have "\<not> fl_left d ?h" using filter(3) left by simp
      then show ?thesis using False t h move_stage_on [of ?h d] move_to_filter [OF ok r plain, of ?h] by simp
    qed
    finally show ?thesis unfolding residual filter(4) by (simp add: put_conjunct_def)
  next
    case on
    note t = touched_highest [OF c(1) on(2)]
    have r: "resolved sc ?n" using c on(1) by (simp add: conj_ok_def)
    have "flat_rows (add_stage ?N (cond_at env sc ?N ?n) d) ?N = flat_rows (add_stage ?h (cond_at env sc ?h ?n) d) ?N"
      using t by (intro move_to_stage [OF ok r plain]) auto
    also have "\<dots> = flat_rows (add_on ?h (cond_at env sc ?h ?n) d) ?N"
      using popcount_positive [OF on(2,3)] on(4) left by (intro move_stage_on) auto
    finally show ?thesis unfolding residual on(5) by (simp add: put_conjunct_def)
  qed (simp)
qed

lemma assign_on_rows:
  assumes ok: "names_ok sc" and c: "conj_ok sc c" "\<not> cj_from_where c" and left: "fl_left d = supplies_null steps"
    and inner: "\<not> is_left_type (step_type (steps ! cj_step c)) \<Longrightarrow> \<not> supplies_null steps (cj_step c)"
  shows "flat_rows (put_conjunct env sc (dest Dest_OnClause (cj_step c) c) d) (length sc - 1) =
    flat_rows (put_conjunct env sc (assign_on steps c) d) (length sc - 1)"
proof -
  let ?N = "length sc - 1" and ?n = "cj_node c" and ?pc = "optimizer_mask_popcount (cj_mask c)" and ?k = "cj_step c"
  let ?h = "optimizer_mask_highest (cj_mask c)"
  have plain: "cond_plain ?n" and k: "0 < ?k" "?k < length sc" using c by (simp_all add: conj_ok_def)
  have on: "put_conjunct env sc (dest Dest_OnClause ?k c) d = add_on ?k (cond_at env sc ?k ?n) d"
    by (simp add: put_conjunct_def)
  consider (stay) "assign_on steps c = dest Dest_OnClause ?k c"
    | (own) "\<not> cj_unresolved c" "touched sc ?n \<subseteq> {?k}" "assign_on steps c = dest Dest_Filter ?k c"
    | (below) "\<not> cj_unresolved c" "?pc = 1" "?h < ?k" "\<not> is_left_type (step_type (steps ! ?k))" "\<not> (?h > 0 \<and> supplies_null steps ?h)"
        "assign_on steps c = dest Dest_Filter ?h c"
  proof -
    have none: "touched sc ?n = {}" if "?pc = 0" using that c(1) popcount_0 [of "cj_mask c"] by (auto simp: conj_ok_def)
    have one: "touched sc ?n = {?h}" if "?pc = 1" using touched_single [OF c(1) that] .
    show ?thesis
    proof (cases "\<not> cj_unresolved c \<and> ?pc = 0")
      case True
      then show ?thesis using none by (intro that(2)) (auto simp: assign_on_def Let_def)
    next
      case False
      show ?thesis
      proof (cases "\<not> cj_unresolved c \<and> ?pc = 1 \<and> ?h \<le> ?k")
        case True
        show ?thesis
        proof (cases "?h = ?k")
          case eq: True
          show ?thesis
            by (rule that(2)) (use True eq one in \<open>auto simp: assign_on_def Let_def\<close>)
        next
          case lt: False
          show ?thesis
          proof (cases "\<not> is_left_type (step_type (steps ! ?k)) \<and> \<not> (?h > 0 \<and> supplies_null steps ?h)")
            case free: True
            show ?thesis by (rule that(3)) (use True lt free in \<open>auto simp: assign_on_def Let_def\<close>)
          next
            case bound: False
            show ?thesis by (rule that(1)) (use True lt bound in \<open>auto simp: assign_on_def Let_def\<close>)
          qed
        qed
      next
        case rest: False
        show ?thesis by (rule that(1)) (use False rest in \<open>auto simp: assign_on_def Let_def\<close>)
      qed
    qed
  qed
  then show ?thesis
  proof cases
    case own
    have r: "resolved sc ?n" using c own(1) by (simp add: conj_ok_def)
    show ?thesis unfolding on own(3) using move_to_filter [OF ok r plain own(2) k] by (simp add: put_conjunct_def)
  next
    case below
    have r: "resolved sc ?n" using c below(1) by (simp add: conj_ok_def)
    note t = touched_single [OF c(1) below(2)]
    have h: "?h < length sc" using below(3) k by simp
    have not_left: "\<not> fl_left d ?k" using inner below(4) left by simp
    have "flat_rows (add_on ?k (cond_at env sc ?k ?n) d) ?N = flat_rows (add_stage ?k (cond_at env sc ?k ?n) d) ?N"
      using move_stage_on [OF k(1) not_left] by simp
    also have "\<dots> = flat_rows (add_stage ?h (cond_at env sc ?h ?n) d) ?N"
      using t below(3) k by (intro move_to_stage [OF ok r plain]) auto
    also have "\<dots> = flat_rows (add_filter ?h (filter_at env sc ?h ?n) d) ?N"
    proof (cases "?h = 0")
      case True
      have "0 < length sc" using k by linarith
      then show ?thesis using True move_to_filter_0 [OF ok r plain] t by simp
    next
      case False
      then have "\<not> fl_left d ?h" using below(5) left by simp
      then show ?thesis using False t h move_stage_on [of ?h d] move_to_filter [OF ok r plain, of ?h] by simp
    qed
    finally show ?thesis unfolding on below(6) by (simp add: put_conjunct_def)
  qed simp
qed

text \<open>All conjuncts where they were written, and where they are assigned.\<close>

lemma assign_rows:
  assumes ok: "names_ok sc" and c: "\<And>c. c \<in> set cs \<Longrightarrow> conj_ok sc c" and n: "0 < length sc"
    and inner: "\<And>k. k < length sc \<Longrightarrow> \<not> is_left_type (step_type (steps ! k)) \<Longrightarrow> \<not> supplies_null steps k"
  shows "flat_rows (flat_of env sc steps (map written cs)) (length sc - 1) =
    flat_rows (flat_of env sc steps (optimizer_assign_destinations steps cs)) (length sc - 1)"
proof -
  define f where "f c = (if cj_dest c = Dest_Dropped then c else if cj_from_where c then assign_where steps c else assign_on steps c)" for c
  have same: "flat_rows (put_conjunct env sc (written c) d) (length sc - 1) = flat_rows (put_conjunct env sc (f c) d) (length sc - 1)"
    if "c \<in> set cs" "fl_left d = supplies_null steps" for c d
  proof (cases "cj_dest c = Dest_Dropped")
    case False
    have "cj_step c < length sc" if "\<not> cj_from_where c" using c [OF \<open>c \<in> set cs\<close>] that by (simp add: conj_ok_def)
    then show ?thesis
      using False assign_where_rows [OF ok c [OF that(1)] _ that(2) n] assign_on_rows [OF ok c [OF that(1)] _ that(2) inner]
      by (simp add: written_def f_def)
  qed (simp add: written_def f_def)
  have "flat_rows (flat_of env sc steps (map written xs @ ys)) (length sc - 1) =
      flat_rows (flat_of env sc steps (map f xs @ ys)) (length sc - 1)" if "set xs \<subseteq> set cs" for xs ys
    using that
  proof (induction xs arbitrary: ys)
    case (Cons x xs)
    have "flat_rows (flat_of env sc steps (map written (x # xs) @ ys)) (length sc - 1) =
        flat_rows (put_conjunct env sc (f x) (flat_of env sc steps (map written xs @ ys))) (length sc - 1)"
      using same [of x "flat_of env sc steps (map written xs @ ys)"] Cons.prems by (simp add: flat_of_Cons)
    also have "put_conjunct env sc (f x) (flat_of env sc steps (map written xs @ ys)) = flat_of env sc steps (map written xs @ f x # ys)"
      unfolding flat_of_Cons [symmetric] by (rule flat_of_set) auto
    also have "flat_rows \<dots> (length sc - 1) = flat_rows (flat_of env sc steps (map f xs @ f x # ys)) (length sc - 1)"
      using Cons by simp
    also have "flat_of env sc steps (map f xs @ f x # ys) = flat_of env sc steps (map f (x # xs) @ ys)"
      by (rule flat_of_set) auto
    finally show ?case .
  qed simp
  from this [of cs "[]"] show ?thesis by (simp add: optimizer_assign_destinations_def f_def [abs_def])
qed

section \<open>The rows a list of conjuncts describes\<close>

lemma flat_of_rows:
  "flat_rows (flat_of env sc steps cs) (length sc - 1) =
     filter (\<lambda>r. \<forall>c \<in> set cs. cj_dest c = Dest_Residual \<longrightarrow> qe_row_condition_eval env sc r (cj_node c))
       (flat_rows (no_stage (flat_of env sc steps cs)) (length sc - 1))"
  by (subst no_stage_rows) (simp_all add: flat_of_def)

lemma flat_rows_on:
  "r \<in> set (flat_rows d N) \<Longrightarrow> 0 < k \<Longrightarrow> k \<le> N \<Longrightarrow> \<not> fl_left d k \<Longrightarrow> fl_on d k (take (Suc k) r)"
proof (induction N arbitrary: r)
  case (Suc N)
  from Suc.prems(1) obtain s where s: "s \<in> set (flat_rows d N)"
    "r \<in> set (extend_row (fl_left d (Suc N)) (fl_filter d (Suc N)) (fl_on d (Suc N)) (fl_rows d (Suc N)) s)" by auto
  show ?case
  proof (cases "k = Suc N")
    case True
    then have "fl_on d k r" using s(2) Suc.prems(4) by (auto simp: extend_row_def Let_def split: if_splits)
    moreover have "length r = Suc k" using flat_rows_length [OF Suc.prems(1)] True by simp
    ultimately show ?thesis by simp
  next
    case False
    then have "take (Suc k) r = take (Suc k) s" using extend_prefix [OF s] Suc.prems(3) by simp
    then show ?thesis using Suc.IH [OF s(1) Suc.prems(2) _ Suc.prems(4)] Suc.prems(3) False by simp
  qed
qed simp

lemma rows_hold:
  assumes ok: "names_ok sc" and r: "r \<in> set (flat_rows (flat_of env sc steps (map written cs)) (length sc - 1))"
    and c: "c \<in> set cs" "conj_ok sc c"
  shows "cj_from_where c \<Longrightarrow> cj_dest c \<noteq> Dest_Dropped \<Longrightarrow> qe_row_condition_eval env sc r (cj_node c)"
    and "holds_on env sc steps r c"
proof -
  have wc: "written c \<in> set (map written cs)" "cj_node (written c) = cj_node c" using c by (auto simp: written_def)
  show stage: "qe_row_condition_eval env sc r (cj_node c)" if "cj_from_where c" "cj_dest c \<noteq> Dest_Dropped"
  proof -
    have "cj_dest (written c) = Dest_Residual" using that by (simp add: written_def)
    then show ?thesis using r wc unfolding flat_of_rows by force
  qed
  show "holds_on env sc steps r c"
  proof (cases "cj_from_where c \<or> cj_dest c = Dest_Dropped \<or> cj_unresolved c \<or> supplies_null steps (cj_step c)")
    case False
    let ?k = "cj_step c"
    have k: "0 < ?k" "?k \<le> length sc - 1" "touched sc (cj_node c) \<subseteq> {..?k}" and n: "resolved sc (cj_node c)" "cond_plain (cj_node c)"
      using c(2) False by (auto simp: conj_ok_def)
    have "written c = dest Dest_OnClause ?k c" using False by (simp add: written_def)
    moreover have "fl_on (flat_of env sc steps (map written cs)) ?k (take (Suc ?k) r)"
      by (rule flat_rows_on [OF r k(1,2)]) (use False in simp)
    ultimately have "cond_at env sc ?k (cj_node c) (take (Suc ?k) r)"
      using wc(1) unfolding flat_of_def by (force simp del: set_map)
    moreover have "cond_at env sc ?k (cj_node c) (take (Suc ?k) r) = qe_row_condition_eval env (take (length sc) sc) r (cj_node c)"
      unfolding cond_at_def by (rule eval_prefix [OF ok _ _ n]) (use k in auto)
    ultimately show ?thesis by (simp add: holds_on_def)
  qed (use stage in \<open>auto simp: holds_on_def\<close>)
qed

section \<open>Folding\<close>

lemma fold_dropped:
  assumes "optimizer_fold_comparison env (cj_node c) = Some True"
  shows "put_conjunct env sc (written c) d = d"
  using fold_comparison_value [OF assms]
  by (simp add: written_def put_conjunct_def cond_at_def flat_adds)

lemma fold_rows:
  "flat_of env sc steps (map written (map (fold_conjunct env) cs)) = flat_of env sc steps (map written cs)"
proof (induction cs)
  case (Cons c cs)
  show ?case
  proof (cases "optimizer_fold_comparison env (cj_node c) = Some True")
    case True
    have "written (fold_conjunct env c) = fold_conjunct env c" "cj_dest (fold_conjunct env c) = Dest_Dropped"
      using True by (simp_all add: fold_conjunct_def written_def)
    then show ?thesis using Cons fold_dropped [OF True] by (simp add: flat_of_Cons put_conjunct_def)
  next
    case False
    then show ?thesis using Cons by (simp add: flat_of_Cons fold_conjunct_def)
  qed
qed simp

lemma fold_rejects:
  assumes "optimizer_fold_comparison env n = Some b"
  shows "\<not> optimizer_rejects_null sc i n"
proof -
  from assms obtain op l r rest where n: "n = IR_Node IrOperator op (l # r # rest)"
    by (cases n) (auto simp: optimizer_fold_comparison_def split: if_splits list.splits)
  have lr: "ir_type l \<noteq> IrColumn" "ir_type r \<noteq> IrColumn" and op: "op \<in> set comparison_ops"
    using assms compare_numbers_fold
    by (auto simp: n optimizer_fold_comparison_def optimizer_number_from_literal_def comparison_ops_def Let_def split: if_splits; fastforce)+
  then show ?thesis using comparison_ops_plain [OF op] by (simp add: n is_column_of_def)
qed

section \<open>Left joins\<close>

lemma set_inner_flat_of:
  "i < length steps \<Longrightarrow> set_inner i (flat_of env sc steps cs) = flat_of env sc (clear_supplying i steps) cs"
  by (auto simp: set_inner_def flat_of_def clear_supplying_def supplies_null_def fun_eq_iff nth_list_update)

definition steps_from :: "opt_step list \<Rightarrow> opt_step list \<Rightarrow> bool" where
  "steps_from steps steps' \<longleftrightarrow> length steps' = length steps \<and>
     (\<forall>k < length steps. step_type (steps' ! k) = step_type (steps ! k) \<and>
       (supplies_null steps' k \<longrightarrow> supplies_null steps k))"

lemma steps_from_clear: "steps_from steps steps' \<Longrightarrow> i < length steps \<Longrightarrow> steps_from steps (clear_supplying i steps')"
  by (auto simp: steps_from_def clear_supplying_def supplies_null_def nth_list_update)

lemma convert_conjunct_rows:
  assumes ok: "names_ok sc" and len: "length sc = length steps" "0 < length sc"
    and c: "c \<in> set cs" "conj_ok sc c" "cj_dest c = Dest_Dropped \<Longrightarrow> \<exists>b. optimizer_fold_comparison env (cj_node c) = Some b"
    and from0: "steps_from steps steps'"
  shows "steps_from steps (convert_conjunct sc c steps') \<and>
    flat_rows (flat_of env sc (convert_conjunct sc c steps') (map written cs)) (length sc - 1) =
    flat_rows (flat_of env sc steps' (map written cs)) (length sc - 1)"
proof (cases "\<not> cj_from_where c \<or> cj_unresolved c")
  case False
  let ?f = "\<lambda>i steps. if \<not> bit (cj_mask c) i \<or> \<not> supplies_null steps i then steps
     else if optimizer_rejects_null sc i (cj_node c) then clear_supplying i steps else steps"
  let ?rows = "\<lambda>s. flat_rows (flat_of env sc s (map written cs)) (length sc - 1)"
  have step: "steps_from steps (?f i s) \<and> ?rows (?f i s) = ?rows s" if i: "0 < i" "i < length sc" and s: "steps_from steps s" for i s
  proof (cases "optimizer_rejects_null sc i (cj_node c)")
    case True
    then have live: "cj_dest c \<noteq> Dest_Dropped" using c(3) fold_rejects by metis
    have "r ! i \<noteq> None" if r: "r \<in> set (?rows s)" for r
    proof
      assume none: "r ! i = None"
      have "qe_row_condition_eval env sc r (cj_node c)" using rows_hold(1) [OF ok r c(1,2)] False live by simp
      moreover have "\<not> qe_row_condition_eval env (take (length sc) sc) r (cj_node c)"
        using rejects_null_false [OF ok i(2) _ none True] c(2) by (simp add: conj_ok_def)
      ultimately show False by simp
    qed
    then have "flat_rows (set_inner i (flat_of env sc s (map written cs))) (length sc - 1) = ?rows s"
      using i by (intro left_is_inner) auto
    moreover have "set_inner i (flat_of env sc s (map written cs)) = flat_of env sc (clear_supplying i s) (map written cs)"
      using set_inner_flat_of s i len by (simp add: steps_from_def)
    ultimately show ?thesis using steps_from_clear [OF s] s i len by simp
  qed (use s in simp)
  have "steps_from steps (fold ?f is s) \<and> ?rows (fold ?f is s) = ?rows s" if "set is \<subseteq> {1..<length sc}" "steps_from steps s" for "is" s
    using that
  proof (induction "is" arbitrary: s)
    case (Cons i "is")
    have st: "steps_from steps (?f i s)" "?rows (?f i s) = ?rows s" using step [of i s] Cons.prems by auto
    show ?case using Cons.IH [OF _ st(1)] st(2) Cons.prems(1) by simp
  qed simp
  from this [of "[1..<length sc]" steps'] show ?thesis using False from0 by (simp add: convert_conjunct_def)
qed (use from0 in \<open>auto simp: convert_conjunct_def\<close>)

lemma convert_rows:
  assumes ok: "names_ok sc" and len: "length sc = length steps" "0 < length sc"
    and c: "\<And>c. c \<in> set cs \<Longrightarrow> conj_ok sc c"
      "\<And>c. c \<in> set cs \<Longrightarrow> cj_dest c = Dest_Dropped \<Longrightarrow> \<exists>b. optimizer_fold_comparison env (cj_node c) = Some b"
  shows "steps_from steps (optimizer_convert_left_joins sc steps cs) \<and>
    flat_rows (flat_of env sc (optimizer_convert_left_joins sc steps cs) (map written cs)) (length sc - 1) =
    flat_rows (flat_of env sc steps (map written cs)) (length sc - 1)"
proof -
  have "steps_from steps (fold (convert_conjunct sc) xs s) \<and>
      flat_rows (flat_of env sc (fold (convert_conjunct sc) xs s) (map written cs)) (length sc - 1) =
      flat_rows (flat_of env sc s (map written cs)) (length sc - 1)"
    if "set xs \<subseteq> set cs" "steps_from steps s" for xs s
    using that
  proof (induction xs arbitrary: s)
    case (Cons x xs)
    have st: "steps_from steps (convert_conjunct sc x s)"
      "flat_rows (flat_of env sc (convert_conjunct sc x s) (map written cs)) (length sc - 1) =
       flat_rows (flat_of env sc s (map written cs)) (length sc - 1)"
      using convert_conjunct_rows [OF ok len _ c(1) c(2) Cons.prems(2), of x] Cons.prems(1) by auto
    show ?case using Cons.IH [OF _ st(1)] st(2) Cons.prems(1) by simp
  qed simp
  moreover have "steps_from steps steps" by (simp add: steps_from_def)
  ultimately show ?thesis unfolding optimizer_convert_left_joins_def by blast
qed

section \<open>Derived conditions\<close>

lemma derived_written: "written (derived_conjunct sc i col literal) = derived_conjunct sc i col literal"
  by (simp add: written_def derived_conjunct_def)

lemma derived_ok:
  assumes ok: "names_ok sc" "length sc \<le> 64" and d: "column_in sc i col" "literal_of cs literal"
    and cs: "\<And>c. c \<in> set cs \<Longrightarrow> cond_plain (cj_node c)"
  shows "conj_ok sc (derived_conjunct sc i col literal)"
proof -
  have lit: "ir_type literal = IrLiteral \<or> ir_type literal = IrNumeric" using d(2) by (simp add: literal_of_def)
  obtain c where c: "c \<in> set cs" "literal \<in> set (ir_children (cj_node c))" using d(2) by (auto simp: literal_of_def)
  then have plain: "cond_plain literal" using cs [OF c(1)] by (cases "cj_node c") (auto simp: list_all_iff)
  note col = resolve_qualified [OF ok(1) d(1)]
  have i: "i < 64" using d(1) ok(2) by (simp add: column_in_def)
  have lit_resolved: "resolved sc literal" "touched sc literal = {}" using lit by (cases literal; auto)+
  have "conj_ok sc (derived_conjunct sc i col literal) \<longleftrightarrow>
      cond_plain literal \<and> resolved sc literal \<and> (\<forall>k. bit (push_bit i 1 :: u64) k \<longleftrightarrow> k = i)"
    using col lit_resolved
    by (auto simp: conj_ok_def derived_conjunct_node derived_conjunct_def ir_node_make_def ir_node_add_child_def simp del: append_Cons)
  then show ?thesis using plain lit_resolved i by (auto simp: bit_exp_iff)
qed

lemma propagate_rows:
  assumes ok: "names_ok sc" and c: "\<And>c. c \<in> set cs \<Longrightarrow> conj_ok sc c"
    and res: "optimizer_propagate_constants env sc steps cs = Some (cs', conflict)"
  shows "flat_rows (flat_of env sc steps (map written cs')) (length sc - 1) =
    flat_rows (flat_of env sc steps (map written cs)) (length sc - 1)"
    and "conflict \<Longrightarrow> flat_rows (flat_of env sc steps (map written cs)) (length sc - 1) = []"
proof -
  let ?rows = "flat_rows (flat_of env sc steps (map written cs)) (length sc - 1)"
  have hold: "holds_on env sc steps r c" if "r \<in> set ?rows" "c \<in> set cs" for r c
    using rows_hold(2) [OF ok that(1) that(2) c [OF that(2)]] .
  show "?rows = []" if conflict
  proof (rule ccontr)
    assume "?rows \<noteq> []"
    then obtain r where "r \<in> set ?rows" by (metis last_in_set)
    from propagate_sound(1) [OF ok hold [OF this] res] show False using that by simp
  qed
  obtain ds where ds: "cs' = cs @ ds"
    "\<And>d. d \<in> set ds \<Longrightarrow> \<exists>i col literal. d = derived_conjunct sc i col literal \<and> column_in sc i col \<and> literal_of cs literal"
    by (rule propagate_shape [OF res]) blast
  have "written d = d" if "d \<in> set ds" for d using ds(2) [OF that] derived_written by auto
  then have w: "map written cs' = map written cs @ ds" using ds(1) by (simp add: map_idI)
  have residual: "cj_dest d = Dest_Residual" if "d \<in> set ds" for d using ds(2) [OF that] by (auto simp: derived_conjunct_def)
  have true: "qe_row_condition_eval env sc r (cj_node d)" if d: "d \<in> set ds" and r: "r \<in> set ?rows" for d r
  proof -
    have "d \<in> set cs \<or> qe_row_condition_eval env sc r (cj_node d)"
      using propagate_sound(2) [OF ok hold [OF r] res, of d] d ds(1) by simp
    moreover have "cj_from_where d" "cj_dest d \<noteq> Dest_Dropped" using ds(2) [OF d] by (auto simp: derived_conjunct_def)
    ultimately show ?thesis using rows_hold(1) [OF ok r] c by blast
  qed
  have "no_stage (flat_of env sc steps (map written cs @ ds)) = no_stage (flat_of env sc steps (map written cs))"
    using residual by (force simp: no_stage_def flat_of_def fun_eq_iff)
  then have "flat_rows (flat_of env sc steps (map written cs')) (length sc - 1) =
      filter (\<lambda>r. \<forall>d \<in> set ds. qe_row_condition_eval env sc r (cj_node d)) ?rows"
    unfolding w flat_of_rows using residual by (auto intro!: filter_cong)
  also have "\<dots> = ?rows" using true by (intro filter_True) blast
  finally show "flat_rows (flat_of env sc steps (map written cs')) (length sc - 1) = ?rows" .
qed

section \<open>Empty results\<close>

lemma filter_nothing: "(\<And>j. \<not> fl_filter d 0 j) \<Longrightarrow> flat_rows d n = []"
  by (induction n) simp_all

lemma on_nothing: "0 < k \<Longrightarrow> k \<le> n \<Longrightarrow> \<not> fl_left d k \<Longrightarrow> (\<And>r. \<not> fl_on d k r) \<Longrightarrow> flat_rows d n = []"
  using flat_rows_on [of _ d n k] by (metis last_in_set)

lemma empties_rows:
  assumes c: "c \<in> set cs" "conj_ok sc c" "cj_dest c \<noteq> Dest_Dropped" "empties env steps c"
  shows "flat_rows (flat_of env sc steps (map written cs)) (length sc - 1) = []"
proof -
  have fold: "optimizer_fold_comparison env (cj_node c) = Some False" using c(4) by (simp add: empties_def)
  have false: "\<not> qe_row_condition_eval env sc' r (cj_node c)" for sc' r
    using fold_comparison_value [OF fold] by simp
  show ?thesis
  proof (cases "cj_from_where c")
    case True
    then have "written c \<in> set (map written cs)" "cj_dest (written c) = Dest_Residual" "cj_node (written c) = cj_node c"
      using c by (auto simp: written_def)
    then show ?thesis unfolding flat_of_rows using false by (force simp: filter_empty_conv)
  next
    case False
    then have k: "0 < cj_step c" "cj_step c \<le> length sc - 1" "\<not> supplies_null steps (cj_step c)"
      using c(2,4) by (auto simp: conj_ok_def empties_def)
    have "written c = dest Dest_OnClause (cj_step c) c" "written c \<in> set (map written cs)" using c False by (auto simp: written_def)
    then have "\<not> fl_on (flat_of env sc steps (map written cs)) (cj_step c) r" for r
      using false unfolding flat_of_def by (force simp: cond_at_def simp del: set_map)
    then show ?thesis using k by (intro on_nothing [of "cj_step c"]) auto
  qed
qed

text \<open>The numbers the constant-false condition compares are read by \<open>atof\<close>.\<close>

definition atof_ok :: "num_env \<Rightarrow> bool" where
  "atof_ok env \<longleftrightarrow> atof env ''0'' = F64_num 0 \<and> atof env ''1'' = F64_num 1"

lemma constant_false: "atof_ok env \<Longrightarrow> \<not> qe_row_condition_eval env sc r optimizer_make_constant_false"
proof -
  assume a: "atof_ok env"
  have digit: "char_is_digit (CHR ''0'') 10 = Some True" "char_is_digit (CHR ''1'') 10 = Some True" by code_simp+
  have "optimizer_fold_comparison env optimizer_make_constant_false = Some False"
    using a digit by (simp add: optimizer_make_constant_false_def ir_node_make_def ir_node_add_child_def optimizer_fold_comparison_def
        optimizer_number_from_literal_def f64_from_str8_def numeral_eq_Suc is_digit10_def optimizer_compare_numbers_def atof_ok_def f64_eq_def)
  from fold_comparison_value [OF this] show ?thesis by simp
qed

lemma impossible_rows:
  assumes "atof_ok env" "impossible_conjunct \<in> set cs"
  shows "flat_rows (flat_of env sc steps cs) n = []"
proof (rule filter_nothing)
  have "optimizer_ir_strip_column_qualifiers optimizer_make_constant_false = optimizer_make_constant_false"
    by (simp add: optimizer_make_constant_false_def ir_node_make_def ir_node_add_child_def)
  then have "\<not> filter_at env sc 0 (cj_node impossible_conjunct) j" for j
    using constant_false [OF assms(1)] by (simp add: filter_at_def impossible_conjunct_def)
  moreover have "cj_dest impossible_conjunct = Dest_Filter" "cj_target impossible_conjunct = 0"
    by (simp_all add: impossible_conjunct_def)
  ultimately show "\<not> fl_filter (flat_of env sc steps cs) 0 j" for j
    using assms(2) unfolding flat_of_def by auto
qed

section \<open>All passes together\<close>

lemma rewrite_conditions_rows:
  assumes ok: "names_ok sc" "length sc \<le> 64" "atof_ok env" and len: "length sc = length steps" "0 < length sc"
    and c: "\<And>c. c \<in> set cs \<Longrightarrow> conj_ok sc c \<and> cj_dest c \<noteq> Dest_Dropped"
    and left: "\<And>k. k < length sc \<Longrightarrow> supplies_null steps k = is_left_type (step_type (steps ! k))"
    and res: "rewrite_conditions env sc steps cs = Some (steps', cs', always_empty)"
  shows "flat_rows (flat_of env sc steps' cs') (length sc - 1) = flat_rows (flat_of env sc steps (map written cs)) (length sc - 1)"
    and "length steps' = length steps"
proof -
  let ?rows = "flat_rows (flat_of env sc steps (map written cs)) (length sc - 1)"
  define cs1 where "cs1 = map (fold_conjunct env) cs"
  have rows1: "flat_rows (flat_of env sc steps (map written cs1)) (length sc - 1) = ?rows"
    unfolding cs1_def fold_rows ..
  have ok1: "conj_ok sc c" and dropped1: "cj_dest c = Dest_Dropped \<Longrightarrow> \<exists>b. optimizer_fold_comparison env (cj_node c) = Some b"
    if "c \<in> set cs1" for c
    using that c by (auto simp: cs1_def fold_conjunct_def split: if_splits)
  obtain cs2 empty where mid: "(if list_ex (empties env steps) cs then Some (cs1, True)
       else map_option (\<lambda>(cs, conflict). (cs, conflict \<or> optimizer_detect_contradiction env sc steps cs))
         (optimizer_propagate_constants env sc steps cs1)) = Some (cs2, empty)"
    and final: "steps' = optimizer_convert_left_joins sc steps cs2"
      "cs' = (if empty then optimizer_assign_destinations steps' cs2 @ [impossible_conjunct] else optimizer_assign_destinations steps' cs2)"
    using res by (auto simp: rewrite_conditions_def optimizer_fold_constants_def cs1_def Let_def split: option.splits if_splits)
  have mid_facts: "(\<forall>c \<in> set cs2. conj_ok sc c \<and> (cj_dest c = Dest_Dropped \<longrightarrow> (\<exists>b. optimizer_fold_comparison env (cj_node c) = Some b))) \<and>
      flat_rows (flat_of env sc steps (map written cs2)) (length sc - 1) = ?rows \<and> (empty \<longrightarrow> ?rows = [])"
  proof (cases "list_ex (empties env steps) cs")
    case True
    then obtain c0 where "c0 \<in> set cs" "empties env steps c0" by (auto simp: list_ex_iff)
    then have "?rows = []" using c by (intro empties_rows) auto
    then show ?thesis using True mid rows1 ok1 dropped1 by auto
  next
    case False
    then obtain conflict where p: "optimizer_propagate_constants env sc steps cs1 = Some (cs2, conflict)"
      and empty: "empty = (conflict \<or> optimizer_detect_contradiction env sc steps cs2)" using mid by auto
    note pr = propagate_rows [OF ok(1) ok1 p]
    obtain ds where ds: "cs2 = cs1 @ ds"
      "\<And>d. d \<in> set ds \<Longrightarrow> \<exists>i col literal. d = derived_conjunct sc i col literal \<and> column_in sc i col \<and> literal_of cs1 literal"
      by (rule propagate_shape [OF p]) blast
    have plain: "\<And>c. c \<in> set cs1 \<Longrightarrow> cond_plain (cj_node c)" using ok1 by (simp add: conj_ok_def)
    have new: "conj_ok sc d \<and> cj_dest d \<noteq> Dest_Dropped" if "d \<in> set ds" for d
      using ds(2) [OF that] derived_ok [OF ok(1,2) _ _ plain] by (auto simp: derived_conjunct_def)
    have ok2: "conj_ok sc c" if "c \<in> set cs2" for c using that ds(1) new ok1 by auto
    have "?rows = []" if "optimizer_detect_contradiction env sc steps cs2"
    proof (rule ccontr)
      assume "?rows \<noteq> []"
      then obtain r where r: "r \<in> set (flat_rows (flat_of env sc steps (map written cs2)) (length sc - 1))"
        using pr(1) rows1 by (metis last_in_set)
      show False using detect_contradiction_sound [OF ok(1) that] rows_hold(1) [OF ok(1) r _ ok2] by blast
    qed
    then show ?thesis using pr rows1 empty ok2 ds(1) new dropped1 by auto
  qed
  have conv: "steps_from steps steps'" "flat_rows (flat_of env sc steps' (map written cs2)) (length sc - 1) = ?rows"
    using convert_rows [OF ok(1) len, of cs2 env] mid_facts unfolding final(1) by auto
  then show "length steps' = length steps" by (simp add: steps_from_def)
  have inner: "\<not> supplies_null steps' k" if "k < length sc" "\<not> is_left_type (step_type (steps' ! k))" for k
    using that conv(1) left [OF that(1)] len by (auto simp: steps_from_def)
  show "flat_rows (flat_of env sc steps' cs') (length sc - 1) = ?rows"
  proof (cases empty)
    case True
    then show ?thesis using mid_facts impossible_rows [OF ok(3)] final(2) by simp
  next
    case False
    then show ?thesis using conv(2) assign_rows [OF ok(1) _ len(2) inner, of cs2 env] mid_facts final(2) by simp
  qed
qed

section \<open>The plan as it was written\<close>

definition flat_from :: "num_env \<Rightarrow> scope \<Rightarrow> opt_step list \<Rightarrow> flat" where
  "flat_from env sc steps =
     \<lparr>fl_rows = (\<lambda>i. [0..<length (table_rows (fst (sc ! i)))]), fl_left = supplies_null steps,
      fl_filter = (\<lambda>_ _. True), fl_on = (\<lambda>k r. eval_opt env (take (Suc k) sc) r (on_condition (steps ! k))),
      fl_stage = (\<lambda>_ _. True)\<rparr>"

definition flattened :: "num_env \<Rightarrow> plan_node \<Rightarrow> opt_relation list \<Rightarrow> opt_step list \<Rightarrow> bool" where
  "flattened env p rels steps \<longleftrightarrow> rels_ok rels \<and> length steps = length rels \<and> 0 < length rels \<and> length rels \<le> OPT_MAX_RELATIONS \<and>
     plan_scope p = rel_scope rels \<and>
     (\<forall>k < length rels. supplies_null steps k = is_left_type (step_type (steps ! k))) \<and>
     plan_rows env p = flat_rows (flat_from env (rel_scope rels) steps) (length rels - 1)"

lemma flatten_scan:
  "optimizer_flatten_from (P_Scan v t a) (rels, steps) = Some (rels', steps') \<Longrightarrow>
     \<exists>tab. t = Some tab \<and> length rels < OPT_MAX_RELATIONS \<and>
       rels' = rels @ [\<lparr>rel_scan = P_Scan v t a, rel_table = tab, rel_alias = a\<rparr>] \<and> steps' = steps @ [zero_step]"
  by (auto split: if_splits option.splits)

lemma flatten_from: "optimizer_flatten_from p ([], []) = Some (rels, steps) \<Longrightarrow> flattened env p rels steps"
proof (induction p arbitrary: rels steps)
  case (P_Scan v t a)
  from flatten_scan [OF P_Scan] obtain tab where t: "t = Some tab"
    "rels = [\<lparr>rel_scan = P_Scan v t a, rel_table = tab, rel_alias = a\<rparr>]" "steps = [zero_step]" by auto
  have "\<not> is_left_type []" by code_simp
  then show ?case using t
    by (simp add: flattened_def rels_ok_def rel_scope_def OPT_MAX_RELATIONS_def supplies_null_def zero_step_def flat_from_def)
next
  case (P_Join ty l r c)
  have "is_scan r" using P_Join.prems by (auto split: if_splits)
  then obtain v t a where r: "r = P_Scan v t a" by (cases r) auto
  from P_Join.prems r obtain rels1 steps1 rels2 steps2 where
    l: "optimizer_flatten_from l ([], []) = Some (rels1, steps1)" and
    rr: "optimizer_flatten_from r (rels1, steps1) = Some (rels2, steps2)" and
    res: "rels = rels2" "steps = steps2[length rels2 - 1 := \<lparr>step_type = ty, on_condition = c, null_supplying = is_left_type ty\<rparr>]"
    by (auto simp del: optimizer_flatten_from.simps(1) split: if_splits option.splits)
  note L = P_Join.IH(1) [OF l, unfolded flattened_def]
  let ?n = "length rels1" and ?new = "\<lparr>step_type = ty, on_condition = c, null_supplying = is_left_type ty\<rparr>"
  from flatten_scan [OF rr [unfolded r]] obtain tab where t: "t = Some tab" "?n < OPT_MAX_RELATIONS"
    "rels = rels1 @ [\<lparr>rel_scan = P_Scan v t a, rel_table = tab, rel_alias = a\<rparr>]" "steps = steps1 @ [?new]"
  proof -
    have "(steps1 @ [zero_step])[length rels1 := ?new] = steps1 @ [?new]"
      using list_update_length [of steps1 zero_step "[]" ?new] L by simp
    then show ?thesis using flatten_scan [OF rr [unfolded r]] that L res by auto
  qed
  let ?sc = "rel_scope rels"
  have sc: "?sc = rel_scope rels1 @ [(tab, a)]" using t(3) by (simp add: rel_scope_def)
  have left: "\<forall>k < Suc ?n. supplies_null steps k = is_left_type (step_type (steps ! k))"
    using L t(4) by (auto simp: supplies_null_def nth_append less_Suc_eq)
  have "flat_rows (flat_from env (rel_scope rels1) steps1) (?n - 1) = flat_rows (flat_from env ?sc steps) (?n - 1)"
  proof (rule flat_rows_cong)
    have "i < ?n" if "i \<le> ?n - 1" for i using that L by linarith
    note lt = this
    show "fl_left (flat_from env (rel_scope rels1) steps1) i = fl_left (flat_from env ?sc steps) i" if "i \<le> ?n - 1" for i
      using lt [OF that] L t(4) by (simp add: flat_from_def supplies_null_def nth_append)
    show "fl_on (flat_from env (rel_scope rels1) steps1) i s = fl_on (flat_from env ?sc steps) i s" if "i \<le> ?n - 1" for i s
      using lt [OF that] L t(4) sc by (simp add: flat_from_def nth_append)
    show "fl_rows (flat_from env (rel_scope rels1) steps1) i = fl_rows (flat_from env ?sc steps) i" if "i \<le> ?n - 1" for i
      using lt [OF that] sc by (simp add: flat_from_def nth_append)
  qed (simp_all add: flat_from_def)
  then have ls: "plan_rows env l = flat_rows (flat_from env ?sc steps) (?n - 1)" using L by simp
  have "join_rows env ?sc 1 (is_left_type ty) c (plan_rows env l) (map (\<lambda>j. [Some j]) (filter (\<lambda>_. True) [0..<length (table_rows tab)])) =
      flat_rows (flat_from env ?sc steps) ?n"
  proof -
    let ?D = "flat_from env ?sc steps"
    have n: "Suc (?n - 1) = ?n" using L by simp
    have new: "steps ! ?n = ?new" "?sc ! ?n = (tab, a)" "take (Suc ?n) ?sc = ?sc"
      using L t(4) sc by (simp_all add: nth_append)
    have D: "fl_left ?D ?n = is_left_type ty" "fl_filter ?D ?n = (\<lambda>_. True)" "fl_rows ?D ?n = [0..<length (table_rows tab)]"
      "fl_on ?D ?n = (\<lambda>r. eval_opt env ?sc r c)" "fl_stage ?D ?n = (\<lambda>_. True)"
      using new by (simp_all add: flat_from_def supplies_null_def)
    have "join_rows env ?sc 1 (is_left_type ty) c (plan_rows env l) (map (\<lambda>j. [Some j]) (filter (\<lambda>_. True) [0..<length (table_rows tab)])) =
        flat_rows ?D (Suc (?n - 1))"
      unfolding join_rows_extend ls flat_rows.simps(2) unfolding n D by (simp add: filter_True)
    then show ?thesis unfolding n .
  qed
  then have "plan_rows env (P_Join ty l r c) = flat_rows (flat_from env ?sc steps) (length rels - 1)"
    using L r t sc by simp
  then show ?case
    using L r t sc left by (auto simp: flattened_def rels_ok_def rel_scope_def)
qed simp_all

text \<open>What a FROM plan and its WHERE condition must satisfy: conditions as the parser builds them,
  and ON conditions that only mention tables joined so far.\<close>

fun on_ok :: "scope \<Rightarrow> plan_node \<Rightarrow> bool" where
  "on_ok sc (P_Join ty l r c) \<longleftrightarrow> on_ok sc l \<and>
     (case c of None \<Rightarrow> True
      | Some e \<Rightarrow> cond_plain e \<and> list_all (\<lambda>n. touched sc n \<subseteq> {..length (plan_scope l)}) (conjuncts_of e))"
| "on_ok sc _ \<longleftrightarrow> True"

lemma flatten_on_ok:
  "optimizer_flatten_from p ([], []) = Some (rels, steps) \<Longrightarrow> on_ok sc p \<Longrightarrow> 0 < k \<Longrightarrow> k < length steps \<Longrightarrow>
   on_condition (steps ! k) = Some e \<Longrightarrow> cond_plain e \<and> (\<forall>n \<in> set (conjuncts_of e). touched sc n \<subseteq> {..k})"
proof (induction p arbitrary: rels steps)
  case (P_Scan v t a)
  then show ?case using flatten_scan [OF P_Scan(1)] by auto
next
  case (P_Join ty l r c)
  have "is_scan r" using P_Join.prems(1) by (auto split: if_splits)
  then obtain v t a where r: "r = P_Scan v t a" by (cases r) auto
  from P_Join.prems(1) r obtain rels1 steps1 rels2 steps2 where
    l: "optimizer_flatten_from l ([], []) = Some (rels1, steps1)" and
    rr: "optimizer_flatten_from r (rels1, steps1) = Some (rels2, steps2)" and
    res: "rels = rels2" "steps = steps2[length rels2 - 1 := \<lparr>step_type = ty, on_condition = c, null_supplying = is_left_type ty\<rparr>]"
    by (auto simp del: optimizer_flatten_from.simps(1) split: if_splits option.splits)
  have L: "length steps1 = length rels1" "plan_scope l = rel_scope rels1"
    using flatten_from [OF l] by (auto simp: flattened_def)
  have steps2: "length rels2 = Suc (length rels1)" "steps2 = steps1 @ [zero_step]" using flatten_scan [OF rr [unfolded r]] by auto
  show ?case
  proof (cases "k < length rels1")
    case True
    then show ?thesis using P_Join.IH(1) [OF l] P_Join.prems res steps2 L by (simp add: nth_append)
  next
    case False
    then have "k = length rels1" using P_Join.prems(4) res steps2 L by simp
    then show ?thesis using P_Join.prems(2,5) res steps2 L by (simp add: list_all_iff)
  qed
qed simp_all

lemma conjuncts_plain: "cond_plain n \<Longrightarrow> m \<in> set (conjuncts_of n) \<Longrightarrow> cond_plain m"
  by (induction n rule: conjuncts_of.induct) (auto split: list.splits if_splits)

lemma load_on_Some:
  "load_on_conjuncts k steps acc = Some res \<Longrightarrow>
   set res = set acc \<union> {(False, k + i, n) |i e n. i < length steps \<and> on_condition (steps ! i) = Some e \<and> n \<in> set (conjuncts_of e)}"
proof (induction steps arbitrary: k acc)
  case (Cons s steps)
  have split: "{(False, k + i, n) |i e n. i < length (s # steps) \<and> on_condition ((s # steps) ! i) = Some e \<and> n \<in> set (conjuncts_of e)} =
      {(False, k, n) |e n. on_condition s = Some e \<and> n \<in> set (conjuncts_of e)} \<union>
      {(False, Suc k + i, n) |i e n. i < length steps \<and> on_condition (steps ! i) = Some e \<and> n \<in> set (conjuncts_of e)}"
  proof (intro set_eqI iffI)
    fix x assume "x \<in> {(False, k + i, n) |i e n. i < length (s # steps) \<and> on_condition ((s # steps) ! i) = Some e \<and> n \<in> set (conjuncts_of e)}"
    then obtain i e n where i: "x = (False, k + i, n)" "i < length (s # steps)" "on_condition ((s # steps) ! i) = Some e" "n \<in> set (conjuncts_of e)" by blast
    then show "x \<in> {(False, k, n) |e n. on_condition s = Some e \<and> n \<in> set (conjuncts_of e)} \<union>
      {(False, Suc k + i, n) |i e n. i < length steps \<and> on_condition (steps ! i) = Some e \<and> n \<in> set (conjuncts_of e)}"
      by (cases i) auto
  next
    fix x assume "x \<in> {(False, k, n) |e n. on_condition s = Some e \<and> n \<in> set (conjuncts_of e)} \<union>
      {(False, Suc k + i, n) |i e n. i < length steps \<and> on_condition (steps ! i) = Some e \<and> n \<in> set (conjuncts_of e)}"
    then show "x \<in> {(False, k + i, n) |i e n. i < length (s # steps) \<and> on_condition ((s # steps) ! i) = Some e \<and> n \<in> set (conjuncts_of e)}"
    proof
      assume "x \<in> {(False, Suc k + i, n) |i e n. i < length steps \<and> on_condition (steps ! i) = Some e \<and> n \<in> set (conjuncts_of e)}"
      then obtain i e n where "x = (False, Suc k + i, n)" "i < length steps" "on_condition (steps ! i) = Some e" "n \<in> set (conjuncts_of e)" by blast
      then show ?thesis by (intro CollectI exI [of _ "Suc i"] exI [of _ e] exI [of _ n]) simp
    qed force
  qed
  show ?case
  proof (cases "on_condition s")
    case None
    then show ?thesis using Cons unfolding split by simp
  next
    case (Some e)
    obtain leaves count where lc: "optimizer_ir_collect_conjuncts OPT_MAX_CONJUNCTS e ([], 0) = (leaves, count)" by force
    then have leaves: "leaves = take OPT_MAX_CONJUNCTS (conjuncts_of e)" "count = length (conjuncts_of e)"
      using collect_conjuncts [of "[]" 0 OPT_MAX_CONJUNCTS e] by auto
    from Cons.prems Some lc have "\<not> length acc + count > OPT_MAX_CONJUNCTS"
      and rest: "load_on_conjuncts (Suc k) steps (acc @ map (\<lambda>n. (False, k, n)) leaves) = Some res"
      by (auto split: if_splits)
    then have "set leaves = set (conjuncts_of e)" using leaves by simp
    then show ?thesis using Cons.IH [OF rest] Some unfolding split by auto
  qed
qed simp

lemma load_on_none: "(\<forall>s \<in> set steps. on_condition s = None) \<Longrightarrow> load_on_conjuncts k steps acc = Some acc"
  by (induction steps arbitrary: k) auto

text \<open>The conjuncts that were loaded, as a set.\<close>

lemma image_compr: "h ` {u e n |e n. P e n} = {h (u e n) |e n. P e n}" "h ` {v k e n |k e n. Q k e n} = {h (v k e n) |k e n. Q k e n}"
  by blast+

lemma ball_compr:
  "(\<forall>c \<in> {u e n |e n. P e n} \<union> {v k e n |k e n. Q k e n}. R c) \<longleftrightarrow>
     (\<forall>e n. P e n \<longrightarrow> R (u e n)) \<and> (\<forall>k e n. Q k e n \<longrightarrow> R (v k e n))"
  by blast

lemma load_conjuncts_set:
  assumes len: "length sc \<le> 64"
    and some: "\<not> (optimizer_load_conjuncts where_ir steps sc = [] \<and>
      (Option.bind where_ir where_root \<noteq> None \<or> list_ex (\<lambda>s. on_condition s \<noteq> None) (drop 1 steps)))"
  shows "set (optimizer_load_conjuncts where_ir steps sc) =
    {fresh_conjunct sc True 0 n |e n. Option.bind where_ir where_root = Some e \<and> n \<in> set (conjuncts_of e)} \<union>
    {fresh_conjunct sc False k n |k e n. 0 < k \<and> k < length steps \<and> on_condition (steps ! k) = Some e \<and> n \<in> set (conjuncts_of e)}"
proof -
  let ?w = "Option.bind where_ir where_root"
  define acc where "acc = (case ?w of None \<Rightarrow> Some [] | Some e \<Rightarrow>
      if length (conjuncts_of e) > OPT_MAX_CONJUNCTS then None else Some (map (\<lambda>n. (True, 0 :: nat, n)) (conjuncts_of e)))"
  define loaded where "loaded = Option.bind acc (load_on_conjuncts 1 (drop 1 steps))"
  have collect: "optimizer_ir_collect_conjuncts OPT_MAX_CONJUNCTS e ([], 0) =
      (take OPT_MAX_CONJUNCTS (conjuncts_of e), length (conjuncts_of e))" for e
    using collect_conjuncts [of "[]" 0 OPT_MAX_CONJUNCTS e] by simp
  have load: "optimizer_load_conjuncts where_ir steps sc =
      (case loaded of None \<Rightarrow> [] | Some cs \<Rightarrow> map (\<lambda>(from_where, step, n). fresh_conjunct sc from_where step n) cs)"
    by (cases ?w) (auto simp: optimizer_load_conjuncts_def loaded_def acc_def collect Let_def)
  obtain cs where cs: "loaded = Some cs"
  proof (cases loaded)
    case None
    then have "?w = None" "\<forall>s \<in> set (drop 1 steps). on_condition s = None" using some load by (auto simp: list_ex_iff)
    then have "loaded = Some []" using load_on_none by (simp add: loaded_def acc_def)
    then show ?thesis by (rule that)
  qed
  then obtain acc0 where a: "acc = Some acc0" "load_on_conjuncts 1 (drop 1 steps) acc0 = Some cs"
    by (cases acc) (auto simp: loaded_def)
  have acc0: "set acc0 = {(True, 0, n) |e n. ?w = Some e \<and> n \<in> set (conjuncts_of e)}"
    using a(1) by (cases ?w) (auto simp: acc_def split: if_splits)
  have on: "{(False, 1 + i, n) |i e n. i < length (drop 1 steps) \<and> on_condition (drop 1 steps ! i) = Some e \<and> n \<in> set (conjuncts_of e)} =
      {(False, k, n) |k e n. 0 < k \<and> k < length steps \<and> on_condition (steps ! k) = Some e \<and> n \<in> set (conjuncts_of e)}"
  proof (intro set_eqI iffI)
    fix x assume "x \<in> {(False, 1 + i, n) |i e n. i < length (drop 1 steps) \<and> on_condition (drop 1 steps ! i) = Some e \<and> n \<in> set (conjuncts_of e)}"
    then show "x \<in> {(False, k, n) |k e n. 0 < k \<and> k < length steps \<and> on_condition (steps ! k) = Some e \<and> n \<in> set (conjuncts_of e)}"
      by fastforce
  next
    fix x assume "x \<in> {(False, k, n) |k e n. 0 < k \<and> k < length steps \<and> on_condition (steps ! k) = Some e \<and> n \<in> set (conjuncts_of e)}"
    then obtain k e n where k: "x = (False, k, n)" "0 < k" "k < length steps" "on_condition (steps ! k) = Some e" "n \<in> set (conjuncts_of e)" by blast
    then show "x \<in> {(False, 1 + i, n) |i e n. i < length (drop 1 steps) \<and> on_condition (drop 1 steps ! i) = Some e \<and> n \<in> set (conjuncts_of e)}"
      by (intro CollectI exI [of _ "k - 1"] exI [of _ e] exI [of _ n]) auto
  qed
  have set_cs: "set cs = {(True, 0, n) |e n. ?w = Some e \<and> n \<in> set (conjuncts_of e)} \<union>
      {(False, k, n) |k e n. 0 < k \<and> k < length steps \<and> on_condition (steps ! k) = Some e \<and> n \<in> set (conjuncts_of e)}"
    using load_on_Some [OF a(2)] unfolding acc0 on .
  show ?thesis unfolding load cs option.case set_map set_cs image_Un image_compr by simp
qed

lemma fresh_ok:
  assumes "length sc \<le> 64" "cond_plain n" "\<not> w \<Longrightarrow> 0 < k \<and> k < length sc \<and> touched sc n \<subseteq> {..k}"
  shows "conj_ok sc (fresh_conjunct sc w k n)" "cj_dest (fresh_conjunct sc w k n) = Dest_Residual"
    "cj_node (fresh_conjunct sc w k n) = n" "cj_from_where (fresh_conjunct sc w k n) = w" "cj_step (fresh_conjunct sc w k n) = k"
proof -
  obtain m u where mu: "optimizer_collect_relation_refs sc n (0, False) = (m, u)" by force
  show "cj_dest (fresh_conjunct sc w k n) = Dest_Residual"
    "cj_node (fresh_conjunct sc w k n) = n" "cj_from_where (fresh_conjunct sc w k n) = w" "cj_step (fresh_conjunct sc w k n) = k"
    by (simp_all add: fresh_conjunct_def mu)
  show "conj_ok sc (fresh_conjunct sc w k n)"
    using collect_refs [OF assms(1) mu] assms(2,3) by (auto simp: conj_ok_def fresh_conjunct_def mu)
qed

lemma loaded_rows:
  assumes f: "flattened env p rels steps" and sc: "sc = rel_scope rels"
    and some: "\<not> (optimizer_load_conjuncts where_ir steps sc = [] \<and>
      (Option.bind where_ir where_root \<noteq> None \<or> list_ex (\<lambda>s. on_condition s \<noteq> None) (drop 1 steps)))"
    and plain: "\<And>e. Option.bind where_ir where_root = Some e \<Longrightarrow> cond_plain e"
    and on: "\<And>k e. 0 < k \<Longrightarrow> k < length steps \<Longrightarrow> on_condition (steps ! k) = Some e \<Longrightarrow>
      cond_plain e \<and> (\<forall>n \<in> set (conjuncts_of e). touched sc n \<subseteq> {..k})"
  shows "\<And>c. c \<in> set (optimizer_load_conjuncts where_ir steps sc) \<Longrightarrow> conj_ok sc c \<and> cj_dest c \<noteq> Dest_Dropped"
    and "flat_rows (flat_of env sc steps (map written (optimizer_load_conjuncts where_ir steps sc))) (length sc - 1) =
      filter (\<lambda>r. eval_opt env sc r (Option.bind where_ir where_root)) (plan_rows env p)"
proof -
  let ?w = "Option.bind where_ir where_root" and ?cs = "optimizer_load_conjuncts where_ir steps sc"
  have len: "length sc = length steps" "length sc \<le> 64" "0 < length sc"
    using f sc by (auto simp: flattened_def OPT_MAX_RELATIONS_def)
  note cs = load_conjuncts_set [OF len(2) some]
  have where_conj: "conj_ok sc (fresh_conjunct sc True 0 n)" if "?w = Some e" "n \<in> set (conjuncts_of e)" for e n
    using conjuncts_plain [OF plain [OF that(1)] that(2)] by (intro fresh_ok(1) [OF len(2)]) auto
  have on_conj: "conj_ok sc (fresh_conjunct sc False k n)"
    if "0 < k" "k < length steps" "on_condition (steps ! k) = Some e" "n \<in> set (conjuncts_of e)" for k e n
    using on [OF that(1-3)] conjuncts_plain [of e n] that len by (intro fresh_ok(1)) auto
  have fresh [simp]: "cj_dest (fresh_conjunct sc w k n) = Dest_Residual" "cj_node (fresh_conjunct sc w k n) = n"
    "cj_from_where (fresh_conjunct sc w k n) = w" "cj_step (fresh_conjunct sc w k n) = k" for w k n
    by (auto simp: fresh_conjunct_def split: prod.splits)
  show "\<And>c. c \<in> set ?cs \<Longrightarrow> conj_ok sc c \<and> cj_dest c \<noteq> Dest_Dropped"
    using where_conj on_conj unfolding cs by auto
  have written_where: "written (fresh_conjunct sc True 0 n) = fresh_conjunct sc True 0 n\<lparr>cj_dest := Dest_Residual\<rparr>" for n
    by (simp add: written_def)
  have written_on: "written (fresh_conjunct sc False k n) = dest Dest_OnClause k (fresh_conjunct sc False k n)" for k n
    by (simp add: written_def)
  have set_written: "set (map written ?cs) =
      {written (fresh_conjunct sc True 0 n) |e n. ?w = Some e \<and> n \<in> set (conjuncts_of e)} \<union>
      {written (fresh_conjunct sc False k n) |k e n. 0 < k \<and> k < length steps \<and> on_condition (steps ! k) = Some e \<and> n \<in> set (conjuncts_of e)}"
    unfolding set_map cs image_Un image_compr ..
  have stage: "(\<forall>c \<in> set (map written ?cs). cj_dest c = Dest_Residual \<longrightarrow> qe_row_condition_eval env sc r (cj_node c)) \<longleftrightarrow>
      eval_opt env sc r ?w" for r
  proof -
    have "(\<forall>c \<in> set (map written ?cs). cj_dest c = Dest_Residual \<longrightarrow> qe_row_condition_eval env sc r (cj_node c)) \<longleftrightarrow>
        (\<forall>e n. ?w = Some e \<and> n \<in> set (conjuncts_of e) \<longrightarrow> qe_row_condition_eval env sc r n)"
      unfolding set_written ball_compr by (simp add: written_where written_on)
    also have "\<dots> \<longleftrightarrow> eval_opt env sc r ?w"
      using eval_conjuncts [of env sc r] by (cases ?w) (simp_all add: list_all_iff Ball_def)
    finally show ?thesis .
  qed
  have on_eq: "fl_on (flat_of env sc steps (map written ?cs)) k r = eval_opt env (take (Suc k) sc) r (on_condition (steps ! k))"
    if k: "0 < k" "k \<le> length sc - 1" for k r
  proof -
    have k': "k < length steps" using k len by linarith
    have "fl_on (flat_of env sc steps (map written ?cs)) k r \<longleftrightarrow>
        (\<forall>c \<in> set (map written ?cs). cj_dest c = Dest_OnClause \<and> cj_target c = k \<longrightarrow> cond_at env sc k (cj_node c) r)"
      by (simp add: flat_of_def)
    also have "\<dots> \<longleftrightarrow> (\<forall>k0 e n. 0 < k0 \<and> k0 < length steps \<and> on_condition (steps ! k0) = Some e \<and> n \<in> set (conjuncts_of e) \<longrightarrow>
        k0 = k \<longrightarrow> cond_at env sc k n r)"
      unfolding set_written ball_compr written_where written_on dest_simps by (simp del: all_simps)
    also have "\<dots> \<longleftrightarrow> (\<forall>e n. on_condition (steps ! k) = Some e \<and> n \<in> set (conjuncts_of e) \<longrightarrow> cond_at env sc k n r)"
      using k(1) k' by blast
    also have "\<dots> \<longleftrightarrow> eval_opt env (take (Suc k) sc) r (on_condition (steps ! k))"
      using eval_conjuncts [of env "take (Suc k) sc" r]
      by (cases "on_condition (steps ! k)") (simp_all add: list_all_iff cond_at_def Ball_def)
    finally show ?thesis .
  qed
  have no_filter: "fl_filter (flat_of env sc steps (map written ?cs)) i j" for i j
    unfolding flat_of_def flat.simps set_written ball_compr by (simp add: written_where written_on)
  have "flat_rows (no_stage (flat_of env sc steps (map written ?cs))) (length sc - 1) = flat_rows (flat_from env sc steps) (length sc - 1)"
    by (rule flat_rows_cong) (simp_all add: no_stage_def flat_from_def no_filter on_eq)
  also have "\<dots> = plan_rows env p" using f sc by (simp add: flattened_def)
  finally show "flat_rows (flat_of env sc steps (map written ?cs)) (length sc - 1) = filter (\<lambda>r. eval_opt env sc r ?w) (plan_rows env p)"
    unfolding flat_of_rows stage by simp
qed

lemma add_residual_rows:
  assumes "plan_scope p = sc" "plan_rows env p = flat_rows (no_stage (flat_of env sc steps cs)) (length sc - 1)" "\<not> is_scan p"
  shows "plan_scope (add_residual cs p) = sc" "plan_rows env (add_residual cs p) = flat_rows (flat_of env sc steps cs) (length sc - 1)"
proof -
  let ?ns = "map cj_node (filter (\<lambda>c. cj_dest c = Dest_Residual) cs)"
  have eval: "eval_opt env sc r (optimizer_ir_and_chain ?ns) \<longleftrightarrow>
      (\<forall>c \<in> set cs. cj_dest c = Dest_Residual \<longrightarrow> qe_row_condition_eval env sc r (cj_node c))" for r
    by (auto simp: eval_and_chain list_all_iff)
  have wr: "where_root (optimizer_ir_make_where e) = Some e" for e
    by (simp add: where_root_def optimizer_ir_make_where_def ir_node_make_def ir_node_add_child_def)
  have filter: "plan_rows env (P_Filter p w) = filter (\<lambda>row. eval_opt env (plan_scope p) row (where_root w)) (plan_rows env p)" for w
    using assms(3) by (cases p) auto
  show "plan_scope (add_residual cs p) = sc" using assms(1) by (simp add: add_residual_def split: option.splits)
  show "plan_rows env (add_residual cs p) = flat_rows (flat_of env sc steps cs) (length sc - 1)"
    unfolding flat_of_rows eval [symmetric] using assms(1,2) filter wr
    by (simp add: add_residual_def del: optimizer_ir_and_chain.simps split: option.splits)
qed

lemma rewrite_rows:
  assumes ok: "names_ok (plan_scope p)" "on_ok (plan_scope p) p" "atof_ok env"
    and plain: "\<And>e. Option.bind where_ir where_root = Some e \<Longrightarrow> cond_plain e"
    and res: "optimizer_rewrite_from_where env (\<lambda>_ _ _. None) p where_ir = Some (Some p')"
  shows "plan_scope p' = plan_scope p"
    "plan_rows env p' = filter (\<lambda>r. eval_opt env (plan_scope p) r (Option.bind where_ir where_root)) (plan_rows env p)"
proof -
  obtain rels steps where fl: "optimizer_flatten_from p ([], []) = Some (rels, steps)" "2 \<le> length rels"
    using res by (auto simp: optimizer_rewrite_from_where_def split: option.splits if_splits)
  define sc where "sc = rel_scope rels"
  define cs where "cs = optimizer_load_conjuncts where_ir steps sc"
  note f = flatten_from [OF fl(1), of env]
  have F: "rels_ok rels" "length steps = length rels" "plan_scope p = sc" "length sc = length rels" "length sc \<le> 64"
    "\<And>k. k < length sc \<Longrightarrow> supplies_null steps k = is_left_type (step_type (steps ! k))"
    using f by (auto simp: flattened_def sc_def OPT_MAX_RELATIONS_def)
  from res fl obtain steps' cs' empty where
    some: "\<not> (cs = [] \<and> (Option.bind where_ir where_root \<noteq> None \<or> list_ex (\<lambda>s. on_condition s \<noteq> None) (drop 1 steps)))" and
    rw: "rewrite_conditions env sc steps cs = Some (steps', cs', empty)" and
    p': "p' = add_residual cs' (assemble_joins rels steps' cs' [0..<length rels] None)"
    by (auto simp: optimizer_rewrite_from_where_def Let_def sc_def cs_def split: option.splits if_splits)
  have on: "\<And>k e. 0 < k \<Longrightarrow> k < length steps \<Longrightarrow> on_condition (steps ! k) = Some e \<Longrightarrow>
      cond_plain e \<and> (\<forall>n \<in> set (conjuncts_of e). touched sc n \<subseteq> {..k})"
    using flatten_on_ok [OF fl(1)] ok(2) F(3) by auto
  note loaded = loaded_rows [OF f sc_def some [unfolded cs_def] plain on, folded cs_def]
  have rows: "flat_rows (flat_of env sc steps' cs') (length sc - 1) =
      filter (\<lambda>r. eval_opt env sc r (Option.bind where_ir where_root)) (plan_rows env p)"
  proof -
    have n: "names_ok sc" "length sc = length steps" "0 < length sc" using ok(1) F(2-4) fl(2) by auto
    show ?thesis
      by (rule trans [OF rewrite_conditions_rows(1) [OF n(1) F(5) ok(3) n(2,3) loaded(1) F(6) rw] loaded(2)])
  qed
  let ?J = "assemble_joins rels steps' cs' [0..<length rels] None"
  have Suc: "Suc (length rels - 1) = length rels" using fl(2) by simp
  have "[0..<length rels] ! 0 = 0" by (subst nth_upt) (use fl(2) in linarith)+
  then have J: "plan_scope ?J = sc" "plan_rows env ?J = flat_rows (no_stage (flat_of env sc steps' cs')) (length sc - 1)"
    using assemble_rows [OF F(1) sc_def, of "length rels - 1" steps' cs' env] fl(2) F(4)
    unfolding Suc by (simp_all add: assemble_joins_def nth_upt)
  have "\<not> is_scan ?J"
  proof -
    obtain m where m: "length rels = Suc (Suc m)" using le_Suc_ex [OF fl(2)] by (auto simp: numeral_2_eq_2)
    have "is_scan (join_step rels steps' cs' order s k q) = False" for order s k q by (simp add: join_step_def Let_def)
    then show ?thesis unfolding assemble_joins_def m by simp
  qed
  note R = add_residual_rows [OF J this]
  show "plan_scope p' = plan_scope p" using R(1) p' F(3) by simp
  show "plan_rows env p' = filter (\<lambda>r. eval_opt env (plan_scope p) r (Option.bind where_ir where_root)) (plan_rows env p)"
    using R(2) p' F(3) rows by simp
qed

lemma rewrite_total: "\<exists>res. optimizer_rewrite_from_where env search p where_ir = Some res"
proof -
  have "\<exists>res. rewrite_conditions env sc steps cs = Some res" for sc steps cs
  proof -
    obtain res where "optimizer_propagate_constants env sc steps (fst (optimizer_fold_constants env steps cs)) = Some res"
      using propagate_total by blast
    then show ?thesis by (auto simp: rewrite_conditions_def Let_def split: prod.splits)
  qed
  then show ?thesis
    by (auto simp: optimizer_rewrite_from_where_def Let_def split: option.splits prod.splits) (metis option.distinct(1))+
qed

end
