(* ===== verification/Opt_Props.thy ===== *)
theory Opt_Props
  imports Opt_Rewrite_Sound
begin

text \<open>
  What the optimizer's rewriting guarantees, on the definitions of \<open>Opt_Rewrite\<close>, and the tables
  and plans on which the statements are tried.
\<close>

section \<open>An example\<close>

definition ex_env :: num_env where
  "ex_env = \<lparr>atof = (\<lambda>s. F64_num (of_nat (foldl (\<lambda>n c. n * 10 + (byte c - 48)) 0 s))),
     f64_of_int = (\<lambda>i. F64_num (of_int i)), f64_ratio = (\<lambda>a b. F64_num (of_nat a / of_nat b)),
     oob_digit = (\<lambda>_. False), trigram_n = 3\<rparr>"

definition ex_column :: "string8 \<Rightarrow> cql_column" where
  "ex_column name = \<lparr>column_name = name, column_ty = ColU64, decimal_scale = 0, enum_labels = None\<rparr>"

definition ex_table :: "string8 \<Rightarrow> string8 list \<Rightarrow> nat list list \<Rightarrow> cql_table" where
  "ex_table name cols rows = \<lparr>table_name = name, columns = map ex_column cols,
     table_rows = map (map (\<lambda>n. Cell_num (F64_num (of_nat n)))) rows\<rparr>"

definition ex_compare :: "string8 \<Rightarrow> ir_node \<Rightarrow> ir_node \<Rightarrow> ir_node" where
  "ex_compare op l r = IR_Node IrOperator op [l, r]"

definition ex_col :: "string8 \<Rightarrow> ir_node" where "ex_col v = IR_Node IrColumn v []"
definition ex_num :: "string8 \<Rightarrow> ir_node" where "ex_num v = IR_Node IrNumeric v []"

definition ex_orders :: cql_table where
  "ex_orders = ex_table ''orders'' [''id'', ''total''] [[1, 5], [2, 6], [3, 7]]"
definition ex_items :: cql_table where
  "ex_items = ex_table ''items'' [''order_id'', ''price''] [[1, 10], [3, 30]]"

definition ex_plan :: plan_node where
  "ex_plan = P_Join ''left'' (P_Scan ''orders'' (Some ex_orders) ''o'') (P_Scan ''items'' (Some ex_items) ''i'')
     (Some (ex_compare ''='' (ex_col ''o.id'') (ex_col ''i.order_id'')))"

definition ex_where :: ir_node where
  "ex_where = IR_Node IrWhere [] [and_node (ex_compare ''>'' (ex_col ''price'') (ex_num ''20''))
     (ex_compare ''<'' (ex_col ''o.total'') (ex_num ''10''))]"

section \<open>Rewriting keeps the rows\<close>


lemma ex_checks:
  "names_ok (plan_scope ex_plan)" "on_ok (plan_scope ex_plan) ex_plan" "atof_ok ex_env"
  by code_simp+

lemma ex_where_plain: "pred_option cond_plain (Option.bind (Some ex_where) where_root)"
proof -
  have "Option.bind (Some ex_where) where_root = Some (hd (ir_children ex_where))" "cond_plain (hd (ir_children ex_where))"
    by code_simp+
  then show ?thesis by simp
qed

text \<open>The left join of the example becomes an inner join of two filtered scans.\<close>

lemma ex_rewritten: "case optimizer_rewrite_from_where ex_env (\<lambda>_ _ _. None) ex_plan (Some ex_where) of
    Some (Some (P_Join ty (P_Filter _ _) (P_Filter _ _) _)) \<Rightarrow> ty = ''inner'' | _ \<Rightarrow> False"
  by code_simp

lemma ex_filtered: "filter (\<lambda>r. eval_opt ex_env (plan_scope ex_plan) r (Option.bind (Some ex_where) where_root)) (plan_rows ex_env ex_plan) =
    [[Some 2, Some 1]]"
  by code_simp


section \<open>Contradictions\<close>


definition ex_contradiction :: "opt_conjunct list" where
  "ex_contradiction = map (fresh_conjunct [(ex_orders, [])] True 0)
     [ex_compare ''>='' (ex_col ''total'') (ex_num ''7''), ex_compare ''>'' (ex_num ''7'') (ex_col ''orders.total'')]"

lemma ex_contradiction_checks:
  "names_ok [(ex_orders, [])]" "optimizer_detect_contradiction ex_env [(ex_orders, [])] [zero_step] ex_contradiction"
  by code_simp+


definition ex_two_cases :: cql_table where
  "ex_two_cases = ex_table ''t'' [''x'', ''X''] [[1, 2]]"

definition ex_case_plan :: plan_node where
  "ex_case_plan = P_Join ''cross'' (P_Scan ''t'' (Some ex_two_cases) []) (P_Scan ''items'' (Some ex_items) []) None"

definition ex_case_where :: ir_node where
  "ex_case_where = IR_Node IrWhere [] [and_node (ex_compare ''='' (ex_col ''x'') (ex_num ''1''))
     (ex_compare ''='' (ex_col ''X'') (ex_num ''2''))]"


section \<open>Constant propagation\<close>

lemma popcount_le_1: "(\<And>i j. bit m i \<Longrightarrow> bit m j \<Longrightarrow> i = j) \<Longrightarrow> optimizer_mask_popcount m \<le> 1"
proof (induction m rule: optimizer_mask_popcount.induct)
  case (1 m)
  show ?case
  proof (cases "m = 0")
    case False
    show ?thesis
    proof (cases "bit m 0")
      case True
      then have "\<not> bit (drop_bit 1 m) k" for k using 1(2) [of 0 "Suc k"] bit_drop_1 by auto
      then have "drop_bit 1 m = 0" using word_nonzero_bit by blast
      then show ?thesis using False True popcount_0 [of 0] by (subst optimizer_mask_popcount.simps) simp
    next
      case even: False
      have "optimizer_mask_popcount (drop_bit 1 m) \<le> 1" using 1 False bit_drop_1 by blast
      then show ?thesis using False even by (subst optimizer_mask_popcount.simps) simp
    qed
  qed (subst optimizer_mask_popcount.simps, simp)
qed

lemma popcount_push_bit: "optimizer_mask_popcount (push_bit i 1) \<le> 1"
  by (rule popcount_le_1) (simp add: bit_exp_iff)

text \<open>Following the parents of the equality classes always ends, so constant propagation comes
  back on every list of conjuncts, with the given conjuncts first and the derived ones, each a comparison
  of a column with a constant, behind them.\<close>

theorem optimizer_propagate_ends:
  "\<exists>ds conflict. optimizer_propagate_constants env sc steps cs = Some (cs @ ds, conflict) \<and>
     list_all (\<lambda>d. cj_from_where d \<and> \<not> cj_unresolved d \<and> optimizer_mask_popcount (cj_mask d) \<le> 1 \<and>
       optimizer_ir_is_operator (Some (cj_node d)) ''='') ds"
proof -
  obtain cs' conflict where res: "optimizer_propagate_constants env sc steps cs = Some (cs', conflict)"
    using propagate_total by (metis surj_pair)
  obtain ds where ds: "cs' = cs @ ds"
    "\<And>d. d \<in> set ds \<Longrightarrow> \<exists>i col literal. d = derived_conjunct sc i col literal \<and> column_in sc i col \<and> literal_of cs literal"
    by (rule propagate_shape [OF res]) blast
  have op: "str8_match ''='' ''='' match_ci" by code_simp
  have "optimizer_mask_popcount (push_bit i 1) \<le> 1" for i
    by (rule popcount_push_bit)
  then have "list_all (\<lambda>d. cj_from_where d \<and> \<not> cj_unresolved d \<and> optimizer_mask_popcount (cj_mask d) \<le> 1 \<and>
       optimizer_ir_is_operator (Some (cj_node d)) ''='') ds"
    using ds(2) op by (force simp: list_all_iff derived_conjunct_def optimizer_ir_is_operator_def ir_node_make_def ir_node_add_child_def)
  then show ?thesis using res ds(1) by blast
qed

end
