(* ===== verification/Cql_Order.thy ===== *)
theory Cql_Order
  imports Cql_Prelude "HOL-Library.Multiset"
begin

text \<open>
  Three-way comparison functions, as \<open>qsort\<close> and the search loops of the program use them: the
  sign of \<open>cmp a b\<close> orders \<open>a\<close> and \<open>b\<close>. The locale \<open>comparator\<close> is the contract
  between such a function and the code that sorts or searches with it (the row order of an index, the
  bounds of an index scan, the sorts of the query engine); \<open>ok\<close> are the values it is a total
  preorder on, which leaves out NaN. The binary search of the program is here too: its four copies
  differ only in the test at the middle.
\<close>

definition sorted_by :: "('a \<Rightarrow> 'a \<Rightarrow> int) \<Rightarrow> 'a list \<Rightarrow> bool" where
  "sorted_by cmp xs \<longleftrightarrow> sorted_wrt (\<lambda>a b. cmp a b \<le> 0) xs"

lemma sorted_by_simps [simp]:
  "sorted_by cmp []"
  "sorted_by cmp (x # xs) \<longleftrightarrow> (\<forall>y \<in> set xs. cmp x y \<le> 0) \<and> sorted_by cmp xs"
  by (simp_all add: sorted_by_def)

lemma sorted_by_append:
  "sorted_by cmp (xs @ ys) \<longleftrightarrow> sorted_by cmp xs \<and> sorted_by cmp ys \<and> (\<forall>x \<in> set xs. \<forall>y \<in> set ys. cmp x y \<le> 0)"
  by (simp add: sorted_by_def sorted_wrt_append)

lemma sorted_by_nth: "sorted_by cmp xs \<Longrightarrow> i < j \<Longrightarrow> j < length xs \<Longrightarrow> cmp (xs ! i) (xs ! j) \<le> 0"
  using sorted_wrt_nth_less [of "\<lambda>a b. cmp a b \<le> 0" xs i j] by (simp add: sorted_by_def)

lemma sorted_by_map: "sorted_by cmp (map f xs) \<longleftrightarrow> sorted_by (\<lambda>a b. cmp (f a) (f b)) xs"
  by (simp add: sorted_by_def sorted_wrt_map)

lemma sorted_by_cong:
  "(\<And>a b. a \<in> set xs \<Longrightarrow> b \<in> set xs \<Longrightarrow> cmp a b = cmp' a b) \<Longrightarrow> sorted_by cmp xs = sorted_by cmp' xs"
  by (induction xs) auto

lemma sorted_by_filter: "sorted_by cmp xs \<Longrightarrow> sorted_by cmp (filter P xs)"
  by (simp add: sorted_by_def sorted_wrt_filter)

section \<open>Binary search\<close>

function bisect :: "(nat \<Rightarrow> bool) \<Rightarrow> nat \<Rightarrow> nat \<Rightarrow> nat" where
  "bisect before lo hi =
     (if lo < hi then
        let mid = lo + (hi - lo) div 2 in
        if before mid then bisect before (mid + 1) hi else bisect before lo mid
      else lo)"
  by auto
termination by (relation "measure (\<lambda>(_, lo, hi). hi - lo)") auto

declare bisect.simps [simp del]

lemma bisect_end: "\<not> lo < hi \<Longrightarrow> bisect before lo hi = lo"
  by (subst bisect.simps) simp

lemma bisect_right:
  "lo < hi \<Longrightarrow> before (lo + (hi - lo) div 2) \<Longrightarrow> bisect before lo hi = bisect before (lo + (hi - lo) div 2 + 1) hi"
  by (subst bisect.simps) (simp add: Let_def)

lemma bisect_left:
  "lo < hi \<Longrightarrow> \<not> before (lo + (hi - lo) div 2) \<Longrightarrow> bisect before lo hi = bisect before lo (lo + (hi - lo) div 2)"
  by (subst bisect.simps) (simp add: Let_def)

lemma bisect_cong: "(\<And>i. i < hi \<Longrightarrow> f i = g i) \<Longrightarrow> bisect f lo hi = bisect g lo hi"
proof (induction f lo hi rule: bisect.induct)
  case (1 f lo hi)
  define mid where "mid = lo + (hi - lo) div 2"
  show ?case
  proof (cases "lo < hi")
    case True
    have mid: "mid < hi" using True unfolding mid_def by linarith
    show ?thesis
    proof (cases "f mid")
      case b: True
      then have "bisect f lo hi = bisect f (mid + 1) hi" "bisect g lo hi = bisect g (mid + 1) hi"
        using bisect_right [OF True, of f] bisect_right [OF True, of g] 1(3) [OF mid] unfolding mid_def by blast+
      then show ?thesis using 1(1) [OF True mid_def b 1(3)] by simp
    next
      case b: False
      then have "bisect f lo hi = bisect f lo mid" "bisect g lo hi = bisect g lo mid"
        using bisect_left [OF True, of f] bisect_left [OF True, of g] 1(3) [OF mid] unfolding mid_def by blast+
      then show ?thesis using 1(2) [OF True mid_def b] 1(3) mid by simp
    qed
  qed (simp add: bisect_end)
qed

text \<open>Where the test holds on a prefix of the positions, the search finds its end.\<close>

lemma bisect_between:
  assumes "lo \<le> hi" "\<forall>i j. i \<le> j \<longrightarrow> j < hi \<longrightarrow> before j \<longrightarrow> before i" "\<forall>i < lo. before i"
  shows "bisect before lo hi \<le> hi \<and> (\<forall>i < bisect before lo hi. before i) \<and>
    (\<forall>i. bisect before lo hi \<le> i \<longrightarrow> i < hi \<longrightarrow> \<not> before i)"
  using assms
proof (induction before lo hi rule: bisect.induct)
  case (1 before lo hi)
  define mid where "mid = lo + (hi - lo) div 2"
  show ?case
  proof (cases "lo < hi")
    case True
    have mid: "lo \<le> mid" "mid < hi" using True unfolding mid_def by linarith+
    show ?thesis
    proof (cases "before mid")
      case b: True
      have "\<forall>i < mid + 1. before i" using 1(4) b mid by (metis Suc_eq_plus1 less_Suc_eq_le)
      moreover have "bisect before lo hi = bisect before (mid + 1) hi"
        using bisect_right [OF True, of before] b unfolding mid_def by blast
      ultimately show ?thesis
        using 1(1) [OF True mid_def b] 1(4) mid by (metis Suc_eq_plus1 Suc_leI)
    next
      case b: False
      have *: "bisect before lo hi = bisect before lo mid"
        using bisect_left [OF True, of before] b unfolding mid_def by blast
      have "bisect before lo mid \<le> mid \<and> (\<forall>i < bisect before lo mid. before i) \<and>
        (\<forall>i. bisect before lo mid \<le> i \<longrightarrow> i < mid \<longrightarrow> \<not> before i)"
        by (rule 1(2) [OF True mid_def b]) (use 1(4,5) mid in auto)
      moreover have "\<forall>i. mid \<le> i \<longrightarrow> i < hi \<longrightarrow> \<not> before i"
        using 1(4) b by blast
      ultimately show ?thesis using mid unfolding * by (meson linorder_not_le order.trans less_imp_le)
    qed
  next
    case False
    then show ?thesis using 1(3,5) by (auto simp: bisect_end)
  qed
qed

text \<open>A filter that holds exactly on a range of positions is a slice.\<close>

lemma filter_slice:
  assumes "hi \<le> length xs" "\<And>i. i < length xs \<Longrightarrow> P (xs ! i) \<longleftrightarrow> lo \<le> i \<and> i < hi"
  shows "filter P xs = map (\<lambda>i. xs ! (lo + i)) [0..<hi - lo]"
proof -
  have "filter P xs = map ((!) xs) (filter (\<lambda>i. P (xs ! i)) [0..<length xs])"
    by (metis (mono_tags, lifting) comp_apply filter_cong filter_map map_nth)
  also have "filter (\<lambda>i. P (xs ! i)) [0..<length xs] = filter (\<lambda>i. lo \<le> i \<and> i < hi) [0..<length xs]"
    using assms(2) by (intro filter_cong) auto
  also have "\<dots> = [lo..<hi]"
  proof (cases "lo \<le> hi")
    case True
    have "[0..<length xs] = [0..<lo] @ [lo..<hi] @ [hi..<length xs]"
      using True assms(1) by (metis append_assoc le0 le_Suc_ex order.trans upt_add_eq_append)
    then show ?thesis by (simp add: filter_empty_conv)
  qed (auto simp: filter_empty_conv)
  also have "\<dots> = map ((+) lo) [0..<hi - lo]"
    by (rule nth_equalityI) auto
  finally show ?thesis by (simp add: comp_def)
qed

section \<open>Comparators\<close>

text \<open>Insertion sort, the reference a sorting routine is compared with: it keeps equal elements in
  their order.\<close>

fun insert_by :: "('a \<Rightarrow> 'a \<Rightarrow> int) \<Rightarrow> 'a \<Rightarrow> 'a list \<Rightarrow> 'a list" where
  "insert_by cmp x [] = [x]"
| "insert_by cmp x (y # ys) = (if cmp x y \<le> 0 then x # y # ys else y # insert_by cmp x ys)"

definition sort_by :: "('a \<Rightarrow> 'a \<Rightarrow> int) \<Rightarrow> 'a list \<Rightarrow> 'a list" where
  "sort_by cmp xs = foldr (insert_by cmp) xs []"

lemma sort_by_simps [simp]: "sort_by cmp [] = []" "sort_by cmp (x # xs) = insert_by cmp x (sort_by cmp xs)"
  by (simp_all add: sort_by_def)

lemma mset_insert_by [simp]: "mset (insert_by cmp x ys) = add_mset x (mset ys)"
  by (induction ys) auto

lemma mset_sort_by [simp]: "mset (sort_by cmp xs) = mset xs"
  by (induction xs) auto

lemma set_insert_by [simp]: "set (insert_by cmp x ys) = insert x (set ys)"
  by (induction ys) auto

lemma set_sort_by [simp]: "set (sort_by cmp xs) = set xs"
  by (metis mset_sort_by set_mset_mset)

locale comparator =
  fixes cmp :: "'a \<Rightarrow> 'a \<Rightarrow> int" and ok :: "'a \<Rightarrow> bool"
  assumes cmp_swap: "ok a \<Longrightarrow> ok b \<Longrightarrow> cmp a b < 0 \<longleftrightarrow> cmp b a > 0"
    and cmp_trans: "ok a \<Longrightarrow> ok b \<Longrightarrow> ok c \<Longrightarrow> cmp a b \<le> 0 \<Longrightarrow> cmp b c \<le> 0 \<Longrightarrow> cmp a c \<le> 0"
begin

lemma cmp_refl: "ok a \<Longrightarrow> cmp a a = 0"
  using cmp_swap [of a a] by linarith

lemma cmp_total: "ok a \<Longrightarrow> ok b \<Longrightarrow> cmp a b \<le> 0 \<or> cmp b a \<le> 0"
  using cmp_swap [of a b] by linarith

lemma cmp_le_ge: "ok a \<Longrightarrow> ok b \<Longrightarrow> cmp a b \<le> 0 \<longleftrightarrow> cmp b a \<ge> 0"
  using cmp_swap [of b a] by linarith

lemma cmp_less_trans: "ok a \<Longrightarrow> ok b \<Longrightarrow> ok c \<Longrightarrow> cmp a b \<le> 0 \<Longrightarrow> cmp b c < 0 \<Longrightarrow> cmp a c < 0"
  using cmp_trans [of c a b] cmp_le_ge [of c a] cmp_le_ge [of c b] cmp_le_ge [of a b] by linarith

lemma cmp_le_less_trans: "ok a \<Longrightarrow> ok b \<Longrightarrow> ok c \<Longrightarrow> cmp a b < 0 \<Longrightarrow> cmp b c \<le> 0 \<Longrightarrow> cmp a c < 0"
  using cmp_trans [of b c a] cmp_le_ge [of c a] cmp_le_ge [of b a] cmp_swap [of a b] cmp_le_ge [of a c] by linarith

text \<open>The lower and the upper bound of a target in a sorted list, by the positions around them.\<close>

lemma lower_bound:
  assumes "sorted_by cmp xs" "\<forall>x \<in> set xs. ok x" "ok t"
  defines "k \<equiv> bisect (\<lambda>i. cmp (xs ! i) t < 0) 0 (length xs)"
  shows "k \<le> length xs" "\<And>i. i < k \<Longrightarrow> cmp (xs ! i) t < 0" "\<And>i. k \<le> i \<Longrightarrow> i < length xs \<Longrightarrow> cmp (xs ! i) t \<ge> 0"
proof -
  have mono: "cmp (xs ! i) t < 0" if "i \<le> j" "j < length xs" "cmp (xs ! j) t < 0" for i j
    using that assms(1-3) sorted_by_nth [of cmp xs i j]
    by (cases "i = j") (auto intro: cmp_less_trans [of "xs ! i" "xs ! j"])
  have *: "k \<le> length xs \<and> (\<forall>i < k. cmp (xs ! i) t < 0) \<and>
      (\<forall>i. k \<le> i \<longrightarrow> i < length xs \<longrightarrow> \<not> cmp (xs ! i) t < 0)"
    unfolding k_def by (rule bisect_between) (use mono in blast)+
  then show "k \<le> length xs" "\<And>i. i < k \<Longrightarrow> cmp (xs ! i) t < 0" by blast+
  show "cmp (xs ! i) t \<ge> 0" if "k \<le> i" "i < length xs" for i using * that by (meson not_le)
qed

lemma upper_bound:
  assumes "sorted_by cmp xs" "\<forall>x \<in> set xs. ok x" "ok t"
  defines "k \<equiv> bisect (\<lambda>i. cmp (xs ! i) t \<le> 0) 0 (length xs)"
  shows "k \<le> length xs" "\<And>i. i < k \<Longrightarrow> cmp (xs ! i) t \<le> 0" "\<And>i. k \<le> i \<Longrightarrow> i < length xs \<Longrightarrow> cmp (xs ! i) t > 0"
proof -
  have mono: "cmp (xs ! i) t \<le> 0" if "i \<le> j" "j < length xs" "cmp (xs ! j) t \<le> 0" for i j
    using that assms(1-3) sorted_by_nth [of cmp xs i j]
    by (cases "i = j") (auto intro: cmp_trans [of "xs ! i" "xs ! j"])
  have *: "k \<le> length xs \<and> (\<forall>i < k. cmp (xs ! i) t \<le> 0) \<and>
      (\<forall>i. k \<le> i \<longrightarrow> i < length xs \<longrightarrow> \<not> cmp (xs ! i) t \<le> 0)"
    unfolding k_def by (rule bisect_between) (use mono in blast)+
  then show "k \<le> length xs" "\<And>i. i < k \<Longrightarrow> cmp (xs ! i) t \<le> 0" by blast+
  show "cmp (xs ! i) t > 0" if "k \<le> i" "i < length xs" for i using * that by (meson not_le)
qed

text \<open>Inserting at the lower bound keeps the list sorted.\<close>

lemma insert_at_lower_bound:
  assumes "sorted_by cmp xs" "\<forall>x \<in> set xs. ok x" "ok t"
  defines "k \<equiv> bisect (\<lambda>i. cmp (xs ! i) t < 0) 0 (length xs)"
  shows "sorted_by cmp (take k xs @ t # drop k xs)"
proof -
  note * = lower_bound [OF assms(1-3), folded k_def]
  have "\<forall>x \<in> set (take k xs). cmp x t < 0" "\<forall>x \<in> set (drop k xs). cmp x t \<ge> 0"
    using * by (auto simp: in_set_conv_nth)
  moreover have "sorted_by cmp (take k xs @ drop k xs)" using assms(1) by simp
  moreover have "cmp t y \<le> 0" if "y \<in> set (drop k xs)" for y
    using that cmp_le_ge [of t y] assms(2,3) calculation(2) by (meson in_set_dropD)
  ultimately show ?thesis
    unfolding sorted_by_append by (auto intro: less_imp_le)
qed

lemma sorted_insert_by:
  "ok x \<Longrightarrow> \<forall>y \<in> set ys. ok y \<Longrightarrow> sorted_by cmp ys \<Longrightarrow> sorted_by cmp (insert_by cmp x ys)"
proof (induction ys)
  case (Cons y ys)
  show ?case
  proof (cases "cmp x y \<le> 0")
    case True
    then show ?thesis using Cons.prems cmp_trans [of x y] by auto
  next
    case False
    then have "cmp y x \<le> 0" using Cons.prems cmp_total [of x y] by simp
    then show ?thesis using Cons False by simp
  qed
qed simp

lemma sorted_sort_by: "\<forall>x \<in> set xs. ok x \<Longrightarrow> sorted_by cmp (sort_by cmp xs)"
  by (induction xs) (auto intro: sorted_insert_by)

text \<open>The elements of a class keep their order.\<close>

abbreviation class_of :: "'a \<Rightarrow> 'a list \<Rightarrow> 'a list" where
  "class_of k \<equiv> filter (\<lambda>x. cmp k x = 0)"

lemma cmp_eq_sym: "ok a \<Longrightarrow> ok b \<Longrightarrow> cmp a b = 0 \<longleftrightarrow> cmp b a = 0"
  using cmp_le_ge [of a b] cmp_le_ge [of b a] by linarith

lemma cmp_eq_trans:
  assumes "ok a" "ok b" "ok c" "cmp a b = 0" "cmp b c = 0"
  shows "cmp a c = 0"
proof -
  have "cmp b a = 0" "cmp c b = 0" using assms cmp_eq_sym by blast+
  then have "cmp a c \<le> 0" "cmp c a \<le> 0"
    using assms by (auto intro: cmp_trans [of a b c] cmp_trans [of c b a])
  then show ?thesis using cmp_le_ge [of c a] assms by simp
qed

lemma class_insert_by:
  "ok k \<Longrightarrow> ok x \<Longrightarrow> \<forall>y \<in> set ys. ok y \<Longrightarrow> sorted_by cmp ys \<Longrightarrow>
   class_of k (insert_by cmp x ys) = class_of k (x # ys)"
proof (induction ys)
  case (Cons y ys)
  show ?case
  proof (cases "cmp x y \<le> 0")
    case False
    have "cmp k y \<noteq> 0 \<or> cmp k x \<noteq> 0"
      using False Cons.prems cmp_eq_trans [of x k y] cmp_eq_sym [of x k] by auto
    then show ?thesis using Cons False by auto
  qed simp
qed simp

lemma class_sort_by: "ok k \<Longrightarrow> \<forall>x \<in> set xs. ok x \<Longrightarrow> class_of k (sort_by cmp xs) = class_of k xs"
proof (induction xs)
  case (Cons x xs)
  then have "class_of k (insert_by cmp x (sort_by cmp xs)) = class_of k (x # sort_by cmp xs)"
    using sorted_sort_by [of xs] by (intro class_insert_by) auto
  with Cons show ?case by simp
qed simp

text \<open>A sorted list is determined by its classes: there is one stable way to sort.\<close>

lemma sorted_classes_unique:
  assumes "sorted_by cmp xs" "sorted_by cmp ys" "\<forall>x \<in> set xs \<union> set ys. ok x"
    "\<And>k. ok k \<Longrightarrow> class_of k xs = class_of k ys"
  shows "xs = ys"
  using assms
proof (induction xs arbitrary: ys)
  case Nil
  show ?case
  proof (cases ys)
    case (Cons y ys')
    then show ?thesis using Nil(3) Nil(4) [of y] cmp_refl [of y] by simp
  qed simp
next
  case (Cons x xs)
  have okx: "ok x" using Cons.prems(3) by simp
  have cx: "class_of x ys \<noteq> []" using Cons.prems(4) [OF okx] cmp_refl [OF okx] by auto
  then obtain y ys' where ys: "ys = y # ys'" by (cases ys) auto
  have oky: "ok y" using Cons.prems(3) ys by simp
  have "class_of y (x # xs) \<noteq> []" using Cons.prems(4) [OF oky] cmp_refl [OF oky] ys by auto
  then obtain z where z: "z \<in> set (x # xs)" "cmp y z = 0" by (metis (mono_tags, lifting) filter_False)
  have "cmp x z \<le> 0" using z(1) Cons.prems(1) cmp_refl [OF okx] by auto
  moreover have okz: "ok z" using z(1) Cons.prems(3) by auto
  ultimately have xy: "cmp x y \<le> 0"
    using cmp_trans [OF okx okz oky] cmp_eq_sym [OF oky okz] z(2) by simp
  obtain w where w: "w \<in> set (y # ys')" "cmp x w = 0" using cx ys by (metis (mono_tags, lifting) filter_False)
  have okw: "ok w" using w(1) Cons.prems(3) ys by auto
  have "cmp y w \<le> 0" using w(1) Cons.prems(2) cmp_refl [OF oky] ys by auto
  then have yx: "cmp y x \<le> 0"
    using cmp_trans [OF oky okw okx] cmp_eq_sym [OF okx okw] w(2) by simp
  have eq: "cmp x y = 0" using xy yx cmp_le_ge [OF okx oky] cmp_le_ge [OF oky okx] by linarith
  have "class_of x (x # xs) = class_of x (y # ys')" using Cons.prems(4) [OF okx] ys by simp
  then have x: "x = y" using eq cmp_refl [OF okx] by simp
  have "xs = ys'"
  proof (rule Cons.IH)
    show "class_of k xs = class_of k ys'" if "ok k" for k
      using Cons.prems(4) [OF that] ys x by (cases "cmp k x = 0") simp_all
  qed (use Cons.prems(1,2,3) ys in auto)
  then show ?case using x ys by simp
qed

text \<open>So a routine that sorts and keeps the classes is insertion sort.\<close>

lemma stable_sort_is_sort_by:
  assumes "sorted_by cmp ys" "\<forall>x \<in> set xs. ok x" "set ys = set xs" "\<And>k. ok k \<Longrightarrow> class_of k ys = class_of k xs"
  shows "ys = sort_by cmp xs"
  using assms(1) sorted_sort_by [OF assms(2)]
proof (rule sorted_classes_unique)
  show "class_of k ys = class_of k (sort_by cmp xs)" if "ok k" for k
    using assms(4) [OF that] class_sort_by [OF that assms(2)] by simp
qed (use assms(2,3) in simp)

end

end
