(* ===== verification/Cql_Index.thy ===== *)
theory Cql_Index
  imports Cql_Order Qe_Rows
begin

text \<open>
  Tables with their indexes: the rows of a table, the maintenance of the row order of every index
  (\<open>cql_index_build_order\<close>, \<open>cql_index_insert_row\<close>, \<open>cql_index_remove_row\<close>) and the operations of
  \<open>src/src/cql/cql.c\<close> that change rows, columns and indexes.

  An index is its name, the position of its column and the list of row numbers; the pointer
  \<open>index->column\<close> is a position because a table holds each of its columns once. The sort at the
  build is \<open>qsort\<close> of the C library, the parameter \<open>qsort\<close> with the contract \<open>qsort_ok\<close>.
  A null cell is stored with a zero or an empty string in its place, which is what an index sees of it.
\<close>

section \<open>Keys\<close>

record cql_index =
  index_name :: string8
  index_column :: nat
  index_order :: "nat list"

record cql_store =
  store_table :: cql_table
  store_indexes :: "cql_index list"

text \<open>The sign of \<open>memcmp\<close> on the common part, then the sizes.\<close>

fun memory_compare :: "string8 \<Rightarrow> string8 \<Rightarrow> int" where
  "memory_compare (a # as) (b # bs) = (if a = b then memory_compare as bs else int (byte a) - int (byte b))"
| "memory_compare _ _ = 0"

definition cql_str8_compare :: "string8 \<Rightarrow> string8 \<Rightarrow> int" where
  "cql_str8_compare a b =
     (let min_size = min (length a) (length b);
          cmp = (if min_size \<noteq> 0 then memory_compare (take min_size a) (take min_size b) else 0)
      in if cmp \<noteq> 0 then cmp
         else if length a < length b then - 1
         else if length a > length b then 1
         else 0)"

definition f64_cmp :: "f64 \<Rightarrow> f64 \<Rightarrow> int" where
  "f64_cmp a b = (if f64_lt a b then - 1 else if f64_lt b a then 1 else 0)"

text \<open>The comparison of two keys of one column.\<close>

fun key_compare :: "loaded \<Rightarrow> loaded \<Rightarrow> int" where
  "key_compare (L_str a) (L_str b) = cql_str8_compare a b"
| "key_compare a b = f64_cmp (loaded_num a) (loaded_num b)"

definition stored_value :: "column_type \<Rightarrow> cell \<Rightarrow> loaded" where
  "stored_value ty c =
     (case c of Cell_null \<Rightarrow> (if ty = ColString8 then L_str [] else L_num (F64_num 0)) | _ \<Rightarrow> cell_value ty c)"

definition index_key :: "cql_table \<Rightarrow> nat \<Rightarrow> nat \<Rightarrow> loaded" where
  "index_key t c r = stored_value (column_ty (columns t ! c)) (table_rows t ! r ! c)"

definition cql_index_build_compare :: "cql_table \<Rightarrow> nat \<Rightarrow> nat \<Rightarrow> nat \<Rightarrow> int" where
  "cql_index_build_compare t c ra rb = key_compare (index_key t c ra) (index_key t c rb)"

section \<open>Operations\<close>

type_synonym row_sort = "(nat \<Rightarrow> nat \<Rightarrow> int) \<Rightarrow> nat list \<Rightarrow> nat list"

definition cql_index_build_order ::
  "row_sort \<Rightarrow> cql_table \<Rightarrow> cql_index \<Rightarrow> cql_index" where
  "cql_index_build_order qsort t ix =
     ix\<lparr>index_order :=
         (if table_rows t = [] then []
          else qsort (cql_index_build_compare t (index_column ix)) [0..<length (table_rows t)])\<rparr>"

text \<open>The new row is already in the table.\<close>

definition cql_index_insert_row :: "cql_table \<Rightarrow> nat \<Rightarrow> cql_index \<Rightarrow> cql_index" where
  "cql_index_insert_row t new_row ix =
     (let c = index_column ix; order = index_order ix;
          lo = bisect (\<lambda>i. key_compare (index_key t c (order ! i)) (index_key t c new_row) < 0) 0 (length order)
      in ix\<lparr>index_order := take lo order @ new_row # drop lo order\<rparr>)"

definition cql_index_remove_row :: "nat \<Rightarrow> cql_index \<Rightarrow> cql_index" where
  "cql_index_remove_row removed ix =
     ix\<lparr>index_order := map (\<lambda>i. if i > removed then i - 1 else i) (remove1 removed (index_order ix))\<rparr>"

definition cql_table_add_row :: "cql_store \<Rightarrow> cell list \<Rightarrow> cql_store" where
  "cql_table_add_row st row =
     (let t = store_table st; new_row = length (table_rows t);
          t' = t\<lparr>table_rows := table_rows t @ [row]\<rparr>
      in \<lparr>store_table = t', store_indexes = map (cql_index_insert_row t' new_row) (store_indexes st)\<rparr>)"

definition cql_table_remove_row :: "cql_store \<Rightarrow> nat \<Rightarrow> cql_store" where
  "cql_table_remove_row st r =
     (let t = store_table st in
      if r \<ge> length (table_rows t) then st
      else \<lparr>store_table = t\<lparr>table_rows := take r (table_rows t) @ drop (Suc r) (table_rows t)\<rparr>,
            store_indexes = map (cql_index_remove_row r) (store_indexes st)\<rparr>)"

definition cql_table_find_index :: "cql_store \<Rightarrow> string8 \<Rightarrow> nat option" where
  "cql_table_find_index st name = first_index (\<lambda>ix. str8_match (index_name ix) name match_ci) (store_indexes st)"

definition cql_table_find_index_on_column :: "cql_store \<Rightarrow> nat \<Rightarrow> nat option" where
  "cql_table_find_index_on_column st c = first_index (\<lambda>ix. index_column ix = c) (store_indexes st)"

definition cql_table_register_index :: "cql_store \<Rightarrow> string8 \<Rightarrow> nat \<Rightarrow> cql_store" where
  "cql_table_register_index st name c =
     st\<lparr>store_indexes := store_indexes st @ [\<lparr>index_name = name, index_column = c, index_order = []\<rparr>]\<rparr>"

definition cql_table_create_index ::
  "row_sort \<Rightarrow> cql_store \<Rightarrow> string8 \<Rightarrow> nat \<Rightarrow> cql_store" where
  "cql_table_create_index qsort st name c =
     (let st = cql_table_register_index st name c; k = length (store_indexes st) - 1
      in st\<lparr>store_indexes := (store_indexes st)[k := cql_index_build_order qsort (store_table st) (store_indexes st ! k)]\<rparr>)"

definition cql_table_drop_index :: "cql_store \<Rightarrow> string8 \<Rightarrow> cql_store" where
  "cql_table_drop_index st name =
     (case cql_table_find_index st name of
        None \<Rightarrow> st
      | Some slot \<Rightarrow> st\<lparr>store_indexes := take slot (store_indexes st) @ drop (Suc slot) (store_indexes st)\<rparr>)"

text \<open>\<open>cql_table_remove_column\<close>: every index over the column is dropped, by its name, from the
  last one down; the columns behind it move up.\<close>

fun drop_indexes_over :: "nat \<Rightarrow> nat \<Rightarrow> cql_store \<Rightarrow> cql_store" where
  "drop_indexes_over c 0 st = st"
| "drop_indexes_over c (Suc i) st =
     drop_indexes_over c i
       (if index_column (store_indexes st ! i) = c then cql_table_drop_index st (index_name (store_indexes st ! i)) else st)"

definition without :: "nat \<Rightarrow> 'a list \<Rightarrow> 'a list" where
  "without i xs = take i xs @ drop (Suc i) xs"

definition cql_table_remove_column :: "cql_store \<Rightarrow> nat \<Rightarrow> cql_store" where
  "cql_table_remove_column st c =
     (if c \<ge> length (columns (store_table st)) then st
      else
        let st = drop_indexes_over c (length (store_indexes st)) st; t = store_table st
        in st\<lparr>store_table := t\<lparr>columns := without c (columns t), table_rows := map (without c) (table_rows t)\<rparr>,
              store_indexes := map (\<lambda>ix. ix\<lparr>index_column :=
                if index_column ix > c then index_column ix - 1 else index_column ix\<rparr>) (store_indexes st)\<rparr>)"

section \<open>The order on keys\<close>

lemma memory_compare_sign:
  "length a = length b \<Longrightarrow> sgn (memory_compare a b) = qe_str8_compare a b"
  by (induction a b rule: memory_compare.induct) (auto simp: sgn_if)

lemma qe_str8_compare_range: "qe_str8_compare a b \<in> {- 1, 0, 1}"
  by (induction a b rule: qe_str8_compare.induct) auto

lemma qe_str8_compare_take:
  "qe_str8_compare a b =
     (let m = min (length a) (length b); c = qe_str8_compare (take m a) (take m b) in
      if c \<noteq> 0 then c else if length a < length b then - 1 else if length b < length a then 1 else 0)"
  by (induction a b rule: qe_str8_compare.induct) (auto simp: Let_def)

text \<open>The two string comparisons of the program agree in sign.\<close>

lemma cql_str8_compare_sign: "sgn (cql_str8_compare a b) = qe_str8_compare a b"
proof -
  let ?m = "min (length a) (length b)"
  have m: "sgn (memory_compare (take ?m a) (take ?m b)) = qe_str8_compare (take ?m a) (take ?m b)"
    by (rule memory_compare_sign) simp
  then have z: "memory_compare (take ?m a) (take ?m b) = 0 \<longleftrightarrow> qe_str8_compare (take ?m a) (take ?m b) = 0"
    by (metis sgn_0_0)
  have z': "?m = 0 \<Longrightarrow> memory_compare (take ?m a) (take ?m b) = 0" by simp
  show ?thesis
    using m z z' unfolding qe_str8_compare_take [of a b] cql_str8_compare_def Let_def by auto
qed

lemma cql_str8_compare_iff:
  "cql_str8_compare a b < 0 \<longleftrightarrow> qe_str8_compare a b < 0"
  "cql_str8_compare a b > 0 \<longleftrightarrow> qe_str8_compare a b > 0"
  "cql_str8_compare a b \<le> 0 \<longleftrightarrow> qe_str8_compare a b \<le> 0"
  "cql_str8_compare a b \<ge> 0 \<longleftrightarrow> qe_str8_compare a b \<ge> 0"
  unfolding cql_str8_compare_sign [of a b, symmetric] by (simp_all add: sgn_if)

lemma qe_str8_compare_trans:
  "qe_str8_compare a b \<le> 0 \<Longrightarrow> qe_str8_compare b c \<le> 0 \<Longrightarrow> qe_str8_compare a c \<le> 0"
proof (induction a arbitrary: b c)
  case Nil
  then show ?case by (cases c) auto
next
  case (Cons x xs)
  obtain y ys where b: "b = y # ys" using Cons.prems(1) by (cases b) auto
  obtain z zs where c: "c = z # zs" using Cons.prems(2) b by (cases c) auto
  have "byte x \<le> byte y" "byte y \<le> byte z" using Cons.prems by (auto simp: b c split: if_splits)
  then show ?case
    using Cons.prems Cons.IH [of ys zs] by (cases "byte x = byte z") (auto simp: b c split: if_splits)
qed

interpretation bytes: comparator qe_str8_compare "\<lambda>_. True"
proof
  show "qe_str8_compare a b < 0 \<longleftrightarrow> qe_str8_compare b a > 0" for a b
    by (induction a b rule: qe_str8_compare.induct) auto
  show "qe_str8_compare a c \<le> 0" if "qe_str8_compare a b \<le> 0" "qe_str8_compare b c \<le> 0" for a b c
    using that by (rule qe_str8_compare_trans)
qed

text \<open>The keys of a column of a type that the comparison orders: not NaN.\<close>

fun key_ok :: "column_type \<Rightarrow> loaded \<Rightarrow> bool" where
  "key_ok ty (L_str s) \<longleftrightarrow> ty = ColString8"
| "key_ok ty (L_num x) \<longleftrightarrow> ty \<noteq> ColString8 \<and> x \<noteq> F64_nan"
| "key_ok ty L_null \<longleftrightarrow> False"

lemma f64_cmp_iff [simp]:
  "f64_cmp a b < 0 \<longleftrightarrow> f64_lt a b"
  "f64_cmp a b > 0 \<longleftrightarrow> f64_lt b a"
  "f64_cmp a b \<le> 0 \<longleftrightarrow> \<not> f64_lt b a"
  "f64_cmp a b \<ge> 0 \<longleftrightarrow> \<not> f64_lt a b"
  using f64_lt_asym [of a b] by (auto simp: f64_cmp_def)

lemma f64_not_lt_trans: "b \<noteq> F64_nan \<Longrightarrow> \<not> f64_lt b a \<Longrightarrow> \<not> f64_lt c b \<Longrightarrow> \<not> f64_lt c a"
  by (cases a; cases b; cases c; auto)

interpretation keys: comparator key_compare "key_ok ty" for ty
proof
  fix a b c
  assume ok: "key_ok ty a" "key_ok ty b"
  then show "key_compare a b < 0 \<longleftrightarrow> key_compare b a > 0"
    using bytes.cmp_swap by (cases a; cases b) (auto simp: cql_str8_compare_iff)
  assume c: "key_ok ty c" "key_compare a b \<le> 0" "key_compare b c \<le> 0"
  show "key_compare a c \<le> 0"
  proof (cases "ty = ColString8")
    case True
    then obtain x y z where "a = L_str x" "b = L_str y" "c = L_str z"
      using ok c(1) by (cases a; cases b; cases c; simp)
    then show ?thesis using c bytes.cmp_trans [of x y z] by (simp add: cql_str8_compare_iff)
  next
    case False
    then obtain x y z where "a = L_num x" "b = L_num y" "c = L_num z"
      using ok c(1) by (cases a; cases b; cases c; simp)
    then show ?thesis using c ok f64_not_lt_trans [of y x z] by simp
  qed
qed

section \<open>The invariant of a table with indexes\<close>

fun cell_typed :: "column_type \<Rightarrow> cell \<Rightarrow> bool" where
  "cell_typed ty Cell_null \<longleftrightarrow> True"
| "cell_typed ty (Cell_str s) \<longleftrightarrow> ty = ColString8"
| "cell_typed ty (Cell_num x) \<longleftrightarrow> ty \<noteq> ColString8 \<and> x \<noteq> F64_nan"

definition row_typed :: "cql_table \<Rightarrow> cell list \<Rightarrow> bool" where
  "row_typed t row \<longleftrightarrow>
     length row = length (columns t) \<and> (\<forall>c < length (columns t). cell_typed (column_ty (columns t ! c)) (row ! c))"

definition table_typed :: "cql_table \<Rightarrow> bool" where
  "table_typed t \<longleftrightarrow> (\<forall>row \<in> set (table_rows t). row_typed t row)"

definition index_ok :: "cql_table \<Rightarrow> cql_index \<Rightarrow> bool" where
  "index_ok t ix \<longleftrightarrow>
     index_column ix < length (columns t) \<and>
     mset (index_order ix) = mset [0..<length (table_rows t)] \<and>
     sorted_by (cql_index_build_compare t (index_column ix)) (index_order ix)"

definition store_ok :: "cql_store \<Rightarrow> bool" where
  "store_ok st \<longleftrightarrow> table_typed (store_table st) \<and> (\<forall>ix \<in> set (store_indexes st). index_ok (store_table st) ix)"

lemma key_ok_stored: "cell_typed ty c \<Longrightarrow> key_ok ty (stored_value ty c)"
  by (cases c) (auto simp: stored_value_def cell_value_def)

lemma key_ok_index:
  "table_typed t \<Longrightarrow> r < length (table_rows t) \<Longrightarrow> c < length (columns t) \<Longrightarrow>
   key_ok (column_ty (columns t ! c)) (index_key t c r)"
  by (simp add: index_key_def table_typed_def row_typed_def key_ok_stored)

lemma index_order_set: "index_ok t ix \<Longrightarrow> set (index_order ix) = {0..<length (table_rows t)}"
  by (metis index_ok_def set_mset_mset atLeastLessThan_upt)

lemma index_order_length: "index_ok t ix \<Longrightarrow> length (index_order ix) = length (table_rows t)"
  by (metis index_ok_def mset_eq_length length_upt diff_zero)

text \<open>The keys along an index.\<close>

definition index_keys :: "cql_table \<Rightarrow> cql_index \<Rightarrow> loaded list" where
  "index_keys t ix = map (index_key t (index_column ix)) (index_order ix)"

lemma index_keys_ok:
  assumes "table_typed t" "index_ok t ix"
  shows "sorted_by key_compare (index_keys t ix)"
    "\<forall>k \<in> set (index_keys t ix). key_ok (column_ty (columns t ! index_column ix)) k"
proof -
  show "sorted_by key_compare (index_keys t ix)"
    using assms(2) unfolding index_keys_def index_ok_def sorted_by_map
    by (auto simp: cql_index_build_compare_def cong: sorted_by_cong)
  show "\<forall>k \<in> set (index_keys t ix). key_ok (column_ty (columns t ! index_column ix)) k"
    using assms index_order_set [OF assms(2)]
    by (auto simp: index_keys_def index_ok_def intro!: key_ok_index)
qed

text \<open>A build sorts, whatever \<open>qsort\<close> does with equal keys.\<close>

definition qsort_ok :: "row_sort \<Rightarrow> bool" where
  "qsort_ok qsort \<longleftrightarrow>
     (\<forall>cmp xs. comparator cmp (\<lambda>x. x \<in> set xs) \<longrightarrow> mset (qsort cmp xs) = mset xs \<and> sorted_by cmp (qsort cmp xs))"

lemma build_compare_comparator:
  assumes "table_typed t" "c < length (columns t)"
  shows "comparator (cql_index_build_compare t c) (\<lambda>x. x \<in> set [0..<length (table_rows t)])"
proof
  fix a b r
  have k: "x \<in> set [0..<length (table_rows t)] \<Longrightarrow> key_ok (column_ty (columns t ! c)) (index_key t c x)" for x
    using key_ok_index [OF assms(1) _ assms(2)] by simp
  assume a: "a \<in> set [0..<length (table_rows t)]" "b \<in> set [0..<length (table_rows t)]"
  show "cql_index_build_compare t c a b < 0 \<longleftrightarrow> cql_index_build_compare t c b a > 0"
    unfolding cql_index_build_compare_def by (rule keys.cmp_swap [OF k [OF a(1)] k [OF a(2)]])
  assume r: "r \<in> set [0..<length (table_rows t)]"
    "cql_index_build_compare t c a b \<le> 0" "cql_index_build_compare t c b r \<le> 0"
  then show "cql_index_build_compare t c a r \<le> 0"
    unfolding cql_index_build_compare_def by (rule keys.cmp_trans [OF k [OF a(1)] k [OF a(2)] k])
qed

lemma build_order_ok:
  assumes "qsort_ok qsort" "table_typed t" "index_column ix < length (columns t)"
  shows "index_ok t (cql_index_build_order qsort t ix)"
proof (cases "table_rows t = []")
  case True
  then show ?thesis using assms(3) by (simp add: index_ok_def cql_index_build_order_def)
next
  case False
  then show ?thesis
    using assms build_compare_comparator [OF assms(2,3)]
    unfolding index_ok_def cql_index_build_order_def qsort_ok_def by simp
qed

lemma index_key_append:
  "r < length (table_rows t) \<Longrightarrow> index_key (t\<lparr>table_rows := table_rows t @ [row]\<rparr>) c r = index_key t c r"
  by (simp add: index_key_def nth_append)

lemma insert_row_ok:
  assumes "table_typed t" "row_typed t row" "index_ok t ix"
  shows "index_ok (t\<lparr>table_rows := table_rows t @ [row]\<rparr>)
    (cql_index_insert_row (t\<lparr>table_rows := table_rows t @ [row]\<rparr>) (length (table_rows t)) ix)"
proof -
  let ?t = "t\<lparr>table_rows := table_rows t @ [row]\<rparr>" and ?n = "length (table_rows t)"
  let ?c = "index_column ix" and ?order = "index_order ix"
  let ?ks = "map (index_key ?t ?c) ?order" and ?new = "index_key ?t ?c ?n"
  have c: "?c < length (columns t)" using assms(3) by (simp add: index_ok_def)
  have t: "table_typed ?t" using assms(1,2) by (auto simp: table_typed_def row_typed_def)
  have same: "?ks = index_keys t ix"
    using index_order_set [OF assms(3)] by (auto simp: index_keys_def intro!: index_key_append)
  note keys = index_keys_ok [OF assms(1,3), folded same]
  have new: "key_ok (column_ty (columns t ! ?c)) ?new"
    using key_ok_index [OF t, of ?n ?c] c by simp
  define lo where "lo = bisect (\<lambda>i. key_compare (index_key ?t ?c (?order ! i)) ?new < 0) 0 (length ?order)"
  have lo: "lo = bisect (\<lambda>i. key_compare (?ks ! i) ?new < 0) 0 (length ?ks)"
    unfolding lo_def length_map by (rule bisect_cong) simp
  have ix': "cql_index_insert_row ?t ?n ix = ix\<lparr>index_order := take lo ?order @ ?n # drop lo ?order\<rparr>"
    by (simp add: cql_index_insert_row_def Let_def lo_def)
  have "sorted_by key_compare (take lo ?ks @ ?new # drop lo ?ks)"
    unfolding lo using keys new by (intro keys.insert_at_lower_bound) auto
  then have "sorted_by (cql_index_build_compare ?t ?c) (take lo ?order @ ?n # drop lo ?order)"
    by (simp add: cql_index_build_compare_def [abs_def] take_map drop_map flip: sorted_by_map)
  moreover have "mset (take lo ?order @ ?n # drop lo ?order) = add_mset ?n (mset ?order)"
    by (metis append_take_drop_id mset.simps(2) mset_append union_mset_add_mset_right)
  ultimately show ?thesis
    using assms(3) unfolding ix' by (simp add: index_ok_def)
qed

text \<open>The row numbers once row \<open>r\<close> is gone.\<close>

definition closed_up :: "nat \<Rightarrow> nat \<Rightarrow> nat" where
  "closed_up r i = (if i > r then i - 1 else i)"

lemma closed_up_range:
  assumes "r < n"
  shows "mset (map (closed_up r) (remove1 r [0..<n])) = mset [0..<n - 1]"
proof -
  have "[0..<n] = [0..<r] @ r # [Suc r..<n]"
    using assms by (metis le_add_same_cancel1 less_imp_add_positive upt_add_eq_append upt_conv_Cons zero_le)
  then have "remove1 r [0..<n] = [0..<r] @ [Suc r..<n]" by (simp add: remove1_append)
  moreover have "map (closed_up r) [0..<r] = [0..<r]" by (intro map_idI) (simp add: closed_up_def)
  moreover have "map (closed_up r) [Suc r..<n] = [r..<n - 1]"
    by (rule nth_equalityI) (use assms in \<open>auto simp: closed_up_def\<close>)
  moreover have "[0..<r] @ [r..<n - 1] = [0..<n - 1]"
    using assms upt_add_eq_append [of 0 r "n - 1 - r"] by simp
  ultimately show ?thesis by simp
qed

lemma index_key_without:
  assumes "r < length (table_rows t)" "i < length (table_rows t)" "i \<noteq> r"
  shows "index_key (t\<lparr>table_rows := take r (table_rows t) @ drop (Suc r) (table_rows t)\<rparr>) c (closed_up r i) =
    index_key t c i"
proof -
  have "(take r (table_rows t) @ drop (Suc r) (table_rows t)) ! closed_up r i = table_rows t ! i"
    using assms by (auto simp: nth_append closed_up_def)
  then show ?thesis by (simp add: index_key_def)
qed

lemma remove_row_ok:
  assumes "index_ok t ix" "r < length (table_rows t)"
  shows "index_ok (t\<lparr>table_rows := take r (table_rows t) @ drop (Suc r) (table_rows t)\<rparr>) (cql_index_remove_row r ix)"
proof -
  let ?t = "t\<lparr>table_rows := take r (table_rows t) @ drop (Suc r) (table_rows t)\<rparr>"
  let ?left = "remove1 r (index_order ix)" and ?c = "index_column ix"
  have ix': "cql_index_remove_row r ix = ix\<lparr>index_order := map (closed_up r) ?left\<rparr>"
    by (simp add: cql_index_remove_row_def closed_up_def [abs_def])
  have "distinct (index_order ix)"
    using assms(1) by (metis index_ok_def distinct_upt mset_eq_imp_distinct_iff)
  then have left: "i < length (table_rows t)" "i \<noteq> r" if "i \<in> set ?left" for i
    using that index_order_set [OF assms(1)] by auto
  have "?left = filter (\<lambda>i. r \<noteq> i) (index_order ix)"
    using \<open>distinct (index_order ix)\<close> by (simp add: distinct_remove1_removeAll removeAll_filter_not_eq)
  then have "sorted_by (cql_index_build_compare t ?c) ?left"
    using assms(1) by (metis index_ok_def sorted_by_filter)
  then have "sorted_by (cql_index_build_compare ?t ?c) (map (closed_up r) ?left)"
    unfolding sorted_by_map
    by (subst sorted_by_cong [where cmp' = "cql_index_build_compare t ?c"])
      (use left assms(2) in \<open>auto simp: cql_index_build_compare_def index_key_without\<close>)
  moreover have "mset (map (closed_up r) ?left) = mset [0..<length (table_rows ?t)]"
  proof -
    have "mset ?left = mset (remove1 r [0..<length (table_rows t)])"
      using assms(1) by (simp add: index_ok_def)
    then have "mset (map (closed_up r) ?left) = mset (map (closed_up r) (remove1 r [0..<length (table_rows t)]))"
      by (metis mset_map)
    then show ?thesis using closed_up_range [OF assms(2)] assms(2) by simp
  qed
  ultimately show ?thesis
    using assms(1) unfolding ix' by (simp add: index_ok_def)
qed

lemma add_row_ok: "store_ok st \<Longrightarrow> row_typed (store_table st) row \<Longrightarrow> store_ok (cql_table_add_row st row)"
  unfolding store_ok_def cql_table_add_row_def Let_def
  by (auto intro!: insert_row_ok simp: table_typed_def row_typed_def)

lemma table_row_without: "r < length xs \<Longrightarrow> set (take r xs @ drop (Suc r) xs) \<subseteq> set xs"
  by (auto dest: in_set_takeD in_set_dropD)

lemma remove_row_store_ok: "store_ok st \<Longrightarrow> store_ok (cql_table_remove_row st r)"
  unfolding store_ok_def cql_table_remove_row_def Let_def
  by (auto intro!: remove_row_ok simp: table_typed_def row_typed_def dest: in_set_takeD in_set_dropD)

lemma drop_index_subset:
  "set (store_indexes (cql_table_drop_index st name)) \<subseteq> set (store_indexes st)"
  "store_table (cql_table_drop_index st name) = store_table st"
  by (auto simp: cql_table_drop_index_def split: option.splits dest: in_set_takeD in_set_dropD)

lemma drop_index_ok: "store_ok st \<Longrightarrow> store_ok (cql_table_drop_index st name)"
  using drop_index_subset [of st name] by (auto simp: store_ok_def)

lemma create_index_ok:
  assumes "qsort_ok qsort" "store_ok st" "c < length (columns (store_table st))"
  shows "store_ok (cql_table_create_index qsort st name c)"
  using assms build_order_ok [OF assms(1), of "store_table st"]
  by (auto simp: store_ok_def cql_table_create_index_def cql_table_register_index_def Let_def nth_append)

text \<open>Insertion sort meets the contract of \<open>qsort\<close>.\<close>

lemma qsort_ok_sort_by: "qsort_ok sort_by"
  unfolding qsort_ok_def using comparator.sorted_sort_by by auto

section \<open>Runs\<close>

text \<open>What the statements of the program do to a table and its indexes. The statement that creates an
  index refuses a name that is taken.\<close>

inductive store_step :: "row_sort \<Rightarrow> cql_store \<Rightarrow> cql_store \<Rightarrow> bool" for qsort where
  add_row: "row_typed (store_table st) row \<Longrightarrow> store_step qsort st (cql_table_add_row st row)"
| remove_row: "store_step qsort st (cql_table_remove_row st r)"
| create_index: "c < length (columns (store_table st)) \<Longrightarrow> cql_table_find_index st name = None \<Longrightarrow>
    store_step qsort st (cql_table_create_index qsort st name c)"
| drop_index: "store_step qsort st (cql_table_drop_index st name)"

text \<open>C22: However rows come and go and indexes are created and dropped, every index stays a
  permutation of the row numbers sorted by its column: a binary search in it is always meaningful.\<close>

theorem cql_indexes_stay_sorted:
  assumes "(store_step qsort)\<^sup>*\<^sup>* st st'" "store_ok st" "qsort_ok qsort"
  shows "store_ok st'"
  using assms(1)
proof (induction rule: rtranclp_induct)
  case (step st1 st2)
  from step.hyps(2) step.IH show ?case
    by (induction rule: store_step.induct)
      (simp_all add: add_row_ok remove_row_store_ok create_index_ok drop_index_ok assms(3))
qed (rule assms(2))

text \<open>A table with a column \<open>x\<close>, two rows and an index over it.\<close>

definition ex_store :: cql_store where
  "ex_store =
     \<lparr>store_table = \<lparr>table_name = ''t'',
        columns = [\<lparr>column_name = ''x'', column_ty = ColF64, decimal_scale = 0, enum_labels = None\<rparr>],
        table_rows = [[Cell_num (F64_num 5)], [Cell_num (F64_num 1)], [Cell_num (F64_num 5)]]\<rparr>,
      store_indexes = [\<lparr>index_name = ''i'', index_column = 0, index_order = [1, 0, 2]\<rparr>]\<rparr>"

lemma ex_store_ok: "store_ok ex_store"
  by (simp add: store_ok_def ex_store_def table_typed_def row_typed_def index_ok_def numeral_3_eq_3
      cql_index_build_compare_def index_key_def stored_value_def cell_value_def f64_cmp_def)

lemma cql_indexes_stay_sorted_witness:
  "store_ok (cql_table_remove_row (cql_table_add_row ex_store [Cell_num (F64_num 3)]) 0)"
proof (rule cql_indexes_stay_sorted [OF _ ex_store_ok qsort_ok_sort_by])
  have "row_typed (store_table ex_store) [Cell_num (F64_num 3)]"
    by (simp add: row_typed_def ex_store_def)
  from store_step.add_row [OF this] store_step.remove_row
  show "(store_step sort_by)\<^sup>*\<^sup>* ex_store (cql_table_remove_row (cql_table_add_row ex_store [Cell_num (F64_num 3)]) 0)"
    by (meson rtranclp.rtrancl_into_rtrancl rtranclp.rtrancl_refl)
qed

end
