(* ===== verification/Qe_Index.thy ===== *)
theory Qe_Index
  imports Cql_Index
begin

text \<open>
  Scans served by an index (\<open>src/src/query_exec/query_exec.c\<close>, from
  \<open>qe_index_row_cmp_target\<close> to \<open>qe_try_index_scan\<close>): a comparison of a column with a literal is
  answered by two binary searches in the row order of the index; a conjunction is narrowed by one such
  leaf and the whole condition is applied to the rows that are left.

  \<open>flagged c\<close> says whether column \<open>c\<close> has a \<open>null_flags\<close> array, which it keeps from its first
  null cell on. An index whose \<open>order_count\<close> is not the row count is rebuilt where it is used; the
  store with the rebuilt index is part of the result.
\<close>

section \<open>Comparisons of a column with a literal\<close>

datatype leaf_op = Op_eq | Op_lt | Op_le | Op_gt | Op_ge

record leaf =
  leaf_column :: nat
  leaf_cmp :: leaf_op
  leaf_target :: loaded

definition leaf_operator :: "string8 \<Rightarrow> leaf_op option" where
  "leaf_operator op =
     (if str8_match op ''='' match_exact \<or> str8_match op ''=='' match_exact then Some Op_eq
      else if str8_match op ''<'' match_exact then Some Op_lt
      else if str8_match op ''<='' match_exact then Some Op_le
      else if str8_match op ''>'' match_exact then Some Op_gt
      else if str8_match op ''>='' match_exact then Some Op_ge
      else None)"

text \<open>The operands of \<open>qe_resolve_leaf_comparison\<close>, once the operator is known.\<close>

definition leaf_value :: "num_env \<Rightarrow> cql_column \<Rightarrow> ir_node \<Rightarrow> loaded option" where
  "leaf_value env c right =
     (let ty = column_ty c;
          is_string_key = (ty = ColString8);
          is_date_key = (ty = ColDate \<or> ty = ColTimestamp);
          is_enum_key = (ty = ColEnum);
          literal_given = (ir_type right = IrLiteral) in
      if (is_date_key \<or> is_enum_key) \<and> \<not> literal_given then None
      else if \<not> (is_date_key \<or> is_enum_key) \<and> is_string_key \<noteq> literal_given then None
      else if is_date_key then map_option L_num (qe_resolve_date_literal_value env ty (ir_value right))
      else if is_enum_key then map_option L_num (qe_resolve_enum_literal_value env c (ir_value right))
      else if ty = ColDecimal then map_option L_num (qe_resolve_decimal_literal_value env c (ir_value right))
      else if is_string_key then Some (L_str (ir_value right))
      else Some (L_num (f64_from_str8 env (ir_value right))))"

definition qe_resolve_leaf_comparison :: "num_env \<Rightarrow> cql_table \<Rightarrow> ir_node \<Rightarrow> leaf option" where
  "qe_resolve_leaf_comparison env t condition =
     (if ir_type condition \<noteq> IrOperator then None
      else case leaf_operator (ir_value condition) of
        None \<Rightarrow> None
      | Some op \<Rightarrow>
          (case ir_children condition of
             left # right # _ \<Rightarrow>
               if ir_type left \<noteq> IrColumn then None
               else if ir_type right \<noteq> IrNumeric \<and> ir_type right \<noteq> IrLiteral then None
               else
                 (case cql_table_find_column t (qe_bare_column_name (ir_value left)) of
                    None \<Rightarrow> None
                  | Some c \<Rightarrow>
                      map_option (\<lambda>v. \<lparr>leaf_column = c, leaf_cmp = op, leaf_target = v\<rparr>)
                        (leaf_value env (columns t ! c) right))
           | _ \<Rightarrow> None))"

section \<open>The bounds of a range\<close>

fun qe_index_row_cmp_target :: "loaded \<Rightarrow> loaded \<Rightarrow> int" where
  "qe_index_row_cmp_target (L_str s) (L_str t) = qe_str8_compare s t"
| "qe_index_row_cmp_target v t = f64_cmp (loaded_num v) (loaded_num t)"

definition qe_index_lower_bound :: "cql_table \<Rightarrow> nat \<Rightarrow> nat list \<Rightarrow> loaded \<Rightarrow> nat" where
  "qe_index_lower_bound t c order target =
     bisect (\<lambda>i. qe_index_row_cmp_target (index_key t c (order ! i)) target < 0) 0 (length order)"

definition qe_index_upper_bound :: "cql_table \<Rightarrow> nat \<Rightarrow> nat list \<Rightarrow> loaded \<Rightarrow> nat" where
  "qe_index_upper_bound t c order target =
     bisect (\<lambda>i. qe_index_row_cmp_target (index_key t c (order ! i)) target \<le> 0) 0 (length order)"

fun leaf_range :: "leaf_op \<Rightarrow> nat \<Rightarrow> nat \<Rightarrow> nat \<Rightarrow> nat \<times> nat" where
  "leaf_range Op_eq lower upper n = (lower, upper)"
| "leaf_range Op_lt lower upper n = (0, lower)"
| "leaf_range Op_le lower upper n = (0, upper)"
| "leaf_range Op_gt lower upper n = (upper, n)"
| "leaf_range Op_ge lower upper n = (lower, n)"

definition refresh_index :: "row_sort \<Rightarrow> cql_table \<Rightarrow> cql_index \<Rightarrow> cql_index" where
  "refresh_index qsort t ix =
     (if length (index_order ix) \<noteq> length (table_rows t) then cql_index_build_order qsort t ix else ix)"

text \<open>The store afterwards, the slot of the index, and the range in its order.\<close>

definition qe_index_leaf_range ::
  "num_env \<Rightarrow> row_sort \<Rightarrow> (nat \<Rightarrow> bool) \<Rightarrow> cql_store \<Rightarrow> ir_node \<Rightarrow> (cql_store \<times> nat \<times> nat \<times> nat) option" where
  "qe_index_leaf_range env qsort flagged st condition =
     (let t = store_table st in
      case qe_resolve_leaf_comparison env t condition of
        None \<Rightarrow> None
      | Some lf \<Rightarrow>
          if flagged (leaf_column lf) then None
          else
            (case cql_table_find_index_on_column st (leaf_column lf) of
               None \<Rightarrow> None
             | Some k \<Rightarrow>
                 if table_rows t = [] then Some (st, k, 0, 0)
                 else
                   let ix = refresh_index qsort t (store_indexes st ! k);
                       lower = qe_index_lower_bound t (leaf_column lf) (index_order ix) (leaf_target lf);
                       upper = qe_index_upper_bound t (leaf_column lf) (index_order ix) (leaf_target lf);
                       (lo, hi) = leaf_range (leaf_cmp lf) lower upper (length (table_rows t))
                   in Some (st\<lparr>store_indexes := (store_indexes st)[k := ix]\<rparr>, k, lo, hi)))"

definition qe_index_leaf_match_count ::
  "num_env \<Rightarrow> row_sort \<Rightarrow> (nat \<Rightarrow> bool) \<Rightarrow> cql_store \<Rightarrow> ir_node \<Rightarrow> nat option" where
  "qe_index_leaf_match_count env qsort flagged st condition =
     map_option (\<lambda>(_, _, lo, hi). hi - lo) (qe_index_leaf_range env qsort flagged st condition)"

definition qe_index_range_for_leaf ::
  "num_env \<Rightarrow> row_sort \<Rightarrow> (nat \<Rightarrow> bool) \<Rightarrow> cql_store \<Rightarrow> ir_node \<Rightarrow> (cql_store \<times> nat list) option" where
  "qe_index_range_for_leaf env qsort flagged st condition =
     map_option (\<lambda>(st, k, lo, hi). (st, map (\<lambda>i. index_order (store_indexes st ! k) ! (lo + i)) [0..<hi - lo]))
       (qe_index_leaf_range env qsort flagged st condition)"

section \<open>Conjunctions\<close>

text \<open>\<open>out\<close> are the leaves written so far; no more than \<open>max_leaves\<close> are.\<close>

fun qe_collect_and_leaves :: "nat \<Rightarrow> ir_node \<Rightarrow> ir_node list \<Rightarrow> ir_node list" where
  "qe_collect_and_leaves max_leaves (IR_Node ty v args) out =
     (if length out \<ge> max_leaves then out
      else if ty = IrOperator \<and> is_op v ''and'' then
        (case args of
           [] \<Rightarrow> out
         | [l] \<Rightarrow> qe_collect_and_leaves max_leaves l out
         | l # r # _ \<Rightarrow> qe_collect_and_leaves max_leaves r (qe_collect_and_leaves max_leaves l out))
      else out @ [IR_Node ty v args])"

definition qe_index_narrow_and_filter ::
  "num_env \<Rightarrow> row_sort \<Rightarrow> (nat \<Rightarrow> bool) \<Rightarrow> cql_store \<Rightarrow> ir_node \<Rightarrow> ir_node \<Rightarrow> (cql_store \<times> nat list) option" where
  "qe_index_narrow_and_filter env qsort flagged st top_node lf =
     map_option (\<lambda>(st, narrowed).
         (st, filter (\<lambda>i. eval_opt env [(store_table st, [])] [Some i] (Some top_node)) narrowed))
       (qe_index_range_for_leaf env qsort flagged st lf)"

text \<open>The leaf the optimizer picked; the C code compares the nodes by address, \<open>is_root\<close> is the
  outcome.\<close>

definition qe_index_scan_with_leaf ::
  "num_env \<Rightarrow> row_sort \<Rightarrow> (nat \<Rightarrow> bool) \<Rightarrow> cql_store \<Rightarrow> ir_node option \<Rightarrow> ir_node option \<Rightarrow> bool \<Rightarrow>
   (cql_store \<times> nat list) option" where
  "qe_index_scan_with_leaf env qsort flagged st condition lf is_root =
     (case (condition, lf) of
        (Some top_node, Some lf) \<Rightarrow>
          if is_root then qe_index_range_for_leaf env qsort flagged st top_node
          else qe_index_narrow_and_filter env qsort flagged st top_node lf
      | _ \<Rightarrow> None)"

fun first_answer :: "('a \<Rightarrow> 'b option) \<Rightarrow> 'a list \<Rightarrow> 'b option" where
  "first_answer f [] = None"
| "first_answer f (x # xs) = (case f x of None \<Rightarrow> first_answer f xs | Some y \<Rightarrow> Some y)"

definition qe_try_index_scan ::
  "num_env \<Rightarrow> row_sort \<Rightarrow> nat \<Rightarrow> (nat \<Rightarrow> bool) \<Rightarrow> cql_store \<Rightarrow> ir_node option \<Rightarrow> (cql_store \<times> nat list) option" where
  "qe_try_index_scan env qsort max_and_leaves flagged st condition =
     (case condition of
        None \<Rightarrow> None
      | Some top_node \<Rightarrow>
          (case qe_index_range_for_leaf env qsort flagged st top_node of
             Some r \<Rightarrow> Some r
           | None \<Rightarrow>
               if ir_type top_node \<noteq> IrOperator \<or> \<not> is_op (ir_value top_node) ''and'' then None
               else first_answer (qe_index_narrow_and_filter env qsort flagged st top_node)
                      (qe_collect_and_leaves max_and_leaves top_node [])))"

text \<open>\<open>qe_index_ordered_scan\<close>: chunks of the order are filtered until enough rows are kept; the
  chunk size doubles. \<open>acc\<close> are the rows kept so far.\<close>

function ordered_chunks :: "(nat \<Rightarrow> bool) \<Rightarrow> nat list \<Rightarrow> nat \<Rightarrow> nat \<Rightarrow> nat \<Rightarrow> nat list \<Rightarrow> nat list" where
  "ordered_chunks keep order wanted position chunk_size acc =
     (if length acc < wanted \<and> position < length order \<and> 0 < chunk_size then
        let taken = min chunk_size (length order - position);
            kept = filter keep (take taken (drop position order));
            room = wanted - length acc
        in ordered_chunks keep order wanted (position + taken) (chunk_size * 2) (acc @ take room kept)
      else acc)"
  by auto
termination
  by (relation "measure (\<lambda>(_, order, _, position, _, _). length order - position)") auto

definition qe_index_ordered_scan ::
  "num_env \<Rightarrow> row_sort \<Rightarrow> cql_table \<Rightarrow> string8 \<Rightarrow> cql_index \<Rightarrow> ir_node option \<Rightarrow> bool \<Rightarrow> nat \<Rightarrow> nat list" where
  "qe_index_ordered_scan env qsort t alias ix condition descending wanted =
     (let order = index_order (refresh_index qsort t ix);
          order = (if descending then rev order else order)
      in ordered_chunks (\<lambda>i. eval_opt env [(t, alias)] [Some i] condition) order wanted 0 (max (wanted * 2) 1024) [])"

declare ordered_chunks.simps [simp del]

section \<open>What a comparison means\<close>

fun leaf_holds :: "leaf_op \<Rightarrow> int \<Rightarrow> bool" where
  "leaf_holds Op_eq c \<longleftrightarrow> c = 0"
| "leaf_holds Op_lt c \<longleftrightarrow> c < 0"
| "leaf_holds Op_le c \<longleftrightarrow> c \<le> 0"
| "leaf_holds Op_gt c \<longleftrightarrow> c > 0"
| "leaf_holds Op_ge c \<longleftrightarrow> c \<ge> 0"

lemma row_cmp_target_iff:
  "qe_index_row_cmp_target a b < 0 \<longleftrightarrow> key_compare a b < 0"
  "qe_index_row_cmp_target a b \<le> 0 \<longleftrightarrow> key_compare a b \<le> 0"
  by (cases "(a, b)" rule: qe_index_row_cmp_target.cases; simp add: cql_str8_compare_iff)+

text \<open>The range of an index for a comparison holds exactly the rows that satisfy it.\<close>

lemma leaf_range_rows:
  assumes "table_typed t" "index_ok t ix" "key_ok (column_ty (columns t ! index_column ix)) target"
  defines "lower \<equiv> qe_index_lower_bound t (index_column ix) (index_order ix) target"
    and "upper \<equiv> qe_index_upper_bound t (index_column ix) (index_order ix) target"
  assumes "(lo, hi) = leaf_range op lower upper (length (table_rows t))"
  shows "map (\<lambda>i. index_order ix ! (lo + i)) [0..<hi - lo] =
    filter (\<lambda>r. leaf_holds op (key_compare (index_key t (index_column ix) r) target)) (index_order ix)"
proof -
  let ?ks = "index_keys t ix" and ?order = "index_order ix"
  have len: "length ?ks = length ?order" by (simp add: index_keys_def)
  have nth: "?ks ! i = index_key t (index_column ix) (?order ! i)" if "i < length ?order" for i
    using that by (simp add: index_keys_def)
  have lower: "lower = bisect (\<lambda>i. key_compare (?ks ! i) target < 0) 0 (length ?ks)"
    unfolding lower_def qe_index_lower_bound_def len by (rule bisect_cong) (simp add: row_cmp_target_iff nth)
  have upper: "upper = bisect (\<lambda>i. key_compare (?ks ! i) target \<le> 0) 0 (length ?ks)"
    unfolding upper_def qe_index_upper_bound_def len by (rule bisect_cong) (simp add: row_cmp_target_iff nth)
  note keys = index_keys_ok [OF assms(1,2)]
  note lo = keys.lower_bound [OF keys assms(3), folded lower, unfolded len]
    and up = keys.upper_bound [OF keys assms(3), folded upper, unfolded len]
  have n: "length (table_rows t) = length ?order" using index_order_length [OF assms(2)] by simp
  have pos: "key_compare (?ks ! i) target < 0 \<longleftrightarrow> i < lower" "key_compare (?ks ! i) target \<le> 0 \<longleftrightarrow> i < upper"
    if "i < length ?order" for i
    using lo(2) [of i] lo(3) [of i] up(2) [of i] up(3) [of i] that by (meson not_le)+
  have "leaf_holds op (key_compare (?ks ! i) target) \<longleftrightarrow> lo \<le> i \<and> i < hi" if "i < length ?order" for i
    using pos [OF that] that assms(6) n by (cases op) (auto simp: not_le not_less)
  moreover have "hi \<le> length ?order" using assms(6) n lo(1) up(1) by (cases op) auto
  ultimately show ?thesis
    using nth by (intro filter_slice [symmetric]) auto
qed

section \<open>A comparison and the evaluation of the condition\<close>

text \<open>Every column of a condition is unqualified or qualified by the name of the table.\<close>

definition named_in :: "cql_table \<Rightarrow> string8 \<Rightarrow> bool" where
  "named_in t name \<longleftrightarrow> (has_dot name \<longrightarrow> str8_match (table_name t) (qualifier_of name) match_ci)"

fun columns_named :: "cql_table \<Rightarrow> ir_node \<Rightarrow> bool" where
  "columns_named t (IR_Node ty v args) \<longleftrightarrow> (ty = IrColumn \<longrightarrow> named_in t v) \<and> list_all (columns_named t) args"

lemma resolve_in_table:
  assumes "named_in t name" "cql_table_find_column t (qe_bare_column_name name) = Some c"
  shows "qe_resolve_column_table [(t, [])] name = Some 0" "resolve_column [(t, [])] name = Some (0, c)"
proof -
  show r: "qe_resolve_column_table [(t, [])] name = Some 0"
    using assms by (auto simp: qe_resolve_column_table_def named_in_def scope_name_def qe_bare_column_name_def split: if_splits)
  then show "resolve_column [(t, [])] name = Some (0, c)"
    using assms(2) by (simp add: resolve_column_def)
qed

lemma leaf_operator_not:
  assumes "leaf_operator op = Some lo"
  shows "\<not> is_op op ''and''" "\<not> is_op op ''or''" "\<not> is_op op ''is null''" "\<not> is_op op ''is not null''"
    "\<not> is_op op ''in''" "\<not> is_op op ''not in''"
proof -
  have "op \<in> set [''='', ''=='', ''<'', ''<='', ''>'', ''>='']"
    using assms by (auto simp: leaf_operator_def split: if_splits)
  moreover have "\<forall>op \<in> set [''='', ''=='', ''<'', ''<='', ''>'', ''>='']. \<not> is_op op ''and'' \<and> \<not> is_op op ''or'' \<and>
      \<not> is_op op ''is null'' \<and> \<not> is_op op ''is not null'' \<and> \<not> is_op op ''in'' \<and> \<not> is_op op ''not in''"
    by code_simp
  ultimately show "\<not> is_op op ''and''" "\<not> is_op op ''or''" "\<not> is_op op ''is null''" "\<not> is_op op ''is not null''"
    "\<not> is_op op ''in''" "\<not> is_op op ''not in''" by blast+
qed

lemma leaf_operator_compare:
  assumes "leaf_operator op = Some lo"
  shows "compare_numbers op a b = leaf_holds lo (f64_cmp a b) \<or> a = F64_nan \<or> b = F64_nan"
    "compare_strings op s s' = leaf_holds lo (qe_str8_compare s s')"
proof -
  have lin: "a \<noteq> F64_nan \<Longrightarrow> b \<noteq> F64_nan \<Longrightarrow> f64_lt a b \<or> a = b \<or> f64_lt b a" by (rule f64_linear)
  show "compare_numbers op a b = leaf_holds lo (f64_cmp a b) \<or> a = F64_nan \<or> b = F64_nan"
    using assms lin f64_lt_asym [of a b]
    by (auto simp: leaf_operator_def compare_numbers_def f64_le_def f64_eq_def f64_cmp_def split: if_splits)
  have "\<forall>op \<in> set [''='', ''=='', ''<'', ''<='', ''>'', ''>='']. \<not> str8_match op ''contains'' match_ci" by code_simp
  then show "compare_strings op s s' = leaf_holds lo (qe_str8_compare s s')"
    using assms by (auto simp: leaf_operator_def compare_strings_def Let_def split: if_splits)
qed

text \<open>What the code relies on: a number read from a literal is not NaN.\<close>

definition literals_ok :: "num_env \<Rightarrow> bool" where
  "literals_ok env \<longleftrightarrow> (\<forall>s. f64_from_str8 env s \<noteq> F64_nan) \<and> (\<forall>i. f64_of_int env i \<noteq> F64_nan)"

lemma leaf_value_ok: "leaf_value env c right = Some v \<Longrightarrow> literals_ok env \<Longrightarrow> key_ok (column_ty c) v"
  by (auto simp: leaf_value_def Let_def literals_ok_def qe_resolve_date_literal_value_def
      qe_resolve_enum_literal_value_def qe_resolve_decimal_literal_value_def
      split: if_splits option.splits)

lemma leaf_value_resolve:
  assumes "leaf_value env (columns t ! c) right = Some v"
    "ir_type left = IrColumn" "ir_type right = IrNumeric \<or> ir_type right = IrLiteral"
    "resolve_column [(t, [])] (ir_value left) = Some (0, c)"
  shows "resolve_right env [(t, [])] row left right = Some v"
  using assms
  by (auto simp: resolve_right_def column_at_def leaf_value_def Let_def qe_row_load_value_def split: if_splits)

lemma resolve_leaf_cases:
  assumes "qe_resolve_leaf_comparison env t condition = Some lf"
  obtains op left right rest where
    "condition = IR_Node IrOperator op (left # right # rest)" "leaf_operator op = Some (leaf_cmp lf)"
    "ir_type left = IrColumn" "ir_type right = IrNumeric \<or> ir_type right = IrLiteral"
    "cql_table_find_column t (qe_bare_column_name (ir_value left)) = Some (leaf_column lf)"
    "leaf_value env (columns t ! leaf_column lf) right = Some (leaf_target lf)"
  using assms that
  by (cases condition)
    (auto simp: qe_resolve_leaf_comparison_def split: if_splits option.splits list.splits)

lemma find_column_bound: "cql_table_find_column t name = Some c \<Longrightarrow> c < length (columns t)"
  unfolding cql_table_find_column_def by (drule first_index_Some) simp

lemma leaf_column_bound: "qe_resolve_leaf_comparison env t condition = Some lf \<Longrightarrow> leaf_column lf < length (columns t)"
  by (elim resolve_leaf_cases find_column_bound)

lemma leaf_target_ok:
  "qe_resolve_leaf_comparison env t condition = Some lf \<Longrightarrow> literals_ok env \<Longrightarrow>
   key_ok (column_ty (columns t ! leaf_column lf)) (leaf_target lf)"
  by (elim resolve_leaf_cases leaf_value_ok)

lemma load_in_table:
  assumes "ir_type left = IrColumn" "named_in t (ir_value left)"
    "cql_table_find_column t (qe_bare_column_name (ir_value left)) = Some c"
    "table_typed t" "r < length (table_rows t)" "table_rows t ! r ! c \<noteq> Cell_null"
  shows "qe_row_load_value env [(t, [])] [Some r] left = index_key t c r"
  using assms resolve_in_table(1) [OF assms(2,3)]
  by (auto simp: qe_row_load_value_def load_column_def index_key_def stored_value_def split: cell.splits)

text \<open>A row without a null in the column satisfies a comparison exactly when its key does.\<close>

lemma leaf_eval:
  assumes "qe_resolve_leaf_comparison env t condition = Some lf" "columns_named t condition" "literals_ok env"
    "table_typed t" "r < length (table_rows t)" "table_rows t ! r ! leaf_column lf \<noteq> Cell_null"
  shows "qe_row_condition_eval env [(t, [])] [Some r] condition \<longleftrightarrow>
    leaf_holds (leaf_cmp lf) (key_compare (index_key t (leaf_column lf) r) (leaf_target lf))"
proof -
  obtain op left right rest where c: "condition = IR_Node IrOperator op (left # right # rest)"
    and op: "leaf_operator op = Some (leaf_cmp lf)"
    and left: "ir_type left = IrColumn" and right: "ir_type right = IrNumeric \<or> ir_type right = IrLiteral"
    and col: "cql_table_find_column t (qe_bare_column_name (ir_value left)) = Some (leaf_column lf)"
    and v: "leaf_value env (columns t ! leaf_column lf) right = Some (leaf_target lf)"
    using resolve_leaf_cases [OF assms(1)] by blast
  have named: "named_in t (ir_value left)" using assms(2) left by (cases left) (simp add: c)
  note load = load_in_table [OF left named col assms(4-6), of env]
  note res = leaf_value_resolve [OF v left right resolve_in_table(2) [OF named col]]
  have key: "key_ok (column_ty (columns t ! leaf_column lf)) (index_key t (leaf_column lf) r)"
    by (rule key_ok_index [OF assms(4,5) find_column_bound [OF col]])
  note target = leaf_target_ok [OF assms(1,3)]
  have fuzzy: "qe_ir_is_fuzzy_call left = None" using left by (simp add: qe_ir_is_fuzzy_call_def)
  have "qe_row_condition_eval env [(t, [])] [Some r] condition =
      compare_loaded op (index_key t (leaf_column lf) r) (leaf_target lf)"
    using leaf_operator_not [OF op] by (simp add: c eval_leaf_def fuzzy res load)
  also have "\<dots> = leaf_holds (leaf_cmp lf) (key_compare (index_key t (leaf_column lf) r) (leaf_target lf))"
  proof (cases "column_ty (columns t ! leaf_column lf) = ColString8")
    case True
    then obtain x y where "index_key t (leaf_column lf) r = L_str x" "leaf_target lf = L_str y"
      using key target by (cases "index_key t (leaf_column lf) r"; cases "leaf_target lf"; simp)
    moreover have "leaf_holds o' (cql_str8_compare x y) = leaf_holds o' (qe_str8_compare x y)" for o'
      by (cases o') (simp_all add: cql_str8_compare_iff order_eq_iff [of "cql_str8_compare x y"]
          order_eq_iff [of "qe_str8_compare x y"] del: qe_str8_compare_eq)
    ultimately show ?thesis
      using leaf_operator_compare(2) [OF op] by (simp add: compare_loaded_def)
  next
    case False
    then obtain x y where "index_key t (leaf_column lf) r = L_num x" "leaf_target lf = L_num y"
      "x \<noteq> F64_nan" "y \<noteq> F64_nan"
      using key target by (cases "index_key t (leaf_column lf) r"; cases "leaf_target lf"; simp)
    then show ?thesis
      using leaf_operator_compare(1) [OF op, of x y] by (simp add: compare_loaded_def)
  qed
  finally show ?thesis .
qed

section \<open>Scans\<close>

text \<open>An index in use: of a row count of its own it is rebuilt, otherwise it is in order.\<close>

definition index_usable :: "cql_table \<Rightarrow> cql_index \<Rightarrow> bool" where
  "index_usable t ix \<longleftrightarrow>
     index_column ix < length (columns t) \<and> (length (index_order ix) = length (table_rows t) \<longrightarrow> index_ok t ix)"

definition flags_ok :: "cql_table \<Rightarrow> (nat \<Rightarrow> bool) \<Rightarrow> bool" where
  "flags_ok t flagged \<longleftrightarrow>
     (\<forall>row \<in> set (table_rows t). \<forall>c < length (columns t). row ! c = Cell_null \<longrightarrow> flagged c)"

definition scan_ready :: "num_env \<Rightarrow> row_sort \<Rightarrow> (nat \<Rightarrow> bool) \<Rightarrow> cql_store \<Rightarrow> bool" where
  "scan_ready env qsort flagged st \<longleftrightarrow>
     literals_ok env \<and> qsort_ok qsort \<and> table_typed (store_table st) \<and> flags_ok (store_table st) flagged \<and>
     (\<forall>ix \<in> set (store_indexes st). index_usable (store_table st) ix)"

lemma refresh_index_ok:
  "qsort_ok qsort \<Longrightarrow> table_typed t \<Longrightarrow> index_usable t ix \<Longrightarrow> index_ok t (refresh_index qsort t ix)"
  by (auto simp: refresh_index_def index_usable_def intro: build_order_ok)

lemma refresh_index_column [simp]: "index_column (refresh_index qsort t ix) = index_column ix"
  by (simp add: refresh_index_def cql_index_build_order_def)

lemma index_usable_iff: "index_ok t ix \<Longrightarrow> index_usable t ix"
  by (simp add: index_usable_def index_ok_def)

lemma mset_index_order: "index_ok t ix \<Longrightarrow> mset (filter P (index_order ix)) = mset (filter P [0..<length (table_rows t)])"
  by (metis index_ok_def mset_filter)

text \<open>The rows an index answers a comparison with.\<close>

lemma range_for_leaf:
  assumes "scan_ready env qsort flagged st" "columns_named (store_table st) condition"
    "qe_index_range_for_leaf env qsort flagged st condition = Some (st', rows)"
  shows "store_table st' = store_table st" "scan_ready env qsort flagged st'"
    "mset rows = mset (filter (\<lambda>i. qe_row_condition_eval env [(store_table st, [])] [Some i] condition)
      [0..<length (table_rows (store_table st))])"
proof -
  let ?t = "store_table st"
  obtain k lo hi where range: "qe_index_leaf_range env qsort flagged st condition = Some (st', k, lo, hi)"
    and rows: "rows = map (\<lambda>i. index_order (store_indexes st' ! k) ! (lo + i)) [0..<hi - lo]"
    using assms(3) by (auto simp: qe_index_range_for_leaf_def)
  then obtain lf where lf: "qe_resolve_leaf_comparison env ?t condition = Some lf"
    and unflagged: "\<not> flagged (leaf_column lf)"
    and k: "cql_table_find_index_on_column st (leaf_column lf) = Some k"
    by (auto simp: qe_index_leaf_range_def Let_def split: option.splits if_splits)
  have kb: "k < length (store_indexes st)" "index_column (store_indexes st ! k) = leaf_column lf"
    using first_index_Some [OF k [unfolded cql_table_find_index_on_column_def]] by simp_all
  define ix where "ix = refresh_index qsort ?t (store_indexes st ! k)"
  have ready: "literals_ok env" "qsort_ok qsort" "table_typed ?t" "flags_ok ?t flagged"
    "\<forall>ix \<in> set (store_indexes st). index_usable ?t ix"
    using assms(1) by (simp_all add: scan_ready_def)
  have ix: "index_ok ?t ix" "index_column ix = leaf_column lf"
    using ready kb by (auto simp: ix_def intro: refresh_index_ok)
  have st': "store_table st' = ?t" "\<forall>ix \<in> set (store_indexes st'). index_usable ?t ix"
    and empty: "table_rows ?t = [] \<Longrightarrow> rows = []"
    and nonempty: "table_rows ?t \<noteq> [] \<Longrightarrow> store_indexes st' ! k = ix \<and> (lo, hi) =
      leaf_range (leaf_cmp lf) (qe_index_lower_bound ?t (leaf_column lf) (index_order ix) (leaf_target lf))
       (qe_index_upper_bound ?t (leaf_column lf) (index_order ix) (leaf_target lf)) (length (table_rows ?t))"
    using range rows lf unflagged k ready(5) kb index_usable_iff [OF ix(1)]
    by (auto simp: qe_index_leaf_range_def Let_def ix_def dest!: set_update_subset_insert [THEN subsetD]
        split: if_splits prod.splits)
  then show "store_table st' = store_table st" "scan_ready env qsort flagged st'"
    using assms(1) by (simp_all add: scan_ready_def)
  show "mset rows = mset (filter (\<lambda>i. qe_row_condition_eval env [(?t, [])] [Some i] condition) [0..<length (table_rows ?t)])"
  proof (cases "table_rows ?t = []")
    case False
    have target: "key_ok (column_ty (columns ?t ! index_column ix)) (leaf_target lf)"
      using leaf_target_ok [OF lf ready(1)] ix(2) by simp
    have "rows = filter (\<lambda>r. leaf_holds (leaf_cmp lf) (key_compare (index_key ?t (leaf_column lf) r) (leaf_target lf)))
        (index_order ix)"
      using leaf_range_rows [OF ready(3) ix(1) target, of lo hi "leaf_cmp lf"] nonempty [OF False] rows ix(2) by simp
    also have "\<dots> = filter (\<lambda>i. qe_row_condition_eval env [(?t, [])] [Some i] condition) (index_order ix)"
    proof (rule filter_cong [OF refl])
      fix r assume "r \<in> set (index_order ix)"
      then have r: "r < length (table_rows ?t)" using index_order_set [OF ix(1)] by simp
      then have "table_rows ?t ! r ! leaf_column lf \<noteq> Cell_null"
        using ready(4) unflagged leaf_column_bound [OF lf] by (auto simp: flags_ok_def)
      then show "leaf_holds (leaf_cmp lf) (key_compare (index_key ?t (leaf_column lf) r) (leaf_target lf)) =
          qe_row_condition_eval env [(?t, [])] [Some r] condition"
        using leaf_eval [OF lf assms(2) ready(1,3) r] by simp
    qed
    finally show ?thesis using mset_index_order [OF ix(1)] by simp
  qed (simp add: empty)
qed

text \<open>What passes from a conjunction to its operands holds of every leaf.\<close>

lemma collect_leaves_all:
  assumes left: "\<And>v l rest. is_op v ''and'' \<Longrightarrow> P (IR_Node IrOperator v (l # rest)) \<Longrightarrow> P l"
    and right: "\<And>v l r rest. is_op v ''and'' \<Longrightarrow> P (IR_Node IrOperator v (l # r # rest)) \<Longrightarrow> P r"
  shows "P condition \<Longrightarrow> \<forall>l \<in> set out. P l \<Longrightarrow> \<forall>l \<in> set (qe_collect_and_leaves m condition out). P l"
proof (induction m condition out rule: qe_collect_and_leaves.induct)
  case (1 m ty v args out)
  show ?case
  proof (cases "length out < m \<and> ty = IrOperator \<and> is_op v ''and''")
    case False
    then show ?thesis using 1(4,5) by auto
  next
    case True
    then have g: "\<not> m \<le> length out" "ty = IrOperator \<and> is_op v ''and''" by simp_all
    consider "args = []" | l where "args = [l]" | l r rest where "args = l # r # rest"
      by (metis list.exhaust)
    then show ?thesis
    proof cases
      case 1
      then have "qe_collect_and_leaves m (IR_Node ty v args) out = out" using g by simp
      then show ?thesis using "1.prems"(2) by simp
    next
      case (2 l)
      have "P l" using "1.prems"(1) g(2) left unfolding 2 by blast
      from "1.IH"(1) [OF g 2 refl this "1.prems"(2)]
      show ?thesis using g 2 by simp
    next
      case (3 l r rest)
      have "P l" "P r" using "1.prems"(1) g(2) left right unfolding 3 by blast+
      from "1.IH"(3) [OF g 3 refl this(2) "1.IH"(2) [OF g 3 refl this(1) "1.prems"(2)]]
      show ?thesis using g 3 by simp
    qed
  qed
qed

lemma collect_leaves_hold:
  assumes "qe_row_condition_eval env sc row condition" "l \<in> set (qe_collect_and_leaves m condition [])"
  shows "qe_row_condition_eval env sc row l"
proof -
  have left: "qe_row_condition_eval env sc row l" if "is_op v ''and''" "qe_row_condition_eval env sc row (IR_Node IrOperator v (l # rest))" for v l rest
    using that by (cases rest) auto
  have right: "qe_row_condition_eval env sc row r" if "is_op v ''and''" "qe_row_condition_eval env sc row (IR_Node IrOperator v (l # r # rest))" for v l r rest
    using that by simp
  have "\<forall>l \<in> set (qe_collect_and_leaves m condition []). qe_row_condition_eval env sc row l"
    by (rule collect_leaves_all [where P = "qe_row_condition_eval env sc row"])
      (erule (1) left, erule (1) right, rule assms(1), simp)
  then show ?thesis using assms(2) by blast
qed

lemma collect_leaves_named:
  assumes "columns_named t condition" "l \<in> set (qe_collect_and_leaves m condition [])"
  shows "columns_named t l"
proof -
  have "\<forall>l \<in> set (qe_collect_and_leaves m condition []). columns_named t l"
    by (rule collect_leaves_all [where P = "columns_named t"]) (use assms(1) in simp_all)
  then show ?thesis using assms(2) by blast
qed

lemma narrow_and_filter:
  assumes "scan_ready env qsort flagged st" "columns_named (store_table st) lf"
    "\<And>row. qe_row_condition_eval env [(store_table st, [])] row condition \<Longrightarrow>
      qe_row_condition_eval env [(store_table st, [])] row lf"
    "qe_index_narrow_and_filter env qsort flagged st condition lf = Some (st', rows)"
  shows "store_table st' = store_table st \<and> scan_ready env qsort flagged st' \<and>
    mset rows = mset (qe_cpu_scan_filter env (store_table st) (Some condition))"
proof -
  obtain narrowed where range: "qe_index_range_for_leaf env qsort flagged st lf = Some (st', narrowed)"
    and rows: "rows = filter (\<lambda>i. qe_row_condition_eval env [(store_table st', [])] [Some i] condition) narrowed"
    using assms(4) by (auto simp: qe_index_narrow_and_filter_def)
  note r = range_for_leaf [OF assms(1,2) range]
  have "mset rows = filter_mset (\<lambda>i. qe_row_condition_eval env [(store_table st, [])] [Some i] condition) (mset narrowed)"
    by (simp add: rows r(1))
  also have "\<dots> = mset (filter (\<lambda>i. qe_row_condition_eval env [(store_table st, [])] [Some i] condition)
      (filter (\<lambda>i. qe_row_condition_eval env [(store_table st, [])] [Some i] lf) [0..<length (table_rows (store_table st))]))"
    by (simp only: r(3) mset_filter)
  also have "\<dots> = mset (qe_cpu_scan_filter env (store_table st) (Some condition))"
    using assms(3) by (auto simp: qe_cpu_scan_filter_def intro!: arg_cong [of _ _ mset] filter_cong)
  finally show ?thesis using r(1,2) by simp
qed

lemma first_answer_Some: "first_answer f xs = Some y \<Longrightarrow> \<exists>x \<in> set xs. f x = Some y"
  by (induction xs) (auto split: option.splits)

text \<open>The ordered scan keeps the first rows of the index order that pass.\<close>

lemma ordered_chunks_take:
  assumes "0 < chunk_size" "acc = take wanted (filter keep (take position order))" "position \<le> length order"
  shows "ordered_chunks keep order wanted position chunk_size acc = take wanted (filter keep order)"
  using assms
proof (induction keep order wanted position chunk_size acc rule: ordered_chunks.induct)
  case (1 keep order wanted position chunk_size acc)
  define taken where "taken = min chunk_size (length order - position)"
  define kept where "kept = filter keep (take taken (drop position order))"
  define acc' where "acc' = acc @ take (wanted - length acc) kept"
  show ?case
  proof (cases "length acc < wanted \<and> position < length order \<and> 0 < chunk_size")
    case True
    have all: "filter keep (take (position + taken) order) = filter keep (take position order) @ kept"
      by (simp add: take_add kept_def)
    have short: "acc = filter keep (take position order)" using True 1(3) by (cases "length (filter keep (take position order)) \<le> wanted") simp_all
    then have "acc' = take wanted (filter keep (take (position + taken) order))"
      using True by (simp add: acc'_def all)
    moreover have "position + taken \<le> length order" using True unfolding taken_def by linarith
    ultimately have "ordered_chunks keep order wanted (position + taken) (chunk_size * 2) acc' = take wanted (filter keep order)"
      using 1(1) [OF True taken_def kept_def refl] True unfolding acc'_def by simp
    then show ?thesis
      using True by (subst ordered_chunks.simps) (simp add: Let_def acc'_def kept_def taken_def)
  next
    case False
    have "take wanted (filter keep order) = acc"
    proof (cases "length acc < wanted")
      case True
      then have "position = length order" using False 1(2,4) by simp
      then show ?thesis using 1(3) by simp
    next
      case full: False
      have "filter keep order = filter keep (take position order) @ filter keep (drop position order)"
        by (metis append_take_drop_id filter_append)
      then show ?thesis using full 1(3) by simp
    qed
    moreover have "ordered_chunks keep order wanted position chunk_size acc = acc"
      using False by (subst ordered_chunks.simps) (rule if_not_P)
    ultimately show ?thesis by simp
  qed
qed

lemma try_index_scan_rows:
  assumes "scan_ready env qsort flagged st" "columns_named (store_table st) condition"
    "qe_try_index_scan env qsort max_and_leaves flagged st (Some condition) = Some (st', rows)"
  shows "mset rows = mset (qe_cpu_scan_filter env (store_table st) (Some condition)) \<and>
    store_table st' = store_table st \<and> scan_ready env qsort flagged st'"
proof (cases "qe_index_range_for_leaf env qsort flagged st condition")
  case None
  then have "first_answer (qe_index_narrow_and_filter env qsort flagged st condition)
      (qe_collect_and_leaves max_and_leaves condition []) = Some (st', rows)"
    using assms(3) by (simp add: qe_try_index_scan_def split: if_splits)
  then obtain lf where lf: "lf \<in> set (qe_collect_and_leaves max_and_leaves condition [])"
    "qe_index_narrow_and_filter env qsort flagged st condition lf = Some (st', rows)"
    using first_answer_Some by metis
  have "columns_named (store_table st) lf"
    using collect_leaves_named [OF assms(2) lf(1)] .
  moreover have "\<And>row. qe_row_condition_eval env [(store_table st, [])] row condition \<Longrightarrow>
      qe_row_condition_eval env [(store_table st, [])] row lf"
    using collect_leaves_hold lf(1) by blast
  ultimately show ?thesis
    using narrow_and_filter [OF assms(1) _ _ lf(2)] by blast
next
  case (Some r)
  then show ?thesis
    using assms(3) range_for_leaf [OF assms(1,2)]
    by (simp add: qe_try_index_scan_def qe_cpu_scan_filter_def)
qed

text \<open>C21: An index never changes the answer of a scan: when the index path applies, it returns exactly
  the rows that the CPU reference scan finds for the whole condition, each once, whatever order the index
  has them in; the table is left alone and the indexes stay usable.\<close>

theorem qe_try_index_scan_rows:
  assumes "scan_ready env qsort flagged st" "columns_named (store_table st) condition"
    "qe_try_index_scan env qsort max_and_leaves flagged st (Some condition) = Some (st', rows)"
  shows "mset rows = mset (qe_cpu_scan_filter env (store_table st) (Some condition)) \<and>
    store_table st' = store_table st \<and> scan_ready env qsort flagged st'"
  using assms by (rule try_index_scan_rows)

lemma ordered_scan_takes:
  assumes "index_ok t ix"
  shows "qe_index_ordered_scan env qsort t alias ix condition descending wanted =
    take wanted (filter (\<lambda>i. eval_opt env [(t, alias)] [Some i] condition)
      (if descending then rev (index_order ix) else index_order ix))"
  using index_order_length [OF assms] unfolding qe_index_ordered_scan_def refresh_index_def Let_def
  by (simp add: ordered_chunks_take)

text \<open>C23: A scan in index order returns the first rows of that order that pass the condition, as many
  as were wanted if there are so many, in however many chunks it reads them.\<close>

theorem qe_index_ordered_scan_rows:
  assumes "index_ok t ix"
  shows "qe_index_ordered_scan env qsort t alias ix condition descending wanted =
    take wanted (filter (\<lambda>i. eval_opt env [(t, alias)] [Some i] condition)
      (if descending then rev (index_order ix) else index_order ix))"
  by (rule ordered_scan_takes [OF assms])

text \<open>A small environment for the examples: one digit is a number.\<close>

definition digit_env :: num_env where
  "digit_env =
     \<lparr>atof = (\<lambda>s. case s of [c] \<Rightarrow> F64_num (of_nat (byte c - 48)) | _ \<Rightarrow> F64_num 0),
      f64_of_int = (\<lambda>i. F64_num (of_int i)),
      f64_ratio = (\<lambda>a b. F64_num (of_nat a / of_nat b)),
      oob_digit = (\<lambda>_. False), trigram_n = 3\<rparr>"

lemma digit_env_literals: "literals_ok digit_env"
  by (auto simp: literals_ok_def f64_from_str8_def digit_env_def Let_def split: list.splits)

definition x_is :: "string8 \<Rightarrow> ir_node" where
  "x_is v = IR_Node IrOperator ''='' [IR_Node IrColumn ''x'' [], IR_Node IrNumeric v []]"

lemma ex_store_ready: "scan_ready digit_env sort_by (\<lambda>_. False) ex_store"
proof -
  have "flags_ok (store_table ex_store) (\<lambda>_. False)"
    by (auto simp: flags_ok_def ex_store_def)
  then show ?thesis
    using ex_store_ok digit_env_literals qsort_ok_sort_by index_usable_iff
    by (auto simp: scan_ready_def store_ok_def)
qed

lemma qe_try_index_scan_rows_witness:
  "qe_try_index_scan digit_env sort_by 16 (\<lambda>_. False) ex_store (Some (x_is ''5'')) = Some (ex_store, [0, 2]) \<and>
   mset [0, 2] = mset (qe_cpu_scan_filter digit_env (store_table ex_store) (Some (x_is ''5'')))"
proof
  show *: "qe_try_index_scan digit_env sort_by 16 (\<lambda>_. False) ex_store (Some (x_is ''5'')) = Some (ex_store, [0, 2])"
    by code_simp
  have "columns_named (store_table ex_store) (x_is ''5'')" by code_simp
  then show "mset [0, 2] = mset (qe_cpu_scan_filter digit_env (store_table ex_store) (Some (x_is ''5'')))"
    using qe_try_index_scan_rows [OF ex_store_ready _ *] by blast
qed

lemma qe_index_ordered_scan_rows_witness:
  "qe_index_ordered_scan digit_env sort_by (store_table ex_store) [] (store_indexes ex_store ! 0) (Some (x_is ''5'')) True 1 =
   take 1 (filter (\<lambda>i. eval_opt digit_env [(store_table ex_store, [])] [Some i] (Some (x_is ''5'')))
     (rev (index_order (store_indexes ex_store ! 0))))"
proof -
  have "index_ok (store_table ex_store) (store_indexes ex_store ! 0)"
    using ex_store_ok by (simp add: store_ok_def ex_store_def)
  from qe_index_ordered_scan_rows [OF this, of digit_env sort_by "[]" "Some (x_is ''5'')" True 1]
  show ?thesis by simp
qed

end
