(* ===== verification/Cql_Value.thy ===== *)
theory Cql_Value
  imports Qe_Index
begin

text \<open>
  Values as they are stored, at their width, and the two ways the program reads a number from a column:
  \<open>cql_numeric_value_as_f64\<close> on the CPU (\<open>src/src/cql/cql.c\<close>) and
  \<open>read_num_column_value\<close> in the scan shader
  (\<open>src/src/gpu/vulkan/shaders/scan_filter.comp\<close>), which assembles a 64-bit integer from its two
  words in double precision. \<open>round_f64\<close> is the IEEE 754 conversion of an integer to a double: to 53
  significant bits, to nearest, ties to even.
\<close>

section \<open>Stored values\<close>

datatype stored = V_int int | V_flt f64 | V_str string8

fun stored_typed :: "column_type \<Rightarrow> stored \<Rightarrow> bool" where
  "stored_typed ty (V_int i) \<longleftrightarrow>
     (if ty = ColU32 \<or> ty = ColEnum then 0 \<le> i \<and> i < 2 ^ 32
      else if ty = ColU64 then 0 \<le> i \<and> i < 2 ^ 64
      else if ty = ColBool then 0 \<le> i \<and> i < 2 ^ 8
      else if ty = ColI32 \<or> ty = ColDate then - (2 ^ 31) \<le> i \<and> i < 2 ^ 31
      else if ty = ColI64 \<or> ty = ColTimestamp \<or> ty = ColDecimal then - (2 ^ 63) \<le> i \<and> i < 2 ^ 63
      else False)"
| "stored_typed ty (V_flt x) \<longleftrightarrow> (ty = ColF32 \<or> ty = ColF64) \<and> x \<noteq> F64_nan"
| "stored_typed ty (V_str s) \<longleftrightarrow> ty = ColString8"

record native_table =
  nt_name :: string8
  nt_columns :: "cql_column list"
  nt_rows :: "stored option list list"

text \<open>A table as the query engine reads it: numbers are converted by \<open>cql_numeric_value_as_f64\<close>.\<close>

fun cql_numeric_value_as_f64 :: "num_env \<Rightarrow> stored \<Rightarrow> f64" where
  "cql_numeric_value_as_f64 env (V_int i) = f64_of_int env i"
| "cql_numeric_value_as_f64 env (V_flt x) = x"
| "cql_numeric_value_as_f64 env (V_str s) = F64_num 0"

fun as_cell :: "num_env \<Rightarrow> stored option \<Rightarrow> cell" where
  "as_cell env None = Cell_null"
| "as_cell env (Some (V_str s)) = Cell_str s"
| "as_cell env (Some v) = Cell_num (cql_numeric_value_as_f64 env v)"

definition as_table :: "num_env \<Rightarrow> native_table \<Rightarrow> cql_table" where
  "as_table env nt =
     \<lparr>table_name = nt_name nt, columns = nt_columns nt, table_rows = map (map (as_cell env)) (nt_rows nt)\<rparr>"

lemma as_table_simps [simp]:
  "table_name (as_table env nt) = nt_name nt"
  "columns (as_table env nt) = nt_columns nt"
  "table_rows (as_table env nt) = map (map (as_cell env)) (nt_rows nt)"
  by (simp_all add: as_table_def)

section \<open>Double precision\<close>

fun bit_length :: "nat \<Rightarrow> nat" where
  "bit_length n = (if n = 0 then 0 else Suc (bit_length (n div 2)))"

declare bit_length.simps [simp del]

definition round_nat :: "nat \<Rightarrow> nat" where
  "round_nat m =
     (let k = bit_length m - 53 in
      if k = 0 then m
      else let quo = m div 2 ^ k; rem = m mod 2 ^ k; half = 2 ^ (k - 1) in
        (if rem > half \<or> (rem = half \<and> odd quo) then quo + 1 else quo) * 2 ^ k)"

definition round_f64 :: "int \<Rightarrow> int" where
  "round_f64 i = (if i < 0 then - int (round_nat (nat (- i))) else int (round_nat (nat i)))"

definition f64_of :: "int \<Rightarrow> f64" where
  "f64_of i = F64_num (of_int (round_f64 i))"

text \<open>An environment whose integer conversion is that of the hardware.\<close>

definition ieee_env :: "num_env \<Rightarrow> bool" where
  "ieee_env env \<longleftrightarrow> f64_of_int env = f64_of"

lemma bit_length_bounds: "0 < m \<Longrightarrow> 2 ^ (bit_length m - 1) \<le> m \<and> m < 2 ^ bit_length m"
proof (induction m rule: bit_length.induct)
  case (1 m)
  show ?case
  proof (cases "m = 1")
    case True
    then show ?thesis by (subst (1 2) bit_length.simps) (simp add: bit_length.simps)
  next
    case False
    then have d: "0 < m div 2" using 1(2) by simp
    have b: "bit_length m = Suc (bit_length (m div 2))" using 1(2) by (subst bit_length.simps) simp
    have p: "0 < bit_length (m div 2)" using d by (subst bit_length.simps) simp
    have ih: "2 ^ (bit_length (m div 2) - 1) \<le> m div 2" "m div 2 < 2 ^ bit_length (m div 2)"
      using 1(1) [OF _ d] 1(2) by simp_all
    have "(2 :: nat) ^ bit_length (m div 2) = 2 * 2 ^ (bit_length (m div 2) - 1)"
      using p by (metis One_nat_def Suc_pred power_Suc)
    then have "2 ^ bit_length (m div 2) \<le> m" using ih(1) by linarith
    moreover have "m < 2 * 2 ^ bit_length (m div 2)" using ih(2) by linarith
    ultimately show ?thesis by (simp add: b)
  qed
qed

lemma bit_length_less: "m < 2 ^ n \<Longrightarrow> bit_length m \<le> n"
proof (cases "m = 0")
  case True
  then show ?thesis by (subst bit_length.simps) simp
next
  case False
  assume "m < 2 ^ n"
  then have "(2 :: nat) ^ (bit_length m - 1) < 2 ^ n" using bit_length_bounds [of m] False by linarith
  then show ?thesis by simp
qed

text \<open>Exact where no bit is lost.\<close>

lemma round_nat_exact: "2 ^ j dvd m \<Longrightarrow> m < 2 ^ (j + 53) \<Longrightarrow> round_nat m = m"
proof -
  assume d: "2 ^ j dvd m" and m: "m < 2 ^ (j + 53)"
  let ?k = "bit_length m - 53"
  have "?k \<le> j" using bit_length_less [OF m] by simp
  then have "2 ^ ?k dvd m" using d power_le_dvd by blast
  then show "round_nat m = m" by (auto simp: round_nat_def Let_def)
qed

lemma round_f64_small: "\<bar>i\<bar> < 2 ^ 53 \<Longrightarrow> round_f64 i = i"
  using round_nat_exact [of 0 "nat \<bar>i\<bar>"] by (auto simp: round_f64_def abs_if split: if_splits)

section \<open>The shader\<close>

text \<open>\<open>double(hi) * 4294967296.0 + double(lo)\<close>, each operation rounded.\<close>

definition gpu_u64 :: "nat \<Rightarrow> int" where
  "gpu_u64 w = round_f64 (round_f64 (int (w div 2 ^ 32) * 2 ^ 32) + int (w mod 2 ^ 32))"

definition gpu_s64 :: "int \<Rightarrow> int" where
  "gpu_s64 i =
     (let w = nat (i mod 2 ^ 64); unsigned_value = gpu_u64 w; is_negative = odd (w div 2 ^ 32 div 0x80000000)
      in if is_negative then round_f64 (unsigned_value - 2 ^ 64) else unsigned_value)"

fun read_num_column_value :: "column_type \<Rightarrow> stored \<Rightarrow> f64" where
  "read_num_column_value ty (V_int i) =
     (if ty = ColU32 \<or> ty = ColEnum \<or> ty = ColBool \<or> ty = ColI32 \<or> ty = ColDate then F64_num (of_int i)
      else if ty = ColU64 then F64_num (of_int (gpu_u64 (nat i)))
      else F64_num (of_int (gpu_s64 i)))"
| "read_num_column_value ty (V_flt x) = x"
| "read_num_column_value ty (V_str s) = F64_num 0"

lemma round_f64_high: "hi < 2 ^ 32 \<Longrightarrow> round_f64 (int hi * 2 ^ 32) = int hi * 2 ^ 32"
proof -
  assume hi: "hi < 2 ^ 32"
  have "hi * 2 ^ 32 < 2 ^ (32 + 53)" using hi by (simp add: power_add)
  then have "round_nat (hi * 2 ^ 32) = hi * 2 ^ 32" by (intro round_nat_exact [of 32]) simp_all
  then show ?thesis by (simp add: round_f64_def nat_mult_distrib nat_power_eq)
qed

lemma gpu_u64_round: "w < 2 ^ 64 \<Longrightarrow> gpu_u64 w = round_f64 (int w)"
proof -
  assume w: "w < 2 ^ 64"
  have "w div 2 ^ 32 < 2 ^ 32" using w by (intro less_mult_imp_div_less) simp
  then have "gpu_u64 w = round_f64 (int (w div 2 ^ 32) * 2 ^ 32 + int (w mod 2 ^ 32))"
    unfolding gpu_u64_def by (subst round_f64_high) simp_all
  also have "int (w div 2 ^ 32) * 2 ^ 32 + int (w mod 2 ^ 32) = int w"
    by (metis (no_types, lifting) div_mult_mod_eq of_nat_add of_nat_mult of_nat_numeral of_nat_power)
  finally show ?thesis .
qed

lemma gpu_s64_nonneg: "0 \<le> i \<Longrightarrow> i < 2 ^ 63 \<Longrightarrow> gpu_s64 i = round_f64 i"
proof -
  assume i: "0 \<le> i" "i < 2 ^ 63"
  then have "nat (i mod 2 ^ 64) = nat i" by simp
  moreover have "nat i < 2 ^ 63" using i by (simp add: nat_less_iff)
  then have "nat i div 2 ^ 32 div 0x80000000 = 0" by (simp add: div_mult2_eq [symmetric])
  ultimately show ?thesis
    using gpu_u64_round [of "nat i"] i \<open>nat i < 2 ^ 63\<close> by (simp add: gpu_s64_def Let_def)
qed

text \<open>Just below \<open>2 ^ 64\<close> doubles are 2048 apart: the sum of the two words of a small negative number
  is rounded to \<open>2 ^ 64\<close>.\<close>

lemma round_nat_top: "2 ^ 64 - 1024 \<le> m \<Longrightarrow> m < 2 ^ 64 \<Longrightarrow> round_nat m = 2 ^ 64"
proof -
  assume m: "2 ^ 64 - 1024 \<le> m" "m < 2 ^ 64"
  have "bit_length m \<le> 64" by (rule bit_length_less [OF m(2)])
  moreover have "\<not> bit_length m \<le> 63"
  proof
    assume "bit_length m \<le> 63"
    then have "(2 :: nat) ^ bit_length m \<le> 2 ^ 63" by (intro power_increasing) auto
    then show False using bit_length_bounds [of m] m(1) by simp
  qed
  ultimately have b: "bit_length m = 64" by simp
  have q: "m div 2048 = 2 ^ 53 - 1" using m by (intro div_nat_eqI) simp_all
  have "m = 2048 * (m div 2048) + m mod 2048" by simp
  then have r: "1024 \<le> m mod 2048" using m(1) unfolding q by simp
  show ?thesis using r by (auto simp: round_nat_def Let_def b q)
qed

lemma gpu_s64_small_negative: "- 1024 \<le> i \<Longrightarrow> i < 0 \<Longrightarrow> gpu_s64 i = 0"
proof -
  assume i: "- 1024 \<le> i" "i < 0"
  have "i mod 2 ^ 64 = i + 2 ^ 64" using i by (intro int_mod_pos_eq [where q = "- 1"]) simp_all
  then have w: "nat (i mod 2 ^ 64) = nat (i + 2 ^ 64)" by simp
  let ?w = "nat (i + 2 ^ 64)"
  have b: "2 ^ 64 - 1024 \<le> ?w" "?w < 2 ^ 64" using i by simp_all
  have "?w div 2 ^ 63 = 1" using b by (intro div_nat_eqI) simp_all
  then have neg: "odd (?w div 2 ^ 32 div 0x80000000)" by (simp add: div_mult2_eq [symmetric])
  have "gpu_u64 ?w = 2 ^ 64"
    unfolding gpu_u64_round [OF b(2)] round_f64_def using round_nat_top [OF b] i by simp
  then show "gpu_s64 i = 0"
    using neg unfolding gpu_s64_def w Let_def by (simp add: round_f64_def round_nat_def bit_length.simps)
qed

text \<open>C26: The scan shader reads a signed 64-bit integer through an unsigned sum of its words in double
  precision. For a number from 0 up that gives the conversion the CPU does, but every number from
  -1024 to -1 is read as 0 (the CPU reads the number itself): a GPU scan for the negative values of an
  I64, TIMESTAMP or DECIMAL column misses them, and one for 0 finds them.\<close>

theorem gpu_reads_small_negatives_as_zero:
  assumes "- 1024 \<le> i" "i < 2 ^ 63"
  shows "gpu_s64 i = (if i < 0 then 0 else round_f64 i) \<and> (0 \<le> i \<or> round_f64 i = i)"
  using assms gpu_s64_nonneg [of i] gpu_s64_small_negative [of i] round_f64_small [of i] by auto

lemma gpu_reads_small_negatives_as_zero_witness: "gpu_s64 (- 5) = 0 \<and> round_f64 (- 5) = - 5"
  using gpu_reads_small_negatives_as_zero [of "- 5"] by simp

end
