(* ===== verification/Qe_Bytecode.thy ===== *)
theory Qe_Bytecode
  imports Cql_Value
begin

text \<open>
  The compiler of conditions to the bytecode of the scan shader: \<open>src/src/query_exec/query_exec.c\<close>
  from \<open>qe_bytecode_emit\<close> to \<open>qe_bytecode_program_max_stack_depth\<close>.

  A program is built by state passing. Words are 32 bits; opcodes, slots, offsets and constant numbers are
  below their capacities, so they are natural numbers here. The numeric constants are kept as \<open>F64\<close>
  values (the code stores the two halves of their bits, the shader joins them). Every \<open>log_error\<close> of the
  compiler sets \<open>pr_logged\<close>: the code logs and goes on with a stand-in, which is what the model does.

  The capacities and limits the code takes from its settings are the record \<open>qe_caps\<close>; \<open>dicts c\<close> is the
  dictionary of string column \<open>c\<close> in code order, if the column has one
  (\<open>cql_column_ensure_string_dict\<close>).
\<close>

section \<open>Programs\<close>

datatype opcode =
  OpPushTrue | OpLoadNumCol | OpPushConst | OpCmpEq | OpCmpNe | OpCmpLt | OpCmpGt | OpCmpLe | OpCmpGe
| OpAnd | OpOr | OpStrEq | OpStrContains | OpHalt | OpPushFalse | OpTrigramSim | OpEditDistance
| OpStrNe | OpStrLt | OpStrGt | OpStrLe | OpStrGe

definition opcodes :: "opcode list" where
  "opcodes =
     [OpPushTrue, OpLoadNumCol, OpPushConst, OpCmpEq, OpCmpNe, OpCmpLt, OpCmpGt, OpCmpLe, OpCmpGe, OpAnd, OpOr,
      OpStrEq, OpStrContains, OpHalt, OpPushFalse, OpTrigramSim, OpEditDistance, OpStrNe, OpStrLt, OpStrGt,
      OpStrLe, OpStrGe]"

definition opcode_word :: "opcode \<Rightarrow> nat" where
  "opcode_word op = the (first_index (\<lambda>x. x = op) opcodes)"

definition column_type_word :: "column_type \<Rightarrow> nat" where
  "column_type_word ty =
     the (first_index (\<lambda>x. x = ty)
       [ColInvalid, ColU32, ColU64, ColF32, ColF64, ColString8, ColBool, ColI32, ColI64, ColDate, ColTimestamp,
        ColDecimal, ColEnum])"

record qe_binding =
  bind_name :: string8
  bind_column :: nat
  bind_type :: column_type
  bind_first_slot :: nat
  bind_slot_count :: nat
  bind_dict_codes :: bool

record qe_program =
  pr_words :: "nat list"
  pr_consts :: "f64 list"
  pr_pool :: string8
  pr_bindings :: "qe_binding list"
  pr_next_slot :: nat
  pr_score :: "bool option"
  pr_cpu_scan :: bool
  pr_logged :: bool

record qe_caps =
  words_cap :: nat
  consts_cap :: nat
  pool_cap :: nat
  in_list_max :: nat
  edit_needle_max :: nat
  trigram_needle_max :: nat

type_synonym dictionaries = "nat \<Rightarrow> string8 list option"

definition QE_MAX_COLUMN_BINDINGS :: nat where "QE_MAX_COLUMN_BINDINGS = 10"
definition QE_SCAN_MAX_STACK :: nat where "QE_SCAN_MAX_STACK = 8"

definition log_compile :: "qe_program \<Rightarrow> qe_program" where
  "log_compile p = p\<lparr>pr_logged := True\<rparr>"

definition qe_bytecode_emit :: "qe_caps \<Rightarrow> nat \<Rightarrow> qe_program \<Rightarrow> qe_program" where
  "qe_bytecode_emit caps w p =
     (if length (pr_words p) \<ge> words_cap caps then log_compile p else p\<lparr>pr_words := pr_words p @ [w]\<rparr>)"

definition emit_op :: "qe_caps \<Rightarrow> opcode \<Rightarrow> qe_program \<Rightarrow> qe_program" where
  "emit_op caps op = qe_bytecode_emit caps (opcode_word op)"

definition qe_add_numeric_const :: "qe_caps \<Rightarrow> f64 \<Rightarrow> qe_program \<Rightarrow> nat \<times> qe_program" where
  "qe_add_numeric_const caps v p =
     (if length (pr_consts p) \<ge> consts_cap caps then (0, log_compile p)
      else (length (pr_consts p), p\<lparr>pr_consts := pr_consts p @ [v]\<rparr>))"

text \<open>The word offset and the length of the copy in the pool; every constant starts on a word.\<close>

definition align4 :: "nat \<Rightarrow> nat" where
  "align4 n = (n + 3) div 4 * 4"

definition qe_add_string_const :: "qe_caps \<Rightarrow> string8 \<Rightarrow> qe_program \<Rightarrow> (nat \<times> nat) \<times> qe_program" where
  "qe_add_string_const caps s p =
     (let aligned_offset = align4 (length (pr_pool p)) in
      if aligned_offset + length s > pool_cap caps then ((0, 0), log_compile p)
      else ((aligned_offset div 4, length s),
            p\<lparr>pr_pool := pr_pool p @ replicate (aligned_offset - length (pr_pool p)) (CHR 0x00) @ s\<rparr>))"

definition qe_find_binding :: "qe_program \<Rightarrow> string8 \<Rightarrow> qe_binding option" where
  "qe_find_binding p name =
     map_option ((!) (pr_bindings p)) (first_index (\<lambda>b. str8_match (bind_name b) name match_exact) (pr_bindings p))"

definition add_binding :: "qe_binding \<Rightarrow> qe_program \<Rightarrow> qe_binding option \<times> qe_program" where
  "add_binding b p =
     (Some b, p\<lparr>pr_bindings := pr_bindings p @ [b], pr_next_slot := pr_next_slot p + bind_slot_count b\<rparr>)"

definition qe_bind_column :: "cql_table \<Rightarrow> string8 \<Rightarrow> qe_program \<Rightarrow> qe_binding option \<times> qe_program" where
  "qe_bind_column t name p =
     (case qe_find_binding p name of
        Some b \<Rightarrow> (Some b, p)
      | None \<Rightarrow>
          if length (pr_bindings p) \<ge> QE_MAX_COLUMN_BINDINGS then (None, log_compile p)
          else
            (case cql_table_find_column t name of
               None \<Rightarrow> (None, log_compile p)
             | Some c \<Rightarrow>
                 let ty = column_ty (columns t ! c); slot_count = (if ty = ColString8 then 2 else 1) in
                 if pr_next_slot p + slot_count > QE_MAX_COLUMN_BINDINGS then (None, log_compile p)
                 else add_binding \<lparr>bind_name = name, bind_column = c, bind_type = ty,
                        bind_first_slot = pr_next_slot p, bind_slot_count = slot_count, bind_dict_codes = False\<rparr> p))"

definition qe_bind_column_dict_codes ::
  "cql_table \<Rightarrow> dictionaries \<Rightarrow> string8 \<Rightarrow> qe_program \<Rightarrow> qe_binding option \<times> qe_program" where
  "qe_bind_column_dict_codes t dicts name p =
     (let synthetic_name = name @ ''$dict'' in
      case qe_find_binding p synthetic_name of
        Some b \<Rightarrow> (Some b, p)
      | None \<Rightarrow>
          if length (pr_bindings p) \<ge> QE_MAX_COLUMN_BINDINGS then (None, log_compile p)
          else
            (case cql_table_find_column t name of
               None \<Rightarrow> (None, log_compile p)
             | Some c \<Rightarrow>
                 if dicts c = None then (None, log_compile p)
                 else if pr_next_slot p + 1 > QE_MAX_COLUMN_BINDINGS then (None, log_compile p)
                 else add_binding \<lparr>bind_name = synthetic_name, bind_column = c, bind_type = ColU32,
                        bind_first_slot = pr_next_slot p, bind_slot_count = 1, bind_dict_codes = True\<rparr> p))"

section \<open>Conditions\<close>

definition qe_opcode_from_comparison_operator :: "string8 \<Rightarrow> qe_program \<Rightarrow> opcode \<times> qe_program" where
  "qe_opcode_from_comparison_operator op p =
     (if str8_match op ''='' match_exact \<or> str8_match op ''=='' match_exact \<or> str8_match op ''equals'' match_ci
      then (OpCmpEq, p)
      else if str8_match op ''!='' match_exact then (OpCmpNe, p)
      else if str8_match op ''<='' match_exact then (OpCmpLe, p)
      else if str8_match op ''>='' match_exact then (OpCmpGe, p)
      else if str8_match op ''<'' match_exact then (OpCmpLt, p)
      else if str8_match op ''>'' match_exact then (OpCmpGt, p)
      else (OpCmpEq, log_compile p))"

definition emit_comparison :: "qe_caps \<Rightarrow> string8 \<Rightarrow> qe_program \<Rightarrow> qe_program" where
  "emit_comparison caps op p =
     (let (code, p) = qe_opcode_from_comparison_operator op p in emit_op caps code p)"

definition emit_const :: "qe_caps \<Rightarrow> f64 \<Rightarrow> qe_program \<Rightarrow> qe_program" where
  "emit_const caps v p =
     (let p = emit_op caps OpPushConst p; (k, p) = qe_add_numeric_const caps v p in qe_bytecode_emit caps k p)"

definition emit_load :: "qe_caps \<Rightarrow> qe_binding \<Rightarrow> qe_program \<Rightarrow> qe_program" where
  "emit_load caps b p =
     qe_bytecode_emit caps (column_type_word (bind_type b) * 256 + bind_first_slot b mod 256) (emit_op caps OpLoadNumCol p)"

definition emit_string_op :: "qe_caps \<Rightarrow> opcode \<Rightarrow> nat \<Rightarrow> nat \<times> nat \<Rightarrow> qe_program \<Rightarrow> qe_program" where
  "emit_string_op caps op slot ref p =
     qe_bytecode_emit caps (snd ref) (qe_bytecode_emit caps (fst ref) (qe_bytecode_emit caps slot (emit_op caps op p)))"

definition qe_compile_load_value :: "num_env \<Rightarrow> qe_caps \<Rightarrow> cql_table \<Rightarrow> ir_node \<Rightarrow> qe_program \<Rightarrow> qe_program" where
  "qe_compile_load_value env caps t node p =
     (if ir_type node = IrColumn then
        (case qe_bind_column t (ir_value node) p of
           (None, p) \<Rightarrow> emit_const caps (F64_num 0) p
         | (Some b, p) \<Rightarrow> emit_load caps b p)
      else emit_const caps (f64_from_str8 env (ir_value node)) p)"

text \<open>\<open>column op 'literal'\<close> for a column with a binding: a string comparison, through the dictionary
  when there is one and the comparison is for equality. \<open>before\<close> is the program before the binding.\<close>

definition string_opcode :: "string8 \<Rightarrow> opcode option" where
  "string_opcode op =
     (if str8_match op ''contains'' match_ci then Some OpStrContains
      else if str8_match op ''='' match_exact \<or> str8_match op ''=='' match_exact then Some OpStrEq
      else if str8_match op ''!='' match_exact then Some OpStrNe
      else if str8_match op ''<'' match_exact then Some OpStrLt
      else if str8_match op ''>'' match_exact then Some OpStrGt
      else if str8_match op ''<='' match_exact then Some OpStrLe
      else if str8_match op ''>='' match_exact then Some OpStrGe
      else None)"

definition compile_string_raw :: "qe_caps \<Rightarrow> opcode \<Rightarrow> qe_binding \<Rightarrow> string8 \<Rightarrow> qe_program \<Rightarrow> qe_program" where
  "compile_string_raw caps op b literal p =
     (let (ref, p) = qe_add_string_const caps literal p in emit_string_op caps op (bind_first_slot b) ref p)"

definition undo_binding :: "qe_program \<Rightarrow> qe_program \<Rightarrow> qe_program" where
  "undo_binding before p =
     (if length (pr_bindings p) > length (pr_bindings before)
      then p\<lparr>pr_bindings := take (length (pr_bindings before)) (pr_bindings p), pr_next_slot := pr_next_slot before\<rparr>
      else p)"

definition compile_string_comparison ::
  "num_env \<Rightarrow> qe_caps \<Rightarrow> dictionaries \<Rightarrow> cql_table \<Rightarrow> string8 \<Rightarrow> ir_node \<Rightarrow> string8 \<Rightarrow> qe_binding \<Rightarrow> qe_program \<Rightarrow>
   qe_program \<Rightarrow> qe_program" where
  "compile_string_comparison env caps dicts t op left literal b before p =
     (case string_opcode op of
        None \<Rightarrow> emit_op caps OpPushTrue (log_compile p)
      | Some code \<Rightarrow>
          if code = OpStrEq \<or> code = OpStrNe then
            (case dicts (bind_column b) of
               None \<Rightarrow> compile_string_raw caps code b literal p
             | Some dict \<Rightarrow>
                 let p = undo_binding before p in
                 case first_index (\<lambda>s. str8_match s literal match_exact) dict of
                   None \<Rightarrow> emit_op caps (if code = OpStrNe then OpPushTrue else OpPushFalse) p
                 | Some k \<Rightarrow>
                     (case qe_bind_column_dict_codes t dicts (ir_value left) p of
                        (Some db, p) \<Rightarrow>
                          emit_op caps (if code = OpStrNe then OpCmpNe else OpCmpEq)
                            (emit_const caps (f64_of_int env (int k)) (emit_load caps db p))
                      | (None, p) \<Rightarrow>
                          (case qe_bind_column t (ir_value left) p of
                             (None, p) \<Rightarrow> emit_op caps OpPushTrue p
                           | (Some b, p) \<Rightarrow> compile_string_raw caps code b literal p)))
          else compile_string_raw caps code b literal p)"

text \<open>A literal that cannot be read for its column compiles to true; the readers have logged it (that of an
  enum column is silent if the column has lost its type, here it counts as logged too).\<close>

definition compile_resolved :: "qe_caps \<Rightarrow> string8 \<Rightarrow> qe_binding \<Rightarrow> f64 option \<Rightarrow> qe_program \<Rightarrow> qe_program" where
  "compile_resolved caps op b v p =
     (case v of
        None \<Rightarrow> emit_op caps OpPushTrue (log_compile p)
      | Some v \<Rightarrow> emit_comparison caps op (emit_const caps v (emit_load caps b p)))"

definition compile_generic :: "num_env \<Rightarrow> qe_caps \<Rightarrow> cql_table \<Rightarrow> string8 \<Rightarrow> ir_node \<Rightarrow> ir_node \<Rightarrow> qe_program \<Rightarrow> qe_program" where
  "compile_generic env caps t op left right p =
     emit_comparison caps op (qe_compile_load_value env caps t right (qe_compile_load_value env caps t left p))"

definition compile_decimal :: "num_env \<Rightarrow> qe_caps \<Rightarrow> cql_table \<Rightarrow> string8 \<Rightarrow> ir_node \<Rightarrow> ir_node \<Rightarrow> qe_program \<Rightarrow> qe_program" where
  "compile_decimal env caps t op left right p =
     (if ir_type left = IrColumn \<and> ir_type right = IrNumeric then
        (case qe_bind_column t (ir_value left) p of
           (Some b, p) \<Rightarrow>
             if bind_type b = ColDecimal then
               compile_resolved caps op b
                 (qe_resolve_decimal_literal_value env (columns t ! bind_column b) (ir_value right)) p
             else compile_generic env caps t op left right p
         | (None, p) \<Rightarrow> compile_generic env caps t op left right p)
      else compile_generic env caps t op left right p)"

definition compile_comparison ::
  "num_env \<Rightarrow> qe_caps \<Rightarrow> dictionaries \<Rightarrow> cql_table \<Rightarrow> string8 \<Rightarrow> ir_node \<Rightarrow> ir_node \<Rightarrow> qe_program \<Rightarrow> qe_program" where
  "compile_comparison env caps dicts t op left right p =
     (if ir_type left = IrColumn \<and> ir_type right = IrLiteral then
        (case qe_bind_column t (ir_value left) p of
           (Some b, p') \<Rightarrow>
             if bind_type b = ColString8 then compile_string_comparison env caps dicts t op left (ir_value right) b p p'
             else if bind_type b = ColDate \<or> bind_type b = ColTimestamp then
               compile_resolved caps op b (qe_resolve_date_literal_value env (bind_type b) (ir_value right)) p'
             else if bind_type b = ColEnum then
               compile_resolved caps op b (qe_resolve_enum_literal_value env (columns t ! bind_column b) (ir_value right)) p'
             else compile_decimal env caps t op left right p'
         | (None, p') \<Rightarrow> compile_decimal env caps t op left right p')
      else compile_decimal env caps t op left right p)"

text \<open>The items of a value list, each compared with a fresh copy of the column.\<close>

fun compile_items ::
  "num_env \<Rightarrow> qe_caps \<Rightarrow> dictionaries \<Rightarrow> cql_table \<Rightarrow> bool \<Rightarrow> ir_node \<Rightarrow> bool \<Rightarrow> ir_node list \<Rightarrow> qe_program \<Rightarrow> qe_program" where
  "compile_items env caps dicts t is_not left first [] p = p"
| "compile_items env caps dicts t is_not left first (item # items) p =
     (let lhs = IR_Node (ir_type left) (ir_value left) []; rhs = IR_Node (ir_type item) (ir_value item) [];
          p = compile_comparison env caps dicts t (if is_not then ''!='' else ''='') lhs rhs p;
          p = (if first then p else emit_op caps (if is_not then OpAnd else OpOr) p)
      in compile_items env caps dicts t is_not left False items p)"

definition compile_in ::
  "num_env \<Rightarrow> qe_caps \<Rightarrow> dictionaries \<Rightarrow> cql_table \<Rightarrow> bool \<Rightarrow> ir_node list \<Rightarrow> qe_program \<Rightarrow> qe_program" where
  "compile_in env caps dicts t is_not args p =
     (case args of
        left # right # _ \<Rightarrow>
          if ir_type right \<noteq> IrInList then emit_op caps OpPushFalse (log_compile p)
          else if ir_children right = [] then emit_op caps (if is_not then OpPushTrue else OpPushFalse) p
          else if ir_type left \<noteq> IrColumn \<or> length (ir_children right) > in_list_max caps then
            emit_op caps OpPushTrue (p\<lparr>pr_cpu_scan := True\<rparr>)
          else compile_items env caps dicts t is_not left True (ir_children right) p
      | _ \<Rightarrow> emit_op caps OpPushFalse (log_compile p))"

definition compile_fuzzy ::
  "num_env \<Rightarrow> qe_caps \<Rightarrow> cql_table \<Rightarrow> string8 \<Rightarrow> bool \<Rightarrow> ir_node \<Rightarrow> ir_node option \<Rightarrow> qe_program \<Rightarrow> qe_program" where
  "compile_fuzzy env caps t op is_distance call right p =
     (let col_arg = (case ir_children call of [] \<Rightarrow> None | c # _ \<Rightarrow> Some c);
          needle_arg = (case ir_children call of _ # n # _ \<Rightarrow> Some n | _ \<Rightarrow> None);
          (binding, p) = (case col_arg of
              Some c \<Rightarrow> if ir_type c = IrColumn then qe_bind_column t (ir_value c) p else (None, p)
            | None \<Rightarrow> (None, p)) in
      case (right, needle_arg, binding) of
        (Some right, Some n, Some b) \<Rightarrow>
          if bind_type b \<noteq> ColString8 then emit_op caps OpPushTrue (log_compile p)
          else
            let max_needle = (if is_distance then edit_needle_max caps else trigram_needle_max caps);
                too_long = length (ir_value n) > max_needle;
                p = (if too_long then log_compile p else p);
                needle = (if too_long then str8_prefix (ir_value n) max_needle else ir_value n);
                (ref, p) = qe_add_string_const caps needle p;
                p = emit_string_op caps (if is_distance then OpEditDistance else OpTrigramSim) (bind_first_slot b) ref p;
                p = p\<lparr>pr_score := Some is_distance\<rparr>
            in emit_comparison caps op (qe_compile_load_value env caps t right p)
      | _ \<Rightarrow> emit_op caps OpPushTrue (log_compile p))"

text \<open>Everything but \<open>and\<close> and \<open>or\<close>.\<close>

definition compile_leaf ::
  "num_env \<Rightarrow> qe_caps \<Rightarrow> dictionaries \<Rightarrow> cql_table \<Rightarrow> string8 \<Rightarrow> ir_node list \<Rightarrow> qe_program \<Rightarrow> qe_program" where
  "compile_leaf env caps dicts t op args p =
     (if is_op op ''is null'' \<or> is_op op ''is not null'' then
        (if is_op op ''is not null'' then emit_op caps OpPushTrue p else emit_const caps (F64_num 0) p)
      else if is_op op ''in'' \<or> is_op op ''not in'' then compile_in env caps dicts t (is_op op ''not in'') args p
      else
        case args of
          [] \<Rightarrow> emit_op caps OpPushTrue (log_compile p)
        | left # rest \<Rightarrow>
            (case qe_ir_is_fuzzy_call left of
               Some is_distance \<Rightarrow>
                 compile_fuzzy env caps t op is_distance left (case rest of [] \<Rightarrow> None | r # _ \<Rightarrow> Some r) p
             | None \<Rightarrow>
                 (case rest of
                    [] \<Rightarrow> emit_op caps OpPushTrue (log_compile p)
                  | right # _ \<Rightarrow> compile_comparison env caps dicts t op left right p)))"

text \<open>A missing operand of \<open>and\<close> or \<open>or\<close> compiles to nothing.\<close>

fun qe_compile_condition ::
  "num_env \<Rightarrow> qe_caps \<Rightarrow> dictionaries \<Rightarrow> cql_table \<Rightarrow> ir_node \<Rightarrow> qe_program \<Rightarrow> qe_program" where
  "qe_compile_condition env caps dicts t (IR_Node ty op args) p =
     (if ty \<noteq> IrOperator then qe_compile_load_value env caps t (IR_Node ty op args) p
      else if is_op op ''and'' \<or> is_op op ''or'' then
        (let code = (if is_op op ''and'' then OpAnd else OpOr) in
         case args of
           [] \<Rightarrow> emit_op caps code p
         | [l] \<Rightarrow> emit_op caps code (qe_compile_condition env caps dicts t l p)
         | l # r # _ \<Rightarrow>
             emit_op caps code (qe_compile_condition env caps dicts t r (qe_compile_condition env caps dicts t l p)))
      else compile_leaf env caps dicts t op args p)"

definition empty_program :: qe_program where
  "empty_program =
     \<lparr>pr_words = [], pr_consts = [], pr_pool = [], pr_bindings = [], pr_next_slot = 0, pr_score = None,
      pr_cpu_scan = False, pr_logged = False\<rparr>"

definition qe_bytecode_program_build ::
  "num_env \<Rightarrow> qe_caps \<Rightarrow> dictionaries \<Rightarrow> cql_table \<Rightarrow> ir_node option \<Rightarrow> qe_program" where
  "qe_bytecode_program_build env caps dicts t condition =
     emit_op caps OpHalt
       (case condition of
          Some c \<Rightarrow> qe_compile_condition env caps dicts t c empty_program
        | None \<Rightarrow> emit_op caps OpPushTrue empty_program)"

section \<open>The operand stack\<close>

text \<open>What each instruction does to the depth, and how many operand words follow it.\<close>

definition operand_words :: "nat \<Rightarrow> nat" where
  "operand_words w =
     (if w \<in> set (map opcode_word [OpLoadNumCol, OpPushConst]) then 1
      else if w \<in> set (map opcode_word [OpStrEq, OpStrContains, OpTrigramSim, OpEditDistance, OpStrNe, OpStrLt, OpStrGt, OpStrLe, OpStrGe]) then 3
      else 0)"

definition depth_change :: "nat \<Rightarrow> int" where
  "depth_change w =
     (if w \<in> set (map opcode_word [OpCmpEq, OpCmpNe, OpCmpLt, OpCmpGt, OpCmpLe, OpCmpGe, OpAnd, OpOr]) then - 1 else 1)"

text \<open>The walk over the words; \<open>depth\<close> is a \<open>U32\<close>.\<close>

function stack_depth_from :: "nat list \<Rightarrow> int \<Rightarrow> int \<Rightarrow> int" where
  "stack_depth_from [] depth max_depth = max_depth"
| "stack_depth_from (w # ws) depth max_depth =
     (if w = opcode_word OpHalt \<or> w \<ge> length opcodes then max max_depth depth
      else let depth = (depth + depth_change w) mod 2 ^ 32
           in stack_depth_from (drop (operand_words w) ws) depth (max max_depth depth))"
  by pat_completeness auto
termination by (relation "measure (\<lambda>(ws, _, _). length ws)") auto

definition qe_bytecode_program_max_stack_depth :: "qe_program \<Rightarrow> int" where
  "qe_bytecode_program_max_stack_depth p = stack_depth_from (pr_words p) 0 0"

end
