(* ===== verification/Qe_Vm.thy ===== *)
theory Qe_Vm
  imports Qe_Bytecode
begin

text \<open>
  The interpreter of the scan shader (\<open>src/src/gpu/vulkan/shaders/scan_filter.comp\<close>): the bytecode of
  \<open>Qe_Bytecode\<close> run on one row, on a stack of eight doubles.

  There are no jumps, so the instruction pointer is the list of words still to run and the step limit
  of the shader is never reached. \<open>None\<close> is what the shading language leaves undefined: a push on a
  full stack, a pop from an empty one, a read outside of a buffer, and a read of a buffer as something
  it is not.
\<close>

section \<open>Strings on the GPU\<close>

definition MAX_SANE_STRING_LEN :: nat where "MAX_SANE_STRING_LEN = 1048576"
definition QE_FUZZY_MAX_NEEDLE_LEN :: nat where "QE_FUZZY_MAX_NEEDLE_LEN = 64"

definition str_contains :: "string8 \<Rightarrow> string8 \<Rightarrow> bool" where
  "str_contains s needle =
     (if needle = [] then True
      else if length s > MAX_SANE_STRING_LEN then False
      else if length needle > length s then False
      else list_ex (\<lambda>window. take (length needle) (drop window s) = needle) [0..<length s - length needle + 1])"

text \<open>The 64 first trigrams of the needle count; \<open>double(shared) / double(union)\<close>.\<close>

definition trigram_similarity :: "num_env \<Rightarrow> string8 \<Rightarrow> string8 \<Rightarrow> nat \<Rightarrow> f64" where
  "trigram_similarity env s needle n =
     (if length s < n \<or> length needle < n then (if s = needle then F64_num 1 else F64_num 0)
      else if length s > MAX_SANE_STRING_LEN then F64_num 0
      else
        let g = take QE_FUZZY_MAX_NEEDLE_LEN (grams n needle); h = grams n s; shared = shared_grams h g;
            union_size = length h + length g - shared
        in if union_size = 0 then F64_num 0 else f64_ratio env shared union_size)"

definition edit_distance :: "string8 \<Rightarrow> string8 \<Rightarrow> nat" where
  "edit_distance s needle =
     (if length s > MAX_SANE_STRING_LEN then MAX_SANE_STRING_LEN
      else qe_str8_edit_distance s (take QE_FUZZY_MAX_NEEDLE_LEN needle))"

section \<open>One row\<close>

record vm =
  vm_program :: qe_program
  vm_table :: native_table
  vm_dicts :: dictionaries
  vm_env :: num_env
  vm_row :: nat

definition slot_binding :: "qe_program \<Rightarrow> nat \<Rightarrow> qe_binding option" where
  "slot_binding p slot =
     map_option ((!) (pr_bindings p)) (first_index (\<lambda>b. bind_first_slot b = slot) (pr_bindings p))"

definition vm_stored :: "vm \<Rightarrow> nat \<Rightarrow> stored option" where
  "vm_stored m c = nt_rows (vm_table m) ! vm_row m ! c"

text \<open>A null is stored as zero or as the empty string. The code of a string in a dictionary is its
  place there.\<close>

definition vm_string_cell :: "vm \<Rightarrow> nat \<Rightarrow> string8" where
  "vm_string_cell m c = (case vm_stored m c of Some (V_str s) \<Rightarrow> s | _ \<Rightarrow> [])"

definition vm_number :: "vm \<Rightarrow> nat \<Rightarrow> nat \<Rightarrow> f64 option" where
  "vm_number m slot coltype =
     (case slot_binding (vm_program m) slot of
        None \<Rightarrow> None
      | Some b \<Rightarrow>
          if coltype \<noteq> column_type_word (bind_type b) \<or> bind_type b = ColString8 then None
          else if bind_dict_codes b then
            (case vm_dicts m (bind_column b) of
               None \<Rightarrow> None
             | Some d \<Rightarrow> map_option (\<lambda>k. F64_num (of_nat k)) (first_index (\<lambda>s. s = vm_string_cell m (bind_column b)) d))
          else
            (case vm_stored m (bind_column b) of
               None \<Rightarrow> Some (F64_num 0)
             | Some v \<Rightarrow> Some (read_num_column_value (bind_type b) v)))"

definition vm_string :: "vm \<Rightarrow> nat \<Rightarrow> string8 option" where
  "vm_string m slot =
     (case slot_binding (vm_program m) slot of
        None \<Rightarrow> None
      | Some b \<Rightarrow> if bind_type b \<noteq> ColString8 then None else Some (vm_string_cell m (bind_column b)))"

definition vm_pool :: "vm \<Rightarrow> nat \<Rightarrow> nat \<Rightarrow> string8 option" where
  "vm_pool m word_offset len =
     (let pool = pr_pool (vm_program m) in
      if word_offset * 4 + len \<le> length pool then Some (take len (drop (word_offset * 4) pool)) else None)"

definition f64_bool :: "bool \<Rightarrow> f64" where
  "f64_bool b = (if b then F64_num 1 else F64_num 0)"

definition f64_true :: "f64 \<Rightarrow> bool" where
  "f64_true v \<longleftrightarrow> \<not> f64_eq v (F64_num 0)"

definition vm_push :: "nat \<Rightarrow> f64 \<Rightarrow> f64 list \<Rightarrow> f64 list option" where
  "vm_push max_stack v stk = (if length stk < max_stack then Some (v # stk) else None)"

fun vm_binary :: "opcode \<Rightarrow> f64 \<Rightarrow> f64 \<Rightarrow> f64" where
  "vm_binary OpCmpEq a b = f64_bool (f64_eq a b)"
| "vm_binary OpCmpNe a b = f64_bool (\<not> f64_eq a b)"
| "vm_binary OpCmpLt a b = f64_bool (f64_lt a b)"
| "vm_binary OpCmpGt a b = f64_bool (f64_lt b a)"
| "vm_binary OpCmpLe a b = f64_bool (f64_le a b)"
| "vm_binary OpCmpGe a b = f64_bool (f64_le b a)"
| "vm_binary OpAnd a b = f64_bool (f64_true a \<and> f64_true b)"
| "vm_binary OpOr a b = f64_bool (f64_true a \<or> f64_true b)"
| "vm_binary _ a b = F64_num 0"

fun vm_on_string :: "num_env \<Rightarrow> opcode \<Rightarrow> string8 \<Rightarrow> string8 \<Rightarrow> f64" where
  "vm_on_string env OpStrEq s c = f64_bool (s = c)"
| "vm_on_string env OpStrNe s c = f64_bool (s \<noteq> c)"
| "vm_on_string env OpStrLt s c = f64_bool (qe_str8_compare s c < 0)"
| "vm_on_string env OpStrGt s c = f64_bool (qe_str8_compare s c > 0)"
| "vm_on_string env OpStrLe s c = f64_bool (qe_str8_compare s c \<le> 0)"
| "vm_on_string env OpStrGe s c = f64_bool (qe_str8_compare s c \<ge> 0)"
| "vm_on_string env OpStrContains s c = f64_bool (str_contains s c)"
| "vm_on_string env OpTrigramSim s c = trigram_similarity env s c (max (trigram_n env) 1)"
| "vm_on_string env OpEditDistance s c = F64_num (of_nat (edit_distance s c))"
| "vm_on_string env _ s c = F64_num 0"

definition vm_step :: "vm \<Rightarrow> nat \<Rightarrow> opcode \<Rightarrow> nat list \<Rightarrow> f64 list \<Rightarrow> f64 list option" where
  "vm_step m max_stack op args stk =
     (case args of
        [] \<Rightarrow>
          if op = OpPushTrue then vm_push max_stack (F64_num 1) stk
          else if op = OpPushFalse then vm_push max_stack (F64_num 0) stk
          else (case stk of b # a # stk \<Rightarrow> vm_push max_stack (vm_binary op a b) stk | _ \<Rightarrow> None)
      | [operand] \<Rightarrow>
          if op = OpLoadNumCol then
            Option.bind (vm_number m (operand mod 256) (operand div 256 mod 256)) (\<lambda>v. vm_push max_stack v stk)
          else if operand < length (pr_consts (vm_program m))
            then vm_push max_stack (pr_consts (vm_program m) ! operand) stk else None
      | slot # word_offset # len # _ \<Rightarrow>
          Option.bind (vm_string m slot) (\<lambda>s.
          Option.bind (vm_pool m word_offset len) (\<lambda>c. vm_push max_stack (vm_on_string (vm_env m) op s c) stk))
      | _ \<Rightarrow> None)"

text \<open>A word that is no opcode stops the program like \<open>OP_HALT\<close>.\<close>

function vm_run :: "vm \<Rightarrow> nat \<Rightarrow> nat list \<Rightarrow> f64 list \<Rightarrow> f64 list option" where
  "vm_run m max_stack [] stk = Some stk"
| "vm_run m max_stack (w # ws) stk =
     (if w = opcode_word OpHalt \<or> w \<ge> length opcodes then Some stk
      else if length ws < operand_words w then None
      else
        Option.bind (vm_step m max_stack (opcodes ! w) (take (operand_words w) ws) stk)
          (vm_run m max_stack (drop (operand_words w) ws)))"
  by pat_completeness auto
termination by (relation "measure (\<lambda>(_, _, ws, _). length ws)") auto

text \<open>A row matches if the stack is not empty and its top is not zero.\<close>

definition scan_filter_row :: "vm \<Rightarrow> bool option" where
  "scan_filter_row m =
     map_option (\<lambda>stk. case stk of [] \<Rightarrow> False | v # _ \<Rightarrow> f64_true v)
       (vm_run m QE_SCAN_MAX_STACK (pr_words (vm_program m)) [])"

section \<open>Stack depth\<close>

lemma vm_step_length:
  assumes "vm_step m k op args stk = Some stk'" "args = take (operand_words w) ws" "op = opcodes ! w" "w < length opcodes"
    "w \<noteq> opcode_word OpHalt" "operand_words w \<le> length ws"
  shows "int (length stk') = int (length stk) + depth_change w \<and> length stk' \<le> k"
proof -
  have all: "\<forall>w \<in> set [0..<length opcodes]. w \<noteq> opcode_word OpHalt \<longrightarrow>
      (operand_words w = 0 \<and> (opcodes ! w = OpPushTrue \<or> opcodes ! w = OpPushFalse) \<and> depth_change w = 1) \<or>
      (operand_words w = 0 \<and> opcodes ! w \<noteq> OpPushTrue \<and> opcodes ! w \<noteq> OpPushFalse \<and> depth_change w = - 1) \<or>
      ((operand_words w = 1 \<or> operand_words w = 3) \<and> depth_change w = 1)"
    by code_simp
  have args: "length args = operand_words w" using assms(2,6) by simp
  from all assms(4,5) consider
      "operand_words w = 0" "op = OpPushTrue \<or> op = OpPushFalse" "depth_change w = 1"
    | "operand_words w = 0" "op \<noteq> OpPushTrue" "op \<noteq> OpPushFalse" "depth_change w = - 1"
    | "operand_words w = 1" "depth_change w = 1" | "operand_words w = 3" "depth_change w = 1"
    by (auto simp: assms(3))
  then show ?thesis
  proof cases
    case 1
    then show ?thesis using assms(1) args by (auto simp: vm_step_def vm_push_def split: if_splits)
  next
    case 2
    then show ?thesis using assms(1) args
      by (auto simp: vm_step_def vm_push_def split: if_splits list.splits)
  next
    case 3
    then obtain x where "args = [x]" using args by (cases args; cases "tl args"; simp)
    then show ?thesis using assms(1) 3
      by (auto simp: vm_step_def vm_push_def bind_eq_Some_conv split: if_splits)
  next
    case 4
    then obtain x y z where "args = [x, y, z]"
      using args by (cases args; cases "tl args"; cases "tl (tl args)"; simp)
    then show ?thesis using assms(1) 4
      by (auto simp: vm_step_def vm_push_def bind_eq_Some_conv split: if_splits)
  qed
qed

lemma vm_step_limit:
  assumes "vm_step m k op args stk = Some stk'" "length stk' \<le> k'"
  shows "vm_step m k' op args stk = Some stk'"
  using assms unfolding vm_step_def vm_push_def
  by (auto simp: bind_eq_Some_conv split: list.splits if_splits)

lemma stack_depth_from_ge: "max_depth \<le> stack_depth_from ws depth max_depth"
proof (induction ws depth max_depth rule: stack_depth_from.induct)
  case (2 w ws depth max_depth)
  show ?case
  proof (cases "w = opcode_word OpHalt \<or> w \<ge> length opcodes")
    case False
    then have "max max_depth ((depth + depth_change w) mod 2 ^ 32) \<le> stack_depth_from (w # ws) depth max_depth"
      using 2 [OF False refl] by (simp add: Let_def)
    then show ?thesis by linarith
  qed simp
qed simp

text \<open>A program whose depth is within the limit runs as if there were no limit.\<close>

lemma vm_run_depth:
  assumes "vm_run m big ws stk = Some r" "stack_depth_from ws (int (length stk)) max_depth \<le> int k" "big < 2 ^ 32"
  shows "vm_run m k ws stk = Some r"
  using assms
proof (induction m big ws stk arbitrary: max_depth rule: vm_run.induct)
  case (2 m big w ws stk)
  show ?case
  proof (cases "w = opcode_word OpHalt \<or> w \<ge> length opcodes")
    case False
    then have w: "w \<noteq> opcode_word OpHalt" "w < length opcodes" by simp_all
    have len: "\<not> length ws < operand_words w" using 2(2) w by (simp split: if_splits)
    obtain stk' where step: "vm_step m big (opcodes ! w) (take (operand_words w) ws) stk = Some stk'"
      and run: "vm_run m big (drop (operand_words w) ws) stk' = Some r"
      using 2(2) w len by (auto simp: bind_eq_Some_conv split: if_splits)
    have l: "int (length stk') = int (length stk) + depth_change w" "length stk' \<le> big"
      using vm_step_length [OF step refl refl w(2,1)] len by simp_all
    have d: "(int (length stk) + depth_change w) mod 2 ^ 32 = int (length stk')"
      using l 2(4) by simp
    have depth: "stack_depth_from (drop (operand_words w) ws) (int (length stk')) (max max_depth (int (length stk'))) \<le> int k"
      using 2(3) w d by (simp add: Let_def)
    then have "int (length stk') \<le> int k" using stack_depth_from_ge by (meson max.bounded_iff order.trans)
    then have "vm_step m k (opcodes ! w) (take (operand_words w) ws) stk = Some stk'"
      using vm_step_limit [OF step] by simp
    then show ?thesis using "2.IH" [OF False len step run depth 2(4)] w len by simp
  qed (use 2(2) in auto)
qed simp

end
