(* ===== verification/Qe_Compile.thy ===== *)
theory Qe_Compile
  imports Qe_Vm "HOL-Library.Sublist"
begin

text \<open>
  The bytecode of a condition computes what the CPU reference evaluates
  (\<open>qe_row_condition_eval\<close>), row by row, if the compiler has logged nothing, the condition compares
  operands of fitting types and the columns hold no nulls and no negative 64-bit integers.

  The proof follows the compiler. \<open>extends\<close> relates a program to what it becomes: constants, pool
  and bindings only grow. \<open>compiled p p' v\<close> says that the words added from \<open>p\<close> to \<open>p'\<close> push \<open>v\<close>, in any
  program that extends \<open>p'\<close>.
\<close>

section \<open>Programs that grow\<close>

definition extends :: "qe_program \<Rightarrow> qe_program \<Rightarrow> bool" where
  "extends p fp \<longleftrightarrow>
     prefix (pr_consts p) (pr_consts fp) \<and> prefix (pr_pool p) (pr_pool fp) \<and> prefix (pr_bindings p) (pr_bindings fp)"

lemma extends_refl [simp]: "extends p p"
  by (simp add: extends_def)

lemma extends_trans: "extends p fp \<Longrightarrow> extends fp r \<Longrightarrow> extends p r"
  by (auto simp: extends_def intro: prefix_order.trans)

lemma extends_cong:
  "pr_consts p' = pr_consts p \<Longrightarrow> pr_pool p' = pr_pool p \<Longrightarrow> pr_bindings p' = pr_bindings p \<Longrightarrow> extends p p'"
  by (simp add: extends_def)

definition binding_ok :: "cql_table \<Rightarrow> dictionaries \<Rightarrow> qe_binding \<Rightarrow> bool" where
  "binding_ok t dicts b \<longleftrightarrow>
     bind_column b < length (columns t) \<and>
     (if bind_dict_codes b then
        bind_type b = ColU32 \<and> bind_slot_count b = 1 \<and> dicts (bind_column b) \<noteq> None \<and>
        column_ty (columns t ! bind_column b) = ColString8 \<and>
        (\<exists>n. bind_name b = n @ ''$dict'' \<and> cql_table_find_column t n = Some (bind_column b))
      else
        bind_type b = column_ty (columns t ! bind_column b) \<and>
        bind_slot_count b = (if bind_type b = ColString8 then 2 else 1) \<and>
        cql_table_find_column t (bind_name b) = Some (bind_column b))"

definition program_ok :: "cql_table \<Rightarrow> dictionaries \<Rightarrow> qe_program \<Rightarrow> bool" where
  "program_ok t dicts p \<longleftrightarrow>
     distinct (map bind_first_slot (pr_bindings p)) \<and>
     (\<forall>b \<in> set (pr_bindings p). bind_first_slot b < pr_next_slot p \<and> binding_ok t dicts b) \<and>
     pr_next_slot p \<le> QE_MAX_COLUMN_BINDINGS"

lemma program_ok_cong:
  "pr_bindings p' = pr_bindings p \<Longrightarrow> pr_next_slot p' = pr_next_slot p \<Longrightarrow> program_ok t dicts p' = program_ok t dicts p"
  by (simp add: program_ok_def)

lemma empty_program_ok [simp]: "program_ok t dicts empty_program"
  by (simp add: program_ok_def empty_program_def)

text \<open>The first slot of a binding leads back to it.\<close>

lemma slot_binding_of:
  assumes "program_ok t dicts fp" "b \<in> set (pr_bindings fp)"
  shows "slot_binding fp (bind_first_slot b) = Some b"
proof -
  obtain i where i: "i < length (pr_bindings fp)" "pr_bindings fp ! i = b"
    using assms(2) by (auto simp: in_set_conv_nth)
  have "first_index (\<lambda>x. bind_first_slot x = bind_first_slot b) (pr_bindings fp) = Some i"
    unfolding first_index_Some_iff
  proof (intro conjI allI impI)
    show "bind_first_slot (pr_bindings fp ! j) \<noteq> bind_first_slot b" if "j < i" for j
    proof
      assume "bind_first_slot (pr_bindings fp ! j) = bind_first_slot b"
      then have "map bind_first_slot (pr_bindings fp) ! j = map bind_first_slot (pr_bindings fp) ! i" using i that by simp
      moreover have "distinct (map bind_first_slot (pr_bindings fp))" using assms(1) by (simp add: program_ok_def)
      ultimately show False using i(1) that
        nth_eq_iff_index_eq [of "map bind_first_slot (pr_bindings fp)" j i] by simp
    qed
  qed (use i in auto)
  then show ?thesis by (simp add: slot_binding_def i)
qed

lemma slot_bound:
  "program_ok t dicts fp \<Longrightarrow> b \<in> set (pr_bindings fp) \<Longrightarrow> bind_first_slot b < 10"
  by (force simp: program_ok_def QE_MAX_COLUMN_BINDINGS_def)

section \<open>Words that push a value\<close>

definition vm_of :: "num_env \<Rightarrow> dictionaries \<Rightarrow> native_table \<Rightarrow> nat \<Rightarrow> qe_program \<Rightarrow> vm" where
  "vm_of env dicts nt row p = \<lparr>vm_program = p, vm_table = nt, vm_dicts = dicts, vm_env = env, vm_row = row\<rparr>"

lemma vm_of_simps [simp]:
  "vm_program (vm_of env dicts nt row p) = p" "vm_table (vm_of env dicts nt row p) = nt"
  "vm_dicts (vm_of env dicts nt row p) = dicts" "vm_env (vm_of env dicts nt row p) = env"
  "vm_row (vm_of env dicts nt row p) = row"
  by (simp_all add: vm_of_def)

record scan_ctx =
  cx_env :: num_env
  cx_dicts :: dictionaries
  cx_table :: native_table
  cx_row :: nat

abbreviation cx_view :: "scan_ctx \<Rightarrow> cql_table" where
  "cx_view cx \<equiv> as_table (cx_env cx) (cx_table cx)"

abbreviation cx_vm :: "scan_ctx \<Rightarrow> qe_program \<Rightarrow> vm" where
  "cx_vm cx \<equiv> vm_of (cx_env cx) (cx_dicts cx) (cx_table cx) (cx_row cx)"

abbreviation cx_ok :: "scan_ctx \<Rightarrow> qe_program \<Rightarrow> bool" where
  "cx_ok cx \<equiv> program_ok (cx_view cx) (cx_dicts cx)"

definition pushes :: "scan_ctx \<Rightarrow> nat list \<Rightarrow> qe_program \<Rightarrow> f64 \<Rightarrow> bool" where
  "pushes cx code p' v \<longleftrightarrow>
     (\<forall>fp big rest stk. extends p' fp \<longrightarrow> cx_ok cx fp \<longrightarrow> length stk + length code \<le> big \<longrightarrow>
        vm_run (cx_vm cx fp) big (code @ rest) stk = vm_run (cx_vm cx fp) big rest (v # stk))"

definition compiled :: "scan_ctx \<Rightarrow> qe_program \<Rightarrow> qe_program \<Rightarrow> f64 \<Rightarrow> bool" where
  "compiled cx p p' v \<longleftrightarrow>
     cx_ok cx p' \<and> extends p p' \<and> (\<exists>code. code \<noteq> [] \<and> pr_words p' = pr_words p @ code \<and> pushes cx code p' v)"

lemma compiled_ok: "compiled cx p p' v \<Longrightarrow> cx_ok cx p'" "compiled cx p p' v \<Longrightarrow> extends p p'"
  by (simp_all add: compiled_def)

text \<open>Emitting without a complaint.\<close>

lemma emit_ok:
  assumes "\<not> pr_logged (qe_bytecode_emit caps w p)"
  shows "qe_bytecode_emit caps w p = p\<lparr>pr_words := pr_words p @ [w]\<rparr>" "\<not> pr_logged p"
  using assms by (simp_all add: qe_bytecode_emit_def log_compile_def split: if_splits)

lemma emit_frame [simp]:
  "pr_consts (qe_bytecode_emit caps w p) = pr_consts p" "pr_pool (qe_bytecode_emit caps w p) = pr_pool p"
  "pr_bindings (qe_bytecode_emit caps w p) = pr_bindings p" "pr_next_slot (qe_bytecode_emit caps w p) = pr_next_slot p"
  by (simp_all add: qe_bytecode_emit_def log_compile_def)

lemma emit_words [simp]:
  "\<not> pr_logged (qe_bytecode_emit caps w p) \<Longrightarrow> pr_words (qe_bytecode_emit caps w p) = pr_words p @ [w]"
  by (simp add: qe_bytecode_emit_def log_compile_def split: if_splits)

lemma emit_logged: "pr_logged p \<Longrightarrow> pr_logged (qe_bytecode_emit caps w p)"
  by (simp add: qe_bytecode_emit_def log_compile_def)

lemma opcodes_word [simp]: "opcodes ! opcode_word op = op" "opcode_word op < length opcodes"
proof -
  have "\<forall>op \<in> set opcodes. opcodes ! opcode_word op = op \<and> opcode_word op < length opcodes" by code_simp
  moreover have "op \<in> set opcodes" by (cases op) (simp_all add: opcodes_def)
  ultimately show "opcodes ! opcode_word op = op" "opcode_word op < length opcodes" by blast+
qed

lemma opcode_word_inject [simp]: "opcode_word a = opcode_word b \<longleftrightarrow> a = b"
  by (metis opcodes_word(1))

lemma operand_words_simps [simp]:
  "operand_words (opcode_word OpPushConst) = 1" "operand_words (opcode_word OpLoadNumCol) = 1"
  "operand_words (opcode_word OpPushTrue) = 0" "operand_words (opcode_word OpPushFalse) = 0"
  by code_simp+

declare vm_run.simps [simp del]

definition binary_op :: "opcode \<Rightarrow> bool" where
  "binary_op op \<longleftrightarrow> op \<in> {OpCmpEq, OpCmpNe, OpCmpLt, OpCmpGt, OpCmpLe, OpCmpGe, OpAnd, OpOr}"

definition string_op :: "opcode \<Rightarrow> bool" where
  "string_op op \<longleftrightarrow>
     op \<in> {OpStrEq, OpStrContains, OpTrigramSim, OpEditDistance, OpStrNe, OpStrLt, OpStrGt, OpStrLe, OpStrGe}"

lemma operand_words_binary: "binary_op op \<Longrightarrow> operand_words (opcode_word op) = 0"
  by (auto simp: binary_op_def operand_words_def)

lemma operand_words_string: "string_op op \<Longrightarrow> operand_words (opcode_word op) = 3"
  by (auto simp: string_op_def operand_words_def)

lemma vm_run_op:
  assumes "op \<noteq> OpHalt" "operand_words (opcode_word op) = length args" "vm_step m big op args stk = Some stk'"
  shows "vm_run m big (opcode_word op # args @ rest) stk = vm_run m big rest stk'"
proof -
  have "\<not> (opcode_word op = opcode_word OpHalt \<or> opcode_word op \<ge> length opcodes)"
    using assms(1) by (metis not_le opcodes_word(2) opcode_word_inject)
  then show ?thesis using assms(2,3) by (simp add: vm_run.simps)
qed

section \<open>Constants, loads and operators\<close>

lemma compiled_push_bool:
  assumes "\<not> pr_logged (emit_op caps op p)" "cx_ok cx p" "op = OpPushTrue \<or> op = OpPushFalse"
  shows "compiled cx p (emit_op caps op p) (f64_bool (op = OpPushTrue))"
proof -
  have "pushes cx [opcode_word op] (emit_op caps op p) (f64_bool (op = OpPushTrue))"
    unfolding pushes_def
  proof (intro allI impI)
    fix fp big rest and stk :: "f64 list"
    assume "length stk + length [opcode_word op] \<le> big"
    then show "vm_run (cx_vm cx fp) big ([opcode_word op] @ rest) stk =
        vm_run (cx_vm cx fp) big rest (f64_bool (op = OpPushTrue) # stk)"
      using assms(3) vm_run_op [of op "[]" "cx_vm cx fp" big stk "f64_bool (op = OpPushTrue) # stk" rest]
      by (auto simp: vm_step_def vm_push_def f64_bool_def)
  qed
  then show ?thesis
    using assms(1,2) emit_words [of caps "opcode_word op" p]
    by (auto simp: compiled_def emit_op_def extends_cong program_ok_cong [of "qe_bytecode_emit caps _ p" p])
qed

lemma emit_const_logged: "pr_logged p \<Longrightarrow> pr_logged (emit_const caps v p)"
  by (auto simp: emit_const_def emit_op_def qe_add_numeric_const_def log_compile_def Let_def
      intro!: emit_logged split: prod.splits if_splits dest: emit_logged)

lemma compiled_const:
  assumes "\<not> pr_logged (emit_const caps v p)" "cx_ok cx p"
  shows "compiled cx p (emit_const caps v p) v"
proof -
  let ?p1 = "emit_op caps OpPushConst p"
  obtain k p2 where k: "qe_add_numeric_const caps v ?p1 = (k, p2)" by fastforce
  have e: "emit_const caps v p = qe_bytecode_emit caps k p2" by (simp add: emit_const_def k Let_def)
  have p2: "\<not> pr_logged p2" using assms(1) emit_ok(2) unfolding e by blast
  then have k': "k = length (pr_consts ?p1)" "p2 = ?p1\<lparr>pr_consts := pr_consts ?p1 @ [v]\<rparr>" "\<not> pr_logged ?p1"
    using k by (auto simp: qe_add_numeric_const_def log_compile_def split: if_splits)
  have w: "pr_words (emit_const caps v p) = pr_words p @ [opcode_word OpPushConst, k]"
    using assms(1) k'(3) unfolding e by (simp add: k'(2) emit_op_def)
  have c: "pr_consts (emit_const caps v p) = pr_consts p @ [v]" "k = length (pr_consts p)"
    unfolding e by (simp_all add: k' emit_op_def)
  have f: "pr_pool (emit_const caps v p) = pr_pool p" "pr_bindings (emit_const caps v p) = pr_bindings p"
    "pr_next_slot (emit_const caps v p) = pr_next_slot p"
    unfolding e by (simp_all add: k' emit_op_def)
  have "pushes cx [opcode_word OpPushConst, k] (emit_const caps v p) v"
    unfolding pushes_def
  proof (intro allI impI)
    fix fp big rest and stk :: "f64 list"
    assume fp: "extends (emit_const caps v p) fp" and big: "length stk + length [opcode_word OpPushConst, k] \<le> big"
    have "k < length (pr_consts fp)" "pr_consts fp ! k = v"
      using fp c by (auto simp: extends_def prefix_def nth_append)
    then show "vm_run (cx_vm cx fp) big ([opcode_word OpPushConst, k] @ rest) stk = vm_run (cx_vm cx fp) big rest (v # stk)"
      using vm_run_op [of OpPushConst "[k]" "cx_vm cx fp" big stk "v # stk" rest] big
      by (simp add: vm_step_def vm_push_def)
  qed
  then show ?thesis
    using assms(2) w c f by (auto simp: compiled_def extends_def program_ok_cong [of "emit_const caps v p" p])
qed

lemma column_type_word_bound: "column_type_word ty < 256"
  by (cases ty) (simp_all add: column_type_word_def)

lemma emit_load_logged: "pr_logged p \<Longrightarrow> pr_logged (emit_load caps b p)"
  by (simp add: emit_load_def emit_op_def emit_logged)

lemma compiled_load:
  assumes "\<not> pr_logged (emit_load caps b p)" "cx_ok cx p" "b \<in> set (pr_bindings p)"
    "\<And>fp. slot_binding fp (bind_first_slot b) = Some b \<Longrightarrow>
      vm_number (cx_vm cx fp) (bind_first_slot b) (column_type_word (bind_type b)) = Some v"
  shows "compiled cx p (emit_load caps b p) v"
proof -
  define w where "w = column_type_word (bind_type b) * 256 + bind_first_slot b mod 256"
  have slot: "bind_first_slot b < 10" using slot_bound [OF assms(2,3)] .
  then have dec: "w mod 256 = bind_first_slot b" "w div 256 mod 256 = column_type_word (bind_type b)"
    using column_type_word_bound [of "bind_type b"] by (simp_all add: w_def)
  have e: "emit_load caps b p = qe_bytecode_emit caps w (emit_op caps OpLoadNumCol p)"
    by (simp add: emit_load_def w_def)
  have l: "\<not> pr_logged (emit_op caps OpLoadNumCol p)" using assms(1) emit_ok(2) unfolding e by blast
  have words: "pr_words (emit_load caps b p) = pr_words p @ [opcode_word OpLoadNumCol, w]"
    using assms(1) l unfolding e by (simp add: emit_op_def)
  have f: "pr_consts (emit_load caps b p) = pr_consts p" "pr_pool (emit_load caps b p) = pr_pool p"
    "pr_bindings (emit_load caps b p) = pr_bindings p" "pr_next_slot (emit_load caps b p) = pr_next_slot p"
    unfolding e by (simp_all add: emit_op_def)
  have "pushes cx [opcode_word OpLoadNumCol, w] (emit_load caps b p) v"
    unfolding pushes_def
  proof (intro allI impI)
    fix fp big rest and stk :: "f64 list"
    assume fp: "extends (emit_load caps b p) fp" "cx_ok cx fp" and big: "length stk + length [opcode_word OpLoadNumCol, w] \<le> big"
    have "b \<in> set (pr_bindings fp)" using fp(1) f(3) assms(3) by (auto simp: extends_def prefix_def)
    then have "slot_binding fp (bind_first_slot b) = Some b" using slot_binding_of [OF fp(2)] by blast
    then have "vm_number (cx_vm cx fp) (w mod 256) (w div 256 mod 256) = Some v" using assms(4) dec by simp
    then show "vm_run (cx_vm cx fp) big ([opcode_word OpLoadNumCol, w] @ rest) stk = vm_run (cx_vm cx fp) big rest (v # stk)"
      using vm_run_op [of OpLoadNumCol "[w]" "cx_vm cx fp" big stk "v # stk" rest] big
      by (simp add: vm_step_def vm_push_def)
  qed
  then show ?thesis
    using assms(2) words f by (auto simp: compiled_def extends_cong program_ok_cong [of "emit_load caps b p" p])
qed

lemma compiled_binary:
  assumes "compiled cx p p1 a" "compiled cx p1 p2 b" "\<not> pr_logged (emit_op caps op p2)" "binary_op op"
  shows "compiled cx p (emit_op caps op p2) (vm_binary op a b)"
proof -
  obtain c1 c2 where c1: "pr_words p1 = pr_words p @ c1" "pushes cx c1 p1 a" "c1 \<noteq> []"
    and c2: "pr_words p2 = pr_words p1 @ c2" "pushes cx c2 p2 b" "c2 \<noteq> []"
    using assms(1,2) by (auto simp: compiled_def)
  let ?p3 = "emit_op caps op p2" and ?code = "c1 @ c2 @ [opcode_word op]"
  have frame: "pr_consts ?p3 = pr_consts p2" "pr_pool ?p3 = pr_pool p2" "pr_bindings ?p3 = pr_bindings p2"
    "pr_next_slot ?p3 = pr_next_slot p2" by (simp_all add: emit_op_def)
  have ext: "extends p2 ?p3" using frame by (intro extends_cong)
  have "pushes cx ?code ?p3 (vm_binary op a b)"
    unfolding pushes_def
  proof (intro allI impI)
    fix fp big rest and stk :: "f64 list"
    assume fp: "extends ?p3 fp" "cx_ok cx fp" and big: "length stk + length ?code \<le> big"
    have fp2: "extends p2 fp" using ext fp(1) by (rule extends_trans)
    then have fp1: "extends p1 fp" using compiled_ok(2) [OF assms(2)] extends_trans by blast
    have op: "op \<noteq> OpHalt" "op \<noteq> OpPushTrue" "op \<noteq> OpPushFalse" using assms(4) by (auto simp: binary_op_def)
    have "0 < length c1" "0 < length c2" using c1(3) c2(3) by simp_all
    then have room: "length stk + length c1 \<le> big" "length (a # stk) + length c2 \<le> big" "length stk < big"
      using big by simp_all
    have "vm_run (cx_vm cx fp) big (?code @ rest) stk = vm_run (cx_vm cx fp) big ((c2 @ [opcode_word op]) @ rest) (a # stk)"
      using c1(2) fp1 fp(2) room(1) unfolding pushes_def by simp
    also have "\<dots> = vm_run (cx_vm cx fp) big (opcode_word op # rest) (b # a # stk)"
      using c2(2) fp2 fp(2) room(2) unfolding pushes_def by simp
    also have "\<dots> = vm_run (cx_vm cx fp) big rest (vm_binary op a b # stk)"
      using vm_run_op [of op "[]" "cx_vm cx fp" big "b # a # stk" "vm_binary op a b # stk" rest]
        operand_words_binary [OF assms(4)] op room(3)
      by (simp add: vm_step_def vm_push_def)
    finally show "vm_run (cx_vm cx fp) big (?code @ rest) stk = vm_run (cx_vm cx fp) big rest (vm_binary op a b # stk)" .
  qed
  moreover have "pr_words ?p3 = pr_words p @ ?code" using c1(1) c2(1) assms(3) by (simp add: emit_op_def)
  moreover have "cx_ok cx ?p3" using compiled_ok(1) [OF assms(2)] frame by (simp add: program_ok_cong [of ?p3 p2])
  moreover have "extends p ?p3"
    using compiled_ok(2) [OF assms(1)] compiled_ok(2) [OF assms(2)] ext extends_trans by blast
  ultimately show ?thesis unfolding compiled_def by blast
qed

section \<open>String constants and columns\<close>

lemma add_string_const:
  assumes "qe_add_string_const caps s p = (ref, p')" "\<not> pr_logged p'"
  shows "pr_words p' = pr_words p" "pr_consts p' = pr_consts p" "pr_bindings p' = pr_bindings p"
    "pr_next_slot p' = pr_next_slot p" "\<not> pr_logged p" "prefix (pr_pool p) (pr_pool p')" "snd ref = length s"
    "fst ref * 4 + length s = length (pr_pool p')" "drop (fst ref * 4) (pr_pool p') = s"
proof -
  let ?n = "length (pr_pool p)" and ?a = "align4 (length (pr_pool p))"
  have p': "p' = p\<lparr>pr_pool := pr_pool p @ replicate (?a - ?n) (CHR 0x00) @ s\<rparr>" and ref: "ref = (?a div 4, length s)"
    using assms by (auto simp: qe_add_string_const_def Let_def log_compile_def split: if_splits)
  have a: "?a div 4 * 4 = ?a" "?n \<le> ?a" unfolding align4_def by (simp, linarith)
  show "pr_words p' = pr_words p" "pr_consts p' = pr_consts p" "pr_bindings p' = pr_bindings p"
    "pr_next_slot p' = pr_next_slot p" "prefix (pr_pool p) (pr_pool p')" "snd ref = length s" "\<not> pr_logged p"
    using assms(2) by (simp_all add: p' ref)
  show "fst ref * 4 + length s = length (pr_pool p')" using a by (simp add: p' ref)
  show "drop (fst ref * 4) (pr_pool p') = s" using a by (simp add: p' ref)
qed

lemma pool_read:
  assumes "fst ref * 4 + length s = length (pr_pool p')" "drop (fst ref * 4) (pr_pool p') = s"
    "prefix (pr_pool p') (pr_pool fp)"
  shows "vm_pool (vm_of env dicts nt row fp) (fst ref) (length s) = Some s"
proof -
  obtain tail where "pr_pool fp = pr_pool p' @ tail" using assms(3) by (auto simp: prefix_def)
  moreover have "fst ref * 4 \<le> length (pr_pool p')" using assms(1) by linarith
  ultimately show ?thesis using assms(1,2) by (simp add: vm_pool_def Let_def)
qed

lemma emit_string_op_logged: "pr_logged p \<Longrightarrow> pr_logged (emit_string_op caps op slot ref p)"
  by (simp add: emit_string_op_def emit_op_def emit_logged)

lemma compiled_string_op:
  assumes "\<not> pr_logged (emit_string_op caps op (bind_first_slot b) ref p1)"
    "qe_add_string_const caps s p = (ref, p1)" "cx_ok cx p" "b \<in> set (pr_bindings p)" "string_op op"
    "\<And>fp. slot_binding fp (bind_first_slot b) = Some b \<Longrightarrow> vm_string (cx_vm cx fp) (bind_first_slot b) = Some v"
  shows "compiled cx p (emit_string_op caps op (bind_first_slot b) ref p1) (vm_on_string (cx_env cx) op v s)"
proof -
  let ?p' = "emit_string_op caps op (bind_first_slot b) ref p1"
  let ?args = "[bind_first_slot b, fst ref, snd ref]"
  let ?e = "emit_op caps op p1"
  let ?e1 = "qe_bytecode_emit caps (bind_first_slot b) ?e"
  let ?e2 = "qe_bytecode_emit caps (fst ref) ?e1"
  have n3: "\<not> pr_logged ?e2" using assms(1) emit_logged unfolding emit_string_op_def by blast
  then have n2: "\<not> pr_logged ?e1" using emit_logged by blast
  then have n1: "\<not> pr_logged ?e" using emit_logged by blast
  then have n0: "\<not> pr_logged p1" using emit_logged unfolding emit_op_def by blast
  note c = add_string_const [OF assms(2) n0]
  have words: "pr_words ?p' = pr_words p @ opcode_word op # ?args"
    using assms(1) n1 n2 n3 by (simp add: emit_string_op_def c(1)) (simp add: emit_op_def c(1))
  have f: "pr_consts ?p' = pr_consts p" "pr_pool ?p' = pr_pool p1" "pr_bindings ?p' = pr_bindings p"
    "pr_next_slot ?p' = pr_next_slot p"
    by (simp_all add: emit_string_op_def emit_op_def c)
  have "pushes cx (opcode_word op # ?args) ?p' (vm_on_string (cx_env cx) op v s)"
    unfolding pushes_def
  proof (intro allI impI)
    fix fp big rest and stk :: "f64 list"
    assume fp: "extends ?p' fp" "cx_ok cx fp" and big: "length stk + length (opcode_word op # ?args) \<le> big"
    have "b \<in> set (pr_bindings fp)" using fp(1) f(3) assms(4) by (auto simp: extends_def prefix_def)
    then have "slot_binding fp (bind_first_slot b) = Some b" using slot_binding_of [OF fp(2)] by blast
    then have str: "vm_string (cx_vm cx fp) (bind_first_slot b) = Some v" by (rule assms(6))
    have "prefix (pr_pool p1) (pr_pool fp)" using fp(1) f(2) by (simp add: extends_def)
    then have pool: "vm_pool (cx_vm cx fp) (fst ref) (snd ref) = Some s"
      using pool_read [OF c(8,9)] c(7) by simp
    have op: "op \<noteq> OpHalt" using assms(5) by (auto simp: string_op_def)
    show "vm_run (cx_vm cx fp) big ((opcode_word op # ?args) @ rest) stk =
        vm_run (cx_vm cx fp) big rest (vm_on_string (cx_env cx) op v s # stk)"
      using vm_run_op [OF op, of ?args "cx_vm cx fp" big stk _ rest] operand_words_string [OF assms(5)] str pool big
      by (simp add: vm_step_def vm_push_def)
  qed
  then show ?thesis
    using assms(3) words f c(6) by (auto simp: compiled_def extends_def program_ok_cong [of ?p' p])
qed

text \<open>No column has a name of the form the dictionary bindings use.\<close>

definition plain_columns :: "cql_table \<Rightarrow> bool" where
  "plain_columns t \<longleftrightarrow> (\<forall>c \<in> set (columns t). \<not> suffix ''$dict'' (column_name c))"

lemma plain_columns_nth: "plain_columns t \<Longrightarrow> c < length (columns t) \<Longrightarrow> column_name (columns t ! c) \<noteq> n @ ''$dict''"
  by (metis nth_mem plain_columns_def suffixI)

lemma found_column_name: "cql_table_find_column t name = Some c \<Longrightarrow> column_name (columns t ! c) = name"
  unfolding cql_table_find_column_def by (drule first_index_Some) simp

lemma find_binding_Some:
  assumes "qe_find_binding p name = Some b"
  shows "b \<in> set (pr_bindings p)" "bind_name b = name"
  using assms unfolding qe_find_binding_def by (auto dest: first_index_Some)

lemma add_binding_ok:
  assumes "add_binding b p = (Some b', p')" "program_ok t dicts p" "binding_ok t dicts b"
    "bind_first_slot b = pr_next_slot p" "pr_next_slot p + bind_slot_count b \<le> QE_MAX_COLUMN_BINDINGS"
  shows "b' = b" "program_ok t dicts p'" "extends p p'" "b \<in> set (pr_bindings p')" "pr_words p' = pr_words p"
    "pr_logged p' = pr_logged p"
proof -
  have b': "b' = b" using assms(1) by (simp add: add_binding_def)
  have p': "p' = p\<lparr>pr_bindings := pr_bindings p @ [b], pr_next_slot := pr_next_slot p + bind_slot_count b\<rparr>"
    using assms(1) unfolding add_binding_def b' by simp
  have "0 < bind_slot_count b" using assms(3) by (auto simp: binding_ok_def split: if_splits)
  then show "program_ok t dicts p'"
    using assms(2-5) by (force simp: program_ok_def p')
  show "b' = b" by (rule b')
  show "extends p p'" "b \<in> set (pr_bindings p')" "pr_words p' = pr_words p" "pr_logged p' = pr_logged p"
    by (simp_all add: p' extends_def)
qed

lemma bind_column_ok:
  assumes "qe_bind_column t name p = (Some b, p')" "program_ok t dicts p" "plain_columns t"
    "cql_table_find_column t name = Some c"
  shows "program_ok t dicts p'" "extends p p'" "b \<in> set (pr_bindings p')" "pr_words p' = pr_words p"
    "pr_logged p' = pr_logged p" "\<not> bind_dict_codes b" "bind_column b = c" "bind_type b = column_ty (columns t ! c)"
proof -
  have c: "c < length (columns t)" using find_column_bound [OF assms(4)] .
  have "program_ok t dicts p' \<and> extends p p' \<and> b \<in> set (pr_bindings p') \<and> pr_words p' = pr_words p \<and>
    pr_logged p' = pr_logged p \<and> \<not> bind_dict_codes b \<and> bind_column b = c \<and> bind_type b = column_ty (columns t ! c)"
  proof (cases "qe_find_binding p name")
    case (Some x)
    then have x: "b = x" "p' = p" using assms(1) by (simp_all add: qe_bind_column_def)
    have b: "b \<in> set (pr_bindings p)" "bind_name b = name" using find_binding_Some [OF Some] x by simp_all
    then have ok: "binding_ok t dicts b" using assms(2) by (simp add: program_ok_def)
    have "\<not> bind_dict_codes b"
    proof
      assume "bind_dict_codes b"
      then obtain n where "name = n @ ''$dict''" using ok b(2) by (auto simp: binding_ok_def)
      then show False using plain_columns_nth [OF assms(3) c, of n] found_column_name [OF assms(4)] by simp
    qed
    then show ?thesis using ok b assms(2,4) x by (auto simp: binding_ok_def)
  next
    case None
    let ?ty = "column_ty (columns t ! c)"
    let ?n = "\<lparr>bind_name = name, bind_column = c, bind_type = ?ty, bind_first_slot = pr_next_slot p,
        bind_slot_count = (if ?ty = ColString8 then 2 else 1), bind_dict_codes = False\<rparr>"
    have room: "pr_next_slot p + bind_slot_count ?n \<le> QE_MAX_COLUMN_BINDINGS" and add: "add_binding ?n p = (Some b, p')"
      using assms(1,4) None by (auto simp: qe_bind_column_def Let_def split: if_splits)
    have ok: "binding_ok t dicts ?n" using c assms(4) by (simp add: binding_ok_def)
    show ?thesis using add_binding_ok [OF add assms(2) ok _ room] by simp
  qed
  then show "program_ok t dicts p'" "extends p p'" "b \<in> set (pr_bindings p')" "pr_words p' = pr_words p"
    "pr_logged p' = pr_logged p" "\<not> bind_dict_codes b" "bind_column b = c" "bind_type b = column_ty (columns t ! c)"
    by blast+
qed

lemma bind_column_None: "qe_bind_column t name p = (None, p') \<Longrightarrow> pr_logged p'"
  by (auto simp: qe_bind_column_def add_binding_def log_compile_def Let_def split: option.splits if_splits)

lemma bind_dict_None: "qe_bind_column_dict_codes t dicts name p = (None, p') \<Longrightarrow> pr_logged p'"
  by (auto simp: qe_bind_column_dict_codes_def add_binding_def log_compile_def Let_def split: option.splits if_splits)

text \<open>Undoing the binding that was just made gives the program before it.\<close>

lemma undo_bind_column: "qe_bind_column t name p = (Some b, p') \<Longrightarrow> undo_binding p p' = p"
  by (auto simp: qe_bind_column_def add_binding_def undo_binding_def Let_def split: option.splits if_splits)

lemma bind_dict_ok:
  assumes "qe_bind_column_dict_codes t dicts name p = (Some b, p')" "program_ok t dicts p" "plain_columns t"
    "cql_table_find_column t name = Some c" "column_ty (columns t ! c) = ColString8"
  shows "program_ok t dicts p' \<and> extends p p' \<and> b \<in> set (pr_bindings p') \<and> pr_words p' = pr_words p \<and>
    pr_logged p' = pr_logged p \<and> bind_dict_codes b \<and> bind_column b = c \<and> bind_type b = ColU32"
proof (cases "qe_find_binding p (name @ ''$dict'')")
  case (Some x)
  then have x: "b = x" "p' = p" using assms(1) by (simp_all add: qe_bind_column_dict_codes_def)
  have b: "b \<in> set (pr_bindings p)" "bind_name b = name @ ''$dict''" using find_binding_Some [OF Some] x by simp_all
  then have ok: "binding_ok t dicts b" using assms(2) by (simp add: program_ok_def)
  have d: "bind_dict_codes b"
  proof (rule ccontr)
    assume "\<not> bind_dict_codes b"
    then have f: "cql_table_find_column t (name @ ''$dict'') = Some (bind_column b)" using ok b(2) by (simp add: binding_ok_def)
    show False using plain_columns_nth [OF assms(3) find_column_bound [OF f], of name] found_column_name [OF f] by simp
  qed
  then show ?thesis using ok b assms(2,4) x by (auto simp: binding_ok_def)
next
  case None
  have c: "c < length (columns t)" using find_column_bound [OF assms(4)] .
  let ?n = "\<lparr>bind_name = name @ ''$dict'', bind_column = c, bind_type = ColU32, bind_first_slot = pr_next_slot p,
      bind_slot_count = 1, bind_dict_codes = True\<rparr>"
  have room: "pr_next_slot p + bind_slot_count ?n \<le> QE_MAX_COLUMN_BINDINGS" and add: "add_binding ?n p = (Some b, p')"
    and "dicts c \<noteq> None"
    using assms(1,4) None by (auto simp: qe_bind_column_dict_codes_def Let_def split: if_splits)
  then have ok: "binding_ok t dicts ?n" using c assms(4,5) by (simp add: binding_ok_def)
  show ?thesis using add_binding_ok [OF add assms(2) ok _ room] by simp
qed

end
