(* ===== verification/Qe_Scan.thy ===== *)
theory Qe_Scan
  imports Qe_Compile
begin

text \<open>
  The scan of a table (\<open>qe_scan_filter\<close> of \<open>src/src/query_exec/query_exec.c\<close>): on the GPU by the
  bytecode of the condition, or on the CPU where the condition cannot be compiled or needs too deep a
  stack. The theorem is that both ways select the same rows, under the conditions that \<open>gpu_ok\<close> and
  \<open>cx_sound\<close> state; the lemmas after it show what happens outside of them.
\<close>

section \<open>Compilers that keep quiet\<close>

definition quiet :: "qe_program \<Rightarrow> bool" where
  "quiet p \<longleftrightarrow> \<not> pr_logged p \<and> \<not> pr_cpu_scan p"

lemma quiet_simps [simp]: "\<not> quiet (log_compile p)" "quiet (p\<lparr>pr_score := s\<rparr>) = quiet p" "\<not> quiet (p\<lparr>pr_cpu_scan := True\<rparr>)"
  by (simp_all add: quiet_def log_compile_def)

named_theorems quiet_dest

lemma quiet_emit [quiet_dest]: "quiet (qe_bytecode_emit caps w p) \<Longrightarrow> quiet p"
  by (auto simp: quiet_def qe_bytecode_emit_def log_compile_def split: if_splits)

lemma quiet_emit_op [quiet_dest]: "quiet (emit_op caps op p) \<Longrightarrow> quiet p"
  unfolding emit_op_def by (rule quiet_emit)

lemma quiet_add_const [quiet_dest]: "quiet (snd (qe_add_numeric_const caps v p)) \<Longrightarrow> quiet p"
  by (auto simp: quiet_def qe_add_numeric_const_def log_compile_def split: if_splits)

lemma quiet_add_string [quiet_dest]: "quiet (snd (qe_add_string_const caps s p)) \<Longrightarrow> quiet p"
  by (auto simp: quiet_def qe_add_string_const_def log_compile_def Let_def split: if_splits)

lemma quiet_bind [quiet_dest]: "quiet (snd (qe_bind_column t name p)) \<Longrightarrow> quiet p"
  by (auto simp: quiet_def qe_bind_column_def add_binding_def log_compile_def Let_def split: option.splits if_splits)

lemma quiet_bind_dict [quiet_dest]: "quiet (snd (qe_bind_column_dict_codes t dicts name p)) \<Longrightarrow> quiet p"
  by (auto simp: quiet_def qe_bind_column_dict_codes_def add_binding_def log_compile_def Let_def split: option.splits if_splits)

lemma quiet_undo [quiet_dest]: "quiet (undo_binding before p) \<Longrightarrow> quiet p"
  by (auto simp: quiet_def undo_binding_def split: if_splits)

lemma quiet_emit_const [quiet_dest]: "quiet (emit_const caps v p) \<Longrightarrow> quiet p"
  by (auto simp: emit_const_def Let_def split: prod.splits dest!: quiet_emit)
    (metis quiet_add_const quiet_emit_op snd_conv)

lemma quiet_emit_load [quiet_dest]: "quiet (emit_load caps b p) \<Longrightarrow> quiet p"
  unfolding emit_load_def by (blast dest: quiet_dest)

lemma quiet_emit_string_op [quiet_dest]: "quiet (emit_string_op caps op slot ref p) \<Longrightarrow> quiet p"
  unfolding emit_string_op_def by (blast dest: quiet_dest)

lemma quiet_opcode [quiet_dest]: "quiet (snd (qe_opcode_from_comparison_operator op p)) \<Longrightarrow> quiet p"
  by (auto simp: qe_opcode_from_comparison_operator_def split: if_splits)

lemma quiet_emit_comparison [quiet_dest]: "quiet (emit_comparison caps op p) \<Longrightarrow> quiet p"
  by (auto simp: emit_comparison_def split: prod.splits dest!: quiet_emit_op) (metis quiet_opcode snd_conv)

lemma quiet_load_value [quiet_dest]: "quiet (qe_compile_load_value env caps t node p) \<Longrightarrow> quiet p"
  by (auto simp: qe_compile_load_value_def split: if_splits prod.splits option.splits dest!: quiet_dest)
    (metis quiet_bind snd_conv)+

lemma quiet_string_raw [quiet_dest]: "quiet (compile_string_raw caps op b literal p) \<Longrightarrow> quiet p"
  by (auto simp: compile_string_raw_def split: prod.splits dest!: quiet_emit_string_op) (metis quiet_add_string snd_conv)

lemma quiet_resolved [quiet_dest]: "quiet (compile_resolved caps op b v p) \<Longrightarrow> quiet p \<and> v \<noteq> None"
  by (auto simp: compile_resolved_def split: option.splits dest!: quiet_dest)

lemma quiet_generic [quiet_dest]: "quiet (compile_generic env caps t op left right p) \<Longrightarrow> quiet p"
  unfolding compile_generic_def by (blast dest: quiet_dest)

lemma quiet_decimal [quiet_dest]: "quiet (compile_decimal env caps t op left right p) \<Longrightarrow> quiet p"
  by (auto simp: compile_decimal_def split: if_splits prod.splits option.splits dest!: quiet_resolved quiet_generic)
    (metis quiet_bind snd_conv)+

lemma quiet_string_comparison [quiet_dest]:
  "quiet (compile_string_comparison env caps dicts t op left literal b before p) \<Longrightarrow> quiet p \<and> string_opcode op \<noteq> None"
  by (auto simp: compile_string_comparison_def Let_def split: if_splits prod.splits option.splits
      dest!: quiet_string_raw quiet_undo quiet_emit_op quiet_emit_const quiet_emit_load)
    (metis quiet_bind quiet_bind_dict quiet_undo snd_conv)+

lemma quiet_comparison [quiet_dest]: "quiet (compile_comparison env caps dicts t op left right p) \<Longrightarrow> quiet p"
  by (auto simp: compile_comparison_def split: if_splits prod.splits option.splits
      dest!: quiet_resolved quiet_decimal quiet_string_comparison)
    (metis quiet_bind snd_conv)+

lemma quiet_items [quiet_dest]: "quiet (compile_items env caps dicts t is_not left first items p) \<Longrightarrow> quiet p"
  by (induction env caps dicts t is_not left first items p rule: compile_items.induct)
    (auto simp: Let_def split: if_splits dest!: quiet_comparison quiet_emit_op)

lemma quiet_in [quiet_dest]: "quiet (compile_in env caps dicts t is_not args p) \<Longrightarrow> quiet p"
  by (auto simp: compile_in_def split: if_splits list.splits dest!: quiet_emit_op quiet_items)

lemma quiet_fuzzy [quiet_dest]: "quiet (compile_fuzzy env caps t op is_distance call right p) \<Longrightarrow> quiet p"
  by (auto simp: compile_fuzzy_def Let_def split: if_splits list.splits prod.splits option.splits
      dest!: quiet_emit_op quiet_emit_comparison quiet_load_value quiet_emit_string_op)
    (metis quiet_bind quiet_add_string quiet_simps snd_conv)+

lemma quiet_leaf [quiet_dest]: "quiet (compile_leaf env caps dicts t op args p) \<Longrightarrow> quiet p"
  by (auto simp: compile_leaf_def split: if_splits list.splits option.splits
      dest!: quiet_emit_op quiet_emit_const quiet_in quiet_fuzzy quiet_comparison)

lemma quiet_condition [quiet_dest]: "quiet (qe_compile_condition env caps dicts t node p) \<Longrightarrow> quiet p"
  by (induction env caps dicts t node p rule: qe_compile_condition.induct)
    (auto split: if_splits list.splits dest!: quiet_load_value quiet_emit_op quiet_leaf)


section \<open>Rows without surprises\<close>

text \<open>The row has a value of its column's type in every column, no negative one where the shader
  would misread it, and a string that the dictionary of its column knows.\<close>

definition nonnegative_64 :: "column_type \<Rightarrow> stored \<Rightarrow> bool" where
  "nonnegative_64 ty v \<longleftrightarrow>
     (ty = ColI64 \<or> ty = ColTimestamp \<or> ty = ColDecimal \<longrightarrow> (case v of V_int i \<Rightarrow> 0 \<le> i | _ \<Rightarrow> True))"

definition cell_fits :: "scan_ctx \<Rightarrow> nat \<Rightarrow> bool" where
  "cell_fits cx c \<longleftrightarrow>
     (case nt_rows (cx_table cx) ! cx_row cx ! c of
        None \<Rightarrow> False
      | Some v \<Rightarrow>
          let ty = column_ty (nt_columns (cx_table cx) ! c) in
          stored_typed ty v \<and> nonnegative_64 ty v \<and>
          (case v of
             V_str s \<Rightarrow> length s \<le> MAX_SANE_STRING_LEN \<and>
               (case cx_dicts cx c of None \<Rightarrow> True | Some d \<Rightarrow> distinct d \<and> s \<in> set d \<and> length d \<le> 2 ^ 32)
           | _ \<Rightarrow> True))"

definition cx_sound :: "scan_ctx \<Rightarrow> bool" where
  "cx_sound cx \<longleftrightarrow>
     ieee_env (cx_env cx) \<and> plain_columns (cx_view cx) \<and> cx_row cx < length (nt_rows (cx_table cx)) \<and>
     length (nt_rows (cx_table cx) ! cx_row cx) = length (nt_columns (cx_table cx)) \<and>
     list_all (cell_fits cx) [0..<length (nt_columns (cx_table cx))]"

definition cx_cell :: "scan_ctx \<Rightarrow> nat \<Rightarrow> stored" where
  "cx_cell cx c = the (nt_rows (cx_table cx) ! cx_row cx ! c)"

abbreviation cx_type :: "scan_ctx \<Rightarrow> nat \<Rightarrow> column_type" where
  "cx_type cx c \<equiv> column_ty (nt_columns (cx_table cx) ! c)"

abbreviation cx_scope :: "scan_ctx \<Rightarrow> scope" where
  "cx_scope cx \<equiv> [(cx_view cx, [])]"

abbreviation cx_rows :: "scan_ctx \<Rightarrow> joined_row" where
  "cx_rows cx \<equiv> [Some (cx_row cx)]"

lemma cx_cell_fits:
  assumes "cx_sound cx" "c < length (nt_columns (cx_table cx))"
  shows "nt_rows (cx_table cx) ! cx_row cx ! c = Some (cx_cell cx c)" "stored_typed (cx_type cx c) (cx_cell cx c)"
    "nonnegative_64 (cx_type cx c) (cx_cell cx c)"
proof -
  have "cell_fits cx c" using assms by (simp add: cx_sound_def list_all_iff)
  then show "nt_rows (cx_table cx) ! cx_row cx ! c = Some (cx_cell cx c)" "stored_typed (cx_type cx c) (cx_cell cx c)"
    "nonnegative_64 (cx_type cx c) (cx_cell cx c)"
    by (auto simp: cell_fits_def cx_cell_def Let_def split: option.splits)
qed

lemma cx_string:
  assumes "cx_sound cx" "c < length (nt_columns (cx_table cx))" "cx_type cx c = ColString8"
  obtains s where "cx_cell cx c = V_str s" "length s \<le> MAX_SANE_STRING_LEN"
    "\<And>d. cx_dicts cx c = Some d \<Longrightarrow> distinct d \<and> s \<in> set d \<and> length d \<le> 2 ^ 32"
proof -
  obtain s where s: "cx_cell cx c = V_str s"
    using cx_cell_fits(2) [OF assms(1,2)] assms(3) by (cases "cx_cell cx c") auto
  have "cell_fits cx c" using assms by (simp add: cx_sound_def list_all_iff)
  then have "length s \<le> MAX_SANE_STRING_LEN \<and>
      (case cx_dicts cx c of None \<Rightarrow> True | Some d \<Rightarrow> distinct d \<and> s \<in> set d \<and> length d \<le> 2 ^ 32)"
    using cx_cell_fits(1) [OF assms(1,2)] s by (simp add: cell_fits_def Let_def)
  then show ?thesis using that [OF s] by (auto split: option.splits)
qed

text \<open>The two ways to read a number agree on such a row.\<close>

lemma read_num_agrees:
  assumes "ieee_env env" "stored_typed ty v" "nonnegative_64 ty v" "ty \<noteq> ColString8"
  shows "read_num_column_value ty v = cql_numeric_value_as_f64 env v"
proof (cases v)
  case (V_int i)
  have env: "f64_of_int env i = F64_num (of_int (round_f64 i))" using assms(1) by (simp add: ieee_env_def f64_of_def)
  consider "ty = ColU64" | "ty = ColI64 \<or> ty = ColTimestamp \<or> ty = ColDecimal"
    | "ty = ColU32 \<or> ty = ColEnum \<or> ty = ColBool \<or> ty = ColI32 \<or> ty = ColDate"
    using assms(2,4) V_int by (auto split: if_splits)
  then show ?thesis
  proof cases
    case 1
    then have "0 \<le> i" "nat i < 2 ^ 64" using assms(2) V_int by (simp_all add: nat_less_iff)
    then show ?thesis using gpu_u64_round [of "nat i"] by (simp add: V_int 1 env)
  next
    case 2
    then have "0 \<le> i" "i < 2 ^ 63" using assms(2,3) V_int by (auto simp: nonnegative_64_def)
    then show ?thesis using gpu_s64_nonneg [of i] 2 by (auto simp: V_int env)
  next
    case 3
    then have "\<bar>i\<bar> < 2 ^ 53" using assms(2) V_int by auto
    then show ?thesis using round_f64_small [of i] 3 by (auto simp: V_int env)
  qed
qed (use assms in auto)

definition column_of :: "cql_table \<Rightarrow> ir_node \<Rightarrow> nat option" where
  "column_of t node =
     (if ir_type node = IrColumn \<and> \<not> has_dot (ir_value node) then cql_table_find_column t (ir_value node) else None)"

lemma column_of_Some:
  assumes "column_of t node = Some c"
  shows "ir_type node = IrColumn" "\<not> has_dot (ir_value node)" "cql_table_find_column t (ir_value node) = Some c"
    "c < length (columns t)"
  using assms find_column_bound by (auto simp: column_of_def split: if_splits)

lemma resolve_sole:
  "\<not> has_dot name \<Longrightarrow> cql_table_find_column t name = Some c \<Longrightarrow> qe_resolve_column_table [(t, [])] name = Some 0"
  by (simp add: qe_resolve_column_table_def)

lemma cx_resolve:
  assumes "column_of (cx_view cx) node = Some c"
  shows "resolve_column (cx_scope cx) (ir_value node) = Some (0, c)"
    "column_at (cx_scope cx) (0, c) = nt_columns (cx_table cx) ! c"
  using column_of_Some [OF assms] resolve_sole [of "ir_value node" "cx_view cx" c]
  by (simp_all add: resolve_column_def qe_bare_column_name_def column_at_def)

lemma cx_load:
  assumes "cx_sound cx" "column_of (cx_view cx) node = Some c"
  shows "qe_row_load_value env (cx_scope cx) (cx_rows cx) node =
    cell_value (cx_type cx c) (as_cell (cx_env cx) (Some (cx_cell cx c)))"
proof -
  note c = column_of_Some [OF assms(2)]
  have l: "c < length (nt_columns (cx_table cx))" using c(4) by simp
  have r: "cx_row cx < length (nt_rows (cx_table cx))" "c < length (nt_rows (cx_table cx) ! cx_row cx)"
    using assms(1) l by (simp_all add: cx_sound_def)
  show ?thesis
    using c resolve_sole [of "ir_value node" "cx_view cx" c] cx_cell_fits(1) [OF assms(1) l] r
    by (simp add: qe_row_load_value_def load_column_def qe_bare_column_name_def)
qed

lemma cx_load_num:
  assumes "cx_sound cx" "column_of (cx_view cx) node = Some c" "cx_type cx c \<noteq> ColString8"
  shows "qe_row_load_value env (cx_scope cx) (cx_rows cx) node = L_num (read_num_column_value (cx_type cx c) (cx_cell cx c))"
proof -
  have c: "c < length (nt_columns (cx_table cx))" using column_of_Some(4) [OF assms(2)] by simp
  note f = cx_cell_fits [OF assms(1) c]
  have "ieee_env (cx_env cx)" using assms(1) by (simp add: cx_sound_def)
  from read_num_agrees [OF this f(2,3) assms(3)] show ?thesis
    using f(2) assms(3) cx_load [OF assms(1,2), of env] by (cases "cx_cell cx c") (auto simp: cell_value_def)
qed

lemma cx_load_string:
  assumes "cx_sound cx" "column_of (cx_view cx) node = Some c" "cx_type cx c = ColString8" "cx_cell cx c = V_str s"
  shows "qe_row_load_value env (cx_scope cx) (cx_rows cx) node = L_str s"
  using cx_load [OF assms(1,2), of env] assms(3,4) by (simp add: cell_value_def)


section \<open>Numbers\<close>

lemma compiled_after: "compiled cx p1 p2 v \<Longrightarrow> extends p p1 \<Longrightarrow> pr_words p1 = pr_words p \<Longrightarrow> compiled cx p p2 v"
  unfolding compiled_def by (metis extends_trans)

lemma quiet_logged: "quiet p \<Longrightarrow> \<not> pr_logged p"
  by (simp add: quiet_def)

lemma compiled_bind_load:
  assumes "cx_sound cx" "cx_ok cx p" "column_of (cx_view cx) node = Some c" "cx_type cx c \<noteq> ColString8"
    "qe_bind_column (cx_view cx) (ir_value node) p = (Some b, p1)" "quiet (emit_load caps b p1)"
  shows "compiled cx p (emit_load caps b p1) (read_num_column_value (cx_type cx c) (cx_cell cx c))"
proof -
  note c = column_of_Some [OF assms(3)]
  have plain: "plain_columns (cx_view cx)" using assms(1) by (simp add: cx_sound_def)
  note b = bind_column_ok [OF assms(5,2) plain c(3)]
  have l: "c < length (nt_columns (cx_table cx))" using c(4) by simp
  have "compiled cx p1 (emit_load caps b p1) (read_num_column_value (cx_type cx c) (cx_cell cx c))"
  proof (rule compiled_load [OF quiet_logged [OF assms(6)] b(1,3)])
    show "vm_number (cx_vm cx fp) (bind_first_slot b) (column_type_word (bind_type b)) =
        Some (read_num_column_value (cx_type cx c) (cx_cell cx c))"
      if "slot_binding fp (bind_first_slot b) = Some b" for fp
      using that b(6-8) assms(4) cx_cell_fits(1) [OF assms(1) l] by (simp add: vm_number_def vm_stored_def)
  qed
  then show ?thesis by (rule compiled_after [OF _ b(2,4)])
qed

text \<open>An operand that is a number on both sides of the comparison.\<close>

definition num_operand :: "cql_table \<Rightarrow> ir_node \<Rightarrow> bool" where
  "num_operand t node =
     (if ir_type node = IrColumn then
        (case column_of t node of None \<Rightarrow> False | Some c \<Rightarrow> column_ty (columns t ! c) \<noteq> ColString8)
      else ir_type node \<noteq> IrLiteral)"

lemma compiled_load_value:
  assumes "cx_sound cx" "cx_ok cx p" "num_operand (cx_view cx) node"
    "quiet (qe_compile_load_value (cx_env cx) caps (cx_view cx) node p)"
  obtains v where "qe_row_load_value (cx_env cx) (cx_scope cx) (cx_rows cx) node = L_num v"
    "compiled cx p (qe_compile_load_value (cx_env cx) caps (cx_view cx) node p) v"
proof (cases "ir_type node = IrColumn")
  case True
  then obtain c where c: "column_of (cx_view cx) node = Some c" "cx_type cx c \<noteq> ColString8"
    using assms(3) by (auto simp: num_operand_def split: option.splits)
  obtain bo p1 where b: "qe_bind_column (cx_view cx) (ir_value node) p = (bo, p1)" by fastforce
  show ?thesis
  proof (cases bo)
    case None
    then have "\<not> quiet p1" using b bind_column_None by (auto simp: quiet_def)
    then show ?thesis using assms(4) True b None by (auto simp: qe_compile_load_value_def dest: quiet_emit_const)
  next
    case (Some x)
    have e: "qe_compile_load_value (cx_env cx) caps (cx_view cx) node p = emit_load caps x p1"
      using True b Some by (simp add: qe_compile_load_value_def)
    show ?thesis
      using that [OF cx_load_num [OF assms(1) c]] compiled_bind_load [OF assms(1,2) c b [unfolded Some]] assms(4)
      unfolding e by blast
  qed
next
  case False
  then have e: "qe_compile_load_value (cx_env cx) caps (cx_view cx) node p =
      emit_const caps (f64_from_str8 (cx_env cx) (ir_value node)) p" by (simp add: qe_compile_load_value_def)
  have "qe_row_load_value (cx_env cx) (cx_scope cx) (cx_rows cx) node = L_num (f64_from_str8 (cx_env cx) (ir_value node))"
    using False assms(3) by (simp add: num_operand_def qe_row_load_value_def)
  from that [OF this] show ?thesis
    using compiled_const [OF quiet_logged assms(2)] assms(4) unfolding e by blast
qed

definition comparisons :: "string8 list" where
  "comparisons = [''='', ''=='', ''!='', ''<'', ''>'', ''<='', ''>='']"

lemma f64_true_bool [simp]: "f64_true (f64_bool b) = b"
  by (simp add: f64_true_def f64_bool_def f64_eq_def)

lemma comparison_code:
  assumes "op \<in> set comparisons"
  obtains code where "binary_op code" "emit_comparison caps op p = emit_op caps code p"
    "\<And>a b. f64_true (vm_binary code a b) = compare_numbers op a b"
proof -
  have ci: "\<not> str8_match op ''equals'' match_ci" if "op \<noteq> ''equals''"
    using assms by (auto simp: comparisons_def) (code_simp+)
  show ?thesis
    using assms that [of OpCmpEq] that [of OpCmpNe] that [of OpCmpLt] that [of OpCmpGt] that [of OpCmpLe] that [of OpCmpGe] ci
    by (auto simp: comparisons_def emit_comparison_def qe_opcode_from_comparison_operator_def compare_numbers_def binary_op_def)
qed

lemma compiled_numbers:
  assumes "compiled cx p p1 a" "compiled cx p1 p2 b" "op \<in> set comparisons" "quiet (emit_comparison caps op p2)"
  obtains v where "compiled cx p (emit_comparison caps op p2) v" "f64_true v = compare_numbers op a b"
proof -
  obtain code where code: "binary_op code" "emit_comparison caps op p2 = emit_op caps code p2"
    "\<And>a b. f64_true (vm_binary code a b) = compare_numbers op a b"
    using comparison_code [OF assms(3)] by blast
  have "\<not> pr_logged (emit_op caps code p2)" using assms(4) code(2) by (simp add: quiet_logged)
  then show ?thesis
    using that compiled_binary [OF assms(1,2) _ code(1)] code(2,3) by metis
qed

lemma compiled_generic:
  assumes "cx_sound cx" "cx_ok cx p" "num_operand (cx_view cx) left" "num_operand (cx_view cx) right"
    "op \<in> set comparisons" "quiet (compile_generic (cx_env cx) caps (cx_view cx) op left right p)"
  obtains v where "compiled cx p (compile_generic (cx_env cx) caps (cx_view cx) op left right p) v"
    "f64_true v = compare_loaded op (qe_row_load_value (cx_env cx) (cx_scope cx) (cx_rows cx) left)
       (qe_row_load_value (cx_env cx) (cx_scope cx) (cx_rows cx) right)"
proof -
  let ?load = "qe_compile_load_value (cx_env cx) caps (cx_view cx)"
  have q2: "quiet (?load right (?load left p))" using assms(6) unfolding compile_generic_def by (rule quiet_emit_comparison)
  then have q1: "quiet (?load left p)" by (rule quiet_load_value)
  obtain a where a: "qe_row_load_value (cx_env cx) (cx_scope cx) (cx_rows cx) left = L_num a" "compiled cx p (?load left p) a"
    using compiled_load_value [OF assms(1-3) q1] by blast
  obtain b where b: "qe_row_load_value (cx_env cx) (cx_scope cx) (cx_rows cx) right = L_num b"
      "compiled cx (?load left p) (?load right (?load left p)) b"
    using compiled_load_value [OF assms(1) compiled_ok(1) [OF a(2)] assms(4) q2] by blast
  obtain v where "compiled cx p (compile_generic (cx_env cx) caps (cx_view cx) op left right p) v"
      "f64_true v = compare_numbers op a b"
    using compiled_numbers [OF a(2) b(2) assms(5)] assms(6) unfolding compile_generic_def by blast
  then show ?thesis using that a(1) b(1) by (simp add: compare_loaded_def)
qed

lemma compiled_resolved:
  assumes "cx_sound cx" "cx_ok cx p" "column_of (cx_view cx) left = Some c" "cx_type cx c \<noteq> ColString8"
    "qe_bind_column (cx_view cx) (ir_value left) p = (Some b, p1)" "op \<in> set comparisons"
    "quiet (compile_resolved caps op b w p1)"
  obtains v x where "compiled cx p (compile_resolved caps op b w p1) v" "w = Some x"
    "f64_true v = compare_loaded op (qe_row_load_value (cx_env cx) (cx_scope cx) (cx_rows cx) left) (L_num x)"
proof -
  obtain x where x: "w = Some x" using quiet_resolved [OF assms(7)] by blast
  let ?l = "emit_load caps b p1"
  have e: "compile_resolved caps op b w p1 = emit_comparison caps op (emit_const caps x ?l)"
    by (simp add: compile_resolved_def x)
  have q: "quiet (emit_const caps x ?l)" using quiet_emit_comparison assms(7) unfolding e by blast
  then have ql: "quiet ?l" by (rule quiet_emit_const)
  note a = compiled_bind_load [OF assms(1-5) ql]
  note k = compiled_const [OF quiet_logged [OF q] compiled_ok(1) [OF a]]
  obtain v where "compiled cx p (compile_resolved caps op b w p1) v"
      "f64_true v = compare_numbers op (read_num_column_value (cx_type cx c) (cx_cell cx c)) x"
    using compiled_numbers [OF a k assms(6)] assms(7) unfolding e by blast
  then show ?thesis using that x cx_load_num [OF assms(1,3,4)] by (simp add: compare_loaded_def)
qed


text \<open>What a comparison evaluates to on the CPU; \<open>None\<close> is a literal that cannot be read.\<close>

definition comparison_result :: "scan_ctx \<Rightarrow> string8 \<Rightarrow> ir_node \<Rightarrow> ir_node \<Rightarrow> bool option" where
  "comparison_result cx op left right =
     map_option (compare_loaded op (qe_row_load_value (cx_env cx) (cx_scope cx) (cx_rows cx) left))
       (resolve_right (cx_env cx) (cx_scope cx) (cx_rows cx) left right)"

lemma num_operand_column:
  "num_operand t node \<Longrightarrow> ir_type node = IrColumn \<Longrightarrow> \<exists>c. column_of t node = Some c \<and> column_ty (columns t ! c) \<noteq> ColString8"
  by (auto simp: num_operand_def split: option.splits)

lemma resolve_right_column:
  assumes "column_of (cx_view cx) left = Some c"
  shows "resolve_right env (cx_scope cx) row left right =
    (let col = nt_columns (cx_table cx) ! c in
     if ir_type right = IrLiteral \<and> (column_ty col = ColDate \<or> column_ty col = ColTimestamp) then
       map_option L_num (qe_resolve_date_literal_value env (column_ty col) (ir_value right))
     else if ir_type right = IrLiteral \<and> column_ty col = ColEnum then
       map_option L_num (qe_resolve_enum_literal_value env col (ir_value right))
     else if ir_type right = IrNumeric \<and> column_ty col = ColDecimal then
       map_option L_num (qe_resolve_decimal_literal_value env col (ir_value right))
     else Some (qe_row_load_value env (cx_scope cx) row right))"
  using column_of_Some(1) [OF assms] cx_resolve [OF assms] by (simp add: resolve_right_def Let_def)

lemma resolve_right_other:
  "ir_type left \<noteq> IrColumn \<Longrightarrow> resolve_right env sc row left right = Some (qe_row_load_value env sc row right)"
  by (simp add: resolve_right_def)

lemma bind_loads_quietly:
  assumes "cx_sound cx" "cx_ok cx p" "column_of (cx_view cx) node = Some c" "quiet p1"
    "qe_bind_column (cx_view cx) (ir_value node) p = (bo, p1)"
  obtains b where "bo = Some b" "cx_ok cx p1" "extends p p1" "b \<in> set (pr_bindings p1)" "pr_words p1 = pr_words p"
    "\<not> bind_dict_codes b" "bind_column b = c" "bind_type b = cx_type cx c" "undo_binding p p1 = p"
proof (cases bo)
  case None
  then show ?thesis using assms(4,5) bind_column_None quiet_logged by blast
next
  case (Some b)
  have plain: "plain_columns (cx_view cx)" using assms(1) by (simp add: cx_sound_def)
  note f = bind_column_ok [OF assms(5) [unfolded Some] assms(2) plain column_of_Some(3) [OF assms(3)]]
  show ?thesis using that [OF Some f(1-4,6-7)] f(8) undo_bind_column [OF assms(5) [unfolded Some]] by simp
qed

lemma compiled_decimal:
  assumes "cx_sound cx" "cx_ok cx p" "num_operand (cx_view cx) left" "num_operand (cx_view cx) right"
    "ir_type right \<noteq> IrLiteral" "op \<in> set comparisons"
    "quiet (compile_decimal (cx_env cx) caps (cx_view cx) op left right p)"
  obtains v where "compiled cx p (compile_decimal (cx_env cx) caps (cx_view cx) op left right p) v"
    "comparison_result cx op left right = Some (f64_true v)"
proof -
  note result = that
  let ?gen = "compile_generic (cx_env cx) caps (cx_view cx) op left right"
  let ?dec = "compile_decimal (cx_env cx) caps (cx_view cx) op left right p"
  have generic: thesis if dec: "?dec = ?gen p1" and p1: "cx_ok cx p1" "extends p p1" "pr_words p1 = pr_words p"
    and r: "resolve_right (cx_env cx) (cx_scope cx) (cx_rows cx) left right =
      Some (qe_row_load_value (cx_env cx) (cx_scope cx) (cx_rows cx) right)" for p1
  proof -
    obtain v where v: "compiled cx p1 (?gen p1) v"
      "f64_true v = compare_loaded op (qe_row_load_value (cx_env cx) (cx_scope cx) (cx_rows cx) left)
         (qe_row_load_value (cx_env cx) (cx_scope cx) (cx_rows cx) right)"
      using compiled_generic [OF assms(1) p1(1) assms(3,4,6)] assms(7) unfolding dec by blast
    show thesis using result [of v] compiled_after [OF v(1) p1(2,3)] v(2) by (simp add: dec comparison_result_def r)
  qed
  show ?thesis
  proof (cases "ir_type left = IrColumn \<and> ir_type right = IrNumeric")
    case False
    have "resolve_right (cx_env cx) (cx_scope cx) (cx_rows cx) left right =
        Some (qe_row_load_value (cx_env cx) (cx_scope cx) (cx_rows cx) right)"
    proof (cases "ir_type left = IrColumn")
      case True
      then obtain c where "column_of (cx_view cx) left = Some c" using num_operand_column [OF assms(3)] by blast
      from resolve_right_column [OF this] show ?thesis using False True assms(5) by (simp add: Let_def)
    qed (simp add: resolve_right_other)
    then show ?thesis using False assms(2) by (intro generic [of p]) (auto simp: compile_decimal_def)
  next
    case True
    then obtain c where c: "column_of (cx_view cx) left = Some c" "cx_type cx c \<noteq> ColString8"
      using num_operand_column [OF assms(3)] by auto
    obtain bo p1 where b: "qe_bind_column (cx_view cx) (ir_value left) p = (bo, p1)" by fastforce
    have "quiet p1" using assms(7) True b
      by (auto simp: compile_decimal_def split: option.splits if_splits dest: quiet_resolved quiet_generic)
    then obtain x where x: "bo = Some x" "cx_ok cx p1" "extends p p1" "pr_words p1 = pr_words p" "bind_column x = c"
        "bind_type x = cx_type cx c"
      using bind_loads_quietly [OF assms(1,2) c(1) _ b] by metis
    show ?thesis
    proof (cases "cx_type cx c = ColDecimal")
      case False
      then show ?thesis using True b x resolve_right_column [OF c(1)]
        by (intro generic [of p1]) (simp_all add: compile_decimal_def Let_def)
    next
      case dec: True
      let ?w = "qe_resolve_decimal_literal_value (cx_env cx) (nt_columns (cx_table cx) ! c) (ir_value right)"
      have e: "?dec = compile_resolved caps op x ?w p1" using True b x dec by (simp add: compile_decimal_def)
      obtain v y where "compiled cx p ?dec v" "?w = Some y"
          "f64_true v = compare_loaded op (qe_row_load_value (cx_env cx) (cx_scope cx) (cx_rows cx) left) (L_num y)"
        using compiled_resolved [OF assms(1,2) c b [unfolded x(1)] assms(6)] assms(7) unfolding e by blast
      then show ?thesis using that resolve_right_column [OF c(1)] True dec by (simp add: comparison_result_def Let_def)
    qed
  qed
qed

section \<open>Strings\<close>

lemma qe_str8_contains_iff: "qe_str8_contains s n \<longleftrightarrow> (\<exists>w \<le> length s. take (length n) (drop w s) = n)"
proof (induction s n rule: qe_str8_contains.induct)
  case (2 c s n)
  have "(\<exists>w \<le> length (c # s). take (length n) (drop w (c # s)) = n) \<longleftrightarrow>
      take (length n) (c # s) = n \<or> (\<exists>w \<le> length s. take (length n) (drop w s) = n)"
    by (metis (no_types, lifting) Suc_le_mono drop0 drop_Suc_Cons le0 length_Cons not0_implies_Suc)
  then show ?case using 2 by simp
qed auto

text \<open>The two searches of a substring agree on strings that are not insanely long.\<close>

lemma str_contains_agrees:
  assumes "length s \<le> MAX_SANE_STRING_LEN"
  shows "str_contains s n = qe_str8_contains s n"
proof -
  have bound: "w < length s - length n + 1 \<and> length n \<le> length s"
    if "take (length n) (drop w s) = n" "n \<noteq> []" for w
  proof -
    have "length n \<le> length s - w" using that(1) by (metis length_drop length_take min.cobounded1)
    moreover have "0 < length n" using that(2) by simp
    ultimately show ?thesis by linarith
  qed
  have windows: "list_ex (\<lambda>w. take (length n) (drop w s) = n) [0..<length s - length n + 1] \<longleftrightarrow>
      (\<exists>w < length s - length n + 1. take (length n) (drop w s) = n)"
    by (auto simp: list_ex_iff simp del: upt_Suc)
  show ?thesis
  proof (cases "n = []")
    case False
    have "(\<exists>w \<le> length s. take (length n) (drop w s) = n) \<longleftrightarrow>
        \<not> length n > length s \<and> (\<exists>w < length s - length n + 1. take (length n) (drop w s) = n)"
    proof
      assume "\<exists>w \<le> length s. take (length n) (drop w s) = n"
      then obtain w where w: "take (length n) (drop w s) = n" by blast
      from bound [OF w False] w show "\<not> length n > length s \<and> (\<exists>w < length s - length n + 1. take (length n) (drop w s) = n)"
        by auto
    next
      assume "\<not> length n > length s \<and> (\<exists>w < length s - length n + 1. take (length n) (drop w s) = n)"
      then obtain w where w: "w < length s - length n + 1" "take (length n) (drop w s) = n" by blast
      then have "w \<le> length s" by linarith
      with w(2) show "\<exists>w \<le> length s. take (length n) (drop w s) = n" by blast
    qed
    then show ?thesis using False assms windows unfolding str_contains_def qe_str8_contains_iff by simp
  qed (auto simp: str_contains_def qe_str8_contains_iff)
qed

lemma string_opcode_op: "string_opcode op = Some code \<Longrightarrow> string_op code"
  by (auto simp: string_opcode_def string_op_def split: if_splits)

lemma string_opcode_value:
  assumes "string_opcode op = Some code" "length s \<le> MAX_SANE_STRING_LEN"
  shows "f64_true (vm_on_string env code s literal) = compare_strings op s literal"
  using assms(1) str_contains_agrees [OF assms(2), of literal]
  by (auto simp: string_opcode_def compare_strings_def Let_def split: if_splits)


lemma compiled_raw:
  assumes "cx_sound cx" "cx_ok cx p" "column_of (cx_view cx) left = Some c" "cx_type cx c = ColString8"
    "qe_bind_column (cx_view cx) (ir_value left) p = (Some b, p1)" "string_op code" "cx_cell cx c = V_str s"
    "quiet (compile_string_raw caps code b literal p1)"
  shows "compiled cx p (compile_string_raw caps code b literal p1) (vm_on_string (cx_env cx) code s literal)"
proof -
  have "quiet p1" using assms(8) by (rule quiet_string_raw)
  then obtain b': "cx_ok cx p1" "extends p p1" "b \<in> set (pr_bindings p1)" "pr_words p1 = pr_words p"
      "\<not> bind_dict_codes b" "bind_column b = c" "bind_type b = cx_type cx c"
    using bind_loads_quietly [OF assms(1-3) _ assms(5)] by blast
  obtain ref p2 where ref: "qe_add_string_const caps literal p1 = (ref, p2)" by fastforce
  have e: "compile_string_raw caps code b literal p1 = emit_string_op caps code (bind_first_slot b) ref p2"
    by (simp add: compile_string_raw_def ref)
  have "vm_string (cx_vm cx fp) (bind_first_slot b) = Some s" if "slot_binding fp (bind_first_slot b) = Some b" for fp
    using that b' assms(4,7) column_of_Some(4) [OF assms(3)] cx_cell_fits(1) [OF assms(1), of c]
    by (simp add: vm_string_def vm_string_cell_def vm_stored_def)
  from compiled_string_op [OF _ ref b'(1,3) assms(6) this] show ?thesis
    using assms(8) compiled_after [OF _ b'(2,4)] unfolding e by (simp add: quiet_logged)
qed

text \<open>Comparing codes of a dictionary compares the strings.\<close>

lemma compiled_codes:
  assumes "cx_sound cx" "cx_ok cx p" "column_of (cx_view cx) left = Some c" "cx_type cx c = ColString8"
    "cx_dicts cx c = Some dict" "cx_cell cx c = V_str s" "first_index (\<lambda>x. str8_match x literal match_exact) dict = Some k"
    "qe_bind_column_dict_codes (cx_view cx) (cx_dicts cx) (ir_value left) p = (Some db, p2)"
    "quiet (emit_op caps code (emit_const caps (f64_of_int (cx_env cx) (int k)) (emit_load caps db p2)))"
    "code = OpCmpEq \<or> code = OpCmpNe"
  obtains v where "compiled cx p (emit_op caps code (emit_const caps (f64_of_int (cx_env cx) (int k)) (emit_load caps db p2))) v"
    "f64_true v = ((s = literal) = (code = OpCmpEq))"
proof -
  note c = column_of_Some [OF assms(3)]
  have plain: "plain_columns (cx_view cx)" using assms(1) by (simp add: cx_sound_def)
  have ty: "column_ty (columns (cx_view cx) ! c) = ColString8" using assms(4) by simp
  note db = bind_dict_ok [OF assms(8,2) plain c(3) ty]
  have l: "c < length (nt_columns (cx_table cx))" using c(4) by simp
  have d: "distinct dict" "s \<in> set dict" "length dict \<le> 2 ^ 32"
    using cx_string [OF assms(1) l assms(4)] assms(5,6) by (metis stored.inject(3))+
  let ?f = "first_index (\<lambda>x. x = s) dict"
  have "?f \<noteq> None" using d(2) first_index_None [of "\<lambda>x. x = s" dict] by auto
  then obtain i where i: "?f = Some i" by blast
  have i': "i < length dict" "dict ! i = s" using first_index_Some [OF i] by simp_all
  have k: "k < length dict" "dict ! k = literal" using first_index_Some [OF assms(7)] by simp_all
  have same: "i = k \<longleftrightarrow> s = literal" using i' k d(1) by (metis nth_eq_iff_index_eq)
  have small: "\<bar>int k\<bar> < 2 ^ 53" using k(1) d(3) by simp
  have env: "f64_of_int (cx_env cx) (int k) = F64_num (of_nat k)"
    using assms(1) round_f64_small [OF small] by (simp add: cx_sound_def ieee_env_def f64_of_def)
  have qc: "quiet (emit_const caps (f64_of_int (cx_env cx) (int k)) (emit_load caps db p2))"
    using assms(9) by (rule quiet_emit_op)
  then have ql: "quiet (emit_load caps db p2)" by (rule quiet_emit_const)
  have "vm_number (cx_vm cx fp) (bind_first_slot db) (column_type_word (bind_type db)) = Some (F64_num (of_nat i))"
    if "slot_binding fp (bind_first_slot db) = Some db" for fp
    using that db assms(5,6) cx_cell_fits(1) [OF assms(1) l] i
    by (simp add: vm_number_def vm_string_cell_def vm_stored_def)
  from compiled_load [OF quiet_logged [OF ql] _ _ this] db
  have a: "compiled cx p2 (emit_load caps db p2) (F64_num (of_nat i))" by blast
  note a' = compiled_after [OF a, of p]
  have a': "compiled cx p (emit_load caps db p2) (F64_num (of_nat i))" using a' db by blast
  note b = compiled_const [OF quiet_logged [OF qc] compiled_ok(1) [OF a']]
  have code: "binary_op code" using assms(10) by (auto simp: binary_op_def)
  show ?thesis
    using that [OF compiled_binary [OF a' b quiet_logged [OF assms(9)] code]] assms(10) same env
    by (auto simp: f64_eq_def)
qed

lemma compiled_string_comparison:
  assumes "cx_sound cx" "cx_ok cx p" "column_of (cx_view cx) left = Some c" "cx_type cx c = ColString8"
    "ir_type right = IrLiteral" "qe_bind_column (cx_view cx) (ir_value left) p = (Some b, p1)"
    "quiet (compile_string_comparison (cx_env cx) caps (cx_dicts cx) (cx_view cx) op left (ir_value right) b p p1)"
  obtains v where
    "compiled cx p (compile_string_comparison (cx_env cx) caps (cx_dicts cx) (cx_view cx) op left (ir_value right) b p p1) v"
    "comparison_result cx op left right = Some (f64_true v)"
proof -
  note result = that
  let ?lit = "ir_value right"
  let ?comp = "compile_string_comparison (cx_env cx) caps (cx_dicts cx) (cx_view cx) op left ?lit b p p1"
  have l: "c < length (nt_columns (cx_table cx))" using column_of_Some(4) [OF assms(3)] by simp
  obtain s where s: "cx_cell cx c = V_str s" "length s \<le> MAX_SANE_STRING_LEN"
    and d: "\<And>d. cx_dicts cx c = Some d \<Longrightarrow> distinct d \<and> s \<in> set d \<and> length d \<le> 2 ^ 32"
    using cx_string [OF assms(1) l assms(4)] by blast
  have res: "comparison_result cx op left right = Some (compare_strings op s ?lit)"
    using resolve_right_column [OF assms(3)] cx_load_string [OF assms(1,3,4) s(1)] assms(4,5)
    by (simp add: comparison_result_def Let_def compare_loaded_def qe_row_load_value_def)
  obtain code where code: "string_opcode op = Some code" "quiet p1"
    using quiet_string_comparison [OF assms(7)] by blast
  obtain b': "bind_column b = c" "undo_binding p p1 = p"
    using bind_loads_quietly [OF assms(1-3) code(2) assms(6)] by blast
  have raw: thesis if "?comp = compile_string_raw caps code b ?lit p1"
  proof -
    have v: "compiled cx p ?comp (vm_on_string (cx_env cx) code s ?lit)"
      using compiled_raw [OF assms(1-4,6) string_opcode_op [OF code(1)] s(1), of caps ?lit] assms(7) unfolding that by blast
    show thesis using result [OF v] string_opcode_value [OF code(1) s(2), of "cx_env cx" ?lit] res by simp
  qed
  show ?thesis
  proof (cases "(code = OpStrEq \<or> code = OpStrNe) \<and> cx_dicts cx c \<noteq> None")
    case False
    then have "?comp = compile_string_raw caps code b ?lit p1"
      using code(1) b' by (auto simp: compile_string_comparison_def split: option.splits)
    then show ?thesis by (rule raw)
  next
    case True
    then obtain dict where dict: "cx_dicts cx c = Some dict" by blast
    have val: "compare_strings op s ?lit = ((s = ?lit) = (code = OpStrEq))"
      using string_opcode_value [OF code(1) s(2), of "cx_env cx" ?lit] True by auto
    show ?thesis
    proof (cases "first_index (\<lambda>x. str8_match x ?lit match_exact) dict")
      case None
      let ?op = "if code = OpStrNe then OpPushTrue else OpPushFalse"
      have e: "?comp = emit_op caps ?op p"
        using True code(1) dict b' None by (auto simp: compile_string_comparison_def)
      have "?lit \<notin> set dict" using None first_index_None [of "\<lambda>x. str8_match x ?lit match_exact" dict] by auto
      then have ne: "s \<noteq> ?lit" using d [OF dict] by blast
      have "compiled cx p (emit_op caps ?op p) (f64_bool (?op = OpPushTrue))"
        using compiled_push_bool [of caps ?op p cx] assms(2,7) quiet_logged unfolding e by auto
      then show ?thesis using that [of "f64_bool (?op = OpPushTrue)"] True ne res val unfolding e by auto
    next
      case (Some k)
      define cmp where "cmp = (if code = OpStrNe then OpCmpNe else OpCmpEq)"
      then have cmp: "cmp = OpCmpEq \<or> cmp = OpCmpNe" by simp
      obtain bo p2 where b2: "qe_bind_column_dict_codes (cx_view cx) (cx_dicts cx) (ir_value left) p = (bo, p2)" by fastforce
      have q2: "quiet p2"
        using assms(7) True code(1) dict b' Some b2
        by (auto simp: compile_string_comparison_def split: option.splits prod.splits
            dest!: quiet_emit_op quiet_emit_const quiet_emit_load quiet_string_raw) (metis quiet_bind snd_conv)+
      then obtain db where db: "bo = Some db" using bind_dict_None b2 quiet_logged by (cases bo) blast+
      have e: "?comp = emit_op caps cmp (emit_const caps (f64_of_int (cx_env cx) (int k)) (emit_load caps db p2))"
        using True code(1) dict b' Some b2 db by (auto simp: compile_string_comparison_def cmp_def)
      obtain v where "compiled cx p ?comp v" "f64_true v = ((s = ?lit) = (cmp = OpCmpEq))"
        using compiled_codes [OF assms(1-4) dict s(1) Some b2 [unfolded db] assms(7) [unfolded e] cmp] unfolding e by metis
      then show ?thesis using that [of v] True res val by (auto simp: cmp_def)
    qed
  qed
qed


section \<open>Conditions\<close>

text \<open>A comparison that both sides read the same way: a string, date, timestamp or enum column with a
  literal, or two operands that are numbers. String columns know \<open>contains\<close>.\<close>

definition comparison_fits :: "cql_table \<Rightarrow> string8 \<Rightarrow> ir_node \<Rightarrow> ir_node \<Rightarrow> bool" where
  "comparison_fits t op left right \<longleftrightarrow>
     (if ir_type right = IrLiteral then
        (case column_of t left of
           None \<Rightarrow> False
         | Some c \<Rightarrow>
             let ty = column_ty (columns t ! c) in
             ty = ColString8 \<or> (ty = ColDate \<or> ty = ColTimestamp \<or> ty = ColEnum) \<and> op \<in> set comparisons)
      else num_operand t left \<and> num_operand t right \<and> op \<in> set comparisons)"

lemma compiled_comparison:
  assumes "cx_sound cx" "cx_ok cx p" "comparison_fits (cx_view cx) op left right"
    "quiet (compile_comparison (cx_env cx) caps (cx_dicts cx) (cx_view cx) op left right p)"
  obtains v where "compiled cx p (compile_comparison (cx_env cx) caps (cx_dicts cx) (cx_view cx) op left right p) v"
    "comparison_result cx op left right = Some (f64_true v)"
proof (cases "ir_type right = IrLiteral")
  case False
  then have f: "num_operand (cx_view cx) left" "num_operand (cx_view cx) right" "op \<in> set comparisons"
    using assms(3) by (simp_all add: comparison_fits_def)
  have e: "compile_comparison (cx_env cx) caps (cx_dicts cx) (cx_view cx) op left right p =
      compile_decimal (cx_env cx) caps (cx_view cx) op left right p"
    using False by (simp add: compile_comparison_def)
  show ?thesis using compiled_decimal [OF assms(1,2) f(1,2) False f(3)] assms(4) that unfolding e by blast
next
  case True
  then obtain c where c: "column_of (cx_view cx) left = Some c"
    and ty: "cx_type cx c = ColString8 \<or>
      (cx_type cx c = ColDate \<or> cx_type cx c = ColTimestamp \<or> cx_type cx c = ColEnum) \<and> op \<in> set comparisons"
    using assms(3) by (auto simp: comparison_fits_def Let_def split: option.splits)
  have col: "ir_type left = IrColumn" using column_of_Some(1) [OF c] .
  let ?comp = "compile_comparison (cx_env cx) caps (cx_dicts cx) (cx_view cx) op left right p"
  obtain bo p1 where b: "qe_bind_column (cx_view cx) (ir_value left) p = (bo, p1)" by fastforce
  have "quiet p1" using assms(4) True col b
    by (auto simp: compile_comparison_def split: option.splits if_splits
        dest: quiet_resolved quiet_decimal quiet_string_comparison)
  then obtain x where x: "bo = Some x" "bind_column x = c" "bind_type x = cx_type cx c"
    using bind_loads_quietly [OF assms(1,2) c _ b] by metis
  show ?thesis
  proof (cases "cx_type cx c = ColString8")
    case str: True
    have e: "?comp = compile_string_comparison (cx_env cx) caps (cx_dicts cx) (cx_view cx) op left (ir_value right) x p p1"
      using True col b x str by (simp add: compile_comparison_def)
    show ?thesis
      using compiled_string_comparison [OF assms(1,2) c str True b [unfolded x(1)]] assms(4) that unfolding e by blast
  next
    case False
    define w where "w = (if cx_type cx c = ColEnum
      then qe_resolve_enum_literal_value (cx_env cx) (nt_columns (cx_table cx) ! c) (ir_value right)
      else qe_resolve_date_literal_value (cx_env cx) (cx_type cx c) (ir_value right))"
    have op: "op \<in> set comparisons" using ty False by blast
    have e: "?comp = compile_resolved caps op x w p1"
      using True col b x ty False by (auto simp: compile_comparison_def w_def)
    have r: "resolve_right (cx_env cx) (cx_scope cx) (cx_rows cx) left right = map_option L_num w"
      using resolve_right_column [OF c] True ty False by (auto simp: Let_def w_def)
    obtain v y where v: "compiled cx p ?comp v" "w = Some y"
        "f64_true v = compare_loaded op (qe_row_load_value (cx_env cx) (cx_scope cx) (cx_rows cx) left) (L_num y)"
      using compiled_resolved [OF assms(1,2) c False b [unfolded x(1)] op assms(4) [unfolded e]] unfolding e by metis
    show ?thesis using that [OF v(1)] v(2,3) r by (simp add: comparison_result_def)
  qed
qed

subsection \<open>Lists of values\<close>

text \<open>The items are what the column takes: literals for strings, dates and enums, numbers for a decimal,
  anything but a column for the other numbers.\<close>

definition item_fits :: "cql_table \<Rightarrow> nat \<Rightarrow> ir_node \<Rightarrow> bool" where
  "item_fits t c item \<longleftrightarrow>
     (let ty = column_ty (columns t ! c) in
      if ty = ColString8 \<or> ty = ColDate \<or> ty = ColTimestamp \<or> ty = ColEnum then ir_type item = IrLiteral
      else if ty = ColDecimal then ir_type item = IrNumeric
      else ir_type item \<noteq> IrColumn \<and> ir_type item \<noteq> IrLiteral)"

definition bare_node :: "ir_node \<Rightarrow> ir_node" where
  "bare_node node = IR_Node (ir_type node) (ir_value node) []"

lemma bare_node_simps [simp]: "ir_type (bare_node n) = ir_type n" "ir_value (bare_node n) = ir_value n"
  by (simp_all add: bare_node_def)

lemma column_of_bare [simp]: "column_of t (bare_node n) = column_of t n"
  by (simp add: column_of_def)

lemma item_comparison_fits:
  "column_of t left = Some c \<Longrightarrow> item_fits t c item \<Longrightarrow> op = ''='' \<or> op = ''!='' \<Longrightarrow>
   comparison_fits t op (bare_node left) (bare_node item)"
  using column_of_Some(1) [of t left c]
  by (auto simp: comparison_fits_def item_fits_def num_operand_def comparisons_def Let_def split: if_splits)

definition item_true :: "scan_ctx \<Rightarrow> ir_node \<Rightarrow> ir_node \<Rightarrow> bool" where
  "item_true cx left item \<longleftrightarrow>
     (case qe_in_item_resolve (cx_env cx) (qe_in_left_column (cx_scope cx) left) item of
        None \<Rightarrow> False
      | Some w \<Rightarrow> item_matches (qe_row_load_value (cx_env cx) (cx_scope cx) (cx_rows cx) left) w)"

lemma load_bare [simp]: "qe_row_load_value env sc row (bare_node n) = qe_row_load_value env sc row n"
  by (simp add: qe_row_load_value_def)


lemma compare_loaded_eq:
  "is_L_str l = is_L_str r \<Longrightarrow> r \<noteq> L_null \<Longrightarrow> l \<noteq> L_null \<Longrightarrow>
   compare_loaded ''='' l r = item_matches l r \<and> compare_loaded ''!='' l r = (\<not> item_matches l r)"
proof -
  have "\<not> str8_match ''='' ''contains'' match_ci" "\<not> str8_match ''!='' ''contains'' match_ci" by code_simp+
  then show "is_L_str l = is_L_str r \<Longrightarrow> r \<noteq> L_null \<Longrightarrow> l \<noteq> L_null \<Longrightarrow> ?thesis"
    by (cases l; cases r) (simp_all add: compare_loaded_def item_matches_def compare_strings_def compare_numbers_def Let_def)
qed

text \<open>An item is resolved like the right side of a comparison.\<close>

lemma item_resolved:
  assumes "cx_sound cx" "column_of (cx_view cx) left = Some c" "item_fits (cx_view cx) c item"
  shows "resolve_right (cx_env cx) (cx_scope cx) (cx_rows cx) (bare_node left) (bare_node item) =
      qe_in_item_resolve (cx_env cx) (qe_in_left_column (cx_scope cx) left) item"
    "qe_in_item_resolve (cx_env cx) (qe_in_left_column (cx_scope cx) left) item = Some w \<Longrightarrow>
      is_L_str w = is_L_str (qe_row_load_value (cx_env cx) (cx_scope cx) (cx_rows cx) left) \<and> w \<noteq> L_null \<and>
      qe_row_load_value (cx_env cx) (cx_scope cx) (cx_rows cx) left \<noteq> L_null"
proof -
  have l: "c < length (nt_columns (cx_table cx))" using column_of_Some(4) [OF assms(2)] by simp
  have left: "qe_in_left_column (cx_scope cx) left = Some (nt_columns (cx_table cx) ! c)"
    using column_of_Some(1) [OF assms(2)] cx_resolve [OF assms(2)] by (simp add: qe_in_left_column_def)
  have b: "column_of (cx_view cx) (bare_node left) = Some c" using assms(2) by simp
  have load: "qe_row_load_value (cx_env cx) (cx_scope cx) (cx_rows cx) item =
      (if ir_type item = IrLiteral then L_str (ir_value item) else L_num (f64_from_str8 (cx_env cx) (ir_value item)))"
    if "ir_type item \<noteq> IrColumn" using that by (simp add: qe_row_load_value_def)
  show "resolve_right (cx_env cx) (cx_scope cx) (cx_rows cx) (bare_node left) (bare_node item) =
      qe_in_item_resolve (cx_env cx) (qe_in_left_column (cx_scope cx) left) item"
    unfolding resolve_right_column [OF b] left using assms(3) load
    by (auto simp: Let_def qe_in_item_resolve_def item_fits_def split: if_splits)
  assume w: "qe_in_item_resolve (cx_env cx) (qe_in_left_column (cx_scope cx) left) item = Some w"
  show "is_L_str w = is_L_str (qe_row_load_value (cx_env cx) (cx_scope cx) (cx_rows cx) left) \<and> w \<noteq> L_null \<and>
      qe_row_load_value (cx_env cx) (cx_scope cx) (cx_rows cx) left \<noteq> L_null"
  proof (cases "cx_type cx c = ColString8")
    case True
    obtain s where "cx_cell cx c = V_str s" using cx_string [OF assms(1) l True] by blast
    then show ?thesis using w cx_load_string [OF assms(1,2) True] True unfolding left
      by (auto simp: qe_in_item_resolve_def)
  next
    case False
    then show ?thesis using w cx_load_num [OF assms(1,2) False] unfolding left
      by (auto simp: qe_in_item_resolve_def Let_def split: if_splits)
  qed
qed

lemma compiled_item:
  assumes "cx_sound cx" "cx_ok cx p" "column_of (cx_view cx) left = Some c" "item_fits (cx_view cx) c item"
    "quiet (compile_comparison (cx_env cx) caps (cx_dicts cx) (cx_view cx) (if is_not then ''!='' else ''='')
       (bare_node left) (bare_node item) p)"
  obtains v where "compiled cx p (compile_comparison (cx_env cx) caps (cx_dicts cx) (cx_view cx) (if is_not then ''!='' else ''='')
      (bare_node left) (bare_node item) p) v" "f64_true v = (item_true cx left item \<noteq> is_not)"
proof -
  have fits: "comparison_fits (cx_view cx) (if is_not then ''!='' else ''='') (bare_node left) (bare_node item)"
    using item_comparison_fits [OF assms(3,4)] by simp
  obtain v where v: "compiled cx p (compile_comparison (cx_env cx) caps (cx_dicts cx) (cx_view cx)
        (if is_not then ''!='' else ''='') (bare_node left) (bare_node item) p) v"
      "comparison_result cx (if is_not then ''!='' else ''='') (bare_node left) (bare_node item) = Some (f64_true v)"
    using compiled_comparison [OF assms(1,2) fits assms(5)] by metis
  obtain w where w: "qe_in_item_resolve (cx_env cx) (qe_in_left_column (cx_scope cx) left) item = Some w"
      "compare_loaded (if is_not then ''!='' else ''='') (qe_row_load_value (cx_env cx) (cx_scope cx) (cx_rows cx) left) w =
        f64_true v"
    using v(2) item_resolved(1) [OF assms(1,3,4)] by (auto simp: comparison_result_def)
  have "f64_true v = (item_true cx left item \<noteq> is_not)"
    using item_resolved(2) [OF assms(1,3,4) w(1)] w compare_loaded_eq
    by (auto simp: item_true_def split: if_splits)
  from that [OF v(1) this] show ?thesis .
qed

text \<open>The rest of the list is folded onto the value of the items before.\<close>

lemma compiled_items:
  assumes "cx_sound cx" "column_of (cx_view cx) left = Some c" "\<forall>item \<in> set items. item_fits (cx_view cx) c item"
    "compiled cx p p1 a" "quiet (compile_items (cx_env cx) caps (cx_dicts cx) (cx_view cx) is_not left False items p1)"
  shows "\<exists>v. compiled cx p (compile_items (cx_env cx) caps (cx_dicts cx) (cx_view cx) is_not left False items p1) v \<and>
    f64_true v = (if is_not then f64_true a \<and> (\<forall>item \<in> set items. \<not> item_true cx left item)
                  else f64_true a \<or> (\<exists>item \<in> set items. item_true cx left item))"
  using assms(3-)
proof (induction items arbitrary: p1 a)
  case (Cons item items)
  let ?op = "if is_not then ''!='' else ''=''" and ?code = "if is_not then OpAnd else OpOr"
  let ?p2 = "compile_comparison (cx_env cx) caps (cx_dicts cx) (cx_view cx) ?op (bare_node left) (bare_node item) p1"
  have e: "compile_items (cx_env cx) caps (cx_dicts cx) (cx_view cx) is_not left False (item # items) p1 =
      compile_items (cx_env cx) caps (cx_dicts cx) (cx_view cx) is_not left False items (emit_op caps ?code ?p2)"
    by (simp add: Let_def bare_node_def)
  have q: "quiet (emit_op caps ?code ?p2)" using Cons.prems(3) quiet_items unfolding e by blast
  then have q2: "quiet ?p2" by (rule quiet_emit_op)
  have fits: "item_fits (cx_view cx) c item" using Cons.prems(1) by simp
  obtain b where b: "compiled cx p1 ?p2 b" "f64_true b = (item_true cx left item \<noteq> is_not)"
    using compiled_item [OF assms(1) compiled_ok(1) [OF Cons.prems(2)] assms(2) fits q2] by metis
  have "binary_op ?code" by (simp add: binary_op_def)
  note step = compiled_binary [OF Cons.prems(2) b(1) quiet_logged [OF q] this]
  have items: "\<forall>item \<in> set items. item_fits (cx_view cx) c item" using Cons.prems(1) by simp
  have q3: "quiet (compile_items (cx_env cx) caps (cx_dicts cx) (cx_view cx) is_not left False items (emit_op caps ?code ?p2))"
    using Cons.prems(3) unfolding e .
  from Cons.IH [OF items step q3] show ?case
    unfolding e using b(2) by (cases is_not) auto
qed auto


subsection \<open>Leaves and trees\<close>

definition leaf_fits :: "cql_table \<Rightarrow> string8 \<Rightarrow> ir_node list \<Rightarrow> bool" where
  "leaf_fits t op args \<longleftrightarrow>
     (case args of
        [] \<Rightarrow> False
      | left # rest \<Rightarrow>
          if is_op op ''is null'' \<or> is_op op ''is not null'' then column_of t left \<noteq> None
          else
            (case rest of
               [] \<Rightarrow> False
             | right # _ \<Rightarrow>
                 if is_op op ''in'' \<or> is_op op ''not in'' then
                   ir_type right = IrInList \<and>
                   (case column_of t left of None \<Rightarrow> False | Some c \<Rightarrow> list_all (item_fits t c) (ir_children right))
                 else qe_ir_is_fuzzy_call left = None \<and> comparison_fits t op left right))"

fun gpu_ok :: "cql_table \<Rightarrow> ir_node \<Rightarrow> bool" where
  "gpu_ok t (IR_Node ty op args) \<longleftrightarrow>
     (if ty \<noteq> IrOperator then num_operand t (IR_Node ty op args)
      else if is_op op ''and'' \<or> is_op op ''or'' then
        (case args of l # r # _ \<Rightarrow> gpu_ok t l \<and> gpu_ok t r | _ \<Rightarrow> False)
      else leaf_fits t op args)"

text \<open>What holds of a program that computes \<open>b\<close> for the row.\<close>

abbreviation decides :: "scan_ctx \<Rightarrow> qe_program \<Rightarrow> qe_program \<Rightarrow> bool \<Rightarrow> bool" where
  "decides cx p p' b \<equiv> \<exists>v. compiled cx p p' v \<and> f64_true v = b"

lemma column_not_null:
  "cx_sound cx \<Longrightarrow> column_of (cx_view cx) node = Some c \<Longrightarrow> qe_row_load_value env (cx_scope cx) (cx_rows cx) node \<noteq> L_null"
proof -
  assume cx: "cx_sound cx" and c: "column_of (cx_view cx) node = Some c"
  have l: "c < length (nt_columns (cx_table cx))" using column_of_Some(4) [OF c] by simp
  show ?thesis using cx_load [OF cx c, of env] cx_cell_fits(2) [OF cx l]
    by (cases "cx_cell cx c") (auto simp: cell_value_def split: if_splits)
qed

lemma compiled_in:
  assumes "cx_sound cx" "cx_ok cx p" "column_of (cx_view cx) left = Some c" "ir_type right = IrInList"
    "list_all (item_fits (cx_view cx) c) (ir_children right)"
    "quiet (compile_in (cx_env cx) caps (cx_dicts cx) (cx_view cx) is_not (left # right # rest) p)"
  shows "decides cx p (compile_in (cx_env cx) caps (cx_dicts cx) (cx_view cx) is_not (left # right # rest) p)
    ((\<exists>item \<in> set (ir_children right). item_true cx left item) \<noteq> is_not)"
proof (cases "ir_children right")
  case Nil
  let ?op = "if is_not then OpPushTrue else OpPushFalse"
  have e: "compile_in (cx_env cx) caps (cx_dicts cx) (cx_view cx) is_not (left # right # rest) p = emit_op caps ?op p"
    using assms(4) Nil by (simp add: compile_in_def)
  show ?thesis
    using compiled_push_bool [of caps ?op p cx] assms(2,6) quiet_logged unfolding e Nil
    by (intro exI [of _ "f64_bool (?op = OpPushTrue)"]) auto
next
  case (Cons item items)
  let ?op = "if is_not then ''!='' else ''=''"
  let ?p1 = "compile_comparison (cx_env cx) caps (cx_dicts cx) (cx_view cx) ?op (bare_node left) (bare_node item) p"
  have "compile_in (cx_env cx) caps (cx_dicts cx) (cx_view cx) is_not (left # right # rest) p =
      compile_items (cx_env cx) caps (cx_dicts cx) (cx_view cx) is_not left True (ir_children right) p"
    using assms(4,6) Cons by (auto simp: compile_in_def dest!: quiet_emit_op)
  then have e: "compile_in (cx_env cx) caps (cx_dicts cx) (cx_view cx) is_not (left # right # rest) p =
      compile_items (cx_env cx) caps (cx_dicts cx) (cx_view cx) is_not left False items ?p1"
    by (simp add: Cons Let_def bare_node_def)
  have q: "quiet ?p1" using assms(6) quiet_items unfolding e by blast
  have fits: "item_fits (cx_view cx) c item" "\<forall>item \<in> set items. item_fits (cx_view cx) c item"
    using assms(5) by (simp_all add: Cons list_all_iff)
  obtain a where a: "compiled cx p ?p1 a" "f64_true a = (item_true cx left item \<noteq> is_not)"
    using compiled_item [OF assms(1-3) fits(1) q] by metis
  from compiled_items [OF assms(1,3) fits(2) a(1) assms(6) [unfolded e]] show ?thesis
    unfolding e Cons using a(2) by (cases is_not) auto
qed

lemma compiled_leaf:
  assumes "cx_sound cx" "cx_ok cx p" "leaf_fits (cx_view cx) op args"
    "quiet (compile_leaf (cx_env cx) caps (cx_dicts cx) (cx_view cx) op args p)"
  shows "decides cx p (compile_leaf (cx_env cx) caps (cx_dicts cx) (cx_view cx) op args p)
    (eval_leaf (cx_env cx) (cx_scope cx) (cx_rows cx) op args)"
proof -
  obtain left rest where args: "args = left # rest" using assms(3) by (cases args) (simp_all add: leaf_fits_def)
  let ?leaf = "compile_leaf (cx_env cx) caps (cx_dicts cx) (cx_view cx) op args p"
  consider (null) "is_op op ''is null'' \<or> is_op op ''is not null''"
    | (in_list) "\<not> (is_op op ''is null'' \<or> is_op op ''is not null'')" "is_op op ''in'' \<or> is_op op ''not in''"
    | (compare) "\<not> (is_op op ''is null'' \<or> is_op op ''is not null'')" "\<not> (is_op op ''in'' \<or> is_op op ''not in'')"
    by blast
  then show ?thesis
  proof cases
    case null
    then have "column_of (cx_view cx) left \<noteq> None" using assms(3) by (simp add: leaf_fits_def args)
    then have nn: "qe_row_load_value (cx_env cx) (cx_scope cx) (cx_rows cx) left \<noteq> L_null"
      using column_not_null [OF assms(1)] by blast
    show ?thesis
    proof (cases "is_op op ''is not null''")
      case True
      have e: "?leaf = emit_op caps OpPushTrue p" using True by (simp add: compile_leaf_def)
      show ?thesis using compiled_push_bool [of caps OpPushTrue p cx] assms(2,4) nn True quiet_logged
        unfolding e by (intro exI [of _ "f64_bool True"]) (auto simp: eval_leaf_def args)
    next
      case False
      have e: "?leaf = emit_const caps (F64_num 0) p" using null False by (simp add: compile_leaf_def)
      show ?thesis using compiled_const [of caps "F64_num 0" p cx] assms(2,4) nn null False quiet_logged
        unfolding e by (intro exI [of _ "F64_num 0"]) (auto simp: eval_leaf_def args f64_true_def f64_eq_def)
    qed
  next
    case in_list
    obtain right rest' where rest: "rest = right # rest'"
      using assms(3) in_list by (cases rest) (auto simp: leaf_fits_def args)
    obtain c where c: "column_of (cx_view cx) left = Some c" "ir_type right = IrInList"
        "list_all (item_fits (cx_view cx) c) (ir_children right)"
      using assms(3) in_list by (auto simp: leaf_fits_def args rest split: option.splits)
    have e: "?leaf = compile_in (cx_env cx) caps (cx_dicts cx) (cx_view cx) (is_op op ''not in'') args p"
      using in_list by (simp add: compile_leaf_def)
    have "eval_leaf (cx_env cx) (cx_scope cx) (cx_rows cx) op args =
        ((\<exists>item \<in> set (ir_children right). item_true cx left item) \<noteq> is_op op ''not in'')"
      using in_list c(2) column_not_null [OF assms(1) c(1)]
      by (simp add: eval_leaf_def args rest Let_def qe_in_list_contains_def item_true_def [abs_def] list_ex_iff)
    moreover have "quiet (compile_in (cx_env cx) caps (cx_dicts cx) (cx_view cx) (is_op op ''not in'') (left # right # rest') p)"
      using assms(4) unfolding e by (simp only: args rest)
    note compiled_in [OF assms(1,2) c this]
    ultimately show ?thesis unfolding e by (simp only: args rest)
  next
    case compare
    obtain right rest' where rest: "rest = right # rest'"
      using assms(3) compare by (cases rest) (auto simp: leaf_fits_def args)
    have fits: "qe_ir_is_fuzzy_call left = None" "comparison_fits (cx_view cx) op left right"
      using assms(3) compare by (auto simp: leaf_fits_def args rest)
    have e: "?leaf = compile_comparison (cx_env cx) caps (cx_dicts cx) (cx_view cx) op left right p"
      using compare fits(1) by (simp add: compile_leaf_def args rest)
    obtain v where v: "compiled cx p ?leaf v" "comparison_result cx op left right = Some (f64_true v)"
      using compiled_comparison [OF assms(1,2) fits(2)] assms(4) unfolding e by metis
    have "eval_leaf (cx_env cx) (cx_scope cx) (cx_rows cx) op args = f64_true v"
      using v(2) compare fits(1) by (auto simp: eval_leaf_def args rest comparison_result_def)
    then show ?thesis using v(1) by blast
  qed
qed

lemma compiled_condition:
  assumes "cx_sound cx" "gpu_ok (cx_view cx) node" "cx_ok cx p"
    "quiet (qe_compile_condition (cx_env cx) caps (cx_dicts cx) (cx_view cx) node p)"
  shows "decides cx p (qe_compile_condition (cx_env cx) caps (cx_dicts cx) (cx_view cx) node p)
    (qe_row_condition_eval (cx_env cx) (cx_scope cx) (cx_rows cx) node)"
  using assms(2-)
proof (induction "cx_view cx" node arbitrary: p rule: gpu_ok.induct)
  case (1 ty op args)
  let ?compile = "qe_compile_condition (cx_env cx) caps (cx_dicts cx) (cx_view cx)"
  let ?eval = "qe_row_condition_eval (cx_env cx) (cx_scope cx) (cx_rows cx)"
  consider (load) "ty \<noteq> IrOperator" | (tree) "ty = IrOperator" "is_op op ''and'' \<or> is_op op ''or''"
    | (leaf) "ty = IrOperator" "\<not> (is_op op ''and'' \<or> is_op op ''or'')" by blast
  then show ?case
  proof cases
    case load
    then have n: "num_operand (cx_view cx) (IR_Node ty op args)"
      and q: "quiet (qe_compile_load_value (cx_env cx) caps (cx_view cx) (IR_Node ty op args) p)"
      using "1.prems" by simp_all
    obtain v where "qe_row_load_value (cx_env cx) (cx_scope cx) (cx_rows cx) (IR_Node ty op args) = L_num v"
        "compiled cx p (qe_compile_load_value (cx_env cx) caps (cx_view cx) (IR_Node ty op args) p) v"
      using compiled_load_value [OF assms(1) "1.prems"(2) n q] by metis
    then show ?thesis using load by (auto simp: f64_true_def)
  next
    case leaf
    then show ?thesis using compiled_leaf [OF assms(1) "1.prems"(2), of op args caps] "1.prems" by simp
  next
    case tree
    then obtain l r rest where args: "args = l # r # rest" and ok: "gpu_ok (cx_view cx) l" "gpu_ok (cx_view cx) r"
      using "1.prems"(1) by (auto split: list.splits)
    let ?code = "if is_op op ''and'' then OpAnd else OpOr"
    have e: "?compile (IR_Node ty op args) p = emit_op caps ?code (?compile r (?compile l p))"
      using tree by (simp add: args Let_def)
    have q: "quiet (emit_op caps ?code (?compile r (?compile l p)))" using "1.prems"(3) unfolding e .
    then have q2: "quiet (?compile r (?compile l p))" by (rule quiet_emit_op)
    then have q1: "quiet (?compile l p)" by (rule quiet_condition)
    obtain a where a: "compiled cx p (?compile l p) a" "f64_true a = ?eval l"
      using "1.hyps"(1) [OF _ _ args refl ok(1) "1.prems"(2) q1] tree by blast
    obtain b where b: "compiled cx (?compile l p) (?compile r (?compile l p)) b" "f64_true b = ?eval r"
      using "1.hyps"(2) [OF _ _ args refl ok(2) compiled_ok(1) [OF a(1)] q2] tree by blast
    have "binary_op ?code" by (simp add: binary_op_def)
    note c = compiled_binary [OF a(1) b(1) quiet_logged [OF q] this]
    have "f64_true (vm_binary ?code a b) = ?eval (IR_Node ty op args)"
      using tree a(2) b(2) by (auto simp: args)
    then show ?thesis using c unfolding e by blast
  qed
qed


section \<open>The scan\<close>

definition scan_vm :: "num_env \<Rightarrow> dictionaries \<Rightarrow> native_table \<Rightarrow> qe_program \<Rightarrow> nat \<Rightarrow> vm" where
  "scan_vm env dicts nt p row = vm_of env dicts nt row p"

text \<open>The rows arrive in the order in which the work groups append them: \<open>arrival\<close> is what the device
  makes of a list of matches.\<close>

definition arrival_ok :: "(nat list \<Rightarrow> nat list) \<Rightarrow> bool" where
  "arrival_ok arrival \<longleftrightarrow> (\<forall>rows. mset (arrival rows) = mset rows)"

lemma arrival_ok_id: "arrival_ok (\<lambda>rows. rows)" "arrival_ok rev"
  by (simp_all add: arrival_ok_def)

definition qe_scan_filter ::
  "(nat list \<Rightarrow> nat list) \<Rightarrow> num_env \<Rightarrow> qe_caps \<Rightarrow> dictionaries \<Rightarrow> native_table \<Rightarrow> ir_node option \<Rightarrow> nat list option" where
  "qe_scan_filter arrival env caps dicts nt condition =
     (let t = as_table env nt; p = qe_bytecode_program_build env caps dicts t condition in
      if pr_cpu_scan p \<or> qe_bytecode_program_max_stack_depth p > int QE_SCAN_MAX_STACK
      then Some (qe_cpu_scan_filter env t condition)
      else
        let rows = [0..<length (nt_rows nt)] in
        if list_ex (\<lambda>i. scan_filter_row (scan_vm env dicts nt p i) = None) rows then None
        else Some (arrival (filter (\<lambda>i. scan_filter_row (scan_vm env dicts nt p i) = Some True) rows)))"

definition row_ctx :: "num_env \<Rightarrow> dictionaries \<Rightarrow> native_table \<Rightarrow> nat \<Rightarrow> scan_ctx" where
  "row_ctx env dicts nt i = \<lparr>cx_env = env, cx_dicts = dicts, cx_table = nt, cx_row = i\<rparr>"

lemma row_ctx_simps [simp]:
  "cx_env (row_ctx env dicts nt i) = env" "cx_dicts (row_ctx env dicts nt i) = dicts"
  "cx_table (row_ctx env dicts nt i) = nt" "cx_row (row_ctx env dicts nt i) = i"
  by (simp_all add: row_ctx_def)

text \<open>The table and the condition are ones the GPU reads like the CPU, and the compiler has no complaint.\<close>

definition gpu_ready :: "num_env \<Rightarrow> qe_caps \<Rightarrow> dictionaries \<Rightarrow> native_table \<Rightarrow> ir_node option \<Rightarrow> bool" where
  "gpu_ready env caps dicts nt condition \<longleftrightarrow>
     (let p = qe_bytecode_program_build env caps dicts (as_table env nt) condition in
      \<not> pr_logged p \<and> length (pr_words p) < 2 ^ 32) \<and>
     (case condition of None \<Rightarrow> True | Some c \<Rightarrow> gpu_ok (as_table env nt) c) \<and>
     (\<forall>i < length (nt_rows nt). cx_sound (row_ctx env dicts nt i))"

lemma compiled_build:
  assumes "cx_sound cx" "quiet (qe_bytecode_program_build (cx_env cx) caps (cx_dicts cx) (cx_view cx) condition)"
    "case condition of None \<Rightarrow> True | Some c \<Rightarrow> gpu_ok (cx_view cx) c"
  obtains p v where
    "qe_bytecode_program_build (cx_env cx) caps (cx_dicts cx) (cx_view cx) condition = emit_op caps OpHalt p"
    "compiled cx empty_program p v" "f64_true v = eval_opt (cx_env cx) (cx_scope cx) (cx_rows cx) condition"
proof (cases condition)
  case None
  have q: "quiet (emit_op caps OpPushTrue empty_program)"
    using assms(2) quiet_emit_op by (simp add: qe_bytecode_program_build_def None)
  show ?thesis
    using that [of "emit_op caps OpPushTrue empty_program" "f64_bool True"]
      compiled_push_bool [OF quiet_logged [OF q], of cx]
    by (simp add: qe_bytecode_program_build_def None)
next
  case (Some c)
  let ?p = "qe_compile_condition (cx_env cx) caps (cx_dicts cx) (cx_view cx) c empty_program"
  have q: "quiet ?p" using assms(2) quiet_emit_op by (simp add: qe_bytecode_program_build_def Some)
  have ok: "gpu_ok (cx_view cx) c" using assms(3) Some by simp
  obtain v where "compiled cx empty_program ?p v"
      "f64_true v = qe_row_condition_eval (cx_env cx) (cx_scope cx) (cx_rows cx) c"
    using compiled_condition [OF assms(1) ok empty_program_ok q] by blast
  then show ?thesis using that [of ?p v] by (simp add: qe_bytecode_program_build_def Some)
qed

lemma scan_filter_row_correct:
  assumes "cx_sound cx" "quiet p" "qe_bytecode_program_max_stack_depth p \<le> int QE_SCAN_MAX_STACK" "length (pr_words p) < 2 ^ 32"
    "p = qe_bytecode_program_build (cx_env cx) caps (cx_dicts cx) (cx_view cx) condition"
    "case condition of None \<Rightarrow> True | Some c \<Rightarrow> gpu_ok (cx_view cx) c"
  shows "scan_filter_row (cx_vm cx p) = Some (eval_opt (cx_env cx) (cx_scope cx) (cx_rows cx) condition)"
proof -
  obtain p0 v where p0: "p = emit_op caps OpHalt p0" "compiled cx empty_program p0 v"
      "f64_true v = eval_opt (cx_env cx) (cx_scope cx) (cx_rows cx) condition"
    using compiled_build [OF assms(1) _ assms(6), of caps] assms(2) unfolding assms(5) by metis
  obtain code where code: "pr_words p0 = code" "pushes cx code p0 v"
    using p0(2) by (auto simp: compiled_def empty_program_def)
  have words: "pr_words p = code @ [opcode_word OpHalt]"
    using assms(2) code(1) unfolding p0(1) by (simp add: emit_op_def quiet_logged)
  have frame: "extends p0 p" "cx_ok cx p"
    using compiled_ok(1) [OF p0(2)] unfolding p0(1)
    by (simp_all add: emit_op_def extends_cong program_ok_cong [of "qe_bytecode_emit caps _ p0" p0])
  let ?big = "length (pr_words p)"
  have "vm_run (cx_vm cx p) ?big (code @ [opcode_word OpHalt]) [] = vm_run (cx_vm cx p) ?big [opcode_word OpHalt] [v]"
    using code(2) frame words unfolding pushes_def by simp
  also have "\<dots> = Some [v]" by (simp add: vm_run.simps)
  finally have big: "vm_run (cx_vm cx p) ?big (pr_words p) [] = Some [v]" by (simp add: words)
  have depth: "stack_depth_from (pr_words p) (int (length ([] :: f64 list))) 0 \<le> int QE_SCAN_MAX_STACK"
    using assms(3) by (simp add: qe_bytecode_program_max_stack_depth_def)
  show ?thesis using vm_run_depth [OF big depth assms(4)] p0(3) by (simp add: scan_filter_row_def)
qed

lemma scan_filter_rows:
  assumes "gpu_ready env caps dicts nt condition" "arrival_ok arrival"
  shows "\<exists>rows. qe_scan_filter arrival env caps dicts nt condition = Some rows \<and>
    mset rows = mset (qe_cpu_scan_filter env (as_table env nt) condition)"
proof -
  let ?p = "qe_bytecode_program_build env caps dicts (as_table env nt) condition"
  show ?thesis
  proof (cases "pr_cpu_scan ?p \<or> qe_bytecode_program_max_stack_depth ?p > int QE_SCAN_MAX_STACK")
    case False
    let ?rows = "[0..<length (nt_rows nt)]"
    let ?keep = "\<lambda>i. eval_opt env [(as_table env nt, [])] [Some i] condition"
    have row: "scan_filter_row (scan_vm env dicts nt ?p i) = Some (?keep i)" if "i < length (nt_rows nt)" for i
    proof -
      have cx: "cx_sound (row_ctx env dicts nt i)" using assms that by (simp add: gpu_ready_def)
      let ?cx = "row_ctx env dicts nt i"
      have build: "?p = qe_bytecode_program_build (cx_env ?cx) caps (cx_dicts ?cx) (cx_view ?cx) condition" by simp
      have q: "quiet ?p" "length (pr_words ?p) < 2 ^ 32"
        using assms False unfolding gpu_ready_def Let_def quiet_def by blast+
      have depth: "qe_bytecode_program_max_stack_depth ?p \<le> int QE_SCAN_MAX_STACK" using False by linarith
      have ok: "case condition of None \<Rightarrow> True | Some c \<Rightarrow> gpu_ok (cx_view ?cx) c"
        using assms unfolding gpu_ready_def row_ctx_simps by blast
      show ?thesis
        using scan_filter_row_correct [OF cx q(1) depth q(2) build ok] unfolding scan_vm_def row_ctx_simps .
    qed
    have "\<not> list_ex (\<lambda>i. scan_filter_row (scan_vm env dicts nt ?p i) = None) ?rows"
      by (simp add: list_ex_iff row)
    moreover have "filter (\<lambda>i. scan_filter_row (scan_vm env dicts nt ?p i) = Some True) ?rows = filter ?keep ?rows"
      by (intro filter_cong refl) (simp add: row)
    ultimately have "qe_scan_filter arrival env caps dicts nt condition =
        Some (arrival (qe_cpu_scan_filter env (as_table env nt) condition))"
      using False unfolding qe_scan_filter_def Let_def qe_cpu_scan_filter_def by simp
    then show ?thesis using assms(2) by (simp add: arrival_ok_def)
  qed (simp add: qe_scan_filter_def Let_def)
qed


section \<open>How a filter gets its rows\<close>

text \<open>The order in which \<open>plan_execute_filter_scan\<close> and \<open>DELETE\<close> try the ways to select rows: an index,
  the CPU if a column has null flags, the GPU. (The planner may have chosen one of them beforehand.)\<close>

definition filter_scan ::
  "(nat list \<Rightarrow> nat list) \<Rightarrow> num_env \<Rightarrow> row_sort \<Rightarrow> nat \<Rightarrow> qe_caps \<Rightarrow> dictionaries \<Rightarrow> (nat \<Rightarrow> bool) \<Rightarrow> native_table \<Rightarrow> cql_store \<Rightarrow>
   ir_node option \<Rightarrow> (cql_store \<times> nat list) option" where
  "filter_scan arrival env qsort max_and_leaves caps dicts flagged nt st condition =
     (case qe_try_index_scan env qsort max_and_leaves flagged st condition of
        Some r \<Rightarrow> Some r
      | None \<Rightarrow>
          if list_ex flagged [0..<length (nt_columns nt)] then
            Some (st, qe_cpu_scan_filter env (store_table st) condition)
          else map_option (Pair st) (qe_scan_filter arrival env caps dicts nt condition))"


section \<open>Conditions that cannot be compiled\<close>

text \<open>C25: A date literal that is no date never matches on the CPU, but the compiler logs an error and
  compiles the comparison to true: the scan selects every row. The same scan tells \<open>DELETE\<close> what to
  remove.\<close>

theorem qe_scan_unreadable_date_selects_all:
  assumes "column_of (as_table env nt) left = Some c" "column_ty (nt_columns nt ! c) = ColDate"
    "ir_type right = IrLiteral" "parse_iso_date (ir_value right) = None" "op \<in> set comparisons" "2 \<le> words_cap caps"
  shows "qe_scan_filter arrival env caps dicts nt (Some (IR_Node IrOperator op [left, right])) =
      Some (arrival [0..<length (nt_rows nt)]) \<and>
    qe_cpu_scan_filter env (as_table env nt) (Some (IR_Node IrOperator op [left, right])) = []"
proof -
  note c = column_of_Some [OF assms(1)]
  have ops: "\<not> is_op op ''and''" "\<not> is_op op ''or''" "\<not> is_op op ''is null''" "\<not> is_op op ''is not null''"
      "\<not> is_op op ''in''" "\<not> is_op op ''not in''"
    using assms(5) by (auto simp: comparisons_def is_op_def) (code_simp+)
  have fuzzy: "qe_ir_is_fuzzy_call left = None" using c(1) by (simp add: qe_ir_is_fuzzy_call_def)
  have w: "qe_resolve_date_literal_value env ColDate (ir_value right) = None"
    using assms(4) by (simp add: qe_resolve_date_literal_value_def)
  let ?b = "\<lparr>bind_name = ir_value left, bind_column = c, bind_type = ColDate, bind_first_slot = 0,
      bind_slot_count = 1, bind_dict_codes = False\<rparr>"
  define p1 where "p1 = empty_program\<lparr>pr_bindings := [?b], pr_next_slot := 1\<rparr>"
  have "qe_bind_column (as_table env nt) (ir_value left) empty_program = (Some ?b, p1)"
    using c(3) assms(2)
    by (simp add: qe_bind_column_def qe_find_binding_def empty_program_def QE_MAX_COLUMN_BINDINGS_def add_binding_def p1_def Let_def)
  then have "qe_bytecode_program_build env caps dicts (as_table env nt) (Some (IR_Node IrOperator op [left, right])) =
      emit_op caps OpHalt (emit_op caps OpPushTrue (log_compile p1))"
    using ops fuzzy c(1) assms(2,3) w
    by (simp add: qe_bytecode_program_build_def compile_leaf_def compile_comparison_def compile_resolved_def)
  moreover define p where "p = emit_op caps OpHalt (emit_op caps OpPushTrue (log_compile p1))"
  ultimately have build: "qe_bytecode_program_build env caps dicts (as_table env nt) (Some (IR_Node IrOperator op [left, right])) = p"
    by simp
  have words: "pr_words p = [opcode_word OpPushTrue, opcode_word OpHalt]" and cpu: "\<not> pr_cpu_scan p"
    using assms(6) by (simp_all add: p_def p1_def emit_op_def qe_bytecode_emit_def log_compile_def empty_program_def)
  have depth: "qe_bytecode_program_max_stack_depth p = 1"
    unfolding qe_bytecode_program_max_stack_depth_def words by code_simp
  have row: "scan_filter_row (scan_vm env dicts nt p i) = Some True" for i
    using vm_run_op [of OpPushTrue "[]" "vm_of env dicts nt i p" QE_SCAN_MAX_STACK "[]" "[F64_num 1]" "[opcode_word OpHalt]"]
    by (simp add: scan_filter_row_def scan_vm_def words vm_run.simps(2) [of _ _ "opcode_word OpHalt"] vm_step_def vm_push_def
        QE_SCAN_MAX_STACK_def f64_true_def f64_eq_def)
  have "qe_scan_filter arrival env caps dicts nt (Some (IR_Node IrOperator op [left, right])) =
      Some (arrival [0..<length (nt_rows nt)])"
    by (simp add: qe_scan_filter_def Let_def build cpu depth QE_SCAN_MAX_STACK_def row list_ex_iff)
  moreover have "\<not> qe_row_condition_eval env [(as_table env nt, [])] row (IR_Node IrOperator op [left, right])" for row
  proof -
    have "resolve_right env [(as_table env nt, [])] row left right = None"
      using resolve_right_column [of "row_ctx env dicts nt 0" left c env row right] assms(1-3) w by (simp add: Let_def)
    then show ?thesis using ops fuzzy by (simp add: eval_leaf_def)
  qed
  ultimately show ?thesis by (simp add: qe_cpu_scan_filter_def)
qed

section \<open>Examples\<close>

definition ex_scan_env :: num_env where
  "ex_scan_env = digit_env\<lparr>f64_of_int := f64_of\<rparr>"

definition ex_caps :: qe_caps where
  "ex_caps = \<lparr>words_cap = 32, consts_cap = 8, pool_cap = 32, in_list_max = 8, edit_needle_max = 16,
     trigram_needle_max = 16\<rparr>"

definition ex_native :: native_table where
  "ex_native =
     \<lparr>nt_name = ''t'',
      nt_columns =
        [\<lparr>column_name = ''x'', column_ty = ColU32, decimal_scale = 0, enum_labels = None\<rparr>,
         \<lparr>column_name = ''s'', column_ty = ColString8, decimal_scale = 0, enum_labels = None\<rparr>,
         \<lparr>column_name = ''d'', column_ty = ColDate, decimal_scale = 0, enum_labels = None\<rparr>],
      nt_rows = [[Some (V_int 5), Some (V_str ''ab''), Some (V_int 0)], [Some (V_int 7), Some (V_str ''b''), Some (V_int 9)],
        [Some (V_int 5), Some (V_str ''b''), Some (V_int (- 9))]]\<rparr>"

definition ex_dicts :: dictionaries where
  "ex_dicts c = (if c = 1 then Some [''ab'', ''b''] else None)"

definition ex_condition :: ir_node where
  "ex_condition =
     IR_Node IrOperator ''and''
       [x_is ''5'', IR_Node IrOperator ''in'' [IR_Node IrColumn ''s'' [],
          IR_Node IrInList [] [IR_Node IrLiteral ''b'' [], IR_Node IrLiteral ''c'' []]]]"

lemma ex_gpu_ready: "gpu_ready ex_scan_env ex_caps ex_dicts ex_native (Some ex_condition)"
proof -
  have env: "ieee_env ex_scan_env" by (simp add: ieee_env_def ex_scan_env_def)
  have "let p = qe_bytecode_program_build ex_scan_env ex_caps ex_dicts (as_table ex_scan_env ex_native) (Some ex_condition) in
      \<not> pr_logged p \<and> length (pr_words p) \<le> 32" by code_simp
  then have p: "let p = qe_bytecode_program_build ex_scan_env ex_caps ex_dicts (as_table ex_scan_env ex_native) (Some ex_condition) in
      \<not> pr_logged p \<and> length (pr_words p) < 2 ^ 32" unfolding Let_def by simp
  have ok: "gpu_ok (as_table ex_scan_env ex_native) ex_condition" by code_simp
  have plain: "plain_columns (as_table ex_scan_env ex_native)" by code_simp
  have "list_all (\<lambda>i. length (nt_rows ex_native ! i) = length (nt_columns ex_native) \<and>
      list_all (cell_fits (row_ctx ex_scan_env ex_dicts ex_native i)) [0..<length (nt_columns ex_native)]) [0..<length (nt_rows ex_native)]"
    by (simp add: ex_native_def cell_fits_def nonnegative_64_def ex_dicts_def MAX_SANE_STRING_LEN_def Let_def numeral_3_eq_3)
  then have "\<forall>i < length (nt_rows ex_native). cx_sound (row_ctx ex_scan_env ex_dicts ex_native i)"
    using env plain by (simp add: cx_sound_def list_all_iff)
  then show ?thesis using p ok unfolding gpu_ready_def by simp
qed


lemma qe_scan_unreadable_date_selects_all_witness:
  "qe_scan_filter rev ex_scan_env ex_caps ex_dicts ex_native
     (Some (IR_Node IrOperator ''='' [IR_Node IrColumn ''d'' [], IR_Node IrLiteral ''soon'' []])) = Some [2, 1, 0] \<and>
   qe_cpu_scan_filter ex_scan_env (as_table ex_scan_env ex_native)
     (Some (IR_Node IrOperator ''='' [IR_Node IrColumn ''d'' [], IR_Node IrLiteral ''soon'' []])) = []"
proof -
  have a: "column_of (as_table ex_scan_env ex_native) (IR_Node IrColumn ''d'' []) = Some 2" by code_simp
  have b: "column_ty (nt_columns ex_native ! 2) = ColDate" by code_simp
  have d: "parse_iso_date (ir_value (IR_Node IrLiteral ''soon'' [])) = None" by code_simp
  have "[0..<length (nt_rows ex_native)] = [0, 1, 2]" by code_simp
  then show ?thesis
    using qe_scan_unreadable_date_selects_all [OF a b _ d, of "''=''" ex_caps rev ex_dicts]
    by (simp add: comparisons_def ex_caps_def)
qed


end
