(* ===== verification/App_Db.thy ===== *)
theory App_Db
  imports Qe_Scan Base_Numbers
begin

text \<open>
  The statements that change a database (\<open>src/src/application.c\<close>): \<open>CREATE TABLE\<close> and \<open>CREATE TYPE\<close>,
  \<open>INSERT\<close> with the checks of the constraints of its rows, \<open>ALTER TABLE\<close> and \<open>DELETE\<close> with the
  \<open>FOREIGN KEY\<close> restriction.

  A database is the list of its tables, a table the list of its columns and of its rows. Every statement
  returns the new database and the error it logged. \<open>None\<close> is what C leaves undefined: a null pointer
  is followed, or the bytes of a value are read as a value of another type. Indexes and the storage of
  columns are in \<open>Cql_Index\<close>; the conversion of a double to a float is the parameter \<open>narrow\<close>.
\<close>

section \<open>Databases\<close>

record app_column =
  app_col :: cql_column
  app_precision :: nat
  app_not_null :: bool
  app_unique :: bool
  app_primary :: bool
  app_fk :: "(string8 \<times> string8) option"
  app_check :: "ir_node option"

record app_table =
  at_name :: string8
  at_columns :: "app_column list"
  at_rows :: "stored option list list"

record app_db =
  db_tables :: "app_table list"
  db_enums :: "(string8 \<times> string8 list) list"

datatype app_constraint = C_not_null | C_unique | C_foreign_key | C_check

datatype app_error =
  E_unknown_table | E_table_exists | E_no_values | E_too_many_listed | E_unknown_column | E_too_many_values
| E_no_type | E_count_mismatch | E_bad_literal | E_unknown_type | E_bad_precision | E_column_exists | E_violates app_constraint
| E_referenced | E_no_operation

definition cql_database_find_table :: "app_db \<Rightarrow> string8 \<Rightarrow> nat option" where
  "cql_database_find_table db name = first_index (\<lambda>t. str8_match (at_name t) name match_exact) (db_tables db)"

definition app_find_column :: "app_table \<Rightarrow> string8 \<Rightarrow> nat option" where
  "app_find_column t name = first_index (\<lambda>c. str8_match (column_name (app_col c)) name match_exact) (at_columns t)"

definition cql_database_find_enum_type :: "app_db \<Rightarrow> string8 \<Rightarrow> string8 list option" where
  "cql_database_find_enum_type db name =
     map_option (\<lambda>i. snd (db_enums db ! i)) (first_index (\<lambda>e. str8_match (fst e) name match_ci) (db_enums db))"

definition app_native :: "app_table \<Rightarrow> native_table" where
  "app_native t = \<lparr>nt_name = at_name t, nt_columns = map app_col (at_columns t), nt_rows = at_rows t\<rparr>"

abbreviation app_type :: "app_column \<Rightarrow> column_type" where
  "app_type c \<equiv> column_ty (app_col c)"

section \<open>CREATE\<close>

definition cql_column_type_from_string :: "app_db \<Rightarrow> string8 \<Rightarrow> column_type" where
  "cql_column_type_from_string db s =
     (if str8_match s ''u32'' match_ci then ColU32
      else if str8_match s ''u64'' match_ci then ColU64
      else if str8_match s ''f32'' match_ci then ColF32
      else if str8_match s ''f64'' match_ci then ColF64
      else if str8_match s ''string8'' match_ci then ColString8
      else if str8_match s ''bool'' match_ci then ColBool
      else if str8_match s ''i32'' match_ci then ColI32
      else if str8_match s ''i64'' match_ci then ColI64
      else if str8_match s ''date'' match_ci then ColDate
      else if str8_match s ''timestamp'' match_ci then ColTimestamp
      else if str8_match s ''decimal'' match_ci \<or> str8_match s ''numeric'' match_ci then ColDecimal
      else if cql_database_find_enum_type db s \<noteq> None then ColEnum
      else ColInvalid)"

text \<open>Precision and scale of a decimal type node; both are read as \<open>U64\<close>.\<close>

definition app_precision_scale :: "ir_node \<Rightarrow> (nat \<times> nat) option" where
  "app_precision_scale type_node =
     (case ir_children type_node of
        p # s # _ \<Rightarrow>
          let precision = unat (u64_from_str8 (ir_value p) 10); scale = unat (u64_from_str8 (ir_value s) 10) in
          if precision = 0 \<or> precision > 18 \<or> scale > precision then None else Some (precision, scale)
      | _ \<Rightarrow> None)"

definition app_typed_column :: "app_db \<Rightarrow> string8 \<Rightarrow> ir_node \<Rightarrow> app_error + app_column" where
  "app_typed_column db name type_node =
     (let ty = cql_column_type_from_string db (ir_value type_node) in
      if ty = ColInvalid then Inl E_unknown_type
      else
        let column = (\<lambda>precision scale.
              \<lparr>app_col = \<lparr>column_name = name, column_ty = ty, decimal_scale = scale,
                 enum_labels = (if ty = ColEnum then cql_database_find_enum_type db (ir_value type_node) else None)\<rparr>,
               app_precision = precision, app_not_null = False, app_unique = False, app_primary = False,
               app_fk = None, app_check = None\<rparr>) in
        if ty = ColDecimal then
          (case app_precision_scale type_node of None \<Rightarrow> Inl E_bad_precision | Some (p, s) \<Rightarrow> Inr (column p s))
        else Inr (column 0 0))"

text \<open>The constraint clauses of a column; a foreign key that references nothing is ignored. \<open>None\<close> is a
  foreign key clause without a column name, which the parser does not build.\<close>

definition app_constrain :: "app_db \<Rightarrow> ir_node \<Rightarrow> app_column \<Rightarrow> app_column option" where
  "app_constrain db c col =
     (if ir_type c = IrNotNull then Some (col\<lparr>app_not_null := True\<rparr>)
      else if ir_type c = IrUnique then Some (col\<lparr>app_unique := True\<rparr>)
      else if ir_type c = IrPrimaryKey then Some (col\<lparr>app_primary := True, app_not_null := True, app_unique := True\<rparr>)
      else if ir_type c = IrForeignKey then
        (case cql_database_find_table db (ir_value c) of
           None \<Rightarrow> (if ir_children c = [] then None else Some col)
         | Some t \<Rightarrow>
             (case ir_children c of
                [] \<Rightarrow> None
              | r # _ \<Rightarrow>
                  Some (if app_find_column (db_tables db ! t) (ir_value r) = None then col
                        else col\<lparr>app_fk := Some (ir_value c, ir_value r)\<rparr>)))
      else if ir_type c = IrCheck then Some (col\<lparr>app_check := (case ir_children c of [] \<Rightarrow> None | e # _ \<Rightarrow> Some e)\<rparr>)
      else Some col)"

fun app_constrain_all :: "app_db \<Rightarrow> ir_node list \<Rightarrow> app_column \<Rightarrow> app_column option" where
  "app_constrain_all db [] col = Some col"
| "app_constrain_all db (c # cs) col = Option.bind (app_constrain db c col) (app_constrain_all db cs)"

text \<open>The columns of the table, in order; the first bad one ends the statement.\<close>

fun app_columns :: "app_db \<Rightarrow> ir_node list \<Rightarrow> (app_error + app_column list) option" where
  "app_columns db [] = Some (Inr [])"
| "app_columns db (n # ns) =
     (case ir_children n of
        [] \<Rightarrow> None
      | type_node # clauses \<Rightarrow>
          (case app_typed_column db (ir_value n) type_node of
             Inl e \<Rightarrow> Some (Inl e)
           | Inr col \<Rightarrow>
               Option.bind (app_constrain_all db clauses col) (\<lambda>col.
               Option.bind (app_columns db ns) (\<lambda>r.
               Some (case r of Inl e \<Rightarrow> Inl e | Inr cols \<Rightarrow> Inr (col # cols))))))"

type_synonym app_result = "(app_db \<times> app_error option) option"

definition app_create_table :: "app_db \<Rightarrow> ir_node \<Rightarrow> app_result" where
  "app_create_table db node =
     (if cql_database_find_table db (ir_value node) \<noteq> None then Some (db, Some E_table_exists)
      else
        Option.bind (app_columns db (ir_children node)) (\<lambda>r.
        case r of
          Inl e \<Rightarrow> Some (db, Some e)
        | Inr cols \<Rightarrow>
            Some (db\<lparr>db_tables := db_tables db @ [\<lparr>at_name = ir_value node, at_columns = cols, at_rows = []\<rparr>]\<rparr>, None)))"

definition app_create_type :: "app_db \<Rightarrow> ir_node \<Rightarrow> app_result" where
  "app_create_type db node =
     (if cql_database_find_enum_type db (ir_value node) \<noteq> None then Some (db, Some E_table_exists)
      else Some (db\<lparr>db_enums := db_enums db @ [(ir_value node, map ir_value (ir_children node))]\<rparr>, None))"

section \<open>Constraints\<close>

text \<open>Two values of one type.\<close>

fun same_value :: "stored \<Rightarrow> stored \<Rightarrow> bool" where
  "same_value (V_int i) (V_int j) \<longleftrightarrow> i = j"
| "same_value (V_flt x) (V_flt y) \<longleftrightarrow> f64_eq x y"
| "same_value (V_str s) (V_str u) \<longleftrightarrow> s = u"
| "same_value _ _ \<longleftrightarrow> False"

text \<open>The candidate is a value of type \<open>cand_ty\<close>, read as one of the column's type.\<close>

definition cql_candidate_value_equals_row :: "column_type \<Rightarrow> column_type \<Rightarrow> stored \<Rightarrow> stored \<Rightarrow> bool option" where
  "cql_candidate_value_equals_row cand_ty ty candidate existing =
     (if cand_ty \<noteq> ty then None else Some (ty \<noteq> ColInvalid \<and> same_value candidate existing))"

text \<open>The walk over a column: nulls are skipped, the first equal value ends it.\<close>

fun value_in_column :: "column_type \<Rightarrow> column_type \<Rightarrow> stored \<Rightarrow> stored option list \<Rightarrow> bool option" where
  "value_in_column cand_ty ty v [] = Some False"
| "value_in_column cand_ty ty v (None # vs) = value_in_column cand_ty ty v vs"
| "value_in_column cand_ty ty v (Some w # vs) =
     Option.bind (cql_candidate_value_equals_row cand_ty ty v w) (\<lambda>b.
     if b then Some True else value_in_column cand_ty ty v vs)"

definition column_cells :: "app_table \<Rightarrow> nat \<Rightarrow> stored option list" where
  "column_cells t c = map (\<lambda>row. row ! c) (at_rows t)"

definition cql_check_load_value :: "num_env \<Rightarrow> app_table \<Rightarrow> stored option list \<Rightarrow> ir_node \<Rightarrow> loaded" where
  "cql_check_load_value env t row node =
     (if ir_type node = IrColumn then
        (case app_find_column t (ir_value node) of
           None \<Rightarrow> L_num (F64_num 0)
         | Some c \<Rightarrow>
             (case row ! c of
                None \<Rightarrow> L_null
              | Some v \<Rightarrow> cell_value (app_type (at_columns t ! c)) (as_cell env (Some v))))
      else if ir_type node = IrLiteral then L_str (ir_value node)
      else L_num (f64_from_str8 env (ir_value node)))"

text \<open>The right operand, converted to the stored form for a date, enum or decimal column on the left;
  \<open>None\<close> is a literal that cannot be.\<close>

definition check_right :: "num_env \<Rightarrow> app_table \<Rightarrow> stored option list \<Rightarrow> ir_node \<Rightarrow> ir_node \<Rightarrow> loaded option" where
  "check_right env t row left right =
     (case (if ir_type left = IrColumn then app_find_column t (ir_value left) else None) of
        Some c \<Rightarrow>
          let col = app_col (at_columns t ! c); ty = column_ty col in
          if ir_type right = IrLiteral \<and> (ty = ColDate \<or> ty = ColTimestamp) then
            map_option L_num (qe_resolve_date_literal_value env ty (ir_value right))
          else if ir_type right = IrLiteral \<and> ty = ColEnum then
            map_option L_num (qe_resolve_enum_literal_value env col (ir_value right))
          else if ir_type right = IrNumeric \<and> ty = ColDecimal then
            map_option L_num (qe_resolve_decimal_literal_value env col (ir_value right))
          else Some (cql_check_load_value env t row right)
      | None \<Rightarrow> Some (cql_check_load_value env t row right))"

definition check_compare :: "string8 \<Rightarrow> loaded \<Rightarrow> loaded \<Rightarrow> bool" where
  "check_compare op l r =
     (if l = L_null \<or> r = L_null then False
      else if is_L_str l \<or> is_L_str r then
        if is_op op ''contains'' then qe_str8_contains (loaded_string l) (loaded_string r)
        else let eq = (qe_str8_compare (loaded_string l) (loaded_string r) = 0) in if op = ''!='' then \<not> eq else eq
      else compare_numbers op (loaded_num l) (loaded_num r))"

fun cql_check_eval :: "num_env \<Rightarrow> app_table \<Rightarrow> stored option list \<Rightarrow> ir_node \<Rightarrow> bool option" where
  "cql_check_eval env t row (IR_Node ty op args) =
     (if ty \<noteq> IrOperator then
        Some (case cql_check_load_value env t row (IR_Node ty op args) of
           L_null \<Rightarrow> False
         | L_str s \<Rightarrow> s \<noteq> []
         | L_num v \<Rightarrow> \<not> f64_eq v (F64_num 0))
      else if is_op op ''and'' then
        (case args of
           [] \<Rightarrow> Some True
         | [l] \<Rightarrow> cql_check_eval env t row l
         | l # r # _ \<Rightarrow>
             Option.bind (cql_check_eval env t row l) (\<lambda>b. if b then cql_check_eval env t row r else Some False))
      else if is_op op ''or'' then
        (case args of
           [] \<Rightarrow> Some True
         | [l] \<Rightarrow> map_option (\<lambda>b. True) (cql_check_eval env t row l)
         | l # r # _ \<Rightarrow>
             Option.bind (cql_check_eval env t row l) (\<lambda>b. if b then Some True else cql_check_eval env t row r))
      else if is_op op ''is null'' \<or> is_op op ''is not null'' then
        (case args of
           [] \<Rightarrow> None
         | l # _ \<Rightarrow> Some ((cql_check_load_value env t row l = L_null) \<noteq> is_op op ''is not null''))
      else
        Some (case args of
           l # r # _ \<Rightarrow>
             (case check_right env t row l r of
                None \<Rightarrow> False
              | Some rv \<Rightarrow> check_compare op (cql_check_load_value env t row l) rv)
         | _ \<Rightarrow> True))"

text \<open>One column of the candidate row: \<open>None\<close> inside is a value that passes.\<close>

definition app_check_column ::
  "num_env \<Rightarrow> app_db \<Rightarrow> app_table \<Rightarrow> stored option list \<Rightarrow> nat \<Rightarrow> app_constraint option option" where
  "app_check_column env db t row i =
     (let col = at_columns t ! i in
      if app_not_null col \<and> row ! i = None then Some (Some C_not_null)
      else
        Option.bind
          (case row ! i of
             Some v \<Rightarrow>
               if app_unique col \<or> app_primary col then value_in_column (app_type col) (app_type col) v (column_cells t i)
               else Some False
           | None \<Rightarrow> Some False)
        (\<lambda>taken. if taken then Some (Some C_unique) else
        Option.bind
          (case (row ! i, app_fk col) of
             (Some v, Some (rt, rc)) \<Rightarrow>
               (case cql_database_find_table db rt of
                  None \<Rightarrow> Some False
                | Some k \<Rightarrow>
                    (case app_find_column (db_tables db ! k) rc of
                       None \<Rightarrow> Some False
                     | Some c \<Rightarrow>
                         value_in_column (app_type col) (app_type (at_columns (db_tables db ! k) ! c)) v
                           (column_cells (db_tables db ! k) c)))
           | _ \<Rightarrow> Some True)
        (\<lambda>found. if \<not> found then Some (Some C_foreign_key) else
        case app_check col of
          None \<Rightarrow> Some None
        | Some e \<Rightarrow> map_option (\<lambda>b. if b then None else Some C_check) (cql_check_eval env t row e))))"

fun app_check_columns ::
  "num_env \<Rightarrow> app_db \<Rightarrow> app_table \<Rightarrow> stored option list \<Rightarrow> nat list \<Rightarrow> app_constraint option option" where
  "app_check_columns env db t row [] = Some None"
| "app_check_columns env db t row (i # is) =
     Option.bind (app_check_column env db t row i) (\<lambda>v.
     case v of None \<Rightarrow> app_check_columns env db t row is | Some c \<Rightarrow> Some (Some c))"

definition cql_table_validate_row_constraints ::
  "num_env \<Rightarrow> app_db \<Rightarrow> app_table \<Rightarrow> stored option list \<Rightarrow> app_constraint option option" where
  "cql_table_validate_row_constraints env db t row = app_check_columns env db t row [0..<length (at_columns t)]"


section \<open>INSERT\<close>

definition wrap_signed :: "nat \<Rightarrow> int \<Rightarrow> int" where
  "wrap_signed w i = (i + 2 ^ (w - 1)) mod 2 ^ w - 2 ^ (w - 1)"

definition app_literal :: "stored option \<Rightarrow> app_error + stored option" where
  "app_literal v = (case v of None \<Rightarrow> Inl E_bad_literal | Some v \<Rightarrow> Inr (Some v))"

definition app_decimal_fits :: "nat \<Rightarrow> int \<Rightarrow> bool" where
  "app_decimal_fits precision value \<longleftrightarrow> nat \<bar>value\<bar> < 10 ^ precision mod 2 ^ 64"

definition app_parse_value :: "num_env \<Rightarrow> (f64 \<Rightarrow> f64) \<Rightarrow> app_column \<Rightarrow> ir_node \<Rightarrow> app_error + stored option" where
  "app_parse_value env narrow col node =
     (if ir_type node = IrNull then Inr None
      else
        let s = ir_value node in
        case app_type col of
          ColU32 \<Rightarrow> Inr (Some (V_int (uint (u64_from_str8 s 10) mod 2 ^ 32)))
        | ColU64 \<Rightarrow> Inr (Some (V_int (uint (u64_from_str8 s 10))))
        | ColF32 \<Rightarrow> Inr (Some (V_flt (narrow (f64_from_str8 env s))))
        | ColF64 \<Rightarrow> Inr (Some (V_flt (f64_from_str8 env s)))
        | ColString8 \<Rightarrow> Inr (Some (V_str s))
        | ColBool \<Rightarrow> Inr (Some (V_int (uint (u64_from_str8 s 10) mod 2 ^ 8)))
        | ColI32 \<Rightarrow> Inr (Some (V_int (wrap_signed 32 (s64_from_str8 s 10))))
        | ColI64 \<Rightarrow> Inr (Some (V_int (s64_from_str8 s 10)))
        | ColDate \<Rightarrow> app_literal (map_option V_int (parse_iso_date s))
        | ColTimestamp \<Rightarrow> app_literal (map_option V_int (parse_iso_timestamp s))
        | ColDecimal \<Rightarrow>
            (case decimal_from_str8 s (decimal_scale (app_col col)) of
               None \<Rightarrow> Inl E_bad_literal
             | Some v \<Rightarrow> if app_decimal_fits (app_precision col) v then Inr (Some (V_int v)) else Inl E_bad_literal)
        | ColEnum \<Rightarrow>
            app_literal
              (case enum_labels (app_col col) of
                 None \<Rightarrow> None
               | Some labels \<Rightarrow> map_option (\<lambda>k. V_int (int k)) (cql_enum_type_code_from_label labels s))
        | ColInvalid \<Rightarrow> Inl E_unknown_type)"

text \<open>One group of values against the slots they go to; a slot that is not set stays null.\<close>

fun app_fill ::
  "num_env \<Rightarrow> (f64 \<Rightarrow> f64) \<Rightarrow> app_table \<Rightarrow> nat list \<Rightarrow> ir_node list \<Rightarrow> stored option list \<Rightarrow>
   app_error + stored option list" where
  "app_fill env narrow t slots [] row = (if slots = [] then Inr row else Inl E_count_mismatch)"
| "app_fill env narrow t [] (n # ns) row = Inl E_too_many_values"
| "app_fill env narrow t (slot # slots) (n # ns) row =
     (case app_parse_value env narrow (at_columns t ! slot) n of
        Inl e \<Rightarrow> Inl e
      | Inr v \<Rightarrow> app_fill env narrow t slots ns (row[slot := v]))"

definition app_add_row :: "app_db \<Rightarrow> nat \<Rightarrow> stored option list \<Rightarrow> app_db" where
  "app_add_row db k row =
     db\<lparr>db_tables := (db_tables db)[k := (db_tables db ! k)\<lparr>at_rows := at_rows (db_tables db ! k) @ [row]\<rparr>]\<rparr>"

text \<open>The groups in order; the first bad one ends the statement, the rows before it stay.\<close>

fun app_insert_groups ::
  "num_env \<Rightarrow> (f64 \<Rightarrow> f64) \<Rightarrow> nat \<Rightarrow> nat list \<Rightarrow> ir_node list \<Rightarrow> app_db \<Rightarrow> app_result" where
  "app_insert_groups env narrow k slots [] db = Some (db, None)"
| "app_insert_groups env narrow k slots (g # gs) db =
     (let t = db_tables db ! k in
      case app_fill env narrow t slots (ir_children g) (replicate (length (at_columns t)) None) of
        Inl e \<Rightarrow> Some (db, Some e)
      | Inr row \<Rightarrow>
          Option.bind (cql_table_validate_row_constraints env db t row) (\<lambda>v.
          case v of
            Some c \<Rightarrow> Some (db, Some (E_violates c))
          | None \<Rightarrow> app_insert_groups env narrow k slots gs (app_add_row db k row)))"

definition app_slots :: "app_table \<Rightarrow> ir_node option \<Rightarrow> app_error + nat list" where
  "app_slots t columns_object =
     (case columns_object of
        None \<Rightarrow> Inr [0..<length (at_columns t)]
      | Some l \<Rightarrow>
          if length (ir_children l) > length (at_columns t) then Inl E_too_many_listed
          else
            let found = map (\<lambda>c. app_find_column t (ir_value c)) (ir_children l) in
            if None \<in> set found then Inl E_unknown_column else Inr (map the found))"

text \<open>The list of columns, if there is one, and the values behind the table of the statement.\<close>

definition app_insert_parts :: "ir_node list \<Rightarrow> (ir_node option \<times> ir_node) option" where
  "app_insert_parts rest =
     (case rest of
        [] \<Rightarrow> None
      | c # cs \<Rightarrow>
          if ir_type c = IrColumnList then (case cs of [] \<Rightarrow> None | v # _ \<Rightarrow> Some (Some c, v))
          else Some (None, c))"

definition app_insert :: "num_env \<Rightarrow> (f64 \<Rightarrow> f64) \<Rightarrow> app_db \<Rightarrow> ir_node \<Rightarrow> app_result" where
  "app_insert env narrow db node =
     (case dropWhile (\<lambda>c. ir_type c \<noteq> IrTable) (ir_children node) of
        [] \<Rightarrow> None
      | table_object # rest \<Rightarrow>
          (case app_insert_parts rest of
             None \<Rightarrow> Some (db, Some E_no_values)
           | Some (columns_object, values_object) \<Rightarrow>
               (case cql_database_find_table db (ir_value table_object) of
                  None \<Rightarrow> None
                | Some k \<Rightarrow>
                    (case app_slots (db_tables db ! k) columns_object of
                       Inl e \<Rightarrow> Some (db, Some e)
                     | Inr slots \<Rightarrow> app_insert_groups env narrow k slots (ir_children values_object) db))))"

section \<open>ALTER TABLE\<close>

definition app_set_table :: "app_db \<Rightarrow> nat \<Rightarrow> app_table \<Rightarrow> app_db" where
  "app_set_table db k t = db\<lparr>db_tables := (db_tables db)[k := t]\<rparr>"

definition app_alter_add :: "app_db \<Rightarrow> nat \<Rightarrow> ir_node list \<Rightarrow> app_result" where
  "app_alter_add db k operands =
     (let t = db_tables db ! k in
      case operands of
        [] \<Rightarrow> None
      | name # rest \<Rightarrow>
          if list_ex (\<lambda>c. str8_match (column_name (app_col c)) (ir_value name) match_ci) (at_columns t) then
            Some (db, Some E_column_exists)
          else
            (case rest of
               [] \<Rightarrow> Some (db, Some E_no_type)
             | type_node # _ \<Rightarrow>
                 (case app_typed_column db (ir_value name) type_node of
                    Inl e \<Rightarrow> Some (db, Some e)
                  | Inr col \<Rightarrow>
                      Some (app_set_table db k
                        (t\<lparr>at_columns := at_columns t @ [col], at_rows := map (\<lambda>row. row @ [None]) (at_rows t)\<rparr>), None))))"

definition app_alter_drop :: "app_db \<Rightarrow> nat \<Rightarrow> string8 \<Rightarrow> app_result" where
  "app_alter_drop db k name =
     (let t = db_tables db ! k in
      case app_find_column t name of
        None \<Rightarrow> Some (db, Some E_unknown_column)
      | Some c \<Rightarrow>
          Some (app_set_table db k
            (t\<lparr>at_columns := without c (at_columns t), at_rows := map (without c) (at_rows t)\<rparr>), None))"

definition app_alter_rename :: "app_db \<Rightarrow> nat \<Rightarrow> string8 \<Rightarrow> app_result" where
  "app_alter_rename db k name =
     (if cql_database_find_table db name \<noteq> None then Some (db, Some E_table_exists)
      else Some (app_set_table db k ((db_tables db ! k)\<lparr>at_name := name\<rparr>), None))"

definition app_alter :: "app_db \<Rightarrow> ir_node \<Rightarrow> app_result" where
  "app_alter db node =
     (case dropWhile (\<lambda>c. ir_type c \<noteq> IrTable) (ir_children node) of
        [] \<Rightarrow> None
      | table_node # rest \<Rightarrow>
          (case cql_database_find_table db (ir_value table_node) of
             None \<Rightarrow> Some (db, Some E_unknown_table)
           | Some k \<Rightarrow>
               (case rest of
                  [] \<Rightarrow> Some (db, Some E_no_operation)
                | op # _ \<Rightarrow>
                    if ir_type op = IrAddColumn then app_alter_add db k (ir_children op)
                    else if ir_type op = IrDropColumn then app_alter_drop db k (ir_value op)
                    else if ir_type op = IrRename then app_alter_rename db k (ir_value op)
                    else Some (db, Some E_no_operation))))"

section \<open>DELETE\<close>

text \<open>Stored values of two columns are compared as strings if they are, else as doubles.\<close>

definition cql_stored_values_equal :: "num_env \<Rightarrow> column_type \<Rightarrow> stored \<Rightarrow> column_type \<Rightarrow> stored \<Rightarrow> bool" where
  "cql_stored_values_equal env ta a tb b =
     (if ta = ColString8 \<or> tb = ColString8 then ta = tb \<and> same_value a b
      else f64_eq (cql_numeric_value_as_f64 env a) (cql_numeric_value_as_f64 env b))"

definition references_row :: "num_env \<Rightarrow> app_db \<Rightarrow> nat \<Rightarrow> nat \<Rightarrow> app_table \<Rightarrow> nat \<Rightarrow> bool" where
  "references_row env db k i other c =
     (let t = db_tables db ! k; col = at_columns other ! c in
      case app_fk col of
        None \<Rightarrow> False
      | Some (rt, rc) \<Rightarrow>
          str8_match rt (at_name t) match_exact \<and>
          (case app_find_column t rc of
             None \<Rightarrow> False
           | Some r \<Rightarrow>
               (case at_rows t ! i ! r of
                  None \<Rightarrow> False
                | Some v \<Rightarrow>
                    list_ex (\<lambda>w. case w of
                        None \<Rightarrow> False
                      | Some w \<Rightarrow> cql_stored_values_equal env (app_type (at_columns t ! r)) v (app_type col) w)
                    (column_cells other c))))"

definition cql_row_has_referencing_children :: "num_env \<Rightarrow> app_db \<Rightarrow> nat \<Rightarrow> nat \<Rightarrow> bool" where
  "cql_row_has_referencing_children env db k i =
     list_ex (\<lambda>j. j \<noteq> k \<and>
         list_ex (references_row env db k i (db_tables db ! j)) [0..<length (at_columns (db_tables db ! j))])
       [0..<length (db_tables db)]"

text \<open>The rows the scan found are removed from the last to the first.\<close>

definition remove_rows :: "nat list \<Rightarrow> 'a list \<Rightarrow> 'a list" where
  "remove_rows is xs = fold without (rev (sort is)) xs"

definition app_delete ::
  "num_env \<Rightarrow> (app_table \<Rightarrow> ir_node option \<Rightarrow> nat list) \<Rightarrow> app_db \<Rightarrow> ir_node \<Rightarrow> app_result" where
  "app_delete env scan db node =
     (case find (\<lambda>c. ir_type c = IrTable) (ir_children node) of
        None \<Rightarrow> None
      | Some table_node \<Rightarrow>
          (case cql_database_find_table db (ir_value table_node) of
             None \<Rightarrow> Some (db, Some E_unknown_table)
           | Some k \<Rightarrow>
               let t = db_tables db ! k;
                   condition = (case find (\<lambda>c. ir_type c = IrWhere) (ir_children node) of
                       None \<Rightarrow> None
                     | Some w \<Rightarrow> (case ir_children w of [] \<Rightarrow> None | c # _ \<Rightarrow> Some c));
                   rows = scan t condition
               in if list_ex (cql_row_has_referencing_children env db k) rows then Some (db, Some E_referenced)
                  else Some (app_set_table db k (t\<lparr>at_rows := remove_rows rows (at_rows t)\<rparr>), None)))"

end
