(* ===== verification/App_Integrity.thy ===== *)
theory App_Integrity
  imports App_Db
begin

text \<open>
  What the constraints promise: the integrity of a database, and that the statements of \<open>App_Db\<close> keep it,
  from row to row and from statement to statement. \<open>DROP COLUMN\<close> and \<open>RENAME\<close> do not; that is shown at
  the end.
\<close>

section \<open>Integrity\<close>

definition distinct_values :: "stored option list \<Rightarrow> bool" where
  "distinct_values vs \<longleftrightarrow>
     sorted_wrt (\<lambda>a b. case (a, b) of (Some v, Some w) \<Rightarrow> \<not> same_value v w | _ \<Rightarrow> True) vs"

definition has_parent :: "app_db \<Rightarrow> string8 \<Rightarrow> string8 \<Rightarrow> column_type \<Rightarrow> stored \<Rightarrow> bool" where
  "has_parent db rt rc ty v \<longleftrightarrow>
     (\<exists>k c w. cql_database_find_table db rt = Some k \<and> app_find_column (db_tables db ! k) rc = Some c \<and>
        app_type (at_columns (db_tables db ! k) ! c) = ty \<and>
        Some w \<in> set (column_cells (db_tables db ! k) c) \<and> same_value v w)"

definition column_ok :: "num_env \<Rightarrow> app_db \<Rightarrow> app_table \<Rightarrow> nat \<Rightarrow> bool" where
  "column_ok env db t i \<longleftrightarrow>
     (let col = at_columns t ! i; vs = column_cells t i in
      app_type col \<noteq> ColInvalid \<and> (app_not_null col \<longrightarrow> None \<notin> set vs) \<and>
      (app_unique col \<or> app_primary col \<longrightarrow> distinct_values vs) \<and>
      (case app_fk col of
         None \<Rightarrow> True
       | Some (rt, rc) \<Rightarrow> rt \<noteq> at_name t \<and> (\<forall>v. Some v \<in> set vs \<longrightarrow> has_parent db rt rc (app_type col) v)) \<and>
      (case app_check col of
         None \<Rightarrow> True
       | Some e \<Rightarrow> \<forall>row \<in> set (at_rows t). cql_check_eval env t row e = Some True))"

lemma column_okI:
  assumes "app_type (at_columns t ! i) \<noteq> ColInvalid"
    "app_not_null (at_columns t ! i) \<Longrightarrow> None \<notin> set (column_cells t i)"
    "app_unique (at_columns t ! i) \<or> app_primary (at_columns t ! i) \<Longrightarrow> distinct_values (column_cells t i)"
    "\<And>rt rc. app_fk (at_columns t ! i) = Some (rt, rc) \<Longrightarrow> rt \<noteq> at_name t"
    "\<And>rt rc v. app_fk (at_columns t ! i) = Some (rt, rc) \<Longrightarrow> Some v \<in> set (column_cells t i) \<Longrightarrow>
       has_parent db rt rc (app_type (at_columns t ! i)) v"
    "\<And>e row. app_check (at_columns t ! i) = Some e \<Longrightarrow> row \<in> set (at_rows t) \<Longrightarrow> cql_check_eval env t row e = Some True"
  shows "column_ok env db t i"
  unfolding column_ok_def Let_def using assms by (auto split: option.split)

lemma column_okD:
  assumes "column_ok env db t i"
  shows "app_type (at_columns t ! i) \<noteq> ColInvalid"
    "app_not_null (at_columns t ! i) \<Longrightarrow> None \<notin> set (column_cells t i)"
    "app_unique (at_columns t ! i) \<or> app_primary (at_columns t ! i) \<Longrightarrow> distinct_values (column_cells t i)"
    "app_fk (at_columns t ! i) = Some (rt, rc) \<Longrightarrow> rt \<noteq> at_name t"
    "app_fk (at_columns t ! i) = Some (rt, rc) \<Longrightarrow> Some v \<in> set (column_cells t i) \<Longrightarrow>
       has_parent db rt rc (app_type (at_columns t ! i)) v"
    "app_check (at_columns t ! i) = Some e \<Longrightarrow> row \<in> set (at_rows t) \<Longrightarrow> cql_check_eval env t row e = Some True"
  using assms unfolding column_ok_def Let_def by (auto split: option.splits)

definition table_ok :: "num_env \<Rightarrow> app_db \<Rightarrow> app_table \<Rightarrow> bool" where
  "table_ok env db t \<longleftrightarrow>
     (\<forall>row \<in> set (at_rows t). length row = length (at_columns t)) \<and>
     (\<forall>i < length (at_columns t). column_ok env db t i)"

definition db_ok :: "num_env \<Rightarrow> app_db \<Rightarrow> bool" where
  "db_ok env db \<longleftrightarrow> distinct (map at_name (db_tables db)) \<and> (\<forall>t \<in> set (db_tables db). table_ok env db t)"

lemma empty_db_ok [simp]: "db_ok env \<lparr>db_tables = [], db_enums = es\<rparr>"
  by (simp add: db_ok_def)

lemma same_value_sym: "same_value v w \<Longrightarrow> same_value w v"
  by (induction v w rule: same_value.induct) (auto simp: f64_eq_def)

section \<open>Looking up\<close>

lemma find_table_Some:
  "cql_database_find_table db name = Some k \<Longrightarrow> k < length (db_tables db) \<and> at_name (db_tables db ! k) = name"
  unfolding cql_database_find_table_def by (drule first_index_Some) simp

lemma find_table_names:
  "map at_name (db_tables db') = map at_name (db_tables db) \<Longrightarrow>
   cql_database_find_table db' name = cql_database_find_table db name"
proof -
  have "first_index (\<lambda>t. at_name t = name) ts = first_index (\<lambda>n. n = name) (map at_name ts)" for ts
    by (induction ts) simp_all
  from this show "map at_name (db_tables db') = map at_name (db_tables db) \<Longrightarrow> ?thesis"
    unfolding cql_database_find_table_def str8_match_exact by metis
qed

lemma app_find_column_Some:
  "app_find_column t name = Some c \<Longrightarrow> c < length (at_columns t) \<and> column_name (app_col (at_columns t ! c)) = name"
  unfolding app_find_column_def by (drule first_index_Some) simp

lemma app_find_column_cong: "at_columns t' = at_columns t \<Longrightarrow> app_find_column t' name = app_find_column t name"
  by (simp add: app_find_column_def)

lemma first_index_append:
  "first_index p (xs @ ys) =
    (case first_index p xs of Some i \<Rightarrow> Some i | None \<Rightarrow> map_option ((+) (length xs)) (first_index p ys))"
proof (induction xs)
  case Nil
  show ?case by (cases "first_index p ys") simp_all
next
  case (Cons x xs)
  then show ?case by (cases "first_index p xs"; cases "first_index p ys") simp_all
qed

section \<open>Checks read only the columns they name\<close>

text \<open>What a name stands for in a row.\<close>

definition column_read :: "app_table \<Rightarrow> stored option list \<Rightarrow> string8 \<Rightarrow> (cql_column \<times> stored option) option" where
  "column_read t row name = map_option (\<lambda>c. (app_col (at_columns t ! c), row ! c)) (app_find_column t name)"

fun check_names :: "ir_node \<Rightarrow> string8 set" where
  "check_names (IR_Node ty v args) = (if ty = IrColumn then {v} else {}) \<union> (\<Union>n \<in> set args. check_names n)"

lemma check_names_self: "ir_type n = IrColumn \<Longrightarrow> ir_value n \<in> check_names n"
  by (cases n) simp

lemma load_value_read:
  "cql_check_load_value env t row node =
    (if ir_type node = IrColumn then
       (case column_read t row (ir_value node) of
          None \<Rightarrow> L_num (F64_num 0)
        | Some (col, cell) \<Rightarrow>
            (case cell of None \<Rightarrow> L_null | Some v \<Rightarrow> cell_value (column_ty col) (as_cell env (Some v))))
     else if ir_type node = IrLiteral then L_str (ir_value node)
     else L_num (f64_from_str8 env (ir_value node)))"
  by (auto simp: cql_check_load_value_def column_read_def split: option.splits)

lemma check_right_read:
  "check_right env t row left right =
    (case (if ir_type left = IrColumn then map_option fst (column_read t row (ir_value left)) else None) of
       Some col \<Rightarrow>
         let ty = column_ty col in
         if ir_type right = IrLiteral \<and> (ty = ColDate \<or> ty = ColTimestamp) then
           map_option L_num (qe_resolve_date_literal_value env ty (ir_value right))
         else if ir_type right = IrLiteral \<and> ty = ColEnum then
           map_option L_num (qe_resolve_enum_literal_value env col (ir_value right))
         else if ir_type right = IrNumeric \<and> ty = ColDecimal then
           map_option L_num (qe_resolve_decimal_literal_value env col (ir_value right))
         else Some (cql_check_load_value env t row right)
     | None \<Rightarrow> Some (cql_check_load_value env t row right))"
  by (auto simp: check_right_def column_read_def Let_def split: option.splits)

lemma check_eval_cong:
  "(\<And>name. name \<in> check_names e \<Longrightarrow> column_read t' row' name = column_read t row name) \<Longrightarrow>
   cql_check_eval env t' row' e = cql_check_eval env t row e"
proof (induction e)
  case (IR_Node ty op args)
  have load: "cql_check_load_value env t' row' n = cql_check_load_value env t row n"
    if "n \<in> set args \<or> n = IR_Node ty op args" for n
  proof (cases "ir_type n = IrColumn")
    case True
    then have "ir_value n \<in> check_names (IR_Node ty op args)"
      using check_names_self [OF True] that by (auto simp del: check_names.simps simp: check_names.simps [of ty])
    from IR_Node.prems [OF this] show ?thesis by (simp add: load_value_read)
  qed (simp add: load_value_read)
  have right: "check_right env t' row' l r = check_right env t row l r" if "l \<in> set args" "r \<in> set args" for l r
  proof (cases "ir_type l = IrColumn")
    case True
    then have "ir_value l \<in> check_names (IR_Node ty op args)" using check_names_self [OF True] that(1) by auto
    note e = IR_Node.prems [OF this] load [OF disjI1 [OF that(2)]]
    show ?thesis by (simp only: check_right_read e)
  qed (use load [of r] that(2) in \<open>simp add: check_right_read\<close>)
  have ih: "cql_check_eval env t' row' n = cql_check_eval env t row n" if "n \<in> set args" for n
    using IR_Node.IH [OF that] IR_Node.prems that by (metis UN_I UnI2 check_names.simps)
  consider "args = []" | l where "args = [l]" | l r rest where "args = l # r # rest" by (metis neq_Nil_conv)
  then show ?case
  proof cases
    case 1
    then show ?thesis using load by simp
  next
    case (2 l)
    then show ?thesis using load ih [of l] by simp
  next
    case (3 l r rest)
    then have "l \<in> set args" "r \<in> set args" by simp_all
    note e = load [OF disjI2 [OF refl], unfolded 3] load [OF disjI1 [OF this(1)]] ih [OF this(1)] ih [OF this(2)] right [OF this]
    show ?thesis unfolding 3 cql_check_eval.simps list.case e by (rule refl)
  qed
qed

lemma column_read_cong: "at_columns t' = at_columns t \<Longrightarrow> column_read t' row name = column_read t row name"
  using app_find_column_cong [of t' t name] by (simp add: column_read_def)

section \<open>Values in a column\<close>

lemma value_in_column_Some:
  "value_in_column ty ty' v (Some w # vs) =
    (if ty \<noteq> ty' then None
     else if ty' \<noteq> ColInvalid \<and> same_value v w then Some True else value_in_column ty ty' v vs)"
  by (simp add: cql_candidate_value_equals_row_def)

lemma value_in_column_False:
  "value_in_column ty ty' v vs = Some False \<Longrightarrow> Some w \<in> set vs \<Longrightarrow> ty = ty' \<and> (ty' \<noteq> ColInvalid \<longrightarrow> \<not> same_value v w)"
proof (induction vs)
  case (Cons x vs)
  then show ?case by (cases x) (auto simp: value_in_column_Some simp del: value_in_column.simps(3) split: if_splits)
qed simp

lemma value_in_column_True:
  "value_in_column ty ty' v vs = Some True \<Longrightarrow> ty = ty' \<and> (\<exists>w. Some w \<in> set vs \<and> same_value v w)"
proof (induction vs)
  case (Cons x vs)
  then show ?case by (cases x) (auto simp: value_in_column_Some simp del: value_in_column.simps(3) split: if_splits)
qed simp


section \<open>A row that passes\<close>

lemma check_column_passes:
  assumes "app_check_column env db t row i = Some None"
  shows "app_not_null (at_columns t ! i) \<Longrightarrow> row ! i \<noteq> None"
    "row ! i = Some v \<Longrightarrow> app_unique (at_columns t ! i) \<or> app_primary (at_columns t ! i) \<Longrightarrow>
       value_in_column (app_type (at_columns t ! i)) (app_type (at_columns t ! i)) v (column_cells t i) = Some False"
    "row ! i = Some v \<Longrightarrow> app_fk (at_columns t ! i) = Some (rt, rc) \<Longrightarrow>
       has_parent db rt rc (app_type (at_columns t ! i)) v"
    "app_check (at_columns t ! i) = Some e \<Longrightarrow> cql_check_eval env t row e = Some True"
proof -
  show "app_not_null (at_columns t ! i) \<Longrightarrow> row ! i \<noteq> None"
    using assms by (auto simp: app_check_column_def Let_def split: if_splits)
  show "row ! i = Some v \<Longrightarrow> app_unique (at_columns t ! i) \<or> app_primary (at_columns t ! i) \<Longrightarrow>
       value_in_column (app_type (at_columns t ! i)) (app_type (at_columns t ! i)) v (column_cells t i) = Some False"
    using assms by (auto simp: app_check_column_def Let_def bind_eq_Some_conv split: if_splits)
  show "app_check (at_columns t ! i) = Some e \<Longrightarrow> cql_check_eval env t row e = Some True"
    using assms by (auto simp: app_check_column_def Let_def bind_eq_Some_conv split: if_splits)
  assume v: "row ! i = Some v" and fk: "app_fk (at_columns t ! i) = Some (rt, rc)"
  then have "(case cql_database_find_table db rt of
        None \<Rightarrow> Some False
      | Some k \<Rightarrow>
          (case app_find_column (db_tables db ! k) rc of
             None \<Rightarrow> Some False
           | Some c \<Rightarrow>
               value_in_column (app_type (at_columns t ! i)) (app_type (at_columns (db_tables db ! k) ! c)) v
                 (column_cells (db_tables db ! k) c))) = Some True"
    using assms by (auto simp: app_check_column_def Let_def bind_eq_Some_conv split: if_splits)
  then obtain k c where k: "cql_database_find_table db rt = Some k" "app_find_column (db_tables db ! k) rc = Some c"
      "value_in_column (app_type (at_columns t ! i)) (app_type (at_columns (db_tables db ! k) ! c)) v
         (column_cells (db_tables db ! k) c) = Some True"
    by (auto split: option.splits)
  from value_in_column_True [OF k(3)] k(1,2) show "has_parent db rt rc (app_type (at_columns t ! i)) v"
    unfolding has_parent_def by metis
qed

lemma check_columns_passes:
  "app_check_columns env db t row is = Some None \<Longrightarrow> i \<in> set is \<Longrightarrow> app_check_column env db t row i = Some None"
  by (induction "is") (auto simp: bind_eq_Some_conv split: option.splits)

lemma validate_passes:
  "cql_table_validate_row_constraints env db t row = Some None \<Longrightarrow> i < length (at_columns t) \<Longrightarrow>
   app_check_column env db t row i = Some None"
  unfolding cql_table_validate_row_constraints_def by (erule check_columns_passes) (simp add: atLeast0LessThan)

section \<open>Adding a row\<close>

text \<open>A change of the rows of one table.\<close>

definition with_rows :: "app_db \<Rightarrow> nat \<Rightarrow> stored option list list \<Rightarrow> app_db" where
  "with_rows db k rows = app_set_table db k ((db_tables db ! k)\<lparr>at_rows := rows\<rparr>)"

lemma app_add_row_with: "app_add_row db k row = with_rows db k (at_rows (db_tables db ! k) @ [row])"
  by (simp add: app_add_row_def with_rows_def app_set_table_def)

lemma with_rows_nth:
  "j < length (db_tables db) \<Longrightarrow>
   db_tables (with_rows db k rows) ! j = (if j = k then (db_tables db ! k)\<lparr>at_rows := rows\<rparr> else db_tables db ! j)"
  by (simp add: with_rows_def app_set_table_def nth_list_update)

lemma with_rows_names [simp]: "map at_name (db_tables (with_rows db k rows)) = map at_name (db_tables db)"
  by (cases "k < length (db_tables db)") (simp_all add: with_rows_def app_set_table_def map_update list_update_same_conv list_update_beyond)

lemma with_rows_length [simp]: "length (db_tables (with_rows db k rows)) = length (db_tables db)"
  by (simp add: with_rows_def app_set_table_def)

lemma with_rows_find [simp]: "cql_database_find_table (with_rows db k rows) name = cql_database_find_table db name"
  by (rule find_table_names) simp

text \<open>Parents are found again if the rows that hold them stay.\<close>

lemma has_parent_with_rows:
  assumes "has_parent db rt rc ty v"
    "\<And>c w. cql_database_find_table db rt = Some k \<Longrightarrow> app_find_column (db_tables db ! k) rc = Some c \<Longrightarrow>
       app_type (at_columns (db_tables db ! k) ! c) = ty \<Longrightarrow> Some w \<in> set (column_cells (db_tables db ! k) c) \<Longrightarrow>
       same_value v w \<Longrightarrow> \<exists>row \<in> set rows. row ! c = Some w"
  shows "has_parent (with_rows db k rows) rt rc ty v"
proof -
  obtain j c w where j: "cql_database_find_table db rt = Some j" "app_find_column (db_tables db ! j) rc = Some c"
      "app_type (at_columns (db_tables db ! j) ! c) = ty" "Some w \<in> set (column_cells (db_tables db ! j) c)" "same_value v w"
    using assms(1) unfolding has_parent_def by blast
  have len: "j < length (db_tables db)" using find_table_Some [OF j(1)] by simp
  let ?t = "db_tables (with_rows db k rows) ! j"
  have cols: "at_columns ?t = at_columns (db_tables db ! j)" using len by (simp add: with_rows_nth)
  have "Some w \<in> set (column_cells ?t c)"
  proof (cases "j = k")
    case True
    then obtain row where "row \<in> set rows" "row ! c = Some w" using assms(2) j by blast
    then show ?thesis using len True by (force simp: with_rows_nth column_cells_def)
  qed (use j(4) len in \<open>simp add: with_rows_nth\<close>)
  then show ?thesis
    using j cols app_find_column_cong [OF cols, of rc] unfolding has_parent_def by (intro exI conjI) (simp_all add: cols)
qed

lemma distinct_values_snoc:
  "distinct_values (vs @ [x]) \<longleftrightarrow>
     distinct_values vs \<and> (\<forall>v w. Some v \<in> set vs \<longrightarrow> x = Some w \<longrightarrow> \<not> same_value v w)"
  by (auto simp: distinct_values_def sorted_wrt_append split: option.splits)

lemma cells_snoc: "column_cells (t\<lparr>at_rows := at_rows t @ [row]\<rparr>) i = column_cells t i @ [row ! i]"
  by (simp add: column_cells_def)

lemma check_eval_rows: "cql_check_eval env (t\<lparr>at_rows := rows\<rparr>) row e = cql_check_eval env t row e"
  by (rule check_eval_cong) (rule column_read_cong, simp)

lemma app_add_row_ok:
  assumes "db_ok env db" "k < length (db_tables db)" "length row = length (at_columns (db_tables db ! k))"
    "cql_table_validate_row_constraints env db (db_tables db ! k) row = Some None"
  shows "db_ok env (app_add_row db k row)"
proof -
  let ?t = "db_tables db ! k" and ?rows = "at_rows (db_tables db ! k) @ [row]"
  let ?db = "with_rows db k ?rows" and ?t' = "(db_tables db ! k)\<lparr>at_rows := at_rows (db_tables db ! k) @ [row]\<rparr>"
  have parents: "has_parent ?db rt rc ty v" if "has_parent db rt rc ty v" for rt rc ty v
    by (rule has_parent_with_rows [OF that]) (auto simp: column_cells_def)
  have old: "table_ok env db t" if "t \<in> set (db_tables db)" for t using assms(1) that by (simp add: db_ok_def)
  have "table_ok env ?db (db_tables ?db ! j)" if j: "j < length (db_tables db)" for j
  proof (cases "j = k")
    case False
    have "column_ok env ?db (db_tables db ! j) i" if "i < length (at_columns (db_tables db ! j))" for i
    proof -
      have "column_ok env db (db_tables db ! j) i" using old [of "db_tables db ! j"] j that by (simp add: table_ok_def)
      note o = column_okD [OF this]
      show ?thesis by (rule column_okI) (use o parents in blast)+
    qed
    then show ?thesis using old [of "db_tables db ! j"] j False by (simp add: table_ok_def with_rows_nth)
  next
    case True
    have "column_ok env ?db ?t' i" if i: "i < length (at_columns ?t)" for i
    proof -
      let ?col = "at_columns ?t ! i"
      have "column_ok env db ?t i" using old [of ?t] assms(2) i by (simp add: table_ok_def)
      note o = column_okD [OF this]
      note pass = check_column_passes [OF validate_passes [OF assms(4) i]]
      have cols: "at_columns ?t' = at_columns ?t" "at_name ?t' = at_name ?t" by simp_all
      show ?thesis
      proof (rule column_okI, unfold cols cells_snoc distinct_values_snoc check_eval_rows)
        assume u: "app_unique ?col \<or> app_primary ?col"
        show "distinct_values (column_cells ?t i) \<and>
            (\<forall>v w. Some v \<in> set (column_cells ?t i) \<longrightarrow> row ! i = Some w \<longrightarrow> \<not> same_value v w)"
        proof (intro conjI allI impI)
          fix v w assume "Some v \<in> set (column_cells ?t i)" "row ! i = Some w"
          then show "\<not> same_value v w"
            using value_in_column_False [OF pass(2) [OF _ u]] o(1) same_value_sym by blast
        qed (rule o(3) [OF u])
      next
        show "app_type ?col \<noteq> ColInvalid" by (rule o(1))
      next
        assume "app_not_null ?col"
        then show "None \<notin> set (column_cells ?t i @ [row ! i])" using o(2) pass(1) by auto
      next
        fix rt rc assume "app_fk ?col = Some (rt, rc)"
        then show "rt \<noteq> at_name ?t" by (rule o(4))
      next
        fix rt rc v assume "app_fk ?col = Some (rt, rc)" "Some v \<in> set (column_cells ?t i @ [row ! i])"
        then show "has_parent ?db rt rc (app_type ?col) v" using o(5) pass(3) parents by auto
      next
        fix e r assume "app_check ?col = Some e" "r \<in> set (at_rows ?t')"
        then show "cql_check_eval env ?t r e = Some True" using o(6) pass(4) by auto
      qed
    qed
    then show ?thesis
      using old [of ?t] assms(2,3) True by (auto simp: table_ok_def with_rows_nth)
  qed
  then show ?thesis
    using assms(1) unfolding app_add_row_with db_ok_def by (simp add: all_set_conv_all_nth)
qed


section \<open>Inserting\<close>

lemma app_fill_length: "app_fill env narrow t slots ns row = Inr row' \<Longrightarrow> length row' = length row"
  by (induction env narrow t slots ns row rule: app_fill.induct) (auto split: if_splits sum.splits)

lemma add_row_frame [simp]:
  "length (db_tables (app_add_row db k row)) = length (db_tables db)"
  "k < length (db_tables db) \<Longrightarrow> at_columns (db_tables (app_add_row db k row) ! k) = at_columns (db_tables db ! k)"
  by (simp_all add: app_add_row_def)

lemma insert_groups_ok:
  "app_insert_groups env narrow k slots gs db = Some (db', e) \<Longrightarrow> db_ok env db \<Longrightarrow> k < length (db_tables db) \<Longrightarrow> db_ok env db'"
proof (induction gs arbitrary: db)
  case (Cons g gs)
  show ?case
  proof (cases "app_fill env narrow (db_tables db ! k) slots (ir_children g) (replicate (length (at_columns (db_tables db ! k))) None)")
    case (Inl a)
    then show ?thesis using Cons.prems by (simp add: Let_def)
  next
    case (Inr row)
    obtain v where v: "cql_table_validate_row_constraints env db (db_tables db ! k) row = Some v"
      using Cons.prems(1) Inr by (auto simp: Let_def bind_eq_Some_conv)
    show ?thesis
    proof (cases v)
      case None
      have "length row = length (at_columns (db_tables db ! k))" using app_fill_length [OF Inr] by simp
      then have "db_ok env (app_add_row db k row)"
        using app_add_row_ok [OF Cons.prems(2,3)] v None by simp
      then show ?thesis using Cons.IH [of "app_add_row db k row"] Cons.prems Inr v None by (simp add: Let_def)
    next
      case (Some c)
      then show ?thesis using Cons.prems Inr v by (simp add: Let_def)
    qed
  qed
qed simp

lemma insert_ok: "app_insert env narrow db node = Some (db', e) \<Longrightarrow> db_ok env db \<Longrightarrow> db_ok env db'"
  using insert_groups_ok [of env narrow _ _ _ db db' e] find_table_Some [of db]
  by (auto simp: app_insert_def split: list.splits option.splits sum.splits prod.splits)

section \<open>Deleting\<close>

lemma map_nth_drop: "map ((!) xs) [n..<length xs] = drop n xs"
  by (rule nth_equalityI) simp_all

lemma map_nth_take: "n \<le> length xs \<Longrightarrow> map ((!) xs) [0..<n] = take n xs"
  by (rule nth_equalityI) simp_all

lemma without_nth: "j < length xs \<Longrightarrow> without j xs ! i = (if i < j then xs ! i else xs ! Suc i)" if "i < length xs - 1"
  using that by (auto simp: without_def nth_append min_def)

lemma fold_without:
  "sorted_wrt (>) js \<Longrightarrow> \<forall>j \<in> set js. j < length xs \<Longrightarrow>
   fold without js xs = map ((!) xs) (filter (\<lambda>i. i \<notin> set js) [0..<length xs])"
proof (induction js arbitrary: xs)
  case Nil
  show ?case by (simp add: map_nth)
next
  case (Cons j js)
  have j: "j < length xs" "\<forall>i \<in> set js. i < j" using Cons.prems by auto
  let ?ys = "without j xs"
  have len: "length ?ys = length xs - 1" using j(1) by (simp add: without_def)
  have "fold without (j # js) xs = map ((!) ?ys) (filter (\<lambda>i. i \<notin> set js) [0..<length ?ys])"
  proof -
    have s: "sorted_wrt (>) js" using Cons.prems(1) by simp
    have l: "\<forall>i \<in> set js. i < length ?ys"
    proof
      fix i assume "i \<in> set js"
      then show "i < length ?ys" using j(2) j(1) len by fastforce
    qed
    show ?thesis using Cons.IH [OF s l] by simp
  qed
  also have "[0..<length ?ys] = [0..<j] @ [j..<length ?ys]"
    using j(1) len by (metis less_eq_nat.simps(1) upt_add_eq_append le_add_diff_inverse Suc_pred' less_Suc_eq_le gr_implies_not0 neq0_conv One_nat_def)
  also have "filter (\<lambda>i. i \<notin> set js) ([0..<j] @ [j..<length ?ys]) = filter (\<lambda>i. i \<notin> set js) [0..<j] @ [j..<length ?ys]"
    using j(2) by (auto intro!: filter_True)
  also have "map ((!) ?ys) \<dots> = map ((!) xs) (filter (\<lambda>i. i \<notin> set js) [0..<j]) @ drop (Suc j) xs"
  proof -
    have "map ((!) ?ys) (filter (\<lambda>i. i \<notin> set js) [0..<j]) = map ((!) xs) (filter (\<lambda>i. i \<notin> set js) [0..<j])"
      using j(1) by (auto simp: without_nth)
    moreover have "map ((!) ?ys) [j..<length ?ys] = drop (Suc j) xs"
      using map_nth_drop [of ?ys j] j(1) by (simp add: without_def)
    ultimately show ?thesis by simp
  qed
  also have "\<dots> = map ((!) xs) (filter (\<lambda>i. i \<notin> set (j # js)) [0..<length xs])"
  proof -
    have "[0..<length xs] = [0..<j] @ j # [Suc j..<length xs]"
      using j(1) by (metis le0 less_imp_le upt_add_eq_append le_add_diff_inverse upt_conv_Cons)
    moreover have "filter (\<lambda>i. i \<notin> set (j # js)) [Suc j..<length xs] = [Suc j..<length xs]"
      using j(2) by (auto intro!: filter_True)
    moreover have "filter (\<lambda>i. i \<notin> set (j # js)) [0..<j] = filter (\<lambda>i. i \<notin> set js) [0..<j]"
      by (rule filter_cong) auto
    ultimately show ?thesis using map_nth_drop [of xs "Suc j"] by simp
  qed
  finally show ?case .
qed

lemma remove_rows_nth:
  assumes "distinct is" "\<forall>i \<in> set is. i < length xs"
  shows "remove_rows is xs = map ((!) xs) (filter (\<lambda>i. i \<notin> set is) [0..<length xs])"
proof -
  have "sorted_wrt (<) (sort is)" using assms(1) by (simp add: strict_sorted_iff)
  then have "sorted_wrt (>) (rev (sort is))" by (simp add: sorted_wrt_rev)
  from fold_without [OF this, of xs] show ?thesis using assms(2) by (simp add: remove_rows_def)
qed


text \<open>A scan that finds the rows the CPU reference finds, in whatever order.\<close>

definition scan_ok :: "num_env \<Rightarrow> (app_table \<Rightarrow> ir_node option \<Rightarrow> nat list) \<Rightarrow> bool" where
  "scan_ok env scan \<longleftrightarrow>
     (\<forall>t condition. mset (scan t condition) = mset (qe_cpu_scan_filter env (as_table env (app_native t)) condition))"

lemma scan_rows:
  assumes "scan_ok env scan"
  shows "distinct (scan t condition)"
    "set (scan t condition) =
      {i. i < length (at_rows t) \<and> eval_opt env [(as_table env (app_native t), [])] [Some i] condition}"
proof -
  have m: "mset (scan t condition) = mset (qe_cpu_scan_filter env (as_table env (app_native t)) condition)"
    using assms by (simp add: scan_ok_def)
  have "distinct (qe_cpu_scan_filter env (as_table env (app_native t)) condition)"
    by (simp add: qe_cpu_scan_filter_def)
  then show "distinct (scan t condition)" using m by (metis mset_eq_imp_distinct_iff)
  show "set (scan t condition) =
      {i. i < length (at_rows t) \<and> eval_opt env [(as_table env (app_native t), [])] [Some i] condition}"
    using mset_eq_setD [OF m] by (auto simp: qe_cpu_scan_filter_def app_native_def)
qed

lemma remove_rows_subset: "distinct is \<Longrightarrow> \<forall>i \<in> set is. i < length xs \<Longrightarrow> set (remove_rows is xs) \<subseteq> set xs"
  by (auto simp: remove_rows_nth)

lemma remove_rows_keeps:
  "distinct is \<Longrightarrow> \<forall>i \<in> set is. i < length xs \<Longrightarrow> i < length xs \<Longrightarrow> i \<notin> set is \<Longrightarrow> xs ! i \<in> set (remove_rows is xs)"
  by (auto simp: remove_rows_nth)

lemma sorted_wrt_filter_nth:
  assumes "sorted_wrt P xs"
  shows "sorted_wrt P (map ((!) xs) (filter Q [0..<length xs]))"
  unfolding sorted_wrt_map
proof (rule sorted_wrt_mono_rel)
  show "sorted_wrt (<) (filter Q [0..<length xs])" by (simp add: sorted_wrt_filter)
  show "P (xs ! i) (xs ! j)" if "i \<in> set (filter Q [0..<length xs])" "j \<in> set (filter Q [0..<length xs])" "i < j" for i j
    using assms that by (simp add: sorted_wrt_iff_nth_less)
qed

lemma cells_remove:
  assumes "distinct is" "\<forall>i \<in> set is. i < length (at_rows t)"
  shows "column_cells (t\<lparr>at_rows := remove_rows is (at_rows t)\<rparr>) c =
    map ((!) (column_cells t c)) (filter (\<lambda>i. i \<notin> set is) [0..<length (column_cells t c)])"
  by (simp add: column_cells_def remove_rows_nth [OF assms])

lemma restricted_value:
  assumes "literals_ok env" "same_value v w"
  shows "cql_stored_values_equal env ty w ty v"
proof (cases "ty = ColString8")
  case True
  then show ?thesis using same_value_sym [OF assms(2)] by (simp add: cql_stored_values_equal_def)
next
  case False
  then show ?thesis
    using assms by (cases v; cases w) (auto simp: cql_stored_values_equal_def f64_eq_def literals_ok_def)
qed

lemma remove_rows_ok:
  assumes "db_ok env db" "literals_ok env" "k < length (db_tables db)" "distinct is"
    "\<forall>i \<in> set is. i < length (at_rows (db_tables db ! k))"
    "\<forall>i \<in> set is. \<not> cql_row_has_referencing_children env db k i"
  shows "db_ok env (with_rows db k (remove_rows is (at_rows (db_tables db ! k))))"
proof -
  let ?t = "db_tables db ! k"
  let ?rows = "remove_rows is (at_rows ?t)"
  let ?db = "with_rows db k ?rows" and ?t' = "?t\<lparr>at_rows := ?rows\<rparr>"
  have sub: "set ?rows \<subseteq> set (at_rows ?t)" by (rule remove_rows_subset [OF assms(4,5)])
  have col: "column_ok env db (db_tables db ! j) i" "\<forall>row \<in> set (at_rows (db_tables db ! j)). length row = length (at_columns (db_tables db ! j))"
    if "j < length (db_tables db)" "i < length (at_columns (db_tables db ! j))" for j i
    using assms(1) that by (simp_all add: db_ok_def table_ok_def)
  have parents: "has_parent ?db rt rc ty v"
    if hp: "has_parent db rt rc ty v"
      and child: "j < length (db_tables db)" "i < length (at_columns (db_tables db ! j))"
        "app_fk (at_columns (db_tables db ! j) ! i) = Some (rt, rc)" "ty = app_type (at_columns (db_tables db ! j) ! i)"
        "Some v \<in> set (column_cells (db_tables db ! j) i)" for rt rc ty v j i
  proof (rule has_parent_with_rows [OF hp])
    fix c w
    assume k: "cql_database_find_table db rt = Some k" and c: "app_find_column ?t rc = Some c"
      and ty: "app_type (at_columns ?t ! c) = ty" and w: "Some w \<in> set (column_cells ?t c)" "same_value v w"
    have name: "at_name ?t = rt" using find_table_Some [OF k] by simp
    have "rt \<noteq> at_name (db_tables db ! j)" using column_okD(4) [OF col(1) [OF child(1,2)] child(3)] .
    then have jk: "j \<noteq> k" using name by blast
    obtain n where n: "n < length (at_rows ?t)" "at_rows ?t ! n ! c = Some w"
      using w(1) by (auto simp: column_cells_def in_set_conv_nth)
    have "n \<notin> set is"
    proof
      assume "n \<in> set is"
      then have "\<not> cql_row_has_referencing_children env db k n" using assms(6) by blast
      moreover have "references_row env db k n (db_tables db ! j) i"
        using child(3,5) name c n(2) ty child(4) restricted_value [OF assms(2) w(2), of ty]
        by (auto simp: references_row_def Let_def list_ex_iff intro!: bexI [of _ "Some v"])
      ultimately show False using child(1,2) jk by (auto simp: cql_row_has_referencing_children_def list_ex_iff)
    qed
    then show "\<exists>row \<in> set ?rows. row ! c = Some w"
      using remove_rows_keeps [OF assms(4,5) n(1)] n(2) by blast
  qed
  have "table_ok env ?db (db_tables ?db ! j)" if j: "j < length (db_tables db)" for j
  proof (cases "j = k")
    case False
    have "column_ok env ?db (db_tables db ! j) i" if i: "i < length (at_columns (db_tables db ! j))" for i
    proof -
      note o = column_okD [OF col(1) [OF j i]]
      show ?thesis
      proof (rule column_okI)
        show "has_parent ?db rt rc (app_type (at_columns (db_tables db ! j) ! i)) v"
          if "app_fk (at_columns (db_tables db ! j) ! i) = Some (rt, rc)" "Some v \<in> set (column_cells (db_tables db ! j) i)"
          for rt rc v
          using parents [OF o(5) [OF that] j i that(1) refl that(2)] .
      qed (use o in blast)+
    qed
    then show ?thesis using assms(1) j False by (simp add: table_ok_def with_rows_nth db_ok_def)
  next
    case True
    have "column_ok env ?db ?t' i" if i: "i < length (at_columns ?t)" for i
    proof -
      note o = column_okD [OF col(1) [OF assms(3) i]]
      have cells: "set (column_cells ?t' i) \<subseteq> set (column_cells ?t i)" using sub by (auto simp: column_cells_def)
      show ?thesis
      proof (rule column_okI)
        show "distinct_values (column_cells ?t' i)"
          if "app_unique (at_columns ?t' ! i) \<or> app_primary (at_columns ?t' ! i)"
          unfolding cells_remove [OF assms(4,5)] distinct_values_def
          by (rule sorted_wrt_filter_nth) (use o(3) that in \<open>simp add: distinct_values_def\<close>)
        show "has_parent ?db rt rc (app_type (at_columns ?t' ! i)) v"
          if "app_fk (at_columns ?t' ! i) = Some (rt, rc)" "Some v \<in> set (column_cells ?t' i)" for rt rc v
          using parents [OF o(5) assms(3) i] that cells by (simp add: subset_iff)
        show "cql_check_eval env ?t' row e = Some True"
          if "app_check (at_columns ?t' ! i) = Some e" "row \<in> set (at_rows ?t')" for e row
          using o(6) [of e row] that sub unfolding check_eval_rows by auto
        show "None \<notin> set (column_cells ?t' i)" if "app_not_null (at_columns ?t' ! i)"
          using o(2) that cells by auto
      qed (use o in simp_all)
    qed
    then show ?thesis using assms(1,3) True sub by (auto simp: table_ok_def with_rows_nth db_ok_def)
  qed
  then show ?thesis using assms(1) unfolding db_ok_def by (simp add: all_set_conv_all_nth)
qed

lemma delete_ok:
  assumes "app_delete env scan db node = Some (db', e)" "db_ok env db" "literals_ok env" "scan_ok env scan"
  shows "db_ok env db'"
proof -
  obtain tn where tn: "find (\<lambda>c. ir_type c = IrTable) (ir_children node) = Some tn"
    using assms(1) by (auto simp: app_delete_def split: option.splits)
  show ?thesis
  proof (cases "cql_database_find_table db (ir_value tn)")
    case None
    then show ?thesis using assms(1,2) tn by (simp add: app_delete_def)
  next
    case (Some k)
    define condition where "condition = (case find (\<lambda>c. ir_type c = IrWhere) (ir_children node) of
        None \<Rightarrow> None | Some w \<Rightarrow> (case ir_children w of [] \<Rightarrow> None | c # _ \<Rightarrow> Some c))"
    let ?rows = "scan (db_tables db ! k) condition"
    have k: "k < length (db_tables db)" using find_table_Some [OF Some] by simp
    show ?thesis
    proof (cases "list_ex (cql_row_has_referencing_children env db k) ?rows")
      case True
      then show ?thesis using assms(1,2) tn Some by (simp add: app_delete_def Let_def condition_def)
    next
      case False
      then have "db' = with_rows db k (remove_rows ?rows (at_rows (db_tables db ! k)))"
        using assms(1) tn Some by (simp add: app_delete_def Let_def condition_def with_rows_def)
      moreover have "db_ok env (with_rows db k (remove_rows ?rows (at_rows (db_tables db ! k))))"
        using False scan_rows [OF assms(4), of "db_tables db ! k" condition]
        by (intro remove_rows_ok [OF assms(2,3) k]) (auto simp: list_ex_iff)
      ultimately show ?thesis by simp
    qed
  qed
qed


section \<open>Creating and altering\<close>

lemma typed_column_plain:
  "app_typed_column db name type_node = Inr col \<Longrightarrow>
   app_type col \<noteq> ColInvalid \<and> app_fk col = None \<and> app_check col = None \<and> \<not> app_not_null col \<and>
   \<not> app_unique col \<and> \<not> app_primary col \<and> column_name (app_col col) = name"
  by (auto simp: app_typed_column_def Let_def split: if_splits option.splits)

text \<open>A column under construction: its type is known and a foreign key leads to a table that exists.\<close>

definition column_wf :: "app_db \<Rightarrow> app_column \<Rightarrow> bool" where
  "column_wf db col \<longleftrightarrow>
     app_type col \<noteq> ColInvalid \<and>
     (case app_fk col of None \<Rightarrow> True | Some (rt, rc) \<Rightarrow> cql_database_find_table db rt \<noteq> None)"

lemma constrain_wf: "app_constrain db c col = Some col' \<Longrightarrow> column_wf db col \<Longrightarrow> column_wf db col'"
  by (auto simp: app_constrain_def column_wf_def split: if_splits option.splits list.splits)

lemma constrain_all_wf: "app_constrain_all db cs col = Some col' \<Longrightarrow> column_wf db col \<Longrightarrow> column_wf db col'"
  by (induction cs arbitrary: col) (auto simp: bind_eq_Some_conv dest: constrain_wf)

lemma columns_wf: "app_columns db ns = Some (Inr cols) \<Longrightarrow> \<forall>col \<in> set cols. column_wf db col"
proof (induction ns arbitrary: cols)
  case (Cons n ns)
  then obtain type_node clauses where n: "ir_children n = type_node # clauses" by (auto split: list.splits)
  obtain col0 where col0: "app_typed_column db (ir_value n) type_node = Inr col0"
    using Cons.prems n by (auto split: sum.splits)
  obtain col r where r: "app_constrain_all db clauses col0 = Some col" "app_columns db ns = Some r"
      "(case r of Inl e \<Rightarrow> Inl e | Inr cols \<Rightarrow> Inr (col # cols)) = Inr cols"
    using Cons.prems n col0 by (auto simp: bind_eq_Some_conv)
  then obtain cols' where c: "app_constrain_all db clauses col0 = Some col" "app_columns db ns = Some (Inr cols')"
      "cols = col # cols'" by (cases r) auto
  have "column_wf db col0" using typed_column_plain [OF col0] by (simp add: column_wf_def)
  then have "column_wf db col" by (rule constrain_all_wf [OF c(1)])
  then show ?case using Cons.IH [OF c(2)] c(3) by simp
qed simp

lemma find_table_append:
  "cql_database_find_table db name = Some k \<Longrightarrow>
   cql_database_find_table (db\<lparr>db_tables := db_tables db @ ts\<rparr>) name = Some k"
  by (simp add: cql_database_find_table_def first_index_append)

lemma find_table_None: "cql_database_find_table db name = None \<longleftrightarrow> name \<notin> at_name ` set (db_tables db)"
  by (auto simp: cql_database_find_table_def first_index_None)

lemma has_parent_append:
  assumes "has_parent db rt rc ty v"
  shows "has_parent (db\<lparr>db_tables := db_tables db @ ts\<rparr>) rt rc ty v"
proof -
  obtain k c w where k: "cql_database_find_table db rt = Some k" "app_find_column (db_tables db ! k) rc = Some c"
      "app_type (at_columns (db_tables db ! k) ! c) = ty" "Some w \<in> set (column_cells (db_tables db ! k) c)" "same_value v w"
    using assms unfolding has_parent_def by blast
  have "(db_tables db @ ts) ! k = db_tables db ! k" using find_table_Some [OF k(1)] by (simp add: nth_append)
  then show ?thesis using find_table_append [OF k(1), of ts] k(2-5) unfolding has_parent_def by auto
qed

lemma create_table_ok: "app_create_table db node = Some (db', e) \<Longrightarrow> db_ok env db \<Longrightarrow> db_ok env db'"
proof -
  assume run: "app_create_table db node = Some (db', e)" and ok: "db_ok env db"
  show "db_ok env db'"
  proof (cases "\<exists>cols. cql_database_find_table db (ir_value node) = None \<and>
      app_columns db (ir_children node) = Some (Inr cols)")
    case False
    have "db' = db"
    proof (cases "cql_database_find_table db (ir_value node)")
      case None
      then obtain r where "app_columns db (ir_children node) = Some r"
          "(case r of Inl e \<Rightarrow> Some (db, Some e)
            | Inr cols \<Rightarrow> Some (db\<lparr>db_tables := db_tables db @ [\<lparr>at_name = ir_value node, at_columns = cols, at_rows = []\<rparr>]\<rparr>, None)) =
           Some (db', e)"
        using run by (auto simp: app_create_table_def bind_eq_Some_conv)
      then show ?thesis using False None by (cases r) auto
    qed (use run in \<open>simp add: app_create_table_def\<close>)
    then show ?thesis using ok by simp
  next
    case True
    then obtain cols where none: "cql_database_find_table db (ir_value node) = None"
      and cols: "app_columns db (ir_children node) = Some (Inr cols)" by blast
    let ?t = "\<lparr>at_name = ir_value node, at_columns = cols, at_rows = []\<rparr>"
    let ?db = "db\<lparr>db_tables := db_tables db @ [?t]\<rparr>"
    have db': "db' = ?db" using run none cols by (simp add: app_create_table_def)
    have "column_ok env ?db ?t i" if "i < length cols" for i
    proof -
      have wf: "column_wf db (cols ! i)" using columns_wf [OF cols] that by simp
      show ?thesis
      proof (rule column_okI)
        show "rt \<noteq> at_name ?t" if "app_fk (at_columns ?t ! i) = Some (rt, rc)" for rt rc
          using wf that none by (auto simp: column_wf_def)
      qed (use wf in \<open>simp_all add: column_wf_def column_cells_def distinct_values_def\<close>)
    qed
    then have new: "table_ok env ?db ?t" by (simp add: table_ok_def)
    have "table_ok env ?db t" if "t \<in> set (db_tables db)" for t
    proof -
      have t: "table_ok env db t" using ok that by (simp add: db_ok_def)
      have "column_ok env ?db t i" if "i < length (at_columns t)" for i
      proof -
        have "column_ok env db t i" using t that by (simp add: table_ok_def)
        note o = column_okD [OF this]
        show ?thesis by (rule column_okI) (use o has_parent_append in blast)+
      qed
      then show ?thesis using t by (simp add: table_ok_def)
    qed
    then show ?thesis using ok new none unfolding db' db_ok_def find_table_None by auto
  qed
qed

lemma create_type_ok: "app_create_type db node = Some (db', e) \<Longrightarrow> db_ok env db \<Longrightarrow> db_ok env db'"
proof -
  have p: "has_parent (db\<lparr>db_enums := es\<rparr>) = has_parent db" for es
    by (intro ext) (simp add: has_parent_def cql_database_find_table_def)
  have c: "column_ok env (db\<lparr>db_enums := es\<rparr>) = column_ok env db" for es
    by (intro ext) (simp only: column_ok_def p)
  have "db_ok env (db\<lparr>db_enums := es\<rparr>) = db_ok env db" for es
    by (simp add: db_ok_def table_ok_def c)
  then show "app_create_type db node = Some (db', e) \<Longrightarrow> db_ok env db \<Longrightarrow> ?thesis"
    by (auto simp: app_create_type_def split: if_splits)
qed

text \<open>A new column may not be one that a check of the table already names.\<close>

definition no_check_names :: "app_table \<Rightarrow> string8 \<Rightarrow> bool" where
  "no_check_names t name \<longleftrightarrow>
     (\<forall>col \<in> set (at_columns t). case app_check col of None \<Rightarrow> True | Some e \<Rightarrow> name \<notin> check_names e)"

lemma alter_add_ok:
  assumes "app_alter_add db k operands = Some (db', e)" "db_ok env db" "k < length (db_tables db)"
    "no_check_names (db_tables db ! k) (ir_value (hd operands))"
  shows "db_ok env db'"
proof (cases "db' = db")
  case False
  let ?t = "db_tables db ! k"
  obtain name type_node rest col where ops: "operands = name # type_node # rest"
      and col: "app_typed_column db (ir_value name) type_node = Inr col"
      and db': "db' = app_set_table db k
        (?t\<lparr>at_columns := at_columns ?t @ [col], at_rows := map (\<lambda>row. row @ [None]) (at_rows ?t)\<rparr>)"
    using assms(1) False by (auto simp: app_alter_add_def Let_def split: list.splits if_splits sum.splits)
  let ?t' = "?t\<lparr>at_columns := at_columns ?t @ [col], at_rows := map (\<lambda>row. row @ [None]) (at_rows ?t)\<rparr>"
  have t: "table_ok env db ?t" using assms(2,3) by (simp add: db_ok_def)
  have nth: "db_tables db' ! j = (if j = k then ?t' else db_tables db ! j)" if "j < length (db_tables db)" for j
    using that assms(3) by (simp add: db' app_set_table_def nth_list_update)
  have names: "map at_name (db_tables db') = map at_name (db_tables db)"
    using assms(3) by (simp add: db' app_set_table_def map_update list_update_same_conv)
  note find = find_table_names [OF names]
  have cells: "column_cells ?t' i = column_cells ?t i" if "i < length (at_columns ?t)" for i
    using t that by (auto simp: column_cells_def table_ok_def nth_append)
  have found: "app_find_column ?t' n = Some c" if "app_find_column ?t n = Some c" for n c
    using that by (simp add: app_find_column_def first_index_append)
  have parents: "has_parent db' rt rc ty v" if hp: "has_parent db rt rc ty v" for rt rc ty v
  proof -
    obtain j c w where j: "cql_database_find_table db rt = Some j" "app_find_column (db_tables db ! j) rc = Some c"
        "app_type (at_columns (db_tables db ! j) ! c) = ty" "Some w \<in> set (column_cells (db_tables db ! j) c)" "same_value v w"
      using hp unfolding has_parent_def by blast
    have jl: "j < length (db_tables db)" using find_table_Some [OF j(1)] by simp
    have cl: "c < length (at_columns (db_tables db ! j))" using app_find_column_Some [OF j(2)] by simp
    show ?thesis
    proof (cases "j = k")
      case True
      then show ?thesis
        unfolding has_parent_def find using j jl cl found cells nth by (intro exI [of _ j] exI [of _ c] exI [of _ w]) (simp add: nth_append)
    next
      case False
      then show ?thesis
        unfolding has_parent_def find using j jl nth by (intro exI [of _ j] exI [of _ c] exI [of _ w]) simp
    qed
  qed
  have read: "column_read ?t' (row @ [None]) n = column_read ?t row n"
    if "n \<noteq> ir_value name" "row \<in> set (at_rows ?t)" for row n
  proof (cases "app_find_column ?t n")
    case None
    have "app_find_column ?t' n = None"
      using None that(1) typed_column_plain [OF col] by (simp add: app_find_column_def first_index_append)
    then show ?thesis using None by (simp add: column_read_def)
  next
    case (Some c)
    then have "c < length (at_columns ?t)" "c < length row"
      using app_find_column_Some [OF Some] t that(2) by (simp_all add: table_ok_def)
    then show ?thesis using found [OF Some] Some by (simp add: column_read_def nth_append)
  qed
  have "column_ok env db' ?t' i" if i: "i < length (at_columns ?t')" for i
  proof (cases "i < length (at_columns ?t)")
    case True
    then have "column_ok env db ?t i" using t by (simp add: table_ok_def)
    note o = column_okD [OF this]
    have same: "at_columns ?t' ! i = at_columns ?t ! i" "at_name ?t' = at_name ?t" using True by (simp_all add: nth_append)
    show ?thesis
    proof (rule column_okI, unfold same cells [OF True])
      show "cql_check_eval env ?t' row e = Some True"
        if e: "app_check (at_columns ?t ! i) = Some e" and row: "row \<in> set (at_rows ?t')" for e row
      proof -
        obtain r where r: "r \<in> set (at_rows ?t)" "row = r @ [None]" using row by auto
        have "ir_value name \<notin> check_names e"
          using assms(4) e True unfolding no_check_names_def ops by (auto simp: all_set_conv_all_nth)
        then have "cql_check_eval env ?t' (r @ [None]) e = cql_check_eval env ?t r e"
          by (intro check_eval_cong read) (use r(1) in auto)
        then show ?thesis using o(6) [OF e r(1)] r(2) by simp
      qed
    qed (use o parents in blast)+
  next
    case False
    then have "at_columns ?t' ! i = col" using i by (simp add: nth_append)
    then show ?thesis using typed_column_plain [OF col] by (intro column_okI) simp_all
  qed
  then have new: "table_ok env db' ?t'" using t by (simp add: table_ok_def)
  have old: "table_ok env db' t" if "t \<in> set (db_tables db)" for t
  proof -
    have t: "table_ok env db t" using assms(2) that by (simp add: db_ok_def)
    have "column_ok env db' t i" if "i < length (at_columns t)" for i
    proof -
      have "column_ok env db t i" using t that by (simp add: table_ok_def)
      note o = column_okD [OF this]
      show ?thesis by (rule column_okI) (use o parents in blast)+
    qed
    then show ?thesis using t by (simp add: table_ok_def)
  qed
  have "table_ok env db' t" if "t \<in> set (db_tables db')" for t
    using that new old set_update_subset_insert [of "db_tables db" k ?t'] by (auto simp: db' app_set_table_def)
  then show ?thesis using assms(2) names by (simp add: db_ok_def)
qed (use assms(2) in simp)

end
