(* ===== verification/App_Props.thy ===== *)
theory App_Props
  imports App_Integrity
begin

text \<open>
  The properties of the statements that change a database: integrity over any run of them, what \<open>DELETE\<close>
  leaves, when a \<open>CHECK\<close> means what the same condition means in a \<open>WHERE\<close> clause, and what happens when it
  does not.
\<close>

section \<open>Runs of statements\<close>

inductive app_step ::
  "num_env \<Rightarrow> (f64 \<Rightarrow> f64) \<Rightarrow> (app_table \<Rightarrow> ir_node option \<Rightarrow> nat list) \<Rightarrow> app_db \<Rightarrow> app_db \<Rightarrow> bool"
  for env narrow scan where
  create_table: "app_create_table db node = Some (db', e) \<Longrightarrow> app_step env narrow scan db db'"
| create_type: "app_create_type db node = Some (db', e) \<Longrightarrow> app_step env narrow scan db db'"
| insert: "app_insert env narrow db node = Some (db', e) \<Longrightarrow> app_step env narrow scan db db'"
| delete: "app_delete env scan db node = Some (db', e) \<Longrightarrow> app_step env narrow scan db db'"
| add_column:
    "app_alter_add db k operands = Some (db', e) \<Longrightarrow> k < length (db_tables db) \<Longrightarrow>
     no_check_names (db_tables db ! k) (ir_value (hd operands)) \<Longrightarrow> app_step env narrow scan db db'"

lemma app_step_ok:
  assumes "app_step env narrow scan db db'" "db_ok env db" "literals_ok env" "scan_ok env scan"
  shows "db_ok env db'"
  using assms
proof (induction rule: app_step.induct)
  case create_table
  then show ?case using create_table_ok by blast
next
  case create_type
  then show ?case using create_type_ok by blast
next
  case insert
  then show ?case using insert_ok by blast
next
  case delete
  then show ?case using delete_ok by blast
next
  case add_column
  then show ?case using alter_add_ok by blast
qed


section \<open>DELETE\<close>

definition delete_condition :: "ir_node \<Rightarrow> ir_node option" where
  "delete_condition node =
     (case find (\<lambda>c. ir_type c = IrWhere) (ir_children node) of
        None \<Rightarrow> None
      | Some w \<Rightarrow> (case ir_children w of [] \<Rightarrow> None | c # _ \<Rightarrow> Some c))"


section \<open>CHECK and WHERE\<close>

lemma native_find: "cql_table_find_column (as_table env (app_native t)) name = app_find_column t name"
proof -
  have "first_index (\<lambda>c. column_name c = name) (map app_col cs) = first_index (\<lambda>c. column_name (app_col c) = name) cs" for cs
    by (induction cs) simp_all
  then show ?thesis by (simp add: cql_table_find_column_def app_find_column_def app_native_def)
qed

lemma app_native_simps [simp]:
  "nt_columns (app_native t) = map app_col (at_columns t)" "nt_rows (app_native t) = at_rows t" "nt_name (app_native t) = at_name t"
  by (simp_all add: app_native_def)

lemma cell_value_as_cell:
  "cell_value ty (as_cell env cell) = (case cell of None \<Rightarrow> L_null | Some v \<Rightarrow> cell_value ty (as_cell env (Some v)))"
  by (cases cell) (simp_all add: cell_value_def)

definition plain_node :: "ir_node \<Rightarrow> bool" where
  "plain_node n \<longleftrightarrow> (ir_type n = IrColumn \<longrightarrow> \<not> has_dot (ir_value n))"

lemma load_agrees:
  assumes "plain_node n" "i < length (at_rows t)" "length (at_rows t ! i) = length (at_columns t)"
  shows "qe_row_load_value env [(as_table env (app_native t), [])] [Some i] n = cql_check_load_value env t (at_rows t ! i) n"
proof (cases "ir_type n = IrColumn")
  case True
  then have p: "\<not> has_dot (ir_value n)" using assms(1) by (simp add: plain_node_def)
  show ?thesis
  proof (cases "app_find_column t (ir_value n)")
    case None
    then show ?thesis using True p
      by (simp add: qe_row_load_value_def load_column_def qe_resolve_column_table_def native_find cql_check_load_value_def)
  next
    case (Some c)
    then have c: "c < length (at_columns t)" using app_find_column_Some by blast
    have "qe_resolve_column_table [(as_table env (app_native t), [])] (ir_value n) = Some 0"
      using resolve_sole [OF p] native_find [of env t] Some by metis
    then show ?thesis using True p Some c assms(2,3) cell_value_as_cell
      by (simp add: qe_row_load_value_def load_column_def native_find cql_check_load_value_def qe_bare_column_name_def)
  qed
qed (simp add: qe_row_load_value_def cql_check_load_value_def)

lemma resolve_agrees:
  assumes "plain_node l" "plain_node r" "i < length (at_rows t)" "length (at_rows t ! i) = length (at_columns t)"
  shows "resolve_right env [(as_table env (app_native t), [])] [Some i] l r = check_right env t (at_rows t ! i) l r"
proof (cases "ir_type l = IrColumn")
  case True
  then have p: "\<not> has_dot (ir_value l)" using assms(1) by (simp add: plain_node_def)
  show ?thesis
  proof (cases "app_find_column t (ir_value l)")
    case None
    then have "resolve_column [(as_table env (app_native t), [])] (ir_value l) = None"
      using p by (simp add: resolve_column_def qe_resolve_column_table_def native_find)
    then show ?thesis using True None load_agrees [OF assms(2-4)] by (simp add: resolve_right_def check_right_def)
  next
    case (Some c)
    then have c: "c < length (at_columns t)" using app_find_column_Some by blast
    have "qe_resolve_column_table [(as_table env (app_native t), [])] (ir_value l) = Some 0"
      using resolve_sole [OF p] native_find [of env t] Some by metis
    then have "resolve_column [(as_table env (app_native t), [])] (ir_value l) = Some (0, c)"
      using p Some by (simp add: resolve_column_def native_find qe_bare_column_name_def)
    moreover have "column_at [(as_table env (app_native t), [])] (0, c) = app_col (at_columns t ! c)"
      using c by (simp add: column_at_def)
    ultimately show ?thesis
      by (simp only: resolve_right_def check_right_def True Some if_True simp_thms option.case option.map Let_def load_agrees [OF assms(2-4)])
  qed
qed (use load_agrees [OF assms(2-4)] in \<open>simp add: resolve_right_def check_right_def\<close>)

definition orderings :: "string8 list" where
  "orderings = [''<'', ''>'', ''<='', ''>='']"

text \<open>No list of values, no fuzzy call, no strings in order, both operands of every operator.\<close>

fun check_fits :: "cql_table \<Rightarrow> ir_node \<Rightarrow> bool" where
  "check_fits t (IR_Node ty op args) \<longleftrightarrow>
     (if ty \<noteq> IrOperator then plain_node (IR_Node ty op args)
      else if is_op op ''and'' \<or> is_op op ''or'' then
        (case args of l # r # _ \<Rightarrow> check_fits t l \<and> check_fits t r | _ \<Rightarrow> False)
      else if is_op op ''is null'' \<or> is_op op ''is not null'' then (case args of l # _ \<Rightarrow> plain_node l | _ \<Rightarrow> False)
      else
        \<not> is_op op ''in'' \<and> \<not> is_op op ''not in'' \<and>
        (case args of
           l # r # _ \<Rightarrow>
             plain_node l \<and> plain_node r \<and> qe_ir_is_fuzzy_call l = None \<and>
             (op \<in> set orderings \<longrightarrow> num_operand t l \<and> num_operand t r)
         | _ \<Rightarrow> False))"

lemma compare_agrees: "op \<notin> set orderings \<or> \<not> is_L_str l \<and> \<not> is_L_str r \<Longrightarrow> compare_loaded op l r = check_compare op l r"
  by (auto simp: compare_loaded_def check_compare_def compare_strings_def orderings_def Let_def is_op_def)


lemma num_operand_not_string:
  assumes "num_operand (as_table env (app_native t)) n"
  shows "\<not> is_L_str (cql_check_load_value env t row n)"
proof (cases "ir_type n = IrColumn")
  case True
  then obtain c where c: "column_of (as_table env (app_native t)) n = Some c"
      "column_ty (columns (as_table env (app_native t)) ! c) \<noteq> ColString8"
    using num_operand_column [OF assms] by blast
  have "app_find_column t (ir_value n) = Some c" using column_of_Some(3) [OF c(1)] by (simp add: native_find)
  moreover have "app_type (at_columns t ! c) \<noteq> ColString8" using c(2) column_of_Some(4) [OF c(1)] by simp
  ultimately show ?thesis using True by (auto simp: cql_check_load_value_def cell_value_def split: option.split cell.split)
qed (use assms in \<open>simp add: num_operand_def cql_check_load_value_def\<close>)

lemma check_right_not_string:
  assumes "num_operand (as_table env (app_native t)) r" "check_right env t row l r = Some rv"
  shows "\<not> is_L_str rv"
proof -
  have "rv = cql_check_load_value env t row r \<or> (\<exists>x. rv = L_num x)"
    using assms(2) by (auto simp: check_right_def Let_def split: option.splits if_splits)
  then show ?thesis using num_operand_not_string [OF assms(1)] by auto
qed

lemma check_eval_agrees:
  assumes "check_fits (as_table env (app_native t)) e" "i < length (at_rows t)"
    "length (at_rows t ! i) = length (at_columns t)"
  shows "cql_check_eval env t (at_rows t ! i) e = Some (qe_row_condition_eval env [(as_table env (app_native t), [])] [Some i] e)"
  using assms(1)
proof (induction "as_table env (app_native t)" e rule: check_fits.induct)
  case (1 ty op args)
  let ?check = "cql_check_eval env t (at_rows t ! i)"
  let ?eval = "qe_row_condition_eval env [(as_table env (app_native t), [])] [Some i]"
  consider (plain) "ty \<noteq> IrOperator" | (tree) "ty = IrOperator" "is_op op ''and'' \<or> is_op op ''or''"
    | (null) "ty = IrOperator" "\<not> (is_op op ''and'' \<or> is_op op ''or'')" "is_op op ''is null'' \<or> is_op op ''is not null''"
    | (compare) "ty = IrOperator" "\<not> (is_op op ''and'' \<or> is_op op ''or'')" "\<not> (is_op op ''is null'' \<or> is_op op ''is not null'')"
    by blast
  then show ?case
  proof cases
    case plain
    then have "plain_node (IR_Node ty op args)" using "1.prems" by simp
    from load_agrees [OF this assms(2,3), of env] plain show ?thesis by simp
  next
    case tree
    then obtain l r rest where args: "args = l # r # rest"
      and fits: "check_fits (as_table env (app_native t)) l" "check_fits (as_table env (app_native t)) r"
      using "1.prems" by (auto split: list.splits)
    have l: "?check l = Some (?eval l)" using "1.hyps"(1) [OF _ _ args refl fits(1)] tree by blast
    have r: "?check r = Some (?eval r)" using "1.hyps"(2) [OF _ _ args refl fits(2)] tree by blast
    show ?thesis using tree by (auto simp: args l r)
  next
    case null
    then obtain l rest where args: "args = l # rest" and p: "plain_node l" using "1.prems" by (auto split: list.splits)
    show ?thesis using null load_agrees [OF p assms(2,3), of env] by (auto simp: args eval_leaf_def)
  next
    case compare
    then obtain l r rest where args: "args = l # r # rest"
      and p: "plain_node l" "plain_node r" "qe_ir_is_fuzzy_call l = None" "\<not> is_op op ''in''" "\<not> is_op op ''not in''"
      and o: "op \<in> set orderings \<Longrightarrow> num_operand (as_table env (app_native t)) l \<and> num_operand (as_table env (app_native t)) r"
      using "1.prems" by (auto split: list.splits)
    have "compare_loaded op (cql_check_load_value env t (at_rows t ! i) l) rv =
        check_compare op (cql_check_load_value env t (at_rows t ! i) l) rv"
      if "check_right env t (at_rows t ! i) l r = Some rv" for rv
      using o num_operand_not_string check_right_not_string [OF _ that] by (intro compare_agrees) blast
    then show ?thesis
      using compare p resolve_agrees [OF p(1,2) assms(2,3), of env] load_agrees [OF p(1) assms(2,3), of env]
      by (auto simp: args eval_leaf_def split: option.split)
  qed
qed


text \<open>C33: On a string column the four order comparisons of a \<open>CHECK\<close> test for equality, unlike those of
  a \<open>WHERE\<close> clause, and on a numeric column a check of the form \<open>x IN (...)\<close> accepts every value.\<close>

theorem cql_check_order_and_in:
  assumes "app_find_column t (ir_value l) = Some c" "ir_type l = IrColumn" "op \<in> set orderings"
    "row ! c = Some (V_str s)" "app_type (at_columns t ! c) = ColString8" "ir_type r = IrLiteral"
    "app_find_column t (ir_value n) = Some d" "ir_type n = IrColumn" "row ! d = Some (V_int v)"
    "app_type (at_columns t ! d) \<noteq> ColString8" "ir_type items = IrInList"
  shows "cql_check_eval env t row (IR_Node IrOperator op [l, r]) = Some (s = ir_value r) \<and>
    compare_strings ''<'' s (ir_value r) = (qe_str8_compare s (ir_value r) < 0) \<and>
    cql_check_eval env t row (IR_Node IrOperator ''in'' [n, items]) = Some True"
proof -
  have ops: "\<not> is_op op ''and''" "\<not> is_op op ''or''" "\<not> is_op op ''is null''" "\<not> is_op op ''is not null''"
      "\<not> is_op op ''contains''" "op \<noteq> ''!=''"
    using assms(3) by (auto simp: orderings_def is_op_def) (code_simp+)
  have ins: "\<not> is_op ''in'' ''and''" "\<not> is_op ''in'' ''or''" "\<not> is_op ''in'' ''is null''" "\<not> is_op ''in'' ''is not null''"
      "\<not> str8_match ''<'' ''contains'' match_ci"
    by code_simp+
  show ?thesis
    using assms ops ins
    by (simp add: check_right_def Let_def cql_check_load_value_def cell_value_def check_compare_def compare_strings_def
        compare_numbers_def)
qed


section \<open>Examples\<close>

abbreviation ex_scan :: "app_table \<Rightarrow> ir_node option \<Rightarrow> nat list" where
  "ex_scan t condition \<equiv> qe_cpu_scan_filter ex_scan_env (as_table ex_scan_env (app_native t)) condition"

lemma ex_scan_ok: "scan_ok ex_scan_env ex_scan"
  by (simp add: scan_ok_def)

lemma ex_env_literals: "literals_ok ex_scan_env"
  by (auto simp: literals_ok_def ex_scan_env_def digit_env_def f64_of_def f64_from_str8_def Let_def split: list.splits)

definition ex_create :: "string8 \<Rightarrow> string8 \<Rightarrow> ir_node list \<Rightarrow> ir_node" where
  "ex_create t c clauses = IR_Node IrTable t [IR_Node IrColumn c (IR_Node IrType ''string8'' [] # clauses)]"

definition ex_insert :: "string8 \<Rightarrow> string8 \<Rightarrow> ir_node" where
  "ex_insert t v = IR_Node IrInsert [] [IR_Node IrTable t [], IR_Node IrValue [] [IR_Node IrValueGroup [] [IR_Node IrLiteral v []]]]"

definition ex_delete :: "string8 \<Rightarrow> ir_node" where
  "ex_delete t = IR_Node IrDelete [] [IR_Node IrTable t []]"

definition ex_column :: "string8 \<Rightarrow> app_column" where
  "ex_column name =
     \<lparr>app_col = \<lparr>column_name = name, column_ty = ColString8, decimal_scale = 0, enum_labels = None\<rparr>,
      app_precision = 0, app_not_null = False, app_unique = False, app_primary = False, app_fk = None, app_check = None\<rparr>"

text \<open>A table of keys and one that refers to it.\<close>

definition ex_keys :: "string8 \<Rightarrow> app_table" where
  "ex_keys name =
     \<lparr>at_name = name,
      at_columns = [(ex_column ''id'')\<lparr>app_primary := True, app_not_null := True, app_unique := True\<rparr>],
      at_rows = [[Some (V_str ''a'')]]\<rparr>"

definition ex_refs :: app_table where
  "ex_refs =
     \<lparr>at_name = ''c'', at_columns = [(ex_column ''pid'')\<lparr>app_fk := Some (''p'', ''id'')\<rparr>],
      at_rows = [[Some (V_str ''a'')]]\<rparr>"

definition ex_db :: app_db where
  "ex_db = \<lparr>db_tables = [ex_keys ''p'', ex_refs], db_enums = []\<rparr>"

lemma ex_run:
  "app_create_table \<lparr>db_tables = [], db_enums = []\<rparr> (ex_create ''p'' ''id'' [IR_Node IrPrimaryKey [] []]) =
     Some (\<lparr>db_tables = [(ex_keys ''p'')\<lparr>at_rows := []\<rparr>], db_enums = []\<rparr>, None)"
  "app_create_table \<lparr>db_tables = [(ex_keys ''p'')\<lparr>at_rows := []\<rparr>], db_enums = []\<rparr>
       (ex_create ''c'' ''pid'' [IR_Node IrForeignKey ''p'' [IR_Node IrColumn ''id'' []]]) =
     Some (\<lparr>db_tables = [(ex_keys ''p'')\<lparr>at_rows := []\<rparr>, ex_refs\<lparr>at_rows := []\<rparr>], db_enums = []\<rparr>, None)"
  "app_insert ex_scan_env id \<lparr>db_tables = [(ex_keys ''p'')\<lparr>at_rows := []\<rparr>, ex_refs\<lparr>at_rows := []\<rparr>], db_enums = []\<rparr>
       (ex_insert ''p'' ''a'') =
     Some (\<lparr>db_tables = [ex_keys ''p'', ex_refs\<lparr>at_rows := []\<rparr>], db_enums = []\<rparr>, None)"
  "app_insert ex_scan_env id \<lparr>db_tables = [ex_keys ''p'', ex_refs\<lparr>at_rows := []\<rparr>], db_enums = []\<rparr> (ex_insert ''c'' ''a'') =
     Some (ex_db, None)"
  "app_insert ex_scan_env id ex_db (ex_insert ''p'' ''a'') = Some (ex_db, Some (E_violates C_unique))"
  "app_insert ex_scan_env id ex_db (ex_insert ''c'' ''b'') = Some (ex_db, Some (E_violates C_foreign_key))"
  "app_delete ex_scan_env ex_scan ex_db (ex_delete ''p'') = Some (ex_db, Some E_referenced)"
  by code_simp+

lemma ex_reached: "(app_step ex_scan_env id ex_scan)\<^sup>*\<^sup>* \<lparr>db_tables = [], db_enums = []\<rparr> ex_db"
  using app_step.create_table [OF ex_run(1)] app_step.create_table [OF ex_run(2)]
    app_step.insert [OF ex_run(3)] app_step.insert [OF ex_run(4)]
  by (meson rtranclp.rtrancl_into_rtrancl rtranclp.rtrancl_refl)



definition ex_checked :: app_table where
  "ex_checked =
     \<lparr>at_name = ''t'',
      at_columns = [ex_column ''s'', (ex_column ''x'')\<lparr>app_col := \<lparr>column_name = ''x'', column_ty = ColU32, decimal_scale = 0, enum_labels = None\<rparr>\<rparr>],
      at_rows = [[Some (V_str ''a''), Some (V_int 7)]]\<rparr>"


lemma cql_check_order_and_in_witness:
  "cql_check_eval ex_scan_env ex_checked [Some (V_str ''a''), Some (V_int 7)]
     (IR_Node IrOperator ''<'' [IR_Node IrColumn ''s'' [], IR_Node IrLiteral ''b'' []]) = Some False \<and>
   cql_check_eval ex_scan_env ex_checked [Some (V_str ''a''), Some (V_int 7)]
     (IR_Node IrOperator ''in'' [IR_Node IrColumn ''x'' [], IR_Node IrInList [] [IR_Node IrNumeric ''5'' []]]) = Some True"
proof -
  have a: "app_find_column ex_checked (ir_value (IR_Node IrColumn ''s'' [])) = Some 0"
    "app_find_column ex_checked (ir_value (IR_Node IrColumn ''x'' [])) = Some 1"
    "app_type (at_columns ex_checked ! 0) = ColString8" "app_type (at_columns ex_checked ! 1) \<noteq> ColString8"
    by code_simp+
  show ?thesis
    using cql_check_order_and_in [of ex_checked "IR_Node IrColumn ''s'' []" 0 "''<''" "[Some (V_str ''a''), Some (V_int 7)]" "''a''"
        "IR_Node IrLiteral ''b'' []" "IR_Node IrColumn ''x'' []" 1 7 "IR_Node IrInList [] [IR_Node IrNumeric ''5'' []]" ex_scan_env] a
    by (simp add: orderings_def)
qed

section \<open>Statements that break references\<close>

text \<open>C34: \<open>ALTER TABLE ... RENAME\<close> leaves the old name in the foreign keys of other tables: after it a
  referenced row can be deleted, and the row that refers to it stays behind without a parent.\<close>

theorem app_rename_orphans:
  "db_ok ex_scan_env ex_db \<and>
   app_delete ex_scan_env ex_scan ex_db (ex_delete ''p'') = Some (ex_db, Some E_referenced) \<and>
   (\<exists>db1 db2.
      app_alter ex_db (IR_Node IrAlter [] [IR_Node IrTable ''p'' [], IR_Node IrRename ''r'' []]) = Some (db1, None) \<and>
      app_delete ex_scan_env ex_scan db1 (ex_delete ''r'') = Some (db2, None) \<and>
      at_rows (db_tables db2 ! 0) = [] \<and> at_rows (db_tables db2 ! 1) = [[Some (V_str ''a'')]] \<and>
      \<not> has_parent db2 ''p'' ''id'' ColString8 (V_str ''a''))"
proof -
  have ok: "db_ok ex_scan_env ex_db"
    using ex_reached by (induction rule: rtranclp_induct) (auto intro: app_step_ok ex_env_literals ex_scan_ok)
  let ?db1 = "\<lparr>db_tables = [ex_keys ''r'', ex_refs], db_enums = []\<rparr>"
  let ?db2 = "\<lparr>db_tables = [(ex_keys ''r'')\<lparr>at_rows := []\<rparr>, ex_refs], db_enums = []\<rparr>"
  have a: "app_alter ex_db (IR_Node IrAlter [] [IR_Node IrTable ''p'' [], IR_Node IrRename ''r'' []]) = Some (?db1, None)"
    by code_simp
  have d: "app_delete ex_scan_env ex_scan ?db1 (ex_delete ''r'') = Some (?db2, None)" by code_simp
  have "cql_database_find_table ?db2 ''p'' = None" by code_simp
  then have "\<not> has_parent ?db2 ''p'' ''id'' ColString8 (V_str ''a'')" by (simp add: has_parent_def)
  then show ?thesis using ok ex_run(7) a d by (intro conjI exI [of _ ?db1] exI [of _ ?db2]) (simp_all add: ex_refs_def)
qed

end
