(* ===== verification/Qe_Order.thy ===== *)
theory Qe_Order
  imports Cql_Order
begin

text \<open>
  The sorting routines of the query engine (\<open>src/src/query_exec/query_exec.c\<close>, from
  \<open>qe_order_before\<close> to \<open>qe_top_k_native_task\<close>): the bottom-up merge sort, the heap that keeps the best rows
  of a scan, and their combination over the ranges of \<open>tp_divide_work\<close>. They order positions of rows by a
  function \<open>lt\<close>; arrays are lists, and an array that is written in place is passed along.
\<close>

section \<open>Merge sort\<close>

definition qe_order_before :: "(nat \<Rightarrow> nat \<Rightarrow> bool) \<Rightarrow> nat \<Rightarrow> nat \<Rightarrow> bool" where
  "qe_order_before lt a b = (if lt a b then True else if lt b a then False else a < b)"

text \<open>One run of the inner loops: two neighbouring sorted slices become one.\<close>

fun merge_slices :: "(nat \<Rightarrow> nat \<Rightarrow> bool) \<Rightarrow> nat list \<Rightarrow> nat list \<Rightarrow> nat list" where
  "merge_slices before (x # xs) (y # ys) =
     (if before y x then y # merge_slices before (x # xs) ys else x # merge_slices before xs (y # ys))"
| "merge_slices before xs [] = xs"
| "merge_slices before [] ys = ys"

function merge_pass :: "(nat \<Rightarrow> nat \<Rightarrow> bool) \<Rightarrow> nat \<Rightarrow> nat list \<Rightarrow> nat list" where
  "merge_pass before width xs =
     (if xs = [] \<or> width = 0 then xs
      else merge_slices before (take width xs) (take width (drop width xs)) @ merge_pass before width (drop (2 * width) xs))"
  by auto
termination by (relation "measure (\<lambda>(_, _, xs). length xs)") auto

declare merge_pass.simps [simp del]

function merge_widths :: "(nat \<Rightarrow> nat \<Rightarrow> bool) \<Rightarrow> nat \<Rightarrow> nat list \<Rightarrow> nat list" where
  "merge_widths before width xs =
     (if 0 < width \<and> width < length xs then merge_widths before (width * 2) (merge_pass before width xs) else xs)"
  by auto

lemma length_merge_slices [simp]: "length (merge_slices before xs ys) = length xs + length ys"
  by (induction before xs ys rule: merge_slices.induct) auto

lemma mset_merge_slices [simp]: "mset (merge_slices before xs ys) = mset xs + mset ys"
  by (induction before xs ys rule: merge_slices.induct) auto

lemma mset_merge_pass [simp]: "mset (merge_pass before width xs) = mset xs"
proof (induction before width xs rule: merge_pass.induct)
  case (1 before width xs)
  show ?case
  proof (cases "xs = [] \<or> width = 0")
    case False
    have "drop (2 * width) xs = drop width (drop width xs)" by (simp add: mult_2)
    then have "mset (take width xs) + mset (take width (drop width xs)) + mset (drop (2 * width) xs) = mset xs"
      by (metis add.assoc append_take_drop_id mset_append)
    then show ?thesis using 1 [OF False] False by (subst merge_pass.simps) (simp add: add.assoc)
  qed (simp add: merge_pass.simps)
qed

lemma length_merge_pass [simp]: "length (merge_pass before width xs) = length xs"
  using mset_merge_pass by (metis mset_eq_length)

termination merge_widths
  by (relation "measure (\<lambda>(_, width, xs). length xs - width)") auto

declare merge_widths.simps [simp del]

definition qe_order_merge_sort :: "(nat \<Rightarrow> nat \<Rightarrow> bool) \<Rightarrow> nat list \<Rightarrow> nat list" where
  "qe_order_merge_sort before order = merge_widths before 1 order"

section \<open>The heap\<close>

text \<open>The root is the last of the positions kept. The loop takes a position down the heap until neither
  child comes behind it.\<close>

definition last_child :: "(nat \<Rightarrow> nat \<Rightarrow> bool) \<Rightarrow> nat list \<Rightarrow> nat \<Rightarrow> nat \<Rightarrow> nat" where
  "last_child before heap n root =
     (let child = root * 2 + 1
      in if child + 1 < n \<and> before (heap ! child) (heap ! (child + 1)) then child + 1 else child)"

function qe_order_sift_down :: "(nat \<Rightarrow> nat \<Rightarrow> bool) \<Rightarrow> nat \<Rightarrow> nat list \<Rightarrow> nat \<Rightarrow> nat list" where
  "qe_order_sift_down before n heap root =
     (if root * 2 + 1 \<ge> n then heap
      else
        let child = last_child before heap n root in
        if \<not> before (heap ! root) (heap ! child) then heap
        else qe_order_sift_down before n (heap[root := heap ! child, child := heap ! root]) child)"
  by auto
termination
  by (relation "measure (\<lambda>(_, n, _, root). n - root)") (auto simp: last_child_def Let_def split: if_splits)

declare qe_order_sift_down.simps [simp del]

text \<open>The loop over the inner nodes, from the last to the first.\<close>

definition qe_order_heapify :: "(nat \<Rightarrow> nat \<Rightarrow> bool) \<Rightarrow> nat list \<Rightarrow> nat list" where
  "qe_order_heapify before heap =
     fold (\<lambda>root heap. qe_order_sift_down before (length heap) heap (root - 1)) (rev [1..<length heap div 2 + 1]) heap"

text \<open>A position that displaces the root.\<close>

definition heap_replace :: "(nat \<Rightarrow> nat \<Rightarrow> bool) \<Rightarrow> nat list \<Rightarrow> nat \<Rightarrow> nat list" where
  "heap_replace before heap index = qe_order_sift_down before (length heap) (heap[0 := index]) 0"

definition qe_order_select_top :: "(nat \<Rightarrow> nat \<Rightarrow> bool) \<Rightarrow> nat list \<Rightarrow> nat \<Rightarrow> nat list" where
  "qe_order_select_top before order keep =
     (let heap = qe_order_heapify before (take keep order);
          heap = fold (\<lambda>index heap. if before index (heap ! 0) then heap_replace before heap index else heap)
                   (drop keep order) heap
      in qe_order_merge_sort before heap)"

text \<open>The positions of a range; a later position never displaces an equal one, so a single comparison is
  enough, here \<open>displaces\<close>: the variants for one numeric key and for keys read in place have their own.\<close>

definition select_top_range ::
  "(nat \<Rightarrow> nat \<Rightarrow> bool) \<Rightarrow> (nat \<Rightarrow> nat \<Rightarrow> bool) \<Rightarrow> nat \<Rightarrow> nat \<times> nat \<Rightarrow> nat list" where
  "select_top_range before displaces keep r =
     (let keep = min keep (snd r - fst r)
      in if keep = 0 then []
         else fold (\<lambda>index heap. if displaces index (heap ! 0) then heap_replace before heap index else heap)
                [fst r + keep..<snd r] (qe_order_heapify before [fst r..<fst r + keep]))"

definition qe_order_select_top_range ::
  "(nat \<Rightarrow> nat \<Rightarrow> bool) \<Rightarrow> (nat \<Rightarrow> nat \<Rightarrow> bool) \<Rightarrow> nat \<Rightarrow> nat \<times> nat \<Rightarrow> nat list" where
  "qe_order_select_top_range before displaces keep r =
     qe_order_merge_sort before (select_top_range before displaces keep r)"

text \<open>The heap sort: the root goes behind the positions that are still in the heap.\<close>

fun heap_sort_loop :: "(nat \<Rightarrow> nat \<Rightarrow> bool) \<Rightarrow> nat \<Rightarrow> nat list \<Rightarrow> nat list" where
  "heap_sort_loop before 0 heap = heap"
| "heap_sort_loop before (Suc i) heap =
     (if i = 0 then heap
      else heap_sort_loop before i (qe_order_sift_down before i (heap[0 := heap ! i, i := heap ! 0]) 0))"

definition qe_top_k_native_sort :: "(nat \<Rightarrow> nat \<Rightarrow> bool) \<Rightarrow> nat list \<Rightarrow> nat list" where
  "qe_top_k_native_sort before heap = heap_sort_loop before (length heap) heap"

section \<open>The work of the threads\<close>

definition tp_divide_work :: "nat \<Rightarrow> nat \<Rightarrow> (nat \<times> nat) list" where
  "tp_divide_work item_count worker_count =
     (let per_count = (item_count + worker_count - 1) div worker_count
      in map (\<lambda>i. (min item_count (i * per_count), min item_count (i * per_count + per_count))) [0..<worker_count])"

text \<open>The winners of the ranges, merged by a second selection.\<close>

definition select_top_parallel ::
  "(nat \<Rightarrow> nat \<Rightarrow> bool) \<Rightarrow> (nat \<Rightarrow> nat \<Rightarrow> bool) \<Rightarrow> nat \<Rightarrow> (nat \<times> nat) list \<Rightarrow> nat list" where
  "select_top_parallel before displaces keep rs =
     qe_order_select_top before (concat (map (qe_order_select_top_range before displaces keep) rs)) keep"

text \<open>For keys that are read in place the winners are merged into one more heap.\<close>

definition qe_top_k_native_task ::
  "(nat \<Rightarrow> nat \<Rightarrow> bool) \<Rightarrow> (nat \<Rightarrow> nat \<Rightarrow> bool) \<Rightarrow> nat \<Rightarrow> nat \<times> nat \<Rightarrow> nat list" where
  "qe_top_k_native_task before displaces keep r =
     qe_top_k_native_sort before (select_top_range before displaces keep r)"

definition native_merge_step :: "(nat \<Rightarrow> nat \<Rightarrow> bool) \<Rightarrow> nat \<Rightarrow> nat \<Rightarrow> nat list \<Rightarrow> nat list" where
  "native_merge_step before keep index merged =
     (if length merged < keep then
        (if length merged + 1 = keep then qe_order_heapify before (merged @ [index]) else merged @ [index])
      else if before index (merged ! 0) then heap_replace before merged index
      else merged)"

definition select_top_native ::
  "(nat \<Rightarrow> nat \<Rightarrow> bool) \<Rightarrow> (nat \<Rightarrow> nat \<Rightarrow> bool) \<Rightarrow> nat \<Rightarrow> (nat \<times> nat) list \<Rightarrow> nat list" where
  "select_top_native before displaces keep rs =
     qe_top_k_native_sort before
       (fold (native_merge_step before keep) (concat (map (qe_top_k_native_task before displaces keep) rs)) [])"

text \<open>The ranges follow one another.\<close>

definition covers :: "(nat \<times> nat) list \<Rightarrow> nat \<Rightarrow> bool" where
  "covers rs n \<longleftrightarrow> concat (map (\<lambda>r. [fst r..<snd r]) rs) = [0..<n]"

section \<open>Total orders of positions\<close>

locale before_order =
  fixes before :: "nat \<Rightarrow> nat \<Rightarrow> bool" and P :: "nat set"
  assumes irrefl: "a \<in> P \<Longrightarrow> \<not> before a a"
    and trans: "a \<in> P \<Longrightarrow> b \<in> P \<Longrightarrow> c \<in> P \<Longrightarrow> before a b \<Longrightarrow> before b c \<Longrightarrow> before a c"
    and total: "a \<in> P \<Longrightarrow> b \<in> P \<Longrightarrow> a \<noteq> b \<Longrightarrow> before a b \<or> before b a"
begin

lemma asym: "a \<in> P \<Longrightarrow> b \<in> P \<Longrightarrow> before a b \<Longrightarrow> \<not> before b a"
  using irrefl trans by blast

lemma not_before_trans: "a \<in> P \<Longrightarrow> b \<in> P \<Longrightarrow> c \<in> P \<Longrightarrow> \<not> before a b \<Longrightarrow> \<not> before b c \<Longrightarrow> \<not> before a c"
  using total [of a b] total [of b c] trans asym by metis

lemma sorted_distinct: "set xs \<subseteq> P \<Longrightarrow> sorted_wrt before xs \<Longrightarrow> distinct xs"
  by (induction xs) (auto dest: irrefl)

text \<open>There is one way to sort.\<close>

lemma sorted_unique:
  "set xs \<subseteq> P \<Longrightarrow> sorted_wrt before xs \<Longrightarrow> sorted_wrt before ys \<Longrightarrow> set xs = set ys \<Longrightarrow> xs = ys"
proof (induction xs arbitrary: ys)
  case (Cons x xs)
  then obtain y ys' where ys: "ys = y # ys'" by (cases ys) auto
  have P: "x \<in> P" "y \<in> P" "set ys' \<subseteq> P" using Cons.prems ys by auto
  have eq: "x = y"
  proof (rule ccontr)
    assume "x \<noteq> y"
    then have "x \<in> set ys'" "y \<in> set xs" using Cons.prems(4) ys by auto
    then show False using Cons.prems(2,3) ys asym [OF P(1,2)] by simp
  qed
  have "x \<notin> set xs" "x \<notin> set ys'" using Cons.prems ys eq irrefl [OF P(1)] by auto
  then have "set xs = set ys'" using Cons.prems(4) ys eq by auto
  then show ?case using Cons ys eq by simp
qed simp

section \<open>Merging\<close>

lemma set_merge_slices: "set (merge_slices before xs ys) = set xs \<union> set ys"
  by (metis mset_merge_slices set_mset_mset set_mset_union)

lemma sorted_merge_slices:
  "set xs \<subseteq> P \<Longrightarrow> set ys \<subseteq> P \<Longrightarrow> set xs \<inter> set ys = {} \<Longrightarrow> sorted_wrt before xs \<Longrightarrow> sorted_wrt before ys \<Longrightarrow>
   sorted_wrt before (merge_slices before xs ys)"
proof (induction xs arbitrary: ys)
  case Nil
  then show ?case by (cases ys) simp_all
next
  case (Cons x xs)
  note outer = Cons
  show ?case
    using Cons.prems
  proof (induction ys)
    case Nil
    then show ?case by simp
  next
    case (Cons y ys)
    have P: "x \<in> P" "y \<in> P" "set xs \<subseteq> P" "set ys \<subseteq> P" using Cons.prems by auto
    show ?case
    proof (cases "before y x")
      case True
      then have "\<forall>z \<in> set (x # xs) \<union> set ys. before y z"
        using Cons.prems(4,5) P trans [OF P(2,1)] by auto
      moreover have "sorted_wrt before (merge_slices before (x # xs) ys)"
        using Cons.prems by (intro Cons.IH) auto
      ultimately show ?thesis using True by (simp add: set_merge_slices)
    next
      case False
      have "x \<noteq> y" using Cons.prems(3) by auto
      then have xy: "before x y" using total [OF P(1,2)] False by blast
      then have "\<forall>z \<in> set xs \<union> set (y # ys). before x z"
        using Cons.prems(4,5) P trans [OF P(1,2)] by auto
      moreover have "sorted_wrt before (merge_slices before xs (y # ys))"
        using Cons.prems by (intro outer(1)) auto
      ultimately show ?thesis using False by (simp add: set_merge_slices)
    qed
  qed
qed

definition runs_sorted :: "nat \<Rightarrow> nat list \<Rightarrow> bool" where
  "runs_sorted w xs \<longleftrightarrow> (\<forall>k. sorted_wrt before (take w (drop (k * w) xs)))"

lemma runs_sorted_pass:
  "0 < w \<Longrightarrow> set xs \<subseteq> P \<Longrightarrow> distinct xs \<Longrightarrow> runs_sorted w xs \<Longrightarrow> runs_sorted (w * 2) (merge_pass before w xs)"
proof (induction "length xs" arbitrary: xs rule: less_induct)
  case less
  show ?case
  proof (cases "xs = []")
    case True
    then show ?thesis by (simp add: runs_sorted_def merge_pass.simps)
  next
    case False
    let ?a = "take w xs" and ?b = "take w (drop w xs)" and ?r = "drop (2 * w) xs"
    have pass: "merge_pass before w xs = merge_slices before ?a ?b @ merge_pass before w ?r"
      using False less.prems(1) by (subst merge_pass.simps) simp
    have "sorted_wrt before ?a" "sorted_wrt before ?b"
      using less.prems(4) unfolding runs_sorted_def by (metis drop0 mult_0, metis mult_1)
    moreover have "set ?a \<inter> set ?b = {}"
      using set_take_disj_set_drop_if_distinct [OF less.prems(3), of w w] set_take_subset [of w "drop w xs"] by blast
    moreover have "set ?a \<subseteq> P" "set ?b \<subseteq> P"
      using less.prems(2) by (meson in_set_dropD in_set_takeD subset_code(1) subsetD)+
    ultimately have merged: "sorted_wrt before (merge_slices before ?a ?b)" by (intro sorted_merge_slices)
    have rest: "runs_sorted (w * 2) (merge_pass before w ?r)"
    proof (rule less.hyps)
      show "length ?r < length xs" using False less.prems(1) by (cases xs) auto
      show "runs_sorted w ?r" unfolding runs_sorted_def
      proof
        fix k
        have "k * w + 2 * w = (k + 2) * w" by (simp add: algebra_simps)
        then have "drop (k * w) ?r = drop ((k + 2) * w) xs" by (metis drop_drop add.commute)
        then show "sorted_wrt before (take w (drop (k * w) ?r))" using less.prems(4) unfolding runs_sorted_def by metis
      qed
      show "set ?r \<subseteq> P" using less.prems(2) by (meson in_set_dropD subset_code(1) subsetD)
    qed (use less.prems in simp_all)
    show ?thesis unfolding runs_sorted_def
    proof
      fix k
      show "sorted_wrt before (take (w * 2) (drop (k * (w * 2)) (merge_pass before w xs)))"
      proof (cases "length xs \<le> 2 * w")
        case True
        then have "merge_pass before w ?r = []" by (simp add: merge_pass.simps)
        then show ?thesis unfolding pass using merged
          by (auto intro: sorted_wrt_take sorted_wrt_drop)
      next
        case f: False
        then have len: "length (merge_slices before ?a ?b) = w * 2" by simp
        show ?thesis
        proof (cases k)
          case 0
          then show ?thesis unfolding pass using merged len by simp
        next
          case (Suc k')
          have "drop (k * (w * 2)) (merge_pass before w xs) = drop (k' * (w * 2)) (merge_pass before w ?r)"
            unfolding pass Suc drop_append len by simp
          then show ?thesis using rest unfolding runs_sorted_def by simp
        qed
      qed
    qed
  qed
qed

lemma sorted_merge_widths:
  "0 < w \<Longrightarrow> set xs \<subseteq> P \<Longrightarrow> distinct xs \<Longrightarrow> runs_sorted w xs \<Longrightarrow>
   sorted_wrt before (merge_widths before w xs) \<and> mset (merge_widths before w xs) = mset xs"
proof (induction "length xs - w" arbitrary: w xs rule: less_induct)
  case less
  show ?case
  proof (cases "w < length xs")
    case True
    let ?ys = "merge_pass before w xs"
    have ys: "mset ?ys = mset xs" by simp
    then have "set ?ys = set xs" "distinct ?ys = distinct xs" by (metis mset_eq_setD, metis mset_eq_imp_distinct_iff)
    moreover have "merge_widths before w xs = merge_widths before (w * 2) ?ys"
      using True less.prems(1) by (subst merge_widths.simps) simp
    ultimately show ?thesis
      using less.hyps [of ?ys "w * 2"] less.prems True runs_sorted_pass [OF less.prems] by simp
  next
    case False
    then have "sorted_wrt before xs"
      using less.prems(4) unfolding runs_sorted_def by (metis drop0 mult_0 not_less take_all)
    then show ?thesis using False by (subst (1 2) merge_widths.simps) simp
  qed
qed

lemma sorted_merge_sort:
  assumes "set xs \<subseteq> P" "distinct xs"
  shows "sorted_wrt before (qe_order_merge_sort before xs)" "mset (qe_order_merge_sort before xs) = mset xs"
proof -
  have "sorted_wrt before (take 1 ys)" for ys by (cases ys) simp_all
  then have "runs_sorted 1 xs" unfolding runs_sorted_def by blast
  then show "sorted_wrt before (qe_order_merge_sort before xs)" "mset (qe_order_merge_sort before xs) = mset xs"
    using sorted_merge_widths [of 1 xs] assms by (auto simp: qe_order_merge_sort_def)
qed

section \<open>Heaps\<close>

definition child_of :: "nat \<Rightarrow> nat \<Rightarrow> bool" where
  "child_of i j \<longleftrightarrow> j = 2 * i + 1 \<or> j = 2 * i + 2"

definition heap_from :: "nat \<Rightarrow> nat \<Rightarrow> nat list \<Rightarrow> bool" where
  "heap_from r n h \<longleftrightarrow> (\<forall>i j. r \<le> i \<longrightarrow> child_of i j \<longrightarrow> j < n \<longrightarrow> \<not> before (h ! i) (h ! j))"

text \<open>One node is out of place: its children may come behind it, but not behind its parent.\<close>

definition heap_but :: "nat \<Rightarrow> nat \<Rightarrow> nat list \<Rightarrow> nat \<Rightarrow> bool" where
  "heap_but r n h root \<longleftrightarrow>
     (\<forall>i j. r \<le> i \<longrightarrow> i \<noteq> root \<longrightarrow> child_of i j \<longrightarrow> j < n \<longrightarrow> \<not> before (h ! i) (h ! j)) \<and>
     (\<forall>i j. r \<le> i \<longrightarrow> child_of i root \<longrightarrow> child_of root j \<longrightarrow> j < n \<longrightarrow> \<not> before (h ! i) (h ! j))"

lemma last_child_cases:
  assumes "root * 2 + 1 < n" "n \<le> length h" "set h \<subseteq> P"
  shows "child_of root (last_child before h n root)" "last_child before h n root < n"
    "\<And>j. child_of root j \<Longrightarrow> j < n \<Longrightarrow> \<not> before (h ! last_child before h n root) (h ! j)"
proof -
  have P: "h ! j \<in> P" if "j < n" for j using that assms(2,3) by (auto intro: nth_mem)
  show "child_of root (last_child before h n root)" "last_child before h n root < n"
    using assms(1) by (auto simp: last_child_def Let_def child_of_def)
  show "\<not> before (h ! last_child before h n root) (h ! j)" if j: "child_of root j" "j < n" for j
  proof -
    let ?l = "root * 2 + 1"
    have l: "?l < n" by (rule assms(1))
    show ?thesis
    proof (cases "?l + 1 < n \<and> before (h ! ?l) (h ! (?l + 1))")
      case True
      then have "last_child before h n root = ?l + 1" by (simp add: last_child_def Let_def)
      moreover have "j = ?l \<or> j = ?l + 1" using j(1) by (auto simp: child_of_def)
      ultimately show ?thesis using True l asym [OF P P] irrefl [OF P] by metis
    next
      case False
      then have "last_child before h n root = ?l" by (auto simp: last_child_def Let_def)
      moreover have "j = ?l \<or> j = ?l + 1" using j(1) by (auto simp: child_of_def)
      ultimately show ?thesis using False j(2) irrefl [OF P [OF l]] by metis
    qed
  qed
qed

lemma sift_down_heap:
  "n \<le> length h \<Longrightarrow> set h \<subseteq> P \<Longrightarrow> r \<le> root \<Longrightarrow> heap_but r n h root \<Longrightarrow>
   heap_from r n (qe_order_sift_down before n h root) \<and>
   mset (qe_order_sift_down before n h root) = mset h \<and>
   (\<forall>i. n \<le> i \<longrightarrow> qe_order_sift_down before n h root ! i = h ! i)"
proof (induction "n - root" arbitrary: h root rule: less_induct)
  case less
  let ?c = "last_child before h n root"
  have P: "h ! j \<in> P" if "j < n" for j using that less.prems(1,2) by (auto intro: nth_mem)
  show ?case
  proof (cases "root * 2 + 1 \<ge> n")
    case True
    then have "heap_from r n h" using less.prems(4) by (auto simp: heap_from_def heap_but_def child_of_def)
    then show ?thesis using True by (subst (1 2 3) qe_order_sift_down.simps) simp
  next
    case inner: False
    then have "root * 2 + 1 < n" by simp
    note c = last_child_cases [OF this less.prems(1,2)]
    have cr: "root < ?c" using c(1) by (auto simp: child_of_def)
    show ?thesis
    proof (cases "before (h ! root) (h ! ?c)")
      case False
      have "\<not> before (h ! root) (h ! j)" if "child_of root j" "j < n" for j
        using not_before_trans [OF P P P False c(3) [OF that]] c(2) that cr by simp
      then have "heap_from r n h" using less.prems(4) by (auto simp: heap_from_def heap_but_def)
      then show ?thesis using inner False by (subst (1 2 3) qe_order_sift_down.simps) (simp add: Let_def)
    next
      case True
      let ?h = "h[root := h ! ?c, ?c := h ! root]"
      have lens: "root < length h" "?c < length h" using c(2) cr less.prems(1) by simp_all
      have step: "qe_order_sift_down before n h root = qe_order_sift_down before n ?h ?c"
        using inner True by (subst qe_order_sift_down.simps) (simp add: Let_def)
      have nth: "?h ! i = (if i = ?c then h ! root else if i = root then h ! ?c else h ! i)" for i
        using lens cr by (simp add: nth_list_update)
      have but: "heap_but r n ?h ?c" unfolding heap_but_def
      proof (intro conjI allI impI)
        fix i j assume ij: "r \<le> i" "i \<noteq> ?c" "child_of i j" "j < n"
        show "\<not> before (?h ! i) (?h ! j)"
        proof (cases "i = root")
          case i: True
          show ?thesis
          proof (cases "j = ?c")
            case True
            then show ?thesis using i nth \<open>before (h ! root) (h ! ?c)\<close> asym [OF P P] c(2) cr by auto
          next
            case False
            then have "j \<noteq> root" using ij(3) i by (auto simp: child_of_def)
            then show ?thesis using i False nth c(3) [of j] ij cr by auto
          qed
        next
          case i: False
          have jc: "j \<noteq> ?c" using i ij(3) c(1) by (auto simp: child_of_def)
          show ?thesis
          proof (cases "j = root")
            case True
            then have "\<not> before (h ! i) (h ! ?c)" using less.prems(4) ij c(1,2) by (auto simp: heap_but_def)
            then show ?thesis using True i ij nth cr by auto
          next
            case False
            then have "\<not> before (h ! i) (h ! j)" using less.prems(4) ij i by (auto simp: heap_but_def)
            then show ?thesis using False i jc ij(2) nth by auto
          qed
        qed
      next
        fix i j assume ij: "r \<le> i" "child_of i ?c" "child_of ?c j" "j < n"
        then have i: "i = root" using c(1) by (auto simp: child_of_def)
        have "\<not> before (h ! ?c) (h ! j)" using less.prems(3,4) ij cr by (auto simp: heap_but_def)
        moreover have "j \<noteq> root" "j \<noteq> ?c" using ij(3) cr by (auto simp: child_of_def)
        ultimately show "\<not> before (?h ! i) (?h ! j)" using i nth cr by auto
      qed
      have mset: "mset ?h = mset h" using lens by (simp add: mset_swap)
      then have set: "set ?h = set h" by (metis mset_eq_setD)
      have "n - ?c < n - root" using cr c(2) by simp
      from less.hyps [OF this _ _ _ but] show ?thesis
        unfolding step using less.prems(1-3) mset set cr c(2) nth by auto
    qed
  qed
qed

lemma sift_down_set:
  assumes "n \<le> length h" "set h \<subseteq> P" "r \<le> root" "heap_but r n h root"
  shows "set (qe_order_sift_down before n h root) = set h" "length (qe_order_sift_down before n h root) = length h"
    "heap_from r n (qe_order_sift_down before n h root)"
  using sift_down_heap [OF assms] by (metis mset_eq_setD, metis mset_eq_length, blast)

text \<open>The root comes behind all the others.\<close>

lemma heap_root:
  "heap_from 0 n h \<Longrightarrow> n \<le> length h \<Longrightarrow> set h \<subseteq> P \<Longrightarrow> j < n \<Longrightarrow> \<not> before (h ! 0) (h ! j)"
proof (induction j rule: less_induct)
  case (less j)
  have P: "h ! k \<in> P" if "k < n" for k using that less.prems(2,3) by (auto intro: nth_mem)
  show ?case
  proof (cases "j = 0")
    case True
    then show ?thesis using irrefl P less.prems(4) by simp
  next
    case False
    let ?p = "(j - 1) div 2"
    have p: "child_of ?p j" "?p < j" using False unfolding child_of_def by presburger+
    then have "\<not> before (h ! ?p) (h ! j)" using less.prems by (auto simp: heap_from_def)
    moreover have "\<not> before (h ! 0) (h ! ?p)" using less p(2) by simp
    ultimately show ?thesis using not_before_trans [OF P P P] less.prems(4) p(2) by (metis gr_zeroI not_less0 order.strict_trans)
  qed
qed

lemma heapify_heap:
  assumes "set h \<subseteq> P"
  shows "heap_from 0 (length h) (qe_order_heapify before h)" "mset (qe_order_heapify before h) = mset h"
proof -
  let ?f = "\<lambda>root heap. qe_order_sift_down before (length heap) heap (root - 1)"
  have "\<exists>h'. fold ?f (rev [Suc k..<length h div 2 + 1]) h = h' \<and> mset h' = mset h \<and> heap_from k (length h) h'"
    if "k \<le> length h div 2" for k
    using that
  proof (induction "length h div 2 - k" arbitrary: k)
    case 0
    then have k: "k = length h div 2" by simp
    then have "heap_from k (length h) h" by (auto simp: heap_from_def child_of_def)
    then show ?case using k by simp
  next
    case (Suc d)
    then have k: "Suc k \<le> length h div 2" "d = length h div 2 - Suc k" by simp_all
    obtain h' where h': "fold ?f (rev [Suc (Suc k)..<length h div 2 + 1]) h = h'" "mset h' = mset h" "heap_from (Suc k) (length h) h'"
      using Suc.hyps(1) [OF k(2,1)] by blast
    have len: "length h' = length h" and set: "set h' \<subseteq> P" using h'(2) assms by (metis mset_eq_length, metis mset_eq_setD)
    have "heap_but k (length h') h' k" using h'(3) len by (auto simp: heap_from_def heap_but_def child_of_def)
    from sift_down_heap [OF _ set _ this] have "heap_from k (length h) (?f (Suc k) h')" "mset (?f (Suc k) h') = mset h"
      using len h'(2) by simp_all
    moreover have "[Suc k..<length h div 2 + 1] = Suc k # [Suc (Suc k)..<length h div 2 + 1]"
      using k(1) by (intro upt_conv_Cons) simp
    ultimately show ?case using h'(1) by simp
  qed
  from this [of 0] show "heap_from 0 (length h) (qe_order_heapify before h)" "mset (qe_order_heapify before h) = mset h"
    by (auto simp: qe_order_heapify_def)
qed

section \<open>The best rows\<close>

definition tops :: "nat \<Rightarrow> nat set \<Rightarrow> nat set \<Rightarrow> bool" where
  "tops k S T \<longleftrightarrow> T \<subseteq> S \<and> card T = min k (card S) \<and> (\<forall>x \<in> S - T. \<forall>y \<in> T. before y x)"

definition keeps :: "nat \<Rightarrow> nat set \<Rightarrow> nat list \<Rightarrow> bool" where
  "keeps k S heap \<longleftrightarrow>
     heap_from 0 (length heap) heap \<and> distinct heap \<and> length heap = k \<and> S \<subseteq> P \<and> finite S \<and> tops k S (set heap)"

lemma keeps_heapify:
  assumes "set h \<subseteq> P" "distinct h"
  shows "keeps (length h) (set h) (qe_order_heapify before h)"
proof -
  note h = heapify_heap [OF assms(1)]
  have "set (qe_order_heapify before h) = set h" "distinct (qe_order_heapify before h)" "length (qe_order_heapify before h) = length h"
    using h(2) assms(2) by (metis mset_eq_setD, metis mset_eq_imp_distinct_iff, metis mset_eq_length)
  then show ?thesis using h(1) assms by (simp add: keeps_def tops_def distinct_card)
qed

lemma heap_replace_set:
  assumes "heap_from 0 (length h) h" "distinct h" "set h \<subseteq> P" "h \<noteq> []" "x \<in> P" "x \<notin> set h"
  shows "heap_from 0 (length h) (heap_replace before h x)" "distinct (heap_replace before h x)"
    "set (heap_replace before h x) = insert x (set h - {h ! 0})" "length (heap_replace before h x) = length h"
proof -
  let ?h = "h[0 := x]"
  obtain y ys where h: "h = y # ys" using assms(4) by (cases h) auto
  have set: "set ?h = insert x (set h - {h ! 0})" and d: "distinct ?h" using assms(2,6) h by auto
  have "heap_but 0 (length ?h) ?h 0"
    using assms(1) by (auto simp: heap_but_def heap_from_def child_of_def nth_list_update)
  from sift_down_heap [OF _ _ _ this] have r: "heap_from 0 (length h) (heap_replace before h x)"
      "mset (heap_replace before h x) = mset ?h"
    using set assms(3,5) by (auto simp: heap_replace_def)
  from r show "heap_from 0 (length h) (heap_replace before h x)" by simp
  from r(2) show "distinct (heap_replace before h x)" using d by (metis mset_eq_imp_distinct_iff)
  from r(2) show "set (heap_replace before h x) = insert x (set h - {h ! 0})" using set by (metis mset_eq_setD)
  from r(2) show "length (heap_replace before h x) = length h" by (metis mset_eq_length length_list_update)
qed

lemma keeps_step:
  assumes "keeps k S heap" "0 < k" "x \<in> P" "x \<notin> S"
  shows "keeps k (insert x S) (if before x (heap ! 0) then heap_replace before heap x else heap)"
proof -
  note H = assms(1) [unfolded keeps_def tops_def]
  have ne: "heap \<noteq> []" using H assms(2) by auto
  have P: "set heap \<subseteq> P" using H by blast
  have root: "heap ! 0 \<in> set heap" using ne by (simp add: nth_mem)
  have worst: "y \<noteq> heap ! 0 \<Longrightarrow> before y (heap ! 0)" if y: "y \<in> set heap" for y
  proof -
    obtain j where "j < length heap" "y = heap ! j" using y by (auto simp: in_set_conv_nth)
    moreover have "heap_from 0 (length heap) heap" using H by blast
    ultimately have "\<not> before (heap ! 0) y" using heap_root [OF _ order_refl P] by blast
    then show "y \<noteq> heap ! 0 \<Longrightarrow> before y (heap ! 0)" using total [of y "heap ! 0"] y root P by blast
  qed
  have card: "card (insert x S) = Suc (card S)" "k \<le> card S"
    using H assms(4) distinct_card [of heap] by auto
  have k: "length heap = k" "distinct heap" "heap_from 0 (length heap) heap" "S \<subseteq> P" "finite S" "set heap \<subseteq> S"
      "\<And>z y. z \<in> S \<Longrightarrow> z \<notin> set heap \<Longrightarrow> y \<in> set heap \<Longrightarrow> before y z"
    using H by blast+
  show ?thesis
  proof (cases "before x (heap ! 0)")
    case True
    have x: "x \<notin> set heap" using k(6) assms(4) by blast
    let ?h = "heap_replace before heap x"
    note r = heap_replace_set [OF k(3,2) P ne assms(3) x]
    have "before y z" if z: "z \<in> insert x S - set ?h" and y: "y \<in> set ?h" for y z
    proof -
      have zc: "z \<in> S" "z = heap ! 0 \<or> z \<notin> set heap" and yc: "y = x \<or> (y \<in> set heap \<and> y \<noteq> heap ! 0)"
        using z y r(3) by auto
      have y0: "before y (heap ! 0)" using yc True worst by blast
      show ?thesis
      proof (cases "z = heap ! 0")
        case False
        then have "before (heap ! 0) z" using zc root k(7) by blast
        moreover have "y \<in> P" "heap ! 0 \<in> P" "z \<in> P" using yc zc(1) root P assms(3) k(4) by blast+
        ultimately show ?thesis using y0 trans by blast
      qed (use y0 in simp)
    qed
    moreover have "set ?h \<subseteq> insert x S" using r(3) k(6) by auto
    moreover have "card (set ?h) = k" using r(2,4) k(1) by (simp add: distinct_card)
    moreover have "heap_from 0 (length ?h) ?h" using r(1,4) by simp
    ultimately have "keeps k (insert x S) ?h"
      unfolding keeps_def tops_def using r(2,4) k assms(3) card by simp
    then show ?thesis using True by simp
  next
    case False
    have "before y x" if y: "y \<in> set heap" for y
    proof -
      have "x \<noteq> heap ! 0" using root k(6) assms(4) by blast
      then have r: "before (heap ! 0) x" using False total [of x "heap ! 0"] root P assms(3) by blast
      have "y \<in> P" "heap ! 0 \<in> P" using y root P by blast+
      then show ?thesis using worst [OF y] r trans assms(3) by blast
    qed
    then have "keeps k (insert x S) heap"
      unfolding keeps_def tops_def using k assms(3) card by (auto simp: distinct_card)
    then show ?thesis using False by simp
  qed
qed

lemma keeps_fold:
  assumes "keeps k S heap" "0 < k" "set is \<subseteq> P" "distinct is" "set is \<inter> S = {}"
    "\<And>pre i post heap. is = pre @ i # post \<Longrightarrow> set heap \<subseteq> S \<union> set pre \<Longrightarrow> heap \<noteq> [] \<Longrightarrow>
       displaces i (heap ! 0) = before i (heap ! 0)"
  shows "keeps k (S \<union> set is)
    (fold (\<lambda>index heap. if displaces index (heap ! 0) then heap_replace before heap index else heap) is heap)"
  using assms
proof (induction "is" arbitrary: S heap)
  case (Cons i "is")
  have ne: "heap \<noteq> []" and sub: "set heap \<subseteq> S" using Cons.prems(1,2) by (auto simp: keeps_def tops_def)
  have "displaces i (heap ! 0) = before i (heap ! 0)"
    by (rule Cons.prems(6) [of "[]"]) (use sub ne in auto)
  then have step: "keeps k (insert i S) (if displaces i (heap ! 0) then heap_replace before heap i else heap)"
    using keeps_step [OF Cons.prems(1,2), of i] Cons.prems(3,5) by simp
  have "keeps k (insert i S \<union> set is)
    (fold (\<lambda>index heap. if displaces index (heap ! 0) then heap_replace before heap index else heap) is
      (if displaces i (heap ! 0) then heap_replace before heap i else heap))"
  proof (rule Cons.IH [OF step])
    show "displaces a (h ! 0) = before a (h ! 0)"
      if "is = pre @ a # post" "set h \<subseteq> insert i S \<union> set pre" "h \<noteq> []" for pre a post h
      by (rule Cons.prems(6) [of "i # pre" _ post]) (use that in auto)
  qed (use Cons.prems in auto)
  then show ?case by simp
qed simp

text \<open>What a selection returns: the best rows in order.\<close>

definition best_rows :: "nat \<Rightarrow> nat set \<Rightarrow> nat list \<Rightarrow> bool" where
  "best_rows k S xs \<longleftrightarrow> sorted_wrt before xs \<and> tops k S (set xs)"

lemma best_rows_unique:
  assumes "best_rows k S xs" "best_rows k S ys" "S \<subseteq> P" "finite S"
  shows "xs = ys"
proof -
  have le: "A \<subseteq> B" if "tops k S A" "tops k S B" for A B
  proof (rule ccontr)
    assume "\<not> A \<subseteq> B"
    then obtain x where x: "x \<in> A" "x \<notin> B" by blast
    have fin: "finite A" "finite B" using that assms(4) by (auto simp: tops_def intro: finite_subset)
    have "card A = card B" using that by (simp add: tops_def)
    then have "\<not> B \<subseteq> A" using x fin by (metis card_subset_eq)
    then obtain y where y: "y \<in> B" "y \<notin> A" by blast
    have "before x y" "before y x" using x y that by (auto simp: tops_def)
    then show False using asym [of x y] x y that assms(3) by (auto simp: tops_def)
  qed
  have "set xs = set ys" using le assms(1,2) by (auto simp: best_rows_def)
  moreover have "set xs \<subseteq> P" using assms(1,3) by (auto simp: best_rows_def tops_def)
  ultimately show ?thesis using assms(1,2) sorted_unique by (auto simp: best_rows_def)
qed

lemma best_rows_take:
  assumes "sorted_wrt before xs" "set xs \<subseteq> P"
  shows "best_rows k (set xs) (take k xs)"
proof -
  have d: "distinct xs" using sorted_distinct [OF assms(2,1)] .
  have "before y x" if "x \<in> set xs - set (take k xs)" "y \<in> set (take k xs)" for x y
  proof -
    have "x \<in> set (drop k xs)" using that(1) by (metis Diff_iff Un_iff append_take_drop_id set_append)
    then show ?thesis using assms(1) that(2) by (metis append_take_drop_id sorted_wrt_append)
  qed
  then show ?thesis
    using assms(1) d by (auto simp: best_rows_def tops_def distinct_card min_def sorted_wrt_take dest: in_set_takeD)
qed

lemma keeps_sorted:
  assumes "keeps k S heap"
  shows "best_rows k S (qe_order_merge_sort before heap)"
proof -
  have "set heap \<subseteq> P" "distinct heap" using assms by (auto simp: keeps_def tops_def)
  note m = sorted_merge_sort [OF this]
  then show ?thesis using assms by (metis best_rows_def keeps_def mset_eq_setD)
qed

lemma select_top_best:
  assumes "set order \<subseteq> P" "distinct order" "0 < keep"
  shows "best_rows keep (set order) (qe_order_select_top before order keep)"
proof -
  have "keeps (length (take keep order)) (set (take keep order)) (qe_order_heapify before (take keep order))"
    by (rule keeps_heapify) (use assms(1,2) in \<open>auto dest: in_set_takeD\<close>)
  moreover have "set (drop keep order) \<inter> set (take keep order) = {}"
    using set_take_disj_set_drop_if_distinct [OF assms(2), of keep keep] by blast
  moreover have "set (take keep order) \<union> set (drop keep order) = set order"
    by (metis append_take_drop_id set_append)
  moreover have "set (drop keep order) \<subseteq> P" using assms(1) by (auto dest: in_set_dropD)
  ultimately have all: "keeps (min (length order) keep) (set order)
      (fold (\<lambda>index heap. if before index (heap ! 0) then heap_replace before heap index else heap) (drop keep order)
        (qe_order_heapify before (take keep order)))" if "order \<noteq> []"
    using keeps_fold [of "length (take keep order)" "set (take keep order)" _ "drop keep order" before] that assms(2,3) by simp
  moreover have "best_rows keep (set order) = best_rows (min (length order) keep) (set order)"
    using assms(2) by (auto simp: best_rows_def tops_def distinct_card)
  ultimately show ?thesis
  proof (cases "order = []")
    case True
    then show ?thesis
      by (simp add: qe_order_select_top_def qe_order_heapify_def qe_order_merge_sort_def merge_widths.simps best_rows_def tops_def)
  next
    case False
    then show ?thesis using keeps_sorted [OF all] \<open>best_rows keep _ = _\<close> by (simp add: qe_order_select_top_def)
  qed
qed

lemma select_range_keeps:
  assumes "{fst r..<snd r} \<subseteq> P" "0 < keep" "fst r < snd r"
    "\<And>i root. fst r \<le> root \<Longrightarrow> root < i \<Longrightarrow> i < snd r \<Longrightarrow> displaces i root = before i root"
  shows "keeps (min keep (snd r - fst r)) {fst r..<snd r} (select_top_range before displaces keep r)"
proof -
  let ?k = "min keep (snd r - fst r)"
  let ?first = "[fst r..<fst r + ?k]" and ?rest = "[fst r + ?k..<snd r]"
  have k: "0 < ?k" "fst r + ?k \<le> snd r" using assms(2,3) by auto
  have "keeps (length ?first) (set ?first) (qe_order_heapify before ?first)"
    by (rule keeps_heapify) (use assms(1) k in auto)
  then have "keeps ?k (set ?first \<union> set ?rest)
    (fold (\<lambda>index heap. if displaces index (heap ! 0) then heap_replace before heap index else heap) ?rest
      (qe_order_heapify before ?first))"
  proof (intro keeps_fold)
    fix pre i post and heap :: "nat list"
    assume split: "?rest = pre @ i # post" and h: "set heap \<subseteq> set ?first \<union> set pre" "heap \<noteq> []"
    have "sorted ?rest" "distinct ?rest" by simp_all
    then have "\<forall>j \<in> set pre. j < i" unfolding split by (auto simp: sorted_append less_le)
    moreover have "i \<in> set ?rest" using split by simp
    moreover have "set pre \<subseteq> set ?rest" using split by auto
    moreover have "heap ! 0 \<in> set heap" using h(2) by (simp add: nth_mem)
    ultimately have "fst r \<le> heap ! 0 \<and> heap ! 0 < i \<and> i < snd r"
      using h(1) k by (cases "heap ! 0 \<in> set pre") force+
    then show "displaces i (heap ! 0) = before i (heap ! 0)" by (intro assms(4)) auto
  qed (use assms(1) k in auto)
  moreover have "set ?first \<union> set ?rest = {fst r..<snd r}" using k by auto
  moreover have "?k \<noteq> 0" using k by simp
  ultimately show ?thesis by (simp only: select_top_range_def Let_def if_False)
qed

lemma select_range_empty: "\<not> fst r < snd r \<Longrightarrow> select_top_range before displaces keep r = []"
  by (simp add: select_top_range_def)

text \<open>The best of the best of several ranges are the best of all.\<close>

lemma tops_union:
  assumes "\<And>r. r \<in> R \<Longrightarrow> tops k (A r) (B r)" "\<And>r. r \<in> R \<Longrightarrow> A r \<subseteq> P" "finite (\<Union>r \<in> R. A r)"
    "tops k (\<Union>r \<in> R. B r) T"
  shows "tops k (\<Union>r \<in> R. A r) T"
proof -
  let ?S = "\<Union>r \<in> R. A r" and ?U = "\<Union>r \<in> R. B r"
  have BA: "B r \<subseteq> A r" if "r \<in> R" for r using assms(1) [OF that] by (simp add: tops_def)
  then have US: "?U \<subseteq> ?S" by blast
  then have finU: "finite ?U" using assms(3) by (rule finite_subset)
  have TU: "T \<subseteq> ?U" and TS: "T \<subseteq> ?S" using assms(4) US by (auto simp: tops_def)
  have full: "A r = B r \<or> card (B r) = k" if "r \<in> R" for r
  proof -
    have "finite (A r)" using assms(3) that by (rule_tac finite_subset) auto
    then show ?thesis using assms(1) [OF that] by (metis card_subset_eq min_def tops_def)
  qed
  have card: "min k (card ?U) = min k (card ?S)"
  proof (cases "card ?U < k")
    case True
    have "A r = B r" if "r \<in> R" for r
    proof -
      have "card (B r) \<le> card ?U" using that finU by (intro card_mono) auto
      then show ?thesis using full [OF that] True by simp
    qed
    then have "?S = ?U" by auto
    then show ?thesis by simp
  next
    case False
    then show ?thesis using card_mono [OF assms(3) US] by simp
  qed
  have "before y x" if x: "x \<in> ?S - T" and y: "y \<in> T" for x y
  proof (cases "x \<in> ?U")
    case True
    then show ?thesis using assms(4) that by (auto simp: tops_def)
  next
    case False
    obtain r where r: "r \<in> R" "x \<in> A r" "x \<notin> B r" using x False by blast
    then have k: "card (B r) = k" using full by blast
    have after: "before z x" if "z \<in> B r" for z using assms(1) [OF r(1)] r that by (auto simp: tops_def)
    show ?thesis
    proof (cases "y \<in> B r")
      case False
      have "card T \<le> k" using assms(4) by (simp add: tops_def)
      moreover have "finite T" using TU finU by (rule finite_subset)
      ultimately have "\<not> B r \<subseteq> T" using k y False by (metis card_seteq)
      then obtain z where z: "z \<in> B r" "z \<notin> T" by blast
      then have "before y z" using assms(4) y r(1) by (auto simp: tops_def)
      then show ?thesis
        using trans [of y z x] after [OF z(1)] assms(2) BA r(1,2) z(1) y TS by blast
    qed (rule after)
  qed
  then show ?thesis using TS assms(4) card by (auto simp: tops_def)
qed

section \<open>Heap sort\<close>

lemma heap_sort_sorted:
  "n \<le> length h \<Longrightarrow> set h \<subseteq> P \<Longrightarrow> distinct h \<Longrightarrow> heap_from 0 n h \<Longrightarrow> sorted_wrt before (drop n h) \<Longrightarrow>
   (\<forall>x \<in> set (take n h). \<forall>y \<in> set (drop n h). before x y) \<Longrightarrow>
   sorted_wrt before (heap_sort_loop before n h) \<and> mset (heap_sort_loop before n h) = mset h"
proof (induction n arbitrary: h)
  case 0
  then show ?case by simp
next
  case (Suc i)
  show ?case
  proof (cases "i = 0")
    case True
    then obtain x xs where "h = x # xs" using Suc.prems(1) by (cases h) auto
    then show ?thesis using True Suc.prems by simp
  next
    case False
    let ?h = "h[0 := h ! i, i := h ! 0]"
    let ?r = "qe_order_sift_down before i ?h 0"
    have i: "i < length h" using Suc.prems(1) by simp
    have nth: "?h ! j = (if j = i then h ! 0 else if j = 0 then h ! i else h ! j)" if "j < length h" for j
      using that i False by (cases "j = 0") (auto simp: nth_list_update)
    have P: "h ! j \<in> P" if "j < length h" for j using that Suc.prems(2) by (auto intro: nth_mem)
    have msw: "mset ?h = mset h" using i False by (subst mset_swap) auto
    then have set: "set ?h = set h" and len: "length ?h = length h" by (metis mset_eq_setD) simp
    have "heap_but 0 i ?h 0"
      using Suc.prems(4) i by (auto simp: heap_but_def heap_from_def child_of_def nth_list_update)
    from sift_down_heap [OF _ _ _ this] have r: "heap_from 0 i ?r" "mset ?r = mset ?h" "\<And>j. i \<le> j \<Longrightarrow> ?r ! j = ?h ! j"
      using set len Suc.prems(1,2) by auto
    have lr: "length ?r = length h" using r(2) len by (metis mset_eq_length)
    have mr: "mset ?r = mset h" using r(2) msw by simp
    then have setr: "set ?r = set h" "distinct ?r" using Suc.prems(3) by (metis mset_eq_setD, metis mset_eq_imp_distinct_iff)
    have drop: "drop i ?r = h ! 0 # drop (Suc i) h"
    proof (rule nth_equalityI)
      show "drop i ?r ! j = (h ! 0 # drop (Suc i) h) ! j" if "j < length (drop i ?r)" for j
        using that r(3) [of "i + j"] nth [of "i + j"] lr i False by (cases j) auto
    qed (use lr i in simp)
    have worst: "before x (h ! 0)" if x: "x \<in> set (take (Suc i) h)" "x \<noteq> h ! 0" for x
    proof -
      obtain j where j: "j < Suc i" "x = h ! j" using x(1) Suc.prems(1) by (auto simp: in_set_conv_nth)
      then have "\<not> before (h ! 0) x" using heap_root [OF Suc.prems(4,1,2)] by blast
      moreover have "x \<in> P" using j i P [of j] by simp
      moreover have "h ! 0 \<in> P" using i by (intro P) linarith
      ultimately show ?thesis using total x(2) by blast
    qed
    have "h ! 0 \<in> set (take (Suc i) h)" using i by (cases h) auto
    then have "sorted_wrt before (drop i ?r)" unfolding drop using Suc.prems(5,6) by simp
    moreover have "\<forall>x \<in> set (take i ?r). \<forall>y \<in> set (drop i ?r). before x y"
    proof (intro ballI)
      fix x y assume x: "x \<in> set (take i ?r)" and y: "y \<in> set (drop i ?r)"
      have "set (take i ?r) \<inter> set (drop i ?r) = {}" using set_take_disj_set_drop_if_distinct [OF setr(2)] by blast
      then have xn: "x \<noteq> h ! 0" "x \<notin> set (drop (Suc i) h)" using x unfolding drop by auto
      have "x \<in> set h" using x setr(1) by (auto dest: in_set_takeD)
      then have xt: "x \<in> set (take (Suc i) h)" using xn(2) by (metis Un_iff append_take_drop_id set_append)
      show "before x y" using y worst [OF xt xn(1)] Suc.prems(6) xt unfolding drop by auto
    qed
    ultimately have "sorted_wrt before (heap_sort_loop before i ?r) \<and> mset (heap_sort_loop before i ?r) = mset ?r"
      using Suc.IH [of ?r] r(1) setr lr i Suc.prems(2) by simp
    then show ?thesis using False mr by simp
  qed
qed

lemma native_sort_best:
  assumes "keeps k S heap"
  shows "best_rows k S (qe_top_k_native_sort before heap)"
proof -
  have "set heap \<subseteq> P" "distinct heap" "heap_from 0 (length heap) heap" using assms by (auto simp: keeps_def tops_def)
  then have "sorted_wrt before (qe_top_k_native_sort before heap)" "mset (qe_top_k_native_sort before heap) = mset heap"
    using heap_sort_sorted [of "length heap" heap] by (simp_all add: qe_top_k_native_sort_def)
  then show ?thesis using assms by (metis best_rows_def keeps_def mset_eq_setD)
qed

section \<open>Several ranges\<close>

lemma best_rows_min: "card S \<le> n \<Longrightarrow> best_rows (min k n) S xs = best_rows k S xs"
  by (auto simp: best_rows_def tops_def min_def)

lemma range_best:
  assumes "{fst r..<snd r} \<subseteq> P" "0 < keep"
    "\<And>i root. fst r \<le> root \<Longrightarrow> root < i \<Longrightarrow> i < snd r \<Longrightarrow> displaces i root = before i root"
  shows "best_rows keep {fst r..<snd r} (qe_order_select_top_range before displaces keep r)"
    "best_rows keep {fst r..<snd r} (qe_top_k_native_task before displaces keep r)"
proof -
  have "keeps (min keep (snd r - fst r)) {fst r..<snd r} (select_top_range before displaces keep r)"
  proof (cases "fst r < snd r")
    case False
    then show ?thesis by (simp add: select_range_empty keeps_def heap_from_def tops_def)
  qed (rule select_range_keeps [OF assms(1,2)], use assms(3) in auto)
  from keeps_sorted [OF this] native_sort_best [OF this]
  show "best_rows keep {fst r..<snd r} (qe_order_select_top_range before displaces keep r)"
    "best_rows keep {fst r..<snd r} (qe_top_k_native_task before displaces keep r)"
    by (simp_all add: best_rows_min qe_order_select_top_range_def qe_top_k_native_task_def)
qed

lemma best_rows_sorted: "best_rows k S xs \<Longrightarrow> S \<subseteq> P \<Longrightarrow> distinct xs \<and> set xs \<subseteq> S \<and> set xs \<subseteq> P"
  using sorted_distinct [of xs] by (auto simp: best_rows_def tops_def)

lemma winners:
  assumes "covers rs n" "{0..<n} \<subseteq> P" "\<And>r. r \<in> set rs \<Longrightarrow> best_rows keep {fst r..<snd r} (f r)"
  shows "distinct (concat (map f rs))" "set (concat (map f rs)) \<subseteq> P"
    "\<And>T. tops keep (set (concat (map f rs))) T \<Longrightarrow> tops keep {0..<n} T"
    "n < keep \<Longrightarrow> set (concat (map f rs)) = {0..<n}" "keep \<le> n \<Longrightarrow> keep \<le> length (concat (map f rs))"
proof -
  have un: "(\<Union>r \<in> set rs. {fst r..<snd r}) = {0..<n}"
    using arg_cong [OF assms(1) [unfolded covers_def], of set] by simp
  have sub: "{fst r..<snd r} \<subseteq> P" if "r \<in> set rs" for r using un that assms(2) by blast
  note b = best_rows_sorted [OF assms(3) sub]
  have "distinct (concat (map (\<lambda>r. [fst r..<snd r]) rs))" using assms(1) by (simp add: covers_def)
  then show dist: "distinct (concat (map f rs))"
    using b
  proof (induction rs)
    case (Cons r rs)
    then have "set (f r) \<subseteq> {fst r..<snd r}" "distinct (f r)" "\<forall>r' \<in> set rs. set (f r') \<subseteq> {fst r'..<snd r'}"
      by (meson list.set_intros)+
    moreover have "{fst r..<snd r} \<inter> (\<Union>r' \<in> set rs. {fst r'..<snd r'}) = {}" using Cons.prems(1) by auto
    moreover have "distinct (concat (map f rs))" using Cons by auto
    ultimately show ?case by simp blast
  qed simp
  show "set (concat (map f rs)) \<subseteq> P" using b by auto
  have t: "tops keep {fst r..<snd r} (set (f r))" if "r \<in> set rs" for r using assms(3) [OF that] by (simp add: best_rows_def)
  show tops: "tops keep {0..<n} T" if "tops keep (set (concat (map f rs))) T" for T
    using tops_union [of "set rs" keep "\<lambda>r. {fst r..<snd r}" "\<lambda>r. set (f r)" T] t sub that un by simp
  have U: "set (concat (map f rs)) \<subseteq> {0..<n}" using b un by fastforce
  have card: "card (set (concat (map f rs))) = length (concat (map f rs))" using dist by (rule distinct_card)
  obtain T where T: "T \<subseteq> set (concat (map f rs))" "card T = min keep (length (concat (map f rs)))"
    using card by (metis min.cobounded2 obtain_subset_with_card_n)
  show "set (concat (map f rs)) = {0..<n}" if "n < keep"
  proof -
    have "set (f r) = {fst r..<snd r}" if r: "r \<in> set rs" for r
    proof -
      have "{fst r..<snd r} \<subseteq> {0..<n}" using un r by blast
      then have "card {fst r..<snd r} \<le> n" using card_mono [of "{0..<n}" "{fst r..<snd r}"] by simp
      then have "card (set (f r)) = card {fst r..<snd r}" using t [OF r] \<open>n < keep\<close> by (simp add: tops_def)
      then show ?thesis using t [OF r] by (intro card_subset_eq) (auto simp: tops_def)
    qed
    then show ?thesis using un by auto
  qed
  show "keep \<le> length (concat (map f rs))" if k: "keep \<le> n"
  proof (rule ccontr)
    assume few: "\<not> keep \<le> length (concat (map f rs))"
    have "set (f r) = {fst r..<snd r}" if r: "r \<in> set rs" for r
    proof -
      have "card (set (f r)) \<le> length (concat (map f rs))"
        unfolding card [symmetric] using r by (intro card_mono) auto
      then have "card (set (f r)) = card {fst r..<snd r}" using t [OF r] few by (auto simp: tops_def)
      then show ?thesis using t [OF r] by (intro card_subset_eq) (auto simp: tops_def)
    qed
    then have "set (concat (map f rs)) = {0..<n}" using un by auto
    then show False using few card k by simp
  qed
qed

lemma select_top_parallel_best:
  assumes "covers rs n" "{0..<n} \<subseteq> P" "0 < keep"
    "\<And>i root. root < i \<Longrightarrow> i < n \<Longrightarrow> displaces i root = before i root"
  shows "best_rows keep {0..<n} (select_top_parallel before displaces keep rs)"
proof -
  have un: "(\<Union>r \<in> set rs. {fst r..<snd r}) = {0..<n}"
    using arg_cong [OF assms(1) [unfolded covers_def], of set] by simp
  have f: "best_rows keep {fst r..<snd r} (qe_order_select_top_range before displaces keep r)" if r: "r \<in> set rs" for r
  proof (rule range_best(1))
    show "{fst r..<snd r} \<subseteq> P" using un r assms(2) by blast
    show "displaces i root = before i root" if "fst r \<le> root" "root < i" "i < snd r" for i root
    proof (rule assms(4) [OF that(2)])
      have "i \<in> {fst r..<snd r}" using that by simp
      then show "i < n" using un r by fastforce
    qed
  qed (rule assms(3))
  note w = winners [OF assms(1,2) f]
  have "best_rows keep (set (concat (map (qe_order_select_top_range before displaces keep) rs)))
      (select_top_parallel before displaces keep rs)"
    unfolding select_top_parallel_def by (rule select_top_best [OF w(2,1) assms(3)])
  then show ?thesis using w(3) by (simp add: best_rows_def)
qed

text \<open>The heap of the winners: filled first, then kept.\<close>

lemma native_merge_fold:
  assumes "set cs \<subseteq> P" "distinct cs" "0 < keep"
  shows "if length cs < keep then fold (native_merge_step before keep) cs [] = cs
    else keeps keep (set cs) (fold (native_merge_step before keep) cs [])"
  using assms
proof (induction cs rule: rev_induct)
  case Nil
  then show ?case by simp
next
  case (snoc c cs)
  let ?m = "fold (native_merge_step before keep) cs []"
  have IH: "if length cs < keep then ?m = cs else keeps keep (set cs) ?m" using snoc by simp
  show ?case
  proof (cases "length cs < keep")
    case True
    then have m: "?m = cs" using IH by simp
    show ?thesis
    proof (cases "length cs + 1 = keep")
      case filled: True
      have "keeps (length (cs @ [c])) (set (cs @ [c])) (qe_order_heapify before (cs @ [c]))"
        by (rule keeps_heapify) (use snoc.prems in auto)
      then show ?thesis using m True filled by (simp add: native_merge_step_def)
    qed (use m True in \<open>simp add: native_merge_step_def\<close>)
  next
    case False
    then have k: "keeps keep (set cs) ?m" using IH by simp
    then have "length ?m = keep" by (simp add: keeps_def)
    then show ?thesis using keeps_step [OF k snoc.prems(3), of c] snoc.prems False by (simp add: native_merge_step_def)
  qed
qed

lemma select_top_native_best:
  assumes "covers rs n" "{0..<n} \<subseteq> P" "0 < keep" "keep \<le> n"
    "\<And>i root. root < i \<Longrightarrow> i < n \<Longrightarrow> displaces i root = before i root"
  shows "best_rows keep {0..<n} (select_top_native before displaces keep rs)"
proof -
  have un: "(\<Union>r \<in> set rs. {fst r..<snd r}) = {0..<n}"
    using arg_cong [OF assms(1) [unfolded covers_def], of set] by simp
  have f: "best_rows keep {fst r..<snd r} (qe_top_k_native_task before displaces keep r)" if r: "r \<in> set rs" for r
  proof (rule range_best(2))
    show "{fst r..<snd r} \<subseteq> P" using un r assms(2) by blast
    show "displaces i root = before i root" if "fst r \<le> root" "root < i" "i < snd r" for i root
    proof (rule assms(5) [OF that(2)])
      have "i \<in> {fst r..<snd r}" using that by simp
      then show "i < n" using un r by fastforce
    qed
  qed (rule assms(3))
  note w = winners [OF assms(1,2) f]
  let ?cs = "concat (map (qe_top_k_native_task before displaces keep) rs)"
  have "keeps keep (set ?cs) (fold (native_merge_step before keep) ?cs [])"
    using native_merge_fold [OF w(2,1) assms(3)] w(5) [OF _ assms(4)] by (simp split: if_splits)
  from native_sort_best [OF this] show ?thesis
    unfolding select_top_native_def using w(3) by (simp add: best_rows_def)
qed

end

section \<open>The order of a comparison\<close>

text \<open>Less, and the position for equal rows.\<close>

lemma order_before_later: "root < i \<Longrightarrow> qe_order_before lt i root = lt i root"
  by (simp add: qe_order_before_def)

context comparator
begin

lemma order_before_cmp:
  "ok (f a) \<Longrightarrow> ok (f b) \<Longrightarrow>
   qe_order_before (\<lambda>a b. cmp (f a) (f b) < 0) a b \<longleftrightarrow> cmp (f a) (f b) < 0 \<or> cmp (f a) (f b) = 0 \<and> a < b"
  using cmp_swap [of "f b" "f a"] by (auto simp: qe_order_before_def)

lemma before_order_cmp:
  assumes "\<And>i. i \<in> P \<Longrightarrow> ok (f i)"
  shows "before_order (qe_order_before (\<lambda>a b. cmp (f a) (f b) < 0)) P"
proof
  let ?b = "qe_order_before (\<lambda>a b. cmp (f a) (f b) < 0)"
  show "\<not> ?b a a" if "a \<in> P" for a
    using cmp_refl [OF assms [OF that]] by (simp add: qe_order_before_def)
  show "?b a c" if P: "a \<in> P" "b \<in> P" "c \<in> P" and ab: "?b a b" and bc: "?b b c" for a b c
  proof -
    note ok = P [THEN assms]
    have "cmp (f a) (f b) < 0 \<or> cmp (f a) (f b) = 0 \<and> a < b" "cmp (f b) (f c) < 0 \<or> cmp (f b) (f c) = 0 \<and> b < c"
      using ab bc ok by (simp_all add: order_before_cmp)
    then have "cmp (f a) (f c) < 0 \<or> cmp (f a) (f c) = 0 \<and> a < c"
      using cmp_less_trans [of "f a" "f b" "f c"] cmp_le_less_trans [of "f a" "f b" "f c"]
        cmp_eq_trans [of "f a" "f b" "f c"] ok by auto
    then show ?thesis using ok by (simp add: order_before_cmp)
  qed
  show "?b a b \<or> ?b b a" if "a \<in> P" "b \<in> P" "a \<noteq> b" for a b
    using that by (auto simp: qe_order_before_def)
qed

lemma insert_sorted_before:
  "ok (f x) \<Longrightarrow> \<forall>y \<in> set ys. ok (f y) \<Longrightarrow>
   sorted_wrt (qe_order_before (\<lambda>a b. cmp (f a) (f b) < 0)) ys \<Longrightarrow> \<forall>y \<in> set ys. x < y \<Longrightarrow>
   sorted_wrt (qe_order_before (\<lambda>a b. cmp (f a) (f b) < 0)) (insert_by (\<lambda>a b. cmp (f a) (f b)) x ys)"
proof (induction ys)
  case (Cons y ys)
  let ?b = "qe_order_before (\<lambda>a b. cmp (f a) (f b) < 0)"
  have "before_order ?b {i. ok (f i)}" by (rule before_order_cmp) simp
  note trans = before_order.trans [OF this]
  show ?case
  proof (cases "cmp (f x) (f y) \<le> 0")
    case True
    then have "?b x y" using Cons.prems by (auto simp: order_before_cmp)
    then show ?thesis using True Cons.prems trans [of x y] by auto
  next
    case False
    then have "?b y x" using Cons.prems cmp_swap [of "f y" "f x"] by (simp add: order_before_cmp)
    then show ?thesis using False Cons by simp
  qed
qed simp

lemma sort_by_sorted_before:
  "\<forall>i \<in> set [m..<n]. ok (f i) \<Longrightarrow>
   sorted_wrt (qe_order_before (\<lambda>a b. cmp (f a) (f b) < 0)) (sort_by (\<lambda>a b. cmp (f a) (f b)) [m..<n])"
proof (induction "n - m" arbitrary: m)
  case (Suc d)
  then have "m < n" by simp
  then have "[m..<n] = m # [Suc m..<n]" by (rule upt_conv_Cons)
  then show ?case using Suc insert_sorted_before [of f m "sort_by (\<lambda>a b. cmp (f a) (f b)) [Suc m..<n]"] by simp
qed simp

text \<open>The best rows are the first of the stable sort.\<close>

lemma best_rows_stable:
  assumes "\<And>i. i < n \<Longrightarrow> ok (f i)" "before_order.best_rows (qe_order_before (\<lambda>a b. cmp (f a) (f b) < 0)) k {0..<n} xs"
  shows "xs = take k (sort_by (\<lambda>a b. cmp (f a) (f b)) [0..<n])"
proof -
  have o: "before_order (qe_order_before (\<lambda>a b. cmp (f a) (f b) < 0)) {0..<n}"
    by (rule before_order_cmp) (simp add: assms(1))
  have s: "sorted_wrt (qe_order_before (\<lambda>a b. cmp (f a) (f b) < 0)) (sort_by (\<lambda>a b. cmp (f a) (f b)) [0..<n])"
    by (rule sort_by_sorted_before) (simp add: assms(1))
  show ?thesis
    using before_order.best_rows_unique [OF o assms(2)] before_order.best_rows_take [OF o s, of k] by simp
qed

end

text \<open>Comparisons made from others: the reverse, the one of an image, and one after the other.\<close>

lemma comparator_reverse: "comparator cmp ok \<Longrightarrow> comparator (\<lambda>a b. - cmp a b) ok"
proof
  fix a b c assume c: "comparator cmp ok"
  show "ok a \<Longrightarrow> ok b \<Longrightarrow> - cmp a b < 0 \<longleftrightarrow> - cmp b a > 0" using comparator.cmp_swap [OF c, of b a] by auto
  show "ok a \<Longrightarrow> ok b \<Longrightarrow> ok c \<Longrightarrow> - cmp a b \<le> 0 \<Longrightarrow> - cmp b c \<le> 0 \<Longrightarrow> - cmp a c \<le> 0" for c
    using comparator.cmp_trans [OF \<open>comparator cmp ok\<close>, of c b a] comparator.cmp_le_ge [OF \<open>comparator cmp ok\<close>] by simp
qed

lemma comparator_image: "comparator cmp ok \<Longrightarrow> comparator (\<lambda>a b. cmp (f a) (f b)) (\<lambda>a. ok (f a))"
  unfolding comparator_def by blast

lemma comparator_then:
  assumes "comparator c ok" "comparator d ok'"
  shows "comparator (\<lambda>a b. if c a b \<noteq> 0 then c a b else d a b) (\<lambda>a. ok a \<and> ok' a)"
proof
  fix a b x
  assume a: "ok a \<and> ok' a" and b: "ok b \<and> ok' b"
  have "c a b = 0 \<longleftrightarrow> c b a = 0" using comparator.cmp_eq_sym [OF assms(1)] a b by blast
  then show "(if c a b \<noteq> 0 then c a b else d a b) < 0 \<longleftrightarrow> (if c b a \<noteq> 0 then c b a else d b a) > 0"
    using comparator.cmp_swap [OF assms(1), of a b] comparator.cmp_swap [OF assms(2), of a b] a b by auto
  assume x: "ok x \<and> ok' x" and ab: "(if c a b \<noteq> 0 then c a b else d a b) \<le> 0" and bx: "(if c b x \<noteq> 0 then c b x else d b x) \<le> 0"
  have le: "c a b \<le> 0" "c b x \<le> 0" using ab bx by (auto split: if_splits)
  show "(if c a x \<noteq> 0 then c a x else d a x) \<le> 0"
  proof (cases "c a b = 0 \<and> c b x = 0")
    case True
    then have "c a x = 0" using comparator.cmp_eq_trans [OF assms(1), of a b x] a b x by blast
    then show ?thesis using True ab bx comparator.cmp_trans [OF assms(2), of a b x] a b x by auto
  next
    case False
    then have "c a x < 0"
      using le comparator.cmp_less_trans [OF assms(1), of a b x] comparator.cmp_le_less_trans [OF assms(1), of a b x] a b x
      by (cases "c b x = 0") auto
    then show ?thesis by simp
  qed
qed

lemma comparator_trivial: "comparator (\<lambda>a b. 0) ok"
  by unfold_locales simp_all

lemma comparator_subset: "comparator cmp ok \<Longrightarrow> (\<And>x. ok' x \<Longrightarrow> ok x) \<Longrightarrow> comparator cmp ok'"
  unfolding comparator_def by blast

section \<open>Dividing the work\<close>

lemma covers_divide:
  assumes "0 < w"
  shows "covers (tp_divide_work n w) n"
proof -
  let ?per = "(n + w - 1) div w"
  have "concat (map (\<lambda>r. [fst r..<snd r]) (map (\<lambda>i. (min n (i * ?per), min n (i * ?per + ?per))) [0..<m])) = [0..<min n (m * ?per)]" for m
  proof (induction m)
    case (Suc m)
    have "min n (m * ?per) \<le> min n (m * ?per + ?per)" by simp
    then have "[0..<min n (m * ?per)] @ [min n (m * ?per)..<min n (m * ?per + ?per)] = [0..<min n (m * ?per + ?per)]"
      by (metis bot_nat_0.extremum le_Suc_ex upt_add_eq_append)
    then show ?case using Suc by (simp add: add.commute)
  qed simp
  moreover have "n \<le> w * ?per"
  proof -
    have "n + w - 1 < w * ?per + w" using mult_div_mod_eq [of w "n + w - 1"] mod_less_divisor [OF assms, of "n + w - 1"] by linarith
    then show ?thesis using assms by linarith
  qed
  ultimately show ?thesis by (simp add: covers_def tp_divide_work_def Let_def min_absorb1)
qed

end
