(* ===== verification/Qe_Bitonic.thy ===== *)
theory Qe_Bitonic
  imports Cql_Order
begin

text \<open>
  The sorting network that orders rows on the GPU: the shader \<open>src/src/gpu/vulkan/shaders/bitonic_sort.comp\<close>
  and the loop of \<open>qe_sort_rows\<close> that dispatches it. An array is a list whose length is a power of two; the
  threads of one dispatch touch disjoint pairs, so they are run one after the other.

  That the network sorts is shown for sequences of truth values first: for every lower set of the order,
  the rows in it end up in front of the others.
\<close>

section \<open>The shader\<close>

definition bitonic_thread :: "('a \<Rightarrow> 'a \<Rightarrow> bool) \<Rightarrow> nat \<Rightarrow> nat \<Rightarrow> nat \<Rightarrow> 'a list \<Rightarrow> 'a list" where
  "bitonic_thread lt stage pass t a =
     (let distance = 2 ^ pass;
          low = take_bit pass t;
          i = (t - low) * 2 + low;
          j = i + distance
      in if j \<ge> length a then a
         else if (if \<not> bit i (stage + 1) then lt (a ! j) (a ! i) else lt (a ! i) (a ! j))
         then a[i := a ! j, j := a ! i] else a)"

definition bitonic_dispatch :: "('a \<Rightarrow> 'a \<Rightarrow> bool) \<Rightarrow> nat \<Rightarrow> nat \<Rightarrow> 'a list \<Rightarrow> 'a list" where
  "bitonic_dispatch lt stage pass a = fold (bitonic_thread lt stage pass) [0..<length a div 2] a"

definition bitonic_stage :: "('a \<Rightarrow> 'a \<Rightarrow> bool) \<Rightarrow> nat \<Rightarrow> 'a list \<Rightarrow> 'a list" where
  "bitonic_stage lt stage a = fold (bitonic_dispatch lt stage) (rev [0..<stage + 1]) a"

definition bitonic_sort :: "('a \<Rightarrow> 'a \<Rightarrow> bool) \<Rightarrow> nat \<Rightarrow> 'a list \<Rightarrow> 'a list" where
  "bitonic_sort lt num_stages a = fold (bitonic_stage lt) [0..<num_stages] a"

section \<open>The network on truth values\<close>

text \<open>What a dispatch does to the position \<open>x\<close>: one of a pair gets the conjunction, the other the
  disjunction.\<close>

definition bool_step :: "nat \<Rightarrow> nat \<Rightarrow> (nat \<Rightarrow> bool) \<Rightarrow> nat \<Rightarrow> bool" where
  "bool_step stage pass g x =
     (let d = 2 ^ pass; lo = (if odd (x div d) then x - d else x)
      in if odd (x div d) = even (lo div 2 ^ (stage + 1)) then g lo \<and> g (lo + d) else g lo \<or> g (lo + d))"

text \<open>A block of \<open>2 ^ (p + 1)\<close> positions and its direction in a stage.\<close>

definition block :: "nat \<Rightarrow> nat \<Rightarrow> nat \<Rightarrow> nat" where
  "block p b r = b * 2 ^ (p + 1) + r"

definition ascending :: "nat \<Rightarrow> nat \<Rightarrow> nat \<Rightarrow> bool" where
  "ascending stage p b = even (b div 2 ^ (stage - p))"

lemma block_div:
  assumes "r < 2 ^ (p + 1)" "p \<le> stage"
  shows "block p b r div 2 ^ (stage + 1) = b div 2 ^ (stage - p)"
proof -
  have "(2::nat) ^ (stage + 1) = 2 ^ (p + 1) * 2 ^ (stage - p)" using assms(2) by (simp flip: power_add)
  then have "block p b r div 2 ^ (stage + 1) = (block p b r div 2 ^ (p + 1)) div 2 ^ (stage - p)"
    by (simp only: div_mult2_eq)
  also have "block p b r div 2 ^ (p + 1) = b" using assms(1) by (simp add: block_def)
  finally show ?thesis .
qed

lemma div_offset: "r < (d::nat) \<Longrightarrow> (c * d + r) div d = c"
  by simp

lemma block_half:
  assumes "r < 2 ^ p"
  shows "block p b r div 2 ^ p = 2 * b" "block p b (2 ^ p + r) div 2 ^ p = 2 * b + 1"
proof -
  have eq: "block p b r = (2 * b) * 2 ^ p + r" "block p b (2 ^ p + r) = (2 * b + 1) * 2 ^ p + r"
    by (simp_all add: block_def algebra_simps)
  show "block p b r div 2 ^ p = 2 * b" unfolding eq(1) by (rule div_offset [OF assms])
  show "block p b (2 ^ p + r) div 2 ^ p = 2 * b + 1" unfolding eq(2) by (rule div_offset [OF assms])
qed

lemma bool_step_block:
  assumes "r < 2 ^ p" "p \<le> stage"
  shows "bool_step stage p g (block p b r) =
      (if ascending stage p b then g (block p b r) \<or> g (block p b (2 ^ p + r)) else g (block p b r) \<and> g (block p b (2 ^ p + r)))"
    "bool_step stage p g (block p b (2 ^ p + r)) =
      (if ascending stage p b then g (block p b r) \<and> g (block p b (2 ^ p + r)) else g (block p b r) \<or> g (block p b (2 ^ p + r)))"
proof -
  have r: "r < 2 ^ (p + 1)" using assms(1) by simp
  have "block p b (2 ^ p + r) - 2 ^ p = block p b r" "block p b r + 2 ^ p = block p b (2 ^ p + r)" by (simp_all add: block_def)
  then show "bool_step stage p g (block p b r) =
      (if ascending stage p b then g (block p b r) \<or> g (block p b (2 ^ p + r)) else g (block p b r) \<and> g (block p b (2 ^ p + r)))"
    "bool_step stage p g (block p b (2 ^ p + r)) =
      (if ascending stage p b then g (block p b r) \<and> g (block p b (2 ^ p + r)) else g (block p b r) \<or> g (block p b (2 ^ p + r)))"
    using block_half [OF assms(1), of b] block_div [OF r assms(2), of b]
    by (simp_all add: bool_step_def Let_def ascending_def)
qed

lemma block_children:
  "block (Suc p) b r = block p (2 * b) r" "block p (2 * b) (2 * 2 ^ p + r) = block p (2 * b + 1) r"
  by (simp_all add: block_def)

lemma ascending_children: "Suc p \<le> stage \<Longrightarrow> ascending stage p (2 * b) = ascending stage (Suc p) b \<and>
    ascending stage p (2 * b + 1) = ascending stage (Suc p) b"
proof -
  assume "Suc p \<le> stage"
  then have "stage - p = Suc (stage - Suc p)" by simp
  then show ?thesis by (simp add: ascending_def div_mult2_eq)
qed

text \<open>A block is constant, sorted, or constant but for an interval.\<close>

definition constant_block :: "nat \<Rightarrow> nat \<Rightarrow> (nat \<Rightarrow> bool) \<Rightarrow> bool \<Rightarrow> bool" where
  "constant_block p b g c \<longleftrightarrow> (\<forall>x. x div 2 ^ p = b \<longrightarrow> g x = c)"

definition bool_passes :: "nat \<Rightarrow> nat \<Rightarrow> (nat \<Rightarrow> bool) \<Rightarrow> nat \<Rightarrow> bool" where
  "bool_passes stage n = fold (bool_step stage) (rev [0..<n])"

lemma bool_passes_Suc: "bool_passes stage (Suc n) g = bool_passes stage n (bool_step stage n g)"
  by (simp add: bool_passes_def)

text \<open>One step within a block.\<close>

lemma pos_cases:
  obtains b r where "r < 2 ^ p" "x = block p b r \<or> x = block p b (2 ^ p + r)"
proof
  show "x mod 2 ^ p < (2::nat) ^ p" by simp
  have x: "x = x div (2 * 2 ^ p) * (2 * 2 ^ p) + x mod (2 * 2 ^ p)" by (rule div_mult_mod_eq [symmetric])
  show "x = block p (x div (2 * 2 ^ p)) (x mod 2 ^ p) \<or> x = block p (x div (2 * 2 ^ p)) (2 ^ p + x mod 2 ^ p)"
    using mod_double_nat [of x "2 ^ p"] x unfolding block_def by (metis add.commute power_Suc Suc_eq_plus1)
qed

lemma constant_step:
  assumes "constant_block (Suc p) b g c" "p' \<le> p" "p \<le> stage"
  shows "constant_block (Suc p) b (bool_step stage p' g) c"
  unfolding constant_block_def
proof (intro allI impI)
  fix x :: nat assume x: "x div 2 ^ Suc p = b"
  obtain b' r where r: "r < 2 ^ p'" and xc: "x = block p' b' r \<or> x = block p' b' (2 ^ p' + r)" by (rule pos_cases)
  have "block p' b' r div 2 ^ (p + 1) = b' div 2 ^ (p - p')" "block p' b' (2 ^ p' + r) div 2 ^ (p + 1) = b' div 2 ^ (p - p')"
    using r block_div [of r p' p b'] block_div [of "2 ^ p' + r" p' p b'] assms(2) by simp_all
  then have "g (block p' b' r) = c" "g (block p' b' (2 ^ p' + r)) = c"
    using assms(1) x xc by (auto simp: constant_block_def)
  then show "bool_step stage p' g x = c"
    using xc bool_step_block [OF r, of stage g b'] assms(2,3) by (elim disjE) (simp_all split: if_splits)
qed

lemma constant_passes:
  "constant_block (Suc p) b g c \<Longrightarrow> n \<le> Suc p \<Longrightarrow> p \<le> stage \<Longrightarrow> constant_block (Suc p) b (bool_passes stage n g) c"
proof (induction n arbitrary: g)
  case (Suc n)
  then show ?case using constant_step [of p b g c n stage] by (simp add: bool_passes_Suc)
qed (simp add: bool_passes_def)

text \<open>A bitonic block becomes two, one of them constant.\<close>

definition bitonic_on :: "nat \<Rightarrow> (nat \<Rightarrow> bool) \<Rightarrow> bool" where
  "bitonic_on n f \<longleftrightarrow> (\<exists>lo hi c. lo \<le> hi \<and> hi \<le> n \<and> (\<forall>r < n. f r = (c \<noteq> (lo \<le> r \<and> r < hi))))"

lemma bitonic_onI: "lo \<le> hi \<Longrightarrow> hi \<le> n \<Longrightarrow> (\<And>r. r < n \<Longrightarrow> f r = (c \<noteq> (lo \<le> r \<and> r < hi))) \<Longrightarrow> bitonic_on n f"
  by (auto simp: bitonic_on_def)

lemma bitonic_on_not: "bitonic_on n (\<lambda>r. \<not> f r) \<longleftrightarrow> bitonic_on n f"
proof -
  have flip: "bitonic_on n (\<lambda>r. \<not> f r)" if f: "bitonic_on n f" for f
  proof -
    obtain lo hi c where "lo \<le> hi" "hi \<le> n" "\<And>r. r < n \<Longrightarrow> f r = (c \<noteq> (lo \<le> r \<and> r < hi))"
      using f by (auto simp: bitonic_on_def)
    then show ?thesis by (intro bitonic_onI [of lo hi _ _ "\<not> c"]) auto
  qed
  then show ?thesis using flip [of f] flip [of "\<lambda>r. \<not> f r"] by auto
qed

lemma bitonic_split_ones:
  assumes "lo \<le> hi" "hi \<le> 2 * d" "\<And>r. r < 2 * d \<Longrightarrow> f r = (lo \<le> r \<and> r < hi)"
  shows "bitonic_on d (\<lambda>r. f r \<or> f (d + r))" "bitonic_on d (\<lambda>r. f r \<and> f (d + r))"
proof -
  have halves: "f r = (lo \<le> r \<and> r < hi)" "f (d + r) = (lo \<le> d + r \<and> d + r < hi)" if "r < d" for r
    using assms(3) [of r] assms(3) [of "d + r"] that by auto
  consider "hi \<le> d" | "d \<le> lo" | "lo < d" "d < hi" by linarith
  then have "bitonic_on d (\<lambda>r. f r \<or> f (d + r)) \<and> bitonic_on d (\<lambda>r. f r \<and> f (d + r))"
  proof cases
    case 1
    then show ?thesis using assms(1,2) halves
      by (intro conjI bitonic_onI [of lo hi _ _ False] bitonic_onI [of 0 0 _ _ False]) auto
  next
    case 2
    then show ?thesis using assms(1,2) halves
      by (intro conjI bitonic_onI [of "lo - d" "hi - d" _ _ False] bitonic_onI [of 0 0 _ _ False]) auto
  next
    case 3
    have "bitonic_on d (\<lambda>r. f r \<or> f (d + r))"
    proof (rule bitonic_onI [of "min (hi - d) lo" lo])
      show "(f r \<or> f (d + r)) = (True \<noteq> (min (hi - d) lo \<le> r \<and> r < lo))" if "r < d" for r
        using halves [OF that] 3 that by (auto simp: min_def)
    qed (use 3 in auto)
    moreover have "bitonic_on d (\<lambda>r. f r \<and> f (d + r))"
      using 3 assms(1,2) halves by (intro bitonic_onI [of lo "max lo (hi - d)" _ _ False]) auto
    ultimately show ?thesis by blast
  qed
  then show "bitonic_on d (\<lambda>r. f r \<or> f (d + r))" "bitonic_on d (\<lambda>r. f r \<and> f (d + r))" by blast+
qed

lemma bitonic_split:
  assumes "bitonic_on (2 * d) f"
  shows "bitonic_on d (\<lambda>r. f r \<or> f (d + r))" "bitonic_on d (\<lambda>r. f r \<and> f (d + r))"
    "(\<forall>r < d. f r \<or> f (d + r)) \<or> (\<forall>r < d. \<not> (f r \<and> f (d + r)))"
proof -
  obtain lo hi c where f: "lo \<le> hi" "hi \<le> 2 * d" "\<And>r. r < 2 * d \<Longrightarrow> f r = (c \<noteq> (lo \<le> r \<and> r < hi))"
    using assms by (auto simp: bitonic_on_def)
  have halves: "f r = (c \<noteq> (lo \<le> r \<and> r < hi))" "f (d + r) = (c \<noteq> (lo \<le> d + r \<and> d + r < hi))" if "r < d" for r
    using f(3) [of r] f(3) [of "d + r"] that by auto
  have "bitonic_on d (\<lambda>r. f r \<or> f (d + r)) \<and> bitonic_on d (\<lambda>r. f r \<and> f (d + r))"
  proof (cases c)
    case True
    have "bitonic_on d (\<lambda>r. \<not> f r \<or> \<not> f (d + r))" "bitonic_on d (\<lambda>r. \<not> f r \<and> \<not> f (d + r))"
      using bitonic_split_ones [OF f(1,2), of "\<lambda>r. \<not> f r"] f(3) True by auto
    then have "bitonic_on d (\<lambda>r. \<not> (f r \<and> f (d + r)))" "bitonic_on d (\<lambda>r. \<not> (f r \<or> f (d + r)))" by simp_all
    then show ?thesis using bitonic_on_not by blast
  next
    case False
    then show ?thesis using bitonic_split_ones [OF f(1,2), of f] f(3) by simp
  qed
  then show "bitonic_on d (\<lambda>r. f r \<or> f (d + r))" "bitonic_on d (\<lambda>r. f r \<and> f (d + r))" by blast+
  show "(\<forall>r < d. f r \<or> f (d + r)) \<or> (\<forall>r < d. \<not> (f r \<and> f (d + r)))"
    using halves by (cases c) auto
qed

section \<open>The network sorts truth values\<close>

definition sorted_on :: "bool \<Rightarrow> nat \<Rightarrow> (nat \<Rightarrow> bool) \<Rightarrow> bool" where
  "sorted_on asc n f \<longleftrightarrow> (\<forall>x y. x < y \<longrightarrow> y < n \<longrightarrow> (if asc then f y \<longrightarrow> f x else f x \<longrightarrow> f y))"

lemma constant_block_on:
  "(\<forall>r < 2 ^ (p + 1). g (block p b r) = c) \<longleftrightarrow> constant_block (Suc p) b g c"
proof
  assume *: "\<forall>r < 2 ^ (p + 1). g (block p b r) = c"
  show "constant_block (Suc p) b g c" unfolding constant_block_def
  proof (intro allI impI)
    fix x :: nat assume x: "x div 2 ^ Suc p = b"
    have "x = block p b (x mod 2 ^ Suc p)" using x div_mult_mod_eq [of x "2 ^ Suc p"] by (simp add: block_def)
    moreover have "x mod 2 ^ Suc p < 2 ^ (p + 1)" by simp
    ultimately show "g x = c" using * by metis
  qed
next
  assume *: "constant_block (Suc p) b g c"
  show "\<forall>r < 2 ^ (p + 1). g (block p b r) = c"
  proof (intro allI impI)
    fix r :: nat assume "r < 2 ^ (p + 1)"
    then have "block p b r div 2 ^ (p + 1) = b" unfolding block_def by (rule div_offset)
    then show "g (block p b r) = c" using * by (simp add: constant_block_def)
  qed
qed

text \<open>A block whose halves are sorted and one of whose halves is constant on the right side.\<close>

lemma sorted_on_halves:
  assumes "sorted_on asc d (\<lambda>r. f r)" "sorted_on asc d (\<lambda>r. f (d + r))"
    "(\<forall>r < d. f r = asc) \<or> (\<forall>r < d. f (d + r) = (\<not> asc))"
  shows "sorted_on asc (2 * d) f"
  unfolding sorted_on_def
proof (intro allI impI)
  fix x y assume xy: "x < y" "y < 2 * d"
  consider "y < d" | "d \<le> x" | "x < d" "d \<le> y" by linarith
  then show "if asc then f y \<longrightarrow> f x else f x \<longrightarrow> f y"
  proof cases
    case 1
    then show ?thesis using assms(1) xy by (auto simp: sorted_on_def)
  next
    case 2
    then have "x - d < y - d" "y - d < d" "d + (x - d) = x" "d + (y - d) = y" using xy by auto
    then show ?thesis using assms(2) unfolding sorted_on_def by metis
  next
    case 3
    then have "y - d < d" "d + (y - d) = y" using xy by auto
    then show ?thesis using assms(3) 3 by metis
  qed
qed

lemma bitonic_passes_sort:
  "n \<le> stage + 1 \<Longrightarrow> 0 < n \<Longrightarrow> bitonic_on (2 ^ n) (\<lambda>r. g (block (n - 1) b r)) \<Longrightarrow>
   sorted_on (ascending stage (n - 1) b) (2 ^ n) (\<lambda>r. bool_passes stage n g (block (n - 1) b r))"
proof (induction n arbitrary: g b)
  case (Suc p)
  let ?d = "2 ^ p :: nat" and ?g = "bool_step stage p g" and ?asc = "ascending stage p b"
  have p: "p \<le> stage" using Suc.prems(1) by simp
  have bit: "bitonic_on (2 * ?d) (\<lambda>r. g (block p b r))" using Suc.prems(3) by simp
  note split = bitonic_split [OF bit]
  note step = bool_step_block [OF _ p, of _ g b]
  have halves: "bitonic_on ?d (\<lambda>r. ?g (block p b r))" "bitonic_on ?d (\<lambda>r. ?g (block p b (?d + r)))"
  proof -
    have cong: "bitonic_on ?d f" if "bitonic_on ?d h" "\<And>r. r < ?d \<Longrightarrow> f r = h r" for f h
      using that by (auto simp: bitonic_on_def)
    show "bitonic_on ?d (\<lambda>r. ?g (block p b r))" "bitonic_on ?d (\<lambda>r. ?g (block p b (?d + r)))"
    proof -
      show "bitonic_on ?d (\<lambda>r. ?g (block p b r))"
      proof (cases ?asc)
        case True
        show ?thesis by (rule cong [OF split(1)]) (use step True in simp)
      next
        case False
        show ?thesis by (rule cong [OF split(2)]) (use step False in simp)
      qed
      show "bitonic_on ?d (\<lambda>r. ?g (block p b (?d + r)))"
      proof (cases ?asc)
        case True
        show ?thesis by (rule cong [OF split(2)]) (use step True in simp)
      next
        case False
        show ?thesis by (rule cong [OF split(1)]) (use step False in simp)
      qed
    qed
  qed
  have const: "(\<forall>r < ?d. ?g (block p b r) = ?asc) \<or> (\<forall>r < ?d. ?g (block p b (?d + r)) = (\<not> ?asc))"
    using split(3) step by (cases ?asc) auto
  show ?case
  proof (cases p)
    case 0
    then show ?thesis using const
      by (auto simp: bool_passes_Suc bool_passes_def sorted_on_def block_def less_Suc_eq numeral_2_eq_2)
  next
    case (Suc p')
    note ch = block_children [of p' b]
    note as = ascending_children [of p' stage b]
    have "sorted_on ?asc ?d (\<lambda>r. bool_passes stage p ?g (block p b r))"
      using Suc.IH [of ?g "2 * b"] halves(1) p as unfolding Suc ch(1) by simp
    moreover have "sorted_on ?asc ?d (\<lambda>r. bool_passes stage p ?g (block p b (?d + r)))"
      using Suc.IH [of ?g "2 * b + 1"] halves(2) p as unfolding Suc ch(1) by (simp flip: ch(2)) (simp add: ch(2))
    moreover have "(\<forall>r < ?d. bool_passes stage p ?g (block p b r) = ?asc) \<or>
        (\<forall>r < ?d. bool_passes stage p ?g (block p b (?d + r)) = (\<not> ?asc))"
      using const
    proof
      assume "\<forall>r < ?d. ?g (block p b r) = ?asc"
      then have "constant_block (Suc p') (2 * b) ?g ?asc" unfolding constant_block_on [symmetric] using Suc ch by simp
      from constant_passes [OF this, of p stage] show ?thesis
        unfolding constant_block_on [symmetric] using Suc ch p by simp
    next
      assume "\<forall>r < ?d. ?g (block p b (?d + r)) = (\<not> ?asc)"
      then have "constant_block (Suc p') (2 * b + 1) ?g (\<not> ?asc)" unfolding constant_block_on [symmetric] using Suc ch by simp
      from constant_passes [OF this, of p stage] show ?thesis
        unfolding constant_block_on [symmetric] using Suc ch p by simp
    qed
    ultimately show ?thesis using sorted_on_halves [of ?asc ?d "\<lambda>r. bool_passes stage p ?g (block p b r)"]
      by (simp add: bool_passes_Suc)
  qed
qed simp

definition bool_stages :: "nat \<Rightarrow> (nat \<Rightarrow> bool) \<Rightarrow> nat \<Rightarrow> bool" where
  "bool_stages n = fold (\<lambda>stage. bool_passes stage (stage + 1)) [0..<n]"

lemma sorted_on_ex: "sorted_on asc n f \<Longrightarrow> \<exists>k \<le> n. \<forall>r < n. f r = ((r < k) = asc)"
proof (induction n)
  case (Suc n)
  have "sorted_on asc n f" using Suc.prems unfolding sorted_on_def by (meson less_SucI)
  then obtain k where k: "k \<le> n" "\<forall>r < n. f r = ((r < k) = asc)" using Suc.IH by blast
  show ?case
  proof (cases "f n = asc")
    case True
    then have "\<forall>r < n. f r = asc" using Suc.prems by (auto simp: sorted_on_def split: if_splits)
    then show ?thesis using True by (intro exI [of _ "Suc n"]) (auto simp: less_Suc_eq)
  next
    case False
    then show ?thesis using k by (intro exI [of _ k]) (auto simp: less_Suc_eq)
  qed
qed simp

lemma bool_stages_sort: "sorted_on (even b) (2 ^ n) (\<lambda>r. bool_stages n g (b * 2 ^ n + r))"
proof (induction n arbitrary: b)
  case 0
  then show ?case by (simp add: sorted_on_def)
next
  case (Suc n)
  let ?G = "bool_stages n g" and ?d = "2 ^ n :: nat"
  have eq: "block n b r = (2 * b) * ?d + r" "block n b (?d + r) = (2 * b + 1) * ?d + r" for r
    by (simp_all add: block_def algebra_simps)
  have "sorted_on True ?d (\<lambda>r. ?G (block n b r))" "sorted_on False ?d (\<lambda>r. ?G (block n b (?d + r)))"
    unfolding eq using Suc [of "2 * b"] Suc [of "2 * b + 1"] by (simp_all add: ac_simps)
  then obtain k k' where k: "k \<le> ?d" "k' \<le> ?d" "\<And>r. r < ?d \<Longrightarrow> ?G (block n b r) = (r < k)"
      "\<And>r. r < ?d \<Longrightarrow> ?G (block n b (?d + r)) = (\<not> r < k')"
    using sorted_on_ex [of True ?d "\<lambda>r. ?G (block n b r)"] sorted_on_ex [of False ?d "\<lambda>r. ?G (block n b (?d + r))"] by auto
  have "bitonic_on (2 ^ Suc n) (\<lambda>r. ?G (block n b r))"
  proof (rule bitonic_onI [of k "?d + k'"])
    show "?G (block n b r) = (True \<noteq> (k \<le> r \<and> r < ?d + k'))" if "r < 2 ^ Suc n" for r
      using k(3) [of r] k(4) [of "r - ?d"] k(1,2) that by (cases "r < ?d") auto
  qed (use k in simp_all)
  then have "sorted_on (ascending n n b) (2 ^ Suc n) (\<lambda>r. bool_passes n (Suc n) ?G (block n b r))"
    using bitonic_passes_sort [of "Suc n" n ?G b] by simp
  then show ?case by (simp add: ascending_def bool_stages_def block_def)
qed

section \<open>The network on rows\<close>

lemma block_inject:
  assumes "r < 2 ^ (p + 1)" "r' < 2 ^ (p + 1)"
  shows "block p b r = block p b' r' \<longleftrightarrow> b = b' \<and> r = r'"
proof
  assume *: "block p b r = block p b' r'"
  have "block p b r div 2 ^ (p + 1) = b" "block p b' r' div 2 ^ (p + 1) = b'"
    unfolding block_def by (rule div_offset [OF assms(1)]) (rule div_offset [OF assms(2)])
  then have "b = b'" using * by metis
  then show "b = b' \<and> r = r'" using * by (simp add: block_def)
qed simp

lemma block_inject_half:
  assumes "r < 2 ^ p" "r' < 2 ^ p"
  shows "block p b r = block p b' r' \<longleftrightarrow> b = b' \<and> r = r'" "block p b (2 ^ p + r) = block p b' (2 ^ p + r') \<longleftrightarrow> b = b' \<and> r = r'"
    "block p b r \<noteq> block p b' (2 ^ p + r')" "block p b (2 ^ p + r) \<noteq> block p b' r'"
proof -
  have "r < 2 ^ (p + 1)" "r' < 2 ^ (p + 1)" "2 ^ p + r < 2 ^ (p + 1)" "2 ^ p + r' < 2 ^ (p + 1)" using assms by simp_all
  note less = this
  show "block p b r = block p b' r' \<longleftrightarrow> b = b' \<and> r = r'" by (rule block_inject [OF less(1,2)])
  show "block p b (2 ^ p + r) = block p b' (2 ^ p + r') \<longleftrightarrow> b = b' \<and> r = r'" using block_inject [OF less(3,4)] by simp
  show "block p b r \<noteq> block p b' (2 ^ p + r')" using block_inject [OF less(1,4)] assms by simp
  show "block p b (2 ^ p + r) \<noteq> block p b' r'" using block_inject [OF less(3,2)] assms by simp
qed

text \<open>The pair of a thread.\<close>

lemma thread_pair:
  "bitonic_thread lt stage p t a =
     (let i = block p (t div 2 ^ p) (t mod 2 ^ p); j = block p (t div 2 ^ p) (2 ^ p + t mod 2 ^ p)
      in if j \<ge> length a then a
         else if (if \<not> bit i (stage + 1) then lt (a ! j) (a ! i) else lt (a ! i) (a ! j)) then a[i := a ! j, j := a ! i] else a)"
proof -
  have "(t - take_bit p t) * 2 + take_bit p t = block p (t div 2 ^ p) (t mod 2 ^ p)"
    by (simp add: block_def take_bit_eq_mod minus_mod_eq_div_mult algebra_simps)
  moreover have "block p b r + 2 ^ p = block p b (2 ^ p + r)" for b r by (simp add: block_def)
  ultimately show ?thesis by (simp add: bitonic_thread_def Let_def)
qed

definition exchanged :: "('a \<Rightarrow> 'a \<Rightarrow> bool) \<Rightarrow> nat \<Rightarrow> 'a list \<Rightarrow> nat \<Rightarrow> nat \<Rightarrow> 'a \<times> 'a" where
  "exchanged lt stage a i j =
     (if (if \<not> bit i (stage + 1) then lt (a ! j) (a ! i) else lt (a ! i) (a ! j)) then (a ! j, a ! i) else (a ! i, a ! j))"

lemma threads_run:
  "k \<le> length a div 2 \<Longrightarrow>
   mset (fold (bitonic_thread lt stage p) [0..<k] a) = mset a \<and>
   (\<forall>b r. r < 2 ^ p \<longrightarrow> block p b (2 ^ p + r) < length a \<longrightarrow>
    (fold (bitonic_thread lt stage p) [0..<k] a ! block p b r, fold (bitonic_thread lt stage p) [0..<k] a ! block p b (2 ^ p + r)) =
      (if b * 2 ^ p + r < k then exchanged lt stage a (block p b r) (block p b (2 ^ p + r))
       else (a ! block p b r, a ! block p b (2 ^ p + r))))"
proof (induction k)
  case (Suc k)
  let ?A = "fold (bitonic_thread lt stage p) [0..<k] a"
  let ?i = "block p (k div 2 ^ p) (k mod 2 ^ p)" and ?j = "block p (k div 2 ^ p) (2 ^ p + k mod 2 ^ p)"
  have IH: "mset ?A = mset a" "\<And>b r. r < 2 ^ p \<Longrightarrow> block p b (2 ^ p + r) < length a \<Longrightarrow>
      (?A ! block p b r, ?A ! block p b (2 ^ p + r)) =
      (if b * 2 ^ p + r < k then exchanged lt stage a (block p b r) (block p b (2 ^ p + r))
       else (a ! block p b r, a ! block p b (2 ^ p + r)))"
    using Suc by auto
  have len: "length ?A = length a" using IH(1) by (rule mset_eq_length)
  have ij: "?i < ?j" by (simp add: block_def)
  have kk: "k div 2 ^ p * 2 ^ p + k mod 2 ^ p = k" by (rule div_mult_mod_eq)
  have step: "fold (bitonic_thread lt stage p) [0..<Suc k] a = bitonic_thread lt stage p k ?A" by simp
  show ?case
  proof (cases "?j < length a")
    case False
    then have "bitonic_thread lt stage p k ?A = ?A" using len by (simp add: thread_pair)
    moreover have "b * 2 ^ p + r \<noteq> k" if "r < 2 ^ p" "block p b (2 ^ p + r) < length a" for b r
    proof
      assume "b * 2 ^ p + r = k"
      then have "k div 2 ^ p = b" "k mod 2 ^ p = r" using that(1) by auto
      then show False using False that(2) by simp
    qed
    ultimately show ?thesis unfolding step using IH by (simp add: less_Suc_eq)
  next
    case True
    have old: "?A ! ?i = a ! ?i" "?A ! ?j = a ! ?j" using IH(2) [of "k mod 2 ^ p" "k div 2 ^ p"] True kk by simp_all
    have run: "bitonic_thread lt stage p k ?A = ?A[?i := fst (exchanged lt stage a ?i ?j), ?j := snd (exchanged lt stage a ?i ?j)]"
      using True len old ij by (simp add: thread_pair exchanged_def Let_def list_update_same_conv) (metis list_update_id)
    have "mset (bitonic_thread lt stage p k ?A) = mset ?A"
      using True len ij by (simp add: thread_pair Let_def mset_swap)
    moreover have "(bitonic_thread lt stage p k ?A ! block p b r, bitonic_thread lt stage p k ?A ! block p b (2 ^ p + r)) =
        (if b * 2 ^ p + r < Suc k then exchanged lt stage a (block p b r) (block p b (2 ^ p + r))
         else (a ! block p b r, a ! block p b (2 ^ p + r)))"
      if r: "r < 2 ^ p" "block p b (2 ^ p + r) < length a" for b r
    proof (cases "b * 2 ^ p + r = k")
      case eq: True
      then have "k div 2 ^ p = b" "k mod 2 ^ p = r" using r(1) by auto
      then show ?thesis using eq True len ij unfolding run by simp
    next
      case ne: False
      then have "\<not> (b = k div 2 ^ p \<and> r = k mod 2 ^ p)" using kk by auto
      then have "block p b r \<noteq> ?i" "block p b (2 ^ p + r) \<noteq> ?j" "block p b r \<noteq> ?j" "block p b (2 ^ p + r) \<noteq> ?i"
        using r(1) mod_less_divisor [of "2 ^ p" k] by (auto simp: block_inject_half)
      then show ?thesis using IH(2) [OF r] ne unfolding run by (simp add: less_Suc_eq)
    qed
    ultimately show ?thesis unfolding step using IH(1) by simp
  qed
qed simp

text \<open>A lower set of the order: with a row all that do not come behind it.\<close>

definition lower_set :: "('a \<Rightarrow> 'a \<Rightarrow> bool) \<Rightarrow> 'a set \<Rightarrow> ('a \<Rightarrow> bool) \<Rightarrow> bool" where
  "lower_set lt S Q \<longleftrightarrow> (\<forall>x \<in> S. \<forall>y \<in> S. Q y \<longrightarrow> \<not> lt y x \<longrightarrow> Q x)"

lemma bool_step_cong:
  assumes "\<And>x. x < N * 2 ^ (p + 1) \<Longrightarrow> g x = h x" "x < N * 2 ^ (p + 1)" "p \<le> stage"
  shows "bool_step stage p g x = bool_step stage p h x"
proof -
  obtain b r where r: "r < 2 ^ p" and x: "x = block p b r \<or> x = block p b (2 ^ p + r)" by (rule pos_cases)
  have "x div 2 ^ (p + 1) = b" using x r block_div [of r p p b] block_div [of "2 ^ p + r" p p b] by auto
  then have "b < N" using assms(2) by (metis less_mult_imp_div_less)
  then have "Suc b * 2 ^ (p + 1) \<le> N * 2 ^ (p + 1)" by (intro mult_le_mono1) simp
  then have "block p b r < N * 2 ^ (p + 1)" "block p b (2 ^ p + r) < N * 2 ^ (p + 1)" using r by (simp_all add: block_def)
  then have "g (block p b r) = h (block p b r)" "g (block p b (2 ^ p + r)) = h (block p b (2 ^ p + r))" using assms(1) by blast+
  then show ?thesis using x by (elim disjE) (simp_all only: bool_step_block [OF r assms(3)])
qed

lemma exchange_bool:
  assumes "Q v \<longrightarrow> \<not> lt v u \<longrightarrow> Q u" "Q u \<longrightarrow> \<not> lt u v \<longrightarrow> Q v" "lt u v \<longrightarrow> \<not> lt v u"
  shows "Q (fst (if (if asc then lt v u else lt u v) then (v, u) else (u, v))) = (if asc then Q u \<or> Q v else Q u \<and> Q v)"
    "Q (snd (if (if asc then lt v u else lt u v) then (v, u) else (u, v))) = (if asc then Q u \<and> Q v else Q u \<or> Q v)"
  by (cases asc; cases "lt v u"; cases "lt u v"; use assms in simp; blast)+

lemma dispatch_bool:
  assumes "length a = N * 2 ^ (p + 1)" "p \<le> stage" "lower_set lt (set a) Q"
    "\<And>x y. x \<in> set a \<Longrightarrow> y \<in> set a \<Longrightarrow> lt x y \<Longrightarrow> \<not> lt y x"
  shows "mset (bitonic_dispatch lt stage p a) = mset a"
    "x < length a \<Longrightarrow> Q (bitonic_dispatch lt stage p a ! x) = bool_step stage p (\<lambda>x. Q (a ! x)) x"
proof -
  note run = threads_run [OF order_refl, of lt stage p a, folded bitonic_dispatch_def]
  from run show "mset (bitonic_dispatch lt stage p a) = mset a" by blast
  assume x: "x < length a"
  obtain b r where r: "r < 2 ^ p" and xc: "x = block p b r \<or> x = block p b (2 ^ p + r)" by (rule pos_cases)
  have "x div 2 ^ (p + 1) = b" using xc r block_div [of r p p b] block_div [of "2 ^ p + r" p p b] by auto
  then have "b < N" using x assms(1) by (metis less_mult_imp_div_less)
  then have le: "Suc b * 2 ^ (p + 1) \<le> N * 2 ^ (p + 1)" by (intro mult_le_mono1) simp
  let ?i = "block p b r" and ?j = "block p b (2 ^ p + r)"
  have in_range: "?i < length a" "?j < length a" "b * 2 ^ p + r < length a div 2"
    using r le by (simp_all add: block_def assms(1))
  have pair: "(bitonic_dispatch lt stage p a ! ?i, bitonic_dispatch lt stage p a ! ?j) = exchanged lt stage a ?i ?j"
    using run r in_range by auto
  have "?i div 2 ^ (stage + 1) = b div 2 ^ (stage - p)" using r assms(2) by (intro block_div) simp_all
  then have bit: "bit ?i (stage + 1) = (\<not> ascending stage p b)" by (simp add: bit_iff_odd ascending_def)
  have mem: "a ! ?i \<in> set a" "a ! ?j \<in> set a" using in_range by simp_all
  have low: "Q (a ! ?j) \<longrightarrow> \<not> lt (a ! ?j) (a ! ?i) \<longrightarrow> Q (a ! ?i)" "Q (a ! ?i) \<longrightarrow> \<not> lt (a ! ?i) (a ! ?j) \<longrightarrow> Q (a ! ?j)"
    "lt (a ! ?i) (a ! ?j) \<longrightarrow> \<not> lt (a ! ?j) (a ! ?i)"
    using assms(3) [unfolded lower_set_def, rule_format, OF mem] assms(3) [unfolded lower_set_def, rule_format, OF mem(2,1)]
      assms(4) [OF mem] by blast+
  let ?e = "exchanged lt stage a ?i ?j"
  have "Q (fst ?e) = (if ascending stage p b then Q (a ! ?i) \<or> Q (a ! ?j) else Q (a ! ?i) \<and> Q (a ! ?j))"
    "Q (snd ?e) = (if ascending stage p b then Q (a ! ?i) \<and> Q (a ! ?j) else Q (a ! ?i) \<or> Q (a ! ?j))"
    unfolding exchanged_def bit not_not
    by (rule exchange_bool [of Q "a ! ?j" lt "a ! ?i", OF low])+
  moreover have "bitonic_dispatch lt stage p a ! ?i = fst ?e" "bitonic_dispatch lt stage p a ! ?j = snd ?e"
    using pair by (simp_all add: prod_eq_iff)
  ultimately show "Q (bitonic_dispatch lt stage p a ! x) = bool_step stage p (\<lambda>x. Q (a ! x)) x"
    using xc by (elim disjE) (simp_all only: bool_step_block [OF r assms(2)])
qed

lemma passes_bool:
  "n \<le> stage + 1 \<Longrightarrow> length a = N * 2 ^ (stage + 1) \<Longrightarrow> lower_set lt (set a) Q \<Longrightarrow>
   (\<And>x y. x \<in> set a \<Longrightarrow> y \<in> set a \<Longrightarrow> lt x y \<Longrightarrow> \<not> lt y x) \<Longrightarrow>
   mset (fold (bitonic_dispatch lt stage) (rev [0..<n]) a) = mset a \<and>
   (\<forall>x < length a. Q (fold (bitonic_dispatch lt stage) (rev [0..<n]) a ! x) = bool_passes stage n (\<lambda>x. Q (a ! x)) x)"
proof (induction n arbitrary: a)
  case (Suc n)
  let ?a = "bitonic_dispatch lt stage n a"
  have n: "n \<le> stage" using Suc.prems(1) by simp
  have "(2::nat) ^ (stage + 1) = 2 ^ (stage - n) * 2 ^ (n + 1)" using n by (simp flip: power_add)
  then have len: "length a = N * 2 ^ (stage - n) * 2 ^ (n + 1)" using Suc.prems(2) by (simp only: mult.assoc)
  note step = dispatch_bool [OF len n Suc.prems(3,4)]
  have set: "set ?a = set a" "length ?a = length a" using step(1) by (metis mset_eq_setD, metis mset_eq_length)
  have IH: "mset (fold (bitonic_dispatch lt stage) (rev [0..<n]) ?a) = mset ?a \<and>
      (\<forall>x < length ?a. Q (fold (bitonic_dispatch lt stage) (rev [0..<n]) ?a ! x) = bool_passes stage n (\<lambda>x. Q (?a ! x)) x)"
  proof (rule Suc.IH)
    show "length ?a = N * 2 ^ (stage + 1)" unfolding set(2) by (rule Suc.prems(2))
    show "lower_set lt (set ?a) Q" unfolding set(1) by (rule Suc.prems(3))
    show "\<not> lt y x" if "x \<in> set ?a" "y \<in> set ?a" "lt x y" for x y using that unfolding set(1) by (rule Suc.prems(4))
  qed (use n in simp)
  have cong: "bool_passes stage m g x = bool_passes stage m h x"
    if "\<And>x. x < length a \<Longrightarrow> g x = h x" "x < length a" "m \<le> n" for m g h x
    using that
  proof (induction m arbitrary: g h)
    case (Suc m)
    have "(2::nat) ^ (stage + 1) = 2 ^ (stage - m) * 2 ^ (m + 1)" using Suc.prems(3) n by (simp flip: power_add)
    then have lm: "length a = N * 2 ^ (stage - m) * 2 ^ (m + 1)"
      using \<open>length a = N * 2 ^ (stage + 1)\<close> by (simp only: mult.assoc)
    have "bool_passes stage m (bool_step stage m g) x = bool_passes stage m (bool_step stage m h) x"
    proof (rule Suc.IH)
      show "bool_step stage m g y = bool_step stage m h y" if "y < length a" for y
        by (rule bool_step_cong [of "N * 2 ^ (stage - m)"]) (use Suc.prems that n lm in auto)
    qed (use Suc.prems in auto)
    then show ?case by (simp add: bool_passes_Suc)
  qed (simp add: bool_passes_def)
  show ?case using IH step set cong [of "\<lambda>x. Q (?a ! x)" "bool_step stage n (\<lambda>x. Q (a ! x))" _ n]
    by (simp add: bool_passes_Suc)
qed (simp add: bool_passes_def)

lemma stages_bool:
  "n \<le> m \<Longrightarrow> length a = 2 ^ m \<Longrightarrow> lower_set lt (set a) Q \<Longrightarrow>
   (\<And>x y. x \<in> set a \<Longrightarrow> y \<in> set a \<Longrightarrow> lt x y \<Longrightarrow> \<not> lt y x) \<Longrightarrow>
   mset (fold (bitonic_stage lt) [0..<n] a) = mset a \<and>
   (\<forall>x < length a. Q (fold (bitonic_stage lt) [0..<n] a ! x) = bool_stages n (\<lambda>x. Q (a ! x)) x)"
proof (induction n)
  case (Suc n)
  let ?a = "fold (bitonic_stage lt) [0..<n] a"
  have "n \<le> m" using Suc.prems(1) by simp
  note run = Suc.IH [OF this Suc.prems(2-4)]
  have IH: "mset ?a = mset a" "\<And>x. x < length a \<Longrightarrow> Q (?a ! x) = bool_stages n (\<lambda>x. Q (a ! x)) x"
    using run by blast+
  have set: "set ?a = set a" "length ?a = length a" using IH(1) by (metis mset_eq_setD, metis mset_eq_length)
  have "m = m - Suc n + (n + 1)" using Suc.prems(1) by simp
  then have "(2::nat) ^ m = 2 ^ (m - Suc n) * 2 ^ (n + 1)" by (metis power_add)
  then have len: "length ?a = 2 ^ (m - Suc n) * 2 ^ (n + 1)" using Suc.prems(2) set(2) by simp
  have low: "lower_set lt (set ?a) Q" unfolding set(1) by (rule Suc.prems(3))
  have asym: "\<not> lt y x" if "x \<in> set ?a" "y \<in> set ?a" "lt x y" for x y
    using that unfolding set(1) by (rule Suc.prems(4))
  have step: "mset (bitonic_stage lt n ?a) = mset ?a"
    "\<And>x. x < length ?a \<Longrightarrow> Q (bitonic_stage lt n ?a ! x) = bool_passes n (n + 1) (\<lambda>x. Q (?a ! x)) x"
    using passes_bool [OF order_refl len low asym] by (simp_all add: bitonic_stage_def)
  have cong: "bool_passes n k g x = bool_passes n k h x"
    if "\<And>x. x < length a \<Longrightarrow> g x = h x" "x < length a" "k \<le> n + 1" for k g h x
    using that
  proof (induction k arbitrary: g h)
    case (Suc k)
    have "(2::nat) ^ (n + 1) = 2 ^ (n - k) * 2 ^ (k + 1)" using Suc.prems(3) by (simp flip: power_add)
    then have lk: "length a = 2 ^ (m - Suc n) * 2 ^ (n - k) * 2 ^ (k + 1)" using len set(2) by (simp only: mult.assoc)
    have "bool_passes n k (bool_step n k g) x = bool_passes n k (bool_step n k h) x"
    proof (rule Suc.IH)
      show "bool_step n k g y = bool_step n k h y" if "y < length a" for y
        by (rule bool_step_cong [of "2 ^ (m - Suc n) * 2 ^ (n - k)"]) (use Suc.prems that lk in auto)
    qed (use Suc.prems in auto)
    then show ?case by (simp add: bool_passes_Suc)
  qed (simp add: bool_passes_def)
  have stages: "bool_stages (Suc n) g = bool_passes n (n + 1) (bool_stages n g)" for g by (simp add: bool_stages_def)
  have "Q (bitonic_stage lt n ?a ! x) = bool_stages (Suc n) (\<lambda>x. Q (a ! x)) x" if "x < length a" for x
    using step(2) [of x] cong [of "\<lambda>x. Q (?a ! x)" "bool_stages n (\<lambda>x. Q (a ! x))" x "n + 1", OF IH(2) that] that set(2) unfolding stages by simp
  then show ?case using step(1) IH(1) by simp
qed (simp add: bool_stages_def)

text \<open>The network sorts every array of \<open>2 ^ m\<close> rows, if the order of the rows is a total preorder.\<close>

lemma bitonic_sort_sorts:
  assumes "length a = 2 ^ m" "\<And>x y. x \<in> set a \<Longrightarrow> y \<in> set a \<Longrightarrow> lt x y \<Longrightarrow> \<not> lt y x"
    "\<And>x y z. x \<in> set a \<Longrightarrow> y \<in> set a \<Longrightarrow> z \<in> set a \<Longrightarrow> \<not> lt y x \<Longrightarrow> \<not> lt z y \<Longrightarrow> \<not> lt z x"
  shows "mset (bitonic_sort lt m a) = mset a" "sorted_wrt (\<lambda>x y. \<not> lt y x) (bitonic_sort lt m a)"
proof -
  have low: "lower_set lt (set a) (\<lambda>x. \<not> lt z x)" if z: "z \<in> set a" for z
    unfolding lower_set_def using assms(3) z by blast
  have any: "lower_set lt (set a) (\<lambda>x. True)" by (simp add: lower_set_def)
  show m: "mset (bitonic_sort lt m a) = mset a"
    using stages_bool [OF order_refl assms(1) any assms(2)] unfolding bitonic_sort_def by blast
  have len: "length (bitonic_sort lt m a) = length a" using m by (rule mset_eq_length)
  have set: "set (bitonic_sort lt m a) = set a" using m by (rule mset_eq_setD)
  show "sorted_wrt (\<lambda>x y. \<not> lt y x) (bitonic_sort lt m a)"
    unfolding sorted_wrt_iff_nth_less
  proof (intro allI impI)
    fix i j assume ij: "i < j" "j < length (bitonic_sort lt m a)"
    let ?y = "bitonic_sort lt m a ! j"
    have y: "?y \<in> set a" using ij(2) set nth_mem by blast
    let ?g = "bool_stages m (\<lambda>x. \<not> lt ?y (a ! x))"
    have g: "(\<not> lt ?y (bitonic_sort lt m a ! x)) = ?g x" if "x < length a" for x
      using stages_bool [OF order_refl assms(1) low [OF y] assms(2)] that unfolding bitonic_sort_def by blast
    have "sorted_on True (2 ^ m) ?g" using bool_stages_sort [of 0 m "\<lambda>x. \<not> lt ?y (a ! x)"] by simp
    moreover have "\<not> lt ?y ?y" using assms(2) y by blast
    then have "?g j" using g [of j] ij(2) len by simp
    ultimately have "?g i" using ij len assms(1) by (auto simp: sorted_on_def)
    then show "\<not> lt ?y (bitonic_sort lt m a ! i)" using g [of i] ij len by simp
  qed
qed

text \<open>The network only looks at the order of the rows.\<close>

lemma fold_map_commute: "(\<And>t a. f t (map e a) = map e (g t a)) \<Longrightarrow> fold f ts (map e a) = map e (fold g ts a)"
  by (induction ts arbitrary: a) simp_all

lemma bitonic_thread_map:
  "bitonic_thread lt stage pass t (map e a) = map e (bitonic_thread (\<lambda>i j. lt (e i) (e j)) stage pass t a)"
proof -
  define i where "i = (t - take_bit pass t) * 2 + take_bit pass t"
  define j where "j = i + 2 ^ pass"
  have "map e a ! i = e (a ! i)" "map e a ! j = e (a ! j)" if "j < length a"
    using that by (simp_all add: j_def)
  then show ?thesis
    unfolding bitonic_thread_def Let_def i_def [symmetric] j_def [symmetric]
    by (cases "j < length a") (simp_all add: map_update)
qed

lemma bitonic_sort_map: "bitonic_sort lt m (map e a) = map e (bitonic_sort (\<lambda>i j. lt (e i) (e j)) m a)"
  unfolding bitonic_sort_def bitonic_stage_def bitonic_dispatch_def
  by (intro fold_map_commute) (simp add: fold_map_commute bitonic_thread_map)

end
