(* ===== verification/Qe_Sort.thy ===== *)
theory Qe_Sort
  imports Qe_Order Qe_Bitonic Qe_Index Base_Numbers
begin

text \<open>
  \<open>ORDER BY\<close>, \<open>LIMIT\<close> and \<open>OFFSET\<close>: \<open>qe_sort_rows\<close> and \<open>qe_sort_materialized\<close> of
  \<open>src/src/query_exec/query_exec.c\<close>, which sort the rows of a join on the CPU, keep only the best of them or
  hand them to the sorting network, and \<open>plan_apply_limit\<close> and \<open>plan_execute_top_n\<close> of
  \<open>src/src/planner/planner.c\<close>.

  A null is sorted like the zero value that is stored in its place, and so is a row that a left join does not
  have. A null pointer to the hints is the record of zeros. The C library's \<open>qsort\<close> and the conversion of a
  double to a float are arguments, and so is the packing of several keys into one (\<open>packed\<close>, which the
  setting \<open>QE_SORT_COMPOSITE\<close> turns off); \<open>qe_row_bounds\<close>, which only looks for the part of a column that
  is read, has no counterpart.
\<close>

section \<open>Keys\<close>

record sort_key =
  key_desc :: bool
  key_is_string :: bool
  key_is_fuzzy :: bool
  key_values :: "loaded list"

text \<open>Rows with the scores a fuzzy condition left: kind, column, needle and one score per row.\<close>

record sort_rows = row_set +
  rs_scores :: "(bool \<times> string8 \<times> string8 \<times> f64 list) option"

definition sort_cell :: "scope \<Rightarrow> nat \<times> nat \<Rightarrow> joined_row \<Rightarrow> cell" where
  "sort_cell sc p row =
     (case row ! fst p of None \<Rightarrow> Cell_null | Some r \<Rightarrow> table_rows (fst (sc ! fst p)) ! r ! snd p)"

definition qe_gather_numeric_column :: "scope \<Rightarrow> joined_row list \<Rightarrow> nat \<times> nat \<Rightarrow> loaded list" where
  "qe_gather_numeric_column sc rows p =
     map (\<lambda>row. case sort_cell sc p row of Cell_num v \<Rightarrow> L_num v | _ \<Rightarrow> L_num (F64_num 0)) rows"

definition qe_gather_string_column :: "scope \<Rightarrow> joined_row list \<Rightarrow> nat \<times> nat \<Rightarrow> loaded list" where
  "qe_gather_string_column sc rows p =
     map (\<lambda>row. case sort_cell sc p row of Cell_str s \<Rightarrow> L_str s | _ \<Rightarrow> L_str []) rows"

text \<open>The scores of an earlier condition are used if it was the same call.\<close>

definition fuzzy_scores :: "num_env \<Rightarrow> sort_rows \<Rightarrow> ir_node \<Rightarrow> bool \<Rightarrow> f64 list" where
  "fuzzy_scores env rows call is_distance =
     (case (rs_scores rows, ir_children call) of
        (Some (kind, col, needle, scores), c # n # _) \<Rightarrow>
          if kind = is_distance \<and> str8_match col (ir_value c) match_exact \<and> str8_match needle (ir_value n) match_exact
          then scores else map (\<lambda>row. qe_row_eval_fuzzy_call env (rs_tables rows) row call is_distance) (rs_rows rows)
      | _ \<Rightarrow> map (\<lambda>row. qe_row_eval_fuzzy_call env (rs_tables rows) row call is_distance) (rs_rows rows))"

definition fuzzy_key :: "num_env \<Rightarrow> sort_rows \<Rightarrow> ir_node \<Rightarrow> bool \<Rightarrow> sort_key" where
  "fuzzy_key env rows call is_distance =
     \<lparr>key_desc = ir_children call \<noteq> [] \<and> ir_type (last (ir_children call)) = IrDescending,
      key_is_string = False, key_is_fuzzy = True, key_values = map L_num (fuzzy_scores env rows call is_distance)\<rparr>"

definition column_key :: "sort_rows \<Rightarrow> ir_node \<Rightarrow> nat \<times> nat \<Rightarrow> sort_key" where
  "column_key rows node p =
     (let is_string = (column_ty (column_at (rs_tables rows) p) = ColString8)
      in \<lparr>key_desc = (case ir_children node of c # _ \<Rightarrow> ir_type c = IrDescending | [] \<Rightarrow> False),
          key_is_string = is_string, key_is_fuzzy = False,
          key_values = (if is_string then qe_gather_string_column (rs_tables rows) (rs_rows rows) p
                        else qe_gather_numeric_column (rs_tables rows) (rs_rows rows) p)\<rparr>)"

text \<open>The columns of \<open>ORDER BY\<close>: at most four, and those that name nothing are left out.\<close>

fun sort_keys :: "num_env \<Rightarrow> sort_rows \<Rightarrow> ir_node list \<Rightarrow> nat \<Rightarrow> sort_key list" where
  "sort_keys env rows [] num_keys = []"
| "sort_keys env rows (node # nodes) num_keys =
     (if num_keys \<ge> 4 then []
      else case qe_ir_is_fuzzy_call node of
        Some is_distance \<Rightarrow>
          if length (rs_tables rows) \<noteq> 1 then sort_keys env rows nodes num_keys
          else fuzzy_key env rows node is_distance # sort_keys env rows nodes (num_keys + 1)
      | None \<Rightarrow>
          (case resolve_column (rs_tables rows) (ir_value node) of
             None \<Rightarrow> sort_keys env rows nodes num_keys
           | Some p \<Rightarrow> column_key rows node p # sort_keys env rows nodes (num_keys + 1)))"

section \<open>Comparisons\<close>

definition key_compare_at :: "sort_key \<Rightarrow> loaded \<Rightarrow> loaded \<Rightarrow> int" where
  "key_compare_at k a b =
     (if key_is_string k then qe_str8_compare (loaded_string a) (loaded_string b)
      else f64_cmp (loaded_num a) (loaded_num b))"

fun qe_sort_rows_compare_ctx :: "sort_key list \<Rightarrow> nat \<Rightarrow> nat \<Rightarrow> int" where
  "qe_sort_rows_compare_ctx [] ia ib = 0"
| "qe_sort_rows_compare_ctx (k # ks) ia ib =
     (let cmp = key_compare_at k (key_values k ! ia) (key_values k ! ib)
      in if cmp \<noteq> 0 then (if key_desc k then - cmp else cmp) else qe_sort_rows_compare_ctx ks ia ib)"

definition qe_sort_rows_less :: "sort_key list \<Rightarrow> nat \<Rightarrow> nat \<Rightarrow> bool" where
  "qe_sort_rows_less ks a b \<longleftrightarrow> qe_sort_rows_compare_ctx ks a b < 0"

definition qe_top_k_native_before :: "sort_key list \<Rightarrow> nat \<Rightarrow> nat \<Rightarrow> bool" where
  "qe_top_k_native_before ks a b \<longleftrightarrow>
     (let cmp = qe_sort_rows_compare_ctx ks a b in cmp < 0 \<or> (cmp = 0 \<and> a < b))"

text \<open>The test of \<open>qe_order_select_top_range_numeric\<close> against the value of the heap's root.\<close>

definition numeric_displaces :: "sort_key \<Rightarrow> nat \<Rightarrow> nat \<Rightarrow> bool" where
  "numeric_displaces k index rt =
     (let v = loaded_num (key_values k ! index); r = loaded_num (key_values k ! rt)
      in if key_desc k then f64_lt r v else f64_lt v r)"

text \<open>The test of \<open>qe_top_k_native_task\<close>: the other keys are read on a tie of the first only.\<close>

definition native_displaces :: "sort_key list \<Rightarrow> nat \<Rightarrow> nat \<Rightarrow> bool" where
  "native_displaces ks index rt =
     (let lead = hd ks;
          cmp = f64_cmp (loaded_num (key_values lead ! index)) (loaded_num (key_values lead ! rt));
          lead_cmp = (if key_desc lead then - cmp else cmp)
      in lead_cmp < 0 \<or> (lead_cmp = 0 \<and> length ks \<noteq> 1 \<and> qe_top_k_native_before ks index rt))"

section \<open>Sorting on the CPU\<close>

record sort_env =
  se_workers :: nat
  se_qsort :: "(nat \<Rightarrow> nat \<Rightarrow> int) \<Rightarrow> nat list \<Rightarrow> nat list"
  se_packed :: "sort_key list \<Rightarrow> nat list option"
  se_narrow :: "f64 \<Rightarrow> f64"
  se_kernel :: bool

record sort_hints =
  top_k :: nat
  gpu_min_rows :: nat

definition top_k_tasks :: "sort_env \<Rightarrow> nat \<Rightarrow> nat \<Rightarrow> nat" where
  "top_k_tasks senv real_count keep = max 1 (min (se_workers senv) (max 1 (real_count div max 32768 (keep * 4))))"

definition qe_sort_rows_top_k_parallel :: "sort_env \<Rightarrow> sort_key list \<Rightarrow> nat \<Rightarrow> nat \<Rightarrow> nat list" where
  "qe_sort_rows_top_k_parallel senv ks real_count keep =
     (let displaces = (case ks of [k] \<Rightarrow> if \<not> key_is_string k then numeric_displaces k else qe_sort_rows_less ks
                       | _ \<Rightarrow> qe_sort_rows_less ks)
      in select_top_parallel (qe_order_before (qe_sort_rows_less ks)) displaces keep
           (tp_divide_work real_count (top_k_tasks senv real_count keep)))"

definition qe_top_k_native_supported :: "sort_key list \<Rightarrow> bool" where
  "qe_top_k_native_supported ks \<longleftrightarrow> list_all (\<lambda>k. \<not> key_is_string k \<and> \<not> key_is_fuzzy k) ks \<and> ks \<noteq> []"

definition qe_sort_rows_top_k_native :: "sort_env \<Rightarrow> sort_key list \<Rightarrow> nat \<Rightarrow> nat \<Rightarrow> nat list" where
  "qe_sort_rows_top_k_native senv ks real_count keep =
     select_top_native (qe_top_k_native_before ks) (native_displaces ks) keep
       (tp_divide_work real_count (top_k_tasks senv real_count keep))"

definition cpu_order :: "sort_env \<Rightarrow> sort_key list \<Rightarrow> nat \<Rightarrow> nat option \<Rightarrow> nat list" where
  "cpu_order senv ks real_count best =
     (case best of
        None \<Rightarrow> se_qsort senv (qe_sort_rows_compare_ctx ks) [0..<real_count]
      | Some keep \<Rightarrow>
          let parallel_top_k = (real_count \<ge> 65536 \<and> se_workers senv > 1)
          in if parallel_top_k \<and> qe_top_k_native_supported ks then qe_sort_rows_top_k_native senv ks real_count keep
             else if parallel_top_k then qe_sort_rows_top_k_parallel senv ks real_count keep
             else qe_order_select_top (qe_order_before (qe_sort_rows_less ks)) [0..<real_count] keep)"

section \<open>Sorting on the GPU\<close>

text \<open>An entry of the arrays the shader works on: the valid word, the keys and the row numbers.\<close>

record gpu_row =
  g_valid :: bool
  g_keys :: "f64 list"
  g_rows :: joined_row

fun gpu_keys_less :: "bool list \<Rightarrow> f64 list \<Rightarrow> f64 list \<Rightarrow> bool" where
  "gpu_keys_less (desc # ds) (a # as) (b # bs) =
     (if f64_eq a b then gpu_keys_less ds as bs else if desc then f64_lt b a else f64_lt a b)"
| "gpu_keys_less _ _ _ = False"

definition gpu_less_than :: "bool list \<Rightarrow> gpu_row \<Rightarrow> gpu_row \<Rightarrow> bool" where
  "gpu_less_than dirs x y =
     (if g_valid x \<noteq> g_valid y then g_valid x
      else if \<not> g_valid x then False
      else gpu_keys_less dirs (g_keys x) (g_keys y))"

function padded_from :: "nat \<Rightarrow> nat \<Rightarrow> nat" where
  "padded_from real_count padded =
     (if 0 < padded \<and> padded < real_count then padded_from real_count (padded * 2) else padded)"
  by auto
termination by (relation "measure (\<lambda>(n, p). n - p)") auto

function stages_from :: "nat \<Rightarrow> nat \<Rightarrow> nat" where
  "stages_from padded stages = (if 2 ^ stages < padded then stages_from padded (stages + 1) else stages)"
  by auto
termination by (relation "measure (\<lambda>(p, s). p - 2 ^ s)") (auto simp: diff_less_mono2)

declare padded_from.simps [simp del] stages_from.simps [simp del]

definition gpu_entries :: "sort_env \<Rightarrow> sort_key list \<Rightarrow> joined_row list \<Rightarrow> gpu_row list" where
  "gpu_entries senv ks rows =
     (let values = map (\<lambda>k. map loaded_num (key_values k)) ks;
          use_narrow_keys = list_all (list_all (\<lambda>v. f64_eq (se_narrow senv v) v)) values;
          put = (if use_narrow_keys then se_narrow senv else id);
          padded_count = padded_from (length rows) 2
      in map (\<lambda>i. if i < length rows then \<lparr>g_valid = True, g_keys = map (\<lambda>vs. put (vs ! i)) values, g_rows = rows ! i\<rparr>
                  else \<lparr>g_valid = False, g_keys = map (\<lambda>vs. put (F64_num 0)) values, g_rows = []\<rparr>)
           [0..<padded_count])"

definition gpu_sorted_rows :: "sort_env \<Rightarrow> sort_key list \<Rightarrow> joined_row list \<Rightarrow> joined_row list" where
  "gpu_sorted_rows senv ks rows =
     map g_rows (take (length rows)
       (bitonic_sort (gpu_less_than (map key_desc ks)) (stages_from (padded_from (length rows) 2) 0) (gpu_entries senv ks rows)))"

section \<open>ORDER BY\<close>

definition reorder :: "nat list \<Rightarrow> sort_rows \<Rightarrow> sort_rows" where
  "reorder order rows =
     rows\<lparr>rs_rows := map ((!) (rs_rows rows)) order,
          rs_scores := map_option (\<lambda>(d, c, n, scores). (d, c, n, map ((!) scores) order)) (rs_scores rows)\<rparr>"

definition qe_sort_rows :: "num_env \<Rightarrow> sort_env \<Rightarrow> sort_rows \<Rightarrow> ir_node option \<Rightarrow> sort_hints \<Rightarrow> sort_rows" where
  "qe_sort_rows env senv rows order_by hints =
     (case order_by of
        None \<Rightarrow> rows
      | Some order_by_ir \<Rightarrow>
          let real_count = length (rs_rows rows); ks = sort_keys env rows (ir_children order_by_ir) 0 in
          if real_count \<le> 1 \<or> length (rs_tables rows) > 4 \<or> ks = [] then rows
          else
            let top_k_active = (0 < top_k hints \<and> top_k hints < real_count);
                small_input = (gpu_min_rows hints > 0 \<and> real_count < gpu_min_rows hints)
            in if list_ex key_is_string ks \<or> list_ex key_is_fuzzy ks \<or> top_k_active \<or> small_input then
                 reorder (cpu_order senv ks real_count (if top_k_active then Some (top_k hints) else None)) rows
               else
                 case se_packed senv ks of
                   Some order \<Rightarrow> reorder order rows
                 | None \<Rightarrow>
                     if \<not> se_kernel senv then rows
                     else rows\<lparr>rs_rows := gpu_sorted_rows senv ks (rs_rows rows)\<rparr>)"

section \<open>Materialized results\<close>

record agg_column =
  ac_name :: string8
  ac_type :: column_type
  ac_scale :: nat
  ac_enum :: "string8 list option"
  ac_values :: "loaded list"
  ac_null :: "bool list option"

record materialized =
  m_columns :: "agg_column list"
  m_count :: nat

fun qe_materialized_row_less :: "materialized \<Rightarrow> ir_node list \<Rightarrow> nat \<Rightarrow> nat \<Rightarrow> bool" where
  "qe_materialized_row_less m [] a b = False"
| "qe_materialized_row_less m (node # nodes) a b =
     (case find (\<lambda>c. str8_match (ac_name c) (ir_value node) match_exact) (m_columns m) of
        None \<Rightarrow> qe_materialized_row_less m nodes a b
      | Some col \<Rightarrow>
          let desc = (case ir_children node of c # _ \<Rightarrow> ir_type c = IrDescending | [] \<Rightarrow> False) in
          if ac_type col = ColString8 then
            let cmp = qe_str8_compare (loaded_string (ac_values col ! a)) (loaded_string (ac_values col ! b))
            in if cmp = 0 then qe_materialized_row_less m nodes a b else if desc then cmp > 0 else cmp < 0
          else
            let va = loaded_num (ac_values col ! a); vb = loaded_num (ac_values col ! b)
            in if f64_eq va vb then qe_materialized_row_less m nodes a b
               else if desc then f64_lt vb va else f64_lt va vb)"

definition pick_rows :: "nat list \<Rightarrow> agg_column \<Rightarrow> agg_column" where
  "pick_rows order c =
     c\<lparr>ac_values := map ((!) (ac_values c)) order, ac_null := map_option (\<lambda>ns. map ((!) ns) order) (ac_null c)\<rparr>"

definition qe_sort_materialized :: "materialized \<Rightarrow> ir_node option \<Rightarrow> sort_hints \<Rightarrow> materialized" where
  "qe_sort_materialized m order_by hints =
     (case order_by of
        None \<Rightarrow> m
      | Some order_by_ir \<Rightarrow>
          if m_count m \<le> 1 then m
          else
            let before = qe_order_before (qe_materialized_row_less m (ir_children order_by_ir));
                order = (if 0 < top_k hints \<and> top_k hints < m_count m
                         then qe_order_select_top before [0..<m_count m] (top_k hints)
                         else qe_order_merge_sort before [0..<m_count m])
            in m\<lparr>m_columns := map (pick_rows order) (m_columns m), m_count := length order\<rparr>)"

section \<open>LIMIT and OFFSET\<close>

datatype exec_result = Unsupported | Materialized materialized | Row_set sort_rows

definition node_u64 :: "ir_node option \<Rightarrow> nat \<Rightarrow> nat" where
  "node_u64 node absent = (case node of None \<Rightarrow> absent | Some n \<Rightarrow> unat (u64_from_str8 (ir_value n) 10))"

text \<open>The arrays of a materialized result are advanced, and so are the row numbers of a row set. The
  scores of the rows are not.\<close>

definition skip_rows :: "nat \<Rightarrow> nat \<Rightarrow> agg_column \<Rightarrow> agg_column" where
  "skip_rows offset n c =
     c\<lparr>ac_values := take n (drop offset (ac_values c)), ac_null := map_option (\<lambda>ns. take n (drop offset ns)) (ac_null c)\<rparr>"

fun plan_apply_limit :: "ir_node option \<Rightarrow> ir_node option \<Rightarrow> exec_result \<Rightarrow> exec_result" where
  "plan_apply_limit offset_node limit_node Unsupported = Unsupported"
| "plan_apply_limit offset_node limit_node (Materialized m) =
     (let offset = node_u64 offset_node 0; limit = node_u64 limit_node (2 ^ 64 - 1); count = m_count m;
          new_count = (if offset \<ge> count then 0 else min (count - offset) limit)
      in Materialized (m\<lparr>m_columns := map (skip_rows offset new_count) (m_columns m), m_count := new_count\<rparr>))"
| "plan_apply_limit offset_node limit_node (Row_set rs) =
     (let offset = node_u64 offset_node 0; limit = node_u64 limit_node (2 ^ 64 - 1); count = length (rs_rows rs)
      in Row_set (rs\<lparr>rs_rows := (if offset \<ge> count then [] else take (min (count - offset) limit) (drop offset (rs_rows rs)))\<rparr>))"

definition optimizer_limit_keep_count :: "ir_node option \<Rightarrow> ir_node option \<Rightarrow> nat option" where
  "optimizer_limit_keep_count offset_node limit_node =
     (case limit_node of
        None \<Rightarrow> None
      | Some n \<Rightarrow> Some (unat (u64_from_str8 (ir_value n) 10 + (case offset_node of None \<Rightarrow> 0 | Some m \<Rightarrow> u64_from_str8 (ir_value m) 10))))"

definition optimizer_sort_hints :: "nat \<Rightarrow> bool \<Rightarrow> ir_node option \<Rightarrow> ir_node option \<Rightarrow> sort_hints" where
  "optimizer_sort_hints min_rows is_top_n offset_node limit_node =
     \<lparr>top_k = (if is_top_n then case optimizer_limit_keep_count offset_node limit_node of None \<Rightarrow> 0 | Some keep \<Rightarrow> keep else 0),
      gpu_min_rows = min_rows\<rparr>"

definition plan_sort :: "num_env \<Rightarrow> sort_env \<Rightarrow> sort_hints \<Rightarrow> ir_node option \<Rightarrow> exec_result \<Rightarrow> exec_result" where
  "plan_sort env senv hints order_by input =
     (case input of
        Unsupported \<Rightarrow> Unsupported
      | Materialized m \<Rightarrow> Materialized (qe_sort_materialized m order_by hints)
      | Row_set rs \<Rightarrow> Row_set (qe_sort_rows env senv rs order_by hints))"

definition plan_reverse_rowset :: "sort_rows \<Rightarrow> sort_rows" where
  "plan_reverse_rowset rows =
     rows\<lparr>rs_rows := rev (rs_rows rows), rs_scores := map_option (\<lambda>(d, c, n, scores). (d, c, n, rev scores)) (rs_scores rows)\<rparr>"

text \<open>The sort node of a plan: rows that come in the right order already are at most turned around.\<close>

definition plan_execute_sort ::
  "num_env \<Rightarrow> sort_env \<Rightarrow> nat \<Rightarrow> bool option \<Rightarrow> ir_node option \<Rightarrow> exec_result \<Rightarrow> exec_result" where
  "plan_execute_sort env senv min_rows presorted order_by input =
     (case presorted of
        Some descending \<Rightarrow> (case input of Row_set rs \<Rightarrow> Row_set (if descending then plan_reverse_rowset rs else rs) | _ \<Rightarrow> input)
      | None \<Rightarrow> plan_sort env senv (optimizer_sort_hints min_rows False None None) order_by input)"

text \<open>What an index walk reads instead of the input plan.\<close>

record order_source =
  os_table :: cql_table
  os_alias :: string8
  os_index :: cql_index
  os_condition :: "ir_node option"
  os_descending :: bool

definition plan_wrap_scan_result :: "cql_table \<Rightarrow> string8 \<Rightarrow> nat list \<Rightarrow> sort_rows" where
  "plan_wrap_scan_result t alias rows =
     \<lparr>rs_tables = [(t, alias)], rs_rows = map (\<lambda>r. [Some r]) rows, rs_scores = None\<rparr>"

definition plan_execute_top_n ::
  "num_env \<Rightarrow> sort_env \<Rightarrow> nat \<Rightarrow> order_source option \<Rightarrow> exec_result \<Rightarrow>
   ir_node option \<Rightarrow> ir_node option \<Rightarrow> ir_node option \<Rightarrow> exec_result" where
  "plan_execute_top_n env senv min_rows walk input order_by offset_node limit_node =
     (let hints = optimizer_sort_hints min_rows True offset_node limit_node
      in plan_apply_limit offset_node limit_node
           (case walk of
              Some found \<Rightarrow>
                Row_set (plan_wrap_scan_result (os_table found) (os_alias found)
                  (qe_index_ordered_scan env (se_qsort senv) (os_table found) (os_alias found) (os_index found)
                     (os_condition found) (os_descending found) (top_k hints)))
            | None \<Rightarrow> plan_sort env senv hints order_by input))"

end
