(* ===== verification/Qe_Window.thy ===== *)
theory Qe_Window
  imports Qe_Sort "HOL-Library.Monad_Syntax"
begin

text \<open>
  Window functions: \<open>plan_window_compute\<close> and \<open>plan_window_apply\<close> of \<open>src/src/planner/planner.c\<close>,
  \<open>qe_window_rank_gpu\<close> of \<open>src/src/query_exec/query_exec.c\<close> and the shaders \<open>window_rank_flags.comp\<close>,
  \<open>prefix_sum.comp\<close>, \<open>window_rank_scatter.comp\<close> and \<open>window_rank_gather.comp\<close>.

  The sum and the quotient of doubles and the conversion of a double to an integer are arguments, and so are
  what a pooled device buffer still holds and the sorting of keys that were packed into 64 bits. A function
  the code refuses is \<open>None\<close>.
\<close>

record composite_sort =
  cs_keys :: "u64 list"
  cs_rows :: "nat list"
  cs_bits :: "nat list"

record window_env = sort_env +
  we_add :: "f64 \<Rightarrow> f64 \<Rightarrow> f64"
  we_div :: "f64 \<Rightarrow> f64 \<Rightarrow> f64"
  we_to_s64 :: "f64 \<Rightarrow> int"
  we_device_lost :: bool
  we_packed :: "(bool \<times> f64 list) list \<Rightarrow> composite_sort option"
  we_stale :: "nat \<Rightarrow> u32"

section \<open>Columns of a row set\<close>

definition null_at :: "bool list option \<Rightarrow> nat \<Rightarrow> bool" where
  "null_at ns i \<longleftrightarrow> (case ns of None \<Rightarrow> False | Some l \<Rightarrow> l ! i)"

definition plan_materialize_rowset_item :: "num_env \<Rightarrow> sort_rows \<Rightarrow> ir_node \<Rightarrow> agg_column option" where
  "plan_materialize_rowset_item env rows item =
     (case qe_ir_is_fuzzy_call item of
        Some is_distance \<Rightarrow>
          Some \<lparr>ac_name = [], ac_type = ColF64, ac_scale = 0, ac_enum = None,
                ac_values = map (\<lambda>row. L_num (qe_row_eval_fuzzy_call env (rs_tables rows) row item is_distance)) (rs_rows rows),
                ac_null = None\<rparr>
      | None \<Rightarrow>
          if ir_type item \<noteq> IrColumn then None
          else
            (case resolve_column (rs_tables rows) (ir_value item) of
               None \<Rightarrow> None
             | Some p \<Rightarrow>
                 let column = column_at (rs_tables rows) p;
                     nulls = map (\<lambda>row. sort_cell (rs_tables rows) p row = Cell_null) (rs_rows rows)
                 in Some \<lparr>ac_name = [], ac_type = column_ty column, ac_scale = decimal_scale column, ac_enum = enum_labels column,
                     ac_values = (if column_ty column = ColString8 then qe_gather_string_column (rs_tables rows) (rs_rows rows) p
                                  else qe_gather_numeric_column (rs_tables rows) (rs_rows rows) p),
                     ac_null = (if list_ex id nulls then Some nulls else None)\<rparr>))"

section \<open>Keys\<close>

record window_key =
  wk_is_string :: bool
  wk_descending :: bool
  wk_values :: "loaded list"
  wk_null :: "bool list option"

definition plan_window_gather_key :: "num_env \<Rightarrow> sort_rows \<Rightarrow> string8 \<Rightarrow> bool \<Rightarrow> window_key option" where
  "plan_window_gather_key env rows name descending =
     map_option (\<lambda>col. \<lparr>wk_is_string = (ac_type col = ColString8), wk_descending = descending,
         wk_values = ac_values col, wk_null = ac_null col\<rparr>)
       (plan_materialize_rowset_item env rows (IR_Node IrColumn name []))"

definition plan_window_key_compare :: "window_key \<Rightarrow> nat \<Rightarrow> nat \<Rightarrow> int" where
  "plan_window_key_compare k a b =
     (let a_null = null_at (wk_null k) a; b_null = null_at (wk_null k) b
      in if a_null \<or> b_null then (if a_null = b_null then 0 else if a_null then - 1 else 1)
         else if wk_is_string k then qe_str8_compare (loaded_string (wk_values k ! a)) (loaded_string (wk_values k ! b))
         else f64_cmp (loaded_num (wk_values k ! a)) (loaded_num (wk_values k ! b)))"

fun plan_window_row_compare :: "window_key list \<Rightarrow> nat \<Rightarrow> nat \<Rightarrow> int" where
  "plan_window_row_compare [] a b = (if a < b then - 1 else if b < a then 1 else 0)"
| "plan_window_row_compare (k # ks) a b =
     (let cmp = plan_window_key_compare k a b
      in if cmp \<noteq> 0 then (if wk_descending k then - cmp else cmp) else plan_window_row_compare ks a b)"

definition plan_window_keys_equal :: "window_key list \<Rightarrow> nat \<Rightarrow> nat \<Rightarrow> bool" where
  "plan_window_keys_equal ks a b \<longleftrightarrow> list_all (\<lambda>k. plan_window_key_compare k a b = 0) ks"

text \<open>At most eight keys; the columns of \<open>ORDER BY\<close> must be plain ones.\<close>

fun window_partition_keys :: "num_env \<Rightarrow> sort_rows \<Rightarrow> ir_node list \<Rightarrow> nat \<Rightarrow> window_key list option" where
  "window_partition_keys env rows [] taken = Some []"
| "window_partition_keys env rows (c # cs) taken =
     (if taken \<ge> 8 then None
      else do {
        k \<leftarrow> plan_window_gather_key env rows (ir_value c) False;
        ks \<leftarrow> window_partition_keys env rows cs (taken + 1);
        Some (k # ks)
      })"

fun window_order_keys :: "num_env \<Rightarrow> sort_rows \<Rightarrow> ir_node list \<Rightarrow> nat \<Rightarrow> window_key list option" where
  "window_order_keys env rows [] taken = Some []"
| "window_order_keys env rows (c # cs) taken =
     (if ir_type c \<noteq> IrColumn then None
      else if taken \<ge> 8 then None
      else do {
        k \<leftarrow> plan_window_gather_key env rows (ir_value c)
          (case ir_children c of d # _ \<Rightarrow> ir_type d = IrDescending | [] \<Rightarrow> False);
        ks \<leftarrow> window_order_keys env rows cs (taken + 1);
        Some (k # ks)
      })"

definition children_of :: "ir_node option \<Rightarrow> ir_node list" where
  "children_of node = (case node of None \<Rightarrow> [] | Some n \<Rightarrow> ir_children n)"

definition window_keys :: "num_env \<Rightarrow> sort_rows \<Rightarrow> ir_node \<Rightarrow> (window_key list \<times> window_key list) option" where
  "window_keys env rows call =
     do {
       window_ir \<leftarrow> ir_node_find_child call IrWindow;
       parts \<leftarrow> window_partition_keys env rows (children_of (ir_node_find_child window_ir IrPartitionBy)) 0;
       orders \<leftarrow> window_order_keys env rows (children_of (ir_node_find_child window_ir IrOrderBy)) (length parts);
       Some (parts, orders)
     }"

section \<open>Functions and their arguments\<close>

datatype agg_func =
  Agg_count | Agg_sum | Agg_avg | Agg_min | Agg_max | Agg_approx_count_distinct | Agg_approx_percentile

definition qe_agg_func_code_from_name :: "string8 \<Rightarrow> agg_func option" where
  "qe_agg_func_code_from_name name =
     (if str8_match name ''count'' match_ci then Some Agg_count
      else if str8_match name ''sum'' match_ci then Some Agg_sum
      else if str8_match name ''avg'' match_ci then Some Agg_avg
      else if str8_match name ''min'' match_ci then Some Agg_min
      else if str8_match name ''max'' match_ci then Some Agg_max
      else if str8_match name ''approx_count_distinct'' match_ci then Some Agg_approx_count_distinct
      else if str8_match name ''approx_percentile'' match_ci then Some Agg_approx_percentile
      else None)"

fun agg_policy_type :: "agg_func \<Rightarrow> column_type" where
  "agg_policy_type Agg_count = ColU64"
| "agg_policy_type Agg_approx_count_distinct = ColU64"
| "agg_policy_type _ = ColF64"

definition qe_agg_output_type_for_expr ::
  "agg_func \<Rightarrow> cql_column option \<Rightarrow> column_type \<times> nat \<times> string8 list option" where
  "qe_agg_output_type_for_expr code arg_column =
     (case arg_column of
        None \<Rightarrow> (agg_policy_type code, 0, None)
      | Some column \<Rightarrow>
          if code = Agg_min \<or> code = Agg_max then (column_ty column, decimal_scale column, enum_labels column)
          else if code = Agg_sum then
            ((if column_ty column \<in> {ColU32, ColU64, ColBool} then ColU64
              else if column_ty column \<in> {ColI32, ColI64} then ColI64
              else agg_policy_type code), 0, None)
          else (agg_policy_type code, 0, None))"

datatype window_func = W_row_number | W_rank | W_dense_rank | W_lag | W_lead | W_agg agg_func

definition window_func_of :: "string8 \<Rightarrow> window_func option" where
  "window_func_of name =
     (if str8_match name ''row_number'' match_ci then Some W_row_number
      else if str8_match name ''rank'' match_ci then Some W_rank
      else if str8_match name ''dense_rank'' match_ci then Some W_dense_rank
      else if str8_match name ''lag'' match_ci then Some W_lag
      else if str8_match name ''lead'' match_ci then Some W_lead
      else case qe_agg_func_code_from_name name of
          None \<Rightarrow> None
        | Some code \<Rightarrow> if code = Agg_approx_count_distinct \<or> code = Agg_approx_percentile then None else Some (W_agg code))"

definition window_args :: "ir_node \<Rightarrow> ir_node list" where
  "window_args call = filter (\<lambda>c. ir_type c \<in> {IrColumn, IrNumeric, IrLiteral}) (ir_children call)"

definition is_ranking :: "window_func \<Rightarrow> bool" where
  "is_ranking f \<longleftrightarrow> f = W_row_number \<or> f = W_rank \<or> f = W_dense_rank"

fun is_agg :: "window_func \<Rightarrow> bool" where
  "is_agg (W_agg code) = True"
| "is_agg _ = False"

definition window_arity_ok :: "window_func \<Rightarrow> nat \<Rightarrow> bool" where
  "window_arity_ok f arg_count \<longleftrightarrow>
     \<not> (is_ranking f \<and> arg_count \<noteq> 0) \<and> \<not> (\<not> is_ranking f \<and> arg_count = 0) \<and> \<not> (arg_count > 3 \<or> (is_agg f \<and> arg_count \<noteq> 1))"

text \<open>The column a function reads, with its description; \<open>count(*)\<close> reads none.\<close>

definition count_star :: "window_func \<Rightarrow> ir_node list \<Rightarrow> bool" where
  "count_star f args \<longleftrightarrow>
     f = W_agg Agg_count \<and> args \<noteq> [] \<and> ir_type (hd args) = IrColumn \<and> str8_match (ir_value (hd args)) ''*'' match_exact"

definition window_source ::
  "num_env \<Rightarrow> sort_rows \<Rightarrow> window_func \<Rightarrow> ir_node list \<Rightarrow> (agg_column option \<times> cql_column option) option" where
  "window_source env rows f args =
     (if count_star f args \<or> args = [] then Some (None, None)
      else if ir_type (hd args) \<noteq> IrColumn then None
      else do {
        src \<leftarrow> plan_materialize_rowset_item env rows (hd args);
        if is_agg f \<and> f \<noteq> W_agg Agg_count \<and> ac_type src = ColString8 then None
        else Some (Some src, map_option (column_at (rs_tables rows)) (resolve_column (rs_tables rows) (ir_value (hd args))))
      })"

definition window_output_type ::
  "window_func \<Rightarrow> agg_column option \<Rightarrow> cql_column option \<Rightarrow> column_type \<times> nat \<times> string8 list option" where
  "window_output_type f src src_column =
     (case f of
        W_agg code \<Rightarrow> qe_agg_output_type_for_expr code src_column
      | _ \<Rightarrow> if is_ranking f then (ColU64, 0, None)
             else (case src of None \<Rightarrow> (ColU32, 0, None) | Some c \<Rightarrow> (ac_type c, ac_scale c, ac_enum c)))"

definition window_offset ::
  "num_env \<Rightarrow> window_env \<Rightarrow> window_func \<Rightarrow> ir_node list \<Rightarrow> (int \<times> ir_node option) option" where
  "window_offset env wenv f args =
     (if f = W_lag \<or> f = W_lead then
        if length args \<ge> 2 then
          if ir_type (args ! 1) \<noteq> IrNumeric then None
          else
            let offset = we_to_s64 wenv (f64_from_str8 env (ir_value (args ! 1)))
            in if offset < 0 then None else Some (offset, if length args \<ge> 3 then Some (args ! 2) else None)
        else Some (1, None)
      else Some (1, None))"

section \<open>One pass over the sorted rows\<close>

text \<open>The rows of a group are those behind its first that are equal to the first.\<close>

function spans :: "(nat \<Rightarrow> nat \<Rightarrow> bool) \<Rightarrow> nat list \<Rightarrow> nat list list" where
  "spans eq [] = []"
| "spans eq (x # xs) = (x # takeWhile (eq x) xs) # spans eq (dropWhile (eq x) xs)"
  by pat_completeness auto
termination by (relation "measure (length \<circ> snd)") (auto simp: le_imp_less_Suc length_dropWhile_le)

text \<open>What is written, row by row; \<open>L_null\<close> sets the null flag.\<close>

type_synonym row_writes = "(nat \<times> loaded) list"

definition count_value :: "num_env \<Rightarrow> nat \<Rightarrow> loaded" where
  "count_value env n = L_num (f64_of_int env (int n))"

definition number_writes :: "num_env \<Rightarrow> nat list \<Rightarrow> row_writes" where
  "number_writes env p = map (\<lambda>i. (p ! i, count_value env (i + 1))) [0..<length p]"

fun rank_writes :: "num_env \<Rightarrow> bool \<Rightarrow> nat list list \<Rightarrow> nat \<Rightarrow> nat \<Rightarrow> row_writes" where
  "rank_writes env dense_only [] start dense = []"
| "rank_writes env dense_only (g # gs) start dense =
     map (\<lambda>r. (r, count_value env (if dense_only then dense else start + 1))) g @
     rank_writes env dense_only gs (start + length g) (dense + 1)"

definition window_cell :: "agg_column option \<Rightarrow> nat \<Rightarrow> loaded" where
  "window_cell src row =
     (case src of None \<Rightarrow> L_null | Some c \<Rightarrow> if null_at (ac_null c) row then L_null else ac_values c ! row)"

definition default_value :: "num_env \<Rightarrow> bool \<Rightarrow> ir_node option \<Rightarrow> loaded" where
  "default_value env is_string default_ir =
     (case default_ir of
        None \<Rightarrow> L_null
      | Some d \<Rightarrow> if is_string then L_str (ir_value d) else L_num (f64_from_str8 env (ir_value d)))"

text \<open>The positions are those in the whole order; the sum wraps like an \<open>S64\<close>.\<close>

definition shift_writes ::
  "num_env \<Rightarrow> bool \<Rightarrow> bool \<Rightarrow> int \<Rightarrow> ir_node option \<Rightarrow> agg_column option \<Rightarrow> nat \<Rightarrow> nat list \<Rightarrow> row_writes" where
  "shift_writes env back is_string offset default_ir src start p =
     map (\<lambda>i. let j = signed_take_bit 63 (if back then int (start + i) - offset else int (start + i) + offset)
              in (p ! i, if int start \<le> j \<and> j < int (start + length p) then window_cell src (p ! (nat j - start))
                         else default_value env is_string default_ir))
       [0..<length p]"

record frame_state =
  fs_sum :: f64
  fs_min :: f64
  fs_max :: f64
  fs_non_null :: nat
  fs_rows :: nat

definition frame_start :: frame_state where
  "frame_start = \<lparr>fs_sum = F64_num 0, fs_min = F64_num 0, fs_max = F64_num 0, fs_non_null = 0, fs_rows = 0\<rparr>"

definition frame_add :: "window_env \<Rightarrow> bool \<Rightarrow> agg_column option \<Rightarrow> nat \<Rightarrow> frame_state \<Rightarrow> frame_state" where
  "frame_add wenv star src row st =
     (let st = st\<lparr>fs_rows := fs_rows st + 1\<rparr>
      in if star then st
         else case window_cell src row of
             L_null \<Rightarrow> st
           | cell \<Rightarrow>
               let v = loaded_num cell; first_one = (fs_non_null st = 0)
               in st\<lparr>fs_sum := we_add wenv (fs_sum st) v,
                     fs_min := (if first_one \<or> f64_lt v (fs_min st) then v else fs_min st),
                     fs_max := (if first_one \<or> f64_lt (fs_max st) v then v else fs_max st),
                     fs_non_null := fs_non_null st + 1\<rparr>)"

definition frame_value :: "num_env \<Rightarrow> window_env \<Rightarrow> agg_func \<Rightarrow> bool \<Rightarrow> frame_state \<Rightarrow> loaded" where
  "frame_value env wenv code star st =
     (case code of
        Agg_count \<Rightarrow> count_value env (if star then fs_rows st else fs_non_null st)
      | Agg_sum \<Rightarrow> if fs_non_null st = 0 then L_null else L_num (fs_sum st)
      | Agg_avg \<Rightarrow> if fs_non_null st = 0 then L_null else L_num (we_div wenv (fs_sum st) (f64_of_int env (int (fs_non_null st))))
      | Agg_min \<Rightarrow> if fs_non_null st = 0 then L_null else L_num (fs_min st)
      | Agg_max \<Rightarrow> if fs_non_null st = 0 then L_null else L_num (fs_max st)
      | _ \<Rightarrow> L_num (F64_num 0))"

fun frame_writes ::
  "num_env \<Rightarrow> window_env \<Rightarrow> agg_func \<Rightarrow> bool \<Rightarrow> agg_column option \<Rightarrow> nat list list \<Rightarrow> frame_state \<Rightarrow> row_writes" where
  "frame_writes env wenv code star src [] st = []"
| "frame_writes env wenv code star src (g # gs) st =
     (let st = fold (frame_add wenv star src) g st
      in map (\<lambda>r. (r, frame_value env wenv code star st)) g @ frame_writes env wenv code star src gs st)"

text \<open>What a call needs for its pass.\<close>

record window_call =
  wc_func :: window_func
  wc_parts :: "window_key list"
  wc_orders :: "window_key list"
  wc_src :: "agg_column option"
  wc_star :: bool
  wc_string :: bool
  wc_offset :: int
  wc_default :: "ir_node option"

definition partition_writes :: "num_env \<Rightarrow> window_env \<Rightarrow> window_call \<Rightarrow> nat \<Rightarrow> nat list \<Rightarrow> row_writes" where
  "partition_writes env wenv w start p =
     (let peers = spans (plan_window_keys_equal (wc_orders w)) p
      in case wc_func w of
          W_row_number \<Rightarrow> number_writes env p
        | W_rank \<Rightarrow> rank_writes env False peers 0 1
        | W_dense_rank \<Rightarrow> rank_writes env True peers 0 1
        | W_lag \<Rightarrow> shift_writes env True (wc_string w) (wc_offset w) (wc_default w) (wc_src w) start p
        | W_lead \<Rightarrow> shift_writes env False (wc_string w) (wc_offset w) (wc_default w) (wc_src w) start p
        | W_agg code \<Rightarrow>
            frame_writes env wenv code (wc_star w) (wc_src w) (if wc_orders w = [] then [p] else peers) frame_start)"

fun partitions_writes :: "num_env \<Rightarrow> window_env \<Rightarrow> window_call \<Rightarrow> nat \<Rightarrow> nat list list \<Rightarrow> row_writes" where
  "partitions_writes env wenv w start [] = []"
| "partitions_writes env wenv w start (p # ps) =
     partition_writes env wenv w start p @ partitions_writes env wenv w (start + length p) ps"

definition window_order :: "window_env \<Rightarrow> window_key list \<Rightarrow> nat \<Rightarrow> nat list" where
  "window_order wenv keys n =
     (if n > 1 \<and> keys \<noteq> [] then se_qsort wenv (plan_window_row_compare keys) [0..<n] else [0..<n])"

definition window_cpu_writes :: "num_env \<Rightarrow> window_env \<Rightarrow> window_call \<Rightarrow> nat \<Rightarrow> row_writes" where
  "window_cpu_writes env wenv w n =
     partitions_writes env wenv w 0
       (spans (plan_window_keys_equal (wc_parts w)) (window_order wenv (wc_parts w @ wc_orders w) n))"

text \<open>The null flags of a column are allocated by the first null.\<close>

fun write_row :: "nat \<Rightarrow> nat \<times> loaded \<Rightarrow> agg_column \<Rightarrow> agg_column" where
  "write_row n (row, L_null) col =
     col\<lparr>ac_null := Some ((case ac_null col of None \<Rightarrow> replicate n False | Some ns \<Rightarrow> ns)[row := True])\<rparr>"
| "write_row n (row, v) col = col\<lparr>ac_values := (ac_values col)[row := v]\<rparr>"

section \<open>Ranking on the GPU\<close>

definition window_entries :: "(bool \<times> f64 list) list \<Rightarrow> nat \<Rightarrow> gpu_row list" where
  "window_entries keys n =
     map (\<lambda>i. if i < n then \<lparr>g_valid = True, g_keys = map (\<lambda>k. snd k ! i) keys, g_rows = [Some i]\<rparr>
              else \<lparr>g_valid = False, g_keys = map (\<lambda>_. F64_num 0) keys, g_rows = []\<rparr>)
       [0..<padded_from n 2]"

text \<open>\<open>window_rank_flags.comp\<close>: does position \<open>i\<close> start a partition, does it start a group of peers?\<close>

definition keys_differ :: "f64 list \<Rightarrow> f64 list \<Rightarrow> bool" where
  "keys_differ xs ys \<longleftrightarrow> list_ex (\<lambda>(x, y). \<not> f64_eq x y) (zip xs ys)"

definition window_rank_flags :: "nat \<Rightarrow> f64 list list \<Rightarrow> nat \<Rightarrow> u32 \<times> u32" where
  "window_rank_flags partition_key_count keys i =
     (if i = 0 then (1, 1)
      else
        let part_diff = keys_differ (take partition_key_count (keys ! i)) (take partition_key_count (keys ! (i - 1)));
            order_diff = keys_differ (drop partition_key_count (keys ! i)) (drop partition_key_count (keys ! (i - 1)))
        in (if part_diff then 1 else 0, if part_diff \<or> order_diff then 1 else 0))"

text \<open>\<open>prefix_sum.comp\<close>: the shared memory of a workgroup of 256 threads, then the three modes.\<close>

definition scan_step :: "nat \<Rightarrow> u32 list \<Rightarrow> u32 list" where
  "scan_step stride scan = map (\<lambda>t. scan ! t + (if stride \<le> t then scan ! (t - stride) else 0)) [0..<length scan]"

definition scan_shared :: "u32 list \<Rightarrow> u32 list" where
  "scan_shared scan = fold (\<lambda>s. scan_step (2 ^ s)) [0..<8] scan"

definition block_scan :: "u32 list \<Rightarrow> nat \<Rightarrow> u32 list" where
  "block_scan counts b =
     scan_shared (map (\<lambda>t. if b * 256 + t < length counts then counts ! (b * 256 + t) else 0) [0..<256])"

definition block_offsets :: "u32 list \<Rightarrow> u32 list" where
  "block_offsets counts =
     map (\<lambda>i. block_scan counts (i div 256) ! (i mod 256) - counts ! i) [0..<length counts]"

definition block_totals :: "u32 list \<Rightarrow> u32 list" where
  "block_totals counts = map (\<lambda>b. block_scan counts b ! 255) [0..<(length counts + 255) div 256]"

fun running_sums :: "u32 \<Rightarrow> u32 list \<Rightarrow> u32 list" where
  "running_sums running [] = []"
| "running_sums running (x # xs) = running # running_sums (running + x) xs"

text \<open>The thread's share of the block totals.\<close>

definition thread_totals :: "u32 list \<Rightarrow> nat \<Rightarrow> u32 list" where
  "thread_totals block_sums thread =
     (let block_count = length block_sums; chunk = (block_count + 255) div 256;
          start = min (thread * chunk) block_count; stop = min (start + chunk) block_count
      in take (stop - start) (drop start block_sums))"

definition scan_totals :: "u32 list \<Rightarrow> u32 list \<times> u32" where
  "scan_totals block_sums =
     (let shares = map (\<lambda>t. sum_list (thread_totals block_sums t)) [0..<256]; scan = scan_shared shares
      in (concat (map (\<lambda>t. running_sums (scan ! t - shares ! t) (thread_totals block_sums t)) [0..<256]), scan ! 255))"

definition prefix_sum :: "u32 list \<Rightarrow> u32 list" where
  "prefix_sum counts =
     (let totals = scan_totals (block_totals counts)
      in map (\<lambda>i. block_offsets counts ! i + fst totals ! (i div 256)) [0..<length counts] @ [snd totals])"

text \<open>\<open>window_rank_scatter.comp\<close>: the position where each id begins.\<close>

definition scattered_ids :: "u32 list \<Rightarrow> u32 list" where
  "scattered_ids flags = map (\<lambda>i. prefix_sum flags ! i + flags ! i - 1) [0..<length flags]"

definition scattered :: "(nat \<Rightarrow> u32) \<Rightarrow> u32 list \<Rightarrow> (nat \<Rightarrow> u32) \<Rightarrow> u32 list" where
  "scattered stale flags put =
     fold (\<lambda>i a. if flags ! i = 1 then a[unat (scattered_ids flags ! i) := put i] else a)
       [0..<length flags] (map stale [0..<length flags])"

text \<open>\<open>window_rank_gather.comp\<close>: row number, rank and dense rank of every position.\<close>

definition gathered_ranks :: "(nat \<Rightarrow> u32) \<Rightarrow> u32 list \<Rightarrow> u32 list \<Rightarrow> (u32 \<times> u32 \<times> u32) list" where
  "gathered_ranks stale part_flags peer_flags =
     (let pids = scattered_ids part_flags; gids = scattered_ids peer_flags;
          part_start_pos = scattered stale part_flags of_nat;
          part_base_peer = scattered stale part_flags ((!) gids);
          peer_start_pos = scattered stale peer_flags of_nat
      in map (\<lambda>i. let pid = unat (pids ! i); gid = gids ! i
                  in (of_nat i - part_start_pos ! pid + 1, peer_start_pos ! unat gid - part_start_pos ! pid + 1,
                      gid - part_base_peer ! pid + 1))
           [0..<length part_flags])"

text \<open>With packed keys one loop counts: the high bits of a key are its partition.\<close>

fun composite_ranks ::
  "nat \<Rightarrow> nat \<Rightarrow> u64 list \<Rightarrow> nat \<Rightarrow> nat \<Rightarrow> nat \<Rightarrow> nat \<Rightarrow> u64 \<Rightarrow> u64 \<Rightarrow> (nat \<times> nat \<times> nat) list" where
  "composite_ranks total_bits partition_bits [] i part_start peer_start dense previous_key previous_part = []"
| "composite_ranks total_bits partition_bits (key # keys) i part_start peer_start dense previous_key previous_part =
     (let part = (if partition_bits = 0 then 0 else drop_bit (total_bits - partition_bits) key);
          (part_start, peer_start, dense) =
            (if i = 0 \<or> part \<noteq> previous_part then (i, i, 1)
             else if key \<noteq> previous_key then (part_start, i, dense + 1)
             else (part_start, peer_start, dense))
      in (i - part_start + 1, peer_start - part_start + 1, dense) #
         composite_ranks total_bits partition_bits keys (i + 1) part_start peer_start dense key part)"

text \<open>The row at each sorted position, with its three numbers.\<close>

definition qe_window_rank_gpu ::
  "window_env \<Rightarrow> (bool \<times> f64 list) list \<Rightarrow> nat \<Rightarrow> nat \<Rightarrow> (nat list \<times> (nat \<times> nat \<times> nat) list) option" where
  "qe_window_rank_gpu wenv keys partition_key_count real_count =
     (if real_count = 0 then Some ([], [])
      else case we_packed wenv keys of
          Some cs \<Rightarrow>
            Some (cs_rows cs, composite_ranks (sum_list (cs_bits cs)) (sum_list (take partition_key_count (cs_bits cs)))
                    (cs_keys cs) 0 0 0 0 0 0)
        | None \<Rightarrow>
            if \<not> se_kernel wenv then None
            else
              let sorted = take real_count (bitonic_sort (gpu_less_than (map fst keys))
                    (stages_from (padded_from real_count 2) 0) (window_entries keys real_count));
                  flags = map (window_rank_flags partition_key_count (map g_keys sorted)) [0..<real_count]
              in Some (map (\<lambda>e. case g_rows e of Some i # _ \<Rightarrow> i | _ \<Rightarrow> 0) sorted,
                       map (\<lambda>(r, k, d). (unat r, unat k, unat d)) (gathered_ranks (we_stale wenv) (map fst flags) (map snd flags))))"

definition rank_of :: "window_func \<Rightarrow> nat \<times> nat \<times> nat \<Rightarrow> nat" where
  "rank_of f t = (case t of (row_number, rank, dense) \<Rightarrow>
     if f = W_row_number then row_number else if f = W_rank then rank else dense)"

definition gpu_ranking_writes :: "num_env \<Rightarrow> window_env \<Rightarrow> window_call \<Rightarrow> nat \<Rightarrow> row_writes option" where
  "gpu_ranking_writes env wenv w n =
     (let keys = wc_parts w @ wc_orders w
      in if is_ranking (wc_func w) \<and> n \<ge> 4096 \<and> keys \<noteq> [] \<and> length keys \<le> 4 \<and> \<not> we_device_lost wenv \<and>
            \<not> list_ex (\<lambda>k. wk_is_string k \<or> wk_null k \<noteq> None) keys
         then map_option (\<lambda>(rows, ranks). map (\<lambda>(r, t). (r, count_value env (rank_of (wc_func w) t))) (zip rows ranks))
                (qe_window_rank_gpu wenv (map (\<lambda>k. (wk_descending k, map loaded_num (wk_values k))) keys)
                   (length (wc_parts w)) n)
         else None)"

section \<open>A window column\<close>

definition window_call_of ::
  "num_env \<Rightarrow> window_env \<Rightarrow> sort_rows \<Rightarrow> ir_node \<Rightarrow> (window_call \<times> column_type \<times> nat \<times> string8 list option) option" where
  "window_call_of env wenv rows call =
     do {
       f \<leftarrow> window_func_of (ir_value call);
       let args = window_args call;
       _ \<leftarrow> (if window_arity_ok f (length args) then Some () else None);
       (parts, orders) \<leftarrow> window_keys env rows call;
       (src, src_column) \<leftarrow> window_source env rows f args;
       let out_type = window_output_type f src src_column;
       (offset, default_ir) \<leftarrow> window_offset env wenv f args;
       Some (\<lparr>wc_func = f, wc_parts = parts, wc_orders = orders, wc_src = src, wc_star = count_star f args,
              wc_string = (fst out_type = ColString8), wc_offset = offset, wc_default = default_ir\<rparr>, out_type)
     }"

definition plan_window_compute :: "num_env \<Rightarrow> window_env \<Rightarrow> sort_rows \<Rightarrow> ir_node \<Rightarrow> agg_column option" where
  "plan_window_compute env wenv rows call =
     map_option (\<lambda>(w, ty, scale, labels).
         let n = length (rs_rows rows);
             writes = (case gpu_ranking_writes env wenv w n of Some ws \<Rightarrow> ws | None \<Rightarrow> window_cpu_writes env wenv w n)
         in fold (write_row n) writes
              \<lparr>ac_name = [], ac_type = ty, ac_scale = scale, ac_enum = labels,
               ac_values = replicate n (if ty = ColString8 then L_str [] else L_num (F64_num 0)), ac_null = None\<rparr>)
       (window_call_of env wenv rows call)"

definition plan_ir_is_window_call :: "ir_node \<Rightarrow> bool" where
  "plan_ir_is_window_call node \<longleftrightarrow> ir_type node = IrAggregateCall \<and> ir_node_find_child node IrWindow \<noteq> None"

definition qe_column_list_item_display_name :: "ir_node \<Rightarrow> string8" where
  "qe_column_list_item_display_name item =
     (case ir_node_find_child item IrAlias of
        Some a \<Rightarrow> ir_value a
      | None \<Rightarrow>
          if ir_type item = IrAggregateCall then
            let args = take 3 (window_args item); is_window = (ir_node_find_child item IrWindow \<noteq> None);
                arg_text = (if args \<noteq> [] then ir_value (hd args) else if is_window then [] else ''*'');
                suffix = (if is_window then '' OVER'' else [])
            in ir_value item @ ''('' @ arg_text @ (if length args \<ge> 2 then '', '' @ ir_value (args ! 1) else []) @ '')'' @ suffix
          else ir_value item)"

text \<open>Columns of \<open>ORDER BY\<close> that are not selected come behind the others, four at most.\<close>

definition hidden_columns :: "ir_node list \<Rightarrow> ir_node list \<Rightarrow> ir_node list" where
  "hidden_columns items order_by =
     take 4 (filter (\<lambda>key. ir_type key = IrColumn \<and>
         \<not> list_ex (\<lambda>item. str8_match (qe_column_list_item_display_name item) (ir_value key) match_exact) items) order_by)"

definition window_item :: "num_env \<Rightarrow> window_env \<Rightarrow> sort_rows \<Rightarrow> ir_node \<Rightarrow> agg_column option" where
  "window_item env wenv rows item =
     map_option (\<lambda>c. c\<lparr>ac_name := qe_column_list_item_display_name item\<rparr>)
       (if plan_ir_is_window_call item then plan_window_compute env wenv rows item
        else plan_materialize_rowset_item env rows item)"

definition plan_window_apply ::
  "num_env \<Rightarrow> window_env \<Rightarrow> sort_rows \<Rightarrow> ir_node list \<Rightarrow> ir_node option \<Rightarrow> materialized option" where
  "plan_window_apply env wenv rows items order_by =
     do {
       cols \<leftarrow> those (map (window_item env wenv rows) items);
       extra \<leftarrow> those (map (\<lambda>key. map_option (\<lambda>c. c\<lparr>ac_name := ir_value key\<rparr>) (plan_materialize_rowset_item env rows key))
                   (hidden_columns items (children_of order_by)));
       Some \<lparr>m_columns = cols @ extra, m_count = length (rs_rows rows)\<rparr>
     }"

definition plan_execute_window ::
  "num_env \<Rightarrow> window_env \<Rightarrow> ir_node list \<Rightarrow> ir_node option \<Rightarrow> exec_result \<Rightarrow> exec_result" where
  "plan_execute_window env wenv items order_by input =
     (case input of
        Row_set rs \<Rightarrow>
          (case plan_window_apply env wenv rs items order_by of None \<Rightarrow> Unsupported | Some m \<Rightarrow> Materialized m)
      | _ \<Rightarrow> Unsupported)"

end
