(* ===== verification/Qe_Prefix_Sum.thy ===== *)
theory Qe_Prefix_Sum
  imports Qe_Window
begin

text \<open>
  The three dispatches of \<open>prefix_sum.comp\<close> compute the exclusive prefix sums of an array of any length, and
  the scatter and gather shaders find the first position of every run of flags by them.
\<close>

section \<open>The scan of a workgroup\<close>

definition window_sum :: "u32 list \<Rightarrow> nat \<Rightarrow> nat \<Rightarrow> u32" where
  "window_sum xs w t = (\<Sum>i = t + 1 - w..<t + 1. xs ! i)"

lemma window_sum_double:
  assumes "0 < w"
  shows "window_sum xs w t + (if w \<le> t then window_sum xs w (t - w) else 0) = window_sum xs (2 * w) t"
proof (cases "w \<le> t")
  case True
  have "t - w + 1 - w = t + 1 - 2 * w" "t - w + 1 = t + 1 - w" using True by simp_all
  then have "window_sum xs w (t - w) = (\<Sum>i = t + 1 - 2 * w..<t + 1 - w. xs ! i)"
    by (simp only: window_sum_def)
  moreover have "(\<Sum>i = t + 1 - 2 * w..<t + 1 - w. xs ! i) + (\<Sum>i = t + 1 - w..<t + 1. xs ! i) =
      (\<Sum>i = t + 1 - 2 * w..<t + 1. xs ! i)"
    by (rule sum.atLeastLessThan_concat) auto
  ultimately show ?thesis using True by (simp add: window_sum_def add.commute)
qed (simp add: window_sum_def)

lemma scan_steps:
  "fold (\<lambda>s. scan_step (2 ^ s)) [0..<m] xs = map (window_sum xs (2 ^ m)) [0..<length xs]"
proof (induction m)
  case 0
  have "window_sum xs 1 = (!) xs" by (simp add: fun_eq_iff window_sum_def)
  then show ?case by (simp add: map_nth)
next
  case (Suc m)
  define w where "w = (2 :: nat) ^ m"
  have "scan_step w (map (window_sum xs w) [0..<length xs]) = map (window_sum xs (2 * w)) [0..<length xs]"
  proof (rule nth_equalityI)
    fix t assume "t < length (scan_step w (map (window_sum xs w) [0..<length xs]))"
    then have t: "t < length xs" by (simp add: scan_step_def)
    then have "scan_step w (map (window_sum xs w) [0..<length xs]) ! t =
        window_sum xs w t + (if w \<le> t then window_sum xs w (t - w) else 0)"
      by (simp add: scan_step_def)
    also have "\<dots> = window_sum xs (2 * w) t" by (rule window_sum_double) (simp add: w_def)
    finally show "scan_step w (map (window_sum xs w) [0..<length xs]) ! t = map (window_sum xs (2 * w)) [0..<length xs] ! t"
      using t by simp
  qed (simp add: scan_step_def)
  then show ?case using Suc by (simp add: w_def)
qed

lemma scan_shared_nth:
  assumes "length xs = 256" "t < 256"
  shows "scan_shared xs ! t = (\<Sum>i<t + 1. xs ! i)"
  using assms by (simp add: scan_shared_def scan_steps window_sum_def atLeast0LessThan)

section \<open>Blocks\<close>

lemma block_count_bounds: "n \<le> (n + 255) div 256 * 256" "i < n \<Longrightarrow> i div 256 < (n + 255) div (256 :: nat)"
proof -
  show "n \<le> (n + 255) div 256 * 256" using div_mult_mod_eq [of "n + 255" 256] mod_less_divisor [of 256 "n + 255"] by linarith
  show "i div 256 < (n + 255) div 256" if "i < n"
    using div_le_mono [of "i + 256" "n + 255" 256] that by simp
qed

definition entry :: "u32 list \<Rightarrow> nat \<Rightarrow> u32" where
  "entry xs i = (if i < length xs then xs ! i else 0)"

lemma sum_entry: "(\<Sum>i<k. entry xs i) = sum_list (take k xs)"
proof (induction k)
  case (Suc k)
  then show ?case by (cases "k < length xs") (simp_all add: take_Suc_conv_app_nth entry_def)
qed simp

lemma block_scan_nth:
  assumes "t < 256"
  shows "block_scan counts b ! t = (\<Sum>i = b * 256..<b * 256 + t + 1. entry counts i)"
proof -
  let ?xs = "map (\<lambda>t. if b * 256 + t < length counts then counts ! (b * 256 + t) else 0) [0..<256]"
  have "block_scan counts b ! t = (\<Sum>i<t + 1. ?xs ! i)"
    unfolding block_scan_def by (rule scan_shared_nth) (use assms in simp_all)
  also have "\<dots> = (\<Sum>i = 0..<t + 1. entry counts (b * 256 + i))"
    using assms by (intro sum.cong) (auto simp: entry_def)
  also have "\<dots> = (\<Sum>i = b * 256..<b * 256 + t + 1. entry counts i)"
    using sum.shift_bounds_nat_ivl [of "entry counts" 0 "b * 256" "t + 1"] by (simp add: add.commute add.left_commute)
  finally show ?thesis .
qed

lemma block_offset_nth:
  assumes "i < length counts"
  shows "block_offsets counts ! i = (\<Sum>j = i div 256 * 256..<i. entry counts j)"
proof -
  have i: "i div 256 * 256 + i mod 256 = i" by simp
  have "block_scan counts (i div 256) ! (i mod 256) = (\<Sum>j = i div 256 * 256..<i + 1. entry counts j)"
    using block_scan_nth [of "i mod 256" counts "i div 256"] unfolding i by simp
  also have "\<dots> = (\<Sum>j = i div 256 * 256..<i. entry counts j) + counts ! i"
    using sum.atLeastLessThan_Suc [of "i div 256 * 256" i "entry counts"] assms
    by (simp add: entry_def div_times_less_eq_dividend)
  finally show ?thesis using assms by (simp add: block_offsets_def)
qed

lemma block_total_nth:
  "b < (length counts + 255) div 256 \<Longrightarrow> block_totals counts ! b = (\<Sum>i = b * 256..<(b + 1) * 256. entry counts i)"
  by (simp add: block_totals_def block_scan_nth add.commute)

lemma sum_blocks:
  "k \<le> (length counts + 255) div 256 \<Longrightarrow> sum_list (take k (block_totals counts)) = (\<Sum>i<k * 256. entry counts i)"
proof (induction k)
  case (Suc k)
  have "length (block_totals counts) = (length counts + 255) div 256" by (simp add: block_totals_def)
  then have "sum_list (take (Suc k) (block_totals counts)) = (\<Sum>i<k * 256. entry counts i) + (\<Sum>i = k * 256..<(k + 1) * 256. entry counts i)"
    using Suc block_total_nth [of k counts] by (simp add: take_Suc_conv_app_nth)
  also have "\<dots> = (\<Sum>i<(k + 1) * 256. entry counts i)"
    unfolding lessThan_atLeast0 by (rule sum.atLeastLessThan_concat) auto
  finally show ?case by simp
qed simp

section \<open>The block totals\<close>

lemma running_sums_append: "running_sums r (xs @ ys) = running_sums r xs @ running_sums (r + sum_list xs) ys"
  by (induction xs arbitrary: r) (simp_all add: add.assoc)

lemma length_running_sums [simp]: "length (running_sums r xs) = length xs"
  by (induction xs arbitrary: r) simp_all

lemma running_sums_nth: "i < length xs \<Longrightarrow> running_sums r xs ! i = r + sum_list (take i xs)"
  by (induction xs arbitrary: r i) (auto simp: nth_Cons add.assoc split: nat.split)

lemma thread_totals_prefix:
  fixes bs :: "u32 list"
  defines "s t \<equiv> min (t * ((length bs + 255) div 256)) (length bs)"
  shows "take (s t) bs @ thread_totals bs t = take (s (t + 1)) bs"
proof -
  define chunk where "chunk = (length bs + 255) div 256"
  have "thread_totals bs t = take (s (t + 1) - s t) (drop (s t) bs)"
  proof (cases "t * chunk \<le> length bs")
    case True
    then show ?thesis by (simp add: thread_totals_def Let_def s_def chunk_def add.commute)
  next
    case False
    then show ?thesis by (simp add: thread_totals_def Let_def s_def chunk_def)
  qed
  moreover have "s t \<le> s (t + 1)" by (auto simp: s_def min_def)
  then have "take (s t) bs @ take (s (t + 1) - s t) (drop (s t) bs) = take (s (t + 1)) bs"
    using take_add [of "s t" "s (t + 1) - s t" bs] by simp
  ultimately show ?thesis by simp
qed

lemma scan_totals_spec: "scan_totals bs = (running_sums 0 bs, sum_list bs)"
proof -
  define s where "s t = min (t * ((length bs + 255) div 256)) (length bs)" for t
  define shares where "shares = map (\<lambda>t. sum_list (thread_totals bs t)) [0..<256]"
  note prefix = thread_totals_prefix [where bs = bs, folded s_def]
  have shares: "(\<Sum>u<t. shares ! u) = sum_list (take (s t) bs)" if "t \<le> 256" for t
    using that
  proof (induction t)
    case (Suc t)
    then have "(\<Sum>u<Suc t. shares ! u) = sum_list (take (s t) bs @ thread_totals bs t)" by (simp add: shares_def)
    then show ?case unfolding prefix by simp
  qed (simp add: s_def)
  have scan: "scan_shared shares ! t = (\<Sum>u<t + 1. shares ! u)" if "t < 256" for t
    using that by (simp add: scan_shared_nth shares_def)
  have running: "concat (map (\<lambda>t. running_sums (scan_shared shares ! t - shares ! t) (thread_totals bs t)) [0..<m]) =
      running_sums 0 (take (s m) bs)" if "m \<le> 256" for m
    using that
  proof (induction m)
    case (Suc m)
    then have "scan_shared shares ! m - shares ! m = sum_list (take (s m) bs)" using scan [of m] shares [of m] by simp
    then have "concat (map (\<lambda>t. running_sums (scan_shared shares ! t - shares ! t) (thread_totals bs t)) [0..<Suc m]) =
        running_sums 0 (take (s m) bs @ thread_totals bs m)"
      using Suc by (simp add: running_sums_append)
    then show ?case unfolding prefix by simp
  qed (simp add: s_def)
  have "length bs \<le> 256 * ((length bs + 255) div 256)" using block_count_bounds [of "length bs"] by simp
  then have all: "take (s 256) bs = bs" by (simp add: s_def)
  show ?thesis
    using running [of 256] scan [of 255] shares [of 256] all
    unfolding scan_totals_def Let_def shares_def [symmetric] by simp
qed

lemma prefix_sums: "prefix_sum counts = map (\<lambda>i. sum_list (take i counts)) [0..<length counts + 1]"
proof -
  define blocks where "blocks = (length counts + 255) div 256"
  have len: "length (block_totals counts) = blocks" by (simp add: block_totals_def blocks_def)
  have "block_offsets counts ! i + running_sums 0 (block_totals counts) ! (i div 256) = sum_list (take i counts)"
    if "i < length counts" for i
  proof -
    have b: "i div 256 < blocks" using that using block_count_bounds(2) unfolding blocks_def by blast
    have "running_sums 0 (block_totals counts) ! (i div 256) = (\<Sum>j = 0..<i div 256 * 256. entry counts j)"
      using b len sum_blocks [of "i div 256" counts] by (simp add: running_sums_nth blocks_def atLeast0LessThan)
    then have "block_offsets counts ! i + running_sums 0 (block_totals counts) ! (i div 256) =
        (\<Sum>j = 0..<i div 256 * 256. entry counts j) + (\<Sum>j = i div 256 * 256..<i. entry counts j)"
      using block_offset_nth [OF that] by simp
    also have "\<dots> = (\<Sum>j = 0..<i. entry counts j)" by (rule sum.atLeastLessThan_concat) auto
    finally show ?thesis by (simp add: sum_entry atLeast0LessThan)
  qed
  moreover have "sum_list (block_totals counts) = sum_list counts"
  proof -
    have "length counts \<le> blocks * 256" using block_count_bounds(1) unfolding blocks_def by blast
    then show ?thesis using sum_blocks [of blocks counts] len by (simp add: blocks_def sum_entry)
  qed
  ultimately show ?thesis by (simp add: prefix_sum_def scan_totals_spec Let_def)
qed

section \<open>Positions that start a run\<close>

fun start_of :: "(nat \<Rightarrow> bool) \<Rightarrow> nat \<Rightarrow> nat" where
  "start_of P 0 = 0"
| "start_of P (Suc i) = (if P (Suc i) then Suc i else start_of P i)"

fun id_of :: "(nat \<Rightarrow> bool) \<Rightarrow> nat \<Rightarrow> nat" where
  "id_of P 0 = 0"
| "id_of P (Suc i) = (if P (Suc i) then id_of P i + 1 else id_of P i)"

lemma start_of_le: "start_of P i \<le> i"
  by (induction i) auto

lemma id_of_le: "id_of P i \<le> i"
  by (induction i) auto

lemma id_of_mono: "i \<le> j \<Longrightarrow> id_of P i \<le> id_of P j"
  by (induction j) (auto simp: le_Suc_eq)

lemma start_of_finer: "\<forall>j \<le> i. P j \<longrightarrow> Q j \<Longrightarrow> start_of P i \<le> start_of Q i"
  by (induction i) (auto simp: le_SucI start_of_le)

lemma id_of_start: "id_of P (start_of P i) = id_of P i"
  by (induction i) auto

lemma id_of_less: "P m \<Longrightarrow> j < m \<Longrightarrow> id_of P j < id_of P m"
  using id_of_mono [of j "m - 1" P] by (cases m) auto

definition flags_ok :: "u32 list \<Rightarrow> (nat \<Rightarrow> bool) \<Rightarrow> bool" where
  "flags_ok fl P \<longleftrightarrow> (\<forall>i < length fl. fl ! i = (if P i then 1 else 0)) \<and> P 0"

lemma sum_flags:
  assumes "flags_ok fl P" "i < length fl"
  shows "sum_list (take (i + 1) fl) = of_nat (id_of P i + 1)"
  using assms(2)
proof (induction i)
  case 0
  then show ?case using assms(1) by (cases fl) (auto simp: flags_ok_def)
next
  case (Suc i)
  then show ?case using assms(1) by (simp add: take_Suc_conv_app_nth [of "Suc i"] flags_ok_def)
qed

lemma scattered_ids_nth:
  assumes "flags_ok fl P" "i < length fl"
  shows "scattered_ids fl ! i = of_nat (id_of P i)"
proof -
  have "prefix_sum fl ! i + fl ! i = sum_list (take (i + 1) fl)"
    using assms(2) by (simp add: prefix_sums take_Suc_conv_app_nth nth_append)
  then show ?thesis using sum_flags [OF assms] assms(2) by (simp add: scattered_ids_def)
qed

lemma unat_small: "i < 2 ^ 32 \<Longrightarrow> unat (of_nat i :: u32) = i"
  by (simp add: unat_of_nat take_bit_nat_eq_self)

lemma scattered_nth:
  assumes "flags_ok fl P" "length fl < 2 ^ 32" "j < length fl"
  shows "scattered stale fl put ! id_of P j = put (start_of P j)"
proof -
  define step where "step i a = (if fl ! i = 1 then a[unat (scattered_ids fl ! i) := put i] else a)" for i a
  have id: "unat (scattered_ids fl ! i) = id_of P i" if "i < length fl" for i
    using scattered_ids_nth [OF assms(1) that] unat_small [of "id_of P i"] id_of_le [of P i] that assms(2) by simp
  have "length (fold step [0..<m] a) = length a" for m a
    by (induction m arbitrary: a) (simp_all add: step_def)
  note len = this [of _ "map stale [0..<length fl]", simplified]
  have "\<forall>j < m. fold step [0..<m] (map stale [0..<length fl]) ! id_of P j = put (start_of P j)" if "m \<le> length fl" for m
    using that
  proof (induction m)
    case (Suc m)
    let ?a = "fold step [0..<m] (map stale [0..<length fl])"
    have m: "m < length fl" using Suc.prems by simp
    have IH: "?a ! id_of P j = put (start_of P j)" if "j < m" for j using Suc that by simp
    have flag: "fl ! m = 1 \<longleftrightarrow> P m" using assms(1) m by (simp add: flags_ok_def)
    have inside: "id_of P m < length ?a" using m id_of_le [of P m] by (simp add: len)
    show ?case
    proof (intro allI impI)
      fix j assume "j < Suc m"
      then consider "j < m" | "j = m" by linarith
      then show "fold step [0..<Suc m] (map stale [0..<length fl]) ! id_of P j = put (start_of P j)"
      proof cases
        case 1
        then have "P m \<longrightarrow> id_of P m \<noteq> id_of P j" using id_of_less [of P m j] by auto
        then show ?thesis using IH [OF 1] by (simp add: step_def flag id [OF m])
      next
        case 2
        show ?thesis
        proof (cases "P m")
          case True
          then have "start_of P m = m" by (cases m) simp_all
          then show ?thesis using 2 True inside by (simp add: step_def flag id [OF m])
        next
          case False
          then obtain k where k: "m = Suc k" using assms(1) by (cases m) (auto simp: flags_ok_def)
          have "id_of P m = id_of P k" "start_of P m = start_of P k" "k < m" using False k by simp_all
          moreover have "fold step [0..<Suc m] (map stale [0..<length fl]) = ?a" using False by (simp add: step_def flag)
          ultimately show ?thesis using 2 IH [of k] by (simp only:)
        qed
      qed
    qed
  qed simp
  from this [OF order_refl] show ?thesis using assms(3) unfolding scattered_def step_def [abs_def] by blast
qed

text \<open>Row number, rank and dense rank at a position, when \<open>P\<close> starts a partition and \<open>Q\<close> a group of peers.\<close>

definition position_ranks :: "(nat \<Rightarrow> bool) \<Rightarrow> (nat \<Rightarrow> bool) \<Rightarrow> nat \<Rightarrow> nat \<times> nat \<times> nat" where
  "position_ranks P Q i =
     (i - start_of P i + 1, start_of Q i - start_of P i + 1, id_of Q i - id_of Q (start_of P i) + 1)"

lemma word_distance: "a \<le> b \<Longrightarrow> b < 2 ^ 32 - 1 \<Longrightarrow> unat (of_nat b - of_nat a + 1 :: u32) = b - a + 1"
proof -
  assume *: "a \<le> b" "b < 2 ^ 32 - 1"
  have "(of_nat b - of_nat a + 1 :: u32) = of_nat (b - a + 1)" using * by (simp add: of_nat_diff)
  moreover have "b - a + 1 < 2 ^ 32" using * by simp
  ultimately show ?thesis using unat_small by presburger
qed

lemma gathered_ranks_nth:
  assumes "flags_ok pf P" "flags_ok qf Q" "length pf = length qf" "length pf < 2 ^ 32 - 1" "i < length pf" "\<forall>j \<le> i. P j \<longrightarrow> Q j"
  shows "(\<lambda>(r, k, d). (unat r, unat k, unat d)) (gathered_ranks stale pf qf ! i) = position_ranks P Q i"
proof -
  have small: "length pf < 2 ^ 32" "length qf < 2 ^ 32" using assms(3,4) by simp_all
  have q: "i < length qf" using assms(3,5) by simp
  note pid = scattered_ids_nth [OF assms(1,5)] and gid = scattered_ids_nth [OF assms(2) q]
  have upid: "unat (of_nat (id_of P i) :: u32) = id_of P i" "unat (of_nat (id_of Q i) :: u32) = id_of Q i"
    using id_of_le [of P i] id_of_le [of Q i] assms(5) small by (simp_all add: unat_small)
  have s: "start_of P i < length qf" using start_of_le [of P i] q by simp
  note le = start_of_le [of P i] start_of_finer [OF assms(6)] start_of_le [of Q i]
    id_of_mono [OF start_of_le [of P i], of Q] id_of_le [of Q i]
  have "gathered_ranks stale pf qf ! i =
      (of_nat i - of_nat (start_of P i) + 1, of_nat (start_of Q i) - of_nat (start_of P i) + 1,
       of_nat (id_of Q i) - of_nat (id_of Q (start_of P i)) + 1)"
    using assms(5) pid gid upid scattered_nth [OF assms(1) small(1) assms(5)] scattered_nth [OF assms(2) small(2) q]
      scattered_ids_nth [OF assms(2) s]
    by (simp add: gathered_ranks_def Let_def)
  then show ?thesis using word_distance le assms(4,5) by (simp add: position_ranks_def)
qed

end
