(* ===== verification/Qe_Rank.thy ===== *)
theory Qe_Rank
  imports Qe_Prefix_Sum
begin

text \<open>
  What a pass over sorted rows computes: partitions and groups of peers are intervals of the order, so ranks,
  dense ranks, frames and neighbours can be read off the groups. Nothing here depends on the columns: the
  comparisons are given by the locale \<open>ranked\<close>.
\<close>

section \<open>Groups of a sorted list\<close>

lemma concat_spans [simp]: "concat (spans eq xs) = xs"
  by (induction eq xs rule: spans.induct) simp_all

lemma takeWhile_class:
  assumes "comparator cmp (\<lambda>x. x \<in> A)" "insert x (set xs) \<subseteq> A" "sorted_by cmp (x # xs)"
  shows "takeWhile (\<lambda>y. cmp x y = 0) xs = filter (\<lambda>y. cmp x y = 0) xs"
    "dropWhile (\<lambda>y. cmp x y = 0) xs = filter (\<lambda>y. cmp x y \<noteq> 0) xs"
  using assms(2,3)
proof (induction xs)
  case (Cons y ys)
  {
    case 1
    show ?case
    proof (cases "cmp x y = 0")
      case False
      then have "cmp x z \<noteq> 0" if "z \<in> set ys" for z
        using that 1 comparator.cmp_le_less_trans [OF assms(1), of x y z] by auto
      then show ?thesis using False by (simp add: filter_empty_conv)
    qed (use Cons(1) 1 in simp)
  next
    case 2
    show ?case
    proof (cases "cmp x y = 0")
      case False
      then have "cmp x z \<noteq> 0" if "z \<in> set ys" for z
        using that 2 comparator.cmp_le_less_trans [OF assms(1), of x y z] by auto
      then show ?thesis using False by (simp add: filter_id_conv)
    qed (use Cons(2) 2 in simp)
  }
qed simp_all

text \<open>The first group of a sorted list and the rest: everything in the group comes before the rest.\<close>

lemma first_group:
  assumes "comparator cmp (\<lambda>x. x \<in> A)" "insert x (set xs) \<subseteq> A" "sorted_by cmp (x # xs)"
  defines "g \<equiv> x # takeWhile (\<lambda>y. cmp x y = 0) xs" and "rest \<equiv> dropWhile (\<lambda>y. cmp x y = 0) xs"
  shows "g @ rest = x # xs" "\<And>a b. a \<in> set g \<Longrightarrow> b \<in> set g \<Longrightarrow> cmp a b = 0"
    "\<And>a b. a \<in> set g \<Longrightarrow> b \<in> set rest \<Longrightarrow> cmp a b < 0" "sorted_by cmp rest" "set rest \<subseteq> set xs"
proof -
  note c = comparator.cmp_eq_sym [OF assms(1)] comparator.cmp_eq_trans [OF assms(1)] comparator.cmp_refl [OF assms(1)]
  have g: "a \<in> A \<and> cmp x a = 0" if "a \<in> set g" for a
    using that assms(2) c(3) [of x] takeWhile_class(1) [OF assms(1-3)] by (auto simp: g_def)
  have r: "b \<in> A \<and> cmp x b < 0" if "b \<in> set rest" for b
    using that assms(2,3) takeWhile_class(2) [OF assms(1-3)] by (auto simp: rest_def)
  show "g @ rest = x # xs" by (simp add: g_def rest_def)
  show "cmp a b = 0" if "a \<in> set g" "b \<in> set g" for a b
    using g [OF that(1)] g [OF that(2)] c(1) [of x a] c(2) [of a x b] assms(2) by auto
  show "cmp a b < 0" if "a \<in> set g" "b \<in> set rest" for a b
    using g [OF that(1)] r [OF that(2)] c(1) [of x a] comparator.cmp_less_trans [OF assms(1), of a x b] assms(2) by auto
  show "sorted_by cmp rest"
    unfolding rest_def takeWhile_class(2) [OF assms(1-3)] using assms(3) by (simp add: sorted_by_filter)
  show "set rest \<subseteq> set xs" unfolding rest_def by (auto dest: set_dropWhileD)
qed

section \<open>Ranks within a partition\<close>

definition lower_rows :: "(nat \<Rightarrow> nat \<Rightarrow> int) \<Rightarrow> nat set \<Rightarrow> nat \<Rightarrow> nat set" where
  "lower_rows cmp S r = {s \<in> S. cmp s r < 0}"

definition lower_groups :: "(nat \<Rightarrow> nat \<Rightarrow> int) \<Rightarrow> nat set \<Rightarrow> nat \<Rightarrow> nat set set" where
  "lower_groups cmp S r = (\<lambda>s. {t \<in> S. cmp s t = 0}) ` lower_rows cmp S r"

lemma map_of_const: "map_of (map (\<lambda>r. (r, v)) g) r = (if r \<in> set g then Some v else None)"
  by (induction g) auto

lemma rank_writes_fst: "map fst (rank_writes env d gs start dense) = concat gs"
  by (induction env d gs start dense rule: rank_writes.induct) (simp_all add: comp_def)

lemma rank_writes_spec:
  assumes "comparator cmp (\<lambda>x. x \<in> A)" "set p \<subseteq> A" "distinct p" "sorted_by cmp p" "r \<in> set p"
  shows "map_of (rank_writes env d (spans (\<lambda>a b. cmp a b = 0) p) start dense) r =
    Some (count_value env (if d then dense + card (lower_groups cmp (set p) r) else start + card (lower_rows cmp (set p) r) + 1))"
  using assms(2-5)
proof (induction p arbitrary: start dense rule: length_induct)
  case (1 p)
  then obtain x xs where p: "p = x # xs" by (cases p) auto
  define g where "g = x # takeWhile (\<lambda>y. cmp x y = 0) xs"
  define rest where "rest = dropWhile (\<lambda>y. cmp x y = 0) xs"
  have sub: "insert x (set xs) \<subseteq> A" and sorted: "sorted_by cmp (x # xs)" using 1 p by auto
  note fg = first_group [OF assms(1) sub sorted, folded g_def rest_def]
  have gp: "g @ rest = p" using fg(1) p by simp
  then have set: "set p = set g \<union> set rest" "set g \<inter> set rest = {}" "distinct g" "distinct rest"
    using 1(3) by (metis set_append, metis distinct_append, metis distinct_append, metis distinct_append)
  have writes: "rank_writes env d (spans (\<lambda>a b. cmp a b = 0) p) start dense =
      map (\<lambda>r. (r, count_value env (if d then dense else start + 1))) g @
      rank_writes env d (spans (\<lambda>a b. cmp a b = 0) rest) (start + length g) (dense + 1)"
    by (simp add: p g_def rest_def)
  have not_after: "\<not> cmp b a < 0" if "a \<in> set g" "b \<in> set p" for a b
  proof (cases "b \<in> set g")
    case False
    then have "b \<in> set rest" "a \<in> A" "b \<in> A" using that set(1) 1(2) by auto
    then show ?thesis using fg(3) [OF that(1)] comparator.cmp_swap [OF assms(1), of a b] by fastforce
  qed (use fg(2) that(1) in fastforce)
  show ?case
  proof (cases "r \<in> set g")
    case True
    then have "lower_rows cmp (set p) r = {}" using not_after by (auto simp: lower_rows_def)
    then show ?thesis using True by (simp add: writes map_of_const lower_groups_def map_add_def split: option.split)
  next
    case False
    then have r: "r \<in> set rest" using 1(5) set(1) by simp
    have rows: "lower_rows cmp (set p) r = set g \<union> lower_rows cmp (set rest) r"
      using fg(3) r set(1) by (auto simp: lower_rows_def)
    have "card (lower_rows cmp (set p) r) = length g + card (lower_rows cmp (set rest) r)"
      unfolding rows using set(2-4) by (subst card_Un_disjoint) (auto simp: lower_rows_def distinct_card)
    moreover have "card (lower_groups cmp (set p) r) = 1 + card (lower_groups cmp (set rest) r)"
    proof -
      have g0: "{t \<in> set p. cmp s t = 0} = set g" if "s \<in> set g" for s
        using that fg(2,3) set(1) by fastforce
      have rest0: "{t \<in> set p. cmp s t = 0} = {t \<in> set rest. cmp s t = 0}" if "s \<in> set rest" for s
        using that fg(3) not_after set(1) comparator.cmp_eq_sym [OF assms(1)] 1(2) by fastforce
      have "lower_groups cmp (set p) r = insert (set g) (lower_groups cmp (set rest) r)"
        unfolding lower_groups_def rows image_Un
        using g0 rest0 by (auto simp: g_def lower_rows_def image_iff)
      moreover have "set g \<notin> lower_groups cmp (set rest) r"
        using set(2) by (auto simp: lower_groups_def g_def)
      moreover have "finite (lower_groups cmp (set rest) r)" by (simp add: lower_groups_def lower_rows_def)
      ultimately show ?thesis by simp
    qed
    moreover have "length rest < length p" using gp [symmetric] by (simp add: g_def)
    then have "map_of (rank_writes env d (spans (\<lambda>a b. cmp a b = 0) rest) (start + length g) (dense + 1)) r =
        Some (count_value env (if d then dense + 1 + card (lower_groups cmp (set rest) r)
          else start + length g + card (lower_rows cmp (set rest) r) + 1))"
      using 1(1) r set 1(2) fg(4) by simp
    ultimately show ?thesis using False by (simp add: writes map_of_const map_add_def add.assoc)
  qed
qed

lemma frame_writes_fst: "map fst (frame_writes env wenv code star src gs st) = concat gs"
  by (induction env wenv code star src gs st rule: frame_writes.induct) (simp_all add: comp_def Let_def)

text \<open>The frame of a row: the rows of its partition up to its last peer, in order.\<close>

lemma frame_writes_spec:
  assumes "comparator cmp (\<lambda>x. x \<in> A)" "set p \<subseteq> A" "distinct p" "sorted_by cmp p" "r \<in> set p"
  shows "map_of (frame_writes env wenv code star src (spans (\<lambda>a b. cmp a b = 0) p) st) r =
    Some (frame_value env wenv code star (fold (frame_add wenv star src) (filter (\<lambda>s. cmp s r \<le> 0) p) st))"
  using assms(2-5)
proof (induction p arbitrary: st rule: length_induct)
  case (1 p)
  then obtain x xs where p: "p = x # xs" by (cases p) auto
  define g where "g = x # takeWhile (\<lambda>y. cmp x y = 0) xs"
  define rest where "rest = dropWhile (\<lambda>y. cmp x y = 0) xs"
  have sub: "insert x (set xs) \<subseteq> A" and sorted: "sorted_by cmp (x # xs)" using 1 p by auto
  note fg = first_group [OF assms(1) sub sorted, folded g_def rest_def]
  have gp: "g @ rest = p" using fg(1) p by simp
  then have set: "set p = set g \<union> set rest" "distinct rest" using 1(3) by (metis set_append, metis distinct_append)
  have writes: "frame_writes env wenv code star src (spans (\<lambda>a b. cmp a b = 0) p) st =
      map (\<lambda>r. (r, frame_value env wenv code star (fold (frame_add wenv star src) g st))) g @
      frame_writes env wenv code star src (spans (\<lambda>a b. cmp a b = 0) rest) (fold (frame_add wenv star src) g st)"
    by (simp add: p g_def rest_def Let_def)
  show ?case
  proof (cases "r \<in> set g")
    case True
    have "filter (\<lambda>s. cmp s r \<le> 0) g = g" using fg(2) True by (simp add: filter_id_conv)
    moreover have "filter (\<lambda>s. cmp s r \<le> 0) rest = []"
    proof -
      have "\<not> cmp b r \<le> 0" if "b \<in> set rest" for b
      proof -
        have "r \<in> A" "b \<in> A" using that True set(1) 1(2) by auto
        then show ?thesis using fg(3) [OF True that] comparator.cmp_swap [OF assms(1), of r b] by simp
      qed
      then show ?thesis by (simp add: filter_empty_conv)
    qed
    ultimately have "filter (\<lambda>s. cmp s r \<le> 0) p = g" by (simp flip: gp)
    then show ?thesis using True by (simp add: writes map_of_const map_add_def split: option.split)
  next
    case False
    then have r: "r \<in> set rest" using 1(5) set(1) by simp
    have "filter (\<lambda>s. cmp s r \<le> 0) g = g" using fg(3) [OF _ r] by (fastforce simp: filter_id_conv)
    then have "filter (\<lambda>s. cmp s r \<le> 0) p = g @ filter (\<lambda>s. cmp s r \<le> 0) rest" by (simp flip: gp)
    moreover have "length rest < length p" using gp [symmetric] by (simp add: g_def)
    ultimately show ?thesis using 1(1) r set 1(2) fg(4) False by (simp add: writes map_of_const map_add_def)
  qed
qed

section \<open>Neighbours\<close>

lemma map_of_nth: "distinct p \<Longrightarrow> i < length p \<Longrightarrow> map_of (map (\<lambda>i. (p ! i, f i)) [0..<length p]) (p ! i) = Some (f i)"
  by (rule map_of_is_SomeI) (auto simp: comp_def map_nth)

lemma number_writes_spec: "distinct p \<Longrightarrow> i < length p \<Longrightarrow> map_of (number_writes env p) (p ! i) = Some (count_value env (i + 1))"
  unfolding number_writes_def by (rule map_of_nth)

lemma number_writes_fst: "map fst (number_writes env p) = p"
  by (simp add: number_writes_def comp_def map_nth)

text \<open>The row so many places before or behind, if the partition has one.\<close>

definition neighbour :: "bool \<Rightarrow> int \<Rightarrow> nat list \<Rightarrow> nat \<Rightarrow> nat option" where
  "neighbour back offset p i =
     (let j = (if back then int i - offset else int i + offset)
      in if 0 \<le> j \<and> j < int (length p) then Some (p ! nat j) else None)"

lemma wrapped:
  fixes x d :: int
  assumes "0 \<le> x" "x < 2 ^ 63" "0 \<le> d" "d < 2 ^ 63"
  shows "signed_take_bit 63 (x - d) = x - d" "signed_take_bit 63 (x + d) = (if x + d < 2 ^ 63 then x + d else x + d - 2 ^ 64)"
proof -
  show "signed_take_bit 63 (x - d) = x - d" using assms by (intro signed_take_bit_int_eq_self) auto
  show "signed_take_bit 63 (x + d) = (if x + d < 2 ^ 63 then x + d else x + d - 2 ^ 64)"
  proof (cases "x + d < 2 ^ 63")
    case True
    then show ?thesis using assms signed_take_bit_int_eq_self [of 63 "x + d"] by simp
  next
    case False
    have "signed_take_bit 63 (x + d) = (x + d + 2 ^ 63) mod 2 ^ 64 - 2 ^ 63"
      using signed_take_bit_eq_take_bit_shift [of 63 "x + d"] by (simp add: take_bit_eq_mod)
    also have "(x + d + 2 ^ 63) mod 2 ^ 64 = x + d + 2 ^ 63 - 2 ^ 64"
      using assms False minus_mod_self2 [of "x + d + 2 ^ 63" "2 ^ 64 :: int"] mod_pos_pos_trivial [of "x + d + 2 ^ 63 - 2 ^ 64" "2 ^ 64"]
      by simp
    finally show ?thesis using False by simp
  qed
qed

lemma shift_writes_spec:
  assumes "distinct p" "i < length p" "0 \<le> offset" "offset < 2 ^ 63" "int (start + length p) < 2 ^ 63"
  shows "map_of (shift_writes env back is_string offset default_ir src start p) (p ! i) =
    Some (case neighbour back offset p i of Some s \<Rightarrow> window_cell src s | None \<Rightarrow> default_value env is_string default_ir)"
proof -
  define j where "j = signed_take_bit 63 (if back then int (start + i) - offset else int (start + i) + offset)"
  define x where "x = (if back then int i - offset else int i + offset)"
  have "(int start \<le> j \<and> j < int (start + length p)) = (0 \<le> x \<and> x < int (length p)) \<and> (0 \<le> x \<and> x < int (length p) \<longrightarrow> j = int start + x)"
    using wrapped [of "int (start + i)" offset] assms(2-5) unfolding j_def x_def by (auto split: if_splits)
  moreover have "nat (int start + x) - start = nat x" if "0 \<le> x" using that by (simp add: nat_add_distrib)
  ultimately have "(if int start \<le> j \<and> j < int (start + length p) then window_cell src (p ! (nat j - start)) else default_value env is_string default_ir) =
      (case neighbour back offset p i of Some s \<Rightarrow> window_cell src s | None \<Rightarrow> default_value env is_string default_ir)"
    by (auto simp: neighbour_def x_def [symmetric])
  then show ?thesis
    unfolding shift_writes_def Let_def map_of_nth [OF assms(1,2)] j_def by simp
qed

lemma shift_writes_fst: "map fst (shift_writes env back is_string offset default_ir src start p) = p"
  by (simp add: shift_writes_def comp_def map_nth Let_def)

section \<open>Partitions of the sorted rows\<close>

locale ranked =
  fixes pc oc :: "nat \<Rightarrow> nat \<Rightarrow> int" and L :: "nat list"
  assumes parts: "comparator pc (\<lambda>x. x \<in> set L)"
    and peers: "comparator oc (\<lambda>x. x \<in> set L)"
    and once: "distinct L"
    and ordered: "sorted_by (\<lambda>a b. if pc a b \<noteq> 0 then pc a b else oc a b) L"
begin

definition part :: "nat \<Rightarrow> nat list" where
  "part r = filter (\<lambda>s. pc s r = 0) L"

definition new_part :: "nat \<Rightarrow> bool" where
  "new_part i \<longleftrightarrow> i = 0 \<or> pc (L ! (i - 1)) (L ! i) \<noteq> 0"

definition new_peers :: "nat \<Rightarrow> bool" where
  "new_peers i \<longleftrightarrow> new_part i \<or> oc (L ! (i - 1)) (L ! i) \<noteq> 0"

lemma sorted_parts: "sorted_by pc L"
  using ordered unfolding sorted_by_def by (rule sorted_wrt_mono_rel [rotated]) (auto split: if_splits)

lemma in_order: "i < j \<Longrightarrow> j < length L \<Longrightarrow> pc (L ! i) (L ! j) = 0 \<Longrightarrow> oc (L ! i) (L ! j) \<le> 0"
  using sorted_by_nth [OF ordered, of i j] by simp

end

sublocale ranked \<subseteq> part_order: comparator pc "\<lambda>x. x \<in> set L"
  by (rule parts)

sublocale ranked \<subseteq> peer_order: comparator oc "\<lambda>x. x \<in> set L"
  by (rule peers)

context ranked
begin

lemma sorted_part: "r \<in> set L \<Longrightarrow> sorted_by oc (part r)"
proof -
  assume r: "r \<in> set L"
  have "sorted_by (\<lambda>a b. if pc a b \<noteq> 0 then pc a b else oc a b) (part r)"
    unfolding part_def by (rule sorted_by_filter [OF ordered])
  then show "sorted_by oc (part r)" unfolding sorted_by_def
  proof (rule sorted_wrt_mono_rel [rotated])
    show "oc a b \<le> 0" if "a \<in> set (part r)" "b \<in> set (part r)" "(if pc a b \<noteq> 0 then pc a b else oc a b) \<le> 0" for a b
    proof -
      have "a \<in> set L" "b \<in> set L" "pc a r = 0" "pc r b = 0"
        using that(1,2) r part_order.cmp_eq_sym [of b r] by (auto simp: part_def)
      then have "pc a b = 0" using part_order.cmp_eq_trans [of a r b] r by simp
      then show ?thesis using that(3) by simp
    qed
  qed
qed

lemma distinct_part: "distinct (part r)"
  using once by (simp add: part_def)

lemma part_same:
  assumes "r \<in> set L" "s \<in> set (part r)"
  shows "part s = part r"
proof -
  have s: "s \<in> set L" "pc s r = 0" using assms(2) by (auto simp: part_def)
  have "pc t s = 0 \<longleftrightarrow> pc t r = 0" if "t \<in> set L" for t
    using part_order.cmp_eq_trans [of t s r] part_order.cmp_eq_trans [of t r s] part_order.cmp_eq_sym [of s r] s assms(1) that by auto
  then show ?thesis unfolding part_def by (intro filter_cong) auto
qed

lemma self_in_part: "r \<in> set L \<Longrightarrow> r \<in> set (part r)"
  using part_order.cmp_refl [of r] by (simp add: part_def)

text \<open>The partitions one after the other, as the loop finds them.\<close>

lemma spans_partition:
  assumes "r \<in> set L" "\<And>start p. map fst (W start p) = p"
    "\<And>start. G start [] = []" "\<And>start p ps. G start (p # ps) = W start p @ G (start + length p) ps"
  shows "\<exists>start. start + length (part r) \<le> length L \<and> map_of (G 0 (spans (\<lambda>a b. pc a b = 0) L)) r = map_of (W start (part r)) r"
proof -
  have "\<exists>start. first \<le> start \<and> start + length (filter (\<lambda>s. pc s r = 0) M) \<le> first + length M \<and>
      map_of (G first (spans (\<lambda>a b. pc a b = 0) M)) r = map_of (W start (filter (\<lambda>s. pc s r = 0) M)) r"
    if "set M \<subseteq> set L" "distinct M" "sorted_by pc M" "r \<in> set M" for M first
    using that
  proof (induction M arbitrary: first rule: length_induct)
    case (1 M)
    then obtain x xs where M: "M = x # xs" by (cases M) auto
    define g where "g = x # takeWhile (\<lambda>y. pc x y = 0) xs"
    define rest where "rest = dropWhile (\<lambda>y. pc x y = 0) xs"
    have sub: "insert x (set xs) \<subseteq> set L" and sorted: "sorted_by pc (x # xs)" using 1 M by auto
    note fg = first_group [OF parts sub sorted, folded g_def rest_def]
    have gp: "g @ rest = M" using fg(1) M by simp
    then have set: "set M = set g \<union> set rest" "distinct rest" using 1(3) by (metis set_append, metis distinct_append)
    have writes: "G first (spans (\<lambda>a b. pc a b = 0) M) = W first g @ G (first + length g) (spans (\<lambda>a b. pc a b = 0) rest)"
      by (simp add: M g_def rest_def assms(4))
    have dom: "map_of (W first g) s = None \<longleftrightarrow> s \<notin> set g" for s
      using assms(2) [of first g] by (metis map_of_eq_None_iff list.set_map)
    show ?case
    proof (cases "r \<in> set g")
      case True
      have "filter (\<lambda>s. pc s r = 0) g = g" using fg(2) True by (simp add: filter_id_conv)
      moreover have "filter (\<lambda>s. pc s r = 0) rest = []"
      proof -
        have "pc b r \<noteq> 0" if "b \<in> set rest" for b
        proof -
          have "r \<in> set L" "b \<in> set L" using that True set(1) 1(2) by auto
          then show ?thesis using fg(3) [OF True that] part_order.cmp_swap [of r b] by simp
        qed
        then show ?thesis by (simp add: filter_empty_conv)
      qed
      ultimately have "filter (\<lambda>s. pc s r = 0) M = g" by (simp flip: gp)
      moreover have "length g \<le> length M" by (simp flip: gp)
      moreover have "map_of (W first g @ ws) r = map_of (W first g) r" for ws
        using True dom [of r] by (cases "map_of (W first g) r") (simp_all add: map_add_def)
      ultimately show ?thesis unfolding writes by (intro exI [of _ first]) simp
    next
      case False
      then have r: "r \<in> set rest" using 1(5) set(1) by simp
      have "filter (\<lambda>s. pc s r = 0) g = []" using fg(3) [OF _ r] by (fastforce simp: filter_empty_conv)
      then have part: "filter (\<lambda>s. pc s r = 0) M = filter (\<lambda>s. pc s r = 0) rest" by (simp flip: gp)
      have len: "length M = length g + length rest" by (simp flip: gp)
      then have shorter: "length rest < length M" by (simp add: g_def)
      have "set rest \<subseteq> set L" using 1(2) set(1) by blast
      from 1(1) [rule_format, OF shorter this set(2) fg(4) r, of "first + length g"]
      obtain start where "first + length g \<le> start"
          "start + length (filter (\<lambda>s. pc s r = 0) rest) \<le> first + length g + length rest"
          "map_of (G (first + length g) (spans (\<lambda>a b. pc a b = 0) rest)) r = map_of (W start (filter (\<lambda>s. pc s r = 0) rest)) r"
        by blast
      moreover have "map_of (W first g @ ws) r = map_of ws r" for ws
        using False dom [of r] by (simp add: map_add_def split: option.split)
      ultimately show ?thesis unfolding writes part len by (intro exI [of _ start]) simp
    qed
  qed
  from this [of L 0] show ?thesis using assms(1) once sorted_parts by (simp add: part_def)
qed

end

section \<open>Ranks by position\<close>

context ranked
begin

lemma part_start: "i < length L \<Longrightarrow> j \<le> i \<Longrightarrow> pc (L ! j) (L ! i) = 0 \<longleftrightarrow> start_of new_part i \<le> j"
proof (induction i)
  case 0
  then show ?case using part_order.cmp_refl [of "L ! 0"] by simp
next
  case (Suc i)
  have i: "L ! i \<in> set L" "L ! Suc i \<in> set L" "L ! j \<in> set L" using Suc.prems by simp_all
  show ?case
  proof (cases "j = Suc i")
    case True
    then show ?thesis using part_order.cmp_refl i start_of_le [of new_part "Suc i"] by simp
  next
    case False
    then have j: "j \<le> i" using Suc.prems by simp
    note IH = Suc.IH [OF _ j]
    show ?thesis
    proof (cases "new_part (Suc i)")
      case True
      then have "pc (L ! i) (L ! Suc i) < 0"
        using sorted_by_nth [OF sorted_parts, of i "Suc i"] Suc.prems by (simp add: new_part_def)
      moreover have "pc (L ! j) (L ! i) \<le> 0"
        using sorted_by_nth [OF sorted_parts, of j i] j Suc.prems part_order.cmp_refl [OF i(1)] by (cases "j = i") simp_all
      ultimately have "pc (L ! j) (L ! Suc i) < 0" using part_order.cmp_less_trans i by blast
      then show ?thesis using True j by simp
    next
      case False
      then have eq: "pc (L ! i) (L ! Suc i) = 0" by (simp add: new_part_def)
      then have "pc (L ! j) (L ! Suc i) = 0 \<longleftrightarrow> pc (L ! j) (L ! i) = 0"
        using part_order.cmp_eq_trans [of "L ! j" "L ! i" "L ! Suc i"] part_order.cmp_eq_trans [of "L ! j" "L ! Suc i" "L ! i"]
          part_order.cmp_eq_sym [of "L ! i" "L ! Suc i"] i by auto
      then show ?thesis using IH Suc.prems False by simp
    qed
  qed
qed

lemma peer_start:
  "i < length L \<Longrightarrow> j \<le> i \<Longrightarrow> pc (L ! j) (L ! i) = 0 \<and> oc (L ! j) (L ! i) = 0 \<longleftrightarrow> start_of new_peers i \<le> j"
proof (induction i)
  case 0
  then show ?case using part_order.cmp_refl [of "L ! 0"] peer_order.cmp_refl [of "L ! 0"] by simp
next
  case (Suc i)
  have i: "L ! i \<in> set L" "L ! Suc i \<in> set L" "L ! j \<in> set L" using Suc.prems by simp_all
  show ?case
  proof (cases "j = Suc i")
    case True
    then show ?thesis using part_order.cmp_refl peer_order.cmp_refl i start_of_le [of new_peers "Suc i"] by simp
  next
    case False
    then have j: "j \<le> i" using Suc.prems by simp
    note IH = Suc.IH [OF _ j]
    show ?thesis
    proof (cases "new_peers (Suc i)")
      case True
      have "oc (L ! j) (L ! Suc i) \<noteq> 0" if eq: "pc (L ! j) (L ! Suc i) = 0"
      proof -
        have start: "start_of new_part (Suc i) \<le> j" using part_start [of "Suc i" j] Suc.prems eq by simp
        then have same: "\<not> new_part (Suc i)" using j by (auto split: if_splits)
        then have "pc (L ! i) (L ! Suc i) = 0" by (simp add: new_part_def)
        moreover have "pc (L ! j) (L ! i) = 0" using part_start [of i j] j Suc.prems start same by simp
        ultimately have "oc (L ! i) (L ! Suc i) < 0" "oc (L ! j) (L ! i) \<le> 0"
          using in_order [of i "Suc i"] in_order [of j i] Suc.prems True same j peer_order.cmp_refl [OF i(1)]
          by (auto simp: new_peers_def le_less)
        then show ?thesis using peer_order.cmp_less_trans [of "L ! j" "L ! i" "L ! Suc i"] i by simp
      qed
      then show ?thesis using True j by auto
    next
      case False
      then have eq: "pc (L ! i) (L ! Suc i) = 0" "oc (L ! i) (L ! Suc i) = 0" by (simp_all add: new_peers_def new_part_def)
      then have "pc (L ! j) (L ! Suc i) = 0 \<longleftrightarrow> pc (L ! j) (L ! i) = 0" "oc (L ! j) (L ! Suc i) = 0 \<longleftrightarrow> oc (L ! j) (L ! i) = 0"
        using part_order.cmp_eq_trans [of "L ! j" "L ! i" "L ! Suc i"] part_order.cmp_eq_trans [of "L ! j" "L ! Suc i" "L ! i"]
          part_order.cmp_eq_sym [of "L ! i" "L ! Suc i"] peer_order.cmp_eq_trans [of "L ! j" "L ! i" "L ! Suc i"]
          peer_order.cmp_eq_trans [of "L ! j" "L ! Suc i" "L ! i"] peer_order.cmp_eq_sym [of "L ! i" "L ! Suc i"] i by auto
      then show ?thesis using IH Suc.prems False by simp
    qed
  qed
qed

text \<open>Rows of a partition that come before a row lie between the start of the partition and that of its peers.\<close>

lemma lower_positions:
  assumes "i < length L" "j < length L"
  shows "L ! j \<in> lower_rows oc (set (part (L ! i))) (L ! i) \<longleftrightarrow> start_of new_part i \<le> j \<and> j < start_of new_peers i"
proof (cases "j \<le> i")
  case True
  have "pc (L ! j) (L ! i) = 0 \<Longrightarrow> oc (L ! j) (L ! i) \<le> 0"
    using in_order [of j i] assms True peer_order.cmp_refl [of "L ! i"] by (cases "j = i") simp_all
  then have "pc (L ! j) (L ! i) = 0 \<and> oc (L ! j) (L ! i) < 0 \<longleftrightarrow>
      pc (L ! j) (L ! i) = 0 \<and> \<not> (pc (L ! j) (L ! i) = 0 \<and> oc (L ! j) (L ! i) = 0)"
    by (auto simp: le_less)
  moreover have "L ! j \<in> lower_rows oc (set (part (L ! i))) (L ! i) \<longleftrightarrow> pc (L ! j) (L ! i) = 0 \<and> oc (L ! j) (L ! i) < 0"
    using assms by (simp add: lower_rows_def part_def)
  ultimately show ?thesis unfolding peer_start [OF assms(1) True] unfolding part_start [OF assms(1) True] not_le by simp
next
  case False
  have "\<not> (pc (L ! j) (L ! i) = 0 \<and> oc (L ! j) (L ! i) < 0)"
  proof
    assume *: "pc (L ! j) (L ! i) = 0 \<and> oc (L ! j) (L ! i) < 0"
    then have "oc (L ! i) (L ! j) \<le> 0"
      using in_order [of i j] False assms part_order.cmp_eq_sym [of "L ! j" "L ! i"] by simp
    then show False using * peer_order.cmp_swap [of "L ! j" "L ! i"] assms by simp
  qed
  then show ?thesis using False start_of_le [of new_peers i] by (auto simp: lower_rows_def part_def)
qed

lemma lower_rows_positions:
  "i < length L \<Longrightarrow> lower_rows oc (set (part (L ! i))) (L ! i) = (!) L ` {start_of new_part i..<start_of new_peers i}"
proof -
  assume i: "i < length L"
  have small: "j < length L" if "j < start_of new_peers i" for j using that start_of_le [of new_peers i] i by linarith
  show ?thesis
  proof
    show "lower_rows oc (set (part (L ! i))) (L ! i) \<subseteq> (!) L ` {start_of new_part i..<start_of new_peers i}"
    proof
      fix s assume s: "s \<in> lower_rows oc (set (part (L ! i))) (L ! i)"
      then have "s \<in> set L" by (auto simp: lower_rows_def part_def)
      then obtain j where "s = L ! j" "j < length L" by (auto simp: in_set_conv_nth)
      then show "s \<in> (!) L ` {start_of new_part i..<start_of new_peers i}" using lower_positions [OF i] s by auto
    qed
    show "(!) L ` {start_of new_part i..<start_of new_peers i} \<subseteq> lower_rows oc (set (part (L ! i))) (L ! i)"
      using lower_positions [OF i] small by auto
  qed
qed

lemma card_lower_rows:
  "i < length L \<Longrightarrow> card (lower_rows oc (set (part (L ! i))) (L ! i)) = start_of new_peers i - start_of new_part i"
proof -
  assume i: "i < length L"
  have "inj_on ((!) L) {start_of new_part i..<start_of new_peers i}"
    by (rule inj_on_nth [OF once]) (use i start_of_le [of new_peers i] in auto)
  then show ?thesis unfolding lower_rows_positions [OF i] by (simp add: card_image)
qed

lemma card_lower_groups:
  "i < length L \<Longrightarrow> card (lower_groups oc (set (part (L ! i))) (L ! i)) = id_of new_peers i - id_of new_peers (start_of new_part i)"
proof (induction i)
  case 0
  then show ?case using lower_rows_positions [of 0] by (simp add: lower_groups_def)
next
  case (Suc i)
  have i: "i < length L" "L ! i \<in> set L" "L ! Suc i \<in> set L" using Suc.prems by simp_all
  let ?S = "set (part (L ! i))"
  show ?case
  proof (cases "new_part (Suc i)")
    case True
    then show ?thesis using lower_rows_positions [OF Suc.prems] by (simp add: lower_groups_def new_peers_def)
  next
    case False
    then have eq: "pc (L ! i) (L ! Suc i) = 0" by (simp add: new_part_def)
    have part: "part (L ! Suc i) = part (L ! i)"
      by (rule part_same [OF i(2), symmetric, THEN sym]) (use eq i part_order.cmp_eq_sym in \<open>auto simp: part_def\<close>)
    have le: "start_of new_part i \<le> i" "start_of new_part (Suc i) = start_of new_part i" using False start_of_le by simp_all
    have ids: "id_of new_peers (start_of new_part i) \<le> id_of new_peers i" by (rule id_of_mono [OF le(1)])
    show ?thesis
    proof (cases "new_peers (Suc i)")
      case peers: False
      then have "lower_rows oc ?S (L ! Suc i) = lower_rows oc ?S (L ! i)"
        using lower_rows_positions [OF Suc.prems] lower_rows_positions [OF i(1)] le part by simp
      then show ?thesis using Suc.IH [OF i(1)] part le peers by (simp add: lower_groups_def)
    next
      case peers: True
      have "start_of new_part i \<le> start_of new_peers i" by (rule start_of_finer) (simp add: new_peers_def)
      then have split: "{start_of new_part i..<Suc i} = {start_of new_part i..<start_of new_peers i} \<union> {start_of new_peers i..<Suc i}"
        using start_of_le [of new_peers i] by auto
      define C where "C s = {t \<in> ?S. oc s t = 0}" for s
      have in_S: "L ! j \<in> ?S" if "start_of new_part i \<le> j" "j \<le> i" for j
        using that part_start [OF i(1), of j] i by (auto simp: part_def)
      have peers_i: "C (L ! j) = C (L ! i)" if "start_of new_peers i \<le> j" "j \<le> i" for j
      proof -
        have j: "oc (L ! j) (L ! i) = 0" "L ! j \<in> set L" using that peer_start [OF i(1), of j] i(1) by auto
        have "oc (L ! j) t = 0 \<longleftrightarrow> oc (L ! i) t = 0" if "t \<in> set L" for t
          using j i that peer_order.cmp_eq_trans [of "L ! j" "L ! i" t] peer_order.cmp_eq_trans [of "L ! i" "L ! j" t]
            peer_order.cmp_eq_sym [of "L ! j" "L ! i"] by auto
        then show ?thesis by (auto simp: C_def part_def)
      qed
      have "lower_rows oc ?S (L ! Suc i) = (!) L ` {start_of new_part i..<Suc i}"
        using lower_rows_positions [OF Suc.prems] peers unfolding part le(2) by (simp only: start_of.simps if_True)
      then have "lower_groups oc ?S (L ! Suc i) = C ` ((!) L ` {start_of new_part i..<Suc i})"
        by (simp only: lower_groups_def C_def [abs_def])
      also have "\<dots> = insert (C (L ! i)) (lower_groups oc ?S (L ! i))"
      proof -
        have "C ` ((!) L ` {start_of new_peers i..<Suc i}) = {C (L ! i)}"
        proof -
          have "(\<lambda>j. C (L ! j)) ` {start_of new_peers i..<Suc i} = (\<lambda>j. C (L ! i)) ` {start_of new_peers i..<Suc i}"
            by (rule image_cong [OF refl]) (rule peers_i, simp_all)
          moreover have "{start_of new_peers i..<Suc i} \<noteq> {}" using start_of_le [of new_peers i] by simp
          ultimately show ?thesis unfolding image_image by (simp only: image_constant_conv if_False)
        qed
        then show ?thesis
          unfolding split image_Un lower_groups_def lower_rows_positions [OF i(1)] C_def by auto
      qed
      finally have groups: "lower_groups oc ?S (L ! Suc i) = insert (C (L ! i)) (lower_groups oc ?S (L ! i))" .
      have "C (L ! i) \<notin> lower_groups oc ?S (L ! i)"
      proof
        assume "C (L ! i) \<in> lower_groups oc ?S (L ! i)"
        then obtain s where s: "s \<in> lower_rows oc ?S (L ! i)" "C (L ! i) = {t \<in> ?S. oc s t = 0}" by (auto simp: lower_groups_def)
        have "L ! i \<in> C (L ! i)" using in_S [of i] le peer_order.cmp_refl [OF i(2)] by (simp add: C_def)
        then have "oc s (L ! i) = 0" unfolding s(2) by simp
        then show False using s(1) by (simp add: lower_rows_def)
      qed
      moreover have "finite (lower_groups oc ?S (L ! i))" by (simp add: lower_groups_def lower_rows_def)
      ultimately have "card (lower_groups oc ?S (L ! Suc i)) = card (lower_groups oc ?S (L ! i)) + 1" unfolding groups by simp
      then show ?thesis using Suc.IH [OF i(1)] part le peers ids by simp
    qed
  qed
qed

lemma position_ranks_spec:
  assumes "i < length L"
  defines "S \<equiv> set (part (L ! i))"
  shows "position_ranks new_part new_peers i =
    (i - start_of new_part i + 1, card (lower_rows oc S (L ! i)) + 1, card (lower_groups oc S (L ! i)) + 1)"
  unfolding position_ranks_def S_def card_lower_rows [OF assms(1)] card_lower_groups [OF assms(1)] ..

end

end
