(* ===== verification/Qe_Sort_Props.thy ===== *)
theory Qe_Sort_Props
  imports Qe_Sort
begin

text \<open>
  What \<open>ORDER BY\<close>, \<open>LIMIT\<close> and \<open>OFFSET\<close> return, on the definitions of \<open>Qe_Sort\<close>.
\<close>

section \<open>The order of the keys\<close>

definition no_nan_at :: "sort_key list \<Rightarrow> nat \<Rightarrow> bool" where
  "no_nan_at ks i \<longleftrightarrow> (\<forall>k \<in> set ks. key_is_string k \<or> loaded_num (key_values k ! i) \<noteq> F64_nan)"

lemma f64_comparator: "comparator f64_cmp (\<lambda>x. x \<noteq> F64_nan)"
proof
  show "f64_cmp a b < 0 \<longleftrightarrow> f64_cmp b a > 0" for a b by simp
  show "f64_cmp a c \<le> 0" if "b \<noteq> F64_nan" "f64_cmp a b \<le> 0" "f64_cmp b c \<le> 0" for a b c
    using that f64_not_lt_trans [of b a c] by simp
qed

lemma key_comparator:
  "comparator (\<lambda>a b. if key_desc k then - key_compare_at k (key_values k ! a) (key_values k ! b)
      else key_compare_at k (key_values k ! a) (key_values k ! b)) (no_nan_at [k])"
proof -
  have "comparator (\<lambda>a b. key_compare_at k (key_values k ! a) (key_values k ! b)) (no_nan_at [k])"
  proof (cases "key_is_string k")
    case True
    have "comparator qe_str8_compare (\<lambda>_. True)" by unfold_locales
    from comparator_subset [OF comparator_image [OF this, of "\<lambda>a. loaded_string (key_values k ! a)"], of "no_nan_at [k]"]
    show ?thesis using True by (simp add: key_compare_at_def)
  next
    case False
    from comparator_subset [OF comparator_image [OF f64_comparator, of "\<lambda>a. loaded_num (key_values k ! a)"], of "no_nan_at [k]"]
    show ?thesis using False by (simp add: key_compare_at_def no_nan_at_def)
  qed
  then show ?thesis using comparator_reverse [of _ "no_nan_at [k]"] by (cases "key_desc k") simp_all
qed

interpretation sort_order: comparator "qe_sort_rows_compare_ctx ks" "no_nan_at ks" for ks
proof (induction ks)
  case Nil
  show ?case using comparator_trivial by simp
next
  case (Cons k ks)
  have eq: "qe_sort_rows_compare_ctx (k # ks) = (\<lambda>a b.
      if (if key_desc k then - key_compare_at k (key_values k ! a) (key_values k ! b)
          else key_compare_at k (key_values k ! a) (key_values k ! b)) \<noteq> 0
      then (if key_desc k then - key_compare_at k (key_values k ! a) (key_values k ! b)
          else key_compare_at k (key_values k ! a) (key_values k ! b))
      else qe_sort_rows_compare_ctx ks a b)"
    by (intro ext) (simp add: Let_def)
  have ok: "no_nan_at (k # ks) = (\<lambda>a. no_nan_at [k] a \<and> no_nan_at ks a)" by (auto simp: no_nan_at_def fun_eq_iff)
  show ?case unfolding eq ok by (rule comparator_then [OF key_comparator Cons])
qed

section \<open>The best rows\<close>

lemma less_def: "qe_sort_rows_less ks = (\<lambda>a b. qe_sort_rows_compare_ctx ks (id a) (id b) < 0)"
  by (simp add: fun_eq_iff qe_sort_rows_less_def)

lemma less_order: "\<forall>i < n. no_nan_at ks i \<Longrightarrow> before_order (qe_order_before (qe_sort_rows_less ks)) {0..<n}"
  unfolding less_def by (rule sort_order.before_order_cmp) simp

interpretation positions: before_order "qe_order_before (qe_sort_rows_less ks)" "{i. no_nan_at ks i}" for ks
  unfolding less_def by (rule sort_order.before_order_cmp) simp

lemma best_is_stable:
  "\<forall>i < n. no_nan_at ks i \<Longrightarrow> before_order.best_rows (qe_order_before (qe_sort_rows_less ks)) k {0..<n} xs \<Longrightarrow>
   xs = take k (sort_by (qe_sort_rows_compare_ctx ks) [0..<n])"
  using sort_order.best_rows_stable [of n ks id k xs] unfolding less_def by simp

lemma native_before_eq:
  "no_nan_at ks a \<Longrightarrow> no_nan_at ks b \<Longrightarrow> qe_top_k_native_before ks a b = qe_order_before (qe_sort_rows_less ks) a b"
  using sort_order.order_before_cmp [of ks id a b] by (simp add: less_def qe_top_k_native_before_def Let_def)

lemma native_order:
  assumes "\<forall>i < n. no_nan_at ks i"
  shows "before_order (qe_top_k_native_before ks) {0..<n}"
proof -
  note o = less_order [OF assms]
  have eq: "qe_top_k_native_before ks a b = qe_order_before (qe_sort_rows_less ks) a b" if "a \<in> {0..<n}" "b \<in> {0..<n}" for a b
    using native_before_eq assms that by simp
  show ?thesis
  proof
    show "\<not> qe_top_k_native_before ks a a" if "a \<in> {0..<n}" for a
      using before_order.irrefl [OF o that] unfolding eq [OF that that] .
    show "qe_top_k_native_before ks a c"
      if P: "a \<in> {0..<n}" "b \<in> {0..<n}" "c \<in> {0..<n}" and "qe_top_k_native_before ks a b" "qe_top_k_native_before ks b c" for a b c
      using before_order.trans [OF o P] that(4,5) unfolding eq [OF P(1,2)] eq [OF P(2,3)] eq [OF P(1,3)] by blast
    show "qe_top_k_native_before ks a b \<or> qe_top_k_native_before ks b a" if P: "a \<in> {0..<n}" "b \<in> {0..<n}" "a \<noteq> b" for a b
      using before_order.total [OF o P] unfolding eq [OF P(1,2)] eq [OF P(2,1)] .
  qed
qed

lemma native_is_stable:
  assumes "\<forall>i < n. no_nan_at ks i" "before_order.best_rows (qe_top_k_native_before ks) k {0..<n} xs"
  shows "xs = take k (sort_by (qe_sort_rows_compare_ctx ks) [0..<n])"
proof -
  let ?s = "sort_by (qe_sort_rows_compare_ctx ks) [0..<n]"
  note o = native_order [OF assms(1)]
  have "sorted_wrt (qe_order_before (qe_sort_rows_less ks)) ?s"
    using sort_order.sort_by_sorted_before [of 0 n ks id] assms(1) unfolding less_def by simp
  then have "sorted_wrt (qe_top_k_native_before ks) ?s"
    by (rule sorted_wrt_mono_rel [rotated]) (use native_before_eq assms(1) in auto)
  then show ?thesis
    using before_order.best_rows_unique [OF o assms(2)] before_order.best_rows_take [OF o, of ?s k] by simp
qed

text \<open>The tests of the scans agree with the order, for a position behind the heap's root.\<close>

lemma numeric_displaces_before:
  "\<not> key_is_string k \<Longrightarrow> rt < i \<Longrightarrow> numeric_displaces k i rt = qe_order_before (qe_sort_rows_less [k]) i rt"
  by (simp add: order_before_later qe_sort_rows_less_def numeric_displaces_def key_compare_at_def Let_def f64_cmp_def
      f64_lt_asym)

lemma native_displaces_before:
  assumes "qe_top_k_native_supported ks" "rt < i"
  shows "native_displaces ks i rt = qe_top_k_native_before ks i rt"
proof -
  obtain k rest where ks: "ks = k # rest" "\<not> key_is_string k"
    using assms(1) by (cases ks) (auto simp: qe_top_k_native_supported_def)
  show ?thesis
    using ks assms(2)
    by (cases rest) (auto simp: native_displaces_def qe_top_k_native_before_def key_compare_at_def Let_def)
qed

lemma top_k_order:
  assumes "\<forall>i < n. no_nan_at ks i" "0 < keep" "keep < n"
  shows "cpu_order senv ks n (Some keep) = take keep (sort_by (qe_sort_rows_compare_ctx ks) [0..<n])"
proof -
  let ?b = "qe_order_before (qe_sort_rows_less ks)"
  have tasks: "0 < top_k_tasks senv n keep" by (simp add: top_k_tasks_def)
  note o = less_order [OF assms(1)]
  have "qe_order_select_top ?b [0..<n] keep = take keep (sort_by (qe_sort_rows_compare_ctx ks) [0..<n])"
    using before_order.select_top_best [OF o, of "[0..<n]" keep] assms(2) by (intro best_is_stable assms(1)) simp
  moreover have "qe_sort_rows_top_k_parallel senv ks n keep = take keep (sort_by (qe_sort_rows_compare_ctx ks) [0..<n])"
  proof (rule best_is_stable [OF assms(1)])
    show "before_order.best_rows ?b keep {0..<n} (qe_sort_rows_top_k_parallel senv ks n keep)"
      unfolding qe_sort_rows_top_k_parallel_def Let_def
    proof (rule before_order.select_top_parallel_best [OF o covers_divide [OF tasks] order_refl assms(2)])
      show "(case ks of [k] \<Rightarrow> if \<not> key_is_string k then numeric_displaces k else qe_sort_rows_less ks | _ \<Rightarrow> qe_sort_rows_less ks) i rt =
          ?b i rt" if "rt < i" "i < n" for i rt
        using that by (auto simp: numeric_displaces_before order_before_later split: list.split)
    qed
  qed
  moreover have "qe_sort_rows_top_k_native senv ks n keep = take keep (sort_by (qe_sort_rows_compare_ctx ks) [0..<n])"
    if "qe_top_k_native_supported ks"
  proof (rule native_is_stable [OF assms(1)])
    show "before_order.best_rows (qe_top_k_native_before ks) keep {0..<n} (qe_sort_rows_top_k_native senv ks n keep)"
      unfolding qe_sort_rows_top_k_native_def
      by (rule before_order.select_top_native_best [OF native_order [OF assms(1)] covers_divide [OF tasks] order_refl assms(2)])
        (use assms(3) native_displaces_before [OF that] in auto)
  qed
  ultimately show ?thesis by (simp add: cpu_order_def Let_def)
qed

section \<open>The network\<close>

lemma padded_from_power: "\<exists>m. padded_from n (2 ^ k) = 2 ^ m \<and> n \<le> 2 ^ m"
proof (induction "n - 2 ^ k" arbitrary: k rule: less_induct)
  case less
  show ?case
  proof (cases "2 ^ k < n")
    case True
    then have "n - 2 ^ Suc k < n - 2 ^ k" using zero_less_power [of "2::nat" k] by (intro diff_less_mono2) simp_all
    from less [OF this] show ?thesis using True by (subst padded_from.simps) (simp add: mult.commute)
  next
    case False
    then have "padded_from n (2 ^ k) = 2 ^ k" by (subst padded_from.simps) simp
    then show ?thesis using False by (intro exI [of _ k]) simp
  qed
qed

lemma stages_from_power: "s \<le> m \<Longrightarrow> stages_from (2 ^ m) s = m"
proof (induction "m - s" arbitrary: s)
  case 0
  then show ?case by (subst stages_from.simps) simp
next
  case (Suc d)
  then have "s < m" by simp
  then have "stages_from (2 ^ m) s = stages_from (2 ^ m) (s + 1)" by (subst stages_from.simps) simp
  then show ?case using Suc by simp
qed

lemma front_filter: "sorted_wrt (\<lambda>x y. Q y \<longrightarrow> Q x) xs \<Longrightarrow> xs = filter Q xs @ filter (\<lambda>x. \<not> Q x) xs"
proof (induction xs)
  case (Cons x xs)
  show ?case
  proof (cases "Q x")
    case False
    then have "\<forall>y \<in> set xs. \<not> Q y" using Cons.prems by auto
    then have "filter Q xs = []" "filter (\<lambda>x. \<not> Q x) xs = xs" by (simp_all add: filter_empty_conv filter_id_conv)
    then show ?thesis using False by simp
  qed (use Cons in simp)
qed simp

lemma sort_keys_length:
  "k \<in> set (sort_keys env rows nodes m) \<Longrightarrow> \<not> key_is_fuzzy k \<Longrightarrow> length (key_values k) = length (rs_rows rows)"
  by (induction env rows nodes m rule: sort_keys.induct)
    (auto simp: fuzzy_key_def column_key_def qe_gather_string_column_def qe_gather_numeric_column_def Let_def
      split: if_splits option.splits)

lemma gpu_keys_less_compare:
  assumes "\<forall>k \<in> set ks. \<not> key_is_string k \<and> put (loaded_num (key_values k ! i)) = loaded_num (key_values k ! i) \<and>
      put (loaded_num (key_values k ! j)) = loaded_num (key_values k ! j)"
    "no_nan_at ks i" "no_nan_at ks j"
  shows "gpu_keys_less (map key_desc ks) (map (\<lambda>k. put (loaded_num (key_values k ! i))) ks) (map (\<lambda>k. put (loaded_num (key_values k ! j))) ks) =
    (qe_sort_rows_compare_ctx ks i j < 0)"
  using assms
proof (induction ks)
  case (Cons k ks)
  let ?a = "loaded_num (key_values k ! i)" and ?b = "loaded_num (key_values k ! j)"
  have nan: "?a \<noteq> F64_nan" "?b \<noteq> F64_nan" using Cons.prems by (auto simp: no_nan_at_def)
  have IH: "gpu_keys_less (map key_desc ks) (map (\<lambda>k. put (loaded_num (key_values k ! i))) ks) (map (\<lambda>k. put (loaded_num (key_values k ! j))) ks) =
    (qe_sort_rows_compare_ctx ks i j < 0)"
    using Cons by (simp add: no_nan_at_def)
  have "f64_eq ?a ?b \<longleftrightarrow> f64_cmp ?a ?b = 0"
    using f64_linear [OF nan] nan by (auto simp: f64_eq_def f64_cmp_def)
  then show ?case using Cons.prems(1) IH f64_lt_asym [of ?a ?b]
    by (auto simp: key_compare_at_def Let_def f64_cmp_def)
qed simp

text \<open>The entries after the network: those of the rows in a sorted order, the padding behind them.\<close>

lemma gpu_entries_order:
  fixes rows :: "joined_row list"
  defines "n \<equiv> length rows"
  assumes "\<forall>k \<in> set ks. \<not> key_is_string k \<and> length (key_values k) = n" "\<forall>i < n. no_nan_at ks i"
  shows "\<exists>order. take n (bitonic_sort (gpu_less_than (map key_desc ks)) (stages_from (padded_from n 2) 0) (gpu_entries senv ks rows)) =
      map (\<lambda>i. \<lparr>g_valid = True, g_keys = map (\<lambda>k. loaded_num (key_values k ! i)) ks, g_rows = rows ! i\<rparr>) order \<and>
    mset order = mset [0..<n] \<and> sorted_by (qe_sort_rows_compare_ctx ks) order"
proof -
  let ?cols = "map (\<lambda>k. map loaded_num (key_values k)) ks"
  let ?narrow = "list_all (list_all (\<lambda>v. f64_eq (se_narrow senv v) v)) ?cols"
  define put where "put = (if ?narrow then se_narrow senv else id)"
  let ?cmp = "qe_sort_rows_compare_ctx ks"
  obtain m where m: "padded_from n 2 = 2 ^ m" "n \<le> 2 ^ m" using padded_from_power [of n 1] by auto
  define e where "e i = (if i < n then \<lparr>g_valid = True, g_keys = map (\<lambda>vs. put (vs ! i)) ?cols, g_rows = rows ! i\<rparr>
      else \<lparr>g_valid = False, g_keys = map (\<lambda>vs. put (F64_num 0)) ?cols, g_rows = []\<rparr>)" for i
  define lt where "lt i j = gpu_less_than (map key_desc ks) (e i) (e j)" for i j
  define idx where "idx = bitonic_sort lt m [0..<2 ^ m]"
  have entries: "gpu_entries senv ks rows = map e [0..<2 ^ m]"
    unfolding gpu_entries_def Let_def e_def put_def n_def [symmetric] m(1) by simp
  let ?sorted = "take n (bitonic_sort (gpu_less_than (map key_desc ks)) (stages_from (padded_from n 2) 0) (gpu_entries senv ks rows))"
  have sorted_e: "?sorted = take n (map e idx)"
    unfolding entries m(1) stages_from_power [OF le0] bitonic_sort_map
    unfolding idx_def lt_def [abs_def] by simp
  have put: "put (loaded_num (key_values k ! i)) = loaded_num (key_values k ! i)" if "k \<in> set ks" "i < n" for k i
  proof (cases ?narrow)
    case True
    then have "\<forall>v \<in> set (key_values k). f64_eq (se_narrow senv (loaded_num v)) (loaded_num v)"
      using that(1) by (auto simp: list_all_iff)
    moreover have "key_values k ! i \<in> set (key_values k)" using assms(2) that by (simp add: nth_mem)
    ultimately show ?thesis using True by (auto simp: f64_eq_def put_def)
  qed (simp add: put_def)
  have keys: "map (\<lambda>vs. put (vs ! i)) ?cols = map (\<lambda>k. put (loaded_num (key_values k ! i))) ks" if "i < n" for i
    using assms(2) that by simp
  have lt: "lt i j = (if i < n then j < n \<longrightarrow> ?cmp i j < 0 else False)" for i j
  proof (cases "i < n \<and> j < n")
    case True
    then have "lt i j = gpu_keys_less (map key_desc ks) (map (\<lambda>k. put (loaded_num (key_values k ! i))) ks)
        (map (\<lambda>k. put (loaded_num (key_values k ! j))) ks)"
      using True by (simp only: lt_def e_def gpu_less_than_def keys gpu_row.simps if_True if_False simp_thms)
    also have "\<dots> = (?cmp i j < 0)"
      by (rule gpu_keys_less_compare) (use assms(2,3) put True in auto)
    finally show ?thesis using True by simp
  qed (auto simp: lt_def e_def gpu_less_than_def)
  have ok: "i < n \<Longrightarrow> no_nan_at ks i" for i using assms(3) by simp
  have asym: "\<not> lt y x" if "lt x y" for x y
  proof
    assume yx: "lt y x"
    have "x < n" "y < n" using that yx by (simp_all add: lt split: if_splits)
    then show False using that yx sort_order.cmp_swap [OF ok ok, of x y] by (simp add: lt)
  qed
  have neg: "\<not> lt z x" if "\<not> lt y x" "\<not> lt z y" for x y z
  proof
    assume zx: "lt z x"
    then have z: "z < n" by (simp add: lt split: if_splits)
    then have y: "y < n" "\<not> ?cmp z y < 0" using that(2) by (simp_all add: lt)
    then have x: "x < n" "\<not> ?cmp y x < 0" using that(1) by (simp_all add: lt)
    have "?cmp x y \<le> 0" "?cmp y z \<le> 0"
      using x y z sort_order.cmp_le_ge [OF ok ok, of x y] sort_order.cmp_le_ge [OF ok ok, of y z] by simp_all
    then have "?cmp x z \<le> 0" using sort_order.cmp_trans [OF ok ok ok, of x y z] x y z by simp
    then show False using zx z x sort_order.cmp_le_ge [OF ok ok, of x z] by (simp add: lt)
  qed
  have idx: "mset idx = mset [0..<2 ^ m]" "sorted_wrt (\<lambda>x y. \<not> lt y x) idx"
    using bitonic_sort_sorts [of "[0..<2 ^ m]" m lt, OF _ asym neg] unfolding idx_def by simp_all
  have "sorted_wrt (\<lambda>x y. y < n \<longrightarrow> x < n) idx"
    by (rule sorted_wrt_mono_rel [OF _ idx(2)]) (auto simp: lt split: if_splits)
  from front_filter [OF this] have split: "idx = filter (\<lambda>i. i < n) idx @ filter (\<lambda>i. \<not> i < n) idx" .
  let ?order = "filter (\<lambda>i. i < n) idx"
  have mset: "mset ?order = mset [0..<n]"
  proof -
    have "mset ?order = mset (filter (\<lambda>i. i < n) [0..<2 ^ m])" using idx(1) by (metis mset_filter)
    also have "filter (\<lambda>i. i < n) [0..<2 ^ m] = [0..<n]"
    proof -
      have "[0..<2 ^ m] = [0..<n] @ [n..<2 ^ m]" using m(2) by (metis bot_nat_0.extremum le_Suc_ex upt_add_eq_append)
      then show ?thesis by (simp add: filter_empty_conv filter_id_conv)
    qed
    finally show ?thesis .
  qed
  then have len: "length ?order = n" by (metis length_upt mset_eq_length diff_zero)
  have set: "set ?order = {0..<n}" using mset by (metis mset_eq_setD set_upt)
  have take: "take n idx = ?order" using split len by (metis append_eq_conv_conj)
  have "?sorted = map e ?order" using sorted_e take by (simp add: take_map)
  also have "\<dots> = map (\<lambda>i. \<lparr>g_valid = True, g_keys = map (\<lambda>k. loaded_num (key_values k ! i)) ks, g_rows = rows ! i\<rparr>) ?order"
  proof (rule map_cong [OF refl])
    fix i assume "i \<in> set ?order"
    then have "i < n" by simp
    then show "e i = \<lparr>g_valid = True, g_keys = map (\<lambda>k. loaded_num (key_values k ! i)) ks, g_rows = rows ! i\<rparr>"
      using keys put by (simp add: e_def)
  qed
  finally have rows: "?sorted = map (\<lambda>i. \<lparr>g_valid = True, g_keys = map (\<lambda>k. loaded_num (key_values k ! i)) ks, g_rows = rows ! i\<rparr>) ?order" .
  have "sorted_wrt (\<lambda>x y. \<not> lt y x) ?order" using idx(2) by (rule sorted_wrt_filter)
  then have "sorted_by ?cmp ?order" unfolding sorted_by_def
  proof (rule sorted_wrt_mono_rel [rotated])
    show "?cmp x y \<le> 0" if "x \<in> set ?order" "y \<in> set ?order" "\<not> lt y x" for x y
      using that sort_order.cmp_le_ge [OF ok ok, of x y] by (simp add: lt)
  qed
  then show ?thesis using rows mset by blast
qed

lemma gpu_order:
  assumes "\<forall>k \<in> set ks. \<not> key_is_string k \<and> length (key_values k) = length rows" "\<forall>i < length rows. no_nan_at ks i"
  shows "\<exists>order. gpu_sorted_rows senv ks rows = map ((!) rows) order \<and> mset order = mset [0..<length rows] \<and>
    sorted_by (qe_sort_rows_compare_ctx ks) order"
  using gpu_entries_order [OF assms, of senv] unfolding gpu_sorted_rows_def by (auto simp: comp_def)

section \<open>ORDER BY\<close>

lemma qe_sort_rows_run:
  "1 < length (rs_rows rows) \<Longrightarrow> length (rs_tables rows) \<le> 4 \<Longrightarrow> sort_keys env rows (ir_children ob) 0 = ks \<Longrightarrow> ks \<noteq> [] \<Longrightarrow>
   qe_sort_rows env senv rows (Some ob) hints =
     (if list_ex key_is_string ks \<or> list_ex key_is_fuzzy ks \<or> (0 < top_k hints \<and> top_k hints < length (rs_rows rows)) \<or>
         (gpu_min_rows hints > 0 \<and> length (rs_rows rows) < gpu_min_rows hints)
      then reorder (cpu_order senv ks (length (rs_rows rows))
             (if 0 < top_k hints \<and> top_k hints < length (rs_rows rows) then Some (top_k hints) else None)) rows
      else case se_packed senv ks of
          Some order \<Rightarrow> reorder order rows
        | None \<Rightarrow> if \<not> se_kernel senv then rows else rows\<lparr>rs_rows := gpu_sorted_rows senv ks (rs_rows rows)\<rparr>)"
  unfolding qe_sort_rows_def Let_def by (simp split: option.split)

text \<open>C8: \<open>qe_sort_rows\<close> puts the rows in the order of the \<open>ORDER BY\<close> columns, each in its direction,
  the first one deciding: on the CPU, by the sorting network of the GPU, and when only the best rows are
  asked for exactly the first ones of the stable sort, whatever the number of threads that share the work.
  (Keys are not NaN, there are at most four tables, and keys are not packed into one.)\<close>

theorem qe_sort_rows_order:
  assumes "1 < length (rs_rows rows)" "length (rs_tables rows) \<le> 4" "sort_keys env rows (ir_children ob) 0 \<noteq> []"
    "\<forall>i < length (rs_rows rows). no_nan_at (sort_keys env rows (ir_children ob) 0) i"
    "qsort_ok (se_qsort senv)" "se_packed senv = (\<lambda>_. None)" "se_kernel senv"
  shows "\<exists>order. rs_rows (qe_sort_rows env senv rows (Some ob) hints) = map ((!) (rs_rows rows)) order \<and>
    sorted_by (qe_sort_rows_compare_ctx (sort_keys env rows (ir_children ob) 0)) order \<and>
    (if 0 < top_k hints \<and> top_k hints < length (rs_rows rows)
     then order = take (top_k hints) (sort_by (qe_sort_rows_compare_ctx (sort_keys env rows (ir_children ob) 0)) [0..<length (rs_rows rows)])
     else mset order = mset [0..<length (rs_rows rows)])"
proof -
  let ?n = "length (rs_rows rows)" and ?ks = "sort_keys env rows (ir_children ob) 0"
  let ?cmp = "qe_sort_rows_compare_ctx ?ks" and ?top = "0 < top_k hints \<and> top_k hints < ?n"
  have ok: "\<forall>x \<in> set [0..<?n]. no_nan_at ?ks x" using assms(4) by simp
  have stable: "sorted_by ?cmp (sort_by ?cmp [0..<?n])" by (rule sort_order.sorted_sort_by [OF ok])
  have whole: "mset (se_qsort senv ?cmp [0..<?n]) = mset [0..<?n] \<and> sorted_by ?cmp (se_qsort senv ?cmp [0..<?n])"
  proof -
    have "comparator ?cmp (no_nan_at ?ks)" by unfold_locales
    then have "comparator ?cmp (\<lambda>x. x \<in> set [0..<?n])" by (rule comparator_subset) (use ok in blast)
    then show ?thesis using assms(5) unfolding qsort_ok_def by blast
  qed
  show ?thesis
  proof (cases "list_ex key_is_string ?ks \<or> list_ex key_is_fuzzy ?ks \<or> ?top \<or> (gpu_min_rows hints > 0 \<and> ?n < gpu_min_rows hints)")
    case True
    then have run: "rs_rows (qe_sort_rows env senv rows (Some ob) hints) =
        map ((!) (rs_rows rows)) (cpu_order senv ?ks ?n (if ?top then Some (top_k hints) else None))"
      unfolding qe_sort_rows_run [OF assms(1,2) refl assms(3)] if_P [OF True] by (simp add: reorder_def)
    show ?thesis
    proof (cases ?top)
      case t: True
      have "sorted_by ?cmp (take (top_k hints) (sort_by ?cmp [0..<?n]))"
        using stable unfolding sorted_by_def by (rule sorted_wrt_take)
      then show ?thesis using run top_k_order [of ?n ?ks "top_k hints" senv] assms(4) t by auto
    next
      case False
      have "rs_rows (qe_sort_rows env senv rows (Some ob) hints) = map ((!) (rs_rows rows)) (se_qsort senv ?cmp [0..<?n])"
        using run False by (simp add: cpu_order_def)
      then show ?thesis using whole False by (metis (full_types))
    qed
  next
    case False
    then have "rs_rows (qe_sort_rows env senv rows (Some ob) hints) = gpu_sorted_rows senv ?ks (rs_rows rows)"
      unfolding qe_sort_rows_run [OF assms(1,2) refl assms(3)] if_not_P [OF False] using assms(6,7) by simp
    moreover have "\<forall>k \<in> set ?ks. \<not> key_is_string k \<and> length (key_values k) = ?n"
      using False sort_keys_length by (auto simp: list_ex_iff)
    ultimately show ?thesis using gpu_order [of ?ks "rs_rows rows" senv] assms(4) False by auto
  qed
qed

section \<open>Materialized results\<close>

definition materialized_keys :: "materialized \<Rightarrow> ir_node list \<Rightarrow> sort_key list" where
  "materialized_keys m nodes =
     concat (map (\<lambda>node. case find (\<lambda>c. str8_match (ac_name c) (ir_value node) match_exact) (m_columns m) of
         None \<Rightarrow> []
       | Some col \<Rightarrow> [\<lparr>key_desc = (case ir_children node of c # _ \<Rightarrow> ir_type c = IrDescending | [] \<Rightarrow> False),
           key_is_string = (ac_type col = ColString8), key_is_fuzzy = False, key_values = ac_values col\<rparr>]) nodes)"

lemma materialized_less:
  "no_nan_at (materialized_keys m nodes) a \<Longrightarrow> no_nan_at (materialized_keys m nodes) b \<Longrightarrow>
   qe_materialized_row_less m nodes a b = qe_sort_rows_less (materialized_keys m nodes) a b"
proof (induction m nodes a b rule: qe_materialized_row_less.induct)
  case (1 m a b)
  then show ?case by (simp add: materialized_keys_def qe_sort_rows_less_def)
next
  case (2 m node nodes a b)
  show ?case
  proof (cases "find (\<lambda>c. str8_match (ac_name c) (ir_value node) match_exact) (m_columns m)")
    case None
    then have "materialized_keys m (node # nodes) = materialized_keys m nodes" by (simp add: materialized_keys_def)
    then show ?thesis using 2 None by simp
  next
    case (Some col)
    let ?k = "\<lparr>key_desc = (case ir_children node of c # _ \<Rightarrow> ir_type c = IrDescending | [] \<Rightarrow> False),
           key_is_string = (ac_type col = ColString8), key_is_fuzzy = False, key_values = ac_values col\<rparr>"
    have keys: "materialized_keys m (node # nodes) = ?k # materialized_keys m nodes"
      using Some by (simp add: materialized_keys_def)
    let ?x = "loaded_num (ac_values col ! a)" and ?y = "loaded_num (ac_values col ! b)"
    have rest: "no_nan_at (materialized_keys m nodes) a" "no_nan_at (materialized_keys m nodes) b"
      using "2.prems" unfolding keys by (simp_all add: no_nan_at_def)
    show ?thesis
    proof (cases "ac_type col = ColString8")
      case True
      then show ?thesis
        using "2.IH"(2) [OF Some refl True refl _ rest] Some
        unfolding keys qe_sort_rows_less_def by (auto simp: key_compare_at_def Let_def)
    next
      case False
      then have nan: "?x \<noteq> F64_nan" "?y \<noteq> F64_nan" using "2.prems" unfolding keys by (simp_all add: no_nan_at_def)
      have eq: "f64_eq ?x ?y \<longleftrightarrow> f64_cmp ?x ?y = 0"
        using f64_linear [OF nan] nan by (auto simp: f64_eq_def f64_cmp_def)
      show ?thesis
        using "2.IH"(3) [OF Some refl False refl refl _ rest] Some False eq f64_lt_asym [of ?x ?y]
        unfolding keys qe_sort_rows_less_def by (auto simp: key_compare_at_def Let_def f64_cmp_def)
    qed
  qed
qed

text \<open>C11: The sorting network of the shaders, dispatched stage by stage and pass by pass, sorts every array of
  \<open>2 ^ m\<close> entries: it is the sorting function.\<close>

theorem bitonic_network_sorts:
  assumes "length a = 2 ^ m"
  shows "bitonic_sort (<) m a = sort (a :: 'a :: linorder list)"
proof (rule properties_for_sort [symmetric])
  show "mset (bitonic_sort (<) m a) = mset a" by (rule bitonic_sort_sorts(1) [OF assms]) auto
  have "sorted_wrt (\<lambda>x y. \<not> y < x) (bitonic_sort (<) m a)" by (rule bitonic_sort_sorts(2) [OF assms]) auto
  then show "sorted (bitonic_sort (<) m a)" by (simp add: not_less)
qed

lemma bitonic_network_sorts_witness: "bitonic_sort (<) 2 [3, 1, 4, 1 :: nat] = [1, 1, 3, 4]"
  using bitonic_network_sorts [of "[3, 1, 4, 1 :: nat]" 2] by simp

section \<open>LIMIT\<close>

lemma before_order_cong:
  assumes "before_order g P" "\<And>a b. a \<in> P \<Longrightarrow> b \<in> P \<Longrightarrow> f a b = g a b"
  shows "before_order f P"
proof
  show "\<not> f a a" if "a \<in> P" for a
    using before_order.irrefl [OF assms(1) that] assms(2) [OF that that] by simp
  show "f a c" if P: "a \<in> P" "b \<in> P" "c \<in> P" "f a b" "f b c" for a b c
    using before_order.trans [OF assms(1) P(1-3)] P(4,5) assms(2) [OF P(1,2)] assms(2) [OF P(2,3)] assms(2) [OF P(1,3)] by blast
  show "f a b \<or> f b a" if P: "a \<in> P" "b \<in> P" "a \<noteq> b" for a b
    using before_order.total [OF assms(1) P] assms(2) [OF P(1,2)] assms(2) [OF P(2,1)] by blast
qed

lemma materialized_order:
  assumes "\<forall>i < n. no_nan_at (materialized_keys m nodes) i"
  shows "before_order (qe_order_before (qe_materialized_row_less m nodes)) {0..<n}"
  by (rule before_order_cong [OF less_order [OF assms]])
    (use assms materialized_less in \<open>simp add: qe_order_before_def\<close>)

lemma materialized_top:
  assumes "\<forall>i < n. no_nan_at (materialized_keys m nodes) i" "0 < k"
  shows "qe_order_select_top (qe_order_before (qe_materialized_row_less m nodes)) [0..<n] k =
      take k (qe_order_merge_sort (qe_order_before (qe_materialized_row_less m nodes)) [0..<n])"
    "length (qe_order_merge_sort (qe_order_before (qe_materialized_row_less m nodes)) [0..<n]) = n"
proof -
  let ?b = "qe_order_before (qe_materialized_row_less m nodes)"
  let ?full = "qe_order_merge_sort ?b [0..<n]"
  note o = materialized_order [OF assms(1)]
  note full = before_order.sorted_merge_sort [OF o, of "[0..<n]", simplified]
  have set: "set ?full = {0..<n}" using full(2) by (metis mset_eq_setD set_upt mset_upt)
  show "length ?full = n" using full(2) by (metis length_upt mset_eq_length mset_upt diff_zero)
  have "before_order.best_rows ?b k {0..<n} (qe_order_select_top ?b [0..<n] k)"
    using before_order.select_top_best [OF o, of "[0..<n]" k] assms(2) by simp
  then show "qe_order_select_top ?b [0..<n] k = take k ?full"
    using before_order.best_rows_unique [OF o] before_order.best_rows_take [OF o full(1), of k] set by simp
qed

lemma unat_u64_less: "unat (w :: u64) < 2 ^ 64"
  using unsigned_less [of w] by simp

lemma unat_add_commuted: "unat ((a :: u64) + b) = (unat b + unat a) mod 2 ^ 64"
  by (simp only: unat_word_ariths add.commute [of "unat b"]) simp

lemma keep_count:
  "optimizer_limit_keep_count off (Some l) = Some ((node_u64 off 0 + node_u64 (Some l) 0) mod 2 ^ 64)"
proof (cases off)
  case None
  then show ?thesis
    by (simp only: optimizer_limit_keep_count_def node_u64_def option.case add_0 add_0_right mod_less [OF unat_u64_less])
next
  case (Some node)
  then show ?thesis
    by (simp only: optimizer_limit_keep_count_def node_u64_def option.case unat_add_commuted)
qed

lemma node_u64_limit: "node_u64 (Some l) x = node_u64 (Some l) 0" "node_u64 (Some l) x < 2 ^ 64"
  by (simp_all only: node_u64_def option.case unat_u64_less)

lemma limited_materialized:
  assumes "kept = (if node_u64 off 0 \<ge> n then 0 else min (n - node_u64 off 0) (node_u64 (Some l) 0))"
  shows "plan_apply_limit off (Some l) (Materialized (m\<lparr>m_columns := map f cols, m_count := n\<rparr>)) =
    Materialized (m\<lparr>m_columns := map (\<lambda>c. skip_rows (node_u64 off 0) kept (f c)) cols, m_count := kept\<rparr>)"
  using assms by (simp add: Let_def comp_def node_u64_limit(1) [of l "18446744073709551615"])

lemma skip_picked:
  "off + n = k \<Longrightarrow> k < length order \<Longrightarrow>
   skip_rows off n (pick_rows (take k order) c) = skip_rows off n (pick_rows order c)"
  by (cases "ac_null c") (simp_all add: skip_rows_def pick_rows_def take_map drop_map drop_take min_def)

text \<open>C9: Over a materialized result a top-n plan returns what sorting everything and applying
  \<open>LIMIT\<close> and \<open>OFFSET\<close> returns, equal rows in the same order, as long as their sum is below \<open>2 ^ 64\<close>.\<close>

theorem plan_top_n_is_limited_sort:
  assumes "\<forall>i < m_count m. no_nan_at (materialized_keys m (ir_children ob)) i"
    "node_u64 off 0 + node_u64 (Some l) 0 < 2 ^ 64"
  shows "plan_execute_top_n env senv min_rows None (Materialized m) (Some ob) off (Some l) =
    plan_apply_limit off (Some l) (plan_sort env senv \<lparr>top_k = 0, gpu_min_rows = min_rows\<rparr> (Some ob) (Materialized m))"
proof -
  let ?off = "node_u64 off 0" and ?lim = "node_u64 (Some l) 0"
  let ?hints = "\<lparr>top_k = ?off + ?lim, gpu_min_rows = min_rows\<rparr>"
  note lim = node_u64_limit(1) [of l "2 ^ 64 - 1"]
  have hints: "optimizer_sort_hints min_rows True off (Some l) = ?hints"
    unfolding optimizer_sort_hints_def keep_count using assms(2) by simp
  show ?thesis
  proof (cases "0 < ?off + ?lim \<and> ?off + ?lim < m_count m \<and> 1 < m_count m")
    case True
    note top = materialized_top [OF assms(1), of "?off + ?lim"]
    let ?b = "qe_order_before (qe_materialized_row_less m (ir_children ob))"
    let ?full = "qe_order_merge_sort ?b [0..<m_count m]"
    have k: "?off + ?lim < length ?full" using True top(2) by simp
    have "qe_sort_materialized m (Some ob) ?hints =
        m\<lparr>m_columns := map (pick_rows (take (?off + ?lim) ?full)) (m_columns m), m_count := ?off + ?lim\<rparr>"
      using True top by (simp add: qe_sort_materialized_def Let_def)
    moreover have "qe_sort_materialized m (Some ob) \<lparr>top_k = 0, gpu_min_rows = min_rows\<rparr> =
        m\<lparr>m_columns := map (pick_rows ?full) (m_columns m), m_count := m_count m\<rparr>"
      using True top by (simp add: qe_sort_materialized_def Let_def)
    moreover have "skip_rows ?off ?lim (pick_rows (take (?off + ?lim) ?full) c) = skip_rows ?off ?lim (pick_rows ?full c)" for c
      by (rule skip_picked [OF refl k])
    moreover have "?lim = (if ?off \<ge> ?off + ?lim then 0 else min (?off + ?lim - ?off) ?lim)"
      "?lim = (if ?off \<ge> m_count m then 0 else min (m_count m - ?off) ?lim)"
      using True by (auto simp: min_def)
    note limited = limited_materialized [OF this(1)] limited_materialized [OF this(2)]
    ultimately show ?thesis
      unfolding plan_execute_top_n_def Let_def hints plan_sort_def option.case exec_result.case
      by (simp only: limited)
  next
    case False
    then have "qe_sort_materialized m (Some ob) ?hints = qe_sort_materialized m (Some ob) \<lparr>top_k = 0, gpu_min_rows = min_rows\<rparr>"
      by (auto simp: qe_sort_materialized_def Let_def)
    then show ?thesis unfolding plan_execute_top_n_def Let_def hints plan_sort_def by simp
  qed
qed

lemma limited_prefix:
  "(if start \<ge> length (take (start + n) xs) then []
    else map f (take (min (length (take (start + n) xs) - start) n) (drop start (take (start + n) xs)))) =
   map f (take n (drop start xs))"
proof -
  have "drop start (take (start + n) xs) = take n (drop start xs)" by (simp add: drop_take)
  then show ?thesis by (auto simp: min_def not_le)
qed

text \<open>C10: A top-n plan that walks an index returns the rows that pass its condition in the order of the index,
  without the ones \<open>OFFSET\<close> skips and no more than \<open>LIMIT\<close>, although it stops reading when it has enough.\<close>

theorem plan_top_n_walks:
  assumes "index_ok (os_table found) (os_index found)" "node_u64 off 0 + node_u64 (Some l) 0 < 2 ^ 64"
  shows "plan_execute_top_n env senv min_rows (Some found) input order_by off (Some l) =
    Row_set (plan_wrap_scan_result (os_table found) (os_alias found)
      (take (node_u64 (Some l) 0) (drop (node_u64 off 0)
        (filter (\<lambda>i. eval_opt env [(os_table found, os_alias found)] [Some i] (os_condition found))
          (if os_descending found then rev (index_order (os_index found)) else index_order (os_index found))))))"
proof -
  have hints: "top_k (optimizer_sort_hints min_rows True off (Some l)) = node_u64 off 0 + node_u64 (Some l) 0"
    unfolding optimizer_sort_hints_def keep_count using assms(2) by simp
  show ?thesis
    unfolding plan_execute_top_n_def Let_def hints option.case ordered_scan_takes [OF assms(1)]
    by (simp only: plan_wrap_scan_result_def plan_apply_limit.simps row_set.simps sort_rows.simps Let_def length_map
          node_u64_limit(1) [of l "2 ^ 64 - 1"] take_map drop_map limited_prefix)
qed

text \<open>C15: When the sum of \<open>LIMIT\<close> and \<open>OFFSET\<close> is above \<open>2 ^ 64\<close> the number of rows to keep wraps around:
  the top-n plan returns nothing, although there are rows behind the offset.\<close>

theorem plan_top_n_overflow:
  assumes "\<forall>i < m_count m. no_nan_at (materialized_keys m (ir_children ob)) i"
    "node_u64 off 0 < m_count m" "m_count m < 2 ^ 64" "2 ^ 64 < node_u64 off 0 + node_u64 (Some l) 0"
  shows "\<exists>m' m''. plan_execute_top_n env senv min_rows None (Materialized m) (Some ob) off (Some l) = Materialized m' \<and>
    plan_apply_limit off (Some l) (plan_sort env senv \<lparr>top_k = 0, gpu_min_rows = min_rows\<rparr> (Some ob) (Materialized m)) =
      Materialized m'' \<and>
    m_count m' = 0 \<and> m_count m'' = m_count m - node_u64 off 0"
proof -
  let ?off = "node_u64 off 0" and ?lim = "node_u64 (Some l) 0"
  note lim = node_u64_limit(1) [of l "2 ^ 64 - 1"]
  note small = node_u64_limit(2) [of l 0]
  define keep where "keep = ?off + ?lim - 2 ^ 64"
  have keep: "0 < keep" "keep < ?off" using assms(4) small by (simp_all add: keep_def)
  have "(?off + ?lim) mod 2 ^ 64 = keep"
    using assms(2-4) small by (simp add: keep_def mod_if)
  then have hints: "optimizer_sort_hints min_rows True off (Some l) = \<lparr>top_k = keep, gpu_min_rows = min_rows\<rparr>"
    unfolding optimizer_sort_hints_def keep_count by simp
  note top = materialized_top [OF assms(1) keep(1)]
  have n: "1 < m_count m" "keep < m_count m" using keep assms(2) by simp_all
  have "m_count (qe_sort_materialized m (Some ob) \<lparr>top_k = keep, gpu_min_rows = min_rows\<rparr>) = keep"
    using n keep top by (simp add: qe_sort_materialized_def Let_def)
  moreover have "m_count (qe_sort_materialized m (Some ob) \<lparr>top_k = 0, gpu_min_rows = min_rows\<rparr>) = m_count m"
    using n top by (simp add: qe_sort_materialized_def Let_def)
  ultimately show ?thesis
    using keep assms(2-4) unfolding plan_execute_top_n_def Let_def hints plan_sort_def option.case exec_result.case plan_apply_limit.simps Let_def lim
    by (simp add: min_def)
qed

text \<open>\<open>OFFSET\<close> moves the rows of a row set but not the scores a fuzzy condition left: the score that is
  shown with a row behind an offset is that of another row.\<close>

theorem plan_limit_keeps_scores:
  assumes "rs_scores rs = Some (kind, col, needle, scores)" "ir_children call = c # n # rest"
    "str8_match col (ir_value c) match_exact" "str8_match needle (ir_value n) match_exact"
    "node_u64 off 0 + i < length (rs_rows rs)" "i < node_u64 l (2 ^ 64 - 1)"
  shows "\<exists>rs'. plan_apply_limit off l (Row_set rs) = Row_set rs' \<and>
    rs_rows rs' ! i = rs_rows rs ! (node_u64 off 0 + i) \<and>
    fuzzy_scores env rs' call kind ! i = scores ! i \<and>
    fuzzy_scores env rs call kind ! (node_u64 off 0 + i) = scores ! (node_u64 off 0 + i)"
  using assms by (simp add: fuzzy_scores_def Let_def)

section \<open>Examples\<close>

definition ex_sorted :: cql_table where
  "ex_sorted =
     \<lparr>table_name = ''t'',
      columns = [\<lparr>column_name = ''x'', column_ty = ColU32, decimal_scale = 0, enum_labels = None\<rparr>,
        \<lparr>column_name = ''s'', column_ty = ColString8, decimal_scale = 0, enum_labels = None\<rparr>],
      table_rows = [[Cell_num (F64_num 7), Cell_str ''abc''], [Cell_num (F64_num 5), Cell_str ''abd''], [Cell_num (F64_num 9), Cell_str ''xyz'']]\<rparr>"

definition ex_rows :: sort_rows where
  "ex_rows = \<lparr>rs_tables = [(ex_sorted, [])], rs_rows = [[Some 0], [Some 1], [Some 2]], rs_scores = None\<rparr>"

definition ex_sort_env :: sort_env where
  "ex_sort_env = \<lparr>se_workers = 4, se_qsort = sort_by, se_packed = (\<lambda>_. None), se_narrow = id, se_kernel = True\<rparr>"

definition ex_order_by :: ir_node where
  "ex_order_by = IR_Node IrOrderBy [] [IR_Node IrColumn ''x'' [IR_Node IrDescending [] []]]"

lemma ex_keys: "sort_keys digit_env ex_rows (ir_children ex_order_by) 0 =
    [\<lparr>key_desc = True, key_is_string = False, key_is_fuzzy = False,
      key_values = [L_num (F64_num 7), L_num (F64_num 5), L_num (F64_num 9)]\<rparr>]"
  by code_simp

lemma qe_sort_rows_order_witness:
  "rs_rows (qe_sort_rows digit_env ex_sort_env ex_rows (Some ex_order_by) \<lparr>top_k = 2, gpu_min_rows = 0\<rparr>) = [[Some 2], [Some 0]]"
proof -
  let ?ks = "[\<lparr>key_desc = True, key_is_string = False, key_is_fuzzy = False,
      key_values = [L_num (F64_num 7), L_num (F64_num 5), L_num (F64_num 9)]\<rparr>] :: sort_key list"
  have n: "length (rs_rows ex_rows) = 3" "length (rs_tables ex_rows) = 1" by (simp_all add: ex_rows_def)
  have nan: "\<forall>i < 3. no_nan_at ?ks i" by (auto simp: no_nan_at_def less_Suc_eq numeral_3_eq_3)
  have env: "qsort_ok (se_qsort ex_sort_env)" "se_packed ex_sort_env = (\<lambda>_. None)" "se_kernel ex_sort_env"
    using qsort_ok_sort_by by (simp_all add: ex_sort_env_def)
  obtain order where "rs_rows (qe_sort_rows digit_env ex_sort_env ex_rows (Some ex_order_by) \<lparr>top_k = 2, gpu_min_rows = 0\<rparr>) =
      map ((!) (rs_rows ex_rows)) order" "order = take 2 (sort_by (qe_sort_rows_compare_ctx ?ks) [0..<3])"
    using qe_sort_rows_order [of ex_rows digit_env ex_order_by ex_sort_env "\<lparr>top_k = 2, gpu_min_rows = 0\<rparr>"] n nan env
    unfolding ex_keys by auto
  moreover have "take 2 (sort_by (qe_sort_rows_compare_ctx ?ks) [0..<3]) = [2, 0]" by code_simp
  ultimately show ?thesis by (simp add: ex_rows_def)
qed

definition ex_materialized :: materialized where
  "ex_materialized =
     \<lparr>m_columns = [\<lparr>ac_name = ''x'', ac_type = ColU32, ac_scale = 0, ac_enum = None,
        ac_values = [L_num (F64_num 7), L_num (F64_num 5), L_num (F64_num 9)], ac_null = None\<rparr>], m_count = 3\<rparr>"

lemma ex_materialized_keys:
  "\<forall>i < m_count ex_materialized. no_nan_at (materialized_keys ex_materialized (ir_children ex_order_by)) i"
proof -
  have "list_all (no_nan_at (materialized_keys ex_materialized (ir_children ex_order_by))) [0..<3]" by code_simp
  then show ?thesis by (simp add: list_all_iff ex_materialized_def)
qed

abbreviation ex_number :: "string8 \<Rightarrow> ir_node" where
  "ex_number s \<equiv> IR_Node IrNumeric s []"

lemma ex_u64: "node_u64 (Some (ex_number ''1'')) x = 1" "node_u64 (Some (ex_number ''2'')) x = 2"
  "node_u64 (Some (ex_number ''18446744073709551615'')) x = 18446744073709551615"
proof -
  have "u64_from_str8 ''1'' 10 = 1" "u64_from_str8 ''2'' 10 = 2" "u64_from_str8 ''18446744073709551615'' 10 = - 1"
    by code_simp+
  then show "node_u64 (Some (ex_number ''1'')) x = 1" "node_u64 (Some (ex_number ''2'')) x = 2"
    "node_u64 (Some (ex_number ''18446744073709551615'')) x = 18446744073709551615"
    by (simp_all add: node_u64_def unsigned_minus_1_eq_mask mask_eq_exp_minus_1)
qed

lemma plan_top_n_is_limited_sort_witness:
  "plan_execute_top_n digit_env ex_sort_env 0 None (Materialized ex_materialized) (Some ex_order_by) (Some (ex_number ''1'')) (Some (ex_number ''1'')) =
   plan_apply_limit (Some (ex_number ''1'')) (Some (ex_number ''1''))
     (plan_sort digit_env ex_sort_env \<lparr>top_k = 0, gpu_min_rows = 0\<rparr> (Some ex_order_by) (Materialized ex_materialized))"
  by (rule plan_top_n_is_limited_sort [OF ex_materialized_keys]) (simp add: ex_u64)

lemma plan_top_n_walks_witness:
  "plan_execute_top_n digit_env ex_sort_env 0
     (Some \<lparr>os_table = store_table ex_store, os_alias = [], os_index = store_indexes ex_store ! 0, os_condition = None, os_descending = True\<rparr>)
     Unsupported None (Some (ex_number ''1'')) (Some (ex_number ''1'')) =
   Row_set (plan_wrap_scan_result (store_table ex_store) []
     (take 1 (drop 1 (filter (\<lambda>i. eval_opt digit_env [(store_table ex_store, [])] [Some i] None)
       (rev (index_order (store_indexes ex_store ! 0)))))))"
proof -
  have "index_ok (store_table ex_store) (store_indexes ex_store ! 0)"
    using ex_store_ok by (simp add: store_ok_def ex_store_def)
  then show ?thesis
    using plan_top_n_walks [of "\<lparr>os_table = store_table ex_store, os_alias = [], os_index = store_indexes ex_store ! 0,
        os_condition = None, os_descending = True\<rparr>" "Some (ex_number ''1'')" "ex_number ''1''"]
    by (simp add: ex_u64)
qed

lemma plan_top_n_overflow_witness:
  "\<exists>m' m''. plan_execute_top_n digit_env ex_sort_env 0 None (Materialized ex_materialized) (Some ex_order_by)
      (Some (ex_number ''2'')) (Some (ex_number ''18446744073709551615'')) = Materialized m' \<and>
    plan_apply_limit (Some (ex_number ''2'')) (Some (ex_number ''18446744073709551615''))
      (plan_sort digit_env ex_sort_env \<lparr>top_k = 0, gpu_min_rows = 0\<rparr> (Some ex_order_by) (Materialized ex_materialized)) = Materialized m'' \<and>
    m_count m' = 0 \<and> m_count m'' = 1"
  using plan_top_n_overflow [OF ex_materialized_keys, of "Some (ex_number ''2'')" "ex_number ''18446744073709551615''" digit_env ex_sort_env 0]
  by (simp add: ex_u64 ex_materialized_def)

definition ex_fuzzy_call :: ir_node where
  "ex_fuzzy_call = IR_Node IrAggregateCall ''similarity'' [IR_Node IrColumn ''s'' [], IR_Node IrLiteral ''abc'' []]"

lemma plan_limit_keeps_scores_witness:
  "\<exists>rs'. plan_apply_limit (Some (ex_number ''2'')) None
      (Row_set (ex_rows\<lparr>rs_scores := Some (False, ''s'', ''abc'', [F64_num 1, F64_num 0, F64_num 0])\<rparr>)) = Row_set rs' \<and>
    rs_rows rs' ! 0 = [Some 2] \<and> fuzzy_scores digit_env rs' ex_fuzzy_call False ! 0 = F64_num 1"
  using plan_limit_keeps_scores [of "ex_rows\<lparr>rs_scores := Some (False, ''s'', ''abc'', [F64_num 1, F64_num 0, F64_num 0])\<rparr>" False
      "''s''" "''abc''" "[F64_num 1, F64_num 0, F64_num 0]" ex_fuzzy_call "IR_Node IrColumn ''s'' []" "IR_Node IrLiteral ''abc'' []" "[]"
      "Some (ex_number ''2'')" 0 None digit_env]
  by (simp add: ex_u64 ex_rows_def ex_fuzzy_call_def node_u64_def [of None])

end
