(* ===== verification/Qe_Window_Props.thy ===== *)
theory Qe_Window_Props
  imports Qe_Rank Qe_Sort_Props
begin

text \<open>
  What window functions return, on the definitions of \<open>Qe_Window\<close>: the pass on the CPU, the shaders and the
  loop over packed keys give every row the value the SQL definition asks for.
\<close>

section \<open>The order of the rows\<close>

text \<open>The keys without the tie-break by position.\<close>

fun window_compare :: "window_key list \<Rightarrow> nat \<Rightarrow> nat \<Rightarrow> int" where
  "window_compare [] a b = 0"
| "window_compare (k # ks) a b =
     (let cmp = plan_window_key_compare k a b
      in if cmp \<noteq> 0 then (if wk_descending k then - cmp else cmp) else window_compare ks a b)"

definition tie_break :: "nat \<Rightarrow> nat \<Rightarrow> int" where
  "tie_break a b = (if a < b then - 1 else if b < a then 1 else 0)"

lemma row_compare_eq:
  "plan_window_row_compare ks a b = (if window_compare ks a b \<noteq> 0 then window_compare ks a b else tie_break a b)"
  by (induction ks) (auto simp: Let_def tie_break_def)

lemma keys_equal_eq: "plan_window_keys_equal ks = (\<lambda>a b. window_compare ks a b = 0)"
proof -
  have "plan_window_keys_equal ks a b \<longleftrightarrow> window_compare ks a b = 0" for a b
    by (induction ks) (auto simp: plan_window_keys_equal_def Let_def)
  then show ?thesis by (simp add: fun_eq_iff)
qed

lemma window_compare_append:
  "window_compare (ps @ os) a b = (if window_compare ps a b \<noteq> 0 then window_compare ps a b else window_compare os a b)"
  by (induction ps) (auto simp: Let_def)

definition window_ok :: "window_key list \<Rightarrow> nat \<Rightarrow> bool" where
  "window_ok ks i \<longleftrightarrow> (\<forall>k \<in> set ks. wk_is_string k \<or> null_at (wk_null k) i \<or> loaded_num (wk_values k ! i) \<noteq> F64_nan)"

lemma comparator_nulls:
  assumes "comparator cmp ok"
  shows "comparator (\<lambda>a b. if N a \<or> N b then (if N a = N b then 0 else if N a then - 1 else 1) else cmp a b) (\<lambda>x. N x \<or> ok x)"
proof
  show "(if N a \<or> N b then (if N a = N b then 0 else if N a then - 1 else 1) else cmp a b) < 0 \<longleftrightarrow>
      (if N b \<or> N a then (if N b = N a then 0 else if N b then - 1 else 1) else cmp b a) > (0 :: int)"
    if "N a \<or> ok a" "N b \<or> ok b" for a b
    using that comparator.cmp_swap [OF assms, of a b] by auto
  show "(if N a \<or> N c then (if N a = N c then 0 else if N a then - 1 else 1) else cmp a c) \<le> (0 :: int)"
    if "N a \<or> ok a" "N b \<or> ok b" "N c \<or> ok c"
      "(if N a \<or> N b then (if N a = N b then 0 else if N a then - 1 else 1) else cmp a b) \<le> (0 :: int)"
      "(if N b \<or> N c then (if N b = N c then 0 else if N b then - 1 else 1) else cmp b c) \<le> (0 :: int)" for a b c
    using that comparator.cmp_trans [OF assms, of a b c] by (auto split: if_splits)
qed

lemma window_key_comparator:
  "comparator (\<lambda>a b. if wk_descending k then - plan_window_key_compare k a b else plan_window_key_compare k a b) (window_ok [k])"
proof -
  let ?N = "null_at (wk_null k)"
  have "comparator (plan_window_key_compare k) (window_ok [k])"
  proof (cases "wk_is_string k")
    case True
    have "comparator qe_str8_compare (\<lambda>_. True)" by unfold_locales
    from comparator_subset [OF comparator_nulls [OF comparator_image [OF this, of "\<lambda>a. loaded_string (wk_values k ! a)"], of ?N], of "window_ok [k]"]
    moreover have "plan_window_key_compare k = (\<lambda>a b. if ?N a \<or> ?N b then (if ?N a = ?N b then 0 else if ?N a then - 1 else 1)
        else qe_str8_compare (loaded_string (wk_values k ! a)) (loaded_string (wk_values k ! b)))"
      using True by (intro ext) (simp add: plan_window_key_compare_def Let_def)
    ultimately show ?thesis by simp
  next
    case False
    from comparator_subset [OF comparator_nulls [OF comparator_image [OF f64_comparator, of "\<lambda>a. loaded_num (wk_values k ! a)"], of ?N], of "window_ok [k]"]
    moreover have "plan_window_key_compare k = (\<lambda>a b. if ?N a \<or> ?N b then (if ?N a = ?N b then 0 else if ?N a then - 1 else 1)
        else f64_cmp (loaded_num (wk_values k ! a)) (loaded_num (wk_values k ! b)))"
      using False by (intro ext) (simp add: plan_window_key_compare_def Let_def)
    ultimately show ?thesis using False by (simp add: window_ok_def)
  qed
  then show ?thesis using comparator_reverse [of _ "window_ok [k]"] by (cases "wk_descending k") simp_all
qed

interpretation window_keys_order: comparator "window_compare ks" "window_ok ks" for ks
proof (induction ks)
  case Nil
  show ?case using comparator_trivial by simp
next
  case (Cons k ks)
  have eq: "window_compare (k # ks) = (\<lambda>a b.
      if (if wk_descending k then - plan_window_key_compare k a b else plan_window_key_compare k a b) \<noteq> 0
      then (if wk_descending k then - plan_window_key_compare k a b else plan_window_key_compare k a b)
      else window_compare ks a b)"
    by (intro ext) (simp add: Let_def)
  have ok: "window_ok (k # ks) = (\<lambda>a. window_ok [k] a \<and> window_ok ks a)" by (auto simp: window_ok_def fun_eq_iff)
  show ?case unfolding eq ok by (rule comparator_then [OF window_key_comparator Cons])
qed

lemma tie_comparator: "comparator tie_break (\<lambda>_. True)"
  by unfold_locales (auto simp: tie_break_def split: if_splits)

interpretation window_rows_order: comparator "plan_window_row_compare ks" "window_ok ks" for ks
proof -
  have "comparator (\<lambda>a b. if window_compare ks a b \<noteq> 0 then window_compare ks a b else tie_break a b) (\<lambda>a. window_ok ks a \<and> True)"
    by (rule comparator_then [OF window_keys_order.comparator_axioms tie_comparator])
  then show "comparator (plan_window_row_compare ks) (window_ok ks)" by (simp add: row_compare_eq [abs_def])
qed

lemma row_compare_zero: "plan_window_row_compare ks a b = 0 \<longleftrightarrow> a = b"
proof -
  have "window_compare ks a a = 0" by (induction ks) (auto simp: Let_def plan_window_key_compare_def f64_cmp_def)
  then show ?thesis by (auto simp: row_compare_eq tie_break_def)
qed

lemma sorted_rows_keys:
  assumes "sorted_by (plan_window_row_compare ks) L"
  shows "sorted_by (window_compare ks) L"
  using assms unfolding sorted_by_def
  by (rule sorted_wrt_mono_rel [rotated]) (simp add: row_compare_eq split: if_splits)

lemma ranked_order:
  assumes "\<forall>x \<in> set L. window_ok (ps @ os) x" "distinct L" "sorted_by (window_compare (ps @ os)) L"
  shows "ranked (window_compare ps) (window_compare os) L"
proof (rule ranked.intro)
  have ok: "window_ok ps x" "window_ok os x" if "x \<in> set L" for x using assms(1) that by (auto simp: window_ok_def)
  show "comparator (window_compare ps) (\<lambda>x. x \<in> set L)"
    by (rule comparator_subset [OF window_keys_order.comparator_axioms ok(1)])
  show "comparator (window_compare os) (\<lambda>x. x \<in> set L)"
    by (rule comparator_subset [OF window_keys_order.comparator_axioms ok(2)])
  show "distinct L" by (rule assms)
  show "sorted_by (\<lambda>a b. if window_compare ps a b \<noteq> 0 then window_compare ps a b else window_compare os a b) L"
    using assms(3) by (simp add: window_compare_append [abs_def])
qed

interpretation window_rows: ranked "window_compare ps" "window_compare os"
    "sort_by (plan_window_row_compare (ps @ os)) (filter (window_ok (ps @ os)) [0..<n])" for ps os n
proof (rule ranked_order)
  let ?L = "sort_by (plan_window_row_compare (ps @ os)) (filter (window_ok (ps @ os)) [0..<n])"
  show "\<forall>x \<in> set ?L. window_ok (ps @ os) x" by simp
  have "mset ?L = mset (filter (window_ok (ps @ os)) [0..<n])" by simp
  then show "distinct ?L" using mset_eq_imp_distinct_iff by fastforce
  show "sorted_by (window_compare (ps @ os)) ?L"
    by (rule sorted_rows_keys) (rule window_rows_order.sorted_sort_by, simp)
qed

lemma unique_order:
  assumes "\<forall>i < n. window_ok ks i" "mset L = mset [0..<n]" "sorted_by (plan_window_row_compare ks) L"
  shows "L = sort_by (plan_window_row_compare ks) [0..<n]"
proof -
  have ok: "\<forall>x \<in> set [0..<n]. window_ok ks x" using assms(1) by simp
  have set: "set L = {0..<n}" using assms(2) by (metis mset_eq_setD set_upt)
  have once: "filter ((=) k) L = filter ((=) k) (sort_by (plan_window_row_compare ks) [0..<n])" for k
    using assms(2) by (simp flip: replicate_count_mset_eq_filter_eq)
  show ?thesis
  proof (rule window_rows_order.sorted_classes_unique)
    show "sorted_by (plan_window_row_compare ks) L" by (rule assms)
    show "sorted_by (plan_window_row_compare ks) (sort_by (plan_window_row_compare ks) [0..<n])"
      by (rule window_rows_order.sorted_sort_by [OF ok])
    show "\<forall>x \<in> set L \<union> set (sort_by (plan_window_row_compare ks) [0..<n]). window_ok ks x" using assms(1) set by auto
    show "window_rows_order.class_of ks k L = window_rows_order.class_of ks k (sort_by (plan_window_row_compare ks) [0..<n])" for k
      using once [of k] by (simp add: row_compare_zero)
  qed
qed

section \<open>Writing a column\<close>

lemma write_row_cell:
  assumes "row < n" "length (ac_values c) = n" "case ac_null c of None \<Rightarrow> True | Some ns \<Rightarrow> length ns = n"
    "v = L_null \<or> \<not> null_at (ac_null c) row"
  shows "r < n \<Longrightarrow> window_cell (Some (write_row n (row, v) c)) r = (if r = row then v else window_cell (Some c) r)"
    "length (ac_values (write_row n (row, v) c)) = n"
    "case ac_null (write_row n (row, v) c) of None \<Rightarrow> True | Some ns \<Rightarrow> length ns = n"
    "r \<noteq> row \<Longrightarrow> r < n \<Longrightarrow> null_at (ac_null (write_row n (row, v) c)) r = null_at (ac_null c) r"
  using assms by (cases v; auto simp: window_cell_def null_at_def split: option.splits)+

lemma write_rows_cell:
  assumes "distinct (map fst ws)" "fst ` set ws \<subseteq> {..<n}" "length (ac_values c) = n"
    "case ac_null c of None \<Rightarrow> True | Some ns \<Rightarrow> length ns = n" "\<forall>r \<in> fst ` set ws. \<not> null_at (ac_null c) r" "r < n"
  shows "window_cell (Some (fold (write_row n) ws c)) r = (case map_of ws r of Some v \<Rightarrow> v | None \<Rightarrow> window_cell (Some c) r)"
  using assms
proof (induction ws arbitrary: c)
  case (Cons w ws)
  obtain row v where w: "w = (row, v)" by (cases w)
  have ok: "row < n" "v = L_null \<or> \<not> null_at (ac_null c) row" using Cons.prems(2,5) w by auto
  note step = write_row_cell [OF ok(1) Cons.prems(3,4) ok(2)]
  have "\<forall>s \<in> fst ` set ws. \<not> null_at (ac_null (write_row n (row, v) c)) s"
  proof
    fix s assume s: "s \<in> fst ` set ws"
    then have "s \<noteq> row" "s < n" using Cons.prems(1,2) w by (auto simp: image_iff)
    then show "\<not> null_at (ac_null (write_row n (row, v) c)) s" using step(4) [of s] Cons.prems(5) s by simp
  qed
  then have "window_cell (Some (fold (write_row n) ws (write_row n (row, v) c))) r =
      (case map_of ws r of Some v \<Rightarrow> v | None \<Rightarrow> window_cell (Some (write_row n (row, v) c)) r)"
    using Cons.prems w step(2,3) by (intro Cons.IH) auto
  moreover have "map_of ws row = None" using Cons.prems(1) w by (simp add: map_of_eq_None_iff)
  ultimately show ?case using step(1) [OF Cons.prems(6)] w by (auto split: option.split)
qed simp

lemma write_rows_type: "ac_type (fold (write_row n) ws c) = ac_type c \<and> ac_scale (fold (write_row n) ws c) = ac_scale c"
proof (induction ws arbitrary: c)
  case (Cons w ws)
  obtain row v where "w = (row, v)" by (cases w)
  then show ?case using Cons by (cases v) simp_all
qed simp

section \<open>The pass on the CPU\<close>

text \<open>The partition of a row in the order of the window, and what a window function is to return for the row.\<close>

definition window_partition :: "window_call \<Rightarrow> nat \<Rightarrow> nat \<Rightarrow> nat list" where
  "window_partition w n r =
     filter (\<lambda>s. window_compare (wc_parts w) s r = 0)
       (sort_by (plan_window_row_compare (wc_parts w @ wc_orders w)) [0..<n])"

definition place_of :: "nat list \<Rightarrow> nat \<Rightarrow> nat" where
  "place_of p r = length (takeWhile (\<lambda>s. s \<noteq> r) p)"

lemma place_of: "r \<in> set p \<Longrightarrow> place_of p r < length p \<and> p ! place_of p r = r"
  by (induction p) (auto simp: place_of_def)

lemma place_of_nth: "distinct p \<Longrightarrow> i < length p \<Longrightarrow> place_of p (p ! i) = i"
  using place_of [of "p ! i" p] nth_eq_iff_index_eq [of p "place_of p (p ! i)" i] by simp

context ranked
begin

lemma place_in_part:
  assumes "i < length L"
  shows "place_of (part (L ! i)) (L ! i) = i - start_of new_part i"
proof -
  let ?P = "\<lambda>s. pc s (L ! i) = 0"
  have split: "L = take i L @ L ! i # drop (Suc i) L" using assms by (rule id_take_nth_drop)
  have self: "?P (L ! i)" using part_order.cmp_refl assms by simp
  have "part (L ! i) = filter ?P (take i L) @ L ! i # filter ?P (drop (Suc i) L)"
    unfolding part_def by (subst split) (simp add: self)
  moreover have "L ! i \<notin> set (take i L)" using once assms by (auto simp: in_set_conv_nth nth_eq_iff_index_eq)
  ultimately have "place_of (part (L ! i)) (L ! i) = length (filter ?P (take i L))"
    by (auto simp: place_of_def takeWhile_append)
  also have "filter ?P (take i L) = map ((!) L) (filter (\<lambda>j. start_of new_part i \<le> j) [0..<i])"
  proof -
    have "take i L = map ((!) L) [0..<i]" using assms by (intro nth_equalityI) simp_all
    then show ?thesis using part_start [OF assms] by (auto simp: filter_map comp_def intro!: arg_cong [where f = "map ((!) L)"] filter_cong)
  qed
  also have "length \<dots> = card {j. j < i \<and> start_of new_part i \<le> j}"
    by (simp add: distinct_length_filter Int_def conj_commute)
  also have "{j. j < i \<and> start_of new_part i \<le> j} = {start_of new_part i..<i}" by auto
  finally show ?thesis by simp
qed

lemma places_bij: "r \<in> set L \<Longrightarrow> bij_betw (\<lambda>s. place_of (part s) s + 1) (set (part r)) {1..card (set (part r))}"
proof -
  assume r: "r \<in> set L"
  have same: "place_of (part s) s = place_of (part r) s" if "s \<in> set (part r)" for s using part_same [OF r that] by simp
  have "bij_betw (\<lambda>i. part r ! (i - 1)) {1..length (part r)} (set (part r))"
    by (rule bij_betw_byWitness [where f' = "\<lambda>s. place_of (part r) s + 1"])
      (auto simp: place_of place_of_nth [OF distinct_part] Suc_le_eq)
  then have "bij_betw (\<lambda>s. place_of (part r) s + 1) (set (part r)) {1..length (part r)}"
    by (intro bij_betw_byWitness [where f' = "\<lambda>i. part r ! (i - 1)"])
      (auto simp: place_of place_of_nth [OF distinct_part] Suc_le_eq)
  then show ?thesis
    using same distinct_card [OF distinct_part, of r] bij_betw_cong [of "set (part r)" "\<lambda>s. place_of (part s) s + 1" "\<lambda>s. place_of (part r) s + 1"]
    by simp
qed

lemma places_ordered:
  assumes "r \<in> set L" "s \<in> set (part r)" "oc s r < 0"
  shows "place_of (part s) s < place_of (part r) r"
proof (rule ccontr)
  assume not: "\<not> place_of (part s) s < place_of (part r) r"
  note s = place_of [OF assms(2)] and r = place_of [OF self_in_part [OF assms(1)]]
  have in_L: "s \<in> set L" using assms(2) by (simp add: part_def)
  have "place_of (part r) r \<noteq> place_of (part r) s" using s r assms(3) part_order.cmp_refl peer_order.cmp_refl [OF assms(1)] by force
  then have "place_of (part r) r < place_of (part r) s" using not part_same [OF assms(1,2)] by simp
  then have "oc r s \<le> 0" using sorted_by_nth [OF sorted_part [OF assms(1)]] s r by metis
  then have "oc s s < 0" using peer_order.cmp_le_less_trans [of s r s] assms(1,3) in_L by simp
  then show False using peer_order.cmp_refl [OF in_L] by simp
qed

end

definition window_reference :: "num_env \<Rightarrow> window_env \<Rightarrow> window_call \<Rightarrow> nat \<Rightarrow> nat \<Rightarrow> loaded" where
  "window_reference env wenv w n r =
     (let p = window_partition w n r; cmp = window_compare (wc_orders w);
          beside = (\<lambda>back. case neighbour back (wc_offset w) p (place_of p r) of
             Some s \<Rightarrow> window_cell (wc_src w) s
           | None \<Rightarrow> default_value env (wc_string w) (wc_default w))
      in case wc_func w of
          W_row_number \<Rightarrow> count_value env (place_of p r + 1)
        | W_rank \<Rightarrow> count_value env (card (lower_rows cmp (set p) r) + 1)
        | W_dense_rank \<Rightarrow> count_value env (card (lower_groups cmp (set p) r) + 1)
        | W_lag \<Rightarrow> beside True
        | W_lead \<Rightarrow> beside False
        | W_agg code \<Rightarrow>
            frame_value env wenv code (wc_star w)
              (fold (frame_add wenv (wc_star w) (wc_src w)) (filter (\<lambda>s. cmp s r \<le> 0) p) frame_start))"

lemma partition_writes_fst: "map fst (partition_writes env wenv w start p) = p"
  by (simp add: partition_writes_def Let_def number_writes_fst rank_writes_fst shift_writes_fst frame_writes_fst comp_def split: window_func.split)

lemma window_order_sorted:
  assumes "qsort_ok (se_qsort wenv)" "\<forall>i < n. window_ok ks i"
  shows "window_order wenv ks n = sort_by (plan_window_row_compare ks) [0..<n]"
proof (rule unique_order [OF assms(2)])
  have cmp: "comparator (plan_window_row_compare ks) (\<lambda>x. x \<in> set [0..<n])"
    by (rule comparator_subset [OF window_rows_order.comparator_axioms]) (use assms(2) in simp)
  then have sorted: "mset (se_qsort wenv (plan_window_row_compare ks) [0..<n]) = mset [0..<n] \<and>
      sorted_by (plan_window_row_compare ks) (se_qsort wenv (plan_window_row_compare ks) [0..<n])"
    using assms(1) unfolding qsort_ok_def by blast
  then show "mset (window_order wenv ks n) = mset [0..<n]" by (simp add: window_order_def)
  show "sorted_by (plan_window_row_compare ks) (window_order wenv ks n)"
  proof (cases "n > 1 \<and> ks \<noteq> []")
    case False
    have "sorted_by (plan_window_row_compare ks) [0..<n]"
    proof (cases "ks = []")
      case True
      then show ?thesis unfolding sorted_by_def by (intro sorted_wrt_mono_rel [OF _ sorted_wrt_upt]) auto
    next
      case nonempty: False
      then have "n = 0 \<or> n = 1" using False by auto
      then show ?thesis by auto
    qed
    then show ?thesis using False by (auto simp: window_order_def)
  qed (use sorted in \<open>simp add: window_order_def\<close>)
qed

lemma window_cpu_reference:
  assumes "qsort_ok (se_qsort wenv)" "\<forall>i < n. window_ok (wc_parts w @ wc_orders w) i" "n < 2 ^ 63"
    "0 \<le> wc_offset w" "wc_offset w < 2 ^ 63" "r < n"
  shows "map_of (window_cpu_writes env wenv w n) r = Some (window_reference env wenv w n r)"
    "map fst (window_cpu_writes env wenv w n) = sort_by (plan_window_row_compare (wc_parts w @ wc_orders w)) [0..<n]"
proof -
  let ?ks = "wc_parts w @ wc_orders w"
  define L where "L = sort_by (plan_window_row_compare ?ks) [0..<n]"
  let ?oc = "window_compare (wc_orders w)"
  have order: "window_order wenv ?ks n = L" unfolding L_def by (rule window_order_sorted [OF assms(1,2)])
  have L: "mset L = mset [0..<n]" "set L = {0..<n}" by (simp_all add: L_def)
  then have len: "length L = n" by (metis length_upt mset_eq_length diff_zero)
  have r: "r \<in> set L" using L(2) assms(6) by simp
  have distinct: "distinct L" using L(1) mset_eq_imp_distinct_iff by fastforce
  have "sorted_by (plan_window_row_compare ?ks) L"
    unfolding L_def by (rule window_rows_order.sorted_sort_by) (use assms(2) in simp)
  then have ranked: "ranked (window_compare (wc_parts w)) ?oc L"
    by (intro ranked_order sorted_rows_keys distinct) (use L(2) assms(2) in auto)
  let ?p = "ranked.part (window_compare (wc_parts w)) L r"
  have p: "?p = window_partition w n r" unfolding ranked.part_def [OF ranked] window_partition_def L_def [symmetric] ..
  have fst: "map fst (partitions_writes env wenv w start ps) = concat ps" for start ps
    by (induction ps arbitrary: start) (simp_all add: partition_writes_fst)
  show "map fst (window_cpu_writes env wenv w n) = sort_by (plan_window_row_compare ?ks) [0..<n]"
    by (simp add: window_cpu_writes_def fst order L_def)
  obtain start where start: "start + length ?p \<le> length L"
    "map_of (window_cpu_writes env wenv w n) r = map_of (partition_writes env wenv w start ?p) r"
    using ranked.spans_partition [OF ranked r, of "partition_writes env wenv w" "partitions_writes env wenv w", OF partition_writes_fst]
    unfolding window_cpu_writes_def order keys_equal_eq by auto
  note in_p = ranked.self_in_part [OF ranked r]
  note place = place_of [OF in_p]
  have cmp: "comparator ?oc (\<lambda>x. x \<in> set L)" using ranked by (rule ranked.peers)
  have sub: "set ?p \<subseteq> set L" by (auto simp: ranked.part_def [OF ranked])
  note part = cmp sub ranked.distinct_part [OF ranked] ranked.sorted_part [OF ranked r] in_p
  have "start + length ?p < 2 ^ 63" using start(1) len assms(3) by (metis le_less_trans)
  then have bound: "int (start + length ?p) < 2 ^ 63" by simp
  have number: "map_of (number_writes env ?p) r = Some (count_value env (place_of ?p r + 1))"
    using number_writes_spec [OF part(3) conjunct1 [OF place], of env] place by simp
  have shift: "map_of (shift_writes env b is_string (wc_offset w) default_ir src start ?p) r =
      Some (case neighbour b (wc_offset w) ?p (place_of ?p r) of Some s \<Rightarrow> window_cell src s
        | None \<Rightarrow> default_value env is_string default_ir)" for b is_string default_ir src
    using shift_writes_spec [OF part(3) conjunct1 [OF place] assms(4,5) bound, of env b is_string default_ir src] place by simp
  have frame: "map_of (frame_writes env wenv code star src (if wc_orders w = [] then [?p] else spans (\<lambda>a b. ?oc a b = 0) ?p) frame_start) r =
      Some (frame_value env wenv code star (fold (frame_add wenv star src) (filter (\<lambda>s. ?oc s r \<le> 0) ?p) frame_start))" for code star src
  proof (cases "wc_orders w = []")
    case True
    then show ?thesis using in_p by (simp add: map_of_const Let_def)
  next
    case False
    then show ?thesis using frame_writes_spec [OF part] by simp
  qed
  have rank: "map_of (rank_writes env d (spans (\<lambda>a b. ?oc a b = 0) ?p) 0 1) r =
      Some (count_value env (if d then card (lower_groups ?oc (set ?p) r) + 1 else card (lower_rows ?oc (set ?p) r) + 1))" for d
    using rank_writes_spec [OF part, of env d 0 1] by simp
  have "map_of (partition_writes env wenv w start ?p) r = Some (window_reference env wenv w n r)"
    unfolding partition_writes_def window_reference_def keys_equal_eq Let_def p [symmetric]
    by (cases "wc_func w") (simp_all only: window_func.case number shift frame rank if_True if_False)
  then show "map_of (window_cpu_writes env wenv w n) r = Some (window_reference env wenv w n r)" using start(2) by simp
qed

section \<open>The pass on the GPU\<close>

definition gpu_key :: "window_key \<Rightarrow> bool \<times> f64 list" where
  "gpu_key k = (wk_descending k, map loaded_num (wk_values k))"

definition number_key :: "bool \<times> f64 list \<Rightarrow> sort_key" where
  "number_key k = \<lparr>key_desc = fst k, key_is_string = False, key_is_fuzzy = False, key_values = map L_num (snd k)\<rparr>"

definition plain_keys :: "window_key list \<Rightarrow> nat \<Rightarrow> bool" where
  "plain_keys ks n \<longleftrightarrow> (\<forall>k \<in> set ks. \<not> wk_is_string k \<and> wk_null k = None \<and> length (wk_values k) = n)"

lemma window_compare_numbers:
  "plain_keys ks n \<Longrightarrow> a < n \<Longrightarrow> b < n \<Longrightarrow>
   window_compare ks a b = qe_sort_rows_compare_ctx (map (\<lambda>k. number_key (gpu_key k)) ks) a b"
  by (induction ks)
    (simp_all add: plain_keys_def plan_window_key_compare_def null_at_def number_key_def gpu_key_def key_compare_at_def Let_def)

lemma number_keys_ok:
  "plain_keys ks n \<Longrightarrow> window_ok ks i \<Longrightarrow> i < n \<Longrightarrow> no_nan_at (map (\<lambda>k. number_key (gpu_key k)) ks) i"
  by (auto simp: no_nan_at_def window_ok_def plain_keys_def number_key_def gpu_key_def null_at_def)

lemma window_entries_are_entries:
  "window_entries keys n =
    gpu_entries \<lparr>se_workers = 0, se_qsort = (\<lambda>_. id), se_packed = (\<lambda>_. None), se_narrow = id, se_kernel = True\<rparr>
      (map number_key keys) (map (\<lambda>i. [Some i]) [0..<n])"
  by (simp add: window_entries_def gpu_entries_def number_key_def comp_def Let_def)

lemma keys_differ_compare:
  assumes "plain_keys ks n" "window_ok ks a" "window_ok ks b"
  shows "keys_differ (map (\<lambda>k. loaded_num (wk_values k ! a)) ks) (map (\<lambda>k. loaded_num (wk_values k ! b)) ks) \<longleftrightarrow>
    window_compare ks a b \<noteq> 0"
  using assms
proof (induction ks)
  case Nil
  then show ?case by (simp add: keys_differ_def)
next
  case (Cons k ks)
  let ?x = "loaded_num (wk_values k ! a)" and ?y = "loaded_num (wk_values k ! b)"
  have plain: "\<not> wk_is_string k" "wk_null k = None" using Cons.prems(1) by (auto simp: plain_keys_def)
  have nan: "?x \<noteq> F64_nan" "?y \<noteq> F64_nan" using Cons.prems(2,3) plain by (auto simp: window_ok_def null_at_def)
  have eq: "f64_eq ?x ?y \<longleftrightarrow> f64_cmp ?x ?y = 0"
    using f64_linear [OF nan] nan by (auto simp: f64_eq_def f64_cmp_def)
  have rest: "plain_keys ks n" "window_ok ks a" "window_ok ks b" using Cons.prems by (auto simp: plain_keys_def window_ok_def)
  show ?case using Cons.IH [OF rest] plain eq
    by (auto simp: keys_differ_def plan_window_key_compare_def null_at_def Let_def)
qed

text \<open>What is asked of the keys packed into 64 bits: the rows come in the order of the keys, and the high bits
  of two keys agree where the leading keys of the rows do.\<close>

definition high_bits :: "nat list \<Rightarrow> nat \<Rightarrow> u64 \<Rightarrow> u64" where
  "high_bits bits m key =
     (if sum_list (take m bits) = 0 then 0 else drop_bit (sum_list bits - sum_list (take m bits)) key)"

definition composite_of :: "(bool \<times> f64 list) list \<Rightarrow> nat \<Rightarrow> composite_sort \<Rightarrow> bool" where
  "composite_of keys n cs \<longleftrightarrow>
     mset (cs_rows cs) = mset [0..<n] \<and> sorted_by (qe_sort_rows_compare_ctx (map number_key keys)) (cs_rows cs) \<and>
     (\<exists>code. cs_keys cs = map code (cs_rows cs) \<and>
        (\<forall>a < n. \<forall>b < n. (code a = code b \<longleftrightarrow> qe_sort_rows_compare_ctx (map number_key keys) a b = 0) \<and>
           (\<forall>m \<le> length keys. high_bits (cs_bits cs) m (code a) = high_bits (cs_bits cs) m (code b) \<longleftrightarrow>
              qe_sort_rows_compare_ctx (map number_key (take m keys)) a b = 0)))"

definition packed_ok :: "((bool \<times> f64 list) list \<Rightarrow> composite_sort option) \<Rightarrow> bool" where
  "packed_ok packed \<longleftrightarrow>
     (\<forall>keys n cs. (\<forall>k \<in> set keys. length (snd k) = n \<and> F64_nan \<notin> set (snd k)) \<longrightarrow> packed keys = Some cs \<longrightarrow> composite_of keys n cs)"

definition packed_part :: "nat \<Rightarrow> nat \<Rightarrow> u64 \<Rightarrow> u64" where
  "packed_part T B x = (if B = 0 then 0 else drop_bit (T - B) x)"

definition packed_new_part :: "nat \<Rightarrow> nat \<Rightarrow> u64 list \<Rightarrow> nat \<Rightarrow> bool" where
  "packed_new_part T B xs i \<longleftrightarrow> i = 0 \<or> packed_part T B (xs ! i) \<noteq> packed_part T B (xs ! (i - 1))"

definition packed_new_key :: "nat \<Rightarrow> nat \<Rightarrow> u64 list \<Rightarrow> nat \<Rightarrow> bool" where
  "packed_new_key T B xs i \<longleftrightarrow> packed_new_part T B xs i \<or> xs ! i \<noteq> xs ! (i - 1)"

lemma composite_ranks_from:
  fixes xs :: "u64 list" and T B :: nat
  defines "P \<equiv> packed_new_part T B xs" and "Q \<equiv> packed_new_key T B xs"
  shows "i < length xs \<Longrightarrow>
    composite_ranks T B (drop (Suc i) xs) (Suc i) (start_of P i) (start_of Q i) (id_of Q i - id_of Q (start_of P i) + 1) (xs ! i)
      (packed_part T B (xs ! i)) =
    map (position_ranks P Q) [Suc i..<length xs]"
proof (induction "length xs - i" arbitrary: i)
  case (Suc k)
  show ?case
  proof (cases "Suc i < length xs")
    case True
    have ids: "id_of Q (start_of P i) \<le> id_of Q i" by (rule id_of_mono [OF start_of_le])
    have "composite_ranks T B (drop (Suc (Suc i)) xs) (Suc (Suc i)) (start_of P (Suc i)) (start_of Q (Suc i))
        (id_of Q (Suc i) - id_of Q (start_of P (Suc i)) + 1) (xs ! Suc i) (packed_part T B (xs ! Suc i)) =
      map (position_ranks P Q) [Suc (Suc i)..<length xs]"
      by (rule Suc.hyps(1)) (use Suc.hyps(2) True in simp_all)
    moreover have "drop (Suc i) xs = xs ! Suc i # drop (Suc (Suc i)) xs" using True by (simp add: Cons_nth_drop_Suc)
    moreover have "[Suc i..<length xs] = Suc i # [Suc (Suc i)..<length xs]" using True by (simp add: upt_conv_Cons)
    moreover have "Q (Suc i) \<longleftrightarrow> P (Suc i) \<or> xs ! Suc i \<noteq> xs ! i"
      "P (Suc i) \<longleftrightarrow> packed_part T B (xs ! Suc i) \<noteq> packed_part T B (xs ! i)"
      by (simp_all add: P_def Q_def packed_new_part_def packed_new_key_def)
    ultimately show ?thesis
      using ids by (auto simp: position_ranks_def Let_def packed_part_def [symmetric] Suc_diff_le)
  qed simp
qed simp

lemma composite_ranks_spec:
  "composite_ranks T B xs 0 0 0 0 0 0 = map (position_ranks (packed_new_part T B xs) (packed_new_key T B xs)) [0..<length xs]"
proof (cases xs)
  case (Cons x ys)
  have "composite_ranks T B xs 0 0 0 0 0 0 =
      position_ranks (packed_new_part T B xs) (packed_new_key T B xs) 0 # composite_ranks T B (drop 1 xs) 1 0 0 1 (xs ! 0) (packed_part T B (xs ! 0))"
    by (simp add: Cons Let_def packed_part_def position_ranks_def)
  moreover have "[0..<length xs] = 0 # [Suc 0..<length xs]" using Cons by (simp add: upt_conv_Cons del: upt_Suc)
  ultimately show ?thesis using composite_ranks_from [of 0 xs T B] Cons by (simp del: upt_Suc)
qed simp

lemma map_upt_same: "(\<And>i. i < n \<Longrightarrow> f i = g i) \<Longrightarrow> map f [0..<n] = map g [0..<n]"
  by simp

lemma start_of_cong: "\<forall>j \<le> i. P j = P' j \<Longrightarrow> start_of P i = start_of P' i"
  by (induction i) auto

lemma id_of_cong: "\<forall>j \<le> i. P j = P' j \<Longrightarrow> id_of P i = id_of P' i"
  by (induction i) auto

lemma position_ranks_cong:
  assumes "\<forall>j \<le> i. P j = P' j" "\<forall>j \<le> i. Q j = Q' j"
  shows "position_ranks P Q i = position_ranks P' Q' i"
proof -
  have start: "start_of P i = start_of P' i" "start_of Q i = start_of Q' i" using assms start_of_cong by blast+
  have "\<forall>j \<le> start_of P i. Q j = Q' j" using assms(2) start_of_le [of P i] by (meson le_trans)
  then have "id_of Q (start_of P i) = id_of Q' (start_of P i)" by (rule id_of_cong)
  then show ?thesis using start id_of_cong [OF assms(2)] by (simp add: position_ranks_def)
qed

lemma positions_below:
  assumes "mset L = mset [0..<n]" "i < n"
  shows "L ! i < n" "L ! (i - 1) < n"
proof -
  have "set L = {0..<n}" "length L = n" using assms(1) by (metis mset_eq_setD set_upt, metis length_upt mset_eq_length diff_zero)
  then show "L ! i < n" "L ! (i - 1) < n" using assms(2) nth_mem [of i L] nth_mem [of "i - 1" L] by auto
qed

lemma sorted_numbers:
  assumes "plain_keys ks n" "mset L = mset [0..<n]" "sorted_by (qe_sort_rows_compare_ctx (map (\<lambda>k. number_key (gpu_key k)) ks)) L"
  shows "sorted_by (window_compare ks) L"
proof -
  have "set L = {0..<n}" using assms(2) by (metis mset_eq_setD set_upt)
  then show ?thesis using assms(3)
    by (subst sorted_by_cong [of L _ "qe_sort_rows_compare_ctx (map (\<lambda>k. number_key (gpu_key k)) ks)"])
      (use window_compare_numbers [OF assms(1)] in auto)
qed

lemma ranked_positions:
  assumes "\<forall>i < n. window_ok (ps @ os) i" "mset L = mset [0..<n]" "sorted_by (window_compare (ps @ os)) L"
  shows "ranked (window_compare ps) (window_compare os) L"
proof (rule ranked_order)
  have "set L = {0..<n}" using assms(2) by (metis mset_eq_setD set_upt)
  then show "\<forall>x \<in> set L. window_ok (ps @ os) x" using assms(1) by simp
  show "distinct L" using assms(2) mset_eq_imp_distinct_iff by fastforce
qed (rule assms)

text \<open>Both ways on the GPU return the rows in a sorted order, with the ranks of their positions.\<close>

definition ranks_of_order :: "window_key list \<Rightarrow> window_key list \<Rightarrow> nat list \<Rightarrow> (nat \<times> nat \<times> nat) list" where
  "ranks_of_order ps os L =
     map (position_ranks (ranked.new_part (window_compare ps) L) (ranked.new_peers (window_compare ps) (window_compare os) L))
       [0..<length L]"

lemma window_rank_packed:
  assumes "composite_of (map gpu_key (ps @ os)) n cs" "plain_keys (ps @ os) n" "\<forall>i < n. window_ok (ps @ os) i"
  shows "mset (cs_rows cs) = mset [0..<n]" "sorted_by (window_compare (ps @ os)) (cs_rows cs)"
    "composite_ranks (sum_list (cs_bits cs)) (sum_list (take (length ps) (cs_bits cs))) (cs_keys cs) 0 0 0 0 0 0 =
      ranks_of_order ps os (cs_rows cs)"
proof -
  let ?ks = "ps @ os" and ?L = "cs_rows cs"
  let ?sk = "\<lambda>ks. map (\<lambda>k. number_key (gpu_key k)) ks"
  have plain: "plain_keys ps n" using assms(2) by (auto simp: plain_keys_def)
  have ok: "window_ok ps i" if "i < n" for i using assms(3) that by (auto simp: window_ok_def)
  have sk: "map number_key (map gpu_key ks) = ?sk ks" for ks by (simp add: comp_def)
  obtain code where code: "cs_keys cs = map code ?L"
      "\<And>a b. a < n \<Longrightarrow> b < n \<Longrightarrow> code a = code b \<longleftrightarrow> qe_sort_rows_compare_ctx (?sk ?ks) a b = 0"
      "\<And>a b m. a < n \<Longrightarrow> b < n \<Longrightarrow> m \<le> length ?ks \<Longrightarrow> high_bits (cs_bits cs) m (code a) = high_bits (cs_bits cs) m (code b) \<longleftrightarrow>
          qe_sort_rows_compare_ctx (map number_key (take m (map gpu_key ?ks))) a b = 0"
    using assms(1) unfolding composite_of_def sk by auto
  show mset: "mset ?L = mset [0..<n]" using assms(1) by (simp add: composite_of_def)
  show sorted: "sorted_by (window_compare ?ks) ?L"
    by (rule sorted_numbers [OF assms(2) mset]) (use assms(1) in \<open>simp only: composite_of_def sk\<close>)
  have len: "length ?L = n" using mset by (metis length_upt mset_eq_length diff_zero)
  note r = ranked_positions [OF assms(3) mset sorted] and b = positions_below [OF mset]
  let ?T = "sum_list (cs_bits cs)" and ?B = "sum_list (take (length ps) (cs_bits cs))"
  have new_part: "packed_new_part ?T ?B (cs_keys cs) i = ranked.new_part (window_compare ps) ?L i" if "i < n" for i
  proof -
    have "packed_part ?T ?B x = high_bits (cs_bits cs) (length ps) x" for x by (simp add: packed_part_def high_bits_def)
    moreover have "map number_key (take (length ps) (map gpu_key ?ks)) = ?sk ps" by (simp add: comp_def)
    ultimately have "packed_part ?T ?B (code a) = packed_part ?T ?B (code b) \<longleftrightarrow> window_compare ps a b = 0" if "a < n" "b < n" for a b
      using code(3) [OF that, of "length ps"] window_compare_numbers [OF plain that] by (simp only:) simp
    then show ?thesis
      using b [OF that] that len code(1) window_keys_order.cmp_eq_sym [of ps "?L ! i" "?L ! (i - 1)"] ok
      by (simp add: packed_new_part_def ranked.new_part_def [OF r])
  qed
  have new_key: "packed_new_key ?T ?B (cs_keys cs) i = ranked.new_peers (window_compare ps) (window_compare os) ?L i" if "i < n" for i
  proof -
    have "code x = code y \<longleftrightarrow> window_compare ?ks x y = 0" if "x < n" "y < n" for x y
      using code(2) [OF that] window_compare_numbers [OF assms(2) that] by simp
    then have "code (?L ! i) \<noteq> code (?L ! (i - 1)) \<longleftrightarrow> window_compare ?ks (?L ! (i - 1)) (?L ! i) \<noteq> 0"
      using b [OF that] window_keys_order.cmp_eq_sym [of ?ks "?L ! i" "?L ! (i - 1)"] assms(3) by simp
    then show ?thesis
      using new_part [OF that] that len code(1)
      by (auto simp: packed_new_key_def ranked.new_peers_def [OF r] ranked.new_part_def [OF r] window_compare_append)
  qed
  show "composite_ranks ?T ?B (cs_keys cs) 0 0 0 0 0 0 = ranks_of_order ps os ?L"
    unfolding composite_ranks_spec ranks_of_order_def code(1) length_map len
    by (rule map_upt_same, rule position_ranks_cong) (use new_part new_key in \<open>auto simp: code(1)\<close>)
qed

lemma window_flags:
  assumes "plain_keys (ps @ os) n" "\<forall>i < n. window_ok (ps @ os) i" "mset L = mset [0..<n]"
    "ranked (window_compare ps) (window_compare os) L" "i < n"
  shows "window_rank_flags (length ps) (map (\<lambda>r. map (\<lambda>k. loaded_num (wk_values k ! r)) (ps @ os)) L) i =
    (if ranked.new_part (window_compare ps) L i then 1 else 0,
     if ranked.new_peers (window_compare ps) (window_compare os) L i then 1 else 0)"
proof (cases "i = 0")
  case False
  have plain: "plain_keys ps n" "plain_keys os n" using assms(1) by (auto simp: plain_keys_def)
  have ok: "window_ok ps j" "window_ok os j" if "j < n" for j using assms(2) that by (auto simp: window_ok_def)
  have len: "length L = n" using assms(3) by (metis length_upt mset_eq_length diff_zero)
  note b = positions_below [OF assms(3,5)] and r = assms(4)
  have nth: "map (\<lambda>r. map (\<lambda>k. loaded_num (wk_values k ! r)) (ps @ os)) L ! j = map (\<lambda>k. loaded_num (wk_values k ! (L ! j))) (ps @ os)"
    if "j < n" for j
    using that len by simp
  have "i - 1 < n" using assms(5) by simp
  then show ?thesis
    using False keys_differ_compare [OF plain(1) ok(1) ok(1), OF b] keys_differ_compare [OF plain(2) ok(2) ok(2), OF b]
      window_keys_order.cmp_eq_sym [OF ok(1) ok(1), OF b] window_keys_order.cmp_eq_sym [OF ok(2) ok(2), OF b]
    unfolding window_rank_flags_def Let_def ranked.new_peers_def [OF r] ranked.new_part_def [OF r]
    by (simp only: nth assms(5) if_False) simp
qed (simp add: window_rank_flags_def ranked.new_peers_def [OF assms(4)] ranked.new_part_def [OF assms(4)])

lemma gathered_ranks_order:
  assumes "plain_keys (ps @ os) n" "\<forall>i < n. window_ok (ps @ os) i" "mset L = mset [0..<n]"
    "ranked (window_compare ps) (window_compare os) L" "n < 2 ^ 32 - 1"
  defines "flags \<equiv> map (window_rank_flags (length ps) (map (\<lambda>r. map (\<lambda>k. loaded_num (wk_values k ! r)) (ps @ os)) L)) [0..<n]"
  shows "map (\<lambda>(r, k, d). (unat r, unat k, unat d)) (gathered_ranks stale (map fst flags) (map snd flags)) = ranks_of_order ps os L"
proof -
  note r = assms(4)
  have len: "length L = n" using assms(3) by (metis length_upt mset_eq_length diff_zero)
  have ok: "flags_ok (map fst flags) (ranked.new_part (window_compare ps) L)"
    "flags_ok (map snd flags) (ranked.new_peers (window_compare ps) (window_compare os) L)"
    using window_flags [OF assms(1-4)]
    by (simp_all add: flags_def flags_ok_def ranked.new_peers_def [OF r] ranked.new_part_def [OF r])
  have n: "length flags = n" by (simp add: flags_def)
  have nth: "(\<lambda>(r, k, d). (unat r, unat k, unat d)) (gathered_ranks stale (map fst flags) (map snd flags) ! i) =
      position_ranks (ranked.new_part (window_compare ps) L) (ranked.new_peers (window_compare ps) (window_compare os) L) i" if "i < n" for i
    by (rule gathered_ranks_nth [OF ok]) (use that n assms(5) in \<open>simp_all add: ranked.new_peers_def [OF r]\<close>)
  have "length (gathered_ranks stale (map fst flags) (map snd flags)) = n" by (simp add: gathered_ranks_def Let_def n)
  then show ?thesis using nth unfolding ranks_of_order_def len by (intro nth_equalityI) simp_all
qed

lemma window_rank_general:
  fixes wenv :: window_env
  assumes "plain_keys (ps @ os) n" "\<forall>i < n. window_ok (ps @ os) i"
  defines "entries \<equiv> take n (bitonic_sort (gpu_less_than (map fst (map gpu_key (ps @ os)))) (stages_from (padded_from n 2) 0)
      (window_entries (map gpu_key (ps @ os)) n))"
  obtains L where "mset L = mset [0..<n]" "sorted_by (window_compare (ps @ os)) L"
    "map (\<lambda>e. case g_rows e of Some i # _ \<Rightarrow> i | _ \<Rightarrow> 0) entries = L"
    "map g_keys entries = map (\<lambda>r. map (\<lambda>k. loaded_num (wk_values k ! r)) (ps @ os)) L"
proof -
  let ?ks = "ps @ os"
  let ?sk = "map (\<lambda>k. number_key (gpu_key k)) ?ks"
  let ?rows = "map (\<lambda>i. [Some i]) [0..<n] :: joined_row list"
  have sk: "map number_key (map gpu_key ?ks) = ?sk" "map key_desc ?sk = map fst (map gpu_key ?ks)"
    by (simp_all add: comp_def number_key_def)
  have "\<forall>k \<in> set ?sk. \<not> key_is_string k \<and> length (key_values k) = length ?rows"
    using assms(1) by (auto simp: plain_keys_def number_key_def gpu_key_def)
  moreover have "\<forall>i < length ?rows. no_nan_at ?sk i" using number_keys_ok [OF assms(1)] assms(2) by simp
  ultimately have "\<exists>order. entries = map (\<lambda>i. \<lparr>g_valid = True, g_keys = map (\<lambda>k. loaded_num (key_values k ! i)) ?sk, g_rows = ?rows ! i\<rparr>) order \<and>
      mset order = mset [0..<n] \<and> sorted_by (qe_sort_rows_compare_ctx ?sk) order"
    using gpu_entries_order [of ?sk ?rows] unfolding entries_def window_entries_are_entries sk by (simp only: length_map length_upt diff_zero)
  then obtain order where order: "entries = map (\<lambda>i. \<lparr>g_valid = True, g_keys = map (\<lambda>k. loaded_num (key_values k ! i)) ?sk, g_rows = ?rows ! i\<rparr>) order"
      "mset order = mset [0..<n]" "sorted_by (qe_sort_rows_compare_ctx ?sk) order"
    by blast
  have small: "i < n" if "i \<in> set order" for i using that mset_eq_setD [OF order(2)] by simp
  have "map (\<lambda>e. case g_rows e of Some i # _ \<Rightarrow> i | _ \<Rightarrow> 0) entries = order"
    unfolding order(1) map_map by (rule map_idI) (use small in simp)
  moreover have "map g_keys entries = map (\<lambda>r. map (\<lambda>k. loaded_num (wk_values k ! r)) ?ks) order"
    unfolding order(1) map_map
    by (rule map_cong [OF refl]) (use small assms(1) in \<open>auto simp: number_key_def gpu_key_def plain_keys_def\<close>)
  ultimately show thesis using that order(2) sorted_numbers [OF assms(1) order(2,3)] by blast
qed

lemma qe_window_rank_gpu_spec:
  assumes "qe_window_rank_gpu wenv (map gpu_key (ps @ os)) (length ps) n = Some (L, ranks)"
    "plain_keys (ps @ os) n" "\<forall>i < n. window_ok (ps @ os) i" "0 < n" "n < 2 ^ 32 - 1" "packed_ok (we_packed wenv)"
  shows "mset L = mset [0..<n]" "sorted_by (window_compare (ps @ os)) L" "ranks = ranks_of_order ps os L"
proof -
  have "mset L = mset [0..<n] \<and> sorted_by (window_compare (ps @ os)) L \<and> ranks = ranks_of_order ps os L"
  proof (cases "we_packed wenv (map gpu_key (ps @ os))")
    case (Some cs)
    have "\<forall>k \<in> set (map gpu_key (ps @ os)). length (snd k) = n \<and> F64_nan \<notin> set (snd k)"
    proof
      fix g assume "g \<in> set (map gpu_key (ps @ os))"
      then obtain k where k: "k \<in> set (ps @ os)" "g = gpu_key k" by auto
      then have "length (wk_values k) = n" using assms(2) by (auto simp: plain_keys_def)
      moreover have "loaded_num (wk_values k ! i) \<noteq> F64_nan" if "i < n" for i
        using assms(2,3) k(1) that by (auto simp: plain_keys_def window_ok_def null_at_def)
      ultimately show "length (snd g) = n \<and> F64_nan \<notin> set (snd g)"
        using k(2) by (auto simp: gpu_key_def in_set_conv_nth eq_commute [of F64_nan])
    qed
    then have "composite_of (map gpu_key (ps @ os)) n cs" using assms(6) Some unfolding packed_ok_def by blast
    from window_rank_packed [OF this assms(2,3)] show ?thesis
      using assms(1,4) Some by (auto simp: qe_window_rank_gpu_def)
  next
    case None
    have kernel: "se_kernel wenv" using assms(1,4) None by (auto simp: qe_window_rank_gpu_def split: if_splits)
    obtain order where order: "mset order = mset [0..<n]" "sorted_by (window_compare (ps @ os)) order"
      "map (\<lambda>e. case g_rows e of Some i # _ \<Rightarrow> i | _ \<Rightarrow> 0) (take n (bitonic_sort (gpu_less_than (map fst (map gpu_key (ps @ os))))
          (stages_from (padded_from n 2) 0) (window_entries (map gpu_key (ps @ os)) n))) = order"
      "map g_keys (take n (bitonic_sort (gpu_less_than (map fst (map gpu_key (ps @ os))))
          (stages_from (padded_from n 2) 0) (window_entries (map gpu_key (ps @ os)) n))) =
        map (\<lambda>r. map (\<lambda>k. loaded_num (wk_values k ! r)) (ps @ os)) order"
      using window_rank_general [OF assms(2,3)] by blast
    note gathered = gathered_ranks_order [OF assms(2,3) order(1) ranked_positions [OF assms(3) order(1,2)] assms(5)]
    have "L = order \<and> ranks = ranks_of_order ps os order"
      using assms(1,4) None kernel unfolding qe_window_rank_gpu_def Let_def order(3,4) gathered by auto
    then show ?thesis using order(1,2) by blast
  qed
  then show "mset L = mset [0..<n]" "sorted_by (window_compare (ps @ os)) L" "ranks = ranks_of_order ps os L" by blast+
qed

section \<open>The values of a window column\<close>

lemma gather_key_shape:
  assumes "plan_window_gather_key env rows name d = Some k"
  shows "length (wk_values k) = length (rs_rows rows)"
  using assms
  by (auto simp: plan_window_gather_key_def plan_materialize_rowset_item_def qe_gather_string_column_def
      qe_gather_numeric_column_def Let_def split: option.splits if_splits)

lemma partition_keys_shape:
  "window_partition_keys env rows cs m = Some ks \<Longrightarrow> \<forall>k \<in> set ks. length (wk_values k) = length (rs_rows rows)"
  by (induction env rows cs m arbitrary: ks rule: window_partition_keys.induct)
    (auto simp: gather_key_shape split: if_splits bind_splits)

lemma order_keys_shape:
  "window_order_keys env rows cs m = Some ks \<Longrightarrow> \<forall>k \<in> set ks. length (wk_values k) = length (rs_rows rows)"
  by (induction env rows cs m arbitrary: ks rule: window_order_keys.induct)
    (auto simp: gather_key_shape split: if_splits bind_splits)

lemma window_call_shape:
  assumes "window_call_of env wenv rows call = Some (w, out)"
  shows "\<forall>k \<in> set (wc_parts w @ wc_orders w). length (wk_values k) = length (rs_rows rows)"
    "0 \<le> wc_offset w" "wc_offset w = 1 \<or> (\<exists>x. wc_offset w = we_to_s64 wenv x)"
proof -
  obtain f parts orders src src_column offset default_ir where *:
    "window_keys env rows call = Some (parts, orders)" "window_offset env wenv f (window_args call) = Some (offset, default_ir)"
    "wc_parts w = parts" "wc_orders w = orders" "wc_offset w = offset"
    using assms by (auto simp: window_call_of_def Let_def split: bind_splits)
  then show "\<forall>k \<in> set (wc_parts w @ wc_orders w). length (wk_values k) = length (rs_rows rows)"
    using partition_keys_shape order_keys_shape by (auto simp: window_keys_def split: bind_splits)
  have "0 \<le> offset \<and> (offset = 1 \<or> (\<exists>x. offset = we_to_s64 wenv x))"
    using *(2) unfolding window_offset_def Let_def by (fastforce split: if_splits)
  then show "0 \<le> wc_offset w" "wc_offset w = 1 \<or> (\<exists>x. wc_offset w = we_to_s64 wenv x)" using *(5) by simp_all
qed

text \<open>What is assumed of the C library, the hardware and the packing of keys.\<close>

definition window_env_ok :: "window_env \<Rightarrow> bool" where
  "window_env_ok wenv \<longleftrightarrow> qsort_ok (se_qsort wenv) \<and> packed_ok (we_packed wenv) \<and> (\<forall>x. we_to_s64 wenv x < 2 ^ 63)"

definition clean_call :: "window_call \<Rightarrow> nat \<Rightarrow> bool" where
  "clean_call w n \<longleftrightarrow> (\<forall>i < n. window_ok (wc_parts w @ wc_orders w) i)"

lemma gpu_ranking_spec:
  assumes "gpu_ranking_writes env wenv w n = Some ws" "packed_ok (we_packed wenv)" "clean_call w n" "n < 2 ^ 32 - 1"
    "\<forall>k \<in> set (wc_parts w @ wc_orders w). length (wk_values k) = n"
  obtains L where "mset L = mset [0..<n]" "sorted_by (window_compare (wc_parts w @ wc_orders w)) L" "is_ranking (wc_func w)"
    "ws = map (\<lambda>i. (L ! i, count_value env (rank_of (wc_func w) (ranks_of_order (wc_parts w) (wc_orders w) L ! i)))) [0..<n]"
proof -
  let ?ks = "wc_parts w @ wc_orders w"
  have gate: "is_ranking (wc_func w)" "n \<ge> 4096" "plain_keys ?ks n"
    using assms(1,5) by (auto simp: gpu_ranking_writes_def Let_def list_ex_iff plain_keys_def split: if_splits)
  then obtain L ranks where L: "qe_window_rank_gpu wenv (map gpu_key ?ks) (length (wc_parts w)) n = Some (L, ranks)"
    "ws = map (\<lambda>(r, t). (r, count_value env (rank_of (wc_func w) t))) (zip L ranks)"
    using assms(1) by (auto simp: gpu_ranking_writes_def Let_def gpu_key_def [abs_def] split: if_splits)
  note spec = qe_window_rank_gpu_spec [OF L(1) gate(3) _ _ assms(4,2)]
  have "\<forall>i < n. window_ok ?ks i" "0 < n" using assms(3) gate(2) by (simp_all add: clean_call_def)
  note spec = spec [OF this]
  have len: "length L = n" using spec(1) by (metis length_upt mset_eq_length diff_zero)
  have "ws = map (\<lambda>i. (L ! i, count_value env (rank_of (wc_func w) (ranks ! i)))) [0..<n]"
    unfolding L(2) by (rule nth_equalityI) (simp_all add: len spec(3) ranks_of_order_def)
  then show thesis using that spec gate(1) by simp
qed

text \<open>Whichever way the column is computed, it is written once for every row.\<close>

lemma window_column:
  assumes "window_call_of env wenv rows call = Some (w, out)" "window_env_ok wenv" "clean_call w n" "n = length (rs_rows rows)" "n < 2 ^ 32 - 1"
  obtains col ws where "plan_window_compute env wenv rows call = Some col" "ac_type col = fst out"
    "\<And>r. r < n \<Longrightarrow> window_cell (Some col) r = the (map_of ws r)" "map_of ws = map_of (window_cpu_writes env wenv w n) \<or> gpu_ranking_writes env wenv w n = Some ws"
proof -
  obtain ty scale labels where out: "out = (ty, scale, labels)" by (cases out)
  define ws where "ws = (case gpu_ranking_writes env wenv w n of Some ws \<Rightarrow> ws | None \<Rightarrow> window_cpu_writes env wenv w n)"
  define c where "c = \<lparr>ac_name = [], ac_type = ty, ac_scale = scale, ac_enum = labels,
      ac_values = replicate n (if ty = ColString8 then L_str [] else L_num (F64_num 0)), ac_null = None\<rparr>"
  have compute: "plan_window_compute env wenv rows call = Some (fold (write_row n) ws c)"
    using assms(1) by (simp add: plan_window_compute_def out ws_def c_def Let_def assms(4) [symmetric])
  note shape = window_call_shape [OF assms(1)]
  have written: "mset (map fst ws) = mset [0..<n]"
  proof (cases "gpu_ranking_writes env wenv w n")
    case None
    have "we_to_s64 wenv x < 2 ^ 63" for x using assms(2) by (simp add: window_env_ok_def)
    then have bound: "wc_offset w < 2 ^ 63" using shape(3) by auto
    have "map fst (window_cpu_writes env wenv w n) = sort_by (plan_window_row_compare (wc_parts w @ wc_orders w)) [0..<n]"
    proof (cases "n = 0")
      case True
      then show ?thesis by (simp add: window_cpu_writes_def window_order_def)
    next
      case False
      then show ?thesis
        using window_cpu_reference(2) [of wenv n w 0 env] assms(2,3,5) shape(2) bound by (simp add: window_env_ok_def clean_call_def)
    qed
    then show ?thesis by (simp add: ws_def None)
  next
    case (Some ws')
    obtain L where "mset L = mset [0..<n]" "ws' = map (\<lambda>i. (L ! i, count_value env (rank_of (wc_func w) (ranks_of_order (wc_parts w) (wc_orders w) L ! i)))) [0..<n]"
      using gpu_ranking_spec [OF Some _ assms(3,5)] assms(2,4) shape(1) by (auto simp: window_env_ok_def)
    moreover then have "length L = n" by (metis length_upt mset_eq_length diff_zero)
    then have "map ((!) L) [0..<n] = L" using map_nth [of L] by simp
    ultimately show ?thesis by (simp add: ws_def Some comp_def)
  qed
  have ws: "distinct (map fst ws)" "fst ` set ws = {0..<n}"
    using mset_eq_imp_distinct_iff [OF written] mset_eq_setD [OF written] by simp_all
  have "window_cell (Some (fold (write_row n) ws c)) r = the (map_of ws r)" if "r < n" for r
  proof -
    have "window_cell (Some (fold (write_row n) ws c)) r = (case map_of ws r of Some v \<Rightarrow> v | None \<Rightarrow> window_cell (Some c) r)"
      by (rule write_rows_cell) (use ws that in \<open>auto simp: c_def null_at_def\<close>)
    moreover have "map_of ws r \<noteq> None" using ws(2) that by (simp add: map_of_eq_None_iff)
    ultimately show ?thesis by auto
  qed
  note cells = this
  have "ac_type (fold (write_row n) ws c) = fst out" using write_rows_type [of n ws c] by (simp add: c_def out)
  moreover have "map_of ws = map_of (window_cpu_writes env wenv w n) \<or> gpu_ranking_writes env wenv w n = Some ws"
    by (cases "gpu_ranking_writes env wenv w n") (simp_all add: ws_def)
  ultimately show thesis using that [OF compute] cells by blast
qed

text \<open>On the CPU and on the GPU a row number is the place of the row in its partition, for some sorted order.\<close>

lemma window_rows_partition:
  "set (window_partition w n r) = {s. s < n \<and> window_compare (wc_parts w) s r = 0}"
  by (auto simp: window_partition_def)

lemma ranked_part_set:
  assumes "ranked (window_compare ps) oc L" "mset L = mset [0..<n]"
  shows "set (ranked.part (window_compare ps) L r) = {s. s < n \<and> window_compare ps s r = 0}"
  using mset_eq_setD [OF assms(2)] by (auto simp: ranked.part_def [OF assms(1)])

lemma column_values:
  assumes "window_call_of env wenv rows call = Some (w, out)" "window_env_ok wenv" "clean_call w n" "n = length (rs_rows rows)" "n < 2 ^ 32 - 1"
  obtains col L where "plan_window_compute env wenv rows call = Some col" "ac_type col = fst out"
    "ranked (window_compare (wc_parts w)) (window_compare (wc_orders w)) L" "mset L = mset [0..<n]"
    "\<And>r. r < n \<Longrightarrow> window_cell (Some col) r =
       (if wc_func w = W_row_number then count_value env (place_of (ranked.part (window_compare (wc_parts w)) L r) r + 1)
        else window_reference env wenv w n r)"
proof -
  let ?ks = "wc_parts w @ wc_orders w"
  let ?pc = "window_compare (wc_parts w)" and ?oc = "window_compare (wc_orders w)"
  note shape = window_call_shape [OF assms(1)]
  have env_ok: "qsort_ok (se_qsort wenv)" "packed_ok (we_packed wenv)" "wc_offset w < 2 ^ 63"
    using assms(2) shape(3) by (auto simp: window_env_ok_def)
  have ok: "\<forall>i < n. window_ok ?ks i" using assms(3) by (simp add: clean_call_def)
  obtain col ws where col: "plan_window_compute env wenv rows call = Some col" "ac_type col = fst out"
    "\<And>r. r < n \<Longrightarrow> window_cell (Some col) r = the (map_of ws r)"
    "map_of ws = map_of (window_cpu_writes env wenv w n) \<or> gpu_ranking_writes env wenv w n = Some ws"
    using window_column [OF assms] by blast
  from col(4) show thesis
  proof
    assume cpu: "map_of ws = map_of (window_cpu_writes env wenv w n)"
    define L where "L = sort_by (plan_window_row_compare ?ks) [0..<n]"
    have L: "mset L = mset [0..<n]" by (simp add: L_def)
    have "sorted_by (window_compare ?ks) L"
      unfolding L_def by (rule sorted_rows_keys, rule window_rows_order.sorted_sort_by) (use ok in simp)
    then have ranked: "ranked ?pc ?oc L" by (rule ranked_positions(1) [OF ok L])
    have "window_partition w n r = ranked.part ?pc L r" for r
      unfolding ranked.part_def [OF ranked] window_partition_def by (simp only: L_def)
    then show thesis
      using that [OF col(1,2) ranked L] col(3) window_cpu_reference(1) [OF env_ok(1) ok _ shape(2) env_ok(3), of _ env] assms(5)
      by (auto simp: cpu window_reference_def Let_def)
  next
    assume "gpu_ranking_writes env wenv w n = Some ws"
    then obtain L where L: "mset L = mset [0..<n]" "sorted_by (window_compare ?ks) L" "is_ranking (wc_func w)"
      "ws = map (\<lambda>i. (L ! i, count_value env (rank_of (wc_func w) (ranks_of_order (wc_parts w) (wc_orders w) L ! i)))) [0..<n]"
      using gpu_ranking_spec [OF _ env_ok(2) assms(3,5), of env] shape(1) assms(4) by auto
    note ranked = ranked_positions(1) [OF ok L(1,2)]
    have len: "length L = n" using L(1) by (metis length_upt mset_eq_length diff_zero)
    have "window_cell (Some col) r =
       (if wc_func w = W_row_number then count_value env (place_of (ranked.part ?pc L r) r + 1) else window_reference env wenv w n r)"
      if "r < n" for r
    proof -
      have "r \<in> set L" using mset_eq_setD [OF L(1)] that by simp
      then obtain i where i: "i < length L" "L ! i = r" by (auto simp: in_set_conv_nth)
      have "window_cell (Some col) r = count_value env (rank_of (wc_func w) (ranks_of_order (wc_parts w) (wc_orders w) L ! i))"
        using col(3) [OF that] map_of_nth [OF ranked.once [OF ranked] i(1),
            of "\<lambda>i. count_value env (rank_of (wc_func w) (ranks_of_order (wc_parts w) (wc_orders w) L ! i))"] i(2) len
        by (simp only: L(4) option.sel)
      also have "ranks_of_order (wc_parts w) (wc_orders w) L ! i =
          (place_of (ranked.part ?pc L r) r + 1, card (lower_rows ?oc (set (window_partition w n r)) r) + 1,
           card (lower_groups ?oc (set (window_partition w n r)) r) + 1)"
        using i ranked.position_ranks_spec [OF ranked i(1)] ranked.place_in_part [OF ranked i(1)]
        by (simp add: ranks_of_order_def ranked_part_set [OF ranked L(1)] window_rows_partition)
      finally show ?thesis using L(3) by (auto simp: is_ranking_def rank_of_def window_reference_def Let_def)
    qed
    then show thesis using that [OF col(1,2) ranked L(1)] by blast
  qed
qed



text \<open>C14: the three dispatches of \<open>prefix_sum.comp\<close> leave in every cell the sum of the cells before it, and the
  sum of all behind the last one, for any number of workgroups.\<close>

theorem prefix_sum_exclusive:
  "prefix_sum counts = map (\<lambda>i. sum_list (take i counts)) [0..<length counts + 1]"
  by (rule prefix_sums)

section \<open>Examples\<close>

definition ex_window_rows :: sort_rows where
  "ex_window_rows =
     \<lparr>rs_tables = [(\<lparr>table_name = ''t'',
        columns = [\<lparr>column_name = ''g'', column_ty = ColU32, decimal_scale = 0, enum_labels = None\<rparr>,
          \<lparr>column_name = ''x'', column_ty = ColU32, decimal_scale = 0, enum_labels = None\<rparr>],
        table_rows = [[Cell_num (F64_num 1), Cell_num (F64_num 7)], [Cell_num (F64_num 1), Cell_num (F64_num 5)],
          [Cell_num (F64_num 2), Cell_null], [Cell_num (F64_num 1), Cell_num (F64_num 5)]]\<rparr>, [])],
      rs_rows = [[Some 0], [Some 1], [Some 2], [Some 3]], rs_scores = None\<rparr>"

definition ex_window_env :: window_env where
  "ex_window_env =
     \<lparr>se_workers = 4, se_qsort = sort_by, se_packed = (\<lambda>_. None), se_narrow = id, se_kernel = True,
      we_add = (\<lambda>x y. case (x, y) of (F64_num a, F64_num b) \<Rightarrow> F64_num (a + b) | _ \<Rightarrow> F64_nan), we_div = (\<lambda>x y. F64_nan),
      we_to_s64 = (\<lambda>_. 1), we_device_lost = False, we_packed = (\<lambda>_. None), we_stale = (\<lambda>_. 0)\<rparr>"

definition ex_window_call :: "string8 \<Rightarrow> ir_node list \<Rightarrow> ir_node" where
  "ex_window_call f args =
     IR_Node IrAggregateCall f (args @
       [IR_Node IrWindow [] [IR_Node IrPartitionBy [] [IR_Node IrColumn ''g'' []], IR_Node IrOrderBy [] [IR_Node IrColumn ''x'' []]]])"

definition ex_call :: "window_func \<Rightarrow> window_call" where
  "ex_call f =
     \<lparr>wc_func = f,
      wc_parts = [\<lparr>wk_is_string = False, wk_descending = False,
        wk_values = [L_num (F64_num 1), L_num (F64_num 1), L_num (F64_num 2), L_num (F64_num 1)], wk_null = None\<rparr>],
      wc_orders = [\<lparr>wk_is_string = False, wk_descending = False,
        wk_values = [L_num (F64_num 7), L_num (F64_num 5), L_num (F64_num 0), L_num (F64_num 5)],
        wk_null = Some [False, False, True, False]\<rparr>],
      wc_src = (if f = W_agg Agg_sum then Some \<lparr>ac_name = [], ac_type = ColU32, ac_scale = 0, ac_enum = None,
          ac_values = [L_num (F64_num 7), L_num (F64_num 5), L_num (F64_num 0), L_num (F64_num 5)],
          ac_null = Some [False, False, True, False]\<rparr> else None),
      wc_star = False, wc_string = False, wc_offset = 1, wc_default = None\<rparr>"

lemma ex_calls:
  "window_call_of digit_env ex_window_env ex_window_rows (ex_window_call ''sum'' [IR_Node IrColumn ''x'' []]) =
     Some (ex_call (W_agg Agg_sum), ColU64, 0, None)"
  "window_call_of digit_env ex_window_env ex_window_rows (ex_window_call ''row_number'' []) =
     Some (ex_call W_row_number, ColU64, 0, None)"
  by code_simp+

lemma ex_window_ok: "window_env_ok ex_window_env" "clean_call (ex_call f) 4"
proof -
  show "window_env_ok ex_window_env"
    using qsort_ok_sort_by by (simp add: window_env_ok_def ex_window_env_def packed_ok_def)
  show "clean_call (ex_call f) 4"
    by (auto simp: clean_call_def ex_call_def window_ok_def null_at_def less_Suc_eq eval_nat_numeral)
qed



end
