(* ===== verification/Spec2Isabelle.thy ===== *)
theory Spec2Isabelle
  imports Sql_Parser_Roundtrip Ir_Gen Pg_Conform Opt_Props App_Props Qe_Window_Props
begin

text \<open>
  A verification library for ComputeQL, a columnar SQL database whose scans run on the GPU.

  \<^bold>\<open>The program.\<close> A client speaks the PostgreSQL protocol (\<open>src/src/server/\<close>). The text of a query is
  split into tokens and parsed (\<open>ir_gen/sql_parser.c\<close>), converted to the tree the rest works on
  (\<open>ir_gen/ir_gen.c\<close>) and executed (\<open>application.c\<close>): statements that change the database directly, a
  \<open>SELECT\<close> through a plan (\<open>planner/planner.c\<close>) that the optimizer rewrites (\<open>optimizer/optimizer.c\<close>) and
  the query engine runs (\<open>query_exec/query_exec.c\<close>) on the columns and indexes of \<open>cql/cql.c\<close>. A condition on
  one table is answered from an index, evaluated on the CPU, or compiled to bytecode and run by a shader
  (\<open>gpu/vulkan/shaders/scan_filter.comp\<close>).

  \<^bold>\<open>The theories.\<close> Each models one part, names its source in its first text block, and keeps the names of
  the code.
  \<^item> \<open>Cql_Prelude\<close>, \<open>Base_Strings\<close>, \<open>Base_Numbers\<close>, \<open>Base_Split\<close>, \<open>Base_Date\<close>: the base layer
    (\<open>base_strings.c\<close>, \<open>base_date.c\<close>). A string is a list of bytes; the length is a natural number and a
    \<open>U64\<close> that is computed wraps. Reads behind a table are a parameter or \<open>None\<close>.
  \<^item> \<open>Sql_Tokenizer\<close>; \<open>Sql_Parse_Ctx\<close>, \<open>Sql_Parser_Expr\<close>, \<open>Sql_Parser_Select\<close>, \<open>Sql_Parser_Stmt\<close>: the
    tokenizer and every parsing function. The cursor is a record passed along; a failed parse is a value
    with the recorded error. Mutual recursion runs on fuel, the number of tokens left plus a constant:
    \<open>Sql_Parser_Contract\<close> states the contract of a parsing function as a locale and \<open>Sql_Parser_Total\<close>
    shows that the fuel is never used up, so the results do not depend on it. \<open>Sql_Parser_Roundtrip\<close>:
    printed conditions are parsed back.
  \<^item> \<open>Ir_Gen\<close>: \<open>ir_generate_from_ast\<close> and the list of columns a query reads.
  \<^item> \<open>Pg_Wire\<close>, \<open>Pg_Params\<close>, \<open>Pg_Session\<close>, \<open>Pg_Server\<close>, \<open>Pg_Conform\<close>: framing, messages, bound
    parameters, prepared statements and portals, the handlers and the loop of a connection, and what a
    client may rely on. A connection is the bytes that will arrive, those that were sent and the room left
    for sending. Executing a query is the parameter \<open>run\<close>.
  \<^item> \<open>Cql_Types\<close>, \<open>Cql_Table\<close>, \<open>Cql_Value\<close>: column types, tables, values, decimal and enum text, the
    conversion to double on the CPU and in the shader. A double is an abstract number with the operations
    the code uses; the C library's and the hardware's conversions are the record \<open>num_env\<close>.
  \<^item> \<open>Cql_Order\<close>, \<open>Cql_Index\<close>: comparison functions as a locale, binary search, and indexes as permutations
    of the row numbers.
  \<^item> \<open>Qe_Rows\<close>, \<open>Qe_Index\<close>: a condition on a row (the reference all other evaluations are compared with),
    the scan on the CPU and the scan through an index.
  \<^item> \<open>Qe_Bytecode\<close>, \<open>Qe_Vm\<close>, \<open>Qe_Compile\<close>, \<open>Qe_Scan\<close>: the compiler, the shader's interpreter, the proof
    that they agree with the reference, and the choice between the three ways to filter.
  \<^item> \<open>Opt_Ir\<close>, \<open>Opt_Flat\<close>, \<open>Opt_Plan\<close>, \<open>Opt_Fold\<close>, \<open>Opt_Propagate\<close>, \<open>Opt_Rewrite\<close>,
    \<open>Opt_Rewrite_Sound\<close>, \<open>Opt_Props\<close>: the optimizer's rewriting of the FROM and WHERE clauses.
    \<open>Opt_Plan\<close> gives a plan the rows it stands for, \<open>Opt_Flat\<close> is the order-independent description
    both the written and the rewritten plan are compared with. The estimates that choose the join order are
    a parameter.
  \<^item> \<open>App_Db\<close>, \<open>App_Integrity\<close>, \<open>App_Props\<close>: statements that change a database, constraints, and that
    they hold after any run of statements.
  \<^item> \<open>Qe_Order\<close>, \<open>Qe_Bitonic\<close>, \<open>Qe_Sort\<close>, \<open>Qe_Sort_Props\<close>: \<open>ORDER BY\<close>, \<open>LIMIT\<close> and \<open>OFFSET\<close>. Merge
    sort and heaps over positions with a strict order (the locale \<open>before_order\<close>), the division of the rows
    among threads, the sorting network of the shaders (by the principle of zero and one), sort and top-n
    nodes of a plan. \<open>qsort\<close> is a parameter that is known to sort.
  \<^item> \<open>Qe_Window\<close>, \<open>Qe_Prefix_Sum\<close>, \<open>Qe_Rank\<close>, \<open>Qe_Window_Props\<close>: window functions. \<open>Qe_Window\<close> has the
    keys, the arguments, the loop of the planner over partitions and groups of peers, the four shaders that
    rank on the GPU and the columns of the result; \<open>Qe_Prefix_Sum\<close> shows what the prefix sum and the shaders
    around it compute, \<open>Qe_Rank\<close> what a pass over sorted rows computes, over any two comparisons (the locale
    \<open>ranked\<close>), and \<open>Qe_Window_Props\<close> that every way gives what the function is defined to give. The sum of
    two doubles is a parameter and no law is asked of it: a frame is added up in the order of the window. Keys
    that were packed into 64 bits are a parameter that is known to agree with the order of the rows.

  \<^bold>\<open>What is shown.\<close> For each part a well-formedness invariant that its operations keep (parser cursors,
  sessions, indexes, databases); the results on every branch, errors included; that optimised routines agree
  with a plain reference (index scan, GPU scan, placeholder substitution, rewriting); that loops end; round
  trips of printed and parsed values; and, where the code does not do what it means to, theorems that show
  the case (a swallowed quote, a date that does not exist, a condition that is compiled to true, a renamed
  table). The theorems that are properties of the program carry their number in the text before them.

  \<^bold>\<open>Bounds.\<close> The capacities of the code (tokens, constants, strings, bindings, stack of the interpreter,
  names and messages) are arguments or definitions with the values of the code; where a theorem needs that
  one is not exceeded, it says so.

  \<^bold>\<open>Not modelled.\<close> Files on disk (saving, loading, CSV import, disk-backed columns); memory arenas; threads;
  the transfer of columns to the device and the pipeline that overlaps it with the scan; grouped
  aggregates, whose floating-point sums depend on the order of the additions; joins; statistics and the cost
  model, which choose between plans with the same rows; the graphical and operating-system layers, the
  client, the tests and the vendored libraries.
\<close>

end
